(* ===== verification/Prelude.thy ===== *)
theory Prelude
  imports
    Complex_Main
    "HOL-Library.AList"
    "HOL-Library.Multiset"
    "HOL-Library.Product_Lexorder"
    "HOL-Library.List_Lexorder"
    "HOL-Library.Char_ord"
    "HOL-Library.Sublist"
begin

text \<open>
  Shared vocabulary of the development: the pieces of Python's standard library the
  profiler uses everywhere (dictionaries with insertion order, grouping with
  \<open>setdefault(k, []).append(v)\<close>, \<open>max(xs, key=f)\<close>, \<open>bisect\<close>), with the lemmas about
  them that the component theories rest on. Python integers are \<open>int\<close>, text is \<open>string\<close>.
\<close>

named_theorems dict_simps \<open>lookups after an update of an insertion-ordered dictionary\<close>
named_theorems cell_simps \<open>the nanosecond cells of intervals\<close>

section \<open>Dictionaries\<close>

text \<open>
  A Python \<open>dict\<close> keeps insertion order; updating an existing key keeps its place. That
  is \<open>AList.update\<close> on an association list with distinct keys, and \<open>pop\<close> is
  \<open>AList.delete\<close>.
\<close>

type_synonym ('k, 'v) dict = "('k \<times> 'v) list"

definition dict_get :: "('k, 'v) dict \<Rightarrow> 'k \<Rightarrow> 'v \<Rightarrow> 'v" where
  "dict_get d k v0 = (case map_of d k of None \<Rightarrow> v0 | Some v \<Rightarrow> v)"

definition dict_append :: "'k \<Rightarrow> 'v \<Rightarrow> ('k, 'v list) dict \<Rightarrow> ('k, 'v list) dict" where
  "dict_append k v d = AList.update k (dict_get d k [] @ [v]) d"

definition dict_add :: "'k \<Rightarrow> 'v::monoid_add \<Rightarrow> ('k, 'v) dict \<Rightarrow> ('k, 'v) dict" where
  "dict_add k n d = AList.update k (dict_get d k 0 + n) d"

definition group_by :: "('a \<Rightarrow> 'k) \<Rightarrow> 'a list \<Rightarrow> ('k, 'a list) dict" where
  "group_by key xs = fold (\<lambda>x. dict_append (key x) x) xs []"

abbreviation dict_ok :: "('k, 'v) dict \<Rightarrow> bool" where
  "dict_ok d \<equiv> distinct (map fst d)"

lemma dict_ok_Nil [simp]: "dict_ok []"
  by simp

lemma dict_ok_update [intro]: "dict_ok d \<Longrightarrow> dict_ok (AList.update k v d)"
  by (rule distinct_update)

lemma dict_ok_append [intro]: "dict_ok d \<Longrightarrow> dict_ok (dict_append k v d)"
  by (simp add: dict_append_def distinct_update)

lemma dict_ok_add [intro]: "dict_ok d \<Longrightarrow> dict_ok (dict_add k v d)"
  by (simp add: dict_add_def distinct_update)

lemma dict_get_Nil [simp, dict_simps]: "dict_get [] k v = v"
  by (simp add: dict_get_def)

lemma dict_get_update [simp, dict_simps]:
  "dict_get (AList.update k v d) k' v0 = (if k' = k then v else dict_get d k' v0)"
  by (simp add: dict_get_def update_conv')

lemma dict_get_append [simp, dict_simps]:
  "dict_get (dict_append k v d) k' [] = dict_get d k' [] @ (if k' = k then [v] else [])"
  by (simp add: dict_append_def)

lemma dict_get_add [simp, dict_simps]:
  "dict_get (dict_add k n d) k' 0 = dict_get d k' 0 + (if k' = k then n else 0)"
  by (simp add: dict_add_def)

text \<open>The sum of a dictionary's values.\<close>

definition dict_total :: "('k, 'v::comm_monoid_add) dict \<Rightarrow> 'v" where
  "dict_total d = sum_list (map snd d)"

lemma dict_total_Nil [simp]: "dict_total [] = 0"
  by (simp add: dict_total_def)

lemma dict_total_update:
  "dict_total (AList.update k v d) + dict_get d k 0 = dict_total d + v"
proof (induction d)
  case (Cons p d)
  then show ?case by (cases p) (auto simp: dict_total_def dict_get_def add.assoc add.commute add.left_commute)
qed (simp add: dict_total_def dict_get_def)

lemma dict_total_add [simp]:
  "dict_total (dict_add k (n :: 'v::ab_group_add) d) = dict_total d + n"
  using dict_total_update [of k "dict_get d k 0 + n" d] by (simp add: dict_add_def algebra_simps)

lemma keys_update: "fst ` set (AList.update k v d) = insert k (fst ` set d)"
  by (simp add: dom_update)

lemma keys_append [simp]: "fst ` set (dict_append k v d) = insert k (fst ` set d)"
  by (simp add: dict_append_def keys_update)

lemma keys_add [simp]: "fst ` set (dict_add k v d) = insert k (fst ` set d)"
  by (simp add: dict_add_def keys_update)

lemma map_of_dict_get: "map_of d k = Some v \<Longrightarrow> dict_get d k v0 = v"
  by (simp add: dict_get_def)

lemma dict_get_not_in: "k \<notin> fst ` set d \<Longrightarrow> dict_get d k v0 = v0"
  by (simp add: dict_get_def map_of_eq_None_iff [THEN iffD2])

subsection \<open>Grouping\<close>

lemma fold_append_get:
  "dict_get (fold (\<lambda>x. dict_append (key x) x) xs d) k [] = dict_get d k [] @ filter (\<lambda>x. key x = k) xs"
  by (induction xs arbitrary: d) auto

lemma group_by_get [simp]: "dict_get (group_by key xs) k [] = filter (\<lambda>x. key x = k) xs"
  by (simp add: group_by_def fold_append_get)

lemma fold_append_keys:
  "fst ` set (fold (\<lambda>x. dict_append (key x) x) xs d) = fst ` set d \<union> key ` set xs"
  by (induction xs arbitrary: d) auto

lemma group_by_keys [simp]: "fst ` set (group_by key xs) = key ` set xs"
  by (simp add: group_by_def fold_append_keys)

lemma fold_append_ok: "dict_ok d \<Longrightarrow> dict_ok (fold (\<lambda>x. dict_append (key x) x) xs d)"
  by (induction xs arbitrary: d) (auto intro: dict_ok_append)

lemma group_by_ok [simp]: "dict_ok (group_by key xs)"
  unfolding group_by_def by (rule fold_append_ok) simp

lemma group_by_entry:
  assumes "(k, ys) \<in> set (group_by key xs)"
  shows "ys = filter (\<lambda>x. key x = k) xs" and "ys \<noteq> []"
proof -
  have "map_of (group_by key xs) k = Some ys"
    using assms group_by_ok by (simp add: map_of_is_SomeI)
  then show ys: "ys = filter (\<lambda>x. key x = k) xs"
    using group_by_get [of key xs k] by (simp add: dict_get_def)
  have "k \<in> key ` set xs" using assms group_by_keys by (metis fst_conv image_eqI)
  then show "ys \<noteq> []" unfolding ys by (auto simp: filter_empty_conv)
qed

text \<open>The groups of a list are the list, rearranged.\<close>

lemma mset_dict_append: "mset (concat (map snd (dict_append k x d))) = add_mset x (mset (concat (map snd d)))"
proof (induction d)
  case (Cons p d)
  then show ?case by (cases p) (auto simp: dict_append_def dict_get_def)
qed (simp add: dict_append_def dict_get_def)

lemma mset_group_by: "mset (concat (map snd (group_by key xs))) = mset xs"
proof -
  have "mset (concat (map snd (fold (\<lambda>x. dict_append (key x) x) xs d))) = mset xs + mset (concat (map snd d))" for d
    by (induction xs arbitrary: d) (simp_all add: mset_dict_append)
  then show ?thesis by (simp add: group_by_def)
qed

lemma group_by_map_of:
  "map_of (group_by key xs) k = (if k \<in> key ` set xs then Some (filter (\<lambda>x. key x = k) xs) else None)"
proof (cases "map_of (group_by key xs) k")
  case None
  then show ?thesis using group_by_keys [of key xs] by (auto simp: map_of_eq_None_iff)
next
  case (Some ys)
  then have "(k, ys) \<in> set (group_by key xs)" by (rule map_of_SomeD)
  moreover from this have "k \<in> key ` set xs" using group_by_keys by (metis fst_conv image_eqI)
  ultimately show ?thesis using Some group_by_entry(1) by fastforce
qed

section \<open>Loops\<close>

text \<open>\<open>for i, x in enumerate(xs)\<close> and \<open>for i in range(n)\<close>, with an invariant.\<close>

lemma fold_enumerate_inv:
  assumes "P 0 s" "\<And>i s. i < length xs \<Longrightarrow> P i s \<Longrightarrow> P (Suc i) (f (i, xs ! i) s)"
  shows "P (length xs) (fold f (List.enumerate 0 xs) s)"
proof -
  have "P (length ys) (fold f (List.enumerate 0 ys) s)" if "prefix ys xs" for ys
    using that
  proof (induction ys rule: rev_induct)
    case (snoc y ys)
    then have "prefix ys xs" by (auto simp: prefix_def)
    with snoc.IH have "P (length ys) (fold f (List.enumerate 0 ys) s)" .
    moreover have "length ys < length xs" "xs ! length ys = y" using snoc.prems by (auto simp: prefix_def)
    ultimately show ?case using assms(2) [of "length ys"] by (simp add: enumerate_append_eq)
  qed (simp add: assms(1))
  then show ?thesis by simp
qed

lemma fold_range_inv:
  assumes "P 0 s" "\<And>i s. i < n \<Longrightarrow> P i s \<Longrightarrow> P (Suc i) (f i s)"
  shows "P n (fold f [0..<n] s)"
  using assms by (induction n) auto

text \<open>Reading an updated list at a valid index.\<close>

lemma nth_update: "v < length d \<Longrightarrow> d[u := x] ! v = (if v = u then x else d ! v)"
  by simp

section \<open>Python's max with a key\<close>

text \<open>\<open>max(xs, key=f)\<close> returns the first element with the largest key.\<close>

fun max_key_from :: "('a \<Rightarrow> 'b::linorder) \<Rightarrow> 'a \<Rightarrow> 'a list \<Rightarrow> 'a" where
  "max_key_from f b [] = b"
| "max_key_from f b (x # xs) = max_key_from f (if f b < f x then x else b) xs"

fun max_key :: "('a \<Rightarrow> 'b::linorder) \<Rightarrow> 'a list \<Rightarrow> 'a option" where
  "max_key f [] = None"
| "max_key f (x # xs) = Some (max_key_from f x xs)"

lemma max_key_from_in: "max_key_from f b xs \<in> insert b (set xs)"
proof (induction xs arbitrary: b)
  case (Cons x xs)
  from Cons.IH [of x] Cons.IH [of b] show ?case by auto
qed simp

lemma max_key_from_ge: "f b \<le> f (max_key_from f b xs) \<and> (\<forall>x\<in>set xs. f x \<le> f (max_key_from f b xs))"
proof (induction xs arbitrary: b)
  case (Cons x xs)
  then show ?case by (auto split: if_splits) (meson dual_order.trans not_less order.strict_implies_order)+
qed simp

lemma max_key_Some: "max_key f xs = Some m \<Longrightarrow> m \<in> set xs \<and> (\<forall>x\<in>set xs. f x \<le> f m)"
  by (cases xs) (use max_key_from_in max_key_from_ge in fastforce)+

lemma max_key_None [simp]: "max_key f xs = None \<longleftrightarrow> xs = []"
  by (cases xs) auto

text \<open>\<open>min(xs, key=f)\<close> returns the first element with the smallest key.\<close>

fun min_key_from :: "('a \<Rightarrow> 'b::linorder) \<Rightarrow> 'a \<Rightarrow> 'a list \<Rightarrow> 'a" where
  "min_key_from f b [] = b"
| "min_key_from f b (x # xs) = min_key_from f (if f x < f b then x else b) xs"

fun min_key :: "('a \<Rightarrow> 'b::linorder) \<Rightarrow> 'a list \<Rightarrow> 'a option" where
  "min_key f [] = None"
| "min_key f (x # xs) = Some (min_key_from f x xs)"

lemma min_key_from_in: "min_key_from f b xs \<in> insert b (set xs)"
proof (induction xs arbitrary: b)
  case (Cons x xs)
  from Cons.IH [of x] Cons.IH [of b] show ?case by auto
qed simp

lemma min_key_in: "min_key f xs = Some m \<Longrightarrow> m \<in> set xs"
  by (cases xs) (use min_key_from_in in fastforce)+

lemma min_key_None [simp]: "min_key f xs = None \<longleftrightarrow> xs = []"
  by (cases xs) auto

section \<open>Rounding\<close>

text \<open>\<open>round(x)\<close>: to the nearest integer, halves to the even one.\<close>

definition py_round :: "rat \<Rightarrow> int" where
  "py_round x =
     (let f = \<lfloor>x\<rfloor>; r = x - of_int f in
      if r < 1 / 2 then f else if r > 1 / 2 then f + 1 else if even f then f else f + 1)"

lemma py_round_near: "\<bar>of_int (py_round x) - x\<bar> \<le> 1 / 2"
proof -
  obtain n r where n: "n = \<lfloor>x\<rfloor>" "r = x - of_int n" by simp
  then have x: "x = of_int n + r" and r: "0 \<le> r" "r < 1" by (simp_all, linarith+)
  show ?thesis unfolding py_round_def Let_def n(1) [symmetric] n(2) [symmetric]
    using r by (auto simp: x abs_if)
qed

lemma py_round_int [simp]: "py_round (of_int n) = n"
  by (simp add: py_round_def)

section \<open>Binary search\<close>

text \<open>
  \<open>bisect.bisect_right\<close> and \<open>bisect.bisect_left\<close>: the loops over \<open>lo\<close> and \<open>hi\<close>, and what
  they return on a sorted list. \<open>lst[lo]\<close> is only read for \<open>lo < hi \<le> len(lst)\<close>.
\<close>

function bisect_loop :: "('a \<Rightarrow> bool) \<Rightarrow> 'a list \<Rightarrow> nat \<Rightarrow> nat \<Rightarrow> nat" where
  "bisect_loop before xs lo hi =
     (if lo < hi then
        (let mid = (lo + hi) div 2 in
         if before (xs ! mid) then bisect_loop before xs (Suc mid) hi else bisect_loop before xs lo mid)
      else lo)"
  by pat_completeness auto
termination
  by (relation "measure (\<lambda>(before, xs, lo, hi). hi - lo)") auto

declare bisect_loop.simps [simp del]

definition bisect_right :: "'a::linorder list \<Rightarrow> 'a \<Rightarrow> nat" where
  "bisect_right xs x = bisect_loop (\<lambda>y. y \<le> x) xs 0 (length xs)"

definition bisect_left :: "'a::linorder list \<Rightarrow> 'a \<Rightarrow> nat" where
  "bisect_left xs x = bisect_loop (\<lambda>y. y < x) xs 0 (length xs)"

text \<open>\<open>k\<close> splits \<open>xs\<close> into the elements before the searched value and the rest.\<close>

definition splits_at :: "('a \<Rightarrow> bool) \<Rightarrow> 'a list \<Rightarrow> nat \<Rightarrow> bool" where
  "splits_at before xs k \<longleftrightarrow> k \<le> length xs \<and> (\<forall>i<length xs. before (xs ! i) \<longleftrightarrow> i < k)"

lemma bisect_loop_splits:
  assumes "splits_at before xs k" and "lo \<le> k" "k \<le> hi" "hi \<le> length xs"
  shows "bisect_loop before xs lo hi = k"
  using assms(2-4)
proof (induction "hi - lo" arbitrary: lo hi rule: less_induct)
  case less
  show ?case
  proof (cases "lo < hi")
    case True
    define mid where "mid = (lo + hi) div 2"
    have mid: "lo \<le> mid" "mid < hi" using True by (auto simp: mid_def)
    then have b: "before (xs ! mid) \<longleftrightarrow> mid < k"
      using assms(1) less.prems(3) by (simp add: splits_at_def)
    have step: "bisect_loop before xs lo hi =
        (if mid < k then bisect_loop before xs (Suc mid) hi else bisect_loop before xs lo mid)"
      using True b by (simp add: bisect_loop.simps [of before xs lo hi] mid_def)
    show ?thesis
    proof (cases "mid < k")
      case True
      then have "bisect_loop before xs (Suc mid) hi = k"
        using mid less.prems by (intro less.hyps) auto
      with step True show ?thesis by simp
    next
      case False
      then have "bisect_loop before xs lo mid = k"
        using mid less.prems by (intro less.hyps) auto
      with step False show ?thesis by simp
    qed
  next
    case False
    with less.prems show ?thesis by (simp add: bisect_loop.simps [of before xs lo hi])
  qed
qed

lemma sorted_splits_takeWhile:
  assumes "\<And>x y. x \<le> y \<Longrightarrow> before y \<Longrightarrow> before x" and "sorted xs"
  shows "splits_at before xs (length (takeWhile before xs))"
  using assms(2)
proof (induction xs)
  case (Cons x xs)
  show ?case
  proof (cases "before x")
    case True
    then show ?thesis using Cons by (auto simp: splits_at_def nth_Cons split: nat.split)
  next
    case False
    then have "\<not> before y" if "y \<in> set (x # xs)" for y
      using that Cons.prems assms(1) by auto
    then have "\<forall>i<length (x # xs). \<not> before ((x # xs) ! i)" using nth_mem by blast
    then show ?thesis using False by (simp add: splits_at_def)
  qed
qed (simp add: splits_at_def)

lemma bisect_right_splits: "sorted xs \<Longrightarrow> splits_at (\<lambda>y. y \<le> x) xs (bisect_right xs x)"
proof -
  assume "sorted xs"
  then have s: "splits_at (\<lambda>y. y \<le> x) xs (length (takeWhile (\<lambda>y. y \<le> x) xs))"
    by (intro sorted_splits_takeWhile) auto
  then have "bisect_right xs x = length (takeWhile (\<lambda>y. y \<le> x) xs)"
    unfolding bisect_right_def by (intro bisect_loop_splits) (auto simp: length_takeWhile_le)
  with s show ?thesis by simp
qed

lemma bisect_left_splits: "sorted xs \<Longrightarrow> splits_at (\<lambda>y. y < x) xs (bisect_left xs x)"
proof -
  assume "sorted xs"
  then have s: "splits_at (\<lambda>y. y < x) xs (length (takeWhile (\<lambda>y. y < x) xs))"
    by (intro sorted_splits_takeWhile) auto
  then have "bisect_left xs x = length (takeWhile (\<lambda>y. y < x) xs)"
    unfolding bisect_left_def by (intro bisect_loop_splits) (auto simp: length_takeWhile_le)
  with s show ?thesis by simp
qed

end
