(* ===== verification/Events.thy ===== *)
theory Events
  imports Prelude
begin

text \<open>
  The event data model of \<^verbatim>\<open>src/src/core/events.py\<close>: the categories, the three event
  classes and their derived times. Timestamps are integer nanoseconds. Tags are the
  wire's string-valued pairs, kept as an insertion-ordered dictionary. The floating-point
  gauge of a counter is never computed with and is kept as a rational.
\<close>

datatype event_kind = SPAN | INSTANT | COUNTER

datatype category =
    CPU | GPU_CUDA | GPU_ROCM | GPU_OPENCL | OPENMP | MPI | NCCL | MEMORY | SYNC | JIT | NVTX
  | SCHED | OTHER | SYCL

fun category_value :: "category \<Rightarrow> string" where
  "category_value CPU = ''cpu''"
| "category_value GPU_CUDA = ''cuda''"
| "category_value GPU_ROCM = ''rocm''"
| "category_value GPU_OPENCL = ''opencl''"
| "category_value OPENMP = ''openmp''"
| "category_value MPI = ''mpi''"
| "category_value NCCL = ''nccl''"
| "category_value MEMORY = ''memory''"
| "category_value SYNC = ''sync''"
| "category_value JIT = ''jit''"
| "category_value NVTX = ''nvtx''"
| "category_value SCHED = ''sched''"
| "category_value OTHER = ''other''"
| "category_value SYCL = ''sycl''"

text \<open>Iterating the enumeration gives its members in declaration order.\<close>

definition categories :: "category list" where
  "categories = [CPU, GPU_CUDA, GPU_ROCM, GPU_OPENCL, OPENMP, MPI, NCCL, MEMORY, SYNC, JIT, NVTX,
     SCHED, OTHER, SYCL]"

type_synonym tags = "(string, string) dict"

record span_event =
  name :: string
  category :: category
  start_ns :: int
  duration_ns :: int
  pid :: int
  tid :: int
  tags :: tags
  stack_frames :: "string list"
  span_id :: string
  parent_span_id :: string
  eid :: int
  seq :: int

record instant_event =
  i_name :: string
  i_category :: category
  i_timestamp_ns :: int
  i_pid :: int
  i_tid :: int
  i_tags :: tags
  i_eid :: int
  i_seq :: int

record counter_event =
  k_name :: string
  k_category :: category
  k_timestamp_ns :: int
  k_value :: rat
  k_unit :: string
  k_pid :: int
  k_eid :: int
  k_seq :: int

datatype any_event = SpanEv span_event | InstantEv instant_event | CounterEv counter_event

definition end_ns :: "span_event \<Rightarrow> int" where
  "end_ns s = start_ns s + duration_ns s"

text \<open>\<open>span.tags.get(key)\<close> and the tests the code makes on its result.\<close>

definition tag :: "span_event \<Rightarrow> string \<Rightarrow> string option" where
  "tag s k = map_of (tags s) k"

abbreviation tag_is :: "span_event \<Rightarrow> string \<Rightarrow> string \<Rightarrow> bool" where
  "tag_is s k v \<equiv> tag s k = Some v"

definition tag_in :: "span_event \<Rightarrow> string \<Rightarrow> string list \<Rightarrow> bool" where
  "tag_in s k vs = (case tag s k of None \<Rightarrow> False | Some v \<Rightarrow> v \<in> set vs)"

text \<open>A missing tag and an empty one are both false in a condition.\<close>

definition tag_truthy :: "span_event \<Rightarrow> string \<Rightarrow> bool" where
  "tag_truthy s k = (case tag s k of None \<Rightarrow> False | Some v \<Rightarrow> v \<noteq> [])"

definition set_tag :: "string \<Rightarrow> string \<Rightarrow> span_event \<Rightarrow> span_event" where
  "set_tag k v s = s\<lparr>tags := AList.update k v (tags s)\<rparr>"

definition is_legacy_host_jit_kernel :: "string \<Rightarrow> string option \<Rightarrow> bool" where
  "is_legacy_host_jit_kernel cat typ \<longleftrightarrow> cat = ''opencl'' \<and> typ = Some ''jit_kernel''"

text \<open>The dataclass defaults of a span, as the code builds one.\<close>

definition mk_span :: "string \<Rightarrow> category \<Rightarrow> int \<Rightarrow> int \<Rightarrow> int \<Rightarrow> int \<Rightarrow> tags \<Rightarrow> span_event" where
  "mk_span n c st du p t tg = \<lparr>name = n, category = c, start_ns = st, duration_ns = du, pid = p,
     tid = t, tags = tg, stack_frames = [], span_id = [], parent_span_id = [], eid = -1, seq = -1\<rparr>"

section \<open>Lemmas\<close>

instantiation category :: linorder
begin

text \<open>Categories are ordered as their codes are: by declaration order.\<close>

fun category_code :: "category \<Rightarrow> nat" where
  "category_code CPU = 0"
| "category_code GPU_CUDA = 1"
| "category_code GPU_ROCM = 2"
| "category_code GPU_OPENCL = 3"
| "category_code OPENMP = 4"
| "category_code MPI = 5"
| "category_code NCCL = 6"
| "category_code MEMORY = 7"
| "category_code SYNC = 8"
| "category_code JIT = 9"
| "category_code NVTX = 10"
| "category_code SCHED = 11"
| "category_code OTHER = 12"
| "category_code SYCL = 13"

definition less_eq_category :: "category \<Rightarrow> category \<Rightarrow> bool" where
  "less_eq_category a b \<longleftrightarrow> category_code a \<le> category_code b"

definition less_category :: "category \<Rightarrow> category \<Rightarrow> bool" where
  "less_category a b \<longleftrightarrow> category_code a < category_code b"

instance
proof
  fix a b :: category
  assume "a \<le> b" "b \<le> a"
  then have "category_code a = category_code b" by (simp add: less_eq_category_def)
  then show "a = b" by (cases a; cases b) simp_all
qed (auto simp: less_eq_category_def less_category_def)

end

lemma category_value_inj [simp]: "category_value a = category_value b \<longleftrightarrow> a = b"
  by (cases a; cases b) simp_all

lemma category_in_categories [simp]: "c \<in> set categories"
  by (cases c) (simp_all add: categories_def)

lemma categories_distinct: "distinct categories"
  by (simp add: categories_def)

lemma category_code_nth: "categories ! category_code c = c"
  by (cases c) (simp_all add: categories_def)

lemma category_value_nonempty [simp]: "category_value c \<noteq> []"
  by (cases c) simp_all

lemma tag_set_tag [simp]: "tag (set_tag k v s) k' = (if k' = k then Some v else tag s k')"
  by (simp add: tag_def set_tag_def update_conv')

lemma set_tag_fields [simp]:
  "name (set_tag k v s) = name s" "category (set_tag k v s) = category s"
  "start_ns (set_tag k v s) = start_ns s" "duration_ns (set_tag k v s) = duration_ns s"
  "pid (set_tag k v s) = pid s" "tid (set_tag k v s) = tid s" "eid (set_tag k v s) = eid s"
  "seq (set_tag k v s) = seq s" "end_ns (set_tag k v s) = end_ns s"
  "span_id (set_tag k v s) = span_id s" "parent_span_id (set_tag k v s) = parent_span_id s"
  "stack_frames (set_tag k v s) = stack_frames s"
  by (simp_all add: set_tag_def end_ns_def)

lemma mk_span_fields [simp]:
  "name (mk_span n c st du p t tg) = n" "category (mk_span n c st du p t tg) = c"
  "start_ns (mk_span n c st du p t tg) = st" "duration_ns (mk_span n c st du p t tg) = du"
  "pid (mk_span n c st du p t tg) = p" "tid (mk_span n c st du p t tg) = t"
  "tags (mk_span n c st du p t tg) = tg" "end_ns (mk_span n c st du p t tg) = st + du"
  "seq (mk_span n c st du p t tg) = -1" "eid (mk_span n c st du p t tg) = -1"
  "stack_frames (mk_span n c st du p t tg) = []" "span_id (mk_span n c st du p t tg) = []"
  "parent_span_id (mk_span n c st du p t tg) = []"
  by (simp_all add: mk_span_def end_ns_def)

end
