(* ===== verification/Heapq.thy ===== *)
theory Heapq
  imports Prelude
begin

text \<open>
  The \<open>heapq\<close> module as the profiler uses it: \<open>heappush\<close>, \<open>heap[0]\<close> and \<open>heappop\<close> on
  tuples under Python's tuple order. What the callers observe of a heap is its smallest
  element; the model keeps the heap's elements in order, and the locale \<open>heap_queue\<close> states
  the contract over the multiset of elements. \<open>drop_ended\<close> is the callers' lazy deletion:
  \<open>while heap and heap[0] is marked: heappop(heap)\<close>.
\<close>

definition heappush :: "'a::linorder \<Rightarrow> 'a list \<Rightarrow> 'a list" where
  "heappush x h = insort x h"

fun heappeek :: "'a::linorder list \<Rightarrow> 'a option" where
  "heappeek [] = None"
| "heappeek (x # h) = Some x"

fun heappop :: "'a::linorder list \<Rightarrow> 'a list" where
  "heappop [] = []"
| "heappop (x # h) = h"

locale heap_queue =
  fixes push :: "'a::linorder \<Rightarrow> 'h \<Rightarrow> 'h" and peek :: "'h \<Rightarrow> 'a option" and pop :: "'h \<Rightarrow> 'h"
    and elems :: "'h \<Rightarrow> 'a multiset" and hinv :: "'h \<Rightarrow> bool"
  assumes push_inv: "hinv h \<Longrightarrow> hinv (push x h)"
    and pop_inv: "hinv h \<Longrightarrow> hinv (pop h)"
    and push_elems: "hinv h \<Longrightarrow> elems (push x h) = add_mset x (elems h)"
    and peek_None: "hinv h \<Longrightarrow> peek h = None \<longleftrightarrow> elems h = {#}"
    and peek_Some: "hinv h \<Longrightarrow> peek h = Some x \<Longrightarrow> x \<in># elems h \<and> (\<forall>y\<in>#elems h. x \<le> y)"
    and pop_elems: "hinv h \<Longrightarrow> peek h = Some x \<Longrightarrow> elems (pop h) = elems h - {#x#}"
begin

lemma peek_Min: "hinv h \<Longrightarrow> peek h = Some x \<Longrightarrow> x = Min (set_mset (elems h))"
  using peek_Some by (intro Min_eqI [symmetric]) auto

lemma pop_elems_add: "hinv h \<Longrightarrow> peek h = Some x \<Longrightarrow> elems h = add_mset x (elems (pop h))"
  using pop_elems peek_Some by (metis insert_DiffM)

text \<open>Popping the smallest of a duplicate-free heap removes exactly that element.\<close>

lemma pop_set:
  assumes "hinv h" "peek h = Some x" "\<forall>y. count (elems h) y \<le> 1"
  shows "set_mset (elems (pop h)) = set_mset (elems h) - {x}"
proof -
  have e: "elems h = add_mset x (elems (pop h))" using assms(1,2) by (rule pop_elems_add)
  then have "count (elems (pop h)) x = 0" using assms(3) [rule_format, of x] by simp
  then have "x \<notin># elems (pop h)" by (simp add: not_in_iff)
  then show ?thesis unfolding e by auto
qed

end

interpretation hq: heap_queue heappush heappeek heappop mset sorted
proof
  fix h :: "'a list" and x
  show "sorted h \<Longrightarrow> sorted (heappush x h)" by (simp add: heappush_def sorted_insort)
  show "sorted h \<Longrightarrow> sorted (heappop h)" by (cases h) auto
  show "sorted h \<Longrightarrow> mset (heappush x h) = add_mset x (mset h)"
    by (simp add: heappush_def)
  show "sorted h \<Longrightarrow> (heappeek h = None) = (mset h = {#})" by (cases h) auto
  show "sorted h \<Longrightarrow> heappeek h = Some x \<Longrightarrow> x \<in># mset h \<and> (\<forall>y\<in>#mset h. x \<le> y)"
    by (cases h) auto
  show "sorted h \<Longrightarrow> heappeek h = Some x \<Longrightarrow> mset (heappop h) = mset h - {#x#}"
    by (cases h) auto
qed

lemma set_heappush [simp]: "set (heappush x h) = insert x (set h)"
  by (simp add: heappush_def set_insort_key)

lemma distinct_heappush [simp]: "distinct (heappush x h) \<longleftrightarrow> x \<notin> set h \<and> distinct h"
  by (simp add: heappush_def distinct_insort)

section \<open>Lazy deletion\<close>

text \<open>
  Entries carry the index of their span in the last component; \<open>ended\<close> holds the indices
  whose end has been seen. The first form keeps the marks (\<open>ExclusiveTime\<close>), the second
  discards the mark of every popped entry (\<open>exclusive_thread_sweep\<close>).
\<close>

fun drop_ended :: "nat set \<Rightarrow> (int \<times> int \<times> nat) list \<Rightarrow> (int \<times> int \<times> nat) list" where
  "drop_ended ended [] = []"
| "drop_ended ended ((a, b, i) # h) = (if i \<in> ended then drop_ended ended h else (a, b, i) # h)"

end
