(* ===== verification/Intervals.thy ===== *)
theory Intervals
  imports Prelude
begin

text \<open>
  The streaming interval algorithms: \<open>union_length\<close> and \<open>union_intervals\<close> of
  \<^verbatim>\<open>src/src/core/store/common.py\<close>, \<open>merged_length\<close> of \<^verbatim>\<open>src/src/core/gpu_activity.py\<close> and
  \<open>_merge_intervals\<close> of \<^verbatim>\<open>src/src/analysis/cct.py\<close>. All of them measure the union of
  half-open intervals \<open>[lo, hi)\<close> of integer nanoseconds; the reference is the number of
  nanosecond cells the intervals cover. The locale \<open>union_measure\<close> is the contract the
  clients (GPU-active time, exclusive time, lane occupancy) rely on.
\<close>

type_synonym interval = "int \<times> int"

definition cells :: "interval list \<Rightarrow> int set" where
  "cells ivs = (\<Union>(lo, hi)\<in>set ivs. {lo..<hi})"

definition proper :: "interval list \<Rightarrow> bool" where
  "proper ivs \<longleftrightarrow> (\<forall>(lo, hi)\<in>set ivs. lo \<le> hi)"

section \<open>The code\<close>

fun union_length_loop :: "int \<Rightarrow> interval option \<Rightarrow> interval list \<Rightarrow> int" where
  "union_length_loop tot cur [] = (case cur of None \<Rightarrow> tot | Some (cur_lo, cur_hi) \<Rightarrow> tot + (cur_hi - cur_lo))"
| "union_length_loop tot cur ((lo, hi) # ivs) =
     (if hi \<le> lo then union_length_loop tot cur ivs
      else case cur of
        None \<Rightarrow> union_length_loop tot (Some (lo, hi)) ivs
      | Some (cur_lo, cur_hi) \<Rightarrow>
          if cur_hi < lo then union_length_loop (tot + (cur_hi - cur_lo)) (Some (lo, hi)) ivs
          else if cur_hi < hi then union_length_loop tot (Some (cur_lo, hi)) ivs
          else union_length_loop tot cur ivs)"

definition union_length :: "interval list \<Rightarrow> int" where
  "union_length ivs = union_length_loop 0 None ivs"

fun union_intervals_loop :: "interval option \<Rightarrow> interval list \<Rightarrow> interval list" where
  "union_intervals_loop cur [] = (case cur of None \<Rightarrow> [] | Some c \<Rightarrow> [c])"
| "union_intervals_loop cur ((lo, hi) # ivs) =
     (if hi \<le> lo then union_intervals_loop cur ivs
      else case cur of
        None \<Rightarrow> union_intervals_loop (Some (lo, hi)) ivs
      | Some (cur_lo, cur_hi) \<Rightarrow>
          if cur_hi < lo then (cur_lo, cur_hi) # union_intervals_loop (Some (lo, hi)) ivs
          else if cur_hi < hi then union_intervals_loop (Some (cur_lo, hi)) ivs
          else union_intervals_loop cur ivs)"

definition union_intervals :: "interval list \<Rightarrow> interval list" where
  "union_intervals ivs = union_intervals_loop None ivs"

text \<open>\<open>merged_length\<close> sorts its intervals and has no test for empty ones.\<close>

fun merged_length_loop :: "int \<Rightarrow> interval option \<Rightarrow> interval list \<Rightarrow> int" where
  "merged_length_loop tot cur [] = (case cur of None \<Rightarrow> tot | Some (cur_lo, cur_hi) \<Rightarrow> tot + (cur_hi - cur_lo))"
| "merged_length_loop tot cur ((lo, hi) # ivs) =
     (case cur of
        None \<Rightarrow> merged_length_loop tot (Some (lo, hi)) ivs
      | Some (cur_lo, cur_hi) \<Rightarrow>
          if cur_hi < lo then merged_length_loop (tot + (cur_hi - cur_lo)) (Some (lo, hi)) ivs
          else if cur_hi < hi then merged_length_loop tot (Some (cur_lo, hi)) ivs
          else merged_length_loop tot cur ivs)"

definition merged_length :: "interval list \<Rightarrow> int" where
  "merged_length ivs = merged_length_loop 0 None (sort ivs)"

fun merge_intervals_loop :: "int \<Rightarrow> int \<Rightarrow> int \<Rightarrow> interval list \<Rightarrow> int" where
  "merge_intervals_loop tot cur_start cur_end [] = tot + (cur_end - cur_start)"
| "merge_intervals_loop tot cur_start cur_end ((s, e) # ivs) =
     (if s \<le> cur_end then merge_intervals_loop tot cur_start (max cur_end e) ivs
      else merge_intervals_loop (tot + (cur_end - cur_start)) s e ivs)"

definition merge_intervals :: "interval list \<Rightarrow> int" where
  "merge_intervals ivs = (case sort ivs of
     [] \<Rightarrow> 0
   | (cur_start, cur_end) # rest \<Rightarrow> merge_intervals_loop 0 cur_start cur_end rest)"

section \<open>Cells\<close>

lemma cells_Nil [simp, cell_simps]: "cells [] = {}"
  by (simp add: cells_def)

lemma cells_Cons [simp, cell_simps]: "cells ((lo, hi) # ivs) = {lo..<hi} \<union> cells ivs"
  by (simp add: cells_def)

lemma cells_append [simp, cell_simps]: "cells (xs @ ys) = cells xs \<union> cells ys"
  by (simp add: cells_def)

lemma cells_finite [simp]: "finite (cells ivs)"
  by (induction ivs) auto

lemma cells_cong: "set xs = set ys \<Longrightarrow> cells xs = cells ys"
  by (simp add: cells_def)

lemma cells_sort [simp]: "cells (sort_key f ivs) = cells ivs"
  by (rule cells_cong) simp

lemma proper_sort [simp]: "proper (sort_key f ivs) = proper ivs"
  by (simp add: proper_def)

lemma proper_Cons [simp]: "proper ((lo, hi) # ivs) \<longleftrightarrow> lo \<le> hi \<and> proper ivs"
  by (auto simp: proper_def)

lemma proper_append [simp]: "proper (xs @ ys) \<longleftrightarrow> proper xs \<and> proper ys"
  by (auto simp: proper_def)

lemma proper_Nil [simp]: "proper []"
  by (simp add: proper_def)

lemma cells_ge: "\<forall>x\<in>set ivs. lo \<le> fst x \<Longrightarrow> cells ivs \<subseteq> {lo..}"
  by (fastforce simp: cells_def)

lemma cells_bounds: "\<forall>(l, h)\<in>set ivs. lo \<le> l \<and> h \<le> hi \<Longrightarrow> cells ivs \<subseteq> {lo..<hi}"
  by (fastforce simp: cells_def)

text \<open>A gap: nothing in \<open>X\<close> starts before \<open>lo\<close>, so the run up to \<open>hi < lo\<close> is apart from it.\<close>

lemma card_run_apart:
  assumes "a \<le> b" "b < lo" "X \<subseteq> {lo..}" "finite X"
  shows "int (card ({a..<b} \<union> X)) = (b - a) + int (card X)"
proof -
  have "{a..<b} \<inter> X = {}" using assms(2,3) by force
  then show ?thesis using assms(1,4) by (simp add: card_Un_disjoint)
qed

lemma sorted_map_fst_sort [simp]: "sorted (map fst (sort (ivs :: interval list)))"
proof -
  have "sorted_wrt (\<le>) (sort ivs)" using sorted_sort [of ivs] by simp
  then have "sorted_wrt (\<lambda>x y. fst x \<le> fst y) (sort ivs)"
    by (rule sorted_wrt_mono_rel [rotated]) (auto simp: less_eq_prod_def)
  then show ?thesis by (simp add: sorted_map)
qed

section \<open>The loops measure the union\<close>

lemma union_length_loop_Some:
  assumes "a \<le> b" "sorted (map fst ((a, b) # ivs))"
  shows "union_length_loop tot (Some (a, b)) ivs = tot + int (card ({a..<b} \<union> cells ivs))"
  using assms
proof (induction ivs arbitrary: tot a b)
  case (Cons iv ivs)
  obtain lo hi where iv: "iv = (lo, hi)" by (cases iv)
  have ge: "\<forall>x\<in>set ivs. lo \<le> fst x" and alo: "a \<le> lo" and srt: "sorted (map fst ivs)"
    using Cons.prems(2) iv by auto
  have sub: "cells ivs \<subseteq> {lo..}" using ge by (rule cells_ge)
  consider "hi \<le> lo" | "lo < hi" "b < lo" | "lo < hi" "lo \<le> b" "b < hi" | "lo < hi" "lo \<le> b" "hi \<le> b"
    by linarith
  then show ?case
  proof cases
    case 1
    then show ?thesis using Cons iv by auto
  next
    case 2
    have "{lo..<hi} \<union> cells ivs \<subseteq> {lo..}" using sub by auto
    from card_run_apart [OF Cons.prems(1) 2(2) this] 2 Cons.IH [of lo hi "tot + (b - a)"] ge srt iv
    show ?thesis by auto
  next
    case 3
    then have "{a..<hi} \<union> cells ivs = {a..<b} \<union> ({lo..<hi} \<union> cells ivs)" using alo Cons.prems(1) by auto
    with 3 Cons.IH [of a hi tot] ge srt iv alo Cons.prems show ?thesis by auto
  next
    case 4
    then have "{a..<b} \<union> cells ivs = {a..<b} \<union> ({lo..<hi} \<union> cells ivs)" using alo by auto
    with 4 Cons.IH [of a b tot] ge srt iv alo Cons.prems show ?thesis by auto
  qed
qed simp

lemma union_length_card:
  "sorted (map fst ivs) \<Longrightarrow> union_length ivs = int (card (cells ivs))"
proof -
  have "sorted (map fst ivs) \<Longrightarrow> union_length_loop tot None ivs = tot + int (card (cells ivs))" for tot
  proof (induction ivs)
    case (Cons iv ivs)
    then show ?case by (cases iv) (use union_length_loop_Some in fastforce)
  qed simp
  then show "sorted (map fst ivs) \<Longrightarrow> union_length ivs = int (card (cells ivs))"
    by (simp add: union_length_def)
qed

lemma merged_length_loop_Some:
  assumes "a \<le> b" "sorted (map fst ((a, b) # ivs))" "proper ivs"
  shows "merged_length_loop tot (Some (a, b)) ivs = tot + int (card ({a..<b} \<union> cells ivs))"
  using assms
proof (induction ivs arbitrary: tot a b)
  case (Cons iv ivs)
  obtain lo hi where iv: "iv = (lo, hi)" by (cases iv)
  have ge: "\<forall>x\<in>set ivs. lo \<le> fst x" and alo: "a \<le> lo" and srt: "sorted (map fst ivs)"
    and lohi: "lo \<le> hi" "proper ivs"
    using Cons.prems iv by auto
  have sub: "cells ivs \<subseteq> {lo..}" using ge by (rule cells_ge)
  consider "b < lo" | "lo \<le> b" "b < hi" | "lo \<le> b" "hi \<le> b" by linarith
  then show ?case
  proof cases
    case 1
    have "{lo..<hi} \<union> cells ivs \<subseteq> {lo..}" using sub by auto
    from card_run_apart [OF Cons.prems(1) 1 this] 1 Cons.IH [of lo hi "tot + (b - a)"] ge srt iv lohi
    show ?thesis by auto
  next
    case 2
    then have "{a..<hi} \<union> cells ivs = {a..<b} \<union> ({lo..<hi} \<union> cells ivs)" using alo Cons.prems(1) by auto
    with 2 Cons.IH [of a hi tot] ge srt iv alo Cons.prems show ?thesis by auto
  next
    case 3
    then have "{a..<b} \<union> cells ivs = {a..<b} \<union> ({lo..<hi} \<union> cells ivs)" using alo by auto
    with 3 Cons.IH [of a b tot] ge srt iv alo Cons.prems show ?thesis by auto
  qed
qed simp

lemma merged_length_card:
  assumes "proper ivs"
  shows "merged_length ivs = int (card (cells ivs))"
proof (cases "sort ivs")
  case Nil
  then have "ivs = []" by (metis length_0_conv length_sort)
  then show ?thesis by (simp add: merged_length_def)
next
  case (Cons iv rest)
  obtain a b where iv: "iv = (a, b)" by (cases iv)
  have "sorted (map fst (sort ivs))" "proper (sort ivs)" "cells (sort ivs) = cells ivs"
    using assms by (simp_all only: sorted_map_fst_sort proper_sort cells_sort)
  then show ?thesis
    using merged_length_loop_Some [of a b rest 0] unfolding merged_length_def Cons iv by simp
qed

lemma merge_intervals_loop_eq:
  assumes "a \<le> b" "proper ivs"
  shows "merge_intervals_loop tot a b ivs = merged_length_loop tot (Some (a, b)) ivs"
  using assms
proof (induction ivs arbitrary: tot a b)
  case (Cons iv ivs)
  then show ?case by (cases iv) (auto simp: max_def)
qed simp

lemma merge_intervals_eq: "proper ivs \<Longrightarrow> merge_intervals ivs = merged_length ivs"
proof -
  assume "proper ivs"
  then have p: "proper (sort ivs)" by simp
  show ?thesis
  proof (cases "sort ivs")
    case Nil
    then show ?thesis by (simp add: merge_intervals_def merged_length_def)
  next
    case (Cons iv rest)
    then show ?thesis using p merge_intervals_loop_eq
      by (cases iv) (simp add: merge_intervals_def merged_length_def)
  qed
qed

section \<open>Disjoint union intervals\<close>

text \<open>Separated: each interval is non-empty and ends strictly before the next one starts.\<close>

fun separated :: "interval list \<Rightarrow> bool" where
  "separated [] = True"
| "separated [(lo, hi)] = (lo < hi)"
| "separated ((lo, hi) # (lo', hi') # ivs) = (lo < hi \<and> hi < lo' \<and> separated ((lo', hi') # ivs))"

definition starts_at :: "int \<Rightarrow> interval list \<Rightarrow> bool" where
  "starts_at a ivs \<longleftrightarrow> ivs \<noteq> [] \<and> fst (hd ivs) = a"

lemma separated_Cons:
  "starts_at a' ivs \<Longrightarrow> separated ((a, b) # ivs) \<longleftrightarrow> a < b \<and> b < a' \<and> separated ivs"
  by (cases ivs) (auto simp: starts_at_def)

lemma starts_at_Cons [simp]: "starts_at a ((l, h) # ivs) \<longleftrightarrow> l = a"
  by (simp add: starts_at_def)

lemma union_intervals_loop_Some:
  assumes "a < b" "sorted (map fst ((a, b) # ivs))"
  shows "cells (union_intervals_loop (Some (a, b)) ivs) = {a..<b} \<union> cells ivs
    \<and> separated (union_intervals_loop (Some (a, b)) ivs)
    \<and> starts_at a (union_intervals_loop (Some (a, b)) ivs)"
  using assms
proof (induction ivs arbitrary: a b)
  case (Cons iv ivs)
  obtain lo hi where iv: "iv = (lo, hi)" by (cases iv)
  have alo: "a \<le> lo" and srt: "sorted (map fst ((lo, hi) # ivs))" and srt': "sorted (map fst ((a, b) # ivs))"
      "sorted (map fst ((a, hi) # ivs))"
    using Cons.prems(2) iv by auto
  consider "hi \<le> lo" | "lo < hi" "b < lo" | "lo < hi" "lo \<le> b" "b < hi" | "lo < hi" "lo \<le> b" "hi \<le> b"
    by linarith
  then show ?case
  proof cases
    case 1
    then show ?thesis using Cons.IH [OF Cons.prems(1) srt'(1)] iv by simp
  next
    case 2
    note IH = Cons.IH [OF 2(1) srt]
    have eq: "union_intervals_loop (Some (a, b)) (iv # ivs) = (a, b) # union_intervals_loop (Some (lo, hi)) ivs"
      using 2 iv by simp
    show ?thesis unfolding eq using IH 2 iv Cons.prems(1) separated_Cons [of lo] by auto
  next
    case 3
    then have "{a..<hi} = {a..<b} \<union> {lo..<hi}" using alo Cons.prems(1) by auto
    moreover have "a < hi" using 3 alo by simp
    ultimately show ?thesis using Cons.IH [OF _ srt'(2)] 3 iv by (simp add: Un_assoc)
  next
    case 4
    then have "{a..<b} = {a..<b} \<union> {lo..<hi}" using alo by auto
    then show ?thesis using Cons.IH [OF Cons.prems(1) srt'(1)] iv 4 by (simp add: Un_assoc [symmetric])
  qed
qed simp

lemma union_intervals_spec:
  assumes "sorted (map fst ivs)"
  shows "cells (union_intervals ivs) = cells ivs \<and> separated (union_intervals ivs)"
  using assms unfolding union_intervals_def
proof (induction ivs)
  case (Cons iv ivs)
  obtain lo hi where iv: "iv = (lo, hi)" by (cases iv)
  show ?case
  proof (cases "hi \<le> lo")
    case True
    then show ?thesis using Cons iv by simp
  next
    case False
    then show ?thesis using union_intervals_loop_Some [of lo hi ivs] Cons.prems iv by simp
  qed
qed simp

lemma separated_card:
  "separated ivs \<Longrightarrow> int (card (cells ivs)) = (\<Sum>(lo, hi)\<leftarrow>ivs. hi - lo)
    \<and> (\<forall>x\<in>set ivs. fst (hd ivs) \<le> fst x)"
proof (induction ivs rule: separated.induct)
  case (3 lo hi lo' hi' ivs)
  then have IH: "int (card (cells ((lo', hi') # ivs))) = (\<Sum>(lo, hi)\<leftarrow>(lo', hi') # ivs. hi - lo)"
    and ge: "\<forall>x\<in>set ((lo', hi') # ivs). lo' \<le> fst x" by simp_all
  have "cells ((lo', hi') # ivs) \<subseteq> {lo'..}" using ge by (rule cells_ge)
  from card_run_apart [OF _ _ this, of lo hi] 3(2) IH ge show ?case by auto
qed auto

lemma separated_iff:
  "separated ivs \<longleftrightarrow> (\<forall>x\<in>set ivs. fst x < snd x) \<and> sorted_wrt (\<lambda>x y. snd x < fst y) ivs"
proof (induction ivs rule: separated.induct)
  case (3 lo hi lo' hi' ivs)
  have "hi < lo' \<Longrightarrow> lo' < hi' \<Longrightarrow> \<forall>x\<in>set ivs. hi' < fst x \<Longrightarrow> \<forall>x\<in>set ivs. hi < fst x" by force
  then show ?case using 3 by auto
qed auto

lemma separated_sorted: "separated ivs \<Longrightarrow> sorted (map fst ivs)"
proof -
  assume "separated ivs"
  then have "sorted_wrt (\<lambda>x y. snd x < fst y) ivs" "\<forall>x\<in>set ivs. fst x < snd x"
    by (simp_all add: separated_iff)
  then show ?thesis by (induction ivs) force+
qed

text \<open>Looking an instant up by the start before it finds the interval holding it.\<close>

lemma separated_lookup:
  assumes "separated ivs" and k: "k = int (bisect_right (map fst ivs) t) - 1"
  shows "0 \<le> k \<and> t < snd (ivs ! nat k) \<longleftrightarrow> t \<in> cells ivs"
proof -
  let ?n = "bisect_right (map fst ivs) t"
  have spl: "?n \<le> length ivs" "\<And>i. i < length ivs \<Longrightarrow> fst (ivs ! i) \<le> t \<longleftrightarrow> i < ?n"
    using bisect_right_splits [OF separated_sorted [OF assms(1)], of t] by (simp_all add: splits_at_def)
  have sep: "snd (ivs ! i) < fst (ivs ! j)" if "i < j" "j < length ivs" for i j
    using assms(1) that by (simp add: separated_iff sorted_wrt_iff_nth_less)
  show ?thesis
  proof
    assume l: "0 \<le> k \<and> t < snd (ivs ! nat k)"
    then have "nat k < ?n" "nat k < length ivs" using k spl(1) by auto
    then show "t \<in> cells ivs" using l spl(2) by (force simp: cells_def in_set_conv_nth)
  next
    assume "t \<in> cells ivs"
    then obtain j where j: "j < length ivs" "fst (ivs ! j) \<le> t" "t < snd (ivs ! j)"
      by (auto simp: cells_def in_set_conv_nth)
    then have "j < ?n" using spl by simp
    moreover have "\<not> Suc j < ?n"
    proof
      assume "Suc j < ?n"
      then have "fst (ivs ! Suc j) \<le> t" "Suc j < length ivs" using spl by auto
      then show False using sep [of j "Suc j"] j by simp
    qed
    ultimately have "?n = Suc j" by simp
    then show "0 \<le> k \<and> t < snd (ivs ! nat k)" using k j by simp
  qed
qed

section \<open>The contract of a union measure\<close>

locale union_measure =
  fixes measure_of :: "interval list \<Rightarrow> int"
  assumes measure_cells: "proper ivs \<Longrightarrow> measure_of ivs = int (card (cells ivs))"
begin

lemma measure_nonneg: "proper ivs \<Longrightarrow> 0 \<le> measure_of ivs"
  by (simp add: measure_cells)

lemma measure_order: "proper xs \<Longrightarrow> mset xs = mset ys \<Longrightarrow> measure_of xs = measure_of ys"
proof -
  assume "proper xs" and m: "mset xs = mset ys"
  moreover from m have "set xs = set ys" by (rule mset_eq_setD)
  ultimately show ?thesis using cells_cong [of xs ys] by (simp add: measure_cells proper_def)
qed

lemma measure_mono: "proper xs \<Longrightarrow> proper ys \<Longrightarrow> set xs \<subseteq> set ys \<Longrightarrow> measure_of xs \<le> measure_of ys"
proof -
  assume "proper xs" "proper ys" and s: "set xs \<subseteq> set ys"
  moreover have "cells xs \<subseteq> cells ys" using s by (auto simp: cells_def)
  ultimately show ?thesis by (simp add: measure_cells card_mono)
qed

lemma measure_append_le:
  "proper xs \<Longrightarrow> proper ys \<Longrightarrow> measure_of (xs @ ys) \<le> measure_of xs + measure_of ys"
  using card_Un_le [of "cells xs" "cells ys"] by (simp add: measure_cells)

lemma measure_within:
  assumes "proper ivs" "\<forall>(l, h)\<in>set ivs. lo \<le> l \<and> h \<le> hi" "lo \<le> hi"
  shows "measure_of ivs \<le> hi - lo"
proof -
  have "card (cells ivs) \<le> card {lo..<hi}"
    using cells_bounds [OF assms(2)] by (intro card_mono) auto
  then show ?thesis using assms(1,3) by (simp add: measure_cells)
qed

lemma measure_le_sum: "proper ivs \<Longrightarrow> measure_of ivs \<le> (\<Sum>(lo, hi)\<leftarrow>ivs. hi - lo)"
proof (induction ivs)
  case (Cons iv ivs)
  obtain lo hi where iv: "iv = (lo, hi)" by (cases iv)
  have "measure_of ([iv] @ ivs) \<le> measure_of [iv] + measure_of ivs"
    using Cons.prems iv by (intro measure_append_le) auto
  moreover have "measure_of [iv] = hi - lo" using Cons.prems iv by (simp add: measure_cells)
  ultimately show ?case using Cons iv by simp
qed (simp add: measure_cells)

end

interpretation merged: union_measure merged_length
  by unfold_locales (rule merged_length_card)

interpretation merge_ivs: union_measure merge_intervals
  by unfold_locales (simp add: merge_intervals_eq merged_length_card)

text \<open>\<open>union_length\<close> is given intervals in start order; sorting provides it.\<close>

interpretation union_sorted: union_measure "\<lambda>ivs. union_length (sort ivs)"
  by unfold_locales (simp add: union_length_card)

end
