(* ===== verification/Activity_Buckets.thy ===== *)
theory Activity_Buckets
  imports Events Heapq Intervals
begin

text \<open>
  \<^verbatim>\<open>src/src/analysis/activity_buckets.py\<close>: the classification of spans into activity
  buckets and the exclusive-time sweep \<open>ExclusiveTime\<close>. Spans of one list are named by their
  index (the code's \<open>id(span)\<close>: the list holds distinct objects).
\<close>

section \<open>Classification\<close>

datatype bucket =
    Computation | Communication | Synchronization | MemoryTransfer | RuntimeOverhead | Idle | Annotation | Other

fun bucket_name :: "bucket \<Rightarrow> string" where
  "bucket_name Computation = ''Computation''"
| "bucket_name Communication = ''Communication''"
| "bucket_name Synchronization = ''Synchronization''"
| "bucket_name MemoryTransfer = ''Memory transfer''"
| "bucket_name RuntimeOverhead = ''Runtime overhead''"
| "bucket_name Idle = ''Idle''"
| "bucket_name Annotation = ''Annotation''"
| "bucket_name Other = ''Other''"

definition BUCKETS :: "bucket list" where
  "BUCKETS = [Computation, Communication, Synchronization, MemoryTransfer, RuntimeOverhead, Idle,
     Annotation, Other]"

definition computation_types :: "string list" where
  "computation_types = [''kernel'', ''jit_kernel'', ''work'', ''task'', ''single'', ''parallel'',
     ''parallel_region'', ''implicit_task'', ''offload'']"

definition communication_types :: "string list" where
  "communication_types = [''allgather'', ''allreduce'', ''alltoall'', ''broadcast'', ''reduce'',
     ''reduce_scatter'', ''send'', ''recv'', ''isend'', ''irecv'', ''send_init'',
     ''recv_init'', ''get'', ''put'', ''accumulate'', ''read'', ''write'',
     ''start'', ''startall'']"

definition synchronization_types :: "string list" where
  "synchronization_types = [''barrier'', ''wait'', ''waitall'', ''waitany'', ''waitsome'', ''test'', ''testall'',
     ''testany'', ''testsome'', ''cancel'', ''critical'', ''sync'',
     ''win_fence'', ''win_flush'', ''win_flush_all'',
     ''win_lock'', ''win_lock_all'', ''win_unlock'', ''win_unlock_all'', ''sync_wait'']"

definition memory_transfer_types :: "string list" where
  "memory_transfer_types = [''DtoH'', ''HtoD'', ''memcpy'', ''memcpy_async'', ''svm_memcpy'', ''memset'']"

definition overhead_types :: "string list" where
  "overhead_types = [''alloc'', ''alloc_async'', ''alloc_managed'', ''alloc_pinned'',
     ''free'', ''free_async'', ''free_pinned'',
     ''graph_launch'', ''jit_compile'', ''jit_load'',
     ''launch'', ''event_record'', ''stream_wait'',
     ''comm_init'', ''comm_init_all'', ''comm_destroy'', ''group'', ''task_create'']"

definition annotation_types :: "string list" where
  "annotation_types = [''nvtx_mark'', ''nvtx_range'', ''roctx_mark'', ''roctx_range'']"

definition is_annotation :: "span_event \<Rightarrow> bool" where
  "is_annotation s \<longleftrightarrow> category_value (category s) = ''nvtx'' \<or> tag_in s ''type'' annotation_types"

definition category_fallback :: "(string, bucket) dict" where
  "category_fallback = [
    (''cpu'', Computation), (''cuda'', Computation), (''rocm'', Computation),
    (''opencl'', Computation), (''openmp'', Computation), (''sycl'', Computation),
    (''mpi'', Communication), (''nccl'', Communication),
    (''sync'', Synchronization),
    (''memory'', MemoryTransfer),
    (''jit'', RuntimeOverhead),
    (''nvtx'', Annotation),
    (''sched'', Idle)]"

definition bucket_of :: "string \<Rightarrow> string \<Rightarrow> bucket" where
  "bucket_of cat span_type =
     (if span_type \<in> set annotation_types then Annotation
      else if span_type \<in> set computation_types then Computation
      else if span_type \<in> set communication_types then Communication
      else if span_type \<in> set synchronization_types then Synchronization
      else if span_type \<in> set memory_transfer_types then MemoryTransfer
      else if span_type \<in> set overhead_types then RuntimeOverhead
      else dict_get category_fallback cat Other)"

definition bucket_of_span :: "span_event \<Rightarrow> bucket" where
  "bucket_of_span s =
     (if tag_is s ''side'' ''cpu''
         \<and> (tag_is s ''type'' ''kernel'' \<or> category_value (category s) \<in> {''opencl'', ''nccl''})
      then RuntimeOverhead
      else bucket_of (category_value (category s)) (case tag s ''type'' of None \<Rightarrow> [] | Some t \<Rightarrow> t))"

definition device_categories :: "string list" where
  "device_categories = [''cuda'', ''rocm'', ''opencl'', ''nccl'']"

definition is_device_timed :: "span_event \<Rightarrow> bool" where
  "is_device_timed s =
     (if tag_is s ''side'' ''gpu'' then True
      else if tag_is s ''side'' ''cpu'' then False
      else if suffix ''_gpu'' (name s) \<or> tag_is s ''type'' ''memcpy_async'' then True
      else category_value (category s) \<in> set device_categories)"

definition is_sampled :: "span_event \<Rightarrow> bool" where
  "is_sampled s \<longleftrightarrow> category_value (category s) = ''cpu''"

section \<open>Exclusive time of one thread\<close>

text \<open>A boundary of a span: its time, 0 for an end and 1 for a start, its index.\<close>

type_synonym boundary = "int \<times> nat \<times> nat"

record sweep =
  active :: "(int \<times> int \<times> nat) list"
  ended :: "nat set"
  prev_t :: "int option"
  owned :: "(nat, int) dict"

definition sweep_settle :: "int \<Rightarrow> sweep \<Rightarrow> sweep" where
  "sweep_settle t st =
     (case prev_t st of
        None \<Rightarrow> st
      | Some p \<Rightarrow>
          if p < t then
            (case drop_ended (ended st) (active st) of
               [] \<Rightarrow> st\<lparr>active := []\<rparr>
             | (a, b, i) # h \<Rightarrow> st\<lparr>active := (a, b, i) # h, owned := dict_add i (t - p) (owned st)\<rparr>)
          else st)"

definition sweep_step :: "span_event list \<Rightarrow> boundary \<Rightarrow> sweep \<Rightarrow> sweep" where
  "sweep_step spans b st =
     (case b of (t, kind, i) \<Rightarrow>
        let st = (sweep_settle t st)\<lparr>prev_t := Some t\<rparr> in
        if kind = 1
        then st\<lparr>active := heappush (- start_ns (spans ! i), end_ns (spans ! i), i) (active st)\<rparr>
        else st\<lparr>ended := insert i (ended st)\<rparr>)"

definition thread_boundaries :: "span_event list \<Rightarrow> nat list \<Rightarrow> boundary list" where
  "thread_boundaries spans idxs =
     sort (concat (map (\<lambda>i. [(start_ns (spans ! i), 1, i), (end_ns (spans ! i), 0, i)]) idxs))"

definition sweep_thread :: "span_event list \<Rightarrow> nat list \<Rightarrow> (nat, int) dict \<Rightarrow> (nat, int) dict" where
  "sweep_thread spans idxs ow =
     owned (fold (sweep_step spans) (thread_boundaries spans idxs)
       \<lparr>active = [], ended = {}, prev_t = None, owned = ow\<rparr>)"

section \<open>ExclusiveTime\<close>

definition thread_key :: "span_event \<Rightarrow> int \<times> int" where
  "thread_key s = (pid s, tid s)"

text \<open>The first loop's \<open>continue\<close>: zero-length, device-timed and annotation spans take no part.\<close>

definition is_host_work :: "span_event \<Rightarrow> bool" where
  "is_host_work s \<longleftrightarrow> \<not> (duration_ns s \<le> 0 \<or> is_device_timed s \<or> bucket_of_span s = Annotation)"

definition host_threads :: "span_event list \<Rightarrow> (int \<times> int) set" where
  "host_threads spans = thread_key ` set (filter is_host_work spans)"

definition by_thread :: "span_event list \<Rightarrow> (int \<times> int, nat list) dict" where
  "by_thread spans = group_by (\<lambda>i. thread_key (spans ! i))
     [i \<leftarrow> [0..<length spans]. is_host_work (spans ! i) \<and> \<not> is_sampled (spans ! i)]"

definition sampled_idx :: "span_event list \<Rightarrow> nat list" where
  "sampled_idx spans = [i \<leftarrow> [0..<length spans]. is_host_work (spans ! i) \<and> is_sampled (spans ! i)]"

text \<open>The merged coverage of one thread: the pairs of the code's \<open>starts\<close> and \<open>ends\<close>.\<close>

fun cover_loop :: "interval list \<Rightarrow> interval list \<Rightarrow> interval list" where
  "cover_loop acc [] = acc"
| "cover_loop acc ((lo, hi) # ivs) =
     (if acc \<noteq> [] \<and> lo \<le> snd (last acc)
      then cover_loop (butlast acc @ [(fst (last acc), max (snd (last acc)) hi)]) ivs
      else cover_loop (acc @ [(lo, hi)]) ivs)"

definition thread_intervals :: "span_event list \<Rightarrow> nat list \<Rightarrow> interval list" where
  "thread_intervals spans idxs = map (\<lambda>i. (start_ns (spans ! i), end_ns (spans ! i))) idxs"

definition covered :: "span_event list \<Rightarrow> (int \<times> int, interval list) dict" where
  "covered spans = map (\<lambda>(key, idxs). (key, cover_loop [] (sort (thread_intervals spans idxs)))) (by_thread spans)"

definition sample_covered :: "span_event list \<Rightarrow> nat \<Rightarrow> bool" where
  "sample_covered spans i =
     (let ivs = dict_get (covered spans) (thread_key (spans ! i)) [];
          k = int (bisect_right (map fst ivs) (start_ns (spans ! i))) - 1
      in 0 \<le> k \<and> start_ns (spans ! i) < snd (ivs ! nat k))"

definition add_sample :: "span_event list \<Rightarrow> nat \<Rightarrow> (nat, int) dict \<Rightarrow> (nat, int) dict" where
  "add_sample spans i ow =
     (if sample_covered spans i then ow else AList.update i (duration_ns (spans ! i)) ow)"

definition exclusive_owned :: "span_event list \<Rightarrow> (nat, int) dict" where
  "exclusive_owned spans =
     fold (add_sample spans) (sampled_idx spans)
       (fold (\<lambda>(key, idxs). sweep_thread spans idxs) (by_thread spans) [])"

definition totals_step ::
    "span_event list \<Rightarrow> (nat, int) dict \<Rightarrow> (nat \<Rightarrow> span_event \<Rightarrow> 'k) \<Rightarrow> bool \<Rightarrow> nat
      \<Rightarrow> ('k, int) dict \<Rightarrow> ('k, int) dict" where
  "totals_step spans ow key include_device i out =
     (let s = spans ! i in
      if duration_ns s \<le> 0 \<or> bucket_of_span s = Annotation then out
      else if is_device_timed s \<and> \<not> include_device then out
      else let ns = (if is_device_timed s then duration_ns s else dict_get ow i 0) in
           if 0 < ns then dict_add (key i s) ns out else out)"

definition exclusive_totals :: "span_event list \<Rightarrow> (nat \<Rightarrow> span_event \<Rightarrow> 'k) \<Rightarrow> bool \<Rightarrow> ('k, int) dict" where
  "exclusive_totals spans key include_device =
     fold (totals_step spans (exclusive_owned spans) key include_device) [0..<length spans] []"

definition bucket_totals :: "span_event list \<Rightarrow> int \<Rightarrow> (bucket, int) dict" where
  "bucket_totals spans idle_ns =
     (let totals = exclusive_totals spans (\<lambda>i s. bucket_of_span s) True in
      if 0 < idle_ns then dict_add Idle idle_ns totals else totals)"

end
