(* ===== verification/Sweep_Owner.thy ===== *)
theory Sweep_Owner
  imports Heapq Intervals
begin

text \<open>
  What owning time means, shared by every sweep over the boundaries of a thread's spans.
  Every nanosecond cell belongs to one span: among the spans covering it, the one with
  the smallest rank. The sweeps keep the started spans in a heap ordered by rank and mark
  the ended ones; the lemmas say what the head of that heap owns. They are stated for any
  index type, rank and heap entry, in the locale \<open>ranked_sweep\<close>: the batch sweep
  (\<open>ExclusiveTime\<close>) ranks an index by (-start, end, index), the streaming sweep of the
  stores (\<open>exclusive_thread_sweep\<close>) a slot by (-start, end, seq, slot).
\<close>

section \<open>The specification\<close>

type_synonym 'i mark = "int \<times> nat \<times> 'i"

definition live :: "('i \<Rightarrow> int) \<Rightarrow> ('i \<Rightarrow> int) \<Rightarrow> 'i set \<Rightarrow> int \<Rightarrow> 'i set" where
  "live s e I c = {i \<in> I. s i \<le> c \<and> c < e i}"

definition owns :: "('i \<Rightarrow> int) \<Rightarrow> ('i \<Rightarrow> int) \<Rightarrow> ('i \<Rightarrow> 'r::linorder) \<Rightarrow> 'i set \<Rightarrow> 'i \<Rightarrow> int \<Rightarrow> bool" where
  "owns s e rk I i c \<longleftrightarrow> i \<in> live s e I c \<and> (\<forall>j\<in>live s e I c. rk i \<le> rk j)"

definition owned_cells :: "('i \<Rightarrow> int) \<Rightarrow> ('i \<Rightarrow> int) \<Rightarrow> ('i \<Rightarrow> 'r::linorder) \<Rightarrow> 'i set \<Rightarrow> 'i \<Rightarrow> int set" where
  "owned_cells s e rk I i = {c. owns s e rk I i c}"

definition drop_marked :: "('r \<Rightarrow> 'i) \<Rightarrow> 'i set \<Rightarrow> 'r list \<Rightarrow> 'r list" where
  "drop_marked ix ended h = dropWhile (\<lambda>x. ix x \<in> ended) h"

text \<open>
  \<open>P\<close>: the boundaries processed so far. The heap holds started spans, all of those not yet
  ended among them; an entry is marked iff its end has been processed.
\<close>

definition heap_inv :: "('i \<Rightarrow> int) \<Rightarrow> ('i \<Rightarrow> int) \<Rightarrow> ('i \<Rightarrow> 'r::linorder) \<Rightarrow> ('r \<Rightarrow> 'i)
    \<Rightarrow> 'i mark set \<Rightarrow> 'r list \<Rightarrow> 'i set \<Rightarrow> bool" where
  "heap_inv s e rk ix P h E \<longleftrightarrow>
     sorted h \<and> distinct h
   \<and> (\<forall>x\<in>set h. x = rk (ix x) \<and> (s (ix x), 1, ix x) \<in> P \<and> (ix x \<in> E \<longleftrightarrow> (e (ix x), 0, ix x) \<in> P))
   \<and> (\<forall>i. (s i, 1, i) \<in> P \<and> (e i, 0, i) \<notin> P \<longrightarrow> rk i \<in> set h)
   \<and> (\<forall>i\<in>E. (e i, 0, i) \<in> P)"

definition boundaries_of :: "('i \<Rightarrow> int) \<Rightarrow> ('i \<Rightarrow> int) \<Rightarrow> 'i set \<Rightarrow> 'i mark set" where
  "boundaries_of s e I = (\<lambda>i. (s i, 1, i)) ` I \<union> (\<lambda>i. (e i, 0, i)) ` I"

text \<open>
  Boundaries \<open>P\<close> up to time \<open>p\<close>, the others from \<open>t\<close> on: in \<open>[p, t)\<close> the live spans are the
  started, not ended ones.
\<close>

definition cut :: "'i mark set \<Rightarrow> 'i mark set \<Rightarrow> int \<Rightarrow> int \<Rightarrow> bool" where
  "cut B P p t \<longleftrightarrow> P \<subseteq> B \<and> (\<forall>b\<in>P. fst b \<le> p) \<and> (\<forall>b\<in>B - P. t \<le> fst b)"

text \<open>The share of the head of the heap, once the marked entries are dropped.\<close>

definition head_share :: "('r \<Rightarrow> 'i) \<Rightarrow> 'i set \<Rightarrow> 'r list \<Rightarrow> int \<Rightarrow> 'i \<Rightarrow> int" where
  "head_share ix E h d i = (case drop_marked ix E h of [] \<Rightarrow> 0 | x # h' \<Rightarrow> if i = ix x then d else 0)"

lemma drop_marked_sorted: "sorted h \<Longrightarrow> sorted (drop_marked ix ended h)"
  by (simp add: drop_marked_def sorted_dropWhile)

lemma drop_marked_distinct: "distinct h \<Longrightarrow> distinct (drop_marked ix ended h)"
  by (simp add: drop_marked_def distinct_dropWhile)

lemma drop_marked_subset: "set (drop_marked ix ended h) \<subseteq> set h"
  by (auto simp: drop_marked_def dest: set_dropWhileD)

lemma drop_marked_keeps: "x \<in> set h \<Longrightarrow> ix x \<notin> ended \<Longrightarrow> x \<in> set (drop_marked ix ended h)"
  by (induction h) (auto simp: drop_marked_def)

lemma drop_marked_head: "drop_marked ix ended h = x # h' \<Longrightarrow> ix x \<notin> ended"
  by (induction h) (auto simp: drop_marked_def split: if_splits)

lemma card_upto_split:
  assumes "finite X" "p \<le> t"
  shows "int (card (X \<inter> {..<t})) = int (card (X \<inter> {..<p})) + int (card (X \<inter> {p..<t :: int}))"
proof -
  have "X \<inter> {..<t} = (X \<inter> {..<p}) \<union> (X \<inter> {p..<t})" using assms(2) by auto
  moreover have "(X \<inter> {..<p}) \<inter> (X \<inter> {p..<t}) = {}" by auto
  ultimately show ?thesis using assms(1) by (simp add: card_Un_disjoint)
qed

lemma owned_cells_subset: "owned_cells s e rk I i \<subseteq> {s i..<e i}"
  by (auto simp: owned_cells_def owns_def live_def)

lemma owned_cells_finite [simp]: "finite (owned_cells s e rk I i)"
  by (rule finite_subset [OF owned_cells_subset]) simp

lemma owned_cells_outside: "i \<notin> I \<Longrightarrow> owned_cells s e rk I i = {}"
  by (auto simp: owned_cells_def owns_def live_def)

lemma owned_cells_le: "int (card (owned_cells s e rk I i)) \<le> max 0 (e i - s i)"
proof -
  have "card (owned_cells s e rk I i) \<le> card {s i..<e i}" by (intro card_mono owned_cells_subset) simp
  then show ?thesis by simp
qed

lemma cut_of_sorted:
  assumes "sorted (map fst (P @ b # Q))" "set (P @ b # Q) = B" "distinct (P @ b # Q)"
  shows "cut B (set P) (if P = [] then fst b else fst (last P)) (fst b)"
proof -
  have "fst x \<le> fst (last P)" if "x \<in> set P" for x
    using that assms(1) by (cases P rule: rev_cases) (auto simp: sorted_append)
  then show ?thesis using assms by (auto simp: cut_def sorted_append)
qed


section \<open>Sweeps\<close>

locale ranked_sweep =
  fixes s e :: "'i \<Rightarrow> int" and rk :: "'i \<Rightarrow> 'r::linorder" and ix :: "'r \<Rightarrow> 'i"
  assumes ix_rk [simp]: "ix (rk i) = i"
begin

lemma rk_inj: "rk i = rk j \<longleftrightarrow> i = j"
  by (metis ix_rk)

lemma owned_cells_disjoint: "i \<noteq> j \<Longrightarrow> owned_cells s e rk I i \<inter> owned_cells s e rk I j = {}"
proof -
  have "rk i = rk j" if "owns s e rk I i c" "owns s e rk I j c" for c
    using that unfolding owns_def by (meson order.antisym)
  then show "i \<noteq> j \<Longrightarrow> ?thesis" by (auto simp: owned_cells_def rk_inj)
qed

lemma owned_cells_cover:
  assumes "finite I"
  shows "(\<Union>i\<in>I. owned_cells s e rk I i) = (\<Union>i\<in>I. {s i..<e i})"
proof (intro equalityI subsetI)
  fix c assume "c \<in> (\<Union>i\<in>I. {s i..<e i})"
  then have ne: "live s e I c \<noteq> {}" and fin: "finite (live s e I c)"
    using assms by (auto simp: live_def)
  have "Min (rk ` live s e I c) \<in> rk ` live s e I c"
    using ne fin by (intro Min_in) auto
  then obtain i where "rk i = Min (rk ` live s e I c)" "i \<in> live s e I c"
    by (elim imageE) simp
  then have "owns s e rk I i c" using fin by (simp add: owns_def)
  then show "c \<in> (\<Union>i\<in>I. owned_cells s e rk I i)"
    using \<open>i \<in> live s e I c\<close> by (auto simp: owned_cells_def live_def)
qed (auto simp: owned_cells_def owns_def live_def)

lemma sum_owned_cells:
  assumes "finite I"
  shows "(\<Sum>i\<in>I. int (card (owned_cells s e rk I i))) = int (card (\<Union>i\<in>I. {s i..<e i}))"
proof -
  have "card (\<Union>i\<in>I. owned_cells s e rk I i) = (\<Sum>i\<in>I. card (owned_cells s e rk I i))"
    using assms owned_cells_disjoint by (intro card_UN_disjoint) auto
  then show ?thesis using owned_cells_cover [OF assms] by simp
qed

lemma live_at_cut:
  assumes "cut (boundaries_of s e I) P p t" "p \<le> c" "c < t"
  shows "live s e I c = {i. (s i, 1, i) \<in> P \<and> (e i, 0, i) \<notin> P}"
proof -
  have P: "P \<subseteq> boundaries_of s e I" and le: "\<And>b. b \<in> P \<Longrightarrow> fst b \<le> p"
    and ge: "\<And>b. b \<in> boundaries_of s e I \<Longrightarrow> b \<notin> P \<Longrightarrow> t \<le> fst b"
    using assms(1) by (auto simp: cut_def)
  show ?thesis
  proof (intro equalityI subsetI)
    fix i assume "i \<in> live s e I c"
    then have i: "i \<in> I" "s i \<le> c" "c < e i" by (auto simp: live_def)
    then have "(s i, 1, i) \<in> boundaries_of s e I" by (auto simp: boundaries_of_def)
    then have "(s i, 1, i) \<in> P" using ge [of "(s i, 1, i)"] i assms by auto
    moreover have "(e i, 0, i) \<notin> P" using le [of "(e i, 0, i)"] i assms by auto
    ultimately show "i \<in> {i. (s i, 1, i) \<in> P \<and> (e i, 0, i) \<notin> P}" by simp
  next
    fix i assume "i \<in> {i. (s i, 1, i) \<in> P \<and> (e i, 0, i) \<notin> P}"
    then have i: "(s i, 1, i) \<in> P" "(e i, 0, i) \<notin> P" by auto
    then have "i \<in> I" using P by (auto simp: boundaries_of_def)
    then have "(e i, 0, i) \<in> boundaries_of s e I" by (auto simp: boundaries_of_def)
    then have "t \<le> e i" using ge i(2) by fastforce
    moreover have "s i \<le> p" using le [OF i(1)] by simp
    ultimately show "i \<in> live s e I c" using \<open>i \<in> I\<close> assms by (auto simp: live_def)
  qed
qed

lemma heap_inv_drop: "heap_inv s e rk ix P h E \<Longrightarrow> heap_inv s e rk ix P (drop_marked ix E h) E"
proof -
  assume inv: "heap_inv s e rk ix P h E"
  have sub: "set (drop_marked ix E h) \<subseteq> set h" by (rule drop_marked_subset)
  have keep: "rk i \<in> set (drop_marked ix E h)" if "rk i \<in> set h" "(e i, 0, i) \<notin> P" for i
    using that inv drop_marked_keeps [of "rk i" h ix E] by (auto simp: heap_inv_def)
  show ?thesis
    using inv sub keep drop_marked_sorted [of h ix E] drop_marked_distinct [of h ix E]
    unfolding heap_inv_def by blast
qed

text \<open>Dropping an entry may also discard its mark, as no entry of the heap repeats.\<close>

lemma heap_inv_discard:
  assumes "heap_inv s e rk ix P h E"
  shows "heap_inv s e rk ix P (drop_marked ix E h) (E - ix ` set (takeWhile (\<lambda>x. ix x \<in> E) h))"
proof -
  let ?T = "takeWhile (\<lambda>x. ix x \<in> E) h" and ?D = "drop_marked ix E h"
  have h: "h = ?T @ ?D" by (simp add: drop_marked_def)
  have inv: "heap_inv s e rk ix P ?D E" using assms by (rule heap_inv_drop)
  have rk: "x = rk (ix x)" if "x \<in> set h" for x using assms that by (auto simp: heap_inv_def)
  have "ix x \<notin> ix ` set ?T" if "x \<in> set ?D" for x
  proof
    assume "ix x \<in> ix ` set ?T"
    then obtain y where y: "y \<in> set ?T" "ix x = ix y" by auto
    have "x \<in> set h" "y \<in> set h" using that y(1) h by (metis UnCI set_append)+
    then have "x = y" using rk y(2) by metis
    moreover have "distinct (?T @ ?D)" using assms h by (simp add: heap_inv_def)
    ultimately show False using that y(1) unfolding distinct_append by blast
  qed
  then show ?thesis using inv unfolding heap_inv_def by simp
qed

lemma heap_inv_entry:
  assumes "heap_inv s e rk ix P h E" "x \<in> set h"
  shows "rk (ix x) = x" "(s (ix x), 1, ix x) \<in> P" "ix x \<in> E \<longleftrightarrow> (e (ix x), 0, ix x) \<in> P"
  using assms by (auto simp: heap_inv_def)

lemma heap_inv_started:
  "heap_inv s e rk ix P h E \<Longrightarrow> (s i, 1, i) \<in> P \<Longrightarrow> (e i, 0, i) \<notin> P \<Longrightarrow> rk i \<in> set h"
  by (simp add: heap_inv_def)

lemma heap_inv_sorted: "heap_inv s e rk ix P h E \<Longrightarrow> sorted h"
  by (simp add: heap_inv_def)

text \<open>After the lazy deletion, the head of the heap owns every cell up to the next boundary.\<close>

lemma drop_owner:
  assumes "heap_inv s e rk ix P h E" "cut (boundaries_of s e I) P p t" "p \<le> c" "c < t"
  shows "owns s e rk I i c \<longleftrightarrow> (\<exists>x h'. drop_marked ix E h = x # h' \<and> ix x = i)"
proof -
  let ?h = "drop_marked ix E h"
  have inv: "heap_inv s e rk ix P ?h E" using assms(1) by (rule heap_inv_drop)
  have live: "j \<in> live s e I c \<longleftrightarrow> (s j, 1, j) \<in> P \<and> (e j, 0, j) \<notin> P" for j
    using live_at_cut [OF assms(2-4)] by simp
  have in_heap: "rk j \<in> set ?h" if "j \<in> live s e I c" for j
    using that live heap_inv_started [OF inv] by simp
  have head: "ix x \<in> live s e I c \<and> (\<forall>k\<in>live s e I c. rk (ix x) \<le> rk k)" if h: "?h = x # h'" for x h'
  proof -
    have "x \<in> set ?h" using h by simp
    note ent = heap_inv_entry [OF inv this]
    have "ix x \<notin> E" using drop_marked_head h by metis
    then have "ix x \<in> live s e I c" using ent live by simp
    moreover have "rk (ix x) \<le> rk k" if "k \<in> live s e I c" for k
      using in_heap [OF that] heap_inv_sorted [OF inv] h ent(1) by auto
    ultimately show ?thesis by simp
  qed
  show ?thesis
  proof
    assume own: "owns s e rk I i c"
    then have i: "i \<in> live s e I c" by (simp add: owns_def)
    then obtain x h' where h: "?h = x # h'" using in_heap [OF i] by (cases ?h) auto
    have "rk i \<le> rk (ix x)" using own head [OF h] unfolding owns_def by blast
    moreover have "rk (ix x) \<le> rk i" using head [OF h] i by simp
    ultimately have "i = ix x" using rk_inj by (metis order.antisym)
    then show "\<exists>x h'. ?h = x # h' \<and> ix x = i" using h by blast
  next
    assume "\<exists>x h'. ?h = x # h' \<and> ix x = i"
    then show "owns s e rk I i c" using head unfolding owns_def by metis
  qed
qed

lemma head_share_cells:
  assumes "heap_inv s e rk ix P h E" "cut (boundaries_of s e I) P p t" "p \<le> t"
  shows "head_share ix E h (t - p) i = int (card (owned_cells s e rk I i \<inter> {p..<t}))"
proof -
  have own: "owns s e rk I i c \<longleftrightarrow> (\<exists>x h'. drop_marked ix E h = x # h' \<and> ix x = i)" if "c \<in> {p..<t}" for c
    using drop_owner [OF assms(1,2)] that by simp
  show ?thesis
  proof (cases "\<exists>x h'. drop_marked ix E h = x # h' \<and> ix x = i")
    case True
    then have "owned_cells s e rk I i \<inter> {p..<t} = {p..<t}" using own by (auto simp: owned_cells_def)
    then show ?thesis using True assms(3) by (auto simp: head_share_def)
  next
    case False
    then have "owned_cells s e rk I i \<inter> {p..<t} = {}" using own by (auto simp: owned_cells_def)
    then show ?thesis using False by (auto simp: head_share_def split: list.split)
  qed
qed

lemma heap_inv_push:
  assumes "heap_inv s e rk ix P h E" "(s i, 1, i) \<notin> P" "(e i, 0, i) \<notin> P"
  shows "heap_inv s e rk ix (insert (s i, 1, i) P) (heappush (rk i) h) E"
proof -
  have "rk i \<notin> set h" using heap_inv_entry(2) [OF assms(1), of "rk i"] assms(2) by auto
  moreover have "i \<notin> E" using assms(1,3) by (auto simp: heap_inv_def)
  ultimately show ?thesis
    using assms hq.push_inv [of h] unfolding heap_inv_def by auto
qed

lemma heap_inv_end: "heap_inv s e rk ix P h E \<Longrightarrow> heap_inv s e rk ix (insert (e i, 0, i) P) h (insert i E)"
  unfolding heap_inv_def by auto

lemma heap_inv_empty: "heap_inv s e rk ix {} [] {}"
  by (simp add: heap_inv_def)

lemma owned_before:
  assumes "cut (boundaries_of s e I) {} p t"
  shows "owned_cells s e rk I i \<inter> {..<t} = {}"
proof -
  have "t \<le> s i" if "i \<in> I" using assms that by (force simp: cut_def boundaries_of_def)
  then show ?thesis using owned_cells_subset [of s e rk I i] owned_cells_outside [of i I s e rk] by force
qed

lemma all_owned_by_end:
  assumes "set P = boundaries_of s e I" "sorted (map fst P)" "P \<noteq> []"
  shows "owned_cells s e rk I i \<inter> {..<fst (last P)} = owned_cells s e rk I i"
proof -
  have "e i \<le> fst (last P)" if "i \<in> I"
  proof -
    have "(e i, 0, i) \<in> set P" using that assms(1) by (auto simp: boundaries_of_def)
    then show ?thesis using assms(2,3) by (cases P rule: rev_cases) (auto simp: sorted_append)
  qed
  then show ?thesis using owned_cells_subset [of s e rk I i] owned_cells_outside [of i I s e rk] by force
qed

end

end
