(* ===== verification/Exclusive_Time.thy ===== *)
theory Exclusive_Time
  imports Activity_Buckets Sweep_Owner
begin

text \<open>
  \<^verbatim>\<open>ExclusiveTime\<close> computes exclusive time: a span's exclusive time is the number of
  nanosecond cells it owns (\<^verbatim>\<open>Sweep_Owner\<close>), the owner of a cell being the covering span of
  its thread with the latest start, then the earliest end, then the lowest index.
\<close>

section \<open>The batch sweep\<close>

definition rank_of :: "(nat \<Rightarrow> int) \<Rightarrow> (nat \<Rightarrow> int) \<Rightarrow> nat \<Rightarrow> int \<times> int \<times> nat" where
  "rank_of s e i = (- s i, e i, i)"

abbreviation entry_idx :: "int \<times> int \<times> nat \<Rightarrow> nat" where
  "entry_idx \<equiv> \<lambda>(a, b, i). i"

interpretation batch: ranked_sweep s e "rank_of s e" entry_idx for s e
  by unfold_locales (simp add: rank_of_def)

lemma drop_ended_marked: "drop_ended E h = drop_marked entry_idx E h"
  unfolding drop_marked_def by (induction E h rule: drop_ended.induct) auto

definition sp_start :: "span_event list \<Rightarrow> nat \<Rightarrow> int" where
  "sp_start spans i = start_ns (spans ! i)"

definition sp_end :: "span_event list \<Rightarrow> nat \<Rightarrow> int" where
  "sp_end spans i = end_ns (spans ! i)"

abbreviation thread_owned :: "span_event list \<Rightarrow> nat set \<Rightarrow> nat \<Rightarrow> int set" where
  "thread_owned spans \<equiv> owned_cells (sp_start spans) (sp_end spans) (rank_of (sp_start spans) (sp_end spans))"

definition sweep_inv :: "(nat \<Rightarrow> int) \<Rightarrow> (nat \<Rightarrow> int) \<Rightarrow> nat set \<Rightarrow> (nat \<Rightarrow> int) \<Rightarrow> boundary list \<Rightarrow> sweep \<Rightarrow> bool" where
  "sweep_inv s e I base P st \<longleftrightarrow>
     heap_inv s e (rank_of s e) entry_idx (set P) (active st) (ended st)
   \<and> prev_t st = (if P = [] then None else Some (fst (last P)))
   \<and> (\<forall>i. dict_get (owned st) i 0 = base i
          + (if P = [] then 0 else int (card (owned_cells s e (rank_of s e) I i \<inter> {..<fst (last P)}))))
   \<and> dict_ok (owned st)"

lemma sweep_settle_inv:
  assumes inv: "sweep_inv s e I base P st"
    and cut: "cut (boundaries_of s e I) (set P) p t" and p: "P \<noteq> [] \<Longrightarrow> p = fst (last P)" "p \<le> t"
  shows "heap_inv s e (rank_of s e) entry_idx (set P) (active (sweep_settle t st)) (ended (sweep_settle t st))"
    and "dict_get (owned (sweep_settle t st)) i 0 = base i + int (card (owned_cells s e (rank_of s e) I i \<inter> {..<t}))"
    and "dict_ok (owned (sweep_settle t st))"
proof -
  have h: "heap_inv s e (rank_of s e) entry_idx (set P) (active st) (ended st)" and ok: "dict_ok (owned st)"
    using inv by (simp_all add: sweep_inv_def)
  have ended: "ended (sweep_settle t st) = ended st"
    by (simp add: sweep_settle_def split: option.split list.split)
  show "heap_inv s e (rank_of s e) entry_idx (set P) (active (sweep_settle t st)) (ended (sweep_settle t st))"
    using h batch.heap_inv_drop [OF h] unfolding ended drop_ended_marked [symmetric]
    by (auto simp: sweep_settle_def split: option.split list.split)
  show "dict_ok (owned (sweep_settle t st))"
    using ok by (auto simp: sweep_settle_def split: option.split list.split)
  show "dict_get (owned (sweep_settle t st)) i 0 = base i + int (card (owned_cells s e (rank_of s e) I i \<inter> {..<t}))"
  proof (cases "P = []")
    case True
    then have "owned_cells s e (rank_of s e) I i \<inter> {..<t} = {}" using cut batch.owned_before by simp
    then show ?thesis using inv True by (simp add: sweep_inv_def sweep_settle_def)
  next
    case False
    then have prev: "prev_t st = Some p"
      and own: "dict_get (owned st) i 0 = base i + int (card (owned_cells s e (rank_of s e) I i \<inter> {..<p}))"
      using inv p(1) by (simp_all add: sweep_inv_def)
    have "dict_get (owned (sweep_settle t st)) i 0
        = dict_get (owned st) i 0 + (if p < t then head_share entry_idx (ended st) (active st) (t - p) i else 0)"
      using prev by (auto simp: sweep_settle_def head_share_def drop_ended_marked split: list.split)
    also have "\<dots> = dict_get (owned st) i 0 + int (card (owned_cells s e (rank_of s e) I i \<inter> {p..<t}))"
      using batch.head_share_cells [OF h cut p(2), of i] p(2) by auto
    finally show ?thesis using own by (simp add: card_upto_split [OF owned_cells_finite p(2)])
  qed
qed

lemma sweep_step_inv:
  assumes inv: "sweep_inv (sp_start spans) (sp_end spans) I base P st"
    and bs: "sorted (map fst (P @ b # Q))" "set (P @ b # Q) = boundaries_of (sp_start spans) (sp_end spans) I"
      "distinct (P @ b # Q)"
    and pos: "\<And>i. i \<in> I \<Longrightarrow> sp_start spans i < sp_end spans i"
  shows "sweep_inv (sp_start spans) (sp_end spans) I base (P @ [b]) (sweep_step spans b st)"
proof -
  let ?s = "sp_start spans" and ?e = "sp_end spans"
  obtain t k i where b: "b = (t, k, i)" by (cases b)
  define p where "p = (if P = [] then t else fst (last P))"
  have cut: "cut (boundaries_of ?s ?e I) (set P) p t"
    using cut_of_sorted [OF bs] b by (auto simp: p_def split: if_splits)
  have p: "P \<noteq> [] \<Longrightarrow> p = fst (last P)" "p \<le> t"
    using bs(1) b by (auto simp: p_def sorted_append)
  note st = sweep_settle_inv [OF inv cut p]
  have "b \<in> boundaries_of ?s ?e I" using bs(2) by auto
  then consider (start) "k = 1" "t = ?s i" "i \<in> I" | (stop) "k = 0" "t = ?e i" "i \<in> I"
    using b by (auto simp: boundaries_of_def)
  then show ?thesis
  proof cases
    case start
    have "(?s i, 1, i) \<notin> set P" using bs(3) b start by auto
    moreover have "(?e i, 0, i) \<notin> set P"
    proof
      assume "(?e i, 0, i) \<in> set P"
      then have "?e i \<le> p" using cut by (force simp: cut_def)
      then show False using p(2) pos [OF start(3)] start(2) by simp
    qed
    ultimately have "heap_inv ?s ?e (rank_of ?s ?e) entry_idx (insert (?s i, 1, i) (set P))
        (heappush (rank_of ?s ?e i) (active (sweep_settle t st))) (ended (sweep_settle t st))"
      using batch.heap_inv_push [OF st(1), of i] by simp
    then show ?thesis using st b start
      by (simp add: sweep_inv_def sweep_step_def rank_of_def sp_start_def sp_end_def)
  next
    case stop
    have "heap_inv ?s ?e (rank_of ?s ?e) entry_idx (insert (?e i, 0, i) (set P)) (active (sweep_settle t st))
        (insert i (ended (sweep_settle t st)))"
      by (rule batch.heap_inv_end [OF st(1)])
    then show ?thesis using st b stop by (simp add: sweep_inv_def sweep_step_def)
  qed
qed

lemma sweep_run_inv:
  assumes "sweep_inv (sp_start spans) (sp_end spans) I base P st"
    and "sorted (map fst (P @ Q))" "set (P @ Q) = boundaries_of (sp_start spans) (sp_end spans) I"
      "distinct (P @ Q)"
    and "\<And>i. i \<in> I \<Longrightarrow> sp_start spans i < sp_end spans i"
  shows "sweep_inv (sp_start spans) (sp_end spans) I base (P @ Q) (fold (sweep_step spans) Q st)"
  using assms
proof (induction Q arbitrary: P st)
  case (Cons b Q)
  have "sweep_inv (sp_start spans) (sp_end spans) I base (P @ [b]) (sweep_step spans b st)"
    using Cons.prems by (intro sweep_step_inv [where Q = Q])
  then show ?case using Cons.IH [of "P @ [b]"] Cons.prems by simp
qed simp

lemma thread_boundaries_set:
  "set (thread_boundaries spans idxs) = boundaries_of (sp_start spans) (sp_end spans) (set idxs)"
  by (auto simp: thread_boundaries_def boundaries_of_def sp_start_def sp_end_def)

lemma thread_boundaries_distinct:
  "distinct idxs \<Longrightarrow> distinct (thread_boundaries spans idxs)"
proof -
  assume "distinct idxs"
  then have "distinct (concat (map (\<lambda>i. [(start_ns (spans ! i), 1 :: nat, i), (end_ns (spans ! i), 0, i)]) idxs))"
    by (induction idxs) auto
  then show ?thesis by (simp add: thread_boundaries_def)
qed

lemma sorted_imp_sorted_fst: "sorted (xs :: boundary list) \<Longrightarrow> sorted (map fst xs)"
  unfolding sorted_map by (erule sorted_wrt_mono_rel [rotated]) (auto simp: less_eq_prod_def)

lemma thread_boundaries_sorted: "sorted (map fst (thread_boundaries spans idxs))"
  by (rule sorted_imp_sorted_fst) (simp add: thread_boundaries_def)

text \<open>One thread's sweep adds to every span the number of cells it owns.\<close>

lemma sweep_thread_owned:
  assumes "distinct idxs" "\<And>i. i \<in> set idxs \<Longrightarrow> 0 < duration_ns (spans ! i)" "dict_ok ow"
  shows "dict_get (sweep_thread spans idxs ow) i 0
      = dict_get ow i 0 + int (card (thread_owned spans (set idxs) i))"
    and "dict_ok (sweep_thread spans idxs ow)"
proof -
  let ?s = "sp_start spans" and ?e = "sp_end spans" and ?bs = "thread_boundaries spans idxs"
  let ?st = "fold (sweep_step spans) ?bs \<lparr>active = [], ended = {}, prev_t = None, owned = ow\<rparr>"
  have init: "sweep_inv ?s ?e (set idxs) (\<lambda>i. dict_get ow i 0) []
      \<lparr>active = [], ended = {}, prev_t = None, owned = ow\<rparr>"
    using assms(3) by (simp add: sweep_inv_def batch.heap_inv_empty)
  have pos: "?s i < ?e i" if "i \<in> set idxs" for i
    using assms(2) [OF that] by (simp add: sp_start_def sp_end_def end_ns_def)
  have inv: "sweep_inv ?s ?e (set idxs) (\<lambda>i. dict_get ow i 0) ?bs ?st"
    using sweep_run_inv [OF init, of ?bs] pos thread_boundaries_set thread_boundaries_sorted
      thread_boundaries_distinct [OF assms(1)] by simp
  show "dict_ok (sweep_thread spans idxs ow)" using inv by (simp add: sweep_inv_def sweep_thread_def)
  show "dict_get (sweep_thread spans idxs ow) i 0
      = dict_get ow i 0 + int (card (owned_cells ?s ?e (rank_of ?s ?e) (set idxs) i))"
  proof (cases "idxs = []")
    case True
    then show ?thesis using owned_cells_outside [of i "{}"] by (simp add: sweep_thread_def thread_boundaries_def)
  next
    case False
    have "set ?bs \<noteq> {}" using False unfolding thread_boundaries_set boundaries_of_def by auto
    then have "?bs \<noteq> []" by auto
    then show ?thesis
      using inv batch.all_owned_by_end [OF thread_boundaries_set thread_boundaries_sorted]
      by (simp add: sweep_inv_def sweep_thread_def)
  qed
qed

section \<open>Coverage of the samples\<close>

lemma cover_loop_spec:
  assumes "separated acc" "\<forall>x\<in>set ivs. fst x < snd x" "sorted (map fst ivs)"
    and "acc \<noteq> [] \<Longrightarrow> \<forall>x\<in>set ivs. fst (last acc) \<le> fst x"
  shows "separated (cover_loop acc ivs) \<and> cells (cover_loop acc ivs) = cells acc \<union> cells ivs"
  using assms
proof (induction acc ivs rule: cover_loop.induct)
  case (2 acc lo hi ivs)
  have lohi: "lo < hi" and ge: "\<forall>x\<in>set ivs. lo \<le> fst x" and srt: "sorted (map fst ivs)"
    and pos: "\<forall>x\<in>set ivs. fst x < snd x"
    using 2(4,5) by auto
  show ?case
  proof (cases "acc \<noteq> [] \<and> lo \<le> snd (last acc)")
    case True
    then obtain bs a b where acc: "acc = bs @ [(a, b)]" by (cases acc rule: rev_cases) auto
    have ab: "a < b" "a \<le> lo" "lo \<le> b" using 2(3,6) True acc by (auto simp: separated_iff)
    have "separated (bs @ [(a, max b hi)])"
      using 2(3) acc ab by (auto simp: separated_iff sorted_wrt_append)
    moreover have "{a..<max b hi} = {a..<b} \<union> {lo..<hi}" using ab lohi by auto
    moreover have "\<forall>x\<in>set ivs. a \<le> fst x" using ge ab by fastforce
    ultimately show ?thesis using 2(1) [OF True] True acc srt pos
      by (simp add: Un_assoc)
  next
    case False
    have "separated (acc @ [(lo, hi)])"
    proof (cases acc rule: rev_cases)
      case (snoc bs x)
      then have "snd x < lo" using False by auto
      moreover have "\<forall>y\<in>set bs. snd y < fst x \<and> fst x < snd x" using 2(3) snoc
        by (auto simp: separated_iff sorted_wrt_append)
      ultimately show ?thesis using 2(3) snoc lohi
        by (force simp: separated_iff sorted_wrt_append)
    qed (use lohi in simp)
    then have "separated (cover_loop (acc @ [(lo, hi)]) ivs)
        \<and> cells (cover_loop (acc @ [(lo, hi)]) ivs) = cells (acc @ [(lo, hi)]) \<union> cells ivs"
      using ge srt pos by (intro 2(2) [OF False]) auto
    moreover have "cover_loop acc ((lo, hi) # ivs) = cover_loop (acc @ [(lo, hi)]) ivs"
      by (simp only: cover_loop.simps False if_False)
    ultimately show ?thesis by (simp add: Un_assoc)
  qed
qed simp

definition thread_idxs :: "span_event list \<Rightarrow> int \<times> int \<Rightarrow> nat list" where
  "thread_idxs spans key =
     [i \<leftarrow> [0..<length spans]. is_host_work (spans ! i) \<and> \<not> is_sampled (spans ! i) \<and> thread_key (spans ! i) = key]"

lemma thread_idxs_distinct [simp]: "distinct (thread_idxs spans key)"
  by (simp add: thread_idxs_def)

lemma by_thread_get: "dict_get (by_thread spans) key [] = thread_idxs spans key"
  by (auto simp: by_thread_def thread_idxs_def intro!: filter_cong)

lemma by_thread_entry: "(key, idxs) \<in> set (by_thread spans) \<Longrightarrow> idxs = thread_idxs spans key"
  unfolding by_thread_def
  by (drule group_by_entry) (auto simp: thread_idxs_def intro!: filter_cong)

lemma by_thread_ok: "dict_ok (by_thread spans)"
  by (simp add: by_thread_def)

lemma by_thread_has:
  "i \<in> set (thread_idxs spans key) \<Longrightarrow> key \<in> fst ` set (by_thread spans)"
  by (auto simp: by_thread_def thread_idxs_def)

lemma thread_idxs_host: "i \<in> set (thread_idxs spans key) \<Longrightarrow> 0 < duration_ns (spans ! i)"
  by (simp add: thread_idxs_def is_host_work_def)

definition thread_cells :: "span_event list \<Rightarrow> int \<times> int \<Rightarrow> int set" where
  "thread_cells spans key = (\<Union>i\<in>set (thread_idxs spans key). {start_ns (spans ! i)..<end_ns (spans ! i)})"

lemma thread_intervals_cells: "cells (thread_intervals spans (thread_idxs spans key)) = thread_cells spans key"
  by (auto simp: cells_def thread_intervals_def thread_cells_def)

lemma covered_get:
  "dict_get (covered spans) key [] = cover_loop [] (sort (thread_intervals spans (thread_idxs spans key)))"
proof (cases "map_of (by_thread spans) key")
  case None
  then have "thread_idxs spans key = []" using by_thread_get [of spans key] by (simp add: dict_get_def)
  then show ?thesis using None by (simp add: covered_def dict_get_def map_of_map thread_intervals_def)
next
  case (Some idxs)
  then have "idxs = thread_idxs spans key" using by_thread_get [of spans key] by (simp add: dict_get_def)
  then show ?thesis using Some by (simp add: covered_def dict_get_def map_of_map)
qed

text \<open>A sample is covered iff an instrumented span of its thread covers its start.\<close>

lemma sample_covered_iff:
  "sample_covered spans i \<longleftrightarrow> start_ns (spans ! i) \<in> thread_cells spans (thread_key (spans ! i))"
proof -
  let ?key = "thread_key (spans ! i)"
  let ?ivs = "sort (thread_intervals spans (thread_idxs spans ?key))"
  have "\<forall>x\<in>set ?ivs. fst x < snd x"
    by (auto simp: thread_intervals_def end_ns_def dest: thread_idxs_host)
  then have c: "separated (cover_loop [] ?ivs)" "cells (cover_loop [] ?ivs) = thread_cells spans ?key"
    using cover_loop_spec [of "[]" ?ivs] by (simp_all add: thread_intervals_cells)
  show ?thesis
    using separated_lookup [OF c(1) refl, of "start_ns (spans ! i)"] c(2)
    by (simp add: sample_covered_def covered_get Let_def)
qed

section \<open>ExclusiveTime\<close>

lemma fold_sweeps:
  assumes "distinct (map fst ts)" "\<And>key idxs. (key, idxs) \<in> set ts \<Longrightarrow> idxs = thread_idxs spans key"
    and "dict_ok ow"
  shows "dict_ok (fold (\<lambda>(key, idxs). sweep_thread spans idxs) ts ow)
    \<and> dict_get (fold (\<lambda>(key, idxs). sweep_thread spans idxs) ts ow) i 0 = dict_get ow i 0
      + (if thread_key (spans ! i) \<in> fst ` set ts
         then int (card (thread_owned spans (set (thread_idxs spans (thread_key (spans ! i)))) i))
         else 0)"
  using assms
proof (induction ts arbitrary: ow)
  case (Cons t ts)
  obtain key where t: "t = (key, thread_idxs spans key)" using Cons.prems(2) by (cases t) auto
  let ?ow = "sweep_thread spans (thread_idxs spans key) ow"
  note sw = sweep_thread_owned [OF thread_idxs_distinct [of spans key] thread_idxs_host Cons.prems(3)]
  have out: "thread_owned spans (set (thread_idxs spans key)) i = {}"
    if "thread_key (spans ! i) \<noteq> key"
    using that by (intro owned_cells_outside) (auto simp: thread_idxs_def)
  have ts: "distinct (map fst ts)" "key \<notin> fst ` set ts"
    using Cons.prems(1) t by auto
  have ts': "\<And>k js. (k, js) \<in> set ts \<Longrightarrow> js = thread_idxs spans k"
    by (rule Cons.prems(2)) simp
  have eq: "fold (\<lambda>(key, idxs). sweep_thread spans idxs) (t # ts) ow
      = fold (\<lambda>(key, idxs). sweep_thread spans idxs) ts ?ow" using t by simp
  show ?case
  proof (cases "thread_key (spans ! i) = key")
    case True
    then show ?thesis unfolding eq using Cons.IH [OF ts(1) ts' sw(2)] sw(1) [where i = i] ts(2) t by simp
  next
    case False
    then show ?thesis unfolding eq using Cons.IH [OF ts(1) ts' sw(2)] sw(1) [where i = i] out t by simp
  qed
qed simp

lemma add_samples_get:
  assumes "dict_ok ow" "distinct js"
  shows "dict_ok (fold (add_sample spans) js ow)
    \<and> dict_get (fold (add_sample spans) js ow) i 0
      = (if i \<in> set js \<and> \<not> sample_covered spans i then duration_ns (spans ! i) else dict_get ow i 0)"
  using assms
proof (induction js arbitrary: ow)
  case (Cons j js)
  have "dict_ok (add_sample spans j ow)" using Cons.prems(1) by (auto simp: add_sample_def)
  then show ?case using Cons.IH [of "add_sample spans j ow"] Cons.prems(2) by (auto simp: add_sample_def)
qed simp

lemma exclusive_owned_get:
  "dict_get (exclusive_owned spans) i 0 =
     (if i < length spans \<and> is_host_work (spans ! i) then
        if is_sampled (spans ! i) then
          (if start_ns (spans ! i) \<in> thread_cells spans (thread_key (spans ! i)) then 0
           else duration_ns (spans ! i))
        else int (card (thread_owned spans
               (set (thread_idxs spans (thread_key (spans ! i)))) i))
      else 0)"
proof -
  let ?key = "thread_key (spans ! i)"
  let ?ow = "fold (\<lambda>(key, idxs). sweep_thread spans idxs) (by_thread spans) []"
  have sw: "dict_ok ?ow" "dict_get ?ow i 0 = (if ?key \<in> fst ` set (by_thread spans)
      then int (card (thread_owned spans (set (thread_idxs spans ?key)) i)) else 0)"
    using fold_sweeps [of "by_thread spans" spans "[]" i] by_thread_ok by_thread_entry by auto
  have mem: "i \<in> set (thread_idxs spans ?key) \<longleftrightarrow> i < length spans \<and> is_host_work (spans ! i) \<and> \<not> is_sampled (spans ! i)"
    by (auto simp: thread_idxs_def)
  have ow: "dict_get ?ow i 0 = int (card (thread_owned spans (set (thread_idxs spans ?key)) i))"
  proof (cases "i \<in> set (thread_idxs spans ?key)")
    case True
    then show ?thesis using sw(2) by_thread_has by simp
  next
    case False
    then show ?thesis using sw(2) by (simp add: owned_cells_outside)
  qed
  have "dict_get (exclusive_owned spans) i 0 =
      (if i \<in> set (sampled_idx spans) \<and> \<not> sample_covered spans i then duration_ns (spans ! i) else dict_get ?ow i 0)"
    using add_samples_get [OF sw(1), of "sampled_idx spans" spans i]
    by (simp add: exclusive_owned_def sampled_idx_def)
  then show ?thesis
    using ow mem owned_cells_outside [of i "set (thread_idxs spans ?key)"]
    by (auto simp: sampled_idx_def sample_covered_iff)
qed

section \<open>Totals\<close>

text \<open>What one span contributes to a breakdown.\<close>

definition contribution :: "span_event list \<Rightarrow> bool \<Rightarrow> nat \<Rightarrow> int" where
  "contribution spans include_device i =
     (let s = spans ! i in
      if duration_ns s \<le> 0 \<or> bucket_of_span s = Annotation then 0
      else if is_device_timed s then (if include_device then duration_ns s else 0)
      else dict_get (exclusive_owned spans) i 0)"

lemma exclusive_owned_nonneg: "0 \<le> dict_get (exclusive_owned spans) i 0"
  unfolding exclusive_owned_get by (auto simp: is_host_work_def)

lemma totals_step_get:
  "dict_get (totals_step spans (exclusive_owned spans) key inc i out) k 0
     = dict_get out k 0 + (if key i (spans ! i) = k then contribution spans inc i else 0)"
  using exclusive_owned_nonneg [of spans i]
  by (auto simp: totals_step_def contribution_def Let_def)

lemma exclusive_totals_get:
  "dict_get (exclusive_totals spans key inc) k 0
     = (\<Sum>i\<leftarrow>[0..<length spans]. if key i (spans ! i) = k then contribution spans inc i else 0)"
proof -
  have "dict_get (fold (totals_step spans (exclusive_owned spans) key inc) js out) k 0
      = dict_get out k 0 + (\<Sum>i\<leftarrow>js. if key i (spans ! i) = k then contribution spans inc i else 0)" for js out
    by (induction js arbitrary: out) (simp_all add: totals_step_get)
  then show ?thesis by (simp add: exclusive_totals_def)
qed

lemma exclusive_owned_le: "dict_get (exclusive_owned spans) i 0 \<le> max 0 (duration_ns (spans ! i))"
  using owned_cells_le [of "sp_start spans" "sp_end spans" "rank_of (sp_start spans) (sp_end spans)" "set (thread_idxs spans (thread_key (spans ! i)))" i]
  unfolding exclusive_owned_get by (simp add: sp_start_def sp_end_def end_ns_def)

section \<open>Properties\<close>

text \<open>
  C19. Exclusive time is the innermost span's time: an instrumented host span owns exactly the
  nanoseconds of its interval at which no other instrumented span of its thread is
  preferred to it (a later start, or the same start and an earlier end, or both the same
  and an earlier position).
\<close>

theorem exclusive_innermost:
  assumes "i < length spans" "is_host_work (spans ! i)" "\<not> is_sampled (spans ! i)"
  shows "dict_get (exclusive_owned spans) i 0 =
    int (card {c. start_ns (spans ! i) \<le> c \<and> c < end_ns (spans ! i)
      \<and> (\<forall>j<length spans. is_host_work (spans ! j) \<and> \<not> is_sampled (spans ! j)
           \<and> thread_key (spans ! j) = thread_key (spans ! i)
           \<and> start_ns (spans ! j) \<le> c \<and> c < end_ns (spans ! j)
         \<longrightarrow> (- start_ns (spans ! i), end_ns (spans ! i), i) \<le> (- start_ns (spans ! j), end_ns (spans ! j), j))})"
  using assms unfolding exclusive_owned_get
  by (auto simp: owned_cells_def owns_def live_def rank_of_def thread_idxs_def sp_start_def sp_end_def
      intro!: arg_cong [where f = card])

text \<open>
  The example thread of the witnesses: a parallel region, a barrier nested in it, a sample
  taken inside the region and one after it.
\<close>

definition demo_thread :: "span_event list" where
  "demo_thread = [mk_span ''region'' OPENMP 0 10 1 7 [(''type'', ''parallel'')],
     mk_span ''barrier'' SYNC 2 3 1 7 [(''type'', ''barrier'')],
     mk_span ''sample'' CPU 1 4 1 7 [], mk_span ''sample'' CPU 12 4 1 7 []]"

lemma demo_thread_owned: "exclusive_owned demo_thread = [(0, 7), (1, 3), (3, 4)]"
  by code_simp

theorem exclusive_innermost_witness:
  "int (card {c. start_ns (demo_thread ! 0) \<le> c \<and> c < end_ns (demo_thread ! 0)
      \<and> (\<forall>j<length demo_thread. is_host_work (demo_thread ! j) \<and> \<not> is_sampled (demo_thread ! j)
           \<and> thread_key (demo_thread ! j) = thread_key (demo_thread ! 0)
           \<and> start_ns (demo_thread ! j) \<le> c \<and> c < end_ns (demo_thread ! j)
         \<longrightarrow> (- start_ns (demo_thread ! 0), end_ns (demo_thread ! 0), 0)
              \<le> (- start_ns (demo_thread ! j), end_ns (demo_thread ! j), j))}) = 7"
proof -
  have h: "0 < length demo_thread" "is_host_work (demo_thread ! 0)" "\<not> is_sampled (demo_thread ! 0)"
    by code_simp+
  show ?thesis unfolding exclusive_innermost [OF h, symmetric] demo_thread_owned
    by (simp add: dict_get_def)
qed

text \<open>
  Property. The exclusive times of a thread's instrumented spans add up to the length of the union
  of their intervals: nothing is counted twice and nothing is lost, whatever the nesting.
\<close>

theorem exclusive_thread_total:
  "(\<Sum>i\<in>set (thread_idxs spans key). dict_get (exclusive_owned spans) i 0)
     = union_length (sort (thread_intervals spans (thread_idxs spans key)))"
proof -
  let ?I = "set (thread_idxs spans key)" and ?s = "sp_start spans" and ?e = "sp_end spans"
  have "dict_get (exclusive_owned spans) i 0 = int (card (owned_cells ?s ?e (rank_of ?s ?e) ?I i))" if "i \<in> ?I" for i
    using that unfolding exclusive_owned_get by (auto simp: thread_idxs_def)
  then have "(\<Sum>i\<in>?I. dict_get (exclusive_owned spans) i 0) = int (card (\<Union>i\<in>?I. {?s i..<?e i}))"
    using batch.sum_owned_cells [of ?I ?s ?e] by simp
  also have "\<dots> = int (card (thread_cells spans key))"
    by (simp add: thread_cells_def sp_start_def sp_end_def)
  finally have "(\<Sum>i\<in>?I. dict_get (exclusive_owned spans) i 0) = int (card (thread_cells spans key))" .
  moreover have "proper (thread_intervals spans (thread_idxs spans key))"
    by (auto simp: proper_def thread_intervals_def end_ns_def dest!: thread_idxs_host)
  ultimately show ?thesis by (simp add: union_sorted.measure_cells thread_intervals_cells)
qed

text \<open>
  Property. A perf sample keeps its whole nominal weight when no instrumented host span of its
  thread covers its start, and contributes nothing otherwise.
\<close>

theorem exclusive_sample:
  assumes "i < length spans" "is_host_work (spans ! i)" "is_sampled (spans ! i)"
  shows "dict_get (exclusive_owned spans) i 0 =
    (if \<exists>j<length spans. is_host_work (spans ! j) \<and> \<not> is_sampled (spans ! j)
          \<and> thread_key (spans ! j) = thread_key (spans ! i)
          \<and> start_ns (spans ! j) \<le> start_ns (spans ! i) \<and> start_ns (spans ! i) < end_ns (spans ! j)
     then 0 else duration_ns (spans ! i))"
  using assms unfolding exclusive_owned_get by (auto simp: thread_cells_def thread_idxs_def)

theorem exclusive_sample_witness:
  "dict_get (exclusive_owned demo_thread) 2 0 = 0 \<and> dict_get (exclusive_owned demo_thread) 3 0 = 4
   \<and> (\<exists>j<length demo_thread. is_host_work (demo_thread ! j) \<and> \<not> is_sampled (demo_thread ! j)
          \<and> thread_key (demo_thread ! j) = thread_key (demo_thread ! 2)
          \<and> start_ns (demo_thread ! j) \<le> start_ns (demo_thread ! 2)
          \<and> start_ns (demo_thread ! 2) < end_ns (demo_thread ! j))"
proof -
  have h: "2 < length demo_thread" "is_host_work (demo_thread ! 2)" "is_sampled (demo_thread ! 2)"
    and d: "duration_ns (demo_thread ! 2) = 4" by code_simp+
  have v: "dict_get (exclusive_owned demo_thread) 2 0 = 0" "dict_get (exclusive_owned demo_thread) 3 0 = 4"
    unfolding demo_thread_owned by (simp_all add: dict_get_def)
  then show ?thesis using exclusive_sample [OF h] d by (metis zero_neq_numeral)
qed

text \<open>
  Property. The bucket breakdown: each bucket's total is the sum over its spans of the exclusive
  host time or the device duration, plus the given idle time for Idle; annotations have
  none, and no span contributes more than its duration.
\<close>

theorem bucket_totals_sum:
  "dict_get (bucket_totals spans idle) b 0 =
     (\<Sum>i\<leftarrow>[0..<length spans]. if bucket_of_span (spans ! i) = b then contribution spans True i else 0)
     + (if b = Idle then max 0 idle else 0)
   \<and> dict_get (bucket_totals spans idle) Annotation 0 = 0
   \<and> (\<forall>i. 0 \<le> contribution spans True i \<and> contribution spans True i \<le> max 0 (duration_ns (spans ! i)))"
proof -
  have sum: "dict_get (bucket_totals spans idle) b 0 =
     (\<Sum>i\<leftarrow>[0..<length spans]. if bucket_of_span (spans ! i) = b then contribution spans True i else 0)
     + (if b = Idle then max 0 idle else 0)" for b
    by (simp add: bucket_totals_def exclusive_totals_get Let_def)
  have "(if bucket_of_span (spans ! i) = Annotation then contribution spans True i else 0) = 0" for i
    by (simp add: contribution_def Let_def)
  then have "dict_get (bucket_totals spans idle) Annotation 0 = 0" by (simp add: sum)
  moreover have "0 \<le> contribution spans True i \<and> contribution spans True i \<le> max 0 (duration_ns (spans ! i))" for i
    using exclusive_owned_nonneg [of spans i] exclusive_owned_le [of spans i]
    by (auto simp: contribution_def Let_def max_def split: if_splits)
  ultimately show ?thesis using sum by blast
qed

end
