(* ===== verification/Py_Text.thy ===== *)
theory Py_Text
  imports Prelude
begin

text \<open>
  Python's text operations as the profiler uses them, over ASCII text: decimal printing
  (\<open>str(n)\<close>), \<open>int(s)\<close> with its sign, surrounding whitespace and digit separators,
  \<open>partition\<close>, \<open>rpartition\<close>, \<open>split\<close>, \<open>lower\<close>, and the substring test. The lemmas are the
  round trips the components need.
\<close>

section \<open>Numbers\<close>

definition digit :: "nat \<Rightarrow> char" where
  "digit d = char_of (48 + d)"

function show_nat :: "nat \<Rightarrow> string" where
  "show_nat n = (if n < 10 then [digit n] else show_nat (n div 10) @ [digit (n mod 10)])"
  by pat_completeness auto
termination
  by (relation "measure id") auto

declare show_nat.simps [simp del]

definition show_int :: "int \<Rightarrow> string" where
  "show_int n = (if n < 0 then CHR ''-'' # show_nat (nat (- n)) else show_nat (nat n))"

definition digit_val :: "char \<Rightarrow> nat option" where
  "digit_val c = (let k = of_char c :: nat in if 48 \<le> k \<and> k \<le> 57 then Some (k - 48) else None)"

definition is_digit :: "char \<Rightarrow> bool" where
  "is_digit c \<longleftrightarrow> digit_val c \<noteq> None"

text \<open>Digits of \<open>int\<close>'s argument; one underscore may stand between two digits.\<close>

fun read_digits :: "nat \<Rightarrow> bool \<Rightarrow> string \<Rightarrow> nat option" where
  "read_digits acc after [] = (if after then Some acc else None)"
| "read_digits acc after (c # cs) =
     (case digit_val c of
        Some d \<Rightarrow> read_digits (10 * acc + d) True cs
      | None \<Rightarrow> if c = CHR ''_'' \<and> after then read_digits acc False cs else None)"

definition is_space :: "char \<Rightarrow> bool" where
  "is_space c = (let k = of_char c :: nat in k = 32 \<or> 9 \<le> k \<and> k \<le> 13 \<or> 28 \<le> k \<and> k \<le> 31)"

definition strip :: "string \<Rightarrow> string" where
  "strip s = rev (dropWhile is_space (rev (dropWhile is_space s)))"

text \<open>\<open>int(s)\<close>; None is the \<open>ValueError\<close>.\<close>

definition py_int :: "string \<Rightarrow> int option" where
  "py_int s =
     (case strip s of
        [] \<Rightarrow> None
      | c # cs \<Rightarrow>
          if c = CHR ''-'' then map_option (\<lambda>n. - int n) (read_digits 0 False cs)
          else if c = CHR ''+'' then map_option int (read_digits 0 False cs)
          else map_option int (read_digits 0 False (c # cs)))"

lemma digit_val_digit [simp]: "d < 10 \<Longrightarrow> digit_val (digit d) = Some d"
  by (simp add: digit_val_def digit_def of_char_of)

lemma digit_not_space [simp]: "d < 10 \<Longrightarrow> \<not> is_space (digit d)"
  by (simp add: is_space_def digit_def of_char_of)

lemma show_nat_digits: "c \<in> set (show_nat n) \<Longrightarrow> is_digit c"
proof (induction n rule: show_nat.induct)
  case (1 n)
  show ?case
  proof (cases "n < 10")
    case True
    then show ?thesis using 1(2) show_nat.simps [of n] by (simp add: is_digit_def)
  next
    case False
    then have "c \<in> set (show_nat (n div 10)) \<or> c = digit (n mod 10)"
      using 1(2) show_nat.simps [of n] by auto
    then show ?thesis using 1(1) [OF False] by (auto simp: is_digit_def)
  qed
qed

lemma show_nat_nonempty [simp]: "show_nat n \<noteq> []"
  by (subst show_nat.simps) simp

lemma read_digits_append:
  "read_digits acc b (xs @ [digit d]) = map_option (\<lambda>n. 10 * n + d) (read_digits acc b xs)"
  if "\<forall>c\<in>set xs. is_digit c" "xs \<noteq> []" "d < 10"
  using that
proof (induction xs arbitrary: acc b)
  case (Cons c cs)
  then obtain k where "digit_val c = Some k" by (auto simp: is_digit_def)
  then show ?case using Cons by (cases "cs = []") auto
qed simp

lemma read_show_nat [simp]: "read_digits 0 b (show_nat n) = Some n"
proof (induction n rule: show_nat.induct)
  case (1 n)
  show ?case
  proof (cases "n < 10")
    case True
    then show ?thesis by (simp add: show_nat.simps [of n])
  next
    case False
    then show ?thesis using 1 read_digits_append [of "show_nat (n div 10)" "n mod 10" 0 b]
      by (simp add: show_nat.simps [of n] show_nat_digits)
  qed
qed

lemma is_digit_facts:
  assumes "is_digit c"
  shows "\<not> is_space c" "c \<noteq> CHR ''-''" "c \<noteq> CHR ''+''" "c \<noteq> CHR ''@''" "c \<noteq> CHR ''/''" "c \<noteq> CHR ''_''"
proof -
  have k: "48 \<le> (of_char c :: nat)" "of_char c \<le> (57 :: nat)"
    using assms by (auto simp: is_digit_def digit_val_def Let_def split: if_splits)
  then show "\<not> is_space c" by (auto simp: is_space_def Let_def)
  show "c \<noteq> CHR ''-''" "c \<noteq> CHR ''+''" "c \<noteq> CHR ''@''" "c \<noteq> CHR ''/''" "c \<noteq> CHR ''_''" using k by auto
qed

lemma show_int_chars: "c \<in> set (show_int n) \<Longrightarrow> is_digit c \<or> c = CHR ''-''"
  by (auto simp: show_int_def show_nat_digits split: if_splits)

lemma strip_id:
  assumes "s \<noteq> []" "\<not> is_space (hd s)" "\<not> is_space (last s)"
  shows "strip s = s"
proof -
  have "dropWhile is_space s = s" using assms(1,2) by (cases s) auto
  moreover have "dropWhile is_space (rev s) = rev s"
    using assms(1,3) by (cases "rev s") (auto simp: last_conv_nth hd_conv_nth simp flip: hd_rev)
  ultimately show ?thesis by (simp add: strip_def)
qed

lemma show_int_nonempty [simp]: "show_int n \<noteq> []"
  by (simp add: show_int_def)

lemma strip_show_int [simp]: "strip (show_int n) = show_int n"
proof -
  have "\<not> is_space c" if "c \<in> set (show_int n)" for c
    using show_int_chars [OF that] is_digit_facts(1) by (auto simp: is_space_def)
  then show ?thesis by (intro strip_id) auto
qed

lemma py_int_show_int [simp]: "py_int (show_int n) = Some n"
proof (cases "n < 0")
  case True
  then have "strip (CHR ''-'' # show_nat (nat (- n))) = CHR ''-'' # show_nat (nat (- n))"
    using strip_show_int [of n] by (simp add: show_int_def)
  then show ?thesis using True by (simp add: py_int_def show_int_def)
next
  case False
  obtain c cs where s: "show_nat (nat n) = c # cs" by (cases "show_nat (nat n)") simp_all
  have "is_digit c" using show_nat_digits [of c "nat n"] s by simp
  note d = is_digit_facts [OF this]
  have "strip (c # cs) = c # cs" using strip_show_int [of n] False s by (simp add: show_int_def)
  moreover have "read_digits 0 False (c # cs) = Some (nat n)" using read_show_nat [of False "nat n"] s by simp
  ultimately show ?thesis using False s d by (simp add: py_int_def show_int_def)
qed

lemma show_int_inj [simp]: "show_int m = show_int n \<longleftrightarrow> m = n"
  by (metis option.inject py_int_show_int)

section \<open>Splitting\<close>

text \<open>\<open>s.partition(c)\<close> and \<open>s.rpartition(c)\<close> for a one-character separator, without the middle.\<close>

definition partition_at :: "char \<Rightarrow> string \<Rightarrow> string \<times> string" where
  "partition_at c s = (takeWhile (\<lambda>x. x \<noteq> c) s, tl (dropWhile (\<lambda>x. x \<noteq> c) s))"

definition rpartition_at :: "char \<Rightarrow> string \<Rightarrow> string \<times> string" where
  "rpartition_at c s =
     (if c \<in> set s then (rev (snd (partition_at c (rev s))), rev (fst (partition_at c (rev s)))) else ([], s))"

text \<open>\<open>s.split(c)\<close>.\<close>

fun split_loop :: "char \<Rightarrow> string \<Rightarrow> string \<Rightarrow> string list" where
  "split_loop c acc [] = [acc]"
| "split_loop c acc (x # xs) = (if x = c then acc # split_loop c [] xs else split_loop c (acc @ [x]) xs)"

definition split_on :: "char \<Rightarrow> string \<Rightarrow> string list" where
  "split_on c s = split_loop c [] s"

text \<open>\<open>s.split(c, n)\<close>.\<close>

fun split_max :: "nat \<Rightarrow> char \<Rightarrow> string \<Rightarrow> string list" where
  "split_max 0 c s = [s]"
| "split_max (Suc n) c s =
     (if c \<in> set s then fst (partition_at c s) # split_max n c (snd (partition_at c s)) else [s])"

text \<open>\<open>sep.join(parts)\<close> for a one-character separator.\<close>

fun join_with :: "char \<Rightarrow> string list \<Rightarrow> string" where
  "join_with c [] = []"
| "join_with c [s] = s"
| "join_with c (s # t # ss) = s @ c # join_with c (t # ss)"

definition lower_char :: "char \<Rightarrow> char" where
  "lower_char c = (let k = of_char c :: nat in if 65 \<le> k \<and> k \<le> 90 then char_of (k + 32) else c)"

definition lower :: "string \<Rightarrow> string" where
  "lower s = map lower_char s"

lemma partition_at_append [simp]: "c \<notin> set xs \<Longrightarrow> partition_at c (xs @ c # ys) = (xs, ys)"
  by (induction xs) (auto simp: partition_at_def)

lemma partition_at_none [simp]: "c \<notin> set xs \<Longrightarrow> partition_at c xs = (xs, [])"
  by (induction xs) (auto simp: partition_at_def)

lemma rpartition_at_append [simp]: "c \<notin> set ys \<Longrightarrow> rpartition_at c (xs @ c # ys) = (xs, ys)"
proof -
  assume "c \<notin> set ys"
  then have "partition_at c (rev ys @ c # rev xs) = (rev ys, rev xs)" by (intro partition_at_append) simp
  then show ?thesis by (simp add: rpartition_at_def)
qed

lemma split_loop_fresh: "c \<notin> set s \<Longrightarrow> split_loop c acc s = [acc @ s]"
  by (induction s arbitrary: acc) auto

lemma split_loop_append: "c \<notin> set s \<Longrightarrow> split_loop c acc (s @ c # t) = (acc @ s) # split_loop c [] t"
  by (induction s arbitrary: acc) auto

lemma split_join [simp]:
  assumes "ss \<noteq> []" "\<forall>s\<in>set ss. c \<notin> set s"
  shows "split_on c (join_with c ss) = ss"
  using assms
proof (induction c ss rule: join_with.induct)
  case (2 c s)
  then show ?case by (simp add: split_on_def split_loop_fresh)
next
  case (3 c s t ss)
  then show ?case by (simp add: split_on_def split_loop_append)
qed simp

section \<open>Decimal fractions\<close>

text \<open>
  \<open>float(s)\<close> on decimal notation, as an exact rational: a sign, digits with an optional
  fraction, an optional exponent, or a name of an infinity or of nan. None is the \<open>ValueError\<close>.
\<close>

datatype py_number = Finite rat | Infinite | MinusInfinite | NotANumber

definition read_mantissa :: "string \<Rightarrow> rat option" where
  "read_mantissa s =
     (let (ip, fp) = partition_at CHR ''.'' s in
      if ip = [] \<and> fp = [] then None
      else case (if ip = [] then Some 0 else read_digits 0 False ip,
                 if fp = [] then Some 0 else read_digits 0 False fp) of
             (Some a, Some b) \<Rightarrow> Some (of_nat a + of_nat b / 10 ^ length (filter is_digit fp))
           | _ \<Rightarrow> None)"

definition read_exponent :: "string \<Rightarrow> rat option" where
  "read_exponent s =
     (case s of
        [] \<Rightarrow> None
      | c # cs \<Rightarrow>
          if c = CHR ''-'' then map_option (\<lambda>n. 1 / 10 ^ n) (read_digits 0 False cs)
          else if c = CHR ''+'' then map_option (\<lambda>n. 10 ^ n) (read_digits 0 False cs)
          else map_option (\<lambda>n. 10 ^ n) (read_digits 0 False (c # cs)))"

definition py_float :: "string \<Rightarrow> py_number option" where
  "py_float s =
     (let s = lower (strip s);
          (sign, s) = (case s of [] \<Rightarrow> (1, s) | c # cs \<Rightarrow>
             if c = CHR ''-'' then (- 1, cs) else if c = CHR ''+'' then (1, cs) else (1, s));
          (m, x) = partition_at CHR ''e'' s
      in if s = ''inf'' \<or> s = ''infinity'' then Some (if sign < 0 then MinusInfinite else Infinite)
         else if s = ''nan'' then Some NotANumber
         else case (read_mantissa m, if CHR ''e'' \<in> set s then read_exponent x else Some 1) of
           (Some a, Some b) \<Rightarrow> Some (Finite (sign * a * b))
         | _ \<Rightarrow> None)"

end
