(* ===== verification/Store_Common.thy ===== *)
theory Store_Common
  imports Activity_Buckets Py_Text
begin

unbundle bit_operations_syntax

text \<open>
  The store-independent pieces of the trace store,
  \<^verbatim>\<open>src/src/core/store/common.py\<close>: event ids, the lane rule and lane names (with
  \<open>parse_lane_name\<close> of \<^verbatim>\<open>core/trace.py\<close>), span filters, the exclusive-time aggregate and the
  streaming exclusive-time sweep.
\<close>

section \<open>Codes and event ids\<close>

definition CATEGORY_BY_CODE :: "string list" where
  "CATEGORY_BY_CODE = map category_value categories"

definition CATEGORY_CODES :: "(string, nat) dict" where
  "CATEGORY_CODES = map (\<lambda>(i, c). (category_value c, i)) (List.enumerate 0 categories)"

definition FLAG_DEVICE :: int where "FLAG_DEVICE = 1"
definition FLAG_STACK :: int where "FLAG_STACK = 2"
definition FLAG_GPU_MODEL :: int where "FLAG_GPU_MODEL = 4"
definition FLAG_SAMPLED :: int where "FLAG_SAMPLED = 8"

definition KIND_SPAN :: int where "KIND_SPAN = 0"
definition KIND_INSTANT :: int where "KIND_INSTANT = 1"
definition KIND_COUNTER :: int where "KIND_COUNTER = 2"

definition ROW_BITS :: nat where "ROW_BITS = 36"
definition KIND_BITS :: nat where "KIND_BITS = 2"
definition ROW_MASK :: int where "ROW_MASK = push_bit ROW_BITS 1 - 1"
definition MAX_SHARDS :: int where "MAX_SHARDS = push_bit 15 1"

definition make_eid :: "int \<Rightarrow> int \<Rightarrow> int \<Rightarrow> int" where
  "make_eid shard kind row = push_bit (ROW_BITS + KIND_BITS) shard OR push_bit ROW_BITS kind OR row"

definition split_eid :: "int \<Rightarrow> int \<times> int \<times> int" where
  "split_eid i = (drop_bit (ROW_BITS + KIND_BITS) i, drop_bit ROW_BITS i AND 3, i AND ROW_MASK)"

definition span_flags :: "span_event \<Rightarrow> int" where
  "span_flags s =
     (let f = 0;
          f = (if is_device_timed s then f OR FLAG_DEVICE else f);
          f = (if stack_frames s \<noteq> [] then f OR FLAG_STACK else f);
          f = (if tag_in s ''rt'' [''cuda'', ''rocm''] then f OR FLAG_GPU_MODEL else f);
          f = (if category_value (category s) = ''cpu'' then f OR FLAG_SAMPLED else f)
      in f)"

section \<open>Lanes\<close>

type_synonym lane_key = "string \<times> string \<times> string"

definition lane_base :: "span_event \<Rightarrow> lane_key" where
  "lane_base s =
     (let cat = category_value (category s); side = tag s ''side'' in
      if side = Some ''cpu'' then (if tid s \<noteq> 0 then (cat, ''thread'', show_int (tid s)) else (cat, [], []))
      else if tag s ''stream'' \<noteq> None \<and> (side = Some ''gpu'' \<or> cat \<in> {''cuda'', ''rocm''}
                \<or> tag_is s ''type'' ''memcpy_async'')
      then (cat, ''stream'', the (tag s ''stream''))
      else if side = Some ''gpu'' \<or> suffix ''_gpu'' (name s) then (cat, ''device'', [])
      else if tid s \<noteq> 0 then (cat, ''thread'', show_int (tid s))
      else (cat, [], []))"

definition lane_name :: "lane_key \<Rightarrow> int \<Rightarrow> bool \<Rightarrow> string" where
  "lane_name base p shared =
     (case base of (cat, kind, ident) \<Rightarrow>
        let nm = (if kind = ''stream'' \<or> kind = ''thread'' then cat @ ''/'' @ kind @ ''-'' @ ident
                  else if kind = ''device'' then cat @ ''/device''
                  else cat)
        in if shared then nm @ ''@'' @ show_int p else nm)"

record lane_group =
  g_pid :: int
  g_base :: lane_key
  g_count :: int
  g_first_seq :: int
  g_min_start :: int
  g_max_end :: int
  g_max_dur :: int

record lane_info =
  l_name :: string
  l_cat :: string
  l_kind :: string
  l_ident :: string
  l_pid :: int
  l_count :: int
  l_first_seq :: int
  l_min_start :: int
  l_max_end :: int
  l_max_dur :: int

text \<open>\<open>pids_per_base[base]\<close>, the set of processes with a lane of that base.\<close>

definition pids_of_base :: "lane_group list \<Rightarrow> lane_key \<Rightarrow> int set" where
  "pids_of_base groups base = set (map g_pid (filter (\<lambda>g. g_base g = base) groups))"

definition mk_lane_info :: "lane_group list \<Rightarrow> lane_group \<Rightarrow> lane_info" where
  "mk_lane_info groups g =
     \<lparr>l_name = lane_name (g_base g) (g_pid g) (1 < card (pids_of_base groups (g_base g))),
      l_cat = fst (g_base g), l_kind = fst (snd (g_base g)), l_ident = snd (snd (g_base g)),
      l_pid = g_pid g, l_count = g_count g, l_first_seq = g_first_seq g,
      l_min_start = g_min_start g, l_max_end = g_max_end g, l_max_dur = g_max_dur g\<rparr>"

definition assign_lane_names :: "lane_group list \<Rightarrow> lane_info list" where
  "assign_lane_names groups = map (mk_lane_info groups) (sort_key g_first_seq groups)"

definition parse_lane_name :: "string \<Rightarrow> string \<times> string \<times> string \<times> int option" where
  "parse_lane_name nm =
     (let (body, p) =
        (if CHR ''@'' \<in> set nm then
           (case py_int (snd (rpartition_at (CHR ''@'') nm)) of
              Some n \<Rightarrow> (fst (rpartition_at (CHR ''@'') nm), Some n)
            | None \<Rightarrow> (nm, None))
         else (nm, None));
        (cat, sfx) = partition_at (CHR ''/'') body
      in if prefix ''thread-'' sfx then (cat, ''thread'', drop 7 sfx, p)
         else if prefix ''stream-'' sfx then (cat, ''stream'', drop 7 sfx, p)
         else if sfx = ''device'' then (cat, ''device'', [], p)
         else (cat, [], sfx, p))"

section \<open>Filters\<close>

text \<open>
  The two ends of the time range are set together. \<open>rx\<close> stands for \<open>re.compile(q,
  IGNORECASE)\<close> followed by \<open>search\<close>: None is a pattern that does not compile.
\<close>

record span_filter =
  name_query :: string
  name_is_regex :: bool
  min_dur_ns :: int
  f_buckets :: "bucket list"
  f_categories :: "string list"
  f_names :: "string list"
  f_range :: "(int \<times> int) option"

definition no_filter :: span_filter where
  "no_filter = \<lparr>name_query = [], name_is_regex = False, min_dur_ns = 0, f_buckets = [],
     f_categories = [], f_names = [], f_range = None\<rparr>"

definition filter_is_empty :: "span_filter \<Rightarrow> bool" where
  "filter_is_empty f \<longleftrightarrow> \<not> (name_query f \<noteq> [] \<or> min_dur_ns f > 0 \<or> f_buckets f \<noteq> []
     \<or> f_categories f \<noteq> [] \<or> f_names f \<noteq> [] \<or> f_range f \<noteq> None)"

definition name_match :: "(string \<Rightarrow> (string \<Rightarrow> bool) option) \<Rightarrow> span_filter \<Rightarrow> string \<Rightarrow> bool" where
  "name_match rx f nm =
     (let r = (if name_query f \<noteq> [] \<and> name_is_regex f then rx (name_query f) else None);
          q = lower (name_query f)
      in if f_names f \<noteq> [] \<and> nm \<notin> set (f_names f) then False
         else case r of
             Some search \<Rightarrow> search nm
           | None \<Rightarrow> q = [] \<or> sublist q (lower nm))"

definition name_matcher :: "(string \<Rightarrow> (string \<Rightarrow> bool) option) \<Rightarrow> span_filter \<Rightarrow> (string \<Rightarrow> bool) option" where
  "name_matcher rx f = (if name_query f = [] \<and> f_names f = [] then None else Some (name_match rx f))"

definition filter_matches :: "(string \<Rightarrow> (string \<Rightarrow> bool) option) \<Rightarrow> span_filter \<Rightarrow> span_event \<Rightarrow> bool" where
  "filter_matches rx f s =
     (if min_dur_ns f > 0 \<and> duration_ns s < min_dur_ns f then False
      else if (case f_range f of None \<Rightarrow> False | Some (a, b) \<Rightarrow> \<not> (end_ns s > a \<and> start_ns s < b)) then False
      else if f_categories f \<noteq> [] \<and> category_value (category s) \<notin> set (f_categories f) then False
      else if f_buckets f \<noteq> [] \<and> bucket_of_span s \<notin> set (f_buckets f) then False
      else case name_matcher rx f of None \<Rightarrow> True | Some m \<Rightarrow> m (name s))"

section \<open>The exclusive-time aggregate\<close>

type_synonym agg_key = "int \<times> int \<times> string \<times> string \<times> bucket \<times> bool"

record exclusive_aggregate =
  rows :: "(agg_key, int) dict"
  threads :: "(int \<times> int) set"

definition empty_aggregate :: exclusive_aggregate where
  "empty_aggregate = \<lparr>rows = [], threads = {}\<rparr>"

definition agg_add :: "agg_key \<Rightarrow> int \<Rightarrow> exclusive_aggregate \<Rightarrow> exclusive_aggregate" where
  "agg_add k ns a = (if 0 < ns then a\<lparr>rows := dict_add k ns (rows a)\<rparr> else a)"

definition agg_device :: "agg_key \<Rightarrow> bool" where
  "agg_device k = snd (snd (snd (snd (snd k))))"

definition agg_bucket :: "agg_key \<Rightarrow> bucket" where
  "agg_bucket k = fst (snd (snd (snd (snd k))))"

definition agg_totals :: "(agg_key \<Rightarrow> 'k) \<Rightarrow> bool \<Rightarrow> exclusive_aggregate \<Rightarrow> ('k, int) dict" where
  "agg_totals keyfn include_device a =
     fold (\<lambda>(k, ns) out. if agg_device k \<and> \<not> include_device then out else dict_add (keyfn k) ns out) (rows a) []"

definition agg_bucket_totals :: "exclusive_aggregate \<Rightarrow> (bucket, int) dict" where
  "agg_bucket_totals a = agg_totals agg_bucket True a"

definition agg_key_of :: "span_event \<Rightarrow> bool \<Rightarrow> agg_key" where
  "agg_key_of s device = (pid s, tid s, category_value (category s), name s, bucket_of_span s, device)"

section \<open>The streaming sweep\<close>

type_synonym open_entry = "int \<times> int \<times> int \<times> nat"

record stream_sweep =
  pending_ends :: "(int \<times> int \<times> nat) list"
  open_spans :: "open_entry list"
  ended_slots :: "nat set"
  slot_keys :: "(nat, agg_key) dict"
  last_t :: "int option"
  max_end :: "int option"
  pending_samples :: "span_event list"
  sample_t :: "int option"
  slot_counter :: nat
  agg :: exclusive_aggregate

fun drop_discard :: "nat set \<Rightarrow> open_entry list \<Rightarrow> nat set \<times> open_entry list" where
  "drop_discard E [] = (E, [])"
| "drop_discard E ((a, b, q, i) # h) = (if i \<in> E then drop_discard (E - {i}) h else (E, (a, b, q, i) # h))"

text \<open>None is the \<open>KeyError\<close> of \<open>keys[slot]\<close>.\<close>

definition owner_add :: "int \<Rightarrow> stream_sweep \<Rightarrow> stream_sweep option" where
  "owner_add t st =
     map_option (\<lambda>st. st\<lparr>last_t := Some t\<rparr>)
       (case last_t st of
          None \<Rightarrow> Some st
        | Some p \<Rightarrow>
            if p < t then
              (let (E, h) = drop_discard (ended_slots st) (open_spans st);
                   st = st\<lparr>ended_slots := E, open_spans := h\<rparr>
               in case h of
                    [] \<Rightarrow> Some st
                  | (a, b, q, i) # h' \<Rightarrow>
                      map_option (\<lambda>k. st\<lparr>agg := agg_add k (t - p) (agg st)\<rparr>) (map_of (slot_keys st) i))
            else Some st)"

text \<open>\<open>drain_ends\<close> and the final \<open>while pending_ends\<close>, over the heap \<open>pend\<close>.\<close>

fun drain_ends :: "(int \<times> int \<times> int) option \<Rightarrow> (int \<times> int \<times> nat) list \<Rightarrow> stream_sweep \<Rightarrow> stream_sweep option" where
  "drain_ends before [] st = Some (st\<lparr>pending_ends := []\<rparr>)"
| "drain_ends before ((t, q, slot) # pend) st =
     (if (case before of None \<Rightarrow> True | Some b \<Rightarrow> (t, 0, q) < b) then
        Option.bind (owner_add t st) (\<lambda>st. drain_ends before pend (st\<lparr>ended_slots := insert slot (ended_slots st)\<rparr>))
      else Some (st\<lparr>pending_ends := (t, q, slot) # pend\<rparr>))"

definition settle_samples :: "stream_sweep \<Rightarrow> stream_sweep" where
  "settle_samples st =
     st\<lparr>agg := fold (\<lambda>smp a. if (case max_end st of None \<Rightarrow> False | Some m \<Rightarrow> start_ns smp < m) then a
                             else agg_add (agg_key_of smp False) (duration_ns smp) a)
                   (pending_samples st) (agg st),
        pending_samples := []\<rparr>"

definition live_keys :: "stream_sweep \<Rightarrow> (nat, agg_key) dict" where
  "live_keys st =
     (let keys = slot_keys st in
      if 4096 < length keys \<and> 4 * (length (open_spans st) + length (pending_ends st)) < length keys then
        filter (\<lambda>(k, v). k \<in> (\<lambda>(a, b, q, i). i) ` set (open_spans st) \<union> (\<lambda>(t, q, i). i) ` set (pending_ends st)) keys
      else keys)"

definition stream_step :: "span_event \<Rightarrow> stream_sweep \<Rightarrow> stream_sweep option" where
  "stream_step s st =
     (if category_value (category s) = ''cpu'' then
        (let st = (if sample_t st \<noteq> None \<and> sample_t st \<noteq> Some (start_ns s) then settle_samples st else st)
         in Some (st\<lparr>sample_t := Some (start_ns s), pending_samples := pending_samples st @ [s]\<rparr>))
      else
        (let st = (if pending_samples st \<noteq> [] \<and> (\<exists>t\<in>set_option (sample_t st). t < start_ns s)
                   then settle_samples st else st);
             start = start_ns s; end = start_ns s + duration_ns s
         in Option.bind (drain_ends (Some (start, 1, seq s)) (pending_ends st) st) (\<lambda>st.
            Option.bind (owner_add start st) (\<lambda>st.
            let slot = slot_counter st;
                st = st\<lparr>slot_counter := slot + 1,
                        slot_keys := AList.update slot (agg_key_of s False) (slot_keys st),
                        open_spans := heappush (- start, end, seq s, slot) (open_spans st),
                        pending_ends := heappush (end, seq s, slot) (pending_ends st),
                        max_end := (case max_end st of None \<Rightarrow> Some end
                                    | Some m \<Rightarrow> if m < end then Some end else Some m)\<rparr>
            in Some (st\<lparr>slot_keys := live_keys st\<rparr>)))))"

fun stream_run :: "span_event list \<Rightarrow> stream_sweep \<Rightarrow> stream_sweep option" where
  "stream_run [] st = Some st"
| "stream_run (s # ss) st = Option.bind (stream_step s st) (stream_run ss)"

definition exclusive_thread_sweep :: "span_event list \<Rightarrow> exclusive_aggregate \<Rightarrow> exclusive_aggregate option" where
  "exclusive_thread_sweep spans a =
     Option.bind (stream_run spans \<lparr>pending_ends = [], open_spans = [], ended_slots = {}, slot_keys = [],
         last_t = None, max_end = None, pending_samples = [], sample_t = None, slot_counter = 0, agg = a\<rparr>)
       (\<lambda>st. map_option (\<lambda>st. agg (settle_samples st)) (drain_ends None (pending_ends st) st))"

section \<open>Event ids\<close>

lemma or_low_bits:
  assumes "0 \<le> b" "b < 2 ^ n"
  shows "push_bit n a OR b = a * 2 ^ n + (b :: int)"
proof -
  have b: "take_bit n b = b" using assms by (simp add: take_bit_int_eq_self)
  have "\<not> bit (push_bit n a) m \<or> \<not> bit b m" for m
    using b by (metis bit_push_bit_iff_int bit_take_bit_iff not_le)
  then have "push_bit n a AND b = 0" by (auto simp: bit_eq_iff bit_and_iff simp del: bit_push_bit_iff_int)
  then have "push_bit n a + b = push_bit n a OR b" by (rule disjunctive_add_eq_or)
  then show ?thesis by (simp add: push_bit_eq_mult)
qed

lemma make_eid_eq:
  assumes "0 \<le> kind" "kind < 4" "0 \<le> row" "row < 2 ^ 36"
  shows "make_eid shard kind row = shard * 2 ^ 38 + kind * 2 ^ 36 + row"
proof -
  have k: "push_bit 36 kind OR row = kind * 2 ^ 36 + row" using or_low_bits [of row 36 kind] assms by simp
  have "make_eid shard kind row = push_bit 38 shard OR (push_bit 36 kind OR row)"
    by (simp add: make_eid_def ROW_BITS_def KIND_BITS_def or.assoc)
  also have "\<dots> = shard * 2 ^ 38 + (kind * 2 ^ 36 + row)"
    unfolding k using assms by (intro or_low_bits) simp_all
  finally show ?thesis by simp
qed

lemma split_eid_eq: "split_eid i = (i div 2 ^ 38, i div 2 ^ 36 mod 4, i mod 2 ^ 36)"
proof -
  have "(3 :: int) = mask 2" "ROW_MASK = mask 36" by (simp_all add: ROW_MASK_def ROW_BITS_def mask_eq_exp_minus_1 push_bit_eq_mult)
  moreover have "x AND mask n = x mod 2 ^ n" for x :: int and n
    by (simp add: take_bit_eq_mod flip: take_bit_eq_mask)
  ultimately have "x AND 3 = x mod 4" "x AND ROW_MASK = x mod 2 ^ 36" for x :: int
    by (metis num_double power2_eq_square numeral_times_numeral, metis)
  then show ?thesis by (simp add: split_eid_def drop_bit_eq_div ROW_BITS_def KIND_BITS_def)
qed

lemma make_eid_split:
  assumes "0 \<le> kind" "kind < 4" "0 \<le> row" "row < 2 ^ 36"
  shows "split_eid (make_eid shard kind row) = (shard, kind, row)"
proof -
  have e: "make_eid shard kind row = (shard * 4 + kind) * 2 ^ 36 + row"
    using make_eid_eq [OF assms, of shard] by simp
  have d: "make_eid shard kind row div 2 ^ 36 = shard * 4 + kind" "make_eid shard kind row mod 2 ^ 36 = row"
    unfolding e using assms(3,4) by (simp_all only: div_mult_self3 mod_mult_self3) simp_all
  have "make_eid shard kind row div 2 ^ 38 = make_eid shard kind row div 2 ^ 36 div 4"
    by (simp add: zdiv_zmult2_eq [symmetric])
  then show ?thesis using assms unfolding split_eid_eq d by simp
qed

text \<open>
  Property. Event ids are unambiguous: splitting an id gives back the shard, kind and row it was
  made from, and the ids of the shards and rows the stores allow stay below 2^53, so they
  survive a round trip through a JavaScript number.
\<close>

theorem eid_roundtrip:
  assumes "0 \<le> kind" "kind < 4" "0 \<le> row" "row < 2 ^ 36"
  shows "split_eid (make_eid shard kind row) = (shard, kind, row)
    \<and> (0 \<le> shard \<and> shard < MAX_SHARDS \<longrightarrow> 0 \<le> make_eid shard kind row \<and> make_eid shard kind row < 2 ^ 53)"
  using make_eid_split [OF assms] make_eid_eq [OF assms] assms by (simp add: MAX_SHARDS_def push_bit_eq_mult)

theorem eid_roundtrip_witness:
  "split_eid (make_eid 5 KIND_COUNTER 123456789) = (5, KIND_COUNTER, 123456789)
   \<and> make_eid 5 KIND_COUNTER 123456789 < 2 ^ 53"
  using eid_roundtrip [of KIND_COUNTER 123456789 5] by (simp add: KIND_COUNTER_def MAX_SHARDS_def push_bit_eq_mult)

section \<open>Lanes\<close>

text \<open>The bases the lane rule produces: only thread and stream lanes have an identifier.\<close>

definition lane_key_ok :: "lane_key \<Rightarrow> bool" where
  "lane_key_ok base \<longleftrightarrow>
     (case base of (cat, kind, ident) \<Rightarrow>
        cat \<in> set CATEGORY_BY_CODE \<and> (kind = ''thread'' \<or> kind = ''stream'' \<or> (kind = ''device'' \<or> kind = []) \<and> ident = []))"

lemma lane_base_ok: "lane_key_ok (lane_base s)"
  by (auto simp: lane_key_ok_def lane_base_def CATEGORY_BY_CODE_def Let_def)

lemma category_value_chars: "cat \<in> set CATEGORY_BY_CODE \<Longrightarrow> CHR ''/'' \<notin> set cat \<and> CHR ''@'' \<notin> set cat"
  by (auto simp: CATEGORY_BY_CODE_def categories_def)

lemma lane_name_plain:
  assumes "lane_key_ok (cat, kind, ident)"
  shows "CHR ''@'' \<in> set (lane_name (cat, kind, ident) p False) \<longleftrightarrow> CHR ''@'' \<in> set ident"
  using assms category_value_chars by (auto simp: lane_key_ok_def lane_name_def Let_def)

lemma parse_lane_body:
  assumes "lane_key_ok (cat, kind, ident)"
  shows "(case partition_at (CHR ''/'') (lane_name (cat, kind, ident) q False) of (c, sfx) \<Rightarrow>
      if prefix ''thread-'' sfx then (c, ''thread'', drop 7 sfx, p)
      else if prefix ''stream-'' sfx then (c, ''stream'', drop 7 sfx, p)
      else if sfx = ''device'' then (c, ''device'', [], p)
      else (c, [], sfx, p)) = (cat, kind, ident, p)"
proof -
  have cat: "CHR ''/'' \<notin> set cat" using assms category_value_chars by (simp add: lane_key_ok_def)
  consider "kind = ''thread''" | "kind = ''stream''" | "kind = ''device''" "ident = []" | "kind = []" "ident = []"
    using assms by (auto simp: lane_key_ok_def)
  then show ?thesis by cases (use cat in \<open>simp_all add: lane_name_def\<close>)
qed

lemma parse_lane_shared:
  assumes "lane_key_ok (cat, kind, ident)"
  shows "parse_lane_name (lane_name (cat, kind, ident) p True) = (cat, kind, ident, Some p)"
proof -
  have "CHR ''@'' \<notin> set (show_int p)" using show_int_chars [of _ p] is_digit_facts(4) by fastforce
  then have "rpartition_at (CHR ''@'') (lane_name (cat, kind, ident) p False @ CHR ''@'' # show_int p)
      = (lane_name (cat, kind, ident) p False, show_int p)" by simp
  moreover have "lane_name (cat, kind, ident) p True = lane_name (cat, kind, ident) p False @ CHR ''@'' # show_int p"
    by (simp add: lane_name_def Let_def)
  ultimately show ?thesis using parse_lane_body [OF assms] by (simp add: parse_lane_name_def)
qed

lemma parse_lane_own:
  assumes "lane_key_ok (cat, kind, ident)" "CHR ''@'' \<notin> set ident"
  shows "parse_lane_name (lane_name (cat, kind, ident) p False) = (cat, kind, ident, None)"
  using parse_lane_body [OF assms(1)] lane_name_plain [OF assms(1)] assms(2) by (simp add: parse_lane_name_def)

text \<open>
  C40. Lane names are read back exactly: \<open>parse_lane_name\<close> returns the category, kind and
  identifier of the lane a span is displayed on, and the process exactly when the lane is
  shared. An unshared lane needs an identifier without an at sign (a thread id, or such a
  stream tag).
\<close>

theorem lane_name_roundtrip:
  assumes "shared \<or> CHR ''@'' \<notin> set (snd (snd (lane_base s)))"
  shows "parse_lane_name (lane_name (lane_base s) p shared) =
    (fst (lane_base s), fst (snd (lane_base s)), snd (snd (lane_base s)), if shared then Some p else None)"
proof -
  obtain cat kind ident where b: "lane_base s = (cat, kind, ident)" by (cases "lane_base s")
  then have "lane_key_ok (cat, kind, ident)" using lane_base_ok [of s] by simp
  then show ?thesis using assms b by (cases shared) (simp_all add: parse_lane_shared parse_lane_own)
qed

theorem lane_name_roundtrip_witness:
  "parse_lane_name (lane_name (lane_base (mk_span ''k'' GPU_CUDA 0 5 41 7 [(''stream'', ''3'')])) 41 True)
     = (''cuda'', ''stream'', ''3'', Some 41)
   \<and> lane_name (lane_base (mk_span ''k'' GPU_CUDA 0 5 41 7 [(''stream'', ''3'')])) 41 True = ''cuda/stream-3@41''"
proof -
  let ?s = "mk_span ''k'' GPU_CUDA 0 5 41 7 [(''stream'', ''3'')]"
  have b: "lane_base ?s = (''cuda'', ''stream'', ''3'')" by code_simp
  moreover have "lane_name (''cuda'', ''stream'', ''3'') 41 True = ''cuda/stream-3@41''" by code_simp
  ultimately show ?thesis using lane_name_roundtrip [of True ?s 41] by simp
qed

text \<open>
  The docstring calls \<open>parse_lane_name\<close> the inverse of the naming; an unshared stream with an at sign
  in its tag is read back as a lane of another process.
\<close>

lemma at_sign_misread:
  "lane_base (mk_span ''k'' GPU_CUDA 0 5 41 7 [(''stream'', ''x@5'')]) = (''cuda'', ''stream'', ''x@5'') \<and>
   parse_lane_name (lane_name (''cuda'', ''stream'', ''x@5'') 41 False) = (''cuda'', ''stream'', ''x'', Some 5)"
  by code_simp

lemma lane_names_distinct:
  assumes "distinct (map (\<lambda>g. (g_pid g, g_base g)) groups)"
    and "\<forall>g\<in>set groups. lane_key_ok (g_base g) \<and> CHR ''@'' \<notin> set (snd (snd (g_base g)))"
  shows "distinct (map l_name (assign_lane_names groups))"
proof -
  let ?shared = "\<lambda>g. 1 < card (pids_of_base groups (g_base g))"
  let ?nm = "\<lambda>g. lane_name (g_base g) (g_pid g) (?shared g)"
  have parse: "parse_lane_name (?nm g) =
      (fst (g_base g), fst (snd (g_base g)), snd (snd (g_base g)), if ?shared g then Some (g_pid g) else None)"
    if "g \<in> set groups" for g
    using assms(2) that parse_lane_shared parse_lane_own by (cases "g_base g") force
  have inj: "g = h" if gh: "g \<in> set groups" "h \<in> set groups" and eq: "?nm g = ?nm h" for g h
  proof -
    have p: "(fst (g_base g), fst (snd (g_base g)), snd (snd (g_base g)), if ?shared g then Some (g_pid g) else None)
        = (fst (g_base h), fst (snd (g_base h)), snd (snd (g_base h)), if ?shared h then Some (g_pid h) else None)"
      using parse [OF gh(1)] parse [OF gh(2)] eq by metis
    then have base: "g_base g = g_base h" by (simp add: prod_eq_iff)
    have "g_pid g = g_pid h"
    proof (cases "?shared g")
      case False
      have fin: "finite (pids_of_base groups (g_base g))" by (simp add: pids_of_base_def)
      have "g_pid g \<in> pids_of_base groups (g_base g)" "g_pid h \<in> pids_of_base groups (g_base g)"
        using gh base by (auto simp: pids_of_base_def)
      then show ?thesis using False fin by (metis card_le_Suc0_iff_eq not_less One_nat_def)
    qed (use p base in simp)
    then show "g = h" using assms(1) gh base by (auto simp: distinct_map inj_on_def)
  qed
  have names: "map l_name (assign_lane_names groups) = map ?nm (sort_key g_first_seq groups)"
    by (simp add: assign_lane_names_def mk_lane_info_def)
  have "distinct groups" using assms(1) by (simp add: distinct_map)
  then have d: "distinct (map l_name (assign_lane_names groups))"
    unfolding names using inj by (auto simp: distinct_map distinct_sort inj_on_def)
  from d show ?thesis .
qed

text \<open>
  Property. Lanes get distinct names: when every group is a different (process, lane) pair and the
  identifiers have no at sign, no two lanes share a name. The lanes keep their groups' counts
  and extents and come in order of first appearance.
\<close>

theorem assign_lane_names_distinct:
  assumes "distinct (map (\<lambda>g. (g_pid g, g_base g)) groups)"
    and "\<forall>g\<in>set groups. lane_key_ok (g_base g) \<and> CHR ''@'' \<notin> set (snd (snd (g_base g)))"
  shows "distinct (map l_name (assign_lane_names groups))
    \<and> sorted (map l_first_seq (assign_lane_names groups))
    \<and> mset (map (\<lambda>l. (l_pid l, (l_cat l, l_kind l, l_ident l), l_count l, l_first_seq l, l_min_start l, l_max_end l, l_max_dur l))
         (assign_lane_names groups))
      = mset (map (\<lambda>g. (g_pid g, g_base g, g_count g, g_first_seq g, g_min_start g, g_max_end g, g_max_dur g)) groups)"
  using lane_names_distinct [OF assms] by (simp add: assign_lane_names_def mk_lane_info_def comp_def)

text \<open>Two processes with the same lane, and one lane of its own.\<close>

definition demo_groups :: "lane_group list" where
  "demo_groups =
    [\<lparr>g_pid = 2, g_base = (''mpi'', ''thread'', ''9''), g_count = 4, g_first_seq = 5, g_min_start = 0, g_max_end = 9, g_max_dur = 3\<rparr>,
     \<lparr>g_pid = 1, g_base = (''mpi'', ''thread'', ''9''), g_count = 1, g_first_seq = 2, g_min_start = 0, g_max_end = 9, g_max_dur = 3\<rparr>,
     \<lparr>g_pid = 1, g_base = (''opencl'', ''device'', []), g_count = 1, g_first_seq = 3, g_min_start = 0, g_max_end = 9, g_max_dur = 3\<rparr>]"

theorem assign_lane_names_distinct_witness:
  "map l_name (assign_lane_names demo_groups) = [''mpi/thread-9@1'', ''opencl/device'', ''mpi/thread-9@2'']
   \<and> distinct (map l_name (assign_lane_names demo_groups))"
proof -
  have "distinct (map (\<lambda>g. (g_pid g, g_base g)) demo_groups)"
    and "\<forall>g\<in>set demo_groups. lane_key_ok (g_base g) \<and> CHR ''@'' \<notin> set (snd (snd (g_base g)))"
    by code_simp+
  then have "distinct (map l_name (assign_lane_names demo_groups))" by (rule assign_lane_names_distinct [THEN conjunct1])
  moreover have "map l_name (assign_lane_names demo_groups) = [''mpi/thread-9@1'', ''opencl/device'', ''mpi/thread-9@2'']"
    by code_simp
  ultimately show ?thesis by simp
qed

section \<open>Filters and aggregates\<close>

lemma empty_filter_matches: "filter_is_empty f \<Longrightarrow> filter_matches rx f s"
  by (cases "f_range f") (auto simp: filter_is_empty_def filter_matches_def name_matcher_def)

lemma agg_add_get [simp]:
  "dict_get (rows (agg_add k ns a)) k' 0 = dict_get (rows a) k' 0 + (if k' = k then max 0 ns else 0)"
  by (simp add: agg_add_def)

lemma agg_add_ok [simp]: "dict_ok (rows a) \<Longrightarrow> dict_ok (rows (agg_add k ns a))"
  by (auto simp: agg_add_def)

lemma agg_add_threads [simp]: "threads (agg_add k ns a) = threads a"
  by (simp add: agg_add_def)

text \<open>A breakdown of the aggregate adds up the rows of each group.\<close>

lemma agg_totals_get:
  "dict_get (agg_totals keyfn inc a) g 0
     = (\<Sum>(k, ns)\<leftarrow>rows a. if keyfn k = g \<and> (inc \<or> \<not> agg_device k) then ns else 0)"
proof -
  have "dict_get (fold (\<lambda>(k, ns) out. if agg_device k \<and> \<not> inc then out else dict_add (keyfn k) ns out) rs out) g (0 :: int)
      = dict_get out g 0 + (\<Sum>(k, ns)\<leftarrow>rs. if keyfn k = g \<and> (inc \<or> \<not> agg_device k) then ns else 0)" for rs out
    by (induction rs arbitrary: out) auto
  then show ?thesis by (simp add: agg_totals_def)
qed

end
