(* ===== verification/Streaming_Sweep.thy ===== *)
theory Streaming_Sweep
  imports Exclusive_Time Store_Common
begin

text \<open>
  The streaming sweep \<open>exclusive_thread_sweep\<close> of the stores computes the exclusive time
  \<open>ExclusiveTime\<close> computes, although it keeps the open spans only, forgets the keys of the
  spans it no longer needs and settles the samples as it goes. The instrumented spans of the
  thread are named by their slot.
\<close>

section \<open>The state of the streaming sweep\<close>

definition slot_rank :: "span_event list \<Rightarrow> nat \<Rightarrow> open_entry" where
  "slot_rank ins i = (- sp_start ins i, sp_end ins i, seq (ins ! i), i)"

fun entry_slot :: "open_entry \<Rightarrow> nat" where
  "entry_slot (a, b, q, i) = i"

interpretation stream: ranked_sweep "sp_start ins" "sp_end ins" "slot_rank ins" entry_slot for ins
  by unfold_locales (simp add: slot_rank_def)

definition slot_cells :: "span_event list \<Rightarrow> nat \<Rightarrow> int set" where
  "slot_cells ins = owned_cells (sp_start ins) (sp_end ins) (slot_rank ins) {..<length ins}"

definition owned_upto :: "span_event list \<Rightarrow> agg_key \<Rightarrow> int option \<Rightarrow> int" where
  "owned_upto ins k to = (case to of None \<Rightarrow> 0 | Some p \<Rightarrow>
     (\<Sum>i<length ins. if agg_key_of (ins ! i) False = k then int (card (slot_cells ins i \<inter> {..<p})) else 0))"

definition end_entry :: "span_event list \<Rightarrow> nat \<Rightarrow> int \<times> int \<times> nat" where
  "end_entry ins i = (sp_end ins i, seq (ins ! i), i)"

abbreviation all_bounds :: "span_event list \<Rightarrow> nat mark set" where
  "all_bounds ins \<equiv> boundaries_of (sp_start ins) (sp_end ins) {..<length ins}"

text \<open>
  After the first \<open>n\<close> spans have been pushed and the boundaries \<open>P\<close> processed: the heap of
  open spans, the ends still to come, the keys of the spans either of them names, and the
  time attributed so far.
\<close>

definition stream_inv :: "span_event list \<Rightarrow> nat \<Rightarrow> (agg_key \<Rightarrow> int) \<Rightarrow> nat mark set
    \<Rightarrow> (int \<times> int \<times> nat) list \<Rightarrow> stream_sweep \<Rightarrow> bool" where
  "stream_inv ins n base P pend st \<longleftrightarrow>
     n \<le> length ins
   \<and> heap_inv (sp_start ins) (sp_end ins) (slot_rank ins) entry_slot P (open_spans st) (ended_slots st)
   \<and> sorted pend \<and> distinct pend
   \<and> set pend = end_entry ins ` {i. i < n \<and> (sp_end ins i, 0, i) \<notin> P}
   \<and> (\<forall>i<n. (sp_start ins i, 1, i) \<in> P)
   \<and> P \<subseteq> boundaries_of (sp_start ins) (sp_end ins) {..<n}
   \<and> (last_t st = None \<longleftrightarrow> P = {})
   \<and> (\<forall>p b. last_t st = Some p \<longrightarrow> b \<in> P \<longrightarrow> fst b \<le> p)
   \<and> (\<forall>p b. last_t st = Some p \<longrightarrow> b \<in> all_bounds ins \<longrightarrow> b \<notin> P \<longrightarrow> p \<le> fst b)
   \<and> (\<forall>k. dict_get (rows (agg st)) k 0 = base k + owned_upto ins k (last_t st))
   \<and> (\<forall>x. x \<in> set (open_spans st) \<longrightarrow> map_of (slot_keys st) (entry_slot x) = Some (agg_key_of (ins ! entry_slot x) False))
   \<and> (\<forall>t q i. (t, q, i) \<in> set pend \<longrightarrow> map_of (slot_keys st) i = Some (agg_key_of (ins ! i) False))
   \<and> slot_counter st = n \<and> dict_ok (slot_keys st)"

lemma stream_inv_parts:
  assumes "stream_inv ins n base P pend st"
  shows "n \<le> length ins" "sorted pend" "distinct pend"
    and "set pend = end_entry ins ` {i. i < n \<and> (sp_end ins i, 0, i) \<notin> P}"
    and "P \<subseteq> boundaries_of (sp_start ins) (sp_end ins) {..<n}" "\<forall>i<n. (sp_start ins i, 1, i) \<in> P"
    and "\<forall>p b. last_t st = Some p \<longrightarrow> b \<in> all_bounds ins \<longrightarrow> b \<notin> P \<longrightarrow> p \<le> fst b"
    and "heap_inv (sp_start ins) (sp_end ins) (slot_rank ins) entry_slot P (open_spans st) (ended_slots st)"
    and "slot_counter st = n" "dict_ok (slot_keys st)"
    and "\<forall>x. x \<in> set (open_spans st) \<longrightarrow> map_of (slot_keys st) (entry_slot x) = Some (agg_key_of (ins ! entry_slot x) False)"
    and "\<forall>t q i. (t, q, i) \<in> set pend \<longrightarrow> map_of (slot_keys st) i = Some (agg_key_of (ins ! i) False)"
    and "\<forall>k. dict_get (rows (agg st)) k 0 = base k + owned_upto ins k (last_t st)"
    and "\<forall>p b. last_t st = Some p \<longrightarrow> b \<in> P \<longrightarrow> fst b \<le> p"
    and "last_t st = None \<longleftrightarrow> P = {}"
proof -
  show "n \<le> length ins"
    using assms unfolding stream_inv_def by (elim conjE)
  show "sorted pend"
    using assms unfolding stream_inv_def by (elim conjE)
  show "distinct pend"
    using assms unfolding stream_inv_def by (elim conjE)
  show "set pend = end_entry ins ` {i. i < n \<and> (sp_end ins i, 0, i) \<notin> P}"
    using assms unfolding stream_inv_def by (elim conjE)
  show "P \<subseteq> boundaries_of (sp_start ins) (sp_end ins) {..<n}"
    using assms unfolding stream_inv_def by (elim conjE)
  show "\<forall>i<n. (sp_start ins i, 1, i) \<in> P"
    using assms unfolding stream_inv_def by (elim conjE)
  show "\<forall>p b. last_t st = Some p \<longrightarrow> b \<in> all_bounds ins \<longrightarrow> b \<notin> P \<longrightarrow> p \<le> fst b"
    using assms unfolding stream_inv_def by (elim conjE)
  show "heap_inv (sp_start ins) (sp_end ins) (slot_rank ins) entry_slot P (open_spans st) (ended_slots st)"
    using assms unfolding stream_inv_def by (elim conjE)
  show "slot_counter st = n"
    using assms unfolding stream_inv_def by (elim conjE)
  show "dict_ok (slot_keys st)"
    using assms unfolding stream_inv_def by (elim conjE)
  show "\<forall>x. x \<in> set (open_spans st) \<longrightarrow> map_of (slot_keys st) (entry_slot x) = Some (agg_key_of (ins ! entry_slot x) False)"
    using assms unfolding stream_inv_def by (elim conjE)
  show "\<forall>t q i. (t, q, i) \<in> set pend \<longrightarrow> map_of (slot_keys st) i = Some (agg_key_of (ins ! i) False)"
    using assms unfolding stream_inv_def by (elim conjE)
  show "\<forall>k. dict_get (rows (agg st)) k 0 = base k + owned_upto ins k (last_t st)"
    using assms unfolding stream_inv_def by (elim conjE)
  show "\<forall>p b. last_t st = Some p \<longrightarrow> b \<in> P \<longrightarrow> fst b \<le> p"
    using assms unfolding stream_inv_def by (elim conjE)
  show "last_t st = None \<longleftrightarrow> P = {}"
    using assms unfolding stream_inv_def by (elim conjE)
qed

lemmas stream_inv_facts = stream_inv_parts(1-5) stream_inv_parts(6,7) [rule_format] stream_inv_parts(8-10)
  stream_inv_parts(11-14) [rule_format] stream_inv_parts(15)

lemma bounds_upto: "n \<le> length ins \<Longrightarrow> boundaries_of (sp_start ins) (sp_end ins) {..<n} \<subseteq> all_bounds ins"
  by (auto simp: boundaries_of_def)

lemma stream_invI:
  assumes "n \<le> length ins" "sorted pend" "distinct pend"
    and "set pend = end_entry ins ` {i. i < n \<and> (sp_end ins i, 0, i) \<notin> P}"
    and "P \<subseteq> boundaries_of (sp_start ins) (sp_end ins) {..<n}" "\<And>i. i < n \<Longrightarrow> (sp_start ins i, 1, i) \<in> P"
    and "last_t st = Some p" "P \<noteq> {}"
    and "\<And>b. b \<in> all_bounds ins \<Longrightarrow> b \<notin> P \<Longrightarrow> p \<le> fst b" "\<And>b. b \<in> P \<Longrightarrow> fst b \<le> p"
    and "heap_inv (sp_start ins) (sp_end ins) (slot_rank ins) entry_slot P (open_spans st) (ended_slots st)"
    and "slot_counter st = n" "dict_ok (slot_keys st)"
    and "\<And>x. x \<in> set (open_spans st) \<Longrightarrow> map_of (slot_keys st) (entry_slot x) = Some (agg_key_of (ins ! entry_slot x) False)"
    and "\<And>t q i. (t, q, i) \<in> set pend \<Longrightarrow> map_of (slot_keys st) i = Some (agg_key_of (ins ! i) False)"
    and "\<And>k. dict_get (rows (agg st)) k 0 = base k + owned_upto ins k (Some p)"
  shows "stream_inv ins n base P pend st"
  unfolding stream_inv_def
proof (intro conjI allI impI)
  show "last_t st = None \<longleftrightarrow> P = {}" using assms(7,8) by simp
  show "fst b \<le> p'" if "last_t st = Some p'" "b \<in> P" for p' b using assms(7,10) that by simp
  show "p' \<le> fst b" if "last_t st = Some p'" "b \<in> all_bounds ins" "b \<notin> P" for p' b
    using assms(7,9) that by simp
  show "dict_get (rows (agg st)) k 0 = base k + owned_upto ins k (last_t st)" for k
    unfolding assms(7) by (rule assms(16))
qed (rule assms; assumption)+

lemma drop_discard_eq:
  "heap_inv (sp_start ins) (sp_end ins) (slot_rank ins) entry_slot P h E \<Longrightarrow>
   drop_discard E h = (E - entry_slot ` set (takeWhile (\<lambda>x. entry_slot x \<in> E) h), drop_marked entry_slot E h)"
proof -
  assume inv: "heap_inv (sp_start ins) (sp_end ins) (slot_rank ins) entry_slot P h E"
  have "inj_on entry_slot (set h)"
  proof (rule inj_onI)
    fix x y assume "x \<in> set h" "y \<in> set h" "entry_slot x = entry_slot y"
    then show "x = y" using stream.heap_inv_entry(1) [OF inv] by metis
  qed
  moreover have "distinct h" using inv by (simp add: heap_inv_def)
  ultimately have "distinct (map entry_slot h)" by (simp add: distinct_map)
  then show ?thesis
  proof (induction E h rule: drop_discard.induct)
    case (2 E a b q i h)
    have "i \<notin> entry_slot ` set h" using 2(2) by simp
    then have "j \<noteq> i" if "j \<in> entry_slot ` set h" for j using that by metis
    then have tw: "takeWhile (\<lambda>x. entry_slot x \<in> E - {i}) h = takeWhile (\<lambda>x. entry_slot x \<in> E) h"
      and dm: "drop_marked entry_slot (E - {i}) h = drop_marked entry_slot E h"
      unfolding drop_marked_def by (auto intro!: takeWhile_cong dropWhile_cong)
    show ?case
    proof (cases "i \<in> E")
      case True
      then have "drop_discard E ((a, b, q, i) # h)
          = (E - {i} - entry_slot ` set (takeWhile (\<lambda>x. entry_slot x \<in> E - {i}) h), drop_marked entry_slot (E - {i}) h)"
        using 2 by simp
      then show ?thesis unfolding tw dm using True by (auto simp: drop_marked_def)
    qed (simp add: drop_marked_def)
  qed (simp add: drop_marked_def)
qed

section \<open>owner_add\<close>

lemma owned_upto_step:
  assumes "heap_inv (sp_start ins) (sp_end ins) (slot_rank ins) entry_slot P h E"
    and "cut (all_bounds ins) P p t" "p \<le> t"
  shows "owned_upto ins k (Some t) = owned_upto ins k (Some p)
    + (\<Sum>i<length ins. if agg_key_of (ins ! i) False = k then head_share entry_slot E h (t - p) i else 0)"
proof -
  have "int (card (slot_cells ins i \<inter> {..<t})) = int (card (slot_cells ins i \<inter> {..<p})) + head_share entry_slot E h (t - p) i" for i
    unfolding slot_cells_def stream.head_share_cells [OF assms]
    by (rule card_upto_split [OF owned_cells_finite assms(3)])
  then show ?thesis unfolding owned_upto_def by (simp add: sum.distrib [symmetric] if_distrib cong: if_cong sum.cong)
qed

lemma head_share_sum:
  assumes "\<And>x h'. drop_marked entry_slot E h = x # h' \<Longrightarrow> entry_slot x < length ins"
  shows "(\<Sum>i<length ins. if agg_key_of (ins ! i) False = k then head_share entry_slot E h d i else 0)
    = (case drop_marked entry_slot E h of [] \<Rightarrow> 0 | x # h' \<Rightarrow> if agg_key_of (ins ! entry_slot x) False = k then d else 0)"
proof (cases "drop_marked entry_slot E h")
  case Nil
  then show ?thesis by (simp add: head_share_def cong: if_cong)
next
  case (Cons x h')
  have "(\<Sum>i<length ins. if agg_key_of (ins ! i) False = k then if i = entry_slot x then d else 0 else 0)
      = (\<Sum>i<length ins. if i = entry_slot x then (if agg_key_of (ins ! entry_slot x) False = k then d else 0) else 0)"
    by (intro sum.cong) auto
  then show ?thesis using assms [OF Cons] Cons by (simp add: head_share_def cong: if_cong)
qed

text \<open>
  Advancing to a boundary no later than any that remains attributes the time in between to
  the owner and never misses a key.
\<close>

lemma owner_add_inv:
  assumes inv: "stream_inv ins n base P pend st"
    and ge: "\<And>b. b \<in> all_bounds ins \<Longrightarrow> b \<notin> P \<Longrightarrow> t \<le> fst b"
    and next_t: "\<And>p. last_t st = Some p \<Longrightarrow> p \<le> t"
  shows "\<exists>st'. owner_add t st = Some st'
    \<and> heap_inv (sp_start ins) (sp_end ins) (slot_rank ins) entry_slot P (open_spans st') (ended_slots st')
    \<and> set (open_spans st') \<subseteq> set (open_spans st) \<and> last_t st' = Some t
    \<and> (\<forall>k. dict_get (rows (agg st')) k 0 = base k + owned_upto ins k (Some t))
    \<and> slot_keys st' = slot_keys st \<and> slot_counter st' = slot_counter st \<and> max_end st' = max_end st
    \<and> pending_ends st' = pending_ends st
    \<and> pending_samples st' = pending_samples st \<and> sample_t st' = sample_t st"
proof (cases "last_t st")
  case None
  then have P: "P = {}" and row: "dict_get (rows (agg st)) k 0 = base k" for k
    using inv by (simp_all add: stream_inv_def owned_upto_def del: split_paired_All)
  have "cut (all_bounds ins) {} t t" using ge P by (auto simp: cut_def)
  then have "slot_cells ins i \<inter> {..<t} = {}" for i
    unfolding slot_cells_def by (rule stream.owned_before)
  then have "owned_upto ins k (Some t) = 0" for k by (simp add: owned_upto_def cong: if_cong)
  then show ?thesis using inv None row unfolding P by (simp add: owner_add_def stream_inv_def)
next
  case (Some p)
  note f = stream_inv_facts [OF inv]
  note heap = f(8) and le = f(14) [OF Some] and PB = f(5) and n = f(1) and row = f(13) [unfolded Some] and keys = f(11)
  have pt: "p \<le> t" using next_t Some by simp
  have "P \<subseteq> all_bounds ins" using PB bounds_upto [OF n] by blast
  then have cut: "cut (all_bounds ins) P p t" unfolding cut_def using le ge by blast
  let ?D = "drop_marked entry_slot (ended_slots st) (open_spans st)"
  let ?E = "ended_slots st - entry_slot ` set (takeWhile (\<lambda>x. entry_slot x \<in> ended_slots st) (open_spans st))"
  have dd: "drop_discard (ended_slots st) (open_spans st) = (?E, ?D)" by (rule drop_discard_eq [OF heap])
  have heap': "heap_inv (sp_start ins) (sp_end ins) (slot_rank ins) entry_slot P ?D ?E"
    by (rule stream.heap_inv_discard [OF heap])
  have sub: "set ?D \<subseteq> set (open_spans st)" by (rule drop_marked_subset)
  have bound: "entry_slot x < length ins" if "?D = x # h'" for x h'
  proof -
    have "x \<in> set (open_spans st)" using that sub by auto
    then have "(sp_start ins (entry_slot x), 1, entry_slot x) \<in> P"
      using stream.heap_inv_entry(2) [OF heap] by blast
    then show ?thesis using PB n by (auto simp: boundaries_of_def)
  qed
  have up: "base k + owned_upto ins k (Some t) = dict_get (rows (agg st)) k 0
      + (case ?D of [] \<Rightarrow> 0 | x # h' \<Rightarrow> if agg_key_of (ins ! entry_slot x) False = k then t - p else 0)" for k
    unfolding owned_upto_step [OF heap cut pt] row
    using head_share_sum [where E = "ended_slots st" and h = "open_spans st", OF bound] by simp
  show ?thesis
  proof (cases "p < t")
    case False
    then have "p = t" using pt by simp
    then show ?thesis using inv Some row heap by (simp add: owner_add_def)
  next
    case True
    show ?thesis
    proof (cases ?D)
      case Nil
      then show ?thesis
        using True Some dd heap' up by (simp add: owner_add_def del: split_paired_All)
    next
      case (Cons x h')
      obtain a b q i where x: "x = (a, b, q, i)" by (cases x)
      have "x \<in> set (open_spans st)" using Cons sub by auto
      then have k: "map_of (slot_keys st) i = Some (agg_key_of (ins ! i) False)" using keys x by force
      have D: "?D = (a, b, q, i) # h'" using Cons x by simp
      have "set ((a, b, q, i) # h') \<subseteq> set (open_spans st)" using sub unfolding D .
      moreover have "dict_get (rows (agg_add (agg_key_of (ins ! i) False) (t - p) (agg st))) k 0
          = base k + owned_upto ins k (Some t)" for k
        using True unfolding agg_add_get up D by auto
      ultimately show ?thesis
        using True Some dd heap' k unfolding D by (simp add: owner_add_def)
    qed
  qed
qed

section \<open>Draining the ends\<close>

text \<open>The boundaries still to come are the pending ends and those of the spans not yet pushed.\<close>

lemma remaining_bound:
  assumes inv: "stream_inv ins n base P pend st" and b: "b \<in> all_bounds ins" "b \<notin> P"
    and pend: "\<And>t' q i. (t', q, i) \<in> set pend \<Longrightarrow> t \<le> t'"
    and start: "\<And>i. n \<le> i \<Longrightarrow> i < length ins \<Longrightarrow> t \<le> sp_start ins i \<and> sp_start ins i < sp_end ins i"
  shows "t \<le> fst b"
proof -
  obtain i where i: "i < length ins" "b = (sp_start ins i, 1, i) \<or> b = (sp_end ins i, 0, i)"
    using b(1) by (auto simp: boundaries_of_def)
  show ?thesis
  proof (cases "i < n")
    case True
    then have "b = (sp_end ins i, 0, i)" using i b(2) stream_inv_facts(6) [OF inv] by auto
    moreover from this have "end_entry ins i \<in> set pend"
      using True b(2) stream_inv_facts(4) [OF inv] by auto
    ultimately show ?thesis using pend by (simp add: end_entry_def)
  next
    case False
    then show ?thesis using i start [of i] by auto
  qed
qed

lemma drain_step_inv:
  assumes inv: "stream_inv ins n base P ((t, q, slot) # pend) st"
    and start: "\<And>i. n \<le> i \<Longrightarrow> i < length ins \<Longrightarrow> t \<le> sp_start ins i \<and> sp_start ins i < sp_end ins i"
  shows "\<exists>st'. owner_add t st = Some st'
    \<and> stream_inv ins n base (insert (t, 0, slot) P) pend (st'\<lparr>ended_slots := insert slot (ended_slots st')\<rparr>)
    \<and> max_end st' = max_end st \<and> pending_samples st' = pending_samples st \<and> sample_t st' = sample_t st"
proof -
  note f = stream_inv_facts [OF inv]
  have "(t, q, slot) \<in> end_entry ins ` {i. i < n \<and> (sp_end ins i, 0, i) \<notin> P}"
    using f(4) by (metis list.set_intros(1))
  then have slot: "slot < n" "t = sp_end ins slot" "q = seq (ins ! slot)" "(sp_end ins slot, 0, slot) \<notin> P"
    by (auto simp: end_entry_def)
  have min: "t \<le> t'" if "(t', q', i) \<in> set ((t, q, slot) # pend)" for t' q' i
    using that f(2) by (auto simp: less_eq_prod_def dest: bspec)
  have ge: "t \<le> fst b" if "b \<in> all_bounds ins" "b \<notin> P" for b
    using remaining_bound [OF inv that min start] .
  have "(t, 0, slot) \<in> all_bounds ins" using slot f(1) by (auto simp: boundaries_of_def)
  then have next_t: "p \<le> t" if "last_t st = Some p" for p
    using f(7) [OF that] slot by fastforce
  obtain st' where st': "owner_add t st = Some st'"
    and h: "heap_inv (sp_start ins) (sp_end ins) (slot_rank ins) entry_slot P (open_spans st') (ended_slots st')"
    and r: "set (open_spans st') \<subseteq> set (open_spans st)" "last_t st' = Some t"
      "\<And>k. dict_get (rows (agg st')) k 0 = base k + owned_upto ins k (Some t)"
      "slot_keys st' = slot_keys st" "slot_counter st' = slot_counter st" "max_end st' = max_end st"
      "pending_samples st' = pending_samples st" "sample_t st' = sample_t st"
    using owner_add_inv [OF inv ge next_t] by blast
  have h2: "heap_inv (sp_start ins) (sp_end ins) (slot_rank ins) entry_slot (insert (t, 0, slot) P)
      (open_spans st') (insert slot (ended_slots st'))"
    using stream.heap_inv_end [OF h, of slot] slot(2) by simp
  have sp: "set pend = end_entry ins ` {i. i < n \<and> (sp_end ins i, 0, i) \<notin> insert (t, 0, slot) P}"
  proof -
    have "set pend = set ((t, q, slot) # pend) - {(t, q, slot)}" using f(3) by auto
    also have "\<dots> = end_entry ins ` {i. i < n \<and> (sp_end ins i, 0, i) \<notin> P} - {end_entry ins slot}"
      unfolding f(4) using slot by (simp add: end_entry_def)
    also have "\<dots> = end_entry ins ` {i. i < n \<and> (sp_end ins i, 0, i) \<notin> insert (t, 0, slot) P}"
      using slot(2) by (auto simp: end_entry_def)
    finally show ?thesis .
  qed
  have sb: "insert (t, 0, slot) P \<subseteq> boundaries_of (sp_start ins) (sp_end ins) {..<n}"
    using f(5) slot by (auto simp: boundaries_of_def)
  have le2: "fst b \<le> t" if "b \<in> insert (t, 0, slot) P" for b
  proof (cases "last_t st")
    case None
    then show ?thesis using f(15) that by auto
  next
    case (Some p)
    then show ?thesis using f(14) [OF Some, of b] that next_t [OF Some] by auto
  qed
  have "stream_inv ins n base (insert (t, 0, slot) P) pend (st'\<lparr>ended_slots := insert slot (ended_slots st')\<rparr>)"
  proof (rule stream_invI [where p = t])
    show "sorted pend" "distinct pend" using f(2,3) by simp_all
    show "t \<le> fst b" if "b \<in> all_bounds ins" "b \<notin> insert (t, 0, slot) P" for b
      using ge that by blast
    show "map_of (slot_keys (st'\<lparr>ended_slots := insert slot (ended_slots st')\<rparr>)) i = Some (agg_key_of (ins ! i) False)"
      if "(t', q', i) \<in> set pend" for t' q' i
      using f(12) [of t' q' i] that r(4) by simp
    show "map_of (slot_keys (st'\<lparr>ended_slots := insert slot (ended_slots st')\<rparr>)) (entry_slot x) = Some (agg_key_of (ins ! entry_slot x) False)"
      if "x \<in> set (open_spans (st'\<lparr>ended_slots := insert slot (ended_slots st')\<rparr>))" for x
      using f(11) [of x] that r by auto
    show "heap_inv (sp_start ins) (sp_end ins) (slot_rank ins) entry_slot (insert (t, 0, slot) P)
        (open_spans (st'\<lparr>ended_slots := insert slot (ended_slots st')\<rparr>)) (ended_slots (st'\<lparr>ended_slots := insert slot (ended_slots st')\<rparr>))"
      using h2 by simp
  qed (use f(1,6,9,10) r sp sb le2 in auto)
  then show ?thesis using st' r by blast
qed

lemma stream_inv_pending: "stream_inv ins n base P pend (st\<lparr>pending_ends := x\<rparr>) = stream_inv ins n base P pend st"
  by (simp add: stream_inv_def)

lemma stream_inv_samples:
  "stream_inv ins n base P pend (st\<lparr>sample_t := x, pending_samples := y\<rparr>) = stream_inv ins n base P pend st"
  by (simp add: stream_inv_def)

text \<open>
  Draining stops before the start of the next span, and empties the heap when no span is
  left.
\<close>

lemma drain_inv:
  assumes "stream_inv ins n base P pend st"
    and "\<And>i. n \<le> i \<Longrightarrow> i < length ins \<Longrightarrow> sp_start ins i < sp_end ins i
      \<and> (\<exists>start sq. before = Some (start, 1, sq) \<and> start \<le> sp_start ins i)"
  shows "\<exists>P' st'. drain_ends before pend st = Some st' \<and> stream_inv ins n base P' (pending_ends st') st'
    \<and> (before = None \<longrightarrow> pending_ends st' = [])
    \<and> (\<forall>start sq. before = Some (start, 1, sq) \<longrightarrow> (\<forall>t q i. (t, q, i) \<in> set (pending_ends st') \<longrightarrow> start < t))
    \<and> max_end st' = max_end st \<and> pending_samples st' = pending_samples st \<and> sample_t st' = sample_t st"
  using assms
proof (induction pend arbitrary: P st)
  case Nil
  then show ?case by (auto simp: stream_inv_pending)
next
  case (Cons x pend)
  obtain t q slot where x: "x = (t, q, slot)" by (cases x)
  show ?case
  proof (cases "case before of None \<Rightarrow> True | Some b \<Rightarrow> (t, 0, q) < b")
    case True
    have start: "t \<le> sp_start ins i \<and> sp_start ins i < sp_end ins i" if i: "n \<le> i" "i < length ins" for i
    proof -
      obtain start sq where b: "before = Some (start, 1, sq)" "start \<le> sp_start ins i" "sp_start ins i < sp_end ins i"
        using Cons.prems(2) [OF i] by blast
      then have "t \<le> start" using True by (auto simp: less_prod_def)
      then show ?thesis using b by simp
    qed
    obtain st1 where st1: "owner_add t st = Some st1"
      and inv1: "stream_inv ins n base (insert (t, 0, slot) P) pend (st1\<lparr>ended_slots := insert slot (ended_slots st1)\<rparr>)"
      and keep: "max_end st1 = max_end st" "pending_samples st1 = pending_samples st" "sample_t st1 = sample_t st"
      using drain_step_inv [OF Cons.prems(1) [unfolded x] start] by blast
    have "drain_ends before (x # pend) st
        = drain_ends before pend (st1\<lparr>ended_slots := insert slot (ended_slots st1)\<rparr>)"
      using True st1 x by simp
    then show ?thesis using Cons.IH [OF inv1 Cons.prems(2)] keep by simp
  next
    case False
    then obtain b where b: "before = Some b" "\<not> (t, 0, q) < b" by (cases before) auto
    have later: "start < t'" if "before = Some (start, 1, sq)" "(t', q', i) \<in> set (x # pend)" for start sq t' q' i
    proof -
      have "start < t" using b that(1) by (auto simp: less_prod_def)
      moreover have "x \<le> (t', q', i)" using that(2) stream_inv_facts(2) [OF Cons.prems(1)] by auto
      ultimately show ?thesis using x by (auto simp: less_eq_prod_def)
    qed
    let ?st = "st\<lparr>pending_ends := x # pend\<rparr>"
    have d: "drain_ends before (x # pend) st = Some ?st" using b x by simp
    have i: "stream_inv ins n base P (pending_ends ?st) ?st" using Cons.prems(1) by (simp add: stream_inv_pending)
    have pe: "pending_ends ?st = x # pend" by simp
    have l: "\<forall>start sq. before = Some (start, 1, sq) \<longrightarrow> (\<forall>t q i. (t, q, i) \<in> set (pending_ends ?st) \<longrightarrow> start < t)"
      unfolding pe using later by blast
    show ?thesis
      by (rule exI [of _ P], rule exI [of _ ?st]) (intro conjI d i l, use b in simp_all)
  qed
qed

section \<open>Pushing a span\<close>

lemma map_of_filter_keys:
  "P k \<Longrightarrow> map_of (filter (\<lambda>(k, v). P k) d) k = map_of d k"
  by (induction d) auto

lemma dict_ok_filter: "dict_ok d \<Longrightarrow> dict_ok (filter f d)"
  by (induction d) auto

text \<open>Forgetting keys keeps those of the open and pending spans.\<close>

lemma live_keys_keep:
  assumes "i \<in> entry_slot ` set (open_spans st) \<or> (\<exists>t q. (t, q, i) \<in> set (pending_ends st))"
  shows "map_of (live_keys st) i = map_of (slot_keys st) i"
proof -
  have e: "(\<lambda>(a, b, q, i). i) ` set (open_spans st) = entry_slot ` set (open_spans st)"
    by (intro image_cong) auto
  have "i \<in> (\<lambda>(a, b, q, i). i) ` set (open_spans st) \<union> (\<lambda>(t, q, i). i) ` set (pending_ends st)"
    unfolding e using assms by force
  then show ?thesis
    using map_of_filter_keys [of "\<lambda>k. k \<in> (\<lambda>(a, b, q, i). i) ` set (open_spans st) \<union> (\<lambda>(t, q, i). i) ` set (pending_ends st)" i "slot_keys st"]
    by (simp add: live_keys_def Let_def)
qed

lemma live_keys_ok: "dict_ok (slot_keys st) \<Longrightarrow> dict_ok (live_keys st)"
  by (simp add: live_keys_def Let_def dict_ok_filter)

definition push_entries :: "span_event \<Rightarrow> stream_sweep \<Rightarrow> stream_sweep" where
  "push_entries s st =
     (let slot = slot_counter st; start = start_ns s; end = start_ns s + duration_ns s in
      st\<lparr>slot_counter := slot + 1,
         slot_keys := AList.update slot (agg_key_of s False) (slot_keys st),
         open_spans := heappush (- start, end, seq s, slot) (open_spans st),
         pending_ends := heappush (end, seq s, slot) (pending_ends st),
         max_end := (case max_end st of None \<Rightarrow> Some end
                     | Some m \<Rightarrow> if m < end then Some end else Some m)\<rparr>)"

definition push_slot :: "span_event \<Rightarrow> stream_sweep \<Rightarrow> stream_sweep" where
  "push_slot s st = (push_entries s st)\<lparr>slot_keys := live_keys (push_entries s st)\<rparr>"

lemma push_inv:
  assumes inv: "stream_inv ins n base P (pending_ends st) st" and n: "n < length ins"
    and later: "\<And>t q i. (t, q, i) \<in> set (pending_ends st) \<Longrightarrow> sp_start ins n < t"
    and start: "\<And>i. n \<le> i \<Longrightarrow> i < length ins \<Longrightarrow> sp_start ins n \<le> sp_start ins i \<and> sp_start ins i < sp_end ins i"
  shows "\<exists>st'. owner_add (sp_start ins n) st = Some st'
    \<and> stream_inv ins (Suc n) base (insert (sp_start ins n, 1, n) P) (pending_ends (push_slot (ins ! n) st')) (push_slot (ins ! n) st')
    \<and> max_end st' = max_end st \<and> pending_samples st' = pending_samples st \<and> sample_t st' = sample_t st"
proof -
  let ?t = "sp_start ins n"
  note f = stream_inv_facts [OF inv]
  have ge: "?t \<le> fst b" if "b \<in> all_bounds ins" "b \<notin> P" for b
    using remaining_bound [OF inv that _ start] later by fastforce
  have new: "(sp_start ins n, 1, n) \<notin> P" "(sp_end ins n, 0, n) \<notin> P" using f(5) by (auto simp: boundaries_of_def)
  have next_t: "p \<le> ?t" if "last_t st = Some p" for p
    using f(7) [OF that, of "(sp_start ins n, 1, n)"] new n by (auto simp: boundaries_of_def)
  obtain st' where st': "owner_add ?t st = Some st'"
    and h: "heap_inv (sp_start ins) (sp_end ins) (slot_rank ins) entry_slot P (open_spans st') (ended_slots st')"
    and r: "set (open_spans st') \<subseteq> set (open_spans st)" "last_t st' = Some ?t"
      "\<And>k. dict_get (rows (agg st')) k 0 = base k + owned_upto ins k (Some ?t)"
      "slot_keys st' = slot_keys st" "slot_counter st' = slot_counter st" "max_end st' = max_end st"
      "pending_ends st' = pending_ends st" "pending_samples st' = pending_samples st" "sample_t st' = sample_t st"
    using owner_add_inv [OF inv ge next_t] by blast
  let ?st = "push_slot (ins ! n) st'" and ?P = "insert (?t, 1, n) P"
  have e: "?t + duration_ns (ins ! n) = sp_end ins n" "start_ns (ins ! n) = ?t"
    by (simp_all add: sp_end_def sp_start_def end_ns_def)
  have ps: "open_spans ?st = heappush (slot_rank ins n) (open_spans st')"
    "pending_ends ?st = heappush (end_entry ins n) (pending_ends st)" "slot_counter ?st = Suc n"
    "ended_slots ?st = ended_slots st'" "last_t ?st = Some ?t" "agg ?st = agg st'"
    using r f(9) by (simp_all add: push_slot_def push_entries_def Let_def slot_rank_def end_entry_def e)
  have keys: "map_of (slot_keys ?st) i = (if i = n then Some (agg_key_of (ins ! n) False) else map_of (slot_keys st) i)"
    if "i \<in> entry_slot ` set (open_spans ?st) \<or> (\<exists>t q. (t, q, i) \<in> set (pending_ends ?st))" for i
  proof -
    have "map_of (slot_keys ?st) i = map_of (slot_keys (push_entries (ins ! n) st')) i"
      using that live_keys_keep [of i "push_entries (ins ! n) st'"] by (simp add: push_slot_def)
    then show ?thesis using r f(9) by (simp add: push_entries_def Let_def update_conv')
  qed
  have fresh: "end_entry ins n \<notin> set (pending_ends st)" using f(4) by (auto simp: end_entry_def)
  have "stream_inv ins (Suc n) base ?P (pending_ends ?st) ?st"
  proof (rule stream_invI [where p = ?t])
    show "sorted (pending_ends ?st)" "distinct (pending_ends ?st)"
      using f(2,3) fresh ps hq.push_inv by simp_all
    show "set (pending_ends ?st) = end_entry ins ` {i. i < Suc n \<and> (sp_end ins i, 0, i) \<notin> ?P}"
      using f(4) new unfolding ps by (auto simp: less_Suc_eq)
    show "?P \<subseteq> boundaries_of (sp_start ins) (sp_end ins) {..<Suc n}"
      using f(5) by (auto simp: boundaries_of_def)
    show "(sp_start ins i, 1, i) \<in> ?P" if "i < Suc n" for i using that f(6) by (auto simp: less_Suc_eq)
    show "?t \<le> fst b" if "b \<in> all_bounds ins" "b \<notin> ?P" for b using that ge by blast
    show "fst b \<le> ?t" if "b \<in> ?P" for b
    proof (cases "b \<in> P")
      case True
      then obtain p where "last_t st = Some p" using f(15) by (cases "last_t st") auto
      then show ?thesis using f(14) True next_t by fastforce
    qed (use that in auto)
    show "heap_inv (sp_start ins) (sp_end ins) (slot_rank ins) entry_slot ?P (open_spans ?st) (ended_slots ?st)"
      unfolding ps using stream.heap_inv_push [OF h new] .
    show "dict_ok (slot_keys ?st)"
      using r f(9,10) by (auto simp: push_slot_def push_entries_def Let_def intro!: live_keys_ok)
    show "map_of (slot_keys ?st) (entry_slot x) = Some (agg_key_of (ins ! entry_slot x) False)"
      if "x \<in> set (open_spans ?st)" for x
    proof -
      have "x = slot_rank ins n \<or> x \<in> set (open_spans st)" using that r(1) unfolding ps by auto
      then show ?thesis using keys [of "entry_slot x"] that f(11) [of x] by (auto simp: slot_rank_def)
    qed
    show "map_of (slot_keys ?st) i = Some (agg_key_of (ins ! i) False)" if "(t, q, i) \<in> set (pending_ends ?st)" for t q i
    proof -
      have "i = n \<or> (t, q, i) \<in> set (pending_ends st)" using that unfolding ps by (auto simp: end_entry_def)
      moreover have "i \<in> entry_slot ` set (open_spans ?st) \<or> (\<exists>t q. (t, q, i) \<in> set (pending_ends ?st))"
        using that by blast
      ultimately show ?thesis using keys [of i] f(12) [of t q i] by auto
    qed
  qed (use n ps r in auto)
  then show ?thesis using st' r by blast
qed

section \<open>Samples\<close>

text \<open>What a sample contributes, and a list of them to the row of a key.\<close>

definition covered_by :: "span_event list \<Rightarrow> span_event \<Rightarrow> bool" where
  "covered_by ins smp \<longleftrightarrow> (\<exists>i<length ins. sp_start ins i \<le> start_ns smp \<and> start_ns smp < sp_end ins i)"

definition sample_rows :: "span_event list \<Rightarrow> span_event list \<Rightarrow> agg_key \<Rightarrow> int" where
  "sample_rows ins smps k =
     (\<Sum>s\<leftarrow>smps. if agg_key_of s False = k \<and> \<not> covered_by ins s then max 0 (duration_ns s) else 0)"

definition max_end_of :: "span_event list \<Rightarrow> nat \<Rightarrow> int option" where
  "max_end_of ins n = (if n = 0 then None else Some (Max (sp_end ins ` {..<n})))"

lemma max_end_of_Suc:
  "max_end_of ins (Suc n) = (case max_end_of ins n of None \<Rightarrow> Some (sp_end ins n)
     | Some m \<Rightarrow> if m < sp_end ins n then Some (sp_end ins n) else Some m)"
proof (cases "n = 0")
  case False
  then have "sp_end ins ` {..<n} \<noteq> {}" by auto
  then have "Max (sp_end ins ` {..<Suc n}) = max (sp_end ins n) (Max (sp_end ins ` {..<n}))"
    by (simp add: lessThan_Suc)
  then show ?thesis using False by (simp add: max_end_of_def max_def)
qed (simp add: max_end_of_def lessThan_Suc)

text \<open>
  The state after a prefix of the thread's spans, \<open>n\<close> of them instrumented, with the samples
  seen so far, the settled ones first.
\<close>

definition sample_inv :: "span_event list \<Rightarrow> nat \<Rightarrow> stream_sweep \<Rightarrow> bool" where
  "sample_inv ins n st \<longleftrightarrow>
     max_end st = max_end_of ins n
   \<and> (pending_samples st \<noteq> [] \<longrightarrow> (\<exists>t. sample_t st = Some t
        \<and> (\<forall>s\<in>set (pending_samples st). start_ns s = t) \<and> (\<forall>i<n. sp_start ins i \<le> t)))"

lemma sample_inv_le:
  "sample_inv ins n st \<Longrightarrow> pending_samples st \<noteq> [] \<Longrightarrow> sample_t st = Some t \<Longrightarrow> i < n \<Longrightarrow> sp_start ins i \<le> t"
  by (auto simp: sample_inv_def)

lemma sample_inv_eq:
  "sample_inv ins n st \<Longrightarrow> s \<in> set (pending_samples st) \<Longrightarrow> sample_t st = Some t \<Longrightarrow> start_ns s = t"
  by (auto simp: sample_inv_def)

lemma sample_inv_max: "sample_inv ins n st \<Longrightarrow> max_end st = max_end_of ins n"
  by (simp add: sample_inv_def)

lemma sample_invI:
  assumes "max_end st = max_end_of ins n" "pending_samples st \<noteq> [] \<Longrightarrow> sample_t st = Some t"
    and "\<And>s. s \<in> set (pending_samples st) \<Longrightarrow> start_ns s = t"
    and "\<And>i. pending_samples st \<noteq> [] \<Longrightarrow> i < n \<Longrightarrow> sp_start ins i \<le> t"
  shows "sample_inv ins n st"
  unfolding sample_inv_def using assms by blast

lemma settle_rows:
  assumes sam: "sample_inv ins n st" and n: "n \<le> length ins"
    and later: "\<And>t i. pending_samples st \<noteq> [] \<Longrightarrow> sample_t st = Some t \<Longrightarrow> n \<le> i \<Longrightarrow> i < length ins \<Longrightarrow> t < sp_start ins i"
  shows "dict_get (rows (agg (settle_samples st))) k 0 = dict_get (rows (agg st)) k 0 + sample_rows ins (pending_samples st) k"
proof -
  have cov: "(case max_end st of None \<Rightarrow> False | Some m \<Rightarrow> start_ns s < m) \<longleftrightarrow> covered_by ins s"
    if s: "s \<in> set (pending_samples st)" for s
  proof -
    have ne: "pending_samples st \<noteq> []" using s by auto
    obtain t where t: "sample_t st = Some t" "start_ns s = t" "\<And>i. i < n \<Longrightarrow> sp_start ins i \<le> t"
      using sam ne s unfolding sample_inv_def by blast
    have "covered_by ins s \<longleftrightarrow> (\<exists>i<n. t < sp_end ins i)"
      unfolding covered_by_def t(2)
    proof
      assume "\<exists>i<length ins. sp_start ins i \<le> t \<and> t < sp_end ins i"
      then obtain i where i: "i < length ins" "sp_start ins i \<le> t" "t < sp_end ins i" by blast
      then have "i < n" using later [OF ne t(1), of i] by fastforce
      then show "\<exists>i<n. t < sp_end ins i" using i by blast
    next
      assume "\<exists>i<n. t < sp_end ins i"
      then show "\<exists>i<length ins. sp_start ins i \<le> t \<and> t < sp_end ins i"
        using t(3) n by (meson less_le_trans)
    qed
    moreover have "max_end st = max_end_of ins n" using sam by (simp add: sample_inv_def)
    moreover have "t < Max (sp_end ins ` {..<n}) \<longleftrightarrow> (\<exists>i<n. t < sp_end ins i)" if "n \<noteq> 0"
      using that by (subst Max_gr_iff) auto
    ultimately show ?thesis using t(2) by (auto simp: max_end_of_def)
  qed
  have "dict_get (rows (fold (\<lambda>smp a. if (case max_end st of None \<Rightarrow> False | Some m \<Rightarrow> start_ns smp < m) then a
        else agg_add (agg_key_of smp False) (duration_ns smp) a) ss a)) k 0 = dict_get (rows a) k 0 + sample_rows ins ss k"
    if "set ss \<subseteq> set (pending_samples st)" for ss a
    using that by (induction ss arbitrary: a) (auto simp: sample_rows_def cov)
  then show ?thesis by (simp add: settle_samples_def)
qed

lemma settle_inv:
  assumes "stream_inv ins n base P (pending_ends st) st" "sample_inv ins n st"
    and "\<And>t i. pending_samples st \<noteq> [] \<Longrightarrow> sample_t st = Some t \<Longrightarrow> n \<le> i \<Longrightarrow> i < length ins \<Longrightarrow> t < sp_start ins i"
  shows "stream_inv ins n (\<lambda>k. base k + sample_rows ins (pending_samples st) k) P (pending_ends (settle_samples st)) (settle_samples st)"
    and "pending_samples (settle_samples st) = []" "max_end (settle_samples st) = max_end st"
proof -
  have "n \<le> length ins" using stream_inv_facts(1) [OF assms(1)] .
  note rows = settle_rows [OF assms(2) this assms(3)]
  have same: "pending_ends (settle_samples st) = pending_ends st" "open_spans (settle_samples st) = open_spans st"
    "ended_slots (settle_samples st) = ended_slots st" "slot_keys (settle_samples st) = slot_keys st"
    "last_t (settle_samples st) = last_t st" "slot_counter (settle_samples st) = slot_counter st"
    by (simp_all add: settle_samples_def)
  show "stream_inv ins n (\<lambda>k. base k + sample_rows ins (pending_samples st) k) P (pending_ends (settle_samples st)) (settle_samples st)"
    using assms(1) rows unfolding stream_inv_def same by (simp del: split_paired_All)
qed (simp_all add: settle_samples_def)

section \<open>The run\<close>

abbreviation instrumented :: "span_event list \<Rightarrow> span_event list" where
  "instrumented spans \<equiv> filter (\<lambda>s. \<not> is_sampled s) spans"

definition run_inv :: "span_event list \<Rightarrow> (agg_key \<Rightarrow> int) \<Rightarrow> span_event list \<Rightarrow> stream_sweep \<Rightarrow> bool" where
  "run_inv ins base seen st \<longleftrightarrow> (\<exists>settled P.
     filter is_sampled seen = settled @ pending_samples st
   \<and> stream_inv ins (length (instrumented seen)) (\<lambda>k. base k + sample_rows ins settled k) P (pending_ends st) st
   \<and> sample_inv ins (length (instrumented seen)) st
   \<and> sample_t st = (if filter is_sampled seen = [] then None else Some (start_ns (last (filter is_sampled seen)))))"

lemma sample_rows_append: "sample_rows ins (xs @ ys) k = sample_rows ins xs k + sample_rows ins ys k"
  by (simp add: sample_rows_def)

lemma instrumented_later:
  assumes "length (instrumented seen) \<le> i" "i < length (instrumented (seen @ rest))"
  shows "instrumented (seen @ rest) ! i \<in> set (instrumented rest)"
proof -
  have "instrumented (seen @ rest) ! i = instrumented rest ! (i - length (instrumented seen))"
    using assms by (simp add: nth_append)
  also have "\<dots> \<in> set (instrumented rest)" using assms by (intro nth_mem) simp
  finally show ?thesis .
qed

lemma instrumented_earlier:
  assumes "i < length (instrumented seen)"
  shows "instrumented (seen @ rest) ! i \<in> set seen"
proof -
  have "instrumented (seen @ rest) ! i = instrumented seen ! i" using assms by (simp add: nth_append)
  then show ?thesis using assms nth_mem [of i "instrumented seen"] by auto
qed

lemma sample_t_le:
  assumes "run_inv ins base seen st" "sorted (map start_ns (seen @ s # rest))" "sample_t st = Some t"
  shows "t \<le> start_ns s"
proof -
  have ne: "filter is_sampled seen \<noteq> []" and t: "t = start_ns (last (filter is_sampled seen))"
    using assms(1,3) unfolding run_inv_def by (auto split: if_splits)
  have "last (filter is_sampled seen) \<in> set seen" using last_in_set [OF ne] by simp
  then show ?thesis using assms(2) t by (auto simp: sorted_append)
qed

text \<open>Settling before a later span, or at the end, keeps the invariant.\<close>

lemma settle_run_inv:
  assumes "run_inv (instrumented (seen @ rest)) base seen st"
    and "\<And>t s. sample_t st = Some t \<Longrightarrow> s \<in> set (instrumented rest) \<Longrightarrow> t < start_ns s"
  shows "run_inv (instrumented (seen @ rest)) base seen (settle_samples st)"
    and "pending_samples (settle_samples st) = []" "max_end (settle_samples st) = max_end st"
proof -
  let ?ins = "instrumented (seen @ rest)" and ?n = "length (instrumented seen)"
  obtain settled P where r: "filter is_sampled seen = settled @ pending_samples st"
    "stream_inv ?ins ?n (\<lambda>k. base k + sample_rows ?ins settled k) P (pending_ends st) st"
    "sample_inv ?ins ?n st"
    "sample_t st = (if filter is_sampled seen = [] then None else Some (start_ns (last (filter is_sampled seen))))"
    using assms(1) unfolding run_inv_def by blast
  have later: "t < sp_start ?ins i" if "sample_t st = Some t" "?n \<le> i" "i < length ?ins" for t i
    using assms(2) [OF that(1) instrumented_later [OF that(2,3)]] by (simp add: sp_start_def)
  note s = settle_inv [OF r(2,3) later]
  have "sample_rows ?ins settled k + sample_rows ?ins (pending_samples st) k
      = sample_rows ?ins (filter is_sampled seen) k" for k
    unfolding r(1) sample_rows_append ..
  then have "stream_inv ?ins ?n (\<lambda>k. base k + sample_rows ?ins (filter is_sampled seen) k) P
      (pending_ends (settle_samples st)) (settle_samples st)"
    using s(1) by (simp add: add.assoc)
  moreover have "sample_inv ?ins ?n (settle_samples st)" using r(3) by (simp add: sample_inv_def settle_samples_def)
  moreover have "sample_t (settle_samples st) = sample_t st" by (simp add: settle_samples_def)
  ultimately show "run_inv ?ins base seen (settle_samples st)"
    unfolding run_inv_def using r(4) s(2) by (intro exI [of _ "filter is_sampled seen"] exI [of _ P]) simp
  show "pending_samples (settle_samples st) = []" "max_end (settle_samples st) = max_end st"
    by (simp_all add: settle_samples_def)
qed

lemma sample_step:
  assumes inv: "run_inv (instrumented (seen @ s # rest)) base seen st" and s: "is_sampled s"
    and srt: "sorted (map start_ns (seen @ s # rest))"
  shows "\<exists>st'. stream_step s st = Some st' \<and> run_inv (instrumented (seen @ s # rest)) base (seen @ [s]) st'"
proof -
  let ?ins = "instrumented (seen @ s # rest)"
  define st0 where "st0 = (if sample_t st \<noteq> None \<and> sample_t st \<noteq> Some (start_ns s) then settle_samples st else st)"
  have inv': "run_inv ?ins base seen st0 \<and> (pending_samples st0 \<noteq> [] \<longrightarrow> sample_t st0 = Some (start_ns s))"
  proof (cases "sample_t st \<noteq> None \<and> sample_t st \<noteq> Some (start_ns s)")
    case True
    have "t < start_ns x" if "sample_t st = Some t" "x \<in> set (instrumented (s # rest))" for t x
    proof -
      have "t < start_ns s" using sample_t_le [OF inv srt that(1)] True that(1) by auto
      moreover have "start_ns s \<le> start_ns x" using that(2) s srt by (auto simp: sorted_append)
      ultimately show ?thesis by simp
    qed
    then show ?thesis using settle_run_inv [OF inv] True by (simp add: st0_def)
  next
    case False
    moreover have "sample_t st = None \<Longrightarrow> pending_samples st = []" using inv
      unfolding run_inv_def by (auto split: if_splits)
    ultimately show ?thesis using inv by (auto simp: st0_def)
  qed
  define st9 where "st9 = st0\<lparr>sample_t := Some (start_ns s), pending_samples := pending_samples st0 @ [s]\<rparr>"
  have step: "stream_step s st = Some st9" using s by (simp add: stream_step_def is_sampled_def Let_def st9_def st0_def)
  obtain settled P where r: "filter is_sampled seen = settled @ pending_samples st0"
    "stream_inv ?ins (length (instrumented seen)) (\<lambda>k. base k + sample_rows ?ins settled k) P (pending_ends st0) st0"
    "sample_inv ?ins (length (instrumented seen)) st0"
    using inv' unfolding run_inv_def by blast
  have le: "sp_start ?ins i \<le> start_ns s" if "i < length (instrumented seen)" for i
    using instrumented_earlier [OF that, of "s # rest"] srt by (auto simp: sp_start_def sorted_append)
  have eq: "start_ns x = start_ns s" if "x \<in> set (pending_samples st0)" for x
  proof -
    have "pending_samples st0 \<noteq> []" using that by force
    then have "sample_t st0 = Some (start_ns s)" using inv' by blast
    then show ?thesis using sample_inv_eq [OF r(3) that] by blast
  qed
  have n: "length (instrumented (seen @ [s])) = length (instrumented seen)" using s by simp
  have "sample_inv ?ins (length (instrumented (seen @ [s]))) st9"
    unfolding n
  proof (rule sample_invI [where t = "start_ns s"])
    show "max_end st9 = max_end_of ?ins (length (instrumented seen))"
      using sample_inv_max [OF r(3)] by (simp add: st9_def)
    show "start_ns x = start_ns s" if "x \<in> set (pending_samples st9)" for x using that eq by (auto simp: st9_def)
    show "sp_start ?ins i \<le> start_ns s" if "i < length (instrumented seen)" for i by (rule le [OF that])
  qed (simp add: st9_def)
  moreover have "stream_inv ?ins (length (instrumented (seen @ [s]))) (\<lambda>k. base k + sample_rows ?ins settled k) P (pending_ends st9) st9"
    using r(2) unfolding n st9_def stream_inv_samples by simp
  ultimately have "run_inv ?ins base (seen @ [s]) st9"
    unfolding run_inv_def using r(1) s by (intro exI [of _ settled] exI [of _ P]) (simp add: st9_def)
  then show ?thesis using step by blast
qed

lemma instrumented_step:
  assumes inv: "run_inv (instrumented (seen @ s # rest)) base seen st" and s: "\<not> is_sampled s"
    and srt: "sorted (map start_ns (seen @ s # rest))"
    and pos: "\<And>x. x \<in> set (s # rest) \<Longrightarrow> 0 < duration_ns x"
  shows "\<exists>st'. stream_step s st = Some st' \<and> run_inv (instrumented (seen @ s # rest)) base (seen @ [s]) st'"
proof -
  let ?ins = "instrumented (seen @ s # rest)" and ?n = "length (instrumented seen)"
  define st0 where "st0 = (if pending_samples st \<noteq> [] \<and> (\<exists>t\<in>set_option (sample_t st). t < start_ns s) then settle_samples st else st)"
  have later: "start_ns s \<le> start_ns x" if "x \<in> set (s # rest)" for x
    using that srt by (auto simp: sorted_append)
  have inv': "run_inv ?ins base seen st0 \<and> (pending_samples st0 \<noteq> [] \<longrightarrow> (\<exists>t. sample_t st0 = Some t \<and> start_ns s \<le> t))"
  proof (cases "pending_samples st \<noteq> [] \<and> (\<exists>t\<in>set_option (sample_t st). t < start_ns s)")
    case True
    have "t < start_ns x" if "sample_t st = Some t" "x \<in> set (instrumented (s # rest))" for t x
      using True that later [of x] by (auto split: if_splits)
    then show ?thesis using settle_run_inv [OF inv] True by (simp add: st0_def)
  next
    case False
    have "\<exists>t. sample_t st = Some t" if "pending_samples st \<noteq> []" using inv that
      unfolding run_inv_def by (auto split: if_splits)
    then show ?thesis using inv False by (auto simp: not_less st0_def)
  qed
  obtain settled P where r: "filter is_sampled seen = settled @ pending_samples st0"
    "stream_inv ?ins ?n (\<lambda>k. base k + sample_rows ?ins settled k) P (pending_ends st0) st0"
    "sample_inv ?ins ?n st0"
    "sample_t st0 = (if filter is_sampled seen = [] then None else Some (start_ns (last (filter is_sampled seen))))"
    using inv' unfolding run_inv_def by blast
  have n: "?n < length ?ins" and ins_n: "?ins ! ?n = s" using s by (simp_all add: nth_append)
  have t: "sp_start ?ins ?n = start_ns s" using ins_n by (simp add: sp_start_def)
  have start: "sp_start ?ins ?n \<le> sp_start ?ins i \<and> sp_start ?ins i < sp_end ?ins i"
    if "?n \<le> i" "i < length ?ins" for i
  proof -
    have "?ins ! i \<in> set (s # rest)" using instrumented_later [OF that] by auto
    from later [OF this] pos [OF this] show ?thesis unfolding t by (simp add: sp_start_def sp_end_def end_ns_def)
  qed
  obtain P1 st1 where d: "drain_ends (Some (start_ns s, 1, seq s)) (pending_ends st0) st0 = Some st1"
    and i1: "stream_inv ?ins ?n (\<lambda>k. base k + sample_rows ?ins settled k) P1 (pending_ends st1) st1"
    and l1: "\<And>t q i. (t, q, i) \<in> set (pending_ends st1) \<Longrightarrow> start_ns s < t"
    and k1: "max_end st1 = max_end st0" "pending_samples st1 = pending_samples st0" "sample_t st1 = sample_t st0"
    using drain_inv [OF r(2), of "Some (start_ns s, 1, seq s)"] start unfolding t by blast
  obtain st2 where o: "owner_add (start_ns s) st1 = Some st2"
    and i2: "stream_inv ?ins (Suc ?n) (\<lambda>k. base k + sample_rows ?ins settled k) (insert (sp_start ?ins ?n, 1, ?n) P1)
        (pending_ends (push_slot s st2)) (push_slot s st2)"
    and k2: "max_end st2 = max_end st1" "pending_samples st2 = pending_samples st1" "sample_t st2 = sample_t st1"
    using push_inv [OF i1 n _ start] l1 unfolding t ins_n by blast
  have step: "stream_step s st = Some (push_slot s st2)"
    using s d o by (simp add: stream_step_def is_sampled_def push_slot_def push_entries_def Let_def flip: st0_def)
  have keep: "pending_samples (push_slot s st2) = pending_samples st0" "sample_t (push_slot s st2) = sample_t st0"
    using k1 k2 by (simp_all add: push_slot_def push_entries_def Let_def)
  have e: "sp_end ?ins ?n = start_ns s + duration_ns s" using ins_n by (simp only: sp_end_def end_ns_def)
  have me: "max_end st2 = max_end_of ?ins ?n" using r(3) k1(1) k2(1) unfolding sample_inv_def by argo
  have mx: "max_end (push_slot s st2) = max_end_of ?ins (Suc ?n)"
    unfolding max_end_of_Suc e me [symmetric] by (simp add: push_slot_def push_entries_def Let_def)
  have le: "sp_start ?ins i \<le> t'" if "sample_t st0 = Some t'" "pending_samples st0 \<noteq> []" "i < Suc ?n" for t' i
  proof (cases "i = ?n")
    case True
    then show ?thesis using inv' that t by force
  next
    case False
    then show ?thesis using sample_inv_le [OF r(3) that(2,1)] that(3) by simp
  qed
  have last_t: "sample_t st0 = Some (start_ns (last (filter is_sampled seen)))" if "pending_samples st0 \<noteq> []"
    using r(1,4) that by auto
  have "sample_inv ?ins (Suc ?n) (push_slot s st2)"
  proof (rule sample_invI [where t = "start_ns (last (filter is_sampled seen))"])
    show "max_end (push_slot s st2) = max_end_of ?ins (Suc ?n)" by (rule mx)
    show "sample_t (push_slot s st2) = Some (start_ns (last (filter is_sampled seen)))"
      if "pending_samples (push_slot s st2) \<noteq> []" using last_t that unfolding keep by blast
    show "start_ns x = start_ns (last (filter is_sampled seen))" if "x \<in> set (pending_samples (push_slot s st2))" for x
    proof -
      have x: "x \<in> set (pending_samples st0)" using that unfolding keep .
      then have "pending_samples st0 \<noteq> []" by force
      from sample_inv_eq [OF r(3) x last_t [OF this]] show ?thesis .
    qed
    show "sp_start ?ins i \<le> start_ns (last (filter is_sampled seen))"
      if "pending_samples (push_slot s st2) \<noteq> []" "i < Suc ?n" for i
    proof -
      have "pending_samples st0 \<noteq> []" using that(1) unfolding keep .
      from le [OF last_t [OF this] this that(2)] show ?thesis .
    qed
  qed
  then have "run_inv ?ins base (seen @ [s]) (push_slot s st2)"
    unfolding run_inv_def using r(1,4) i2 s keep
    by (intro exI [of _ settled] exI [of _ "insert (sp_start ?ins ?n, 1, ?n) P1"]) simp
  then show ?thesis using step by blast
qed

lemma stream_run_inv:
  assumes "run_inv (instrumented (seen @ rest)) base seen st"
    and "sorted (map start_ns (seen @ rest))" "\<And>x. x \<in> set rest \<Longrightarrow> 0 < duration_ns x"
  shows "\<exists>st'. stream_run rest st = Some st' \<and> run_inv (instrumented (seen @ rest)) base (seen @ rest) st'"
  using assms
proof (induction rest arbitrary: seen st)
  case (Cons s rest)
  obtain st1 where s: "stream_step s st = Some st1"
    and i: "run_inv (instrumented (seen @ s # rest)) base (seen @ [s]) st1"
    using sample_step [OF Cons.prems(1) _ Cons.prems(2)] instrumented_step [OF Cons.prems(1) _ Cons.prems(2,3)]
    by (cases "is_sampled s") blast+
  have "run_inv (instrumented ((seen @ [s]) @ rest)) base (seen @ [s]) st1" using i by simp
  then show ?case using Cons.IH [of "seen @ [s]" st1] Cons.prems(2,3) s by simp
qed simp

lemma stream_sweep_rows:
  assumes "sorted (map start_ns spans)" "\<And>x. x \<in> set spans \<Longrightarrow> 0 < duration_ns x"
  shows "\<exists>a'. exclusive_thread_sweep spans a = Some a'
    \<and> (\<forall>k. dict_get (rows a') k 0 = dict_get (rows a) k 0
        + sample_rows (instrumented spans) (filter is_sampled spans) k
        + (\<Sum>i<length (instrumented spans). if agg_key_of (instrumented spans ! i) False = k
             then int (card (slot_cells (instrumented spans) i)) else 0))"
proof -
  let ?ins = "instrumented spans"
  let ?init = "\<lparr>pending_ends = [], open_spans = [], ended_slots = {}, slot_keys = [],
         last_t = None, max_end = None, pending_samples = [], sample_t = None, slot_counter = 0, agg = a\<rparr>"
  have "stream_inv ?ins 0 (\<lambda>k. dict_get (rows a) k 0 + sample_rows ?ins [] k) {} (pending_ends ?init) ?init"
    by (simp add: stream_inv_def stream.heap_inv_empty owned_upto_def sample_rows_def boundaries_of_def)
  then have "run_inv (instrumented ([] @ spans)) (\<lambda>k. dict_get (rows a) k 0) [] ?init"
    unfolding run_inv_def by (intro exI [of _ "[]"] exI [of _ "{}"]) (simp add: sample_inv_def max_end_of_def)
  from stream_run_inv [OF this] assms obtain st where st: "stream_run spans ?init = Some st"
    and inv: "run_inv ?ins (\<lambda>k. dict_get (rows a) k 0) spans st" by auto
  obtain settled P where r: "filter is_sampled spans = settled @ pending_samples st"
    "stream_inv ?ins (length ?ins) (\<lambda>k. dict_get (rows a) k 0 + sample_rows ?ins settled k) P (pending_ends st) st"
    "sample_inv ?ins (length ?ins) st"
    using inv unfolding run_inv_def by blast
  obtain P' st' where d: "drain_ends None (pending_ends st) st = Some st'"
    and i: "stream_inv ?ins (length ?ins) (\<lambda>k. dict_get (rows a) k 0 + sample_rows ?ins settled k) P' (pending_ends st') st'"
    and e: "pending_ends st' = []"
    and keep: "max_end st' = max_end st" "pending_samples st' = pending_samples st" "sample_t st' = sample_t st"
    using drain_inv [OF r(2), of None] by auto
  note f = stream_inv_facts [OF i]
  have "sample_inv ?ins (length ?ins) st'" using r(3) keep by (simp add: sample_inv_def)
  then have rows: "dict_get (rows (agg (settle_samples st'))) k 0
      = dict_get (rows (agg st')) k 0 + sample_rows ?ins (pending_samples st) k" for k
    using settle_rows [of ?ins "length ?ins" st' k] keep by simp
  have own: "owned_upto ?ins k (last_t st') = (\<Sum>i<length ?ins. if agg_key_of (?ins ! i) False = k then int (card (slot_cells ?ins i)) else 0)" for k
  proof (cases "last_t st'")
    case None
    then have "?ins = []" using f(15) f(6) by (metis empty_iff length_greater_0_conv)
    then show ?thesis using None by (simp add: owned_upto_def)
  next
    case (Some p)
    have "sp_end ?ins i \<le> p" if "i < length ?ins" for i
      using f(4) that e f(14) [OF Some, of "(sp_end ?ins i, 0, i)"] by auto
    then have "slot_cells ?ins i \<inter> {..<p} = slot_cells ?ins i" if "i < length ?ins" for i
      using that owned_cells_subset [of "sp_start ?ins" "sp_end ?ins" "slot_rank ?ins" "{..<length ?ins}" i]
      unfolding slot_cells_def by fastforce
    then show ?thesis unfolding owned_upto_def Some by (auto intro: sum.cong)
  qed
  have "exclusive_thread_sweep spans a = Some (agg (settle_samples st'))"
    using st d by (simp add: exclusive_thread_sweep_def)
  moreover have "dict_get (rows (agg (settle_samples st'))) k 0 = dict_get (rows a) k 0
        + sample_rows ?ins (filter is_sampled spans) k
        + (\<Sum>i<length ?ins. if agg_key_of (?ins ! i) False = k then int (card (slot_cells ?ins i)) else 0)" for k
    unfolding rows r(1) sample_rows_append using f(13) [of k] own [of k] by simp
  ultimately show ?thesis by blast
qed

section \<open>Agreement with ExclusiveTime\<close>

lemma owned_cells_reindex:
  assumes "\<And>j. j \<in> J \<Longrightarrow> s' (f j) = s j \<and> e' (f j) = e j"
    and "\<And>j k. j \<in> J \<Longrightarrow> k \<in> J \<Longrightarrow> rk' (f j) \<le> rk' (f k) \<longleftrightarrow> rk j \<le> rk k" and "j \<in> J"
  shows "owned_cells s' e' rk' (f ` J) (f j) = owned_cells s e rk J j"
proof -
  have live: "live s' e' (f ` J) c = f ` live s e J c" for c
    using assms(1) by (auto simp: live_def)
  have sub: "live s e J c \<subseteq> J" for c by (auto simp: live_def)
  have "owns s' e' rk' (f ` J) (f j) c \<longleftrightarrow> owns s e rk J j c" for c
  proof -
    have "f j \<in> live s' e' (f ` J) c \<longleftrightarrow> j \<in> live s e J c" using assms(1,3) by (auto simp: live_def)
    moreover have "(\<forall>k\<in>f ` live s e J c. rk' (f j) \<le> rk' k) \<longleftrightarrow> (\<forall>k\<in>live s e J c. rk j \<le> rk k)"
      using assms(2) [OF assms(3)] sub [of c] by auto
    ultimately show ?thesis unfolding owns_def live by simp
  qed
  then show ?thesis by (simp add: owned_cells_def)
qed

lemma sum_list_filter_nth:
  "(\<Sum>x\<leftarrow>filter P xs. h x) = (\<Sum>i | i < length xs \<and> P (xs ! i). h (xs ! i) :: int)"
proof (induction xs rule: rev_induct)
  case (snoc x xs)
  have "{i. i < length (xs @ [x]) \<and> P ((xs @ [x]) ! i)}
      = {i. i < length xs \<and> P (xs ! i)} \<union> (if P x then {length xs} else {})"
    by (auto simp: nth_append less_Suc_eq)
  moreover have "(\<Sum>i | i < length xs \<and> P (xs ! i). h ((xs @ [x]) ! i)) = (\<Sum>i | i < length xs \<and> P (xs ! i). h (xs ! i))"
    by (intro sum.cong) (auto simp: nth_append)
  ultimately show ?case using snoc by (subst sum.union_disjoint [symmetric] | simp)+
qed simp

lemma sum_over_distinct: "distinct xs \<Longrightarrow> (\<Sum>i\<in>set xs. F i) = (\<Sum>j<length xs. F (xs ! j) :: int)"
  by (rule sum.reindex_bij_betw [OF bij_betw_nth, symmetric]) simp_all

lemma batch_slot_cells:
  assumes srt: "sorted_wrt (\<lambda>a b. (start_ns a, seq a) < (start_ns b, seq b)) spans"
    and host: "\<And>s. s \<in> set spans \<Longrightarrow> is_host_work s \<and> thread_key s = key"
  defines "idxs \<equiv> filter (\<lambda>i. \<not> is_sampled (spans ! i)) [0..<length spans]"
  shows "set (thread_idxs spans key) = set idxs" and "instrumented spans = map ((!) spans) idxs"
    and "j < length idxs \<Longrightarrow> thread_owned spans (set idxs) (idxs ! j) = slot_cells (instrumented spans) j"
proof -
  show set_eq: "set (thread_idxs spans key) = set idxs"
    using host by (auto simp: thread_idxs_def idxs_def)
  show ins: "instrumented spans = map ((!) spans) idxs"
    unfolding idxs_def by (subst map_nth [of spans, symmetric], subst filter_map) (simp add: comp_def)
  assume j: "j < length idxs"
  let ?ins = "instrumented spans"
  have len: "length ?ins = length idxs" using ins by simp
  have nth: "?ins ! k = spans ! (idxs ! k)" "idxs ! k < length spans" if "k < length idxs" for k
  proof -
    show "?ins ! k = spans ! (idxs ! k)" unfolding ins using that by simp
    show "idxs ! k < length spans" using nth_mem [OF that] by (simp add: idxs_def)
  qed
  have mono: "idxs ! k < idxs ! l" if "k < l" "l < length idxs" for k l
    using that sorted_wrt_nth_less [of "(<)" idxs k l] by (simp add: idxs_def sorted_wrt_filter)
  have before: "(start_ns (?ins ! k), seq (?ins ! k)) < (start_ns (?ins ! l), seq (?ins ! l))"
    if "k < l" "l < length idxs" for k l
    using that mono [OF that] nth [of k] nth [of l] sorted_wrt_nth_less [OF srt, of "idxs ! k" "idxs ! l"] by simp
  have ends: "sp_start spans (idxs ! k) = sp_start ?ins k \<and> sp_end spans (idxs ! k) = sp_end ?ins k"
    if "k < length idxs" for k
    using nth [OF that] by (simp add: sp_start_def sp_end_def)
  have rank: "rank_of (sp_start spans) (sp_end spans) (idxs ! k) \<le> rank_of (sp_start spans) (sp_end spans) (idxs ! l)
      \<longleftrightarrow> slot_rank ?ins k \<le> slot_rank ?ins l" if kl: "k < length idxs" "l < length idxs" for k l
  proof (cases "k = l")
    case False
    consider "k < l" | "l < k" using False by linarith
    then show ?thesis
    proof cases
      case 1
      have "sp_start ?ins k < sp_start ?ins l \<or> sp_start ?ins k = sp_start ?ins l \<and> seq (?ins ! k) < seq (?ins ! l)"
        using before [OF 1 kl(2)] by (auto simp: less_prod_def sp_start_def)
      then show ?thesis using mono [OF 1 kl(2)] ends [OF kl(1)] ends [OF kl(2)]
        unfolding rank_of_def slot_rank_def less_eq_prod_def less_prod_def by auto
    next
      case 2
      have "sp_start ?ins l < sp_start ?ins k \<or> sp_start ?ins l = sp_start ?ins k \<and> seq (?ins ! l) < seq (?ins ! k)"
        using before [OF 2 kl(1)] by (auto simp: less_prod_def sp_start_def)
      then show ?thesis using mono [OF 2 kl(1)] ends [OF kl(1)] ends [OF kl(2)]
        unfolding rank_of_def slot_rank_def less_eq_prod_def less_prod_def by auto
    qed
  qed simp
  have img: "set idxs = (!) idxs ` {..<length idxs}" by (auto simp: set_conv_nth)
  show "thread_owned spans (set idxs) (idxs ! j) = slot_cells ?ins j"
    unfolding slot_cells_def len img using ends rank j by (intro owned_cells_reindex) auto
qed

lemma stream_sweep_batch:
  assumes "sorted_wrt (\<lambda>a b. (start_ns a, seq a) < (start_ns b, seq b)) spans"
    and "\<forall>s\<in>set spans. is_host_work s \<and> thread_key s = key"
  shows "\<exists>a'. exclusive_thread_sweep spans a = Some a'
    \<and> (\<forall>k. dict_get (rows a') k 0 = dict_get (rows a) k 0
        + (\<Sum>i<length spans. if agg_key_of (spans ! i) False = k then dict_get (exclusive_owned spans) i 0 else 0))"
proof -
  let ?ins = "instrumented spans" and ?own = "\<lambda>i. dict_get (exclusive_owned spans) i 0"
  let ?idxs = "filter (\<lambda>i. \<not> is_sampled (spans ! i)) [0..<length spans]"
  have host: "is_host_work s" "thread_key s = key" if "s \<in> set spans" for s using assms(2) that by blast+
  note b = batch_slot_cells [OF assms(1), of key] host
  have ins: "?ins = map ((!) spans) ?idxs" and idxs: "set (thread_idxs spans key) = set ?idxs" using b(1,2) host by auto
  have cells: "thread_owned spans (set ?idxs) (?idxs ! j) = slot_cells ?ins j" if "j < length ?idxs" for j
    using b(3) host that by blast
  have key: "is_host_work (spans ! i)" "thread_key (spans ! i) = key" if "i < length spans" for i
    using that host nth_mem by blast+
  have own: "?own i = (if is_sampled (spans ! i) then (if covered_by ?ins (spans ! i) then 0 else duration_ns (spans ! i))
      else int (card (thread_owned spans (set ?idxs) i)))" if "i < length spans" for i
  proof -
    have "start_ns (spans ! i) \<in> thread_cells spans key \<longleftrightarrow> (\<exists>x\<in>set ?ins. start_ns x \<le> start_ns (spans ! i) \<and> start_ns (spans ! i) < end_ns x)"
      unfolding thread_cells_def idxs ins by auto
    also have "\<dots> \<longleftrightarrow> covered_by ?ins (spans ! i)"
      unfolding covered_by_def sp_start_def sp_end_def by (metis in_set_conv_nth)
    finally show ?thesis unfolding exclusive_owned_get using key [OF that] that idxs by simp
  qed
  have "(\<Sum>i<length spans. if agg_key_of (spans ! i) False = k then ?own i else 0)
      = sample_rows ?ins (filter is_sampled spans) k
        + (\<Sum>j<length ?ins. if agg_key_of (?ins ! j) False = k then int (card (slot_cells ?ins j)) else 0)" for k
  proof -
    let ?F = "\<lambda>i. if agg_key_of (spans ! i) False = k then ?own i else 0"
    have "{..<length spans} = {i. i < length spans \<and> is_sampled (spans ! i)} \<union> set ?idxs" by auto
    then have "(\<Sum>i<length spans. ?F i) = (\<Sum>i | i < length spans \<and> is_sampled (spans ! i). ?F i) + (\<Sum>i\<in>set ?idxs. ?F i)"
      by (subst sum.union_disjoint [symmetric]) (auto intro: sum.cong)
    moreover have "(\<Sum>i | i < length spans \<and> is_sampled (spans ! i). ?F i) = sample_rows ?ins (filter is_sampled spans) k"
      unfolding sample_rows_def sum_list_filter_nth
    proof (intro sum.cong refl)
      fix i assume "i \<in> {i. i < length spans \<and> is_sampled (spans ! i)}"
      then have i: "i < length spans" "is_sampled (spans ! i)" by auto
      have "0 < duration_ns (spans ! i)" using key [OF i(1)] by (simp add: is_host_work_def)
      then show "?F i = (if agg_key_of (spans ! i) False = k \<and> \<not> covered_by ?ins (spans ! i) then max 0 (duration_ns (spans ! i)) else 0)"
        using own [OF i(1)] i(2) by simp
    qed
    moreover have "(\<Sum>i\<in>set ?idxs. ?F i) = (\<Sum>j<length ?idxs. ?F (?idxs ! j))"
      by (rule sum_over_distinct) simp
    moreover have "(\<Sum>j<length ?idxs. ?F (?idxs ! j))
        = (\<Sum>j<length ?ins. if agg_key_of (?ins ! j) False = k then int (card (slot_cells ?ins j)) else 0)"
    proof (rule sum.cong)
      show "{..<length ?idxs} = {..<length ?ins}" using ins by simp
      fix j assume "j \<in> {..<length ?ins}"
      then have j: "j < length ?idxs" using ins by simp
      have "?idxs ! j \<in> set ?idxs" using j by (rule nth_mem)
      then have "?idxs ! j < length spans" "\<not> is_sampled (spans ! (?idxs ! j))" by auto
      moreover have "?ins ! j = spans ! (?idxs ! j)" using j by (simp add: ins del: nth_map_upt)
      ultimately show "?F (?idxs ! j) = (if agg_key_of (?ins ! j) False = k then int (card (slot_cells ?ins j)) else 0)"
        using own cells [OF j] by simp
    qed
    ultimately show ?thesis by simp
  qed
  moreover have "sorted (map start_ns spans)"
    unfolding sorted_map using assms(1) by (rule sorted_wrt_mono_rel [rotated]) (auto simp: less_prod_def)
  moreover have "0 < duration_ns s" if "s \<in> set spans" for s using host(1) [OF that] by (simp add: is_host_work_def)
  ultimately show ?thesis using stream_sweep_rows [of spans a] by (simp add: add.assoc)
qed

text \<open>
  C20. The stores' streaming sweep agrees with \<open>ExclusiveTime\<close>: fed one thread's host spans in
  (start, seq) order, it never misses a key it has forgotten, and adds to every row of the
  aggregate exactly the exclusive time of the spans of that row.
\<close>

theorem streaming_equals_batch:
  assumes "sorted_wrt (\<lambda>a b. (start_ns a, seq a) < (start_ns b, seq b)) spans"
    and "\<forall>s\<in>set spans. is_host_work s \<and> thread_key s = key"
  shows "\<exists>a'. exclusive_thread_sweep spans a = Some a'
    \<and> (\<forall>k. dict_get (rows a') k 0 = dict_get (rows a) k 0
        + (\<Sum>i<length spans. if agg_key_of (spans ! i) False = k then dict_get (exclusive_owned spans) i 0 else 0))"
  using assms by (rule stream_sweep_batch)

text \<open>The example thread in (start, seq) order.\<close>

definition demo_stream :: "span_event list" where
  "demo_stream = [(mk_span ''region'' OPENMP 0 10 1 7 [(''type'', ''parallel'')])\<lparr>seq := 4\<rparr>,
     (mk_span ''sample'' CPU 1 4 1 7 [])\<lparr>seq := 1\<rparr>,
     (mk_span ''barrier'' SYNC 2 3 1 7 [(''type'', ''barrier'')])\<lparr>seq := 3\<rparr>,
     (mk_span ''sample'' CPU 12 4 1 7 [])\<lparr>seq := 2\<rparr>]"

theorem streaming_equals_batch_witness:
  "\<exists>a'. exclusive_thread_sweep demo_stream empty_aggregate = Some a'
     \<and> dict_get (rows a') (1, 7, ''openmp'', ''region'', Computation, False) 0 = 7
     \<and> dict_get (rows a') (1, 7, ''cpu'', ''sample'', Computation, False) 0 = 4"
proof -
  have srt: "sorted_wrt (\<lambda>a b. (start_ns a, seq a) < (start_ns b, seq b)) demo_stream"
    and host: "\<forall>s\<in>set demo_stream. is_host_work s \<and> thread_key s = (1, 7)" by code_simp+
  have own: "exclusive_owned demo_stream = [(0, 7), (2, 3), (3, 4)]" by code_simp
  have keys: "map (\<lambda>s. agg_key_of s False) demo_stream =
    [(1, 7, ''openmp'', ''region'', Computation, False), (1, 7, ''cpu'', ''sample'', Computation, False),
     (1, 7, ''sync'', ''barrier'', Synchronization, False), (1, 7, ''cpu'', ''sample'', Computation, False)]"
    by code_simp
  have len: "length demo_stream = 4" by (simp add: demo_stream_def)
  have key: "agg_key_of (demo_stream ! i) False = map (\<lambda>s. agg_key_of s False) demo_stream ! i" if "i < 4" for i
    using that len by simp
  have four: "{..<4 :: nat} = {0, 1, 2, 3}" by auto
  show ?thesis
    using streaming_equals_batch [OF srt host, of empty_aggregate]
    by (auto simp: empty_aggregate_def len key keys four own dict_get_def)
qed

end
