(* ===== verification/Gpu_Spans.thy ===== *)
theory Gpu_Spans
  imports Events Intervals Py_Text
begin

text \<open>
  The classification of CUDA, ROCm and OpenCL spans in \<^verbatim>\<open>src/src/core/gpu_activity.py\<close>: which
  runtime a span belongs to, how its interval was obtained, whether it is a host submission
  or device work, and the kernel intervals GPU-active metrics use.
\<close>

definition RUNTIMES :: "string list" where
  "RUNTIMES = [''cuda'', ''rocm'']"

definition TIMING_HOST :: string where "TIMING_HOST = ''host''"
definition TIMING_DEVICE :: string where "TIMING_DEVICE = ''device''"
definition PROXY_EVENT :: string where "PROXY_EVENT = ''proxy_event''"
definition PROXY_HOST :: string where "PROXY_HOST = ''proxy_host''"
definition PROXY_FLUSH :: string where "PROXY_FLUSH = ''proxy_flush''"

definition PROXY_TIMINGS :: "string list" where
  "PROXY_TIMINGS = [PROXY_EVENT, PROXY_HOST, PROXY_FLUSH]"

definition LEGACY_TIMING :: "(string, string) dict" where
  "LEGACY_TIMING = [(''cpu'', PROXY_HOST), (''cpu_flush'', PROXY_FLUSH)]"

definition DEVICE_WORK_OPS :: "string list" where
  "DEVICE_WORK_OPS = [''kernel'', ''memcpy'', ''memset'', ''graph'']"

definition CLOCK_TOLERANCE_NS :: int where
  "CLOCK_TOLERANCE_NS = 50000"

lemmas gpu_constants = RUNTIMES_def TIMING_HOST_def TIMING_DEVICE_def PROXY_EVENT_def PROXY_HOST_def
  PROXY_FLUSH_def PROXY_TIMINGS_def LEGACY_TIMING_def DEVICE_WORK_OPS_def

section \<open>Tag helpers\<close>

text \<open>\<open>runtime_of\<close>; the name is taken by the event graph.\<close>

definition span_runtime :: "span_event \<Rightarrow> string option" where
  "span_runtime s =
     (if tag_in s ''rt'' RUNTIMES then tag s ''rt''
      else if category_value (category s) \<in> set RUNTIMES then Some (category_value (category s)) else None)"

definition is_new_format :: "span_event \<Rightarrow> bool" where
  "is_new_format s \<longleftrightarrow> tag_in s ''rt'' RUNTIMES"

definition timing_source :: "span_event \<Rightarrow> string" where
  "timing_source s =
     (let t = dict_get (tags s) ''timing'' [] in
      if t \<noteq> [] then dict_get LEGACY_TIMING t t
      else if tag_is s ''side'' ''gpu'' then TIMING_DEVICE
      else if tag_is s ''side'' ''cpu'' then TIMING_HOST
      else if category_value (category s) \<in> set RUNTIMES \<and> tag_in s ''type'' [''kernel'', ''graph_launch''] then PROXY_EVENT
      else if tag_is s ''type'' ''memcpy_async'' then PROXY_EVENT
      else TIMING_HOST)"

definition is_device_kernel :: "span_event \<Rightarrow> bool" where
  "is_device_kernel s =
     (if \<not> tag_is s ''type'' ''kernel'' \<or> tag_is s ''side'' ''cpu'' then False
      else category_value (category s) \<in> {''cuda'', ''rocm'', ''opencl''})"

definition is_host_submission :: "span_event \<Rightarrow> bool" where
  "is_host_submission s \<longleftrightarrow>
     tag_is s ''side'' ''cpu'' \<and> tag_in s ''rt'' RUNTIMES \<and> (tag s ''lid'' \<noteq> None \<or> tag s ''corr'' \<noteq> None)"

definition is_device_span :: "span_event \<Rightarrow> bool" where
  "is_device_span s \<longleftrightarrow> tag_is s ''side'' ''gpu'' \<and> tag_in s ''rt'' RUNTIMES"

definition op_of :: "span_event \<Rightarrow> string" where
  "op_of s =
     (let op = dict_get (tags s) ''op'' []; typ = dict_get (tags s) ''type'' [] in
      if op \<noteq> [] then op
      else if typ = ''kernel'' then ''kernel''
      else if typ = ''graph_launch'' then ''graph''
      else if prefix ''memcpy'' typ \<or> typ \<in> {''HtoD'', ''DtoH''} then ''memcpy''
      else if typ = ''memset'' then ''memset''
      else if typ = ''sync'' then ''sync''
      else typ)"

definition int_tag :: "span_event \<Rightarrow> string \<Rightarrow> int option" where
  "int_tag s key = (case tag s key of None \<Rightarrow> None | Some v \<Rightarrow> if v = [] then None else py_int v)"

section \<open>GPU-active time\<close>

record kernel_act =
  ka_intervals :: "interval list"
  ka_source :: "string option"
  ka_used :: int
  ka_excluded :: int
  ka_reason :: string

definition kernel_activity :: "span_event list \<Rightarrow> kernel_act" where
  "kernel_activity spans =
     (let kernels = filter is_device_kernel spans in
      if kernels = [] then \<lparr>ka_intervals = [], ka_source = None, ka_used = 0, ka_excluded = 0, ka_reason = []\<rparr>
      else
        (let native = filter (\<lambda>s. timing_source s = TIMING_DEVICE) kernels;
             (chosen, source, reason) =
               (if native \<noteq> [] then (native, Some ''device'', ''proxy-timed kernels not combined with device-measured ones'')
                else let chosen = filter (\<lambda>s. timing_source s = PROXY_EVENT) kernels
                     in (chosen, if chosen \<noteq> [] then Some ''proxy'' else None, ''host-timed fallbacks carry no device interval''))
         in \<lparr>ka_intervals = map (\<lambda>s. (start_ns s, end_ns s)) chosen, ka_source = source, ka_used = int (length chosen),
             ka_excluded = int (length kernels) - int (length chosen),
             ka_reason = (if length kernels > length chosen then reason else [])\<rparr>))"

section \<open>Lemmas\<close>

text \<open>A device span is never a host submission, whatever else it carries.\<close>

lemma device_not_host: "is_device_span s \<Longrightarrow> \<not> is_host_submission s"
  by (auto simp: is_device_span_def is_host_submission_def)

lemma kernel_activity_one_source:
  assumes "iv \<in> set (ka_intervals (kernel_activity spans))"
  shows "\<exists>s\<in>set spans. is_device_kernel s \<and> iv = (start_ns s, end_ns s)
           \<and> timing_source s = (if ka_source (kernel_activity spans) = Some ''device'' then TIMING_DEVICE else PROXY_EVENT)"
  using assms by (auto simp: kernel_activity_def Let_def filter_empty_conv split: if_splits)

end
