(* ===== verification/Clock_Domains.thy ===== *)
theory Clock_Domains
  imports Activity_Buckets Gpu_Spans
begin

text \<open>
  The clock domains of \<^verbatim>\<open>src/src/analysis/cp_clock.py\<close>: which clock a span's timestamps come
  from, the difference constraints between the domains' offsets, the Bellman-Ford solver
  \<open>_shortest\<close> with its negative cycle, and the relaxation loop of \<open>solve\<close>. Floats are exact
  rationals; an infinite bound or distance is None (of the sign its place has).
\<close>

section \<open>Domains\<close>

datatype domain_key =
    HostDom string
  | NcclAsyncDom string int
  | OpenclDom string int
  | DeviceDom string int "string option" string

definition REFERENCE :: domain_key where
  "REFERENCE = HostDom ''0''"

definition tag_float :: "span_event \<Rightarrow> string \<Rightarrow> py_number option" where
  "tag_float s k = (if tag_truthy s k then py_float (dict_get (tags s) k []) else Some (Finite 0))"

text \<open>
  The outer option is the \<open>ValueError\<close> of \<open>float\<close>; the bound None is infinite. A value of
  \<open>node_bounds\<close> is None when it is infinite. The bound of an asynchronous NCCL span can be nan or
  minus infinity in the code, which is no bound of the model: the result is None there too.
  \<open>max\<close> keeps the tolerance when a correction is nan, because nan is not greater.
\<close>

definition async_bound :: "py_number \<Rightarrow> rat option option" where
  "async_bound x = (case x of Finite r \<Rightarrow> Some (Some r) | Infinite \<Rightarrow> Some None | _ \<Rightarrow> None)"

definition device_bound :: "py_number \<Rightarrow> rat option" where
  "device_bound x =
     (case x of Finite r \<Rightarrow> Some (max (of_int CLOCK_TOLERANCE_NS) r) | Infinite \<Rightarrow> None
      | _ \<Rightarrow> Some (of_int CLOCK_TOLERANCE_NS))"

definition domain_of :: "span_event \<Rightarrow> (string, rat option) dict \<Rightarrow> (domain_key \<times> rat option) option" where
  "domain_of s node_bounds =
     (let node = dict_get (tags s) ''node'' ''0''; cat = category_value (category s);
          host = Some (HostDom node, if node = ''0'' then Some 0 else dict_get node_bounds node None) in
      if is_device_timed s then
        if tag_is s ''timing'' ''async'' then
          map_option (\<lambda>b. (NcclAsyncDom node (pid s), b)) (Option.bind (tag_float s ''ref_err'') async_bound)
        else if cat \<in> {''opencl'', ''memory''} \<and> \<not> tag_in s ''rt'' RUNTIMES \<and>
                (tag_is s ''side'' ''gpu'' \<or> suffix ''_gpu'' (name s)) then
          Some (OpenclDom node (pid s), None)
        else if is_device_span s \<and> timing_source s = TIMING_DEVICE then
          map_option (\<lambda>corr. (DeviceDom node (pid s) (tag s ''rt'')
              (if tag_truthy s ''dev'' then dict_get (tags s) ''dev'' [] else dict_get (tags s) ''ctx'' []),
            device_bound corr)) (tag_float s ''clock_corr_ns'')
        else host
      else host)"

definition shiftable :: "domain_key \<Rightarrow> bool" where
  "shiftable k = (case k of OpenclDom _ _ \<Rightarrow> True | _ \<Rightarrow> False)"

record relaxed_pair =
  r_from :: domain_key
  r_to :: domain_key
  r_need_ns :: int
  r_allowed_ns :: int
  r_contradicted :: nat
  r_direct :: bool

record clock_analysis =
  c_keys :: "domain_key list"
  c_bounds :: "rat option list"
  c_lo :: "rat option list"
  c_hi :: "rat option list"
  c_shift :: "int list"
  c_feasible :: bool
  c_constraints :: nat
  c_relaxed :: "relaxed_pair list"
  c_contradicted :: "nat set"

text \<open>\<open>offset_range\<close>: the interval of \<open>delta_a - delta_b\<close>.\<close>

definition offset_range :: "clock_analysis \<Rightarrow> nat \<Rightarrow> nat \<Rightarrow> rat option \<times> rat option" where
  "offset_range ca a b =
     ((case (c_lo ca ! a, c_hi ca ! b) of (Some x, Some y) \<Rightarrow> Some (x - y) | _ \<Rightarrow> None),
      (case (c_hi ca ! a, c_lo ca ! b) of (Some x, Some y) \<Rightarrow> Some (x - y) | _ \<Rightarrow> None))"

section \<open>Shortest paths\<close>

text \<open>
  An edge \<open>(u, v, w)\<close> is the constraint \<open>x_v \<le> x_u + w\<close>. The state of a pass: distances,
  the index of the edge that set each (-1: none), and the last node a pass improved (-1).
\<close>

type_synonym cedge = "nat \<times> nat \<times> rat"

text \<open>Python's \<open>xs[k]\<close>, an index -1 reading the last element.\<close>

definition py_index :: "'a list \<Rightarrow> int \<Rightarrow> 'a" where
  "py_index xs k = (if k < 0 then xs ! nat (int (length xs) + k) else xs ! nat k)"

type_synonym bf = "rat option list \<times> int list \<times> int"

fun relax :: "nat \<times> cedge \<Rightarrow> bf \<Rightarrow> bf" where
  "relax (k, u, v, w) (d, pred, x) =
     (case d ! u of
        None \<Rightarrow> (d, pred, x)
      | Some a \<Rightarrow>
          if (case d ! v of None \<Rightarrow> True | Some b \<Rightarrow> a + w < b - 1 / 2)
          then (d[v := Some (a + w)], pred[v := int k], int v)
          else (d, pred, x))"

definition relax_pass :: "cedge list \<Rightarrow> rat option list \<times> int list \<Rightarrow> bf" where
  "relax_pass edges s = fold relax (List.enumerate 0 edges) (fst s, snd s, -1)"

fun relax_rounds :: "cedge list \<Rightarrow> nat \<Rightarrow> bf \<Rightarrow> bf" where
  "relax_rounds edges 0 s = s"
| "relax_rounds edges (Suc r) (d, pred, x) =
     (let s = relax_pass edges (d, pred) in if snd (snd s) < 0 then s else relax_rounds edges r s)"

text \<open>\<open>while True: k = pred[v]; cyc.append(k); v = edges[k][0]; ...\<close>\<close>

function collect_cycle :: "nat \<Rightarrow> cedge list \<Rightarrow> int list \<Rightarrow> nat \<Rightarrow> nat \<Rightarrow> int list \<Rightarrow> int list" where
  "collect_cycle n edges pred x v cyc =
     (let k = pred ! v; cyc = cyc @ [k]; v = fst (py_index edges k) in
      if v = x \<or> length cyc > n then cyc else collect_cycle n edges pred x v cyc)"
  by pat_completeness auto
termination
  by (relation "measure (\<lambda>(n, edges, pred, x, v, cyc). Suc n - length cyc)") auto

declare collect_cycle.simps [simp del]

text \<open>Left: the edges of a negative cycle. Right: the distances.\<close>

definition shortest :: "nat \<Rightarrow> cedge list \<Rightarrow> nat option \<Rightarrow> int list + rat option list" where
  "shortest n edges source =
     (let d = (case source of None \<Rightarrow> replicate n (Some 0) | Some s \<Rightarrow> (replicate n None)[s := Some 0]);
          (d, pred, x) = relax_rounds edges (n + 1) (d, replicate n (-1), -1) in
      if x < 0 then Inr d
      else
        (let x = ((\<lambda>x. fst (py_index edges (pred ! x))) ^^ n) (nat x)
         in Inl (collect_cycle n edges pred x x [])))"

section \<open>Solving\<close>

record pair =
  p_a :: nat
  p_b :: nat
  p_needs :: "(rat \<times> nat) list"
  p_strength :: int

definition need :: "pair \<Rightarrow> rat" where
  "need p = fst (hd (p_needs p))"

definition pair_edge :: "pair \<Rightarrow> cedge" where
  "pair_edge p = (p_b p, p_a p, - need p)"

definition bound_edges :: "nat \<Rightarrow> rat option list \<Rightarrow> cedge list" where
  "bound_edges ref bounds =
     concat (map (\<lambda>(i, bd). case bd of
        None \<Rightarrow> [] | Some b \<Rightarrow> if i = ref then [] else [(ref, i, b), (i, ref, b)]) (List.enumerate 0 bounds))"

definition system :: "nat \<Rightarrow> rat option list \<Rightarrow> pair list \<Rightarrow> cedge list" where
  "system ref bounds pairs = map pair_edge pairs @ bound_edges ref bounds"

type_synonym solve_state = "pair list \<times> bool \<times> nat set \<times> relaxed_pair list"

definition relax_weakest :: "domain_key list \<Rightarrow> cedge list \<Rightarrow> int list \<Rightarrow> nat list \<Rightarrow> solve_state \<Rightarrow> solve_state" where
  "relax_weakest keys edges cyc on st =
     (let (pairs, feasible, contradicted, relaxed) = st;
          deficit = - sum_list (map (\<lambda>k. snd (snd (py_index edges k))) cyc);
          k = the (min_key (\<lambda>k. (p_strength (pairs ! k), - need (pairs ! k))) on);
          p = pairs ! k;
          allowed = need p - deficit;
          gone = map snd (filter (\<lambda>(need, cid). need > allowed) (p_needs p));
          entry = \<lparr>r_from = keys ! p_a p, r_to = keys ! p_b p, r_need_ns = py_round (need p),
                   r_allowed_ns = \<lfloor>allowed\<rfloor>, r_contradicted = length gone, r_direct = (p_strength p \<noteq> 0)\<rparr>;
          keep = filter (\<lambda>(need, cid). need \<le> allowed) (p_needs p)
      in (if keep = [] then take k pairs @ drop (k + 1) pairs else pairs[k := p\<lparr>p_needs := keep\<rparr>],
          feasible, contradicted \<union> set gone, relaxed @ [entry]))"

fun solve_rounds :: "nat \<Rightarrow> domain_key list \<Rightarrow> rat option list \<Rightarrow> nat \<Rightarrow> solve_state \<Rightarrow> solve_state" where
  "solve_rounds 0 keys bounds ref st = st"
| "solve_rounds (Suc r) keys bounds ref (pairs, feasible, contradicted, relaxed) =
     (let edges = system ref bounds pairs in
      case shortest (length keys) edges None of
        Inr d \<Rightarrow> (pairs, feasible, contradicted, relaxed)
      | Inl cyc \<Rightarrow>
          (let on = map nat (filter (\<lambda>k. k < int (length pairs)) cyc) in
           if on = [] then (pairs, False, contradicted, relaxed)
           else solve_rounds r keys bounds ref (relax_weakest keys edges cyc on (pairs, False, contradicted, relaxed))))"

definition needs_total :: "pair list \<Rightarrow> nat" where
  "needs_total pairs = sum_list (map (\<lambda>p. length (p_needs p)) pairs)"

definition ref_index :: "domain_key list \<Rightarrow> nat" where
  "ref_index keys = (if REFERENCE \<in> set keys then length (takeWhile (\<lambda>k. k \<noteq> REFERENCE) keys) else 0)"

definition shift_of :: "domain_key \<Rightarrow> rat option \<Rightarrow> rat option \<Rightarrow> int" where
  "shift_of key lo hi =
     (if shiftable key \<and> \<not> ((case lo of None \<Rightarrow> True | Some x \<Rightarrow> x \<le> 0) \<and> (case hi of None \<Rightarrow> True | Some y \<Rightarrow> 0 \<le> y))
      then (case lo of Some x \<Rightarrow> if x > 0 then \<lceil>x\<rceil> else \<lfloor>the hi\<rfloor> | None \<Rightarrow> \<lfloor>the hi\<rfloor>)
      else 0)"

definition solve :: "domain_key list \<Rightarrow> rat option list \<Rightarrow> pair list \<Rightarrow> clock_analysis" where
  "solve keys bounds pairs0 =
     (let n = length keys; ref = ref_index keys;
          pairs = filter (\<lambda>p. p_needs p \<noteq> []) pairs0;
          (pairs, feasible, contradicted, relaxed) =
            solve_rounds (needs_total pairs + 1) keys bounds ref (pairs, True, {}, []);
          edges = system ref bounds pairs;
          out = \<lparr>c_keys = keys, c_bounds = bounds, c_lo = replicate n (Some 0), c_hi = replicate n (Some 0),
                 c_shift = replicate n 0, c_feasible = feasible, c_constraints = needs_total pairs0,
                 c_relaxed = relaxed, c_contradicted = contradicted\<rparr>
      in case (shortest n edges (Some ref), shortest n (map (\<lambda>(u, v, w). (v, u, w)) edges) (Some ref)) of
           (Inr hi, Inr to_ref) \<Rightarrow>
             (let lo = map (map_option uminus) to_ref
              in out\<lparr>c_hi := hi, c_lo := lo, c_shift := map (\<lambda>i. shift_of (keys ! i) (lo ! i) (hi ! i)) [0..<n]\<rparr>)
         | _ \<Rightarrow> out\<lparr>c_lo := map (map_option uminus) bounds, c_hi := bounds\<rparr>)"

text \<open>A constraint: id, source node, destination node, strength.\<close>

type_synonym ccons = "nat \<times> nat \<times> nat \<times> int"

definition add_constraint :: "(nat \<Rightarrow> nat) \<Rightarrow> int list \<Rightarrow> ccons \<Rightarrow> (nat \<times> nat, pair) dict \<Rightarrow> (nat \<times> nat, pair) dict" where
  "add_constraint node_domain t c by_pair =
     (case c of (cid, u, v, strength) \<Rightarrow>
        let a = node_domain u; b = node_domain v in
        if a = b then by_pair
        else
          (let p = dict_get by_pair (a, b) \<lparr>p_a = a, p_b = b, p_needs = [], p_strength = 1\<rparr>
           in AList.update (a, b) (p\<lparr>p_needs := p_needs p @ [(of_int (t ! u - t ! v), cid)],
                                     p_strength := min (p_strength p) strength\<rparr>) by_pair))"

definition analyze_clocks :: "(nat \<Rightarrow> nat) \<Rightarrow> int list \<Rightarrow> ccons list \<Rightarrow> domain_key list \<Rightarrow> rat option list \<Rightarrow> clock_analysis" where
  "analyze_clocks node_domain t cons keys bounds =
     solve keys bounds
       (map (\<lambda>(k, p). p\<lparr>p_needs := rev (sort (p_needs p))\<rparr>) (fold (add_constraint node_domain t) cons []))"

end
