(* ===== verification/Bellman_Ford.thy ===== *)
theory Bellman_Ford
  imports Clock_Domains
begin

text \<open>
  The constraint solver of \<^verbatim>\<open>src/src/analysis/cp_clock.py\<close>: what \<open>_shortest\<close> returns is either
  distances that meet every constraint to half a nanosecond, or the edges of a cycle of
  negative weight, which no assignment of offsets can satisfy.
\<close>

section \<open>Constraints and walks\<close>

definition cedges_ok :: "nat \<Rightarrow> cedge list \<Rightarrow> bool" where
  "cedges_ok n edges \<longleftrightarrow> (\<forall>(u, v, w)\<in>set edges. u < n \<and> v < n)"

text \<open>Offsets that meet every constraint up to a slack.\<close>

definition feasible :: "rat \<Rightarrow> cedge list \<Rightarrow> (nat \<Rightarrow> rat) \<Rightarrow> bool" where
  "feasible e edges \<delta> \<longleftrightarrow> (\<forall>(u, v, w)\<in>set edges. \<delta> v \<le> \<delta> u + w + e)"

definition met :: "rat option list \<Rightarrow> cedge \<Rightarrow> bool" where
  "met d c = (case c of (u, v, w) \<Rightarrow>
     case d ! u of None \<Rightarrow> True | Some a \<Rightarrow> (case d ! v of None \<Rightarrow> False | Some b \<Rightarrow> b \<le> a + w + 1 / 2))"

abbreviation csrc :: "cedge list \<Rightarrow> nat \<Rightarrow> nat" where "csrc edges k \<equiv> fst (edges ! k)"
abbreviation cdst :: "cedge list \<Rightarrow> nat \<Rightarrow> nat" where "cdst edges k \<equiv> fst (snd (edges ! k))"
abbreviation cw :: "cedge list \<Rightarrow> nat \<Rightarrow> rat" where "cw edges k \<equiv> snd (snd (edges ! k))"

definition weight :: "cedge list \<Rightarrow> nat list \<Rightarrow> rat" where
  "weight edges ks = sum_list (map (cw edges) ks)"

lemma weight_simps [simp]:
  "weight edges [] = 0" "weight edges (k # ks) = cw edges k + weight edges ks"
  "weight edges (ks @ ls) = weight edges ks + weight edges ls"
  by (simp_all add: weight_def)

text \<open>Edges walked backwards, from a node \<open>v\<close> to a node \<open>u\<close>.\<close>

fun backwalk :: "cedge list \<Rightarrow> nat \<Rightarrow> nat list \<Rightarrow> nat \<Rightarrow> bool" where
  "backwalk edges v [] u \<longleftrightarrow> v = u"
| "backwalk edges v (k # ks) u \<longleftrightarrow> k < length edges \<and> cdst edges k = v \<and> backwalk edges (csrc edges k) ks u"

lemma backwalk_append [simp]:
  "backwalk edges v (ks @ ls) u \<longleftrightarrow> (\<exists>x. backwalk edges v ks x \<and> backwalk edges x ls u)"
  by (induction ks arbitrary: v) auto

lemma feasible_edge: "feasible e edges \<delta> \<Longrightarrow> k < length edges \<Longrightarrow> \<delta> (cdst edges k) \<le> \<delta> (csrc edges k) + cw edges k + e"
  using nth_mem [of k edges] by (fastforce simp: feasible_def case_prod_unfold)

lemma feasible_backwalk: "feasible 0 edges \<delta> \<Longrightarrow> backwalk edges v ks u \<Longrightarrow> \<delta> v \<le> \<delta> u + weight edges ks"
proof (induction ks arbitrary: v)
  case (Cons k ks)
  then show ?case using feasible_edge [of 0 edges \<delta> k] by fastforce
qed simp

lemma negative_cycle_infeasible:
  "backwalk edges v ks v \<Longrightarrow> weight edges ks < 0 \<Longrightarrow> \<not> feasible 0 edges \<delta>"
  using feasible_backwalk by fastforce

section \<open>The predecessor graph\<close>

text \<open>The chain of predecessor edges from \<open>v\<close> back to \<open>u\<close>.\<close>

fun pwalk :: "cedge list \<Rightarrow> int list \<Rightarrow> nat \<Rightarrow> nat list \<Rightarrow> nat \<Rightarrow> bool" where
  "pwalk edges pred v [] u \<longleftrightarrow> v = u"
| "pwalk edges pred v (k # ks) u \<longleftrightarrow> pred ! v = int k \<and> pwalk edges pred (csrc edges k) ks u"

lemma pwalk_append [simp]:
  "pwalk edges pred v (ks @ ls) u \<longleftrightarrow> (\<exists>x. pwalk edges pred v ks x \<and> pwalk edges pred x ls u)"
  by (induction ks arbitrary: v) auto

text \<open>
  The invariant of the relaxation. A predecessor edge leads to its node and its constraint
  is tight or exceeded; every closed chain of predecessors has negative weight.
\<close>

definition preds_ok :: "nat \<Rightarrow> cedge list \<Rightarrow> rat option list \<Rightarrow> int list \<Rightarrow> bool" where
  "preds_ok n edges d pred \<longleftrightarrow> length d = n \<and> length pred = n \<and>
     (\<forall>v<n. pred ! v = -1 \<or>
        (\<exists>k a b. pred ! v = int k \<and> k < length edges \<and> cdst edges k = v \<and>
           d ! csrc edges k = Some a \<and> d ! v = Some b \<and> a + cw edges k \<le> b))"

definition cycles_negative :: "nat \<Rightarrow> cedge list \<Rightarrow> int list \<Rightarrow> bool" where
  "cycles_negative n edges pred \<longleftrightarrow>
     (\<forall>v ks. v < n \<longrightarrow> ks \<noteq> [] \<longrightarrow> pwalk edges pred v ks v \<longrightarrow> weight edges ks < - 1 / 2)"

lemma preds_okD:
  assumes "preds_ok n edges d pred" "v < n" "pred ! v = int k"
  obtains a b where "k < length edges" "cdst edges k = v" "d ! csrc edges k = Some a" "d ! v = Some b"
    "a + cw edges k \<le> b"
proof -
  have "pred ! v \<noteq> -1" using assms(3) by simp
  then obtain j a b where "pred ! v = int j" "j < length edges" "cdst edges j = v" "d ! csrc edges j = Some a"
      "d ! v = Some b" "a + cw edges j \<le> b"
    using assms(1,2) unfolding preds_ok_def by blast
  moreover from this(1) assms(3) have "j = k" by simp
  ultimately show thesis using that by blast
qed

lemma cedge_bounds:
  assumes "cedges_ok n edges" "k < length edges"
  shows "csrc edges k < n" "cdst edges k < n"
  using assms nth_mem [of k edges] by (fastforce simp: cedges_ok_def case_prod_unfold)+

text \<open>Along a chain of predecessors the distances account for the weights.\<close>

lemma pwalk_telescope:
  assumes "cedges_ok n edges" "preds_ok n edges d pred" "v < n" "pwalk edges pred v ks u" "d ! v = Some b"
  shows "\<exists>a. d ! u = Some a \<and> a + weight edges ks \<le> b"
  using assms(3-5)
proof (induction ks arbitrary: v b)
  case (Cons k ks)
  then have "pred ! v = int k" "pwalk edges pred (csrc edges k) ks u" by simp_all
  note k = preds_okD [OF assms(2) Cons.prems(1) this(1)]
  obtain a b' where *: "k < length edges" "d ! csrc edges k = Some a" "d ! v = Some b'" "a + cw edges k \<le> b'"
    by (rule k)
  from Cons.IH [OF cedge_bounds(1) [OF assms(1) *(1)] \<open>pwalk edges pred (csrc edges k) ks u\<close> *(2)]
  obtain c where "d ! u = Some c" "c + weight edges ks \<le> a" by blast
  then show ?case using * Cons.prems(3) by auto
qed auto

text \<open>A chain in the updated predecessors that never leaves \<open>v\<close> is a chain in the old ones.\<close>

lemma pwalk_update_first:
  assumes "v < length pred" "pwalk edges (pred[v := k]) z ks t"
  shows "pwalk edges pred z ks t \<or>
    (\<exists>xs ys. ks = xs @ ys \<and> ys \<noteq> [] \<and> pwalk edges pred z xs v \<and> pwalk edges (pred[v := k]) z xs v
        \<and> pwalk edges (pred[v := k]) v ys t)"
  using assms(2)
proof (induction ks arbitrary: z)
  case (Cons j js)
  show ?case
  proof (cases "z = v")
    case True
    then show ?thesis using Cons.prems by (intro disjI2 exI [of _ "[]"] exI [of _ "j # js"]) simp
  next
    case False
    then have j: "pred ! z = int j" and rest: "pwalk edges (pred[v := k]) (csrc edges j) js t"
      using Cons.prems by auto
    from Cons.IH [OF rest] show ?thesis
    proof (elim disjE exE conjE)
      assume "pwalk edges pred (csrc edges j) js t"
      with j show ?thesis by simp
    next
      fix xs ys assume "js = xs @ ys" "ys \<noteq> []" "pwalk edges pred (csrc edges j) xs v"
        "pwalk edges (pred[v := k]) (csrc edges j) xs v" "pwalk edges (pred[v := k]) v ys t"
      with j False show ?thesis by (intro disjI2 exI [of _ "j # xs"] exI [of _ ys]) simp
    qed
  qed
qed simp

lemma closed_at_updated:
  assumes v: "v < length pred" and loop: "\<And>xs. pwalk edges pred (csrc edges k) xs v \<Longrightarrow> cw edges k + weight edges xs < - 1 / 2"
  shows "pwalk edges (pred[v := int k]) v ks v \<Longrightarrow> ks \<noteq> [] \<Longrightarrow> weight edges ks < - 1 / 2"
proof (induction ks rule: length_induct)
  case (1 ks)
  then obtain js where ks: "ks = k # js" and js: "pwalk edges (pred[v := int k]) (csrc edges k) js v"
    using v by (cases ks) auto
  from pwalk_update_first [OF v js] show ?case
  proof (elim disjE exE conjE)
    assume "pwalk edges pred (csrc edges k) js v"
    from loop [OF this] show ?thesis by (simp add: ks)
  next
    fix xs ys assume *: "js = xs @ ys" "ys \<noteq> []" "pwalk edges pred (csrc edges k) xs v" "pwalk edges (pred[v := int k]) v ys v"
    have "length ys < length ks" by (simp add: ks *(1))
    with 1(1) *(2,4) have "weight edges ys < - 1 / 2" by blast
    with loop [OF *(3)] show ?thesis by (simp add: ks *(1))
  qed
qed

lemma cycles_negative_update:
  assumes ok: "cedges_ok n edges" and pr: "preds_ok n edges d pred" and cy: "cycles_negative n edges pred"
    and k: "k < length edges" and a: "d ! csrc edges k = Some a"
    and better: "case d ! cdst edges k of None \<Rightarrow> True | Some b \<Rightarrow> a + cw edges k < b - 1 / 2"
  shows "cycles_negative n edges (pred[cdst edges k := int k])"
proof -
  let ?v = "cdst edges k"
  have v: "?v < length pred" and u: "csrc edges k < n"
    using cedge_bounds [OF ok k] pr by (simp_all add: preds_ok_def)
  have loop: "cw edges k + weight edges xs < - 1 / 2" if "pwalk edges pred (csrc edges k) xs ?v" for xs
    using pwalk_telescope [OF ok pr u that a] better by auto
  have closed: "weight edges ks < - 1 / 2" if "pwalk edges (pred[?v := int k]) ?v ks ?v" "ks \<noteq> []" for ks
    by (rule closed_at_updated [OF v loop that])
  show ?thesis unfolding cycles_negative_def
  proof (intro allI impI)
    fix z ks assume z: "z < n" "ks \<noteq> []" "pwalk edges (pred[?v := int k]) z ks z"
    from pwalk_update_first [OF v z(3)] show "weight edges ks < - 1 / 2"
    proof (elim disjE exE conjE)
      assume "pwalk edges pred z ks z"
      with cy z show ?thesis by (simp add: cycles_negative_def)
    next
      fix xs ys assume *: "ks = xs @ ys" "ys \<noteq> []" "pwalk edges (pred[?v := int k]) z xs ?v" "pwalk edges (pred[?v := int k]) ?v ys z"
      then have "pwalk edges (pred[?v := int k]) ?v (ys @ xs) ?v" by auto
      from closed [OF this] *(2) show ?thesis by (simp add: *(1))
    qed
  qed
qed

section \<open>One pass\<close>

text \<open>
  \<open>lev v\<close> is the last pass that improved \<open>v\<close>. While a pass runs, an unmet constraint starts
  at a node improved in this pass, or, if its turn is still to come, in the one before.
\<close>

definition pass_inv :: "nat \<Rightarrow> cedge list \<Rightarrow> nat \<Rightarrow> nat \<Rightarrow> bf \<Rightarrow> (nat \<Rightarrow> nat) \<Rightarrow> bool" where
  "pass_inv n edges r i s lev \<longleftrightarrow> (case s of (d, pred, x) \<Rightarrow>
     preds_ok n edges d pred \<and> cycles_negative n edges pred \<and>
     (\<forall>v<n. pred ! v = -1 \<longrightarrow> lev v = 0) \<and>
     (\<forall>v<n. \<forall>k. pred ! v = int k \<longrightarrow> lev v \<le> Suc (lev (csrc edges k))) \<and>
     (\<forall>k<length edges. \<not> met d (edges ! k) \<longrightarrow> (if k < i then Suc r else r) \<le> lev (csrc edges k)) \<and>
     (if x < 0 then \<forall>v<n. lev v \<le> r else x < int n \<and> lev (nat x) = Suc r \<and> (\<forall>v<n. lev v \<le> Suc r)))"

lemma met_update:
  assumes "v < length d" "\<not> met (d[v := Some c]) (edges ! j)" "csrc edges j \<noteq> v"
    "case d ! v of None \<Rightarrow> True | Some b \<Rightarrow> c \<le> b"
  shows "\<not> met d (edges ! j)"
  using assms by (auto simp: met_def nth_list_update case_prod_unfold split: option.splits if_splits)

lemma preds_ok_update:
  assumes ok: "cedges_ok n edges" and pr: "preds_ok n edges d pred" and k: "k < length edges"
    and a: "d ! csrc edges k = Some a"
    and better: "case d ! cdst edges k of None \<Rightarrow> True | Some b \<Rightarrow> a + cw edges k < b - 1 / 2"
  shows "preds_ok n edges (d[cdst edges k := Some (a + cw edges k)]) (pred[cdst edges k := int k])"
proof -
  let ?v = "cdst edges k"
  let ?d = "d[?v := Some (a + cw edges k)]"
  have v: "?v < n" and u: "csrc edges k < n" and len: "length d = n" "length pred = n"
    using cedge_bounds [OF ok k] pr by (simp_all add: preds_ok_def)
  have le: "\<exists>c'. ?d ! z = Some c' \<and> c' \<le> c" if "d ! z = Some c" for z c
    using that better v len by (cases "z = ?v") auto
  show ?thesis unfolding preds_ok_def
  proof (intro conjI allI impI)
    fix z assume z: "z < n"
    show "pred[?v := int k] ! z = -1 \<or> (\<exists>j a b. pred[?v := int k] ! z = int j \<and> j < length edges \<and> cdst edges j = z \<and>
        ?d ! csrc edges j = Some a \<and> ?d ! z = Some b \<and> a + cw edges j \<le> b)"
    proof (cases "z = ?v")
      case True
      from le [OF a] obtain c where "?d ! csrc edges k = Some c" "c \<le> a" by blast
      with True k v len show ?thesis
        by (intro disjI2 exI [of _ k] exI [of _ c] exI [of _ "a + cw edges k"]) simp
    next
      case False
      from pr z have "pred ! z = -1 \<or> (\<exists>j a b. pred ! z = int j \<and> j < length edges \<and> cdst edges j = z \<and>
          d ! csrc edges j = Some a \<and> d ! z = Some b \<and> a + cw edges j \<le> b)"
        by (simp add: preds_ok_def)
      then show ?thesis
      proof (elim disjE exE conjE)
        fix j a' b assume *: "pred ! z = int j" "j < length edges" "cdst edges j = z" "d ! csrc edges j = Some a'"
          "d ! z = Some b" "a' + cw edges j \<le> b"
        from le [OF *(4)] obtain c where "?d ! csrc edges j = Some c" "c \<le> a'" by blast
        with * False show ?thesis
          by (intro disjI2 exI [of _ j] exI [of _ c] exI [of _ b]) simp
      qed (use False in simp)
    qed
  qed (use len in simp_all)
qed

lemma relax_edge:
  "relax (k, c) (d, pred, x) =
     (case d ! fst c of
        None \<Rightarrow> (d, pred, x)
      | Some a \<Rightarrow>
          if (case d ! fst (snd c) of None \<Rightarrow> True | Some b \<Rightarrow> a + snd (snd c) < b - 1 / 2)
          then (d[fst (snd c) := Some (a + snd (snd c))], pred[fst (snd c) := int k], int (fst (snd c)))
          else (d, pred, x))"
  by (cases c rule: prod_cases3) (simp split: option.split)

lemma met_edge:
  "met d c \<longleftrightarrow> (case d ! fst c of None \<Rightarrow> True | Some a \<Rightarrow>
     (case d ! fst (snd c) of None \<Rightarrow> False | Some b \<Rightarrow> b \<le> a + snd (snd c) + 1 / 2))"
  by (cases c rule: prod_cases3) (simp add: met_def split: option.split)

lemma relax_inv:
  assumes ok: "cedges_ok n edges" and inv: "pass_inv n edges r i s lev" and i: "i < length edges"
  shows "\<exists>lev. pass_inv n edges r (Suc i) (relax (i, edges ! i) s) lev"
proof -
  obtain d pred x where s: "s = (d, pred, x)" by (cases s) auto
  let ?u = "csrc edges i" and ?v = "cdst edges i" and ?w = "cw edges i"
  note uv = cedge_bounds [OF ok i]
  from inv have pr: "preds_ok n edges d pred" and cy: "cycles_negative n edges pred"
    and l0: "\<And>v. v < n \<Longrightarrow> pred ! v = -1 \<Longrightarrow> lev v = 0"
    and l1: "\<And>v k. v < n \<Longrightarrow> pred ! v = int k \<Longrightarrow> lev v \<le> Suc (lev (csrc edges k))"
    and un: "\<And>k. k < length edges \<Longrightarrow> \<not> met d (edges ! k) \<Longrightarrow> (if k < i then Suc r else r) \<le> lev (csrc edges k)"
    and lx: "if x < 0 then \<forall>v<n. lev v \<le> r else x < int n \<and> lev (nat x) = Suc r \<and> (\<forall>v<n. lev v \<le> Suc r)"
    by (simp_all add: pass_inv_def s)
  have top: "lev v \<le> Suc r" if "v < n" for v using lx that by (force split: if_splits)
  have len: "length d = n" "length pred = n" using pr by (simp_all add: preds_ok_def)
  show ?thesis
  proof (cases "\<exists>a. d ! ?u = Some a \<and> (case d ! ?v of None \<Rightarrow> True | Some b \<Rightarrow> a + ?w < b - 1 / 2)")
    case True
    then obtain a where a: "d ! ?u = Some a" and better: "case d ! ?v of None \<Rightarrow> True | Some b \<Rightarrow> a + ?w < b - 1 / 2"
      by blast
    let ?lev = "lev(?v := Suc r)" and ?d = "d[?v := Some (a + ?w)]" and ?p = "pred[?v := int i]"
    have step: "relax (i, edges ! i) s = (?d, ?p, int ?v)"
      unfolding s relax_edge a using better by simp
    have unmet_i: "\<not> met d (edges ! i)" using a better unfolding met_edge by (auto split: option.splits)
    have lu: "r \<le> lev ?u" using un [OF i unmet_i] by simp
    have less: "case d ! ?v of None \<Rightarrow> True | Some b \<Rightarrow> a + ?w \<le> b" using better by (auto split: option.splits)
    have "pass_inv n edges r (Suc i) (?d, ?p, int ?v) ?lev"
      unfolding pass_inv_def prod.case
    proof (intro conjI allI impI)
      show "preds_ok n edges ?d ?p" by (rule preds_ok_update [OF ok pr i a better])
      show "cycles_negative n edges ?p" by (rule cycles_negative_update [OF ok pr cy i a better])
      show "?lev z = 0" if "z < n" "?p ! z = -1" for z using that l0 [of z] len by (cases "z = ?v") auto
      show "?lev z \<le> Suc (?lev (csrc edges k))" if "z < n" "?p ! z = int k" for z k
      proof (cases "z = ?v")
        case True
        then have "k = i" using that len uv by simp
        then show ?thesis using True lu by simp
      next
        case False
        then have "lev z \<le> Suc (lev (csrc edges k))" using that l1 [of z k] by simp
        then show ?thesis using False top [of z] that by auto
      qed
      show "(if k < Suc i then Suc r else r) \<le> ?lev (csrc edges k)" if k: "k < length edges" "\<not> met ?d (edges ! k)" for k
      proof (cases "csrc edges k = ?v")
        case False
        then have um: "\<not> met d (edges ! k)" using met_update [OF _ k(2) _ less] len uv by blast
        have "k \<noteq> i"
        proof
          assume "k = i"
          with k(2) False uv len a show False unfolding met_edge by (simp add: nth_list_update)
        qed
        then show ?thesis using un [OF k(1) um] False by (auto simp: less_Suc_eq)
      qed simp
      show "if int ?v < 0 then \<forall>v<n. ?lev v \<le> r else int ?v < int n \<and> ?lev (nat (int ?v)) = Suc r \<and> (\<forall>v<n. ?lev v \<le> Suc r)"
        using uv top by simp
    qed
    then show ?thesis unfolding step by blast
  next
    case False
    have step: "relax (i, edges ! i) s = s"
      unfolding s relax_edge using False by (auto split: option.splits)
    have "met d (edges ! i)"
      using False unfolding met_edge by (auto split: option.splits simp: not_less field_simps)
    then have "pass_inv n edges r (Suc i) (d, pred, x) lev"
      unfolding pass_inv_def prod.case
    proof (intro conjI allI impI)
      show "(if k < Suc i then Suc r else r) \<le> lev (csrc edges k)" if k: "k < length edges" "\<not> met d (edges ! k)" for k
        using un [OF k] k(2) \<open>met d (edges ! i)\<close> by (cases "k = i") (auto simp: less_Suc_eq)
    qed (use pr cy l0 l1 lx in auto)
    then show ?thesis unfolding step unfolding s by blast
  qed
qed

lemma relax_pass_inv:
  assumes ok: "cedges_ok n edges" and inv: "pass_inv n edges r 0 (d, pred, -1) lev"
  shows "\<exists>lev. pass_inv n edges r (length edges) (relax_pass edges (d, pred)) lev"
  unfolding relax_pass_def fst_conv snd_conv
proof (rule fold_enumerate_inv [where P = "\<lambda>i s. \<exists>lev. pass_inv n edges r i s lev"])
  show "\<exists>lev. pass_inv n edges r 0 (d, pred, -1) lev" using inv by blast
qed (use relax_inv [OF ok] in blast)

text \<open>A pass that improved something is the start of the next one.\<close>

lemma pass_inv_next:
  assumes "cedges_ok n edges" "pass_inv n edges r (length edges) (d, pred, x) lev" "\<not> x < 0"
  shows "pass_inv n edges (Suc r) 0 (d, pred, -1) lev"
  using assms(2,3) unfolding pass_inv_def by auto

section \<open>All passes\<close>

lemma relax_rounds_inv:
  assumes "cedges_ok n edges" "pass_inv n edges r 0 (d, pred, -1) lev" "m > 0"
    "relax_rounds edges m (d, pred, x0) = (d', pred', x)"
  shows "\<exists>lev q. pass_inv n edges q (length edges) (d', pred', x) lev \<and> (0 \<le> x \<longrightarrow> Suc q = r + m)"
  using assms(2-4)
proof (induction m arbitrary: r d pred x0 lev)
  case (Suc m)
  obtain d1 p1 x1 where s: "relax_pass edges (d, pred) = (d1, p1, x1)" by (metis prod_cases3)
  from relax_pass_inv [OF assms(1) Suc.prems(1)] obtain lev1
    where l1: "pass_inv n edges r (length edges) (d1, p1, x1) lev1" unfolding s by blast
  show ?case
  proof (cases "x1 < 0 \<or> m = 0")
    case True
    then have "(d', pred', x) = (d1, p1, x1)" and "0 \<le> x1 \<longrightarrow> m = 0"
      using Suc.prems(3) by (auto simp: s Let_def split: if_splits)
    then show ?thesis using l1 by (intro exI [of _ lev1] exI [of _ r]) auto
  next
    case False
    then have "relax_rounds edges m (d1, p1, x1) = (d', pred', x)" using Suc.prems(3) by (simp add: s Let_def)
    from Suc.IH [OF pass_inv_next [OF assms(1) l1] _ this] False show ?thesis by simp
  qed
qed simp

lemma pass_inv_init:
  "length d = n \<Longrightarrow> pass_inv n edges 0 0 (d, replicate n (-1), -1) (\<lambda>_. 0)"
  by (auto simp: pass_inv_def preds_ok_def cycles_negative_def neq_Nil_conv)

text \<open>The predecessor of a node improved in a late pass was itself improved late.\<close>

lemma pred_chain:
  assumes ok: "cedges_ok n edges" and inv: "pass_inv n edges q (length edges) (d, pred, x) lev"
    and v: "v < n" "j \<le> lev v"
  shows "\<exists>ks u. length ks = j \<and> pwalk edges pred v ks u \<and> u < n \<and> (\<forall>k\<in>set ks. k < length edges)
    \<and> u = ((\<lambda>x. fst (py_index edges (pred ! x))) ^^ j) v \<and> lev v \<le> lev u + j"
  using v
proof (induction j)
  case 0
  then show ?case by (intro exI [of _ "[]"] exI [of _ v]) simp
next
  case (Suc j)
  then obtain ks u where *: "length ks = j" "pwalk edges pred v ks u" "u < n" "\<forall>k\<in>set ks. k < length edges"
      "u = ((\<lambda>x. fst (py_index edges (pred ! x))) ^^ j) v" "lev v \<le> lev u + j"
    by fastforce
  have "preds_ok n edges d pred" and l0: "pred ! u = -1 \<longrightarrow> lev u = 0"
    and l1: "\<And>k. pred ! u = int k \<Longrightarrow> lev u \<le> Suc (lev (csrc edges k))"
    using inv *(3) by (auto simp: pass_inv_def)
  moreover have "pred ! u \<noteq> -1" using l0 *(6) Suc.prems by auto
  ultimately obtain k where k: "pred ! u = int k" "k < length edges"
    using *(3) unfolding preds_ok_def by blast
  show ?case
  proof (intro exI conjI)
    show "length (ks @ [k]) = Suc j" "pwalk edges pred v (ks @ [k]) (csrc edges k)" using * k by auto
    show "csrc edges k < n" by (rule cedge_bounds(1) [OF ok k(2)])
    show "\<forall>k\<in>set (ks @ [k]). k < length edges" using * k by simp
    show "csrc edges k = ((\<lambda>x. fst (py_index edges (pred ! x))) ^^ Suc j) v"
      using *(5) k by (simp add: py_index_def)
    show "lev v \<le> lev (csrc edges k) + Suc j" using l1 [OF k(1)] *(6) by simp
  qed
qed

text \<open>Following a closed chain, the loop stops at its first return to \<open>x\<close>.\<close>

lemma collect_cycle_closed:
  assumes "pwalk edges pred v ks x" "ks \<noteq> []" "length cyc + length ks \<le> n" "\<forall>k\<in>set ks. k < length edges"
  shows "\<exists>ls. collect_cycle n edges pred x v cyc = cyc @ map int ls \<and> ls \<noteq> [] \<and> pwalk edges pred v ls x
           \<and> (\<forall>k\<in>set ls. k < length edges)"
  using assms
proof (induction ks arbitrary: v cyc)
  case (Cons k ks)
  then have k: "pred ! v = int k" and w: "pwalk edges pred (csrc edges k) ks x" by simp_all
  have step: "collect_cycle n edges pred x v cyc =
      (if csrc edges k = x then cyc @ [int k] else collect_cycle n edges pred x (csrc edges k) (cyc @ [int k]))"
    using k Cons.prems(3) by (subst collect_cycle.simps) (simp add: Let_def py_index_def)
  show ?case
  proof (cases "csrc edges k = x")
    case True
    then show ?thesis using k Cons.prems(4) unfolding step by (intro exI [of _ "[k]"]) simp
  next
    case False
    then have "ks \<noteq> []" using w by auto
    from Cons.IH [OF w this, of "cyc @ [int k]"] Cons.prems obtain ls
      where "collect_cycle n edges pred x (csrc edges k) (cyc @ [int k]) = (cyc @ [int k]) @ map int ls"
        "ls \<noteq> []" "pwalk edges pred (csrc edges k) ls x" "\<forall>k\<in>set ls. k < length edges" by fastforce
    then show ?thesis using False k Cons.prems(4) unfolding step by (intro exI [of _ "k # ls"]) simp
  qed
qed simp

lemma pwalk_backwalk:
  assumes "cedges_ok n edges" "preds_ok n edges d pred" "v < n"
  shows "pwalk edges pred v ks u \<Longrightarrow> backwalk edges v ks u"
  using assms(3)
proof (induction ks arbitrary: v)
  case (Cons k ks)
  then have "pred ! v = int k" by simp
  from preds_okD [OF assms(2) Cons.prems(2) this] have "k < length edges" "cdst edges k = v" by blast+
  then show ?case using Cons cedge_bounds [OF assms(1)] by simp
qed simp

lemma shortest_start:
  "shortest n edges source =
     (let (d, pred, x) = relax_rounds edges (n + 1)
            (case source of None \<Rightarrow> replicate n (Some 0) | Some s \<Rightarrow> (replicate n None)[s := Some 0], replicate n (-1), -1)
      in if x < 0 then Inr d
         else (let x = ((\<lambda>x. fst (py_index edges (pred ! x))) ^^ n) (nat x) in Inl (collect_cycle n edges pred x x [])))"
  unfolding shortest_def Let_def by (rule refl)

theorem shortest_cycle:
  assumes ok: "cedges_ok n edges" and res: "shortest n edges source = Inl cyc"
  shows "\<exists>ks x. cyc = map int ks \<and> ks \<noteq> [] \<and> backwalk edges x ks x \<and> weight edges ks < - 1 / 2
           \<and> (\<forall>k\<in>set ks. k < length edges)"
proof -
  define d0 where "d0 = (case source of None \<Rightarrow> replicate n (Some 0) | Some s \<Rightarrow> (replicate n (None :: rat option))[s := Some 0])"
  have "length d0 = n" by (simp add: d0_def split: option.split)
  note init = pass_inv_init [OF this, of edges]
  obtain d pred x where s: "relax_rounds edges (n + 1) (d0, replicate n (-1), -1) = (d, pred, x)"
    by (metis prod_cases3)
  from relax_rounds_inv [OF ok init _ s] obtain lev q
    where inv: "pass_inv n edges q (length edges) (d, pred, x) lev" and q: "0 \<le> x \<Longrightarrow> Suc q = n + 1" by auto
  let ?f = "\<lambda>x. fst (py_index edges (pred ! x))"
  let ?y = "(?f ^^ n) (nat x)"
  from res have x: "0 \<le> x" and cyc: "cyc = collect_cycle n edges pred ?y ?y []"
    unfolding shortest_start d0_def [symmetric] s by (auto simp: Let_def split: if_splits)
  have pr: "preds_ok n edges d pred" and cy: "cycles_negative n edges pred"
    and xn: "nat x < n" and lx: "lev (nat x) = n + 1"
    using inv x q by (auto simp: pass_inv_def)
  have chain: "\<exists>ks u. length ks = j \<and> pwalk edges pred (nat x) ks u \<and> u < n \<and> (\<forall>k\<in>set ks. k < length edges)
      \<and> u = (?f ^^ j) (nat x) \<and> lev (nat x) \<le> lev u + j" if "j \<le> n + 1" for j
    by (rule pred_chain [OF ok inv xn]) (use that lx in simp)
  \<comment> \<open>the n + 1 nodes of the chain repeat\<close>
  have lt: "(?f ^^ j) (nat x) < n" if "j \<le> n" for j using chain [of j] that by auto
  have "\<not> inj_on (\<lambda>j. (?f ^^ j) (nat x)) {..n}"
  proof
    assume "inj_on (\<lambda>j. (?f ^^ j) (nat x)) {..n}"
    then have "card {..n} \<le> card {..<n}" by (rule card_inj_on_le) (use lt in auto)
    then show False by simp
  qed
  then obtain i j where ij: "i < j" "j \<le> n" "(?f ^^ i) (nat x) = (?f ^^ j) (nat x)"
    unfolding inj_on_def by (metis atMost_iff linorder_neqE_nat)
  have "(?f ^^ (n - j + i)) (nat x) = (?f ^^ (n - j + j)) (nat x)"
    using ij(3) by (simp only: funpow_add o_apply)
  then have y': "(?f ^^ (n - (j - i))) (nat x) = ?y"
    using ij(1,2) by (simp add: algebra_simps)
  let ?p = "j - i"
  have p: "0 < ?p" "?p \<le> n" using ij by auto
  have ret: "(?f ^^ ?p) ?y = ?y"
    using funpow_add [of ?p "n - ?p" ?f, THEN fun_cong, of "nat x"] p unfolding o_apply y' by simp
  obtain ks u where ks: "length ks = ?p" "pwalk edges pred ?y ks ?y" "\<forall>k\<in>set ks. k < length edges"
  proof -
    have "n - ?p \<le> n + 1" by simp
    from chain [OF this] have "lev (nat x) \<le> lev ((?f ^^ (n - ?p)) (nat x)) + (n - ?p)" by blast
    then have ly: "?p \<le> lev ((?f ^^ (n - ?p)) (nat x))" using lx p by linarith
    have "\<exists>ks u. length ks = ?p \<and> pwalk edges pred ((?f ^^ (n - ?p)) (nat x)) ks u \<and> u < n \<and> (\<forall>k\<in>set ks. k < length edges)
      \<and> u = (?f ^^ ?p) ((?f ^^ (n - ?p)) (nat x)) \<and> lev ((?f ^^ (n - ?p)) (nat x)) \<le> lev u + ?p"
      by (rule pred_chain [OF ok inv lt ly]) simp
    then show thesis using that ret unfolding y' by auto
  qed
  have "ks \<noteq> []" "length ([] :: int list) + length ks \<le> n" using ks(1) p by auto
  from collect_cycle_closed [OF ks(2) this ks(3)] obtain ls
    where ls: "cyc = map int ls" "ls \<noteq> []" "pwalk edges pred ?y ls ?y" "\<forall>k\<in>set ls. k < length edges"
    unfolding cyc by auto
  have yn: "?y < n" by (rule lt) simp
  show ?thesis
    using ls cy yn pwalk_backwalk [OF ok pr yn ls(3)] unfolding cycles_negative_def
    by (intro exI [of _ ls] exI [of _ ?y]) auto
qed

section \<open>The distances\<close>

definition bounded_below :: "nat \<Rightarrow> (nat \<Rightarrow> rat) \<Rightarrow> rat option list \<Rightarrow> bool" where
  "bounded_below n \<phi> d \<longleftrightarrow> length d = n \<and> (\<forall>v<n. \<forall>b. d ! v = Some b \<longrightarrow> \<phi> v \<le> b)"

lemma relax_below:
  assumes "feasible 0 edges \<phi>" "cedges_ok n edges" "i < length edges" "bounded_below n \<phi> (fst s)"
  shows "bounded_below n \<phi> (fst (relax (i, edges ! i) s))"
proof -
  obtain d pred x where s: "s = (d, pred, x)" by (cases s) auto
  note uv = cedge_bounds [OF assms(2,3)]
  have "\<phi> (cdst edges i) \<le> a + cw edges i" if "d ! csrc edges i = Some a" for a
  proof -
    have "\<phi> (csrc edges i) \<le> a" using assms(4) uv that by (simp add: bounded_below_def s)
    then show ?thesis using feasible_edge [OF assms(1,3)] by linarith
  qed
  then show ?thesis using assms(4) uv unfolding s relax_edge
    by (auto simp: bounded_below_def nth_list_update split: option.splits)
qed

lemma relax_pass_below:
  assumes "feasible 0 edges \<phi>" "cedges_ok n edges" "bounded_below n \<phi> d"
  shows "bounded_below n \<phi> (fst (relax_pass edges (d, pred)))"
  unfolding relax_pass_def fst_conv snd_conv
  by (rule fold_enumerate_inv [where P = "\<lambda>i s. bounded_below n \<phi> (fst s)"])
     (use assms relax_below in auto)

lemma relax_rounds_below:
  "feasible 0 edges \<phi> \<Longrightarrow> cedges_ok n edges \<Longrightarrow> bounded_below n \<phi> (fst s) \<Longrightarrow> bounded_below n \<phi> (fst (relax_rounds edges m s))"
proof (induction edges m s rule: relax_rounds.induct)
  case (2 edges r d pred x)
  then show ?case using relax_pass_below [of edges \<phi> n d pred] by (auto simp: Let_def)
qed simp

text \<open>Every constraint is met, and no distance is below what the constraints allow.\<close>

theorem shortest_distances:
  assumes ok: "cedges_ok n edges" and res: "shortest n edges source = Inr d"
  shows "length d = n" and "\<And>k. k < length edges \<Longrightarrow> met d (edges ! k)"
    and "\<And>\<phi> v b. feasible 0 edges \<phi> \<Longrightarrow> (case source of None \<Rightarrow> \<forall>v<n. \<phi> v \<le> 0 | Some s \<Rightarrow> \<phi> s \<le> 0)
      \<Longrightarrow> v < n \<Longrightarrow> d ! v = Some b \<Longrightarrow> \<phi> v \<le> b"
proof -
  define d0 where "d0 = (case source of None \<Rightarrow> replicate n (Some 0) | Some s \<Rightarrow> (replicate n (None :: rat option))[s := Some 0])"
  have len: "length d0 = n" by (simp add: d0_def split: option.split)
  note init = pass_inv_init [OF this, of edges]
  obtain d' pred x where s: "relax_rounds edges (n + 1) (d0, replicate n (-1), -1) = (d', pred, x)"
    by (metis prod_cases3)
  from res have x: "x < 0" and d': "d' = d"
    unfolding shortest_start d0_def [symmetric] s by (auto simp: Let_def split: if_splits)
  from relax_rounds_inv [OF ok init _ s] obtain lev q
    where inv: "pass_inv n edges q (length edges) (d, pred, x) lev" unfolding d' by auto
  then show "length d = n" by (auto simp: pass_inv_def preds_ok_def)
  show "met d (edges ! k)" if k: "k < length edges" for k
  proof (rule ccontr)
    assume "\<not> met d (edges ! k)"
    then have "Suc q \<le> lev (csrc edges k)" and "lev (csrc edges k) \<le> q"
      using inv k x cedge_bounds(1) [OF ok k] by (auto simp: pass_inv_def)
    then show False by simp
  qed
  show "\<phi> v \<le> b" if f: "feasible 0 edges \<phi>" and z: "case source of None \<Rightarrow> \<forall>v<n. \<phi> v \<le> 0 | Some s \<Rightarrow> \<phi> s \<le> 0"
      and v: "v < n" "d ! v = Some b" for \<phi> v b
  proof -
    have "bounded_below n \<phi> d0" using z len
      by (auto simp: bounded_below_def d0_def nth_update split: option.splits if_splits)
    then have "bounded_below n \<phi> (fst (relax_rounds edges (n + 1) (d0, replicate n (-1), -1)))"
      by (intro relax_rounds_below [OF f ok]) simp
    then show ?thesis using v unfolding s fst_conv d' by (simp add: bounded_below_def)
  qed
qed

text \<open>With the virtual source every distance is finite, and the distances are offsets.\<close>

lemma finite_kept: "\<forall>v<length d. d ! v \<noteq> None \<Longrightarrow> \<forall>v<length d. fst (relax (k, c) (d, pred, x)) ! v \<noteq> None"
  by (auto simp: relax_edge nth_update split: option.splits)

lemma relax_length [simp]: "length (fst (relax (k, c) s)) = length (fst s)"
  by (cases s) (auto simp: relax_edge split: option.splits)

lemma relax_rounds_finite:
  "\<forall>v<length (fst s). fst s ! v \<noteq> None \<Longrightarrow>
   length (fst (relax_rounds edges m s)) = length (fst s) \<and> (\<forall>v<length (fst s). fst (relax_rounds edges m s) ! v \<noteq> None)"
proof (induction edges m s rule: relax_rounds.induct)
  case (2 edges r d pred x)
  have "length (fst (relax_pass edges (d, pred))) = length d \<and> (\<forall>v<length d. fst (relax_pass edges (d, pred)) ! v \<noteq> None)"
    unfolding relax_pass_def fst_conv snd_conv
  proof (rule fold_enumerate_inv [where P = "\<lambda>i s. length (fst s) = length d \<and> (\<forall>v<length d. fst s ! v \<noteq> None)"])
    fix i and s :: bf
    assume "length (fst s) = length d \<and> (\<forall>v<length d. fst s ! v \<noteq> None)"
    then show "length (fst (relax (i, edges ! i) s)) = length d \<and> (\<forall>v<length d. fst (relax (i, edges ! i) s) ! v \<noteq> None)"
      using finite_kept [of "fst s" i "edges ! i" "fst (snd s)" "snd (snd s)"] by simp
  qed (use 2(2) in simp)
  then show ?case using 2 by (simp add: Let_def)
qed simp

theorem shortest_feasible:
  assumes "cedges_ok n edges" "shortest n edges None = Inr d"
  shows "feasible (1 / 2) edges (\<lambda>v. the (d ! v))"
proof -
  obtain d' pred x where s: "relax_rounds edges (n + 1) (replicate n (Some 0), replicate n (-1), -1) = (d', pred, x)"
    by (metis prod_cases3)
  from assms(2) have "d' = d" unfolding shortest_start option.case s by (auto simp: Let_def split: if_splits)
  with relax_rounds_finite [of "(replicate n (Some 0), replicate n (-1), -1)" edges "n + 1"] s
  have fin: "\<forall>v<n. d ! v \<noteq> None" by simp
  show ?thesis unfolding feasible_def
  proof (intro ballI, clarify)
    fix u v w assume e: "(u, v, w) \<in> set edges"
    then obtain k where k: "k < length edges" "edges ! k = (u, v, w)" by (metis in_set_conv_nth)
    have "u < n" "v < n" using assms(1) e by (auto simp: cedges_ok_def)
    then obtain a b where "d ! u = Some a" "d ! v = Some b" using fin by blast
    then show "the (d ! v) \<le> the (d ! u) + w + 1 / 2"
      using shortest_distances(2) [OF assms k(1)] k(2) by (simp add: met_def)
  qed
qed

lemma shortest_solvable:
  assumes "cedges_ok n edges" "feasible 0 edges \<delta>"
  shows "\<exists>d. shortest n edges source = Inr d"
proof (cases "shortest n edges source")
  case (Inl cyc)
  from shortest_cycle [OF assms(1) this] obtain ks x
    where "backwalk edges x ks x" "weight edges ks < - 1 / 2" by blast
  then show ?thesis using negative_cycle_infeasible [of edges x ks \<delta>] assms(2) by simp
qed blast

end
