(* ===== verification/Clock_Solve.thy ===== *)
theory Clock_Solve
  imports Bellman_Ford
begin

text \<open>
  The relaxation loop of \<open>cp_clock.solve\<close> and \<open>analyze_clocks\<close>: it ends within its rounds,
  the constraints it keeps can all be met by one choice of offsets, it gives up none when
  the recorded ones can be met, and the offset intervals it reports hold every choice.
\<close>

section \<open>Invariants\<close>

text \<open>A pair's needs are not empty and largest first.\<close>

definition pair_ok :: "nat \<Rightarrow> pair \<Rightarrow> bool" where
  "pair_ok n p \<longleftrightarrow> p_a p < n \<and> p_b p < n \<and> p_needs p \<noteq> [] \<and> sorted_wrt (\<ge>) (p_needs p)"

definition pairs_ok :: "nat \<Rightarrow> pair list \<Rightarrow> bool" where
  "pairs_ok n pairs \<longleftrightarrow> (\<forall>p\<in>set pairs. pair_ok n p)"

definition bounds_ok :: "nat \<Rightarrow> nat \<Rightarrow> rat option list \<Rightarrow> bool" where
  "bounds_ok n ref bounds \<longleftrightarrow> length bounds = n \<and> ref < n \<and> (\<forall>b. Some b \<in> set bounds \<longrightarrow> 0 \<le> b)"

text \<open>A need of a pair is kept, or its constraint is contradicted.\<close>

definition accounts :: "pair list \<Rightarrow> pair list \<Rightarrow> nat set \<Rightarrow> bool" where
  "accounts pairs0 pairs gone \<longleftrightarrow> (\<forall>p\<in>set pairs0. \<forall>x\<in>set (p_needs p).
     snd x \<in> gone \<or> (\<exists>q\<in>set pairs. p_a q = p_a p \<and> p_b q = p_b p \<and> x \<in> set (p_needs q)))"

lemma bound_edges_in:
  "(u, v, w) \<in> set (bound_edges ref bounds) \<longleftrightarrow>
     (\<exists>i<length bounds. bounds ! i = Some w \<and> i \<noteq> ref \<and> (u = ref \<and> v = i \<or> u = i \<and> v = ref))"
proof -
  have "(u, v, w) \<in> set (bound_edges ref bounds) \<longleftrightarrow>
      (\<exists>i. (i, Some w) \<in> set (List.enumerate 0 bounds) \<and> i \<noteq> ref \<and> (u = ref \<and> v = i \<or> u = i \<and> v = ref))"
    by (force simp: bound_edges_def split: option.splits if_splits)
  then show ?thesis by (auto simp: in_set_enumerate_eq)
qed

lemma system_ok:
  assumes "pairs_ok n pairs" "bounds_ok n ref bounds"
  shows "cedges_ok n (system ref bounds pairs)"
  using assms unfolding cedges_ok_def system_def pairs_ok_def pair_ok_def bounds_ok_def
  by (auto simp: bound_edges_in pair_edge_def)

lemma need_largest:
  assumes "pair_ok n p" "x \<in> set (p_needs p)"
  shows "fst x \<le> need p"
proof -
  obtain y ys where "p_needs p = y # ys" using assms by (cases "p_needs p") auto
  with assms have "x = y \<or> x \<le> y" by (auto simp: pair_ok_def)
  then have "fst x \<le> fst y" by (cases x; cases y) auto
  with \<open>p_needs p = y # ys\<close> show ?thesis by (simp add: need_def)
qed

lemma feasible_system:
  "feasible e (system ref bounds pairs) \<delta> \<longleftrightarrow>
     (\<forall>p\<in>set pairs. \<delta> (p_a p) + need p \<le> \<delta> (p_b p) + e) \<and>
     (\<forall>i<length bounds. i \<noteq> ref \<longrightarrow> (\<forall>b. bounds ! i = Some b \<longrightarrow> \<delta> i \<le> \<delta> ref + b + e \<and> \<delta> ref \<le> \<delta> i + b + e))"
  (is "?l \<longleftrightarrow> ?r")
proof
  assume l: ?l
  have "\<delta> (p_a p) + need p \<le> \<delta> (p_b p) + e" if "p \<in> set pairs" for p
    using l that by (force simp: feasible_def system_def pair_edge_def)
  moreover have "\<delta> i \<le> \<delta> ref + b + e \<and> \<delta> ref \<le> \<delta> i + b + e" if "i < length bounds" "i \<noteq> ref" "bounds ! i = Some b" for i b
  proof -
    have "(ref, i, b) \<in> set (system ref bounds pairs)" "(i, ref, b) \<in> set (system ref bounds pairs)"
      using that by (auto simp: system_def bound_edges_in)
    then show ?thesis using l by (fastforce simp: feasible_def)
  qed
  ultimately show ?r by blast
next
  assume r: ?r
  show ?l unfolding feasible_def
  proof (intro ballI, clarify)
    fix u v w assume "(u, v, w) \<in> set (system ref bounds pairs)"
    then consider p where "p \<in> set pairs" "(u, v, w) = pair_edge p"
      | i where "i < length bounds" "bounds ! i = Some w" "i \<noteq> ref" "u = ref \<and> v = i \<or> u = i \<and> v = ref"
      by (auto simp: system_def bound_edges_in)
    then show "\<delta> v \<le> \<delta> u + w + e"
    proof cases
      case 1
      then show ?thesis using r by (fastforce simp: pair_edge_def)
    next
      case 2
      then show ?thesis using r by blast
    qed
  qed
qed

section \<open>One relaxation\<close>

lemma cycle_has_pair:
  assumes "bounds_ok n ref bounds" "weight (system ref bounds pairs) ks < 0"
    "\<forall>k\<in>set ks. k < length (system ref bounds pairs)"
  shows "\<exists>k\<in>set ks. k < length pairs"
proof (rule ccontr)
  assume none: "\<not> ?thesis"
  have "0 \<le> cw (system ref bounds pairs) k" if k: "k \<in> set ks" for k
  proof -
    have "system ref bounds pairs ! k = bound_edges ref bounds ! (k - length pairs)"
      and "k - length pairs < length (bound_edges ref bounds)"
      using none k assms(3) by (fastforce simp: system_def nth_append)+
    then have "system ref bounds pairs ! k \<in> set (bound_edges ref bounds)" by simp
    then obtain i where "i < length bounds" "bounds ! i = Some (cw (system ref bounds pairs) k)"
      using bound_edges_in [of "csrc (system ref bounds pairs) k" "cdst (system ref bounds pairs) k"
        "cw (system ref bounds pairs) k" ref bounds] by auto
    then show ?thesis using assms(1) by (metis bounds_ok_def nth_mem)
  qed
  then have "0 \<le> weight (system ref bounds pairs) ks"
    unfolding weight_def by (intro sum_list_nonneg) auto
  with assms(2) show False by simp
qed

lemma needs_total_nth:
  "k < length pairs \<Longrightarrow> needs_total pairs = needs_total (take k pairs) + length (p_needs (pairs ! k)) + needs_total (drop (Suc k) pairs)"
  by (subst id_take_nth_drop [of k pairs]) (simp_all add: needs_total_def)

definition keep_needs :: "rat \<Rightarrow> pair \<Rightarrow> pair" where
  "keep_needs allowed p = p\<lparr>p_needs := filter (\<lambda>(need, cid). need \<le> allowed) (p_needs p)\<rparr>"

definition put_pair :: "nat \<Rightarrow> pair \<Rightarrow> pair list \<Rightarrow> pair list" where
  "put_pair k q pairs = (if p_needs q = [] then take k pairs @ drop (k + 1) pairs else pairs[k := q])"

lemma relax_weakest_shape:
  assumes "on \<noteq> []" "\<forall>k\<in>set on. k < length pairs" "sum_list (map (\<lambda>k. snd (snd (py_index edges k))) cyc) < 0"
  shows "\<exists>k allowed gone relaxed'. k < length pairs \<and> allowed < need (pairs ! k)
     \<and> gone = snd ` {x \<in> set (p_needs (pairs ! k)). allowed < fst x}
     \<and> relax_weakest keys edges cyc on (pairs, f, c, relaxed) = (put_pair k (keep_needs allowed (pairs ! k)) pairs, f, c \<union> gone, relaxed')"
proof -
  define k where "k = the (min_key (\<lambda>k. (p_strength (pairs ! k), - need (pairs ! k))) on)"
  define allowed where "allowed = need (pairs ! k) - - sum_list (map (\<lambda>k. snd (snd (py_index edges k))) cyc)"
  have "\<exists>m. min_key (\<lambda>k. (p_strength (pairs ! k), - need (pairs ! k))) on = Some m"
    using assms(1) by (metis min_key_None option.exhaust)
  then have "k \<in> set on" using min_key_in unfolding k_def by fastforce
  then have "k < length pairs" using assms(2) by blast
  moreover have "allowed < need (pairs ! k)" using assms(3) by (simp add: allowed_def)
  moreover have "\<exists>relaxed'. relax_weakest keys edges cyc on (pairs, f, c, relaxed) =
      (put_pair k (keep_needs allowed (pairs ! k)) pairs, f,
       c \<union> snd ` {x \<in> set (p_needs (pairs ! k)). allowed < fst x}, relaxed')"
    unfolding relax_weakest_def Let_def prod.case k_def [symmetric] allowed_def [symmetric]
    by (simp add: put_pair_def keep_needs_def case_prod_unfold cong: if_cong)
  ultimately show ?thesis by blast
qed

lemma others_kept:
  assumes "j < length pairs" "j \<noteq> k"
  shows "pairs ! j \<in> set (put_pair k q pairs)"
proof -
  have "pairs ! j \<in> set (take k pairs @ drop (k + 1) pairs)"
  proof (cases "j < k")
    case True
    then have "take k pairs ! j = pairs ! j" "j < length (take k pairs)" using assms by simp_all
    then have "pairs ! j \<in> set (take k pairs)" by (metis nth_mem)
    then show ?thesis by simp
  next
    case False
    then have "drop (k + 1) pairs ! (j - (k + 1)) = pairs ! j" "j - (k + 1) < length (drop (k + 1) pairs)"
      using assms by simp_all
    then have "pairs ! j \<in> set (drop (k + 1) pairs)" by (metis nth_mem)
    then show ?thesis by simp
  qed
  moreover have "pairs ! j \<in> set (pairs[k := q])"
    using assms nth_mem [of j "pairs[k := q]"] by simp
  ultimately show ?thesis by (simp add: put_pair_def)
qed

lemma put_pair_facts:
  assumes k: "k < length pairs" and ok: "pairs_ok n pairs" and less: "allowed < need (pairs ! k)"
    and acc: "accounts pairs0 pairs c"
  defines "q \<equiv> keep_needs allowed (pairs ! k)"
    and "gone \<equiv> snd ` {x \<in> set (p_needs (pairs ! k)). allowed < fst x}"
  shows "pairs_ok n (put_pair k q pairs)" "needs_total (put_pair k q pairs) < needs_total pairs"
    "accounts pairs0 (put_pair k q pairs) (c \<union> gone)"
proof -
  let ?p = "pairs ! k"
  have p: "pair_ok n ?p" using ok k by (simp add: pairs_ok_def)
  have "hd (p_needs ?p) \<in> set (p_needs ?p)" using p by (simp add: pair_ok_def)
  moreover have "allowed < fst (hd (p_needs ?p))" using less by (simp add: need_def)
  ultimately have "length (filter (\<lambda>(need, cid). need \<le> allowed) (p_needs ?p)) < length (p_needs ?p)"
    by (intro length_filter_less [of "hd (p_needs ?p)"]) (auto simp: case_prod_unfold)
  then have shorter: "length (p_needs q) < length (p_needs ?p)" by (simp add: q_def keep_needs_def)
  have q: "pair_ok n q \<or> p_needs q = []"
    using p sorted_wrt_filter [of "(\<ge>)" "p_needs ?p"] by (auto simp: q_def keep_needs_def pair_ok_def)
  have sub: "set (put_pair k q pairs) \<subseteq> insert q (set pairs)"
    by (auto simp: put_pair_def dest: in_set_takeD in_set_dropD set_update_subset_insert [THEN subsetD])
  show "pairs_ok n (put_pair k q pairs)" unfolding pairs_ok_def
  proof
    fix z assume z: "z \<in> set (put_pair k q pairs)"
    show "pair_ok n z"
    proof (cases "p_needs q = []")
      case True
      then have "z \<in> set pairs" using z by (auto simp: put_pair_def dest: in_set_takeD in_set_dropD)
      then show ?thesis using ok by (simp add: pairs_ok_def)
    next
      case False
      then show ?thesis using sub z q ok by (auto simp: pairs_ok_def)
    qed
  qed
  show "needs_total (put_pair k q pairs) < needs_total pairs"
  proof (cases "p_needs q = []")
    case True
    then show ?thesis using needs_total_nth [OF k] shorter by (simp add: put_pair_def needs_total_def)
  next
    case False
    then have "put_pair k q pairs = take k pairs @ q # drop (Suc k) pairs"
      using k by (simp add: put_pair_def upd_conv_take_nth_drop)
    then show ?thesis using needs_total_nth [OF k] shorter by (simp add: needs_total_def)
  qed
  show "accounts pairs0 (put_pair k q pairs) (c \<union> gone)" unfolding accounts_def
  proof (intro ballI)
    fix p0 x assume "p0 \<in> set pairs0" "x \<in> set (p_needs p0)"
    with acc consider "snd x \<in> c" | r where "r \<in> set pairs" "p_a r = p_a p0" "p_b r = p_b p0" "x \<in> set (p_needs r)"
      unfolding accounts_def by blast
    then show "snd x \<in> c \<union> gone \<or> (\<exists>q'\<in>set (put_pair k q pairs). p_a q' = p_a p0 \<and> p_b q' = p_b p0 \<and> x \<in> set (p_needs q'))"
    proof cases
      case 2
      then obtain j where j: "j < length pairs" "pairs ! j = r" by (metis in_set_conv_nth)
      show ?thesis
      proof (cases "j = k")
        case False
        then have "r \<in> set (put_pair k q pairs)" using others_kept [of j pairs k q] j by simp
        then show ?thesis using 2 by blast
      next
        case True
        show ?thesis
        proof (cases "allowed < fst x")
          case True
          then have "snd x \<in> gone" using 2 j \<open>j = k\<close> by (auto simp: gone_def)
          then show ?thesis by blast
        next
          case False
          then have "x \<in> set (p_needs q)" using 2 j True by (auto simp: q_def keep_needs_def case_prod_unfold)
          moreover from this have "q \<in> set (put_pair k q pairs)" using k by (auto simp: put_pair_def set_update_memI)
          moreover have "p_a q = p_a r" "p_b q = p_b r" using j True by (simp_all add: q_def keep_needs_def)
          ultimately show ?thesis using 2 by metis
        qed
      qed
    qed blast
  qed
qed

section \<open>The loop\<close>

text \<open>
  With a round for every need and one more, the loop ends because the system is solvable:
  every other round takes a need away.
\<close>

lemma solve_rounds_spec:
  assumes "pairs_ok (length keys) pairs" "bounds_ok (length keys) ref bounds" "needs_total pairs < r"
    "accounts pairs0 pairs c" "solve_rounds r keys bounds ref (pairs, f, c, relaxed) = (pairs', f', c', relaxed')"
  shows "pairs_ok (length keys) pairs' \<and> accounts pairs0 pairs' c'
           \<and> (\<exists>d. shortest (length keys) (system ref bounds pairs') None = Inr d)"
  using assms
proof (induction r keys bounds ref "(pairs, f, c, relaxed)" arbitrary: pairs f c relaxed rule: solve_rounds.induct)
  case (2 r keys bounds ref pairs f c relaxed)
  let ?edges = "system ref bounds pairs"
  have ok: "cedges_ok (length keys) ?edges" using system_ok 2(2,3) by blast
  show ?case
  proof (cases "shortest (length keys) ?edges None")
    case (Inr d)
    then show ?thesis using 2(2-6) by auto
  next
    case (Inl cyc)
    from shortest_cycle [OF ok Inl] obtain ks x
      where ks: "cyc = map int ks" "weight ?edges ks < - 1 / 2" "\<forall>k\<in>set ks. k < length ?edges" by blast
    let ?on = "map nat (filter (\<lambda>k. k < int (length pairs)) cyc)"
    have "weight ?edges ks < 0" using ks(2) by simp
    with cycle_has_pair [OF 2(3) _ ks(3)] have on: "?on \<noteq> []" "\<forall>k\<in>set ?on. k < length pairs"
      by (auto simp: ks(1) filter_empty_conv)
    have "map (\<lambda>k. snd (snd (py_index ?edges k))) cyc = map (cw ?edges) ks"
      by (simp add: ks(1) py_index_def)
    then have "sum_list (map (\<lambda>k. snd (snd (py_index ?edges k))) cyc) < 0"
      using \<open>weight ?edges ks < 0\<close> by (simp add: weight_def)
    from relax_weakest_shape [OF on this, of keys False c relaxed] obtain k allowed gone relaxed1 where k: "k < length pairs"
      "allowed < need (pairs ! k)" "gone = snd ` {x \<in> set (p_needs (pairs ! k)). allowed < fst x}"
      and step: "relax_weakest keys ?edges cyc ?on (pairs, False, c, relaxed) =
        (put_pair k (keep_needs allowed (pairs ! k)) pairs, False, c \<union> gone, relaxed1)" by blast
    note facts = put_pair_facts [OF k(1) 2(2) k(2) 2(5), folded k(3)]
    have eq: "solve_rounds (Suc r) keys bounds ref (pairs, f, c, relaxed) =
        solve_rounds r keys bounds ref (put_pair k (keep_needs allowed (pairs ! k)) pairs, False, c \<union> gone, relaxed1)"
      unfolding solve_rounds.simps Let_def Inl sum.case step using on(1) by simp
    have "needs_total (put_pair k (keep_needs allowed (pairs ! k)) pairs) < r"
      using facts(2) 2(4) by linarith
    from 2(1) [OF refl Inl refl on(1) step facts(1) 2(3) this facts(3)] 2(6) eq
    show ?thesis by simp
  qed
qed simp

section \<open>solve\<close>

lemma solve_unfold:
  assumes "filter (\<lambda>p. p_needs p \<noteq> []) pairs0 = pairs"
    "solve_rounds (needs_total pairs + 1) keys bounds (ref_index keys) (pairs, True, {}, []) = (pairs', f, c, relaxed)"
  shows "c_contradicted (solve keys bounds pairs0) = c"
    and "shortest (length keys) (system (ref_index keys) bounds pairs') (Some (ref_index keys)) = Inr hi \<Longrightarrow>
         shortest (length keys) (map (\<lambda>(u, v, w). (v, u, w)) (system (ref_index keys) bounds pairs')) (Some (ref_index keys)) = Inr lo \<Longrightarrow>
         c_hi (solve keys bounds pairs0) = hi \<and> c_lo (solve keys bounds pairs0) = map (map_option uminus) lo"
  using assms by (simp_all add: solve_def Let_def split: sum.split)

lemma accounts_refl: "accounts pairs0 (filter (\<lambda>p. p_needs p \<noteq> []) pairs0) {}"
  by (force simp: accounts_def)

lemma ref_index_less: "keys \<noteq> [] \<Longrightarrow> ref_index keys < length keys"
proof -
  assume "keys \<noteq> []"
  have "length (takeWhile (\<lambda>k. k \<noteq> REFERENCE) keys) < length keys" if "REFERENCE \<in> set keys"
    using that by (induction keys) auto
  with \<open>keys \<noteq> []\<close> show ?thesis by (simp add: ref_index_def)
qed

lemma feasible_converse:
  "feasible e edges \<delta> \<longleftrightarrow> feasible e (map (\<lambda>(u, v, w). (v, u, w)) edges) (\<lambda>v. - \<delta> v)"
  by (force simp: feasible_def)

lemma cedges_ok_converse: "cedges_ok n edges \<Longrightarrow> cedges_ok n (map (\<lambda>(u, v, w). (v, u, w)) edges)"
  by (auto simp: cedges_ok_def)

definition pairs_wf :: "nat \<Rightarrow> pair list \<Rightarrow> bool" where
  "pairs_wf n pairs0 \<longleftrightarrow> (\<forall>p\<in>set pairs0. p_a p < n \<and> p_b p < n \<and> sorted_wrt (\<ge>) (p_needs p))"

text \<open>Offsets within the bounds that meet every need of the pairs whose constraint is not in \<open>gone\<close>.\<close>

definition offsets :: "rat \<Rightarrow> rat option list \<Rightarrow> nat \<Rightarrow> pair list \<Rightarrow> nat set \<Rightarrow> (nat \<Rightarrow> rat) \<Rightarrow> bool" where
  "offsets e bounds ref pairs gone \<delta> \<longleftrightarrow>
     (\<forall>p\<in>set pairs. \<forall>x\<in>set (p_needs p). snd x \<notin> gone \<longrightarrow> \<delta> (p_a p) + fst x \<le> \<delta> (p_b p) + e) \<and>
     (\<forall>i<length bounds. i \<noteq> ref \<longrightarrow> (\<forall>b. bounds ! i = Some b \<longrightarrow> \<bar>\<delta> i - \<delta> ref\<bar> \<le> b + e))"

lemma offsets_system:
  assumes "pairs_ok n pairs" "accounts pairs0 pairs gone" "feasible e (system ref bounds pairs) \<delta>"
  shows "offsets e bounds ref pairs0 gone \<delta>"
proof -
  note f = assms(3) [unfolded feasible_system]
  have "\<delta> (p_a p) + fst x \<le> \<delta> (p_b p) + e" if x: "p \<in> set pairs0" "x \<in> set (p_needs p)" "snd x \<notin> gone" for p x
  proof -
    from assms(2) x obtain q where q: "q \<in> set pairs" "p_a q = p_a p" "p_b q = p_b p" "x \<in> set (p_needs q)"
      unfolding accounts_def by blast
    have "fst x \<le> need q" using need_largest [of n q x] assms(1) q by (simp add: pairs_ok_def)
    moreover have "\<delta> (p_a q) + need q \<le> \<delta> (p_b q) + e" using f q(1) by blast
    ultimately show ?thesis using q(2,3) by simp
  qed
  moreover have "\<bar>\<delta> i - \<delta> ref\<bar> \<le> b + e" if "i < length bounds" "i \<noteq> ref" "bounds ! i = Some b" for i b
  proof -
    from f that have "\<delta> i \<le> \<delta> ref + b + e" "\<delta> ref \<le> \<delta> i + b + e" by blast+
    then show ?thesis by (simp add: abs_le_iff)
  qed
  ultimately show ?thesis by (simp add: offsets_def)
qed

lemma system_offsets:
  assumes "pairs = filter (\<lambda>p. p_needs p \<noteq> []) pairs0" "offsets 0 bounds ref pairs0 {} \<delta>"
  shows "feasible 0 (system ref bounds pairs) \<delta>"
  unfolding feasible_system
proof (intro conjI ballI allI impI)
  show "\<delta> (p_a p) + need p \<le> \<delta> (p_b p) + 0" if "p \<in> set pairs" for p
  proof -
    have "hd (p_needs p) \<in> set (p_needs p)" "p \<in> set pairs0" using that by (auto simp: assms(1))
    then show ?thesis using assms(2) by (simp add: offsets_def need_def)
  qed
qed (use assms(2) in \<open>fastforce simp: offsets_def abs_le_iff\<close>)+

lemma solve_invariant:
  assumes "keys \<noteq> []" "bounds_ok (length keys) (ref_index keys) bounds" "pairs_wf (length keys) pairs0"
  obtains pairs f c relaxed where
    "solve_rounds (needs_total (filter (\<lambda>p. p_needs p \<noteq> []) pairs0) + 1) keys bounds (ref_index keys)
       (filter (\<lambda>p. p_needs p \<noteq> []) pairs0, True, {}, []) = (pairs, f, c, relaxed)"
    "pairs_ok (length keys) pairs" "accounts pairs0 pairs c"
    "\<exists>d. shortest (length keys) (system (ref_index keys) bounds pairs) None = Inr d"
proof -
  obtain pairs f c relaxed where s: "solve_rounds (needs_total (filter (\<lambda>p. p_needs p \<noteq> []) pairs0) + 1) keys bounds (ref_index keys)
       (filter (\<lambda>p. p_needs p \<noteq> []) pairs0, True, {}, []) = (pairs, f, c, relaxed)" by (metis prod_cases4)
  have "pairs_ok (length keys) (filter (\<lambda>p. p_needs p \<noteq> []) pairs0)"
    using assms(3) by (auto simp: pairs_wf_def pairs_ok_def pair_ok_def)
  from solve_rounds_spec [OF this assms(2) _ accounts_refl s] s that show thesis by simp
qed

lemma solve_satisfiable:
  assumes "keys \<noteq> []" "bounds_ok (length keys) (ref_index keys) bounds" "pairs_wf (length keys) pairs0"
  shows "\<exists>\<delta>. offsets (1 / 2) bounds (ref_index keys) pairs0 (c_contradicted (solve keys bounds pairs0)) \<delta>"
proof -
  obtain pairs f c relaxed d where s: "solve_rounds (needs_total (filter (\<lambda>p. p_needs p \<noteq> []) pairs0) + 1) keys bounds
       (ref_index keys) (filter (\<lambda>p. p_needs p \<noteq> []) pairs0, True, {}, []) = (pairs, f, c, relaxed)"
    and ok: "pairs_ok (length keys) pairs" and acc: "accounts pairs0 pairs c"
    and d: "shortest (length keys) (system (ref_index keys) bounds pairs) None = Inr d"
    using solve_invariant [OF assms] by metis
  have "feasible (1 / 2) (system (ref_index keys) bounds pairs) (\<lambda>v. the (d ! v))"
    by (rule shortest_feasible [OF system_ok [OF ok assms(2)] d])
  from offsets_system [OF ok acc this] show ?thesis
    unfolding solve_unfold(1) [OF refl s] by blast
qed

lemma solve_keeps_solvable:
  assumes "keys \<noteq> []" "bounds_ok (length keys) (ref_index keys) bounds" "pairs_wf (length keys) pairs0"
    and \<delta>: "offsets 0 bounds (ref_index keys) pairs0 {} \<delta>"
  shows "c_contradicted (solve keys bounds pairs0) = {}"
    and "v < length keys \<Longrightarrow> c_hi (solve keys bounds pairs0) ! v = Some b \<Longrightarrow> \<delta> v - \<delta> (ref_index keys) \<le> b"
    and "v < length keys \<Longrightarrow> c_lo (solve keys bounds pairs0) ! v = Some b \<Longrightarrow> b \<le> \<delta> v - \<delta> (ref_index keys)"
proof -
  let ?ref = "ref_index keys" and ?n = "length keys"
  define pairs where "pairs = filter (\<lambda>p. p_needs p \<noteq> []) pairs0"
  let ?es = "system ?ref bounds pairs"
  let ?rs = "map (\<lambda>(u, v, w). (v, u, w)) ?es"
  have "pairs_ok ?n pairs" using assms(3) by (auto simp: pairs_def pairs_wf_def pairs_ok_def pair_ok_def)
  then have ok: "cedges_ok ?n ?es" and okr: "cedges_ok ?n ?rs"
    using system_ok assms(2) cedges_ok_converse by blast+
  have f: "feasible 0 ?es \<delta>" by (rule system_offsets [OF pairs_def \<delta>])
  then have f1: "feasible 0 ?es (\<lambda>v. \<delta> v - \<delta> ?ref)" by (force simp: feasible_def)
  have f2: "feasible 0 ?rs (\<lambda>v. \<delta> ?ref - \<delta> v)"
    using f1 [unfolded feasible_converse [of 0 ?es]] by simp
  obtain d where d: "shortest ?n ?es None = Inr d" using shortest_solvable [OF ok f] by blast
  have s: "solve_rounds (needs_total pairs + 1) keys bounds ?ref (pairs, True, {}, []) = (pairs, True, {}, [])"
    by (simp add: d)
  note u = solve_unfold [OF pairs_def [symmetric] s]
  show "c_contradicted (solve keys bounds pairs0) = {}" by (rule u(1))
  obtain hi where hi: "shortest ?n ?es (Some ?ref) = Inr hi" using shortest_solvable [OF ok f] by blast
  obtain lo where lo: "shortest ?n ?rs (Some ?ref) = Inr lo" using shortest_solvable [OF okr f2] by blast
  note hl = u(2) [OF hi lo]
  show "\<delta> v - \<delta> ?ref \<le> b" if "v < ?n" "c_hi (solve keys bounds pairs0) ! v = Some b"
    using shortest_distances(3) [OF ok hi f1 _ that(1)] that(2) hl by simp
  show "b \<le> \<delta> v - \<delta> ?ref" if v: "v < ?n" "c_lo (solve keys bounds pairs0) ! v = Some b"
  proof -
    have "length lo = ?n" by (rule shortest_distances(1) [OF okr lo])
    then have "lo ! v = Some (- b)" using v hl by auto
    from shortest_distances(3) [OF okr lo f2 _ v(1) this] show ?thesis by simp
  qed
qed

section \<open>The constraints of a graph\<close>

text \<open>
  The dictionary \<open>by_pair\<close> after some constraints: every pair is of its two domains and its
  needs are those of the constraints between them.
\<close>

definition need_set :: "(nat \<Rightarrow> nat) \<Rightarrow> int list \<Rightarrow> ccons set \<Rightarrow> nat \<Rightarrow> nat \<Rightarrow> (rat \<times> nat) set" where
  "need_set dm t cons a b = (\<lambda>(cid, u, v, s). (of_int (t ! u - t ! v), cid)) ` {(cid, u, v, s) \<in> cons. dm u = a \<and> dm v = b}"

lemma need_set_iff:
  "x \<in> need_set dm t cons a b \<longleftrightarrow> (\<exists>cid u v s. (cid, u, v, s) \<in> cons \<and> dm u = a \<and> dm v = b \<and> x = (of_int (t ! u - t ! v), cid))"
  by (force simp: need_set_def)

lemma need_set_insert:
  "need_set dm t (insert (cid, u, v, s) cons) a b =
     (if dm u = a \<and> dm v = b then insert (of_int (t ! u - t ! v), cid) (need_set dm t cons a b) else need_set dm t cons a b)"
  by (rule set_eqI) (auto simp: need_set_iff)

definition entry_ok :: "(nat \<Rightarrow> nat) \<Rightarrow> int list \<Rightarrow> ccons set \<Rightarrow> nat \<Rightarrow> nat \<Rightarrow> pair option \<Rightarrow> bool" where
  "entry_ok dm t cons a b e = (case e of
        None \<Rightarrow> a = b \<or> need_set dm t cons a b = {}
      | Some p \<Rightarrow> a \<noteq> b \<and> p_a p = a \<and> p_b p = b \<and> p_needs p \<noteq> [] \<and> set (p_needs p) = need_set dm t cons a b)"

lemma entry_ok_cong:
  "a = b \<or> need_set dm t cons' a b = need_set dm t cons a b \<Longrightarrow> entry_ok dm t cons' a b e = entry_ok dm t cons a b e"
  by (auto simp: entry_ok_def split: option.split)

definition by_pair_ok :: "(nat \<Rightarrow> nat) \<Rightarrow> int list \<Rightarrow> ccons set \<Rightarrow> (nat \<times> nat, pair) dict \<Rightarrow> bool" where
  "by_pair_ok dm t cons d \<longleftrightarrow> dict_ok d \<and>
     (\<forall>a b. entry_ok dm t cons a b (map_of d (a, b)))"

lemma add_constraint_ok:
  assumes "by_pair_ok dm t cons d"
  shows "by_pair_ok dm t (insert c cons) (add_constraint dm t c d)"
proof -
  obtain cid u v s where c: "c = (cid, u, v, s)" by (cases c rule: prod_cases4)
  have entry: "entry_ok dm t cons a b (map_of d (a, b))" for a b
    using assms by (simp add: by_pair_ok_def)
  show ?thesis
  proof (cases "dm u = dm v")
    case True
    have eq: "add_constraint dm t c d = d" using True by (simp add: add_constraint_def c)
    have "a = b \<or> need_set dm t (insert c cons) a b = need_set dm t cons a b" for a b
      using True by (auto simp: c need_set_insert)
    note entry_ok_cong [OF this]
    then show ?thesis using assms entry unfolding eq by_pair_ok_def by simp
  next
    case False
    let ?k = "(dm u, dm v)"
    define p where "p = dict_get d ?k \<lparr>p_a = dm u, p_b = dm v, p_needs = [], p_strength = 1\<rparr>"
    define q where "q = p\<lparr>p_needs := p_needs p @ [(of_int (t ! u - t ! v), cid)], p_strength := min (p_strength p) s\<rparr>"
    have eq: "add_constraint dm t c d = AList.update ?k q d"
      using False by (simp add: add_constraint_def c Let_def p_def q_def)
    have "p_a p = dm u \<and> p_b p = dm v \<and> set (p_needs p) = need_set dm t cons (dm u) (dm v)"
      using entry [of "dm u" "dm v"] False by (auto simp: entry_ok_def p_def dict_get_def split: option.splits)
    then have q: "p_a q = dm u" "p_b q = dm v" "p_needs q \<noteq> []" "set (p_needs q) = need_set dm t (insert c cons) (dm u) (dm v)"
      by (auto simp: q_def c need_set_insert)
    have new: "entry_ok dm t (insert c cons) a b (map_of (AList.update ?k q d) (a, b))" for a b
    proof (cases "(a, b) = ?k")
      case True
      then show ?thesis using q False by (simp add: update_conv' entry_ok_def)
    next
      case other: False
      then have "need_set dm t (insert c cons) a b = need_set dm t cons a b" by (auto simp: c need_set_insert)
      moreover have "map_of (AList.update ?k q d) (a, b) = map_of d (a, b)" using other by (auto simp: update_conv')
      ultimately show ?thesis using entry [of a b] entry_ok_cong by metis
    qed
    moreover have "dict_ok (AList.update ?k q d)" using assms by (auto simp: by_pair_ok_def)
    ultimately show ?thesis unfolding eq by_pair_ok_def by blast
  qed
qed

lemma by_pair_fold: "by_pair_ok dm t cs d \<Longrightarrow> by_pair_ok dm t (cs \<union> set cons) (fold (add_constraint dm t) cons d)"
proof (induction cons arbitrary: cs d)
  case (Cons c cons)
  from Cons.IH [OF add_constraint_ok [OF Cons.prems]] show ?case by simp
qed simp

definition clock_pairs :: "(nat \<Rightarrow> nat) \<Rightarrow> int list \<Rightarrow> ccons list \<Rightarrow> pair list" where
  "clock_pairs dm t cons =
     map (\<lambda>(k, p). p\<lparr>p_needs := rev (sort (p_needs p))\<rparr>) (fold (add_constraint dm t) cons [])"

lemma clock_pairs_ok: "by_pair_ok dm t (set cons) (fold (add_constraint dm t) cons [])"
  using by_pair_fold [of dm t "{}" "[]" cons] by (simp add: by_pair_ok_def entry_ok_def need_set_def)

lemma by_pair_entry:
  assumes "by_pair_ok dm t cons d" "map_of d (a, b) = Some p"
  shows "a \<noteq> b" "p_a p = a" "p_b p = b" "p_needs p \<noteq> []" "set (p_needs p) = need_set dm t cons a b"
proof -
  from assms(1) have "entry_ok dm t cons a b (map_of d (a, b))" unfolding by_pair_ok_def by blast
  then show "a \<noteq> b" "p_a p = a" "p_b p = b" "p_needs p \<noteq> []" "set (p_needs p) = need_set dm t cons a b"
    unfolding assms(2) by (simp_all add: entry_ok_def)
qed

lemma clock_pairs_in:
  assumes "q \<in> set (clock_pairs dm t cons)"
  shows "set (p_needs q) = need_set dm t (set cons) (p_a q) (p_b q)"
    and "sorted_wrt (\<ge>) (p_needs q)" and "\<exists>cid u v s. (cid, u, v, s) \<in> set cons \<and> dm u = p_a q \<and> dm v = p_b q"
    and "p_a q \<noteq> p_b q"
proof -
  obtain a b p where p: "((a, b), p) \<in> set (fold (add_constraint dm t) cons [])"
    and q: "q = p\<lparr>p_needs := rev (sort (p_needs p))\<rparr>" using assms by (auto simp: clock_pairs_def)
  have "dict_ok (fold (add_constraint dm t) cons [])" using clock_pairs_ok by (simp add: by_pair_ok_def)
  then have "map_of (fold (add_constraint dm t) cons []) (a, b) = Some p" using p by (rule map_of_is_SomeI)
  note e = by_pair_entry [OF clock_pairs_ok this]
  show s: "set (p_needs q) = need_set dm t (set cons) (p_a q) (p_b q)" and "p_a q \<noteq> p_b q"
    using e by (simp_all add: q)
  show "sorted_wrt (\<ge>) (p_needs q)" unfolding q by (simp add: sorted_wrt_rev)
  have "need_set dm t (set cons) (p_a q) (p_b q) \<noteq> {}" using s e(4) by (auto simp: q)
  then show "\<exists>cid u v s. (cid, u, v, s) \<in> set cons \<and> dm u = p_a q \<and> dm v = p_b q"
    by (auto simp: need_set_def)
qed

lemma clock_pairs_cover:
  assumes "(cid, u, v, s) \<in> set cons" "dm u \<noteq> dm v"
  shows "\<exists>q\<in>set (clock_pairs dm t cons). p_a q = dm u \<and> p_b q = dm v \<and> (of_int (t ! u - t ! v), cid) \<in> set (p_needs q)"
proof -
  let ?d = "fold (add_constraint dm t) cons []"
  have N: "(of_int (t ! u - t ! v), cid) \<in> need_set dm t (set cons) (dm u) (dm v)"
    using assms(1) by (auto simp: need_set_iff)
  have "entry_ok dm t (set cons) (dm u) (dm v) (map_of ?d (dm u, dm v))"
    using clock_pairs_ok [of dm t cons] unfolding by_pair_ok_def by blast
  then obtain p where p: "map_of ?d (dm u, dm v) = Some p" using N assms(2) by (auto simp: entry_ok_def split: option.splits)
  note e = by_pair_entry [OF clock_pairs_ok p]
  let ?q = "p\<lparr>p_needs := rev (sort (p_needs p))\<rparr>"
  have "?q \<in> set (clock_pairs dm t cons)"
    using map_of_SomeD [OF p] unfolding clock_pairs_def by (auto intro!: image_eqI)
  moreover have "(of_int (t ! u - t ! v), cid) \<in> set (p_needs ?q)" using N e(5) by simp
  ultimately show ?thesis using e(2,3) by (intro bexI [of _ ?q]) simp_all
qed

definition constraints_wf :: "(nat \<Rightarrow> nat) \<Rightarrow> ccons list \<Rightarrow> domain_key list \<Rightarrow> rat option list \<Rightarrow> bool" where
  "constraints_wf dm cons keys bounds \<longleftrightarrow> keys \<noteq> [] \<and> length bounds = length keys \<and>
     (\<forall>b\<in>set bounds. case b of None \<Rightarrow> True | Some x \<Rightarrow> 0 \<le> x) \<and>
     (\<forall>(cid, u, v, s)\<in>set cons. dm u < length keys \<and> dm v < length keys)"

text \<open>Offsets within the bounds under which every constraint but the given ones holds, up to \<open>e\<close>.\<close>

definition consistent :: "rat \<Rightarrow> (nat \<Rightarrow> nat) \<Rightarrow> int list \<Rightarrow> ccons list \<Rightarrow> domain_key list \<Rightarrow> rat option list
    \<Rightarrow> nat set \<Rightarrow> (nat \<Rightarrow> rat) \<Rightarrow> bool" where
  "consistent e dm t cons keys bounds gone \<delta> \<longleftrightarrow> \<delta> (ref_index keys) = 0 \<and>
     (\<forall>(cid, u, v, s)\<in>set cons. dm u \<noteq> dm v \<longrightarrow> cid \<notin> gone \<longrightarrow>
        of_int (t ! u) + \<delta> (dm u) \<le> of_int (t ! v) + \<delta> (dm v) + e) \<and>
     (\<forall>i<length bounds. case bounds ! i of None \<Rightarrow> True | Some b \<Rightarrow> i = ref_index keys \<or> \<bar>\<delta> i\<bar> \<le> b + e)"

lemma constraints_wf_pairs:
  assumes "constraints_wf dm cons keys bounds"
  shows "keys \<noteq> []" "bounds_ok (length keys) (ref_index keys) bounds" "pairs_wf (length keys) (clock_pairs dm t cons)"
proof -
  show "keys \<noteq> []" using assms by (simp add: constraints_wf_def)
  then show "bounds_ok (length keys) (ref_index keys) bounds"
    using assms ref_index_less unfolding bounds_ok_def constraints_wf_def by fastforce
  show "pairs_wf (length keys) (clock_pairs dm t cons)" unfolding pairs_wf_def
  proof (intro ballI conjI)
    fix p assume p: "p \<in> set (clock_pairs dm t cons)"
    from clock_pairs_in(3) [OF p] assms show "p_a p < length keys" "p_b p < length keys"
      unfolding constraints_wf_def by fastforce+
    show "sorted_wrt (\<ge>) (p_needs p)" by (rule clock_pairs_in(2) [OF p])
  qed
qed

lemma analyze_clocks_solve: "analyze_clocks dm t cons keys bounds = solve keys bounds (clock_pairs dm t cons)"
  by (simp add: analyze_clocks_def clock_pairs_def)

lemma kept_constraints_consistent:
  assumes "constraints_wf dm cons keys bounds"
  shows "\<exists>\<delta>. consistent (1 / 2) dm t cons keys bounds (c_contradicted (analyze_clocks dm t cons keys bounds)) \<delta>"
proof -
  let ?ref = "ref_index keys"
  let ?gone = "c_contradicted (solve keys bounds (clock_pairs dm t cons))"
  from solve_satisfiable [OF constraints_wf_pairs [OF assms]] obtain \<delta>
    where d: "offsets (1 / 2) bounds ?ref (clock_pairs dm t cons) ?gone \<delta>" by blast
  have "consistent (1 / 2) dm t cons keys bounds ?gone (\<lambda>i. \<delta> i - \<delta> ?ref)"
    unfolding consistent_def
  proof (intro conjI ballI allI impI)
    show "case c of (cid, u, v, s) \<Rightarrow> dm u \<noteq> dm v \<longrightarrow> cid \<notin> ?gone \<longrightarrow>
        of_int (t ! u) + (\<delta> (dm u) - \<delta> ?ref) \<le> of_int (t ! v) + (\<delta> (dm v) - \<delta> ?ref) + 1 / 2"
      if c: "c \<in> set cons" for c
    proof (cases c rule: prod_cases4)
      case (fields cid u v s)
      have "of_int (t ! u) + \<delta> (dm u) \<le> of_int (t ! v) + \<delta> (dm v) + 1 / 2" if "dm u \<noteq> dm v" "cid \<notin> ?gone"
      proof -
        have "(cid, u, v, s) \<in> set cons" using c fields by simp
        from clock_pairs_cover [OF this that(1), of t] obtain q where q: "q \<in> set (clock_pairs dm t cons)"
          "p_a q = dm u" "p_b q = dm v" "(of_int (t ! u - t ! v), cid) \<in> set (p_needs q)" by blast
        have "\<delta> (p_a q) + fst (of_int (t ! u - t ! v) :: rat, cid) \<le> \<delta> (p_b q) + 1 / 2"
          using d q(1,4) that(2) unfolding offsets_def by fastforce
        then show ?thesis using q(2,3) by simp
      qed
      then show ?thesis by (auto simp: fields)
    qed
    show "case bounds ! i of None \<Rightarrow> True | Some b \<Rightarrow> i = ?ref \<or> \<bar>\<delta> i - \<delta> ?ref\<bar> \<le> b + 1 / 2" if "i < length bounds" for i
      using d that by (auto simp: offsets_def split: option.split)
  qed simp
  then show ?thesis unfolding analyze_clocks_solve by blast
qed

lemma consistent_offsets:
  assumes "consistent 0 dm t cons keys bounds {} \<delta>"
  shows "offsets 0 bounds (ref_index keys) (clock_pairs dm t cons) {} \<delta>"
  unfolding offsets_def
proof (intro conjI ballI allI impI)
  fix p x assume p: "p \<in> set (clock_pairs dm t cons)" and x: "x \<in> set (p_needs p)"
  from x obtain cid u v s where *: "x = (of_int (t ! u - t ! v), cid)" "(cid, u, v, s) \<in> set cons" "dm u = p_a p" "dm v = p_b p"
    unfolding clock_pairs_in(1) [OF p] need_set_iff by blast
  moreover have "dm u \<noteq> dm v" using clock_pairs_in(4) [OF p] * by simp
  ultimately have "of_int (t ! u) + \<delta> (dm u) \<le> of_int (t ! v) + \<delta> (dm v) + 0"
    using assms unfolding consistent_def by fastforce
  then show "\<delta> (p_a p) + fst x \<le> \<delta> (p_b p) + 0" using * by simp
next
  fix i b assume "i < length bounds" "i \<noteq> ref_index keys" "bounds ! i = Some b"
  then have "\<bar>\<delta> i\<bar> \<le> b" "\<delta> (ref_index keys) = 0" using assms by (auto simp: consistent_def split: option.splits)
  then show "\<bar>\<delta> i - \<delta> (ref_index keys)\<bar> \<le> b + 0" by simp
qed

section \<open>Properties\<close>

text \<open>
  C21. Whatever the recorded times, the dependencies that \<open>analyze_clocks\<close> does not rule out can
  all hold at once: there is one choice of clock offsets, within the domains' bounds (to half
  a nanosecond, the solver's tolerance) and zero for the reference, under which every kept
  dependency between two domains leads from an earlier to a later event. In particular the
  relaxation loop always ends, and it ends because the system is solvable.
\<close>

theorem clock_kept_consistent:
  assumes "constraints_wf dm cons keys bounds"
  shows "\<exists>\<delta>. consistent (1 / 2) dm t cons keys bounds (c_contradicted (analyze_clocks dm t cons keys bounds)) \<delta>"
  by (rule kept_constraints_consistent [OF assms])

text \<open>A host and an OpenCL device whose two dependencies contradict each other by 20 ns.\<close>

definition demo_keys :: "domain_key list" where
  "demo_keys = [HostDom ''0'', OpenclDom ''0'' 7]"

definition demo_bounds :: "rat option list" where
  "demo_bounds = [Some 0, None]"

definition demo_cons :: "ccons list" where
  "demo_cons = [(0, 0, 1, 1), (1, 2, 3, 0)]"

definition demo_dom :: "nat \<Rightarrow> nat" where
  "demo_dom v = (if v = 0 \<or> v = 3 then 0 else 1)"

lemma clock_kept_consistent_witness:
  "constraints_wf demo_dom demo_cons demo_keys demo_bounds \<and>
   c_contradicted (analyze_clocks demo_dom [100, 50, 90, 60] demo_cons demo_keys demo_bounds) = {1} \<and>
   (\<exists>\<delta>. consistent (1 / 2) demo_dom [100, 50, 90, 60] demo_cons demo_keys demo_bounds {1} \<delta>)"
proof -
  have wf: "constraints_wf demo_dom demo_cons demo_keys demo_bounds" by code_simp
  have c: "c_contradicted (analyze_clocks demo_dom [100, 50, 90, 60] demo_cons demo_keys demo_bounds) = {1}"
    by code_simp
  from clock_kept_consistent [OF wf, of "[100, 50, 90, 60]"] wf show ?thesis unfolding c by simp
qed

text \<open>
  C22. When some choice of offsets within the bounds makes every recorded dependency hold,
  \<open>analyze_clocks\<close> rules none out, and each such offset lies in the interval it reports for
  the domain (\<open>lo\<close>, \<open>hi\<close>; None is unbounded).
\<close>

theorem clock_intervals_sound:
  assumes "constraints_wf dm cons keys bounds" "consistent 0 dm t cons keys bounds {} \<delta>" "i < length keys"
  shows "c_contradicted (analyze_clocks dm t cons keys bounds) = {} \<and>
    (case c_lo (analyze_clocks dm t cons keys bounds) ! i of None \<Rightarrow> True | Some b \<Rightarrow> b \<le> \<delta> i) \<and>
    (case c_hi (analyze_clocks dm t cons keys bounds) ! i of None \<Rightarrow> True | Some b \<Rightarrow> \<delta> i \<le> b)"
proof -
  note s = solve_keeps_solvable [OF constraints_wf_pairs [OF assms(1)] consistent_offsets [OF assms(2)]]
  have "\<delta> (ref_index keys) = 0" using assms(2) by (simp add: consistent_def)
  then show ?thesis
    unfolding analyze_clocks_solve using s(1) s(2,3) [OF assms(3)] by (auto split: option.split)
qed

lemma clock_intervals_sound_witness:
  "c_contradicted (analyze_clocks demo_dom [100, 50, 20, 80] demo_cons demo_keys demo_bounds) = {} \<and>
   c_lo (analyze_clocks demo_dom [100, 50, 20, 80] demo_cons demo_keys demo_bounds) = [Some 0, Some 50] \<and>
   c_hi (analyze_clocks demo_dom [100, 50, 20, 80] demo_cons demo_keys demo_bounds) = [Some 0, Some 60] \<and>
   (50 :: rat) \<le> 55 \<and> (55 :: rat) \<le> 60"
proof -
  have wf: "constraints_wf demo_dom demo_cons demo_keys demo_bounds" by code_simp
  have off: "consistent 0 demo_dom [100, 50, 20, 80] demo_cons demo_keys demo_bounds {} (\<lambda>i. if i = 0 then 0 else 55)"
    by (simp add: consistent_def demo_cons_def demo_dom_def demo_bounds_def demo_keys_def ref_index_def REFERENCE_def)
  have lo: "c_lo (analyze_clocks demo_dom [100, 50, 20, 80] demo_cons demo_keys demo_bounds) = [Some 0, Some 50]"
    by code_simp
  have hi: "c_hi (analyze_clocks demo_dom [100, 50, 20, 80] demo_cons demo_keys demo_bounds) = [Some 0, Some 60]"
    by code_simp
  from clock_intervals_sound [OF wf off, of 1] show ?thesis unfolding lo hi by (simp add: demo_keys_def)
qed

end
