(* ===== verification/Utf8.thy ===== *)
theory Utf8
  imports Py_Text
begin

text \<open>
  UTF-8 as Python decodes it. Bytes are characters; a decoded text is represented by its valid
  UTF-8 bytes, so decoding strictly is a validity check and decoding with \<open>errors="replace"\<close>
  puts the three bytes of U+FFFD for every maximal ill-formed part. Slices \<open>s[:n]\<close> count code
  points.
\<close>

definition byte :: "char \<Rightarrow> nat" where
  "byte c = of_char c"

text \<open>The length of the sequence a byte starts, 0 when none starts with it.\<close>

definition seq_len :: "char \<Rightarrow> nat" where
  "seq_len c =
     (let b = byte c in
      if b < 128 then 1
      else if 194 \<le> b \<and> b \<le> 223 then 2
      else if 224 \<le> b \<and> b \<le> 239 then 3
      else if 240 \<le> b \<and> b \<le> 244 then 4
      else 0)"

definition continues :: "char \<Rightarrow> bool" where
  "continues c \<longleftrightarrow> 128 \<le> byte c \<and> byte c \<le> 191"

text \<open>The second byte, which excludes overlong forms, surrogates and values above U+10FFFF.\<close>

definition second_ok :: "char \<Rightarrow> char \<Rightarrow> bool" where
  "second_ok c d \<longleftrightarrow> continues d \<and>
     (byte c = 224 \<longrightarrow> 160 \<le> byte d) \<and> (byte c = 237 \<longrightarrow> byte d \<le> 159) \<and>
     (byte c = 240 \<longrightarrow> 144 \<le> byte d) \<and> (byte c = 244 \<longrightarrow> byte d \<le> 143)"

text \<open>How many of the following bytes belong to the sequence that \<open>c\<close> starts.\<close>

definition follows :: "char \<Rightarrow> string \<Rightarrow> nat" where
  "follows c cs =
     (case cs of
        [] \<Rightarrow> 0
      | d # ds \<Rightarrow> if 2 \<le> seq_len c \<and> second_ok c d
          then Suc (length (takeWhile continues (take (seq_len c - 2) ds))) else 0)"

definition complete_seq :: "char \<Rightarrow> string \<Rightarrow> bool" where
  "complete_seq c cs \<longleftrightarrow> 0 < seq_len c \<and> follows c cs = seq_len c - 1"

function decode_replace :: "string \<Rightarrow> string" where
  "decode_replace [] = []"
| "decode_replace (c # cs) =
     (if complete_seq c cs then c # take (follows c cs) cs else map char_of [239, 191, 189 :: nat])
     @ decode_replace (drop (follows c cs) cs)"
  by pat_completeness auto
termination
  by (relation "measure length") auto

function decodes :: "string \<Rightarrow> bool" where
  "decodes [] = True"
| "decodes (c # cs) \<longleftrightarrow> complete_seq c cs \<and> decodes (drop (follows c cs) cs)"
  by pat_completeness auto
termination
  by (relation "measure length") auto

text \<open>\<open>s[:n]\<close>.\<close>

fun take_text :: "nat \<Rightarrow> string \<Rightarrow> string" where
  "take_text n [] = []"
| "take_text 0 s = []"
| "take_text (Suc n) (c # cs) = c # takeWhile continues cs @ take_text n (dropWhile continues cs)"

text \<open>Text that decodes strictly is what the replacing decoder gives, and that always decodes.\<close>

lemma decode_replace_id: "decodes s \<Longrightarrow> decode_replace s = s"
  by (induction s rule: decodes.induct) auto

end
