(* ===== verification/Receiver.thy ===== *)
theory Receiver
  imports Utf8 "HOL-Library.List_Lexorder" "HOL-Library.Char_ord" "HOL-Library.Product_Lexorder"
begin

text \<open>
  \<^verbatim>\<open>src/src/core/receiver.py\<close>: the collector's side of the hook sockets. A reader thread per
  connection appends what it receives to a spool file (to memory once the spool cannot be
  written); the parser thread reads the spools, splits lines and processes records. The
  callback \<open>handle_line\<close> is a parameter: it changes the trace, of any type, and may raise an
  exception, given by its type name and its text. Reading and writing bytes and the peer's
  credentials are the operating system's.
\<close>

section \<open>Transport status records\<close>

datatype xval = XInt int | XStr string

definition XPORT_INT :: "string list" where
  "XPORT_INT = [''final'', ''emitted'', ''sent'', ''bytes'', ''dropped_full'', ''dropped_lost'', ''oversize'',
     ''format_errors'', ''blocked_ns'', ''max_block_ns'', ''waits'', ''threads'', ''ring_kb'',
     ''reconnects'', ''send_errors'', ''sanitized'']"

definition xport_field :: "string \<Rightarrow> (string, xval) dict \<Rightarrow> (string, xval) dict" where
  "xport_field kv fs =
     (if CHR ''='' \<in> set kv then
        (let (k, v) = partition_at CHR ''='' kv in
         AList.update k (if k \<in> set XPORT_INT then (case py_int v of Some n \<Rightarrow> XInt n | None \<Rightarrow> XStr v) else XStr v) fs)
      else fs)"

definition parse_xport :: "string \<Rightarrow> (int \<times> string \<times> (string, xval) dict) option" where
  "parse_xport line =
     (case split_max 4 CHR '':'' (strip line) of
        [kind, version, pid, hook, kvs] \<Rightarrow>
          (if kind \<noteq> ''xport'' then None
           else case (py_int version, py_int pid) of
             (Some v, Some p) \<Rightarrow> Some (p, hook, fold xport_field (split_on CHR '','' kvs) [(''version'', XInt v)])
           | _ \<Rightarrow> None)
      | _ \<Rightarrow> None)"

section \<open>State\<close>

type_synonym xkey = "int \<times> string \<times> string"

text \<open>
  \<open>_Conn\<close>: the unread part of the spool, the bytes kept in memory, whether the spool failed and
  whether the reader is done.
\<close>

record conn =
  cn_spool :: string
  cn_mem :: "string list"
  cn_failed :: bool
  cn_done :: bool
  cn_bytes :: nat
  cn_lines :: int
  cn_tail :: string
  cn_keys :: "xkey list"
  cn_final :: "xkey list"

definition new_conn :: conn where
  "new_conn = \<lparr>cn_spool = [], cn_mem = [], cn_failed = False, cn_done = False, cn_bytes = 0, cn_lines = 0,
     cn_tail = [], cn_keys = [], cn_final = []\<rparr>"

record 'a receiver =
  rc_trace :: 'a
  rc_malformed :: int
  rc_malformed_samples :: "string list"
  rc_unknown :: "(string, int) dict"
  rc_partial_tails :: int
  rc_errors :: int
  rc_error_samples :: "string list"
  rc_lines :: int
  rc_bytes :: int
  rc_connections :: int
  rc_spool_errors :: int
  rc_replaced :: int
  rc_transport :: "(xkey, (string, xval) dict) dict"
  rc_received :: "(xkey, int) dict"
  rc_no_final :: "xkey list"
  rc_no_status :: int
  rc_open_at_deadline :: int
  rc_rejected :: int

definition new_receiver :: "'a \<Rightarrow> 'a receiver" where
  "new_receiver trace = \<lparr>rc_trace = trace, rc_malformed = 0, rc_malformed_samples = [], rc_unknown = [],
     rc_partial_tails = 0, rc_errors = 0, rc_error_samples = [], rc_lines = 0, rc_bytes = 0, rc_connections = 0,
     rc_spool_errors = 0, rc_replaced = 0, rc_transport = [], rc_received = [], rc_no_final = [], rc_no_status = 0,
     rc_open_at_deadline = 0, rc_rejected = 0\<rparr>"

type_synonym 'a handler = "string \<Rightarrow> 'a \<Rightarrow> 'a \<times> (string \<times> string) option"

definition MAX_SAMPLES :: nat where "MAX_SAMPLES = 5"
definition READ_CHUNK :: nat where "READ_CHUNK = 2 ^ 20"

definition note_error :: "string \<Rightarrow> 'a receiver \<Rightarrow> 'a receiver" where
  "note_error msg r =
     r\<lparr>rc_errors := rc_errors r + 1,
       rc_error_samples := (if length (rc_error_samples r) < MAX_SAMPLES
         then rc_error_samples r @ [take_text 300 msg] else rc_error_samples r)\<rparr>"

definition note_malformed :: "string \<Rightarrow> 'a receiver \<Rightarrow> 'a receiver" where
  "note_malformed line r =
     r\<lparr>rc_malformed := rc_malformed r + 1,
       rc_malformed_samples := (if length (rc_malformed_samples r) < MAX_SAMPLES
         then rc_malformed_samples r @ [take_text 200 line] else rc_malformed_samples r)\<rparr>"

definition note_unknown :: "string \<Rightarrow> 'a receiver \<Rightarrow> 'a receiver" where
  "note_unknown kind r = r\<lparr>rc_unknown := dict_add (take_text 24 kind) 1 (rc_unknown r)\<rparr>"

section \<open>Processing\<close>

type_synonym 'a cr = "conn \<times> 'a receiver"

definition xport_image :: "(string, xval) dict \<Rightarrow> string" where
  "xport_image fs = (case dict_get fs ''image'' (XStr []) of XStr s \<Rightarrow> s | XInt n \<Rightarrow> show_int n)"

text \<open>\<open>_xport\<close>: the status record is no data line, so the counts taken for it go back.\<close>

definition xport :: "string \<Rightarrow> 'a cr \<Rightarrow> 'a cr" where
  "xport line s =
     (let c = (fst s)\<lparr>cn_lines := cn_lines (fst s) - 1\<rparr>; r = (snd s)\<lparr>rc_lines := rc_lines (snd s) - 1\<rparr> in
      case parse_xport line of
        None \<Rightarrow> (c, note_malformed line r)
      | Some (pid, hook, fs) \<Rightarrow>
          (let key = (pid, hook, xport_image fs) in
           (c\<lparr>cn_keys := List.insert key (cn_keys c),
              cn_final := (if dict_get fs ''final'' (XStr []) = XInt 1 then List.insert key (cn_final c) else cn_final c)\<rparr>,
            r\<lparr>rc_transport := AList.update key (fold (\<lambda>(k, v). AList.update k v) fs (dict_get (rc_transport r) key []))
                (rc_transport r)\<rparr>)))"

definition handle :: "'a handler \<Rightarrow> string \<Rightarrow> 'a receiver \<Rightarrow> 'a receiver" where
  "handle h line r =
     (case h line (rc_trace r) of
        (trace, None) \<Rightarrow> r\<lparr>rc_trace := trace\<rparr>
      | (trace, Some (kind, text)) \<Rightarrow>
          note_error (kind @ '': '' @ text @ '' -- line: '' @ take_text 120 line) (r\<lparr>rc_trace := trace\<rparr>))"

definition starts_with :: "string \<Rightarrow> string \<Rightarrow> bool" where
  "starts_with p s \<longleftrightarrow> take (length p) s = p"

definition process_line :: "'a handler \<Rightarrow> string \<Rightarrow> 'a cr \<Rightarrow> 'a cr" where
  "process_line h raw s =
     (if raw = [] then s
      else
        (let c = (fst s)\<lparr>cn_lines := cn_lines (fst s) + 1\<rparr>;
             r = (snd s)\<lparr>rc_lines := rc_lines (snd s) + 1,
                         rc_replaced := rc_replaced (snd s) + (if decodes raw then 0 else 1)\<rparr>;
             line = decode_replace raw
         in if starts_with ''xport:'' line then xport line (c, r) else (c, handle h line r)))"

abbreviation newline :: char where
  "newline \<equiv> CHR 0x0A"

definition process :: "'a handler \<Rightarrow> string \<Rightarrow> 'a cr \<Rightarrow> 'a cr" where
  "process h chunk s =
     (let data = cn_tail (fst s) @ chunk in
      if newline \<notin> set data then ((fst s)\<lparr>cn_tail := data\<rparr>, snd s)
      else
        (let (pre, post) = rpartition_at newline data;
             (c, r) = fold (process_line h) (split_on newline pre) ((fst s)\<lparr>cn_tail := post\<rparr>, snd s)
         in (c, r\<lparr>rc_bytes := rc_bytes r + int (length pre + 1)\<rparr>)))"

text \<open>\<open>_finish_conn\<close>; sets are lists without repetition.\<close>

definition finish_key :: "conn \<Rightarrow> xkey \<Rightarrow> 'a receiver \<Rightarrow> 'a receiver" where
  "finish_key c key r =
     r\<lparr>rc_received := dict_add key (cn_lines c) (rc_received r),
       rc_no_final := (if key \<notin> set (cn_final c) then List.insert key (rc_no_final r) else removeAll key (rc_no_final r))\<rparr>"

definition finish_conn :: "'a cr \<Rightarrow> 'a cr" where
  "finish_conn s =
     (let (c, r) = s;
          r = (if cn_tail c \<noteq> [] then
                 note_malformed (decode_replace (cn_tail c)) (r\<lparr>rc_partial_tails := rc_partial_tails r + 1\<rparr>) else r);
          c = c\<lparr>cn_tail := []\<rparr>;
          r = (if cn_keys c = [] \<and> cn_lines c \<noteq> 0 then r\<lparr>rc_no_status := rc_no_status r + 1\<rparr> else r)
      in (c, fold (finish_key c) (cn_keys c) r))"

section \<open>Threads\<close>

text \<open>
  The parser's place in \<open>_drain_conn\<close> for one connection: outside it, reading the spool, or
  taking from memory, with the value of \<open>done\<close> read before; or the connection is finished. The
  next two components are what has been received and processed so far, and the last is whether
  reading the spool back has failed; they are kept for the specification.
\<close>

datatype phase = Outside | Spooling bool | Memory bool | Finished

record 'a config =
  cf_state :: "'a cr"
  cf_phase :: phase
  cf_received :: string
  cf_processed :: string
  cf_read_failed :: bool

definition initial :: "'a receiver \<Rightarrow> 'a config" where
  "initial r = \<lparr>cf_state = (new_conn, r), cf_phase = Outside, cf_received = [], cf_processed = [],
     cf_read_failed = False\<rparr>"

definition receive_to_spool :: "string \<Rightarrow> 'a config \<Rightarrow> 'a config" where
  "receive_to_spool data x =
     (let (c, r) = cf_state x in
      x\<lparr>cf_state := (c\<lparr>cn_spool := cn_spool c @ data, cn_bytes := cn_bytes c + length data\<rparr>, r),
        cf_received := cf_received x @ data\<rparr>)"

text \<open>A write that fails after its first bytes: the rest goes to memory.\<close>

definition spool_failure :: "string \<Rightarrow> string \<Rightarrow> string \<Rightarrow> 'a config \<Rightarrow> 'a config" where
  "spool_failure written left msg x =
     (let (c, r) = cf_state x in
      x\<lparr>cf_state := (c\<lparr>cn_spool := cn_spool c @ written, cn_mem := cn_mem c @ [left], cn_failed := True,
                        cn_bytes := cn_bytes c + length written + length left\<rparr>,
                     note_error msg (r\<lparr>rc_spool_errors := rc_spool_errors r + 1\<rparr>)),
        cf_received := cf_received x @ written @ left\<rparr>)"

definition receive_to_memory :: "string \<Rightarrow> 'a config \<Rightarrow> 'a config" where
  "receive_to_memory data x =
     (let (c, r) = cf_state x in
      x\<lparr>cf_state := (c\<lparr>cn_mem := cn_mem c @ [data], cn_bytes := cn_bytes c + length data\<rparr>, r),
        cf_received := cf_received x @ data\<rparr>)"

definition read_spool :: "'a handler \<Rightarrow> 'a config \<Rightarrow> 'a config" where
  "read_spool h x =
     (let (c, r) = cf_state x; chunk = take READ_CHUNK (cn_spool c) in
      x\<lparr>cf_state := process h chunk (c\<lparr>cn_spool := drop READ_CHUNK (cn_spool c)\<rparr>, r),
        cf_processed := cf_processed x @ chunk\<rparr>)"

definition pop_memory :: "'a handler \<Rightarrow> 'a config \<Rightarrow> 'a config" where
  "pop_memory h x =
     (let (c, r) = cf_state x; chunk = hd (cn_mem c) in
      x\<lparr>cf_state := process h chunk (c\<lparr>cn_mem := tl (cn_mem c)\<rparr>, r),
        cf_processed := cf_processed x @ chunk\<rparr>)"

text \<open>A read that fails is counted and taken for the end of the spool.\<close>

definition read_failure :: "string \<Rightarrow> bool \<Rightarrow> 'a config \<Rightarrow> 'a config" where
  "read_failure msg d x =
     x\<lparr>cf_state := (fst (cf_state x), note_error msg (snd (cf_state x))), cf_phase := Memory d, cf_read_failed := True\<rparr>"

abbreviation cf_conn :: "'a config \<Rightarrow> conn" where
  "cf_conn x \<equiv> fst (cf_state x)"

text \<open>
  One step of the reader or the parser. \<open>os.write\<close> may write a part at a time, so the data of
  one \<open>recv\<close> may appear in the spool in several steps.
\<close>

inductive step :: "'a handler \<Rightarrow> 'a config \<Rightarrow> 'a config \<Rightarrow> bool" for h where
  recv: "\<not> cn_done (cf_conn x) \<Longrightarrow> \<not> cn_failed (cf_conn x) \<Longrightarrow> step h x (receive_to_spool data x)"
| fail: "\<not> cn_done (cf_conn x) \<Longrightarrow> \<not> cn_failed (cf_conn x) \<Longrightarrow> step h x (spool_failure written left msg x)"
| recv_mem: "\<not> cn_done (cf_conn x) \<Longrightarrow> cn_failed (cf_conn x) \<Longrightarrow> step h x (receive_to_memory data x)"
| eof: "\<not> cn_done (cf_conn x) \<Longrightarrow>
    step h x (x\<lparr>cf_state := ((cf_conn x)\<lparr>cn_done := True\<rparr>, snd (cf_state x))\<rparr>)"
| drain: "cf_phase x = Outside \<Longrightarrow> step h x (x\<lparr>cf_phase := Spooling (cn_done (cf_conn x))\<rparr>)"
| read: "cf_phase x = Spooling d \<Longrightarrow> cn_spool (cf_conn x) \<noteq> [] \<Longrightarrow> step h x (read_spool h x)"
| read_fail: "cf_phase x = Spooling d \<Longrightarrow> step h x (read_failure msg d x)"
| read_end: "cf_phase x = Spooling d \<Longrightarrow> cn_spool (cf_conn x) = [] \<Longrightarrow> step h x (x\<lparr>cf_phase := Memory d\<rparr>)"
| pop: "cf_phase x = Memory d \<Longrightarrow> cn_mem (cf_conn x) \<noteq> [] \<Longrightarrow> step h x (pop_memory h x)"
| again: "cf_phase x = Memory False \<Longrightarrow> cn_mem (cf_conn x) = [] \<Longrightarrow> step h x (x\<lparr>cf_phase := Outside\<rparr>)"
| finish: "cf_phase x = Memory True \<Longrightarrow> cn_mem (cf_conn x) = [] \<Longrightarrow>
    step h x (x\<lparr>cf_state := finish_conn (cf_state x), cf_phase := Finished\<rparr>)"

inductive reachable :: "'a handler \<Rightarrow> 'a receiver \<Rightarrow> 'a config \<Rightarrow> bool" for h r where
  start: "reachable h r (initial r)"
| more: "reachable h r x \<Longrightarrow> step h x y \<Longrightarrow> reachable h r y"

section \<open>Health\<close>

definition is_decimal :: "string \<Rightarrow> bool" where
  "is_decimal s \<longleftrightarrow> s \<noteq> [] \<and> (\<forall>c\<in>set s. is_digit c)"

definition image_number :: "string \<Rightarrow> int" where
  "image_number s = (if is_decimal s then the (py_int s) else 0)"

definition transport_name :: "'a receiver \<Rightarrow> xkey list \<Rightarrow> xkey \<Rightarrow> string" where
  "transport_name r before key =
     (let (pid, hook, image) = key; same = (\<lambda>k. fst k = pid \<and> fst (snd k) = hook) in
      if length (filter same (map fst (rc_transport r))) = 1 then show_int pid @ ''/'' @ hook
      else show_int pid @ ''/'' @ hook @ ''#'' @ show_nat (length (filter same before) + 1))"

text \<open>
  The transport part of \<open>health\<close>: one entry per process image and hook, with the records received
  and whether it ended without its final drain; the other part only lists counters.
\<close>

definition transport_health :: "'a receiver \<Rightarrow> (string, (string, xval) dict \<times> int \<times> bool) dict" where
  "transport_health r =
     (let keys = sort_key (\<lambda>(pid, hook, image). (pid, hook, image_number image)) (map fst (rc_transport r)) in
      fold (\<lambda>(i, key). AList.update (transport_name r (take i keys) key)
          (dict_get (rc_transport r) key [], dict_get (rc_received r) key 0, key \<in> set (rc_no_final r)))
        (List.enumerate 0 keys) [])"

end
