(* ===== verification/Receiver_Facts.thy ===== *)
theory Receiver_Facts
  imports Receiver
begin

text \<open>
  What the receiver guarantees: records do not depend on how the bytes arrive in chunks, a
  connection that ends without a spool failure has every byte processed once and in order, and
  nothing is skipped silently. A spool failure can reorder records.
\<close>

section \<open>Consumers of a byte stream\<close>

text \<open>A consumer that cannot tell how its input was cut.\<close>

locale stream_consumer =
  fixes feed :: "string \<Rightarrow> 's \<Rightarrow> 's"
  assumes feed_append: "feed b (feed a s) = feed (a @ b) s"
begin

lemma feed_all: "chunks \<noteq> [] \<Longrightarrow> fold feed chunks s = feed (concat chunks) s"
proof (induction chunks rule: rev_nonempty_induct)
  case (snoc x xs)
  then show ?case by (simp add: feed_append)
qed simp

lemma same_bytes:
  assumes "chunks \<noteq> []" "chunks' \<noteq> []" "concat chunks = concat chunks'"
  shows "fold feed chunks s = fold feed chunks' s"
  using assms by (simp add: feed_all)

end

section \<open>Lines\<close>

lemma xport_frame:
  "xport line (c\<lparr>cn_tail := t\<rparr>, r) = apfst (\<lambda>c. c\<lparr>cn_tail := t\<rparr>) (xport line (c, r))"
  "xport line (c, r\<lparr>rc_bytes := b\<rparr>) = apsnd (\<lambda>r. r\<lparr>rc_bytes := b\<rparr>) (xport line (c, r))"
  by (simp_all add: xport_def Let_def note_malformed_def split: option.splits prod.splits)

lemma handle_frame: "handle h line (r\<lparr>rc_bytes := b\<rparr>) = (handle h line r)\<lparr>rc_bytes := b\<rparr>"
  by (simp add: handle_def note_error_def split: option.splits prod.splits)

lemma commute_counts:
  "r\<lparr>rc_bytes := b, rc_lines := l\<rparr> = r\<lparr>rc_lines := l, rc_bytes := b\<rparr>"
  "r\<lparr>rc_bytes := b, rc_replaced := x\<rparr> = r\<lparr>rc_replaced := x, rc_bytes := b\<rparr>"
  "c\<lparr>cn_tail := t, cn_lines := l\<rparr> = c\<lparr>cn_lines := l, cn_tail := t\<rparr>"
  by (cases r; cases c; simp)+

lemma process_line_frame:
  "process_line h raw (c\<lparr>cn_tail := t\<rparr>, r) = apfst (\<lambda>c. c\<lparr>cn_tail := t\<rparr>) (process_line h raw (c, r))"
  "process_line h raw (c, r\<lparr>rc_bytes := b\<rparr>) = apsnd (\<lambda>r. r\<lparr>rc_bytes := b\<rparr>) (process_line h raw (c, r))"
  by (simp_all add: process_line_def Let_def commute_counts handle_frame xport_frame)

text \<open>The lines of one chunk, with the bookkeeping of the rest and the byte count apart.\<close>

definition lines_of :: "'a handler \<Rightarrow> string list \<Rightarrow> 'a cr \<Rightarrow> 'a cr" where
  "lines_of h ls s = fold (process_line h) ls s"

lemma process_line_tail: "process_line h raw (apfst (\<lambda>c. c\<lparr>cn_tail := t\<rparr>) s) = apfst (\<lambda>c. c\<lparr>cn_tail := t\<rparr>) (process_line h raw s)"
  by (cases s) (simp add: process_line_frame(1))

lemma process_line_bytes: "process_line h raw (apsnd (\<lambda>r. r\<lparr>rc_bytes := b\<rparr>) s) = apsnd (\<lambda>r. r\<lparr>rc_bytes := b\<rparr>) (process_line h raw s)"
  by (cases s) (simp add: process_line_frame(2))

lemma lines_of_tail: "lines_of h ls (apfst (\<lambda>c. c\<lparr>cn_tail := t\<rparr>) s) = apfst (\<lambda>c. c\<lparr>cn_tail := t\<rparr>) (lines_of h ls s)"
  by (induction ls arbitrary: s) (simp_all add: lines_of_def process_line_tail)

lemma lines_of_bytes: "lines_of h ls (apsnd (\<lambda>r. r\<lparr>rc_bytes := b\<rparr>) s) = apsnd (\<lambda>r. r\<lparr>rc_bytes := b\<rparr>) (lines_of h ls s)"
  by (induction ls arbitrary: s) (simp_all add: lines_of_def process_line_bytes)

lemma lines_of_append: "lines_of h (ls @ ms) s = lines_of h ms (lines_of h ls s)"
  by (simp add: lines_of_def)

lemma lines_of_kept:
  "cn_tail (fst (lines_of h ls s)) = cn_tail (fst s)" "rc_bytes (snd (lines_of h ls s)) = rc_bytes (snd s)"
proof -
  have "s = apfst (\<lambda>c. c\<lparr>cn_tail := cn_tail (fst s)\<rparr>) s" "s = apsnd (\<lambda>r. r\<lparr>rc_bytes := rc_bytes (snd s)\<rparr>) s"
    by (cases s; simp)+
  then have t: "lines_of h ls s = apfst (\<lambda>c. c\<lparr>cn_tail := cn_tail (fst s)\<rparr>) (lines_of h ls s)"
    and b: "lines_of h ls s = apsnd (\<lambda>r. r\<lparr>rc_bytes := rc_bytes (snd s)\<rparr>) (lines_of h ls s)"
    using lines_of_tail lines_of_bytes by metis+
  show "cn_tail (fst (lines_of h ls s)) = cn_tail (fst s)" by (subst t) simp
  show "rc_bytes (snd (lines_of h ls s)) = rc_bytes (snd s)" by (subst b) simp
qed

text \<open>The bookkeeping after the lines of a chunk.\<close>

definition settle :: "string \<Rightarrow> nat \<Rightarrow> 'a cr \<Rightarrow> 'a cr" where
  "settle post n s = ((fst s)\<lparr>cn_tail := post\<rparr>, (snd s)\<lparr>rc_bytes := rc_bytes (snd s) + int n\<rparr>)"

lemma process_lines:
  "process h chunk s =
     (let data = cn_tail (fst s) @ chunk in
      if newline \<notin> set data then ((fst s)\<lparr>cn_tail := data\<rparr>, snd s)
      else settle (snd (rpartition_at newline data)) (length (fst (rpartition_at newline data)) + 1)
             (lines_of h (split_on newline (fst (rpartition_at newline data))) s))"
proof -
  have "((fst s)\<lparr>cn_tail := t\<rparr>, snd s) = apfst (\<lambda>c. c\<lparr>cn_tail := t\<rparr>) s" for t by (cases s) simp
  then have "process h chunk s =
     (let data = cn_tail (fst s) @ chunk in
      if newline \<notin> set data then ((fst s)\<lparr>cn_tail := data\<rparr>, snd s)
      else let (pre, post) = rpartition_at newline data; (c, r) = apfst (\<lambda>c. c\<lparr>cn_tail := post\<rparr>) (lines_of h (split_on newline pre) s)
        in (c, r\<lparr>rc_bytes := rc_bytes r + int (length pre + 1)\<rparr>))"
    by (simp add: process_def lines_of_def [symmetric] lines_of_tail Let_def cong: if_cong)
  moreover have "(let (c, r) = apfst (\<lambda>c. c\<lparr>cn_tail := post\<rparr>) x in (c, r\<lparr>rc_bytes := rc_bytes r + int n\<rparr>)) = settle post n x"
    for post n and x :: "'a cr" by (cases x) (simp add: settle_def)
  ultimately show ?thesis by (simp only: Let_def case_prod_unfold cong: if_cong)
qed

lemma settle_lines: "lines_of h ls (settle post n s) = settle post n (lines_of h ls s)"
proof -
  have e: "settle post n x = apsnd (\<lambda>r. r\<lparr>rc_bytes := rc_bytes (snd x) + int n\<rparr>) (apfst (\<lambda>c. c\<lparr>cn_tail := post\<rparr>) x)" for x :: "'a cr"
    by (cases x) (simp add: settle_def)
  show ?thesis unfolding e lines_of_tail lines_of_bytes by (simp add: lines_of_kept)
qed

lemma settle_settle: "settle post' m (settle post n s) = settle post' (m + n) s"
  by (simp add: settle_def algebra_simps)

section \<open>Framing\<close>

lemma rpartition_split:
  assumes "c \<in> set s"
  obtains pre post where "s = pre @ c # post" "c \<notin> set post" "rpartition_at c s = (pre, post)"
proof -
  obtain pre post where "s = pre @ c # post" "c \<notin> set post" using split_list_last [OF assms] by blast
  then show thesis by (intro that [of pre post]) simp_all
qed

lemma split_on_append: "split_on c (s @ c # t) = split_on c s @ split_on c t"
proof -
  have "split_loop c acc (s @ c # t) = split_loop c acc s @ split_loop c [] t" for acc
    by (induction s arbitrary: acc) auto
  then show ?thesis by (simp add: split_on_def)
qed

lemma process_append: "process h b (process h a s) = process h (a @ b) s"
proof -
  let ?d = "cn_tail (fst s) @ a"
  show ?thesis
  proof (cases "newline \<in> set ?d")
    case False
    then have p: "process h a s = ((fst s)\<lparr>cn_tail := ?d\<rparr>, snd s)" by (simp add: process_lines)
    have "lines_of h ls ((fst s)\<lparr>cn_tail := ?d\<rparr>, snd s) = apfst (\<lambda>c. c\<lparr>cn_tail := ?d\<rparr>) (lines_of h ls s)" for ls
      using lines_of_tail [of h ls ?d s] by (cases s) simp
    then show ?thesis unfolding p by (simp add: process_lines settle_def Let_def)
  next
    case True
    then obtain pre post where d: "?d = pre @ newline # post" "newline \<notin> set post" "rpartition_at newline ?d = (pre, post)"
      by (rule rpartition_split)
    have p: "process h a s = settle post (length pre + 1) (lines_of h (split_on newline pre) s)"
      unfolding process_lines Let_def d(3) using True by simp
    have tail: "cn_tail (fst (process h a s)) = post" unfolding p by (simp add: settle_def)
    show ?thesis
    proof (cases "newline \<in> set b")
      case False
      have "rpartition_at newline (cn_tail (fst s) @ a @ b) = (pre, post @ b)"
        using d(1,2) False rpartition_at_append [of newline "post @ b" pre] by (metis append.assoc append_Cons UnE set_append)
      moreover have "newline \<in> set (cn_tail (fst s) @ a @ b)" using True by auto
      moreover have "process h b (process h a s) = settle (post @ b) (length pre + 1) (lines_of h (split_on newline pre) s)"
        using False d(2) by (simp add: process_lines [of h b] tail) (simp add: p settle_def)
      ultimately show ?thesis by (simp add: process_lines [of h "a @ b"])
    next
      case nl: True
      then have "newline \<in> set (post @ b)" by simp
      then obtain pre' post' where d': "post @ b = pre' @ newline # post'" "newline \<notin> set post'"
          "rpartition_at newline (post @ b) = (pre', post')"
        by (rule rpartition_split)
      have all: "rpartition_at newline (cn_tail (fst s) @ a @ b) = (pre @ newline # pre', post')"
        using d(1) d'(1,2) rpartition_at_append [of newline post' "pre @ newline # pre'"]
        by (metis append.assoc append_Cons)
      have "process h b (process h a s) = settle post' (length pre' + 1) (lines_of h (split_on newline pre') (process h a s))"
        unfolding process_lines [of h b] Let_def tail d'(3) using nl by simp
      also have "\<dots> = settle post' (length pre' + 1 + (length pre + 1)) (lines_of h (split_on newline pre @ split_on newline pre') s)"
        unfolding p settle_lines settle_settle lines_of_append ..
      also have "\<dots> = process h (a @ b) s"
        unfolding process_lines [of h "a @ b"] Let_def all using nl by (simp add: split_on_append add.commute)
      finally show ?thesis .
    qed
  qed
qed

interpretation records: stream_consumer "process h"
  by unfold_locales (rule process_append)

section \<open>One connection, its reader and the parser\<close>

text \<open>The connection without what the reader writes.\<close>

definition parsed :: "conn \<Rightarrow> conn" where
  "parsed c = c\<lparr>cn_spool := [], cn_mem := [], cn_failed := False, cn_done := False, cn_bytes := 0\<rparr>"

definition reader_part :: "conn \<Rightarrow> string \<times> string list \<times> bool \<times> bool \<times> nat" where
  "reader_part c = (cn_spool c, cn_mem c, cn_failed c, cn_done c, cn_bytes c)"

definition with_reader :: "string \<times> string list \<times> bool \<times> bool \<times> nat \<Rightarrow> conn \<Rightarrow> conn" where
  "with_reader p c = (case p of (spool, mem, failed, done, bytes) \<Rightarrow>
     c\<lparr>cn_spool := spool, cn_mem := mem, cn_failed := failed, cn_done := done, cn_bytes := bytes\<rparr>)"

lemma with_reader_simps [simp]:
  "cn_lines (with_reader p c) = cn_lines c" "cn_tail (with_reader p c) = cn_tail c"
  "cn_keys (with_reader p c) = cn_keys c" "cn_final (with_reader p c) = cn_final c"
  "reader_part (with_reader p c) = p" "with_reader p (with_reader q c) = with_reader p c"
  "with_reader (reader_part c) c = c"
  "(with_reader p c)\<lparr>cn_lines := l\<rparr> = with_reader p (c\<lparr>cn_lines := l\<rparr>)"
  "(with_reader p c)\<lparr>cn_tail := t\<rparr> = with_reader p (c\<lparr>cn_tail := t\<rparr>)"
  "(with_reader p c)\<lparr>cn_keys := k, cn_final := f\<rparr> = with_reader p (c\<lparr>cn_keys := k, cn_final := f\<rparr>)"
  by (simp_all add: with_reader_def reader_part_def split: prod.split)

lemma parsed_with: "parsed c = with_reader ([], [], False, False, 0) c"
  by (simp add: parsed_def with_reader_def)

lemma xport_reader: "xport line (with_reader p c, r) = apfst (with_reader p) (xport line (c, r))"
  by (simp add: xport_def Let_def split: option.splits prod.splits)

lemma process_line_reader: "process_line h raw (apfst (with_reader p) s) = apfst (with_reader p) (process_line h raw s)"
  by (cases s) (simp add: process_line_def Let_def xport_reader)

lemma process_reader: "process h chunk (apfst (with_reader p) s) = apfst (with_reader p) (process h chunk s)"
proof -
  have l: "lines_of h ls (apfst (with_reader p) s) = apfst (with_reader p) (lines_of h ls s)" for ls
    by (induction ls arbitrary: s) (simp_all add: lines_of_def process_line_reader)
  have "settle t n (apfst (with_reader p) x) = apfst (with_reader p) (settle t n x)" for t n and x :: "'a cr"
    by (cases x) (simp add: settle_def)
  then show ?thesis unfolding process_lines Let_def l by (cases s) simp
qed

lemma finish_conn_reader: "finish_conn (apfst (with_reader p) s) = apfst (with_reader p) (finish_conn s)"
proof -
  obtain c r where s: "s = (c, r)" by (cases s)
  have k: "finish_key (with_reader p d) = finish_key d" for d by (intro ext) (simp add: finish_key_def)
  show ?thesis unfolding s by (simp add: finish_conn_def Let_def k)
qed

lemma reader_kept:
  assumes "\<And>p s. f (apfst (with_reader p) s) = apfst (with_reader p) (f s)"
  shows "reader_part (fst (f s)) = reader_part (fst (s :: 'a cr))"
proof -
  have "f s = f (apfst (with_reader (reader_part (fst s))) s)" by (cases s) simp
  also have "\<dots> = apfst (with_reader (reader_part (fst s))) (f s)" by (rule assms)
  finally show ?thesis by (metis fst_apfst with_reader_simps(5))
qed

lemma process_reader_part: "reader_part (fst (process h chunk s)) = reader_part (fst s)"
  by (rule reader_kept) (rule process_reader)

lemma finish_reader_part: "reader_part (fst (finish_conn s)) = reader_part (fst s)"
  by (rule reader_kept) (rule finish_conn_reader)

text \<open>The state of a connection, with what its reader wrote left out.\<close>

definition seen :: "'a config \<Rightarrow> 'a cr" where
  "seen x = apfst parsed (cf_state x)"

text \<open>
  The invariant: every byte received was processed or waits in the spool or in memory; without a
  failure in this order and with the state that processing them at once gives.
\<close>

definition all_bytes :: "'a config \<Rightarrow> string" where
  "all_bytes x = cf_processed x @ cn_spool (cf_conn x) @ concat (cn_mem (cf_conn x))"

definition in_order :: "'a handler \<Rightarrow> 'a receiver \<Rightarrow> 'a config \<Rightarrow> bool" where
  "in_order h r x \<longleftrightarrow> (\<not> cn_failed (cf_conn x) \<longrightarrow>
     cn_mem (cf_conn x) = [] \<and> cf_received x = cf_processed x @ cn_spool (cf_conn x) \<and>
     (\<not> cf_read_failed x \<longrightarrow>
       seen x = (if cf_phase x = Finished then finish_conn else id) (process h (cf_processed x) (new_conn, r))))"

definition phase_ok :: "'a config \<Rightarrow> bool" where
  "phase_ok x \<longleftrightarrow> (cf_phase x \<in> {Spooling True, Memory True, Finished} \<longrightarrow> cn_done (cf_conn x)) \<and>
     (cf_phase x \<in> {Memory True, Finished} \<and> \<not> cf_read_failed x \<longrightarrow> cn_spool (cf_conn x) = []) \<and>
     (cf_phase x = Finished \<longrightarrow> cn_mem (cf_conn x) = [])"

definition conn_inv :: "'a handler \<Rightarrow> 'a receiver \<Rightarrow> 'a config \<Rightarrow> bool" where
  "conn_inv h r x \<longleftrightarrow> mset (cf_received x) = mset (all_bytes x) \<and> in_order h r x \<and> phase_ok x"

lemma initial_inv: "conn_inv h r (initial r)"
  by (simp add: conn_inv_def all_bytes_def in_order_def phase_ok_def initial_def new_conn_def seen_def parsed_def process_def)

lemma seen_reader: "apfst parsed (apfst (with_reader p) s) = apfst parsed s"
  by (cases s) (simp add: parsed_with)

lemma process_seen: "apfst parsed (process h chunk s) = process h chunk (apfst parsed s)"
  unfolding parsed_with process_reader [symmetric] ..

lemma finish_seen: "apfst parsed (finish_conn s) = finish_conn (apfst parsed s)"
  unfolding parsed_with finish_conn_reader [symmetric] ..

lemma process_kept [simp]:
  "cn_spool (fst (process h chunk s)) = cn_spool (fst s)" "cn_mem (fst (process h chunk s)) = cn_mem (fst s)"
  "cn_failed (fst (process h chunk s)) = cn_failed (fst s)" "cn_done (fst (process h chunk s)) = cn_done (fst s)"
  using process_reader_part [of h chunk s] by (simp_all add: reader_part_def)

lemma finish_kept [simp]:
  "cn_spool (fst (finish_conn s)) = cn_spool (fst s)" "cn_mem (fst (finish_conn s)) = cn_mem (fst s)"
  "cn_failed (fst (finish_conn s)) = cn_failed (fst s)" "cn_done (fst (finish_conn s)) = cn_done (fst s)"
  using finish_reader_part [of s] by (simp_all add: reader_part_def)

inductive_cases stepE: "step h x y"

lemmas conn_inv_defs = conn_inv_def all_bytes_def in_order_def phase_ok_def seen_def

lemma read_inv:
  assumes "conn_inv h r x" "cf_phase x = Spooling d"
  shows "conn_inv h r (read_spool h x)"
proof -
  obtain c q where x: "cf_state x = (c, q)" by fastforce
  let ?chunk = "take READ_CHUNK (cn_spool c)" and ?c = "c\<lparr>cn_spool := drop READ_CHUNK (cn_spool c)\<rparr>"
  have y: "read_spool h x = x\<lparr>cf_state := process h ?chunk (?c, q), cf_processed := cf_processed x @ ?chunk\<rparr>"
    by (simp add: read_spool_def x Let_def)
  have "apfst parsed (process h ?chunk (?c, q)) = process h ?chunk (apfst parsed (c, q))"
    unfolding process_seen by (simp add: parsed_def)
  moreover have "mset (cn_spool c) = mset ?chunk + mset (drop READ_CHUNK (cn_spool c))"
    by (metis append_take_drop_id mset_append)
  ultimately show ?thesis
    using assms by (auto simp: conn_inv_defs x y process_append)
qed

lemma pop_inv:
  assumes "conn_inv h r x" "cf_phase x = Memory d" "cn_mem (cf_conn x) \<noteq> []"
  shows "conn_inv h r (pop_memory h x)"
proof -
  obtain c q where x: "cf_state x = (c, q)" by fastforce
  obtain m ms where m: "cn_mem c = m # ms" using assms(3) x by (cases "cn_mem c") auto
  show ?thesis using assms by (auto simp: conn_inv_defs x m pop_memory_def Let_def)
qed

lemma step_inv:
  assumes "step h x y" "conn_inv h r x"
  shows "conn_inv h r y"
proof -
  obtain c q where x: "cf_state x = (c, q)" by fastforce
  from assms(1) show ?thesis
  proof (rule stepE)
    fix d assume "y = read_spool h x" "cf_phase x = Spooling d"
    then show ?thesis using read_inv [OF assms(2)] by simp
  next
    fix d assume "y = pop_memory h x" "cf_phase x = Memory d" "cn_mem (cf_conn x) \<noteq> []"
    then show ?thesis using pop_inv [OF assms(2)] by simp
  next
    assume y: "y = x\<lparr>cf_state := finish_conn (cf_state x), cf_phase := Finished\<rparr>" "cf_phase x = Memory True" "cn_mem (cf_conn x) = []"
    then show ?thesis using assms(2) by (auto simp: conn_inv_defs finish_seen)
  qed (use assms(2) in \<open>auto simp: conn_inv_defs x read_failure_def parsed_def receive_to_spool_def spool_failure_def receive_to_memory_def Let_def\<close>)
qed

lemma reachable_inv: "reachable h r x \<Longrightarrow> conn_inv h r x"
  by (induction rule: reachable.induct) (use initial_inv step_inv in blast)+

section \<open>Every line counts\<close>

text \<open>The complete lines of a byte stream, decoded, without empty ones.\<close>

definition complete_lines :: "string \<Rightarrow> string list" where
  "complete_lines bytes =
     (if newline \<in> set bytes
      then map decode_replace (filter (\<lambda>l. l \<noteq> []) (split_on newline (fst (rpartition_at newline bytes)))) else [])"

abbreviation is_status :: "string \<Rightarrow> bool" where
  "is_status line \<equiv> starts_with ''xport:'' line"

definition data_lines :: "string \<Rightarrow> string list" where
  "data_lines bytes = filter (\<lambda>l. \<not> is_status l) (complete_lines bytes)"

text \<open>How many of the lines the callback raises on, each called in the state the others left.\<close>

fun raised :: "'a handler \<Rightarrow> string list \<Rightarrow> 'a \<Rightarrow> int" where
  "raised h [] trace = 0"
| "raised h (l # ls) trace = (if snd (h l trace) = None then 0 else 1) + raised h ls (fst (h l trace))"

lemma handle_counts:
  "rc_trace (handle h l r) = fst (h l (rc_trace r))"
  "rc_errors (handle h l r) = rc_errors r + (if snd (h l (rc_trace r)) = None then 0 else 1)"
  "rc_malformed (handle h l r) = rc_malformed r" "rc_lines (handle h l r) = rc_lines r"
  by (simp_all add: handle_def note_error_def split: prod.splits option.splits)

lemma xport_counts:
  "rc_trace (snd (xport l s)) = rc_trace (snd s)" "rc_errors (snd (xport l s)) = rc_errors (snd s)"
  "rc_malformed (snd (xport l s)) = rc_malformed (snd s) + (if parse_xport l = None then 1 else 0)"
  "rc_lines (snd (xport l s)) = rc_lines (snd s) - 1"
  by (simp_all add: xport_def note_malformed_def Let_def split: option.splits prod.splits)

lemma process_line_counts:
  assumes "l \<noteq> []"
  shows "rc_trace (snd (process_line h l s)) =
      (if is_status (decode_replace l) then rc_trace (snd s) else fst (h (decode_replace l) (rc_trace (snd s))))"
    "rc_errors (snd (process_line h l s)) = rc_errors (snd s) +
      (if is_status (decode_replace l) \<or> snd (h (decode_replace l) (rc_trace (snd s))) = None then 0 else 1)"
    "rc_malformed (snd (process_line h l s)) = rc_malformed (snd s) +
      (if is_status (decode_replace l) \<and> parse_xport (decode_replace l) = None then 1 else 0)"
    "rc_lines (snd (process_line h l s)) = rc_lines (snd s) + (if is_status (decode_replace l) then 0 else 1)"
  using assms by (simp_all add: process_line_def Let_def handle_counts xport_counts)

lemma lines_of_counts:
  defines "decoded ls \<equiv> map decode_replace (filter (\<lambda>l. l \<noteq> []) ls)"
  shows "rc_trace (snd (lines_of h ls s)) = fold (\<lambda>l t. fst (h l t)) (filter (\<lambda>l. \<not> is_status l) (decoded ls)) (rc_trace (snd s)) \<and>
    rc_errors (snd (lines_of h ls s)) = rc_errors (snd s) + raised h (filter (\<lambda>l. \<not> is_status l) (decoded ls)) (rc_trace (snd s)) \<and>
    rc_malformed (snd (lines_of h ls s)) = rc_malformed (snd s) + int (length (filter (\<lambda>l. is_status l \<and> parse_xport l = None) (decoded ls))) \<and>
    rc_lines (snd (lines_of h ls s)) = rc_lines (snd s) + int (length (filter (\<lambda>l. \<not> is_status l) (decoded ls)))"
proof (induction ls arbitrary: s)
  case (Cons l ls)
  show ?case
  proof (cases "l = []")
    case True
    then have "lines_of h (l # ls) s = lines_of h ls s" by (simp add: lines_of_def process_line_def)
    then show ?thesis using Cons [of s] True by (simp add: decoded_def)
  next
    case False
    have "lines_of h (l # ls) s = lines_of h ls (process_line h l s)" by (simp add: lines_of_def)
    then show ?thesis using Cons [of "process_line h l s"] False by (auto simp: decoded_def process_line_counts)
  qed
qed (simp add: lines_of_def decoded_def)

section \<open>Properties\<close>

text \<open>
  C38. What the records of a connection do to the trace, the counters and the status tables does
  not depend on how its bytes were cut into chunks, whether inside a line, a record or a UTF-8
  sequence.
\<close>

theorem framing_independent:
  assumes "chunks \<noteq> []" "chunks' \<noteq> []" "concat chunks = concat chunks'"
  shows "fold (process h) chunks s = fold (process h) chunks' s"
  by (rule records.same_bytes [OF assms])

lemma framing_independent_witness:
  "fold (process (\<lambda>line tr. (tr @ [line], None))) [''a'', [CHR 0x0A], ''b'' @ [CHR 0x0A]] (new_conn, new_receiver []) =
   fold (process (\<lambda>line tr. (tr @ [line], None))) [''a'' @ [CHR 0x0A] @ ''b'' @ [CHR 0x0A]] (new_conn, new_receiver [])"
  by (rule framing_independent) simp_all

text \<open>
  C23. Nothing a hook sent is lost or invented: once a connection is finished, under any
  interleaving of its reader with the parser and any failed spool writes and reads, every byte
  received has been processed or is left in the spool, and none is left unless a read of the spool
  failed; without a failed write the bytes are processed in the order received; and without any
  failure the records, counters and status are those of processing all bytes at once and closing
  the connection.
\<close>

theorem finished_connection:
  assumes "reachable h r x" "cf_phase x = Finished"
  shows "mset (cf_processed x) + mset (cn_spool (cf_conn x)) = mset (cf_received x) \<and>
    (\<not> cf_read_failed x \<longrightarrow> cn_spool (cf_conn x) = []) \<and>
    (\<not> cn_failed (cf_conn x) \<longrightarrow> cf_received x = cf_processed x @ cn_spool (cf_conn x)) \<and>
    (\<not> cn_failed (cf_conn x) \<and> \<not> cf_read_failed x \<longrightarrow>
       apfst parsed (cf_state x) = finish_conn (process h (cf_received x) (new_conn, r)))"
  using reachable_inv [OF assms(1)] assms(2) by (simp add: conn_inv_defs)

text \<open>The trace as the list of its records, and a step list of one connection.\<close>

definition list_handler :: "string list handler" where
  "list_handler line trace = (trace @ [line], if line = ''bad'' then Some (''ValueError'', ''bad record'') else None)"

definition demo_receiver :: "string list receiver" where
  "demo_receiver = new_receiver []"

lemma read_all:
  assumes "cn_spool (cf_conn x) = data" "length data \<le> 1000"
  shows "read_spool h x = x\<lparr>cf_state := process h data ((cf_conn x)\<lparr>cn_spool := []\<rparr>, snd (cf_state x)), cf_processed := cf_processed x @ data\<rparr>"
proof -
  have "length data \<le> READ_CHUNK" using assms(2) by (simp add: READ_CHUNK_def)
  then show ?thesis using assms(1) by (cases "cf_state x") (simp add: read_spool_def Let_def)
qed

definition view :: "'a config \<Rightarrow> string \<times> string list \<times> bool \<times> bool \<times> phase \<times> string \<times> string \<times> bool" where
  "view x = (cn_spool (cf_conn x), cn_mem (cf_conn x), cn_failed (cf_conn x), cn_done (cf_conn x), cf_phase x, cf_received x, cf_processed x, cf_read_failed x)"

lemma view_eq: "view x = (sp, me, fa, do, ph, re, pr, rf) \<longleftrightarrow>
    cn_spool (cf_conn x) = sp \<and> cn_mem (cf_conn x) = me \<and> cn_failed (cf_conn x) = fa \<and> cn_done (cf_conn x) = do \<and>
    cf_phase x = ph \<and> cf_received x = re \<and> cf_processed x = pr \<and> cf_read_failed x = rf"
  by (auto simp: view_def)

lemma views:
  "view (initial r) = ([], [], False, False, Outside, [], [], False)"
  "view x = (sp, me, fa, do, ph, re, pr, rf) \<Longrightarrow> view (x\<lparr>cf_phase := ph'\<rparr>) = (sp, me, fa, do, ph', re, pr, rf)"
  "view x = (sp, me, fa, do, ph, re, pr, rf) \<Longrightarrow> view (x\<lparr>cf_state := ((cf_conn x)\<lparr>cn_done := True\<rparr>, snd (cf_state x))\<rparr>) = (sp, me, fa, True, ph, re, pr, rf)"
  "view x = (sp, me, fa, do, ph, re, pr, rf) \<Longrightarrow> view (receive_to_spool data x) = (sp @ data, me, fa, do, ph, re @ data, pr, rf)"
  "view x = (sp, me, fa, do, ph, re, pr, rf) \<Longrightarrow> view (spool_failure written left msg x) = (sp @ written, me @ [left], True, do, ph, re @ written @ left, pr, rf)"
  "view x = (sp, me, fa, do, ph, re, pr, rf) \<Longrightarrow> view (pop_memory h x) = (sp, tl me, fa, do, ph, re, pr @ hd me, rf)"
  "view x = (sp, me, fa, do, ph, re, pr, rf) \<Longrightarrow>
     view (x\<lparr>cf_state := process h data ((cf_conn x)\<lparr>cn_spool := sp'\<rparr>, snd (cf_state x)), cf_processed := cf_processed x @ data\<rparr>) =
       (sp', me, fa, do, ph, re, pr @ data, rf)"
  "view x = (sp, me, fa, do, ph, re, pr, rf) \<Longrightarrow> view (x\<lparr>cf_state := finish_conn (cf_state x), cf_phase := Finished\<rparr>) = (sp, me, fa, do, Finished, re, pr, rf)"
  by (auto simp: view_def initial_def new_conn_def receive_to_spool_def spool_failure_def pop_memory_def case_prod_unfold Let_def)

lemma finished_connection_witness:
  "\<exists>x. reachable list_handler demo_receiver x \<and> cf_phase x = Finished \<and> cf_received x = ''a'' @ [newline] \<and>
     cf_processed x = cf_received x \<and> \<not> cf_read_failed x \<and> rc_trace (snd (cf_state x)) = [''a'']"
proof -
  let ?h = list_handler
  define x1 where "x1 = receive_to_spool (''a'' @ [newline]) (initial demo_receiver)"
  define x2 where "x2 = x1\<lparr>cf_state := ((cf_conn x1)\<lparr>cn_done := True\<rparr>, snd (cf_state x1))\<rparr>"
  define x3 where "x3 = x2\<lparr>cf_phase := Spooling (cn_done (cf_conn x2))\<rparr>"
  define x4 where "x4 = x3\<lparr>cf_state := process ?h (''a'' @ [newline]) ((cf_conn x3)\<lparr>cn_spool := []\<rparr>, snd (cf_state x3)),
    cf_processed := cf_processed x3 @ ''a'' @ [newline]\<rparr>"
  define x5 where "x5 = x4\<lparr>cf_phase := Memory True\<rparr>"
  define x6 where "x6 = x5\<lparr>cf_state := finish_conn (cf_state x5), cf_phase := Finished\<rparr>"
  note d = x1_def x2_def x3_def x4_def x5_def x6_def
  have w1: "view x1 = (''a'' @ [newline], [], False, False, Outside, ''a'' @ [newline], [], False)" unfolding x1_def using views(4) [OF views(1)] by simp
  have w2: "view x2 = (''a'' @ [newline], [], False, True, Outside, ''a'' @ [newline], [], False)" unfolding x2_def by (rule views(3) [OF w1])
  have w3: "view x3 = (''a'' @ [newline], [], False, True, Spooling True, ''a'' @ [newline], [], False)"
    unfolding x3_def using views(2) [OF w2] w2 by (simp add: view_eq)
  have w4: "view x4 = ([], [], False, True, Spooling True, ''a'' @ [newline], ''a'' @ [newline], False)"
    unfolding x4_def using views(7) [OF w3] by (simp add: view_eq)
  have w5: "view x5 = ([], [], False, True, Memory True, ''a'' @ [newline], ''a'' @ [newline], False)" unfolding x5_def by (rule views(2) [OF w4])
  have w6: "view x6 = ([], [], False, True, Finished, ''a'' @ [newline], ''a'' @ [newline], False)" unfolding x6_def by (rule views(8) [OF w5])
  note w = w1 w2 w3 w4 w5 w6
  note w = w [unfolded view_eq]
  have w0: "\<not> cn_done (cf_conn (initial demo_receiver))" "\<not> cn_failed (cf_conn (initial demo_receiver))" using views(1) [of demo_receiver] by (simp_all add: view_eq)
  have r1: "reachable ?h demo_receiver x1" unfolding x1_def by (rule reachable.more [OF start step.recv [OF w0]])
  have r2: "reachable ?h demo_receiver x2" unfolding x2_def by (rule reachable.more [OF r1 step.eof]) (simp add: w)
  have r3: "reachable ?h demo_receiver x3" unfolding x3_def by (rule reachable.more [OF r2 step.drain]) (simp add: w)
  have "reachable ?h demo_receiver (read_spool ?h x3)" by (rule reachable.more [OF r3 step.read [of _ True]]) (simp_all add: w)
  then have r4: "reachable ?h demo_receiver x4" unfolding x4_def using read_all [of x3 "''a'' @ [newline]" ?h] w by simp
  have r5: "reachable ?h demo_receiver x5" unfolding x5_def by (rule reachable.more [OF r4 step.read_end]) (simp_all add: w)
  have r6: "reachable ?h demo_receiver x6" unfolding x6_def by (rule reachable.more [OF r5 step.finish]) (simp_all add: w)
  have v: "cf_phase x6 = Finished" "cf_received x6 = ''a'' @ [newline]" "\<not> cn_failed (cf_conn x6)" "\<not> cf_read_failed x6" using w by simp_all
  have "rc_trace (snd (cf_state x6)) = [''a'']" unfolding d by code_simp
  with finished_connection [OF r6 v(1)] v r6 show ?thesis by auto
qed

text \<open>
  C39. A spool failure can reorder records: the parser finds the spool empty, then the reader
  writes a record to it and keeps the next one in memory because the write fails; the parser
  goes on to the memory and processes the second record before the first.
\<close>

theorem spool_failure_reorders:
  "\<exists>x. reachable list_handler demo_receiver x \<and> cf_phase x = Finished \<and>
     cf_received x = ''a'' @ [newline] @ ''b'' @ [newline] \<and> cf_processed x = ''b'' @ [newline] @ ''a'' @ [newline] \<and>
     rc_trace (snd (cf_state x)) = [''b'', ''a'']"
proof -
  let ?h = list_handler
  define A B where "A = ''a'' @ [newline]" and "B = ''b'' @ [newline]"
  define y1 where "y1 = (initial demo_receiver)\<lparr>cf_phase := Spooling (cn_done (cf_conn (initial demo_receiver)))\<rparr>"
  define y2 where "y2 = y1\<lparr>cf_phase := Memory False\<rparr>"
  define y3 where "y3 = spool_failure (''a'' @ [newline]) (''b'' @ [newline]) ''no space'' y2"
  define y4 where "y4 = pop_memory ?h y3"
  define y5 where "y5 = y4\<lparr>cf_phase := Outside\<rparr>"
  define y6 where "y6 = y5\<lparr>cf_state := ((cf_conn y5)\<lparr>cn_done := True\<rparr>, snd (cf_state y5))\<rparr>"
  define y7 where "y7 = y6\<lparr>cf_phase := Spooling (cn_done (cf_conn y6))\<rparr>"
  define y8 where "y8 = y7\<lparr>cf_state := process ?h (''a'' @ [newline]) ((cf_conn y7)\<lparr>cn_spool := []\<rparr>, snd (cf_state y7)),
    cf_processed := cf_processed y7 @ ''a'' @ [newline]\<rparr>"
  define y9 where "y9 = y8\<lparr>cf_phase := Memory True\<rparr>"
  define y where "y = y9\<lparr>cf_state := finish_conn (cf_state y9), cf_phase := Finished\<rparr>"
  note d = y1_def y2_def y3_def y4_def y5_def y6_def y7_def y8_def y9_def y_def
  have w1: "view y1 = ([], [], False, False, Spooling False, [], [], False)" unfolding y1_def using views(1) views(2) [OF views(1)] by (simp add: view_eq)
  have w2: "view y2 = ([], [], False, False, Memory False, [], [], False)" unfolding y2_def by (rule views(2) [OF w1])
  have w3: "view y3 = (A, [B], True, False, Memory False, A @ B, [], False)" unfolding y3_def using views(5) [OF w2] by (simp add: A_def B_def)
  have w4: "view y4 = (A, [], True, False, Memory False, A @ B, B, False)" unfolding y4_def using views(6) [OF w3] by simp
  have w5: "view y5 = (A, [], True, False, Outside, A @ B, B, False)" unfolding y5_def by (rule views(2) [OF w4])
  have w6: "view y6 = (A, [], True, True, Outside, A @ B, B, False)" unfolding y6_def by (rule views(3) [OF w5])
  have w7: "view y7 = (A, [], True, True, Spooling True, A @ B, B, False)" unfolding y7_def using views(2) [OF w6] w6 by (simp add: view_eq)
  have w8: "view y8 = ([], [], True, True, Spooling True, A @ B, B @ A, False)" unfolding y8_def using views(7) [OF w7] by (simp add: A_def)
  have w9: "view y9 = ([], [], True, True, Memory True, A @ B, B @ A, False)" unfolding y9_def by (rule views(2) [OF w8])
  have wy: "view y = ([], [], True, True, Finished, A @ B, B @ A, False)" unfolding y_def by (rule views(8) [OF w9])
  note w = views(1) w1 w2 w3 w4 w5 w6 w7 w8 w9 wy
  note w = w [unfolded view_eq]
  have r1: "reachable ?h demo_receiver y1" unfolding y1_def by (rule reachable.more [OF start step.drain]) (simp add: w)
  have r2: "reachable ?h demo_receiver y2" unfolding y2_def by (rule reachable.more [OF r1 step.read_end]) (simp_all add: w)
  have r3: "reachable ?h demo_receiver y3" unfolding y3_def by (rule reachable.more [OF r2 step.fail]) (simp_all add: w)
  have r4: "reachable ?h demo_receiver y4" unfolding y4_def by (rule reachable.more [OF r3 step.pop [of _ False]]) (simp_all add: w)
  have r5: "reachable ?h demo_receiver y5" unfolding y5_def by (rule reachable.more [OF r4 step.again]) (simp_all add: w)
  have r6: "reachable ?h demo_receiver y6" unfolding y6_def by (rule reachable.more [OF r5 step.eof]) (simp_all add: w)
  have r7: "reachable ?h demo_receiver y7" unfolding y7_def by (rule reachable.more [OF r6 step.drain]) (simp_all add: w)
  have "reachable ?h demo_receiver (read_spool ?h y7)" by (rule reachable.more [OF r7 step.read [of _ True]]) (simp_all add: w A_def)
  then have r8: "reachable ?h demo_receiver y8" unfolding y8_def using read_all [of y7 A ?h] w by (simp add: A_def)
  have r9: "reachable ?h demo_receiver y9" unfolding y9_def by (rule reachable.more [OF r8 step.read_end]) (simp_all add: w)
  have r: "reachable ?h demo_receiver y" unfolding y_def by (rule reachable.more [OF r9 step.finish]) (simp_all add: w)
  have v: "cf_phase y = Finished" "cf_received y = A @ B" "cf_processed y = B @ A" using w by simp_all
  have "rc_trace (snd (cf_state y)) = [''b'', ''a'']" unfolding d by code_simp
  then show ?thesis using r v unfolding A_def B_def by fastforce
qed

text \<open>
  Property. Errors never cut a connection short: of the complete lines in a stretch of bytes, every
  data line is handed to the callback, in order and in the state the others left, also after one
  that raises; each exception is counted, as is every status record that does not parse, and the
  data lines are counted.
\<close>

theorem errors_are_counted:
  assumes "cn_tail c = []"
  shows "let r' = snd (process h bytes (c, r)); ls = data_lines bytes in
    rc_trace r' = fold (\<lambda>l t. fst (h l t)) ls (rc_trace r) \<and>
    rc_errors r' = rc_errors r + raised h ls (rc_trace r) \<and>
    rc_malformed r' = rc_malformed r + int (length (filter (\<lambda>l. is_status l \<and> parse_xport l = None) (complete_lines bytes))) \<and>
    rc_lines r' = rc_lines r + int (length ls)"
proof (cases "newline \<in> set bytes")
  case False
  then show ?thesis using assms by (simp add: process_def data_lines_def complete_lines_def Let_def)
next
  case True
  have "rc_trace (snd (settle t n x)) = rc_trace (snd x)" "rc_errors (snd (settle t n x)) = rc_errors (snd x)"
    "rc_malformed (snd (settle t n x)) = rc_malformed (snd x)" "rc_lines (snd (settle t n x)) = rc_lines (snd x)"
    for t n and x :: "'a cr" by (simp_all add: settle_def)
  with True show ?thesis
    using assms lines_of_counts [of h "split_on newline (fst (rpartition_at newline bytes))" "(c, r)"]
    by (simp add: process_lines data_lines_def complete_lines_def Let_def)
qed

lemma errors_are_counted_witness:
  "rc_trace (snd (process list_handler (''bad'' @ [newline] @ ''ok'' @ [newline]) (new_conn, demo_receiver))) = [''bad'', ''ok''] \<and>
   rc_errors (snd (process list_handler (''bad'' @ [newline] @ ''ok'' @ [newline]) (new_conn, demo_receiver))) = 1"
proof -
  have "cn_tail new_conn = []" by code_simp
  from errors_are_counted [OF this, of list_handler "''bad'' @ [newline] @ ''ok'' @ [newline]" demo_receiver]
  have "rc_trace (snd (process list_handler (''bad'' @ [newline] @ ''ok'' @ [newline]) (new_conn, demo_receiver))) =
      fold (\<lambda>l t. fst (list_handler l t)) (data_lines (''bad'' @ [newline] @ ''ok'' @ [newline])) (rc_trace demo_receiver)"
    "rc_errors (snd (process list_handler (''bad'' @ [newline] @ ''ok'' @ [newline]) (new_conn, demo_receiver))) =
      rc_errors demo_receiver + raised list_handler (data_lines (''bad'' @ [newline] @ ''ok'' @ [newline])) (rc_trace demo_receiver)"
    by (simp_all add: Let_def)
  moreover have "data_lines (''bad'' @ [newline] @ ''ok'' @ [newline]) = [''bad'', ''ok'']" by code_simp
  ultimately show ?thesis by (simp add: list_handler_def demo_receiver_def new_receiver_def)
qed

end
