(* ===== verification/Correlation.thy ===== *)
theory Correlation
  imports Gpu_Spans
begin

text \<open>
  \<^verbatim>\<open>src/src/core/gpu_activity.py\<close>, \<open>correlate\<close> and the device clock corrections: which host
  submission produced a device span, and how far a device's drifting clock has to be moved. The
  spans are given with their indexes, so a list is its enumeration and a dictionary itself. The
  correction is computed with floats in the code and exactly here.
\<close>

type_synonym spans = "(nat, span_event) dict"

definition span_at :: "spans \<Rightarrow> nat \<Rightarrow> span_event" where
  "span_at sp i = the (map_of sp i)"

section \<open>Correlation\<close>

record correlation =
  host_of :: "(nat, nat) dict"
  confidence :: "(nat, string) dict"
  devices_of :: "(nat, nat list) dict"
  unmatched :: "nat list"
  precedes_submission :: "nat list"
  ambiguous :: int

definition no_correlation :: correlation where
  "no_correlation = \<lparr>host_of = [], confidence = [], devices_of = [], unmatched = [], precedes_submission = [], ambiguous = 0\<rparr>"

text \<open>\<open>v and v != "0"\<close> of a correlation tag.\<close>

definition corr_value :: "span_event \<Rightarrow> string \<Rightarrow> string option" where
  "corr_value s k = (case tag s k of None \<Rightarrow> None | Some v \<Rightarrow> if v \<noteq> [] \<and> v \<noteq> ''0'' then Some v else None)"

definition host_keys :: "span_event \<Rightarrow> (string \<times> string) list" where
  "host_keys s =
     (if tag_truthy s ''lid'' then [(''lid'', the (tag s ''lid''))] else [])
     @ concat (map (\<lambda>k. case corr_value s k of None \<Rightarrow> [] | Some v \<Rightarrow> [(''corr'', v)]) [''corr'', ''corr2''])"

type_synonym host_key = "int \<times> string \<times> string \<times> string"

definition rt_of :: "span_event \<Rightarrow> string" where
  "rt_of s = the (tag s ''rt'')"

definition index_host :: "nat \<times> span_event \<Rightarrow> (host_key, nat list) dict \<Rightarrow> (host_key, nat list) dict" where
  "index_host p d =
     (let (i, s) = p in
      if is_host_submission s
      then fold (\<lambda>(kind, val). dict_append (pid s, rt_of s, kind, val) i) (host_keys s) d else d)"

definition host_index :: "spans \<Rightarrow> (host_key, nat list) dict" where
  "host_index sp =
     map (\<lambda>(k, is). (k, sort_key (\<lambda>i. start_ns (span_at sp i)) is)) (fold index_host sp [])"

text \<open>The candidates of a device span, in start order: by \<open>lid\<close>, else by either native id.\<close>

definition add_candidates :: "nat list \<Rightarrow> nat list \<Rightarrow> nat list" where
  "add_candidates hs cands = fold (\<lambda>h cs. if h \<in> set cs then cs else cs @ [h]) hs cands"

definition corr_candidates :: "spans \<Rightarrow> (host_key, nat list) dict \<Rightarrow> span_event \<Rightarrow> nat list" where
  "corr_candidates sp idx s =
     sort_key (\<lambda>h. start_ns (span_at sp h))
       (fold (\<lambda>k cands. case corr_value s k of
            None \<Rightarrow> cands
          | Some v \<Rightarrow> add_candidates (dict_get idx (pid s, rt_of s, ''corr'', v) []) cands) [''corr'', ''corr2''] [])"

definition lid_candidates :: "(host_key, nat list) dict \<Rightarrow> span_event \<Rightarrow> nat list" where
  "lid_candidates idx s =
     (if tag_truthy s ''lid'' then dict_get idx (pid s, rt_of s, ''lid'', the (tag s ''lid'')) [] else [])"

definition host_candidates :: "spans \<Rightarrow> (host_key, nat list) dict \<Rightarrow> span_event \<Rightarrow> nat list" where
  "host_candidates sp idx s =
     (let cands = lid_candidates idx s in if cands = [] then corr_candidates sp idx s else cands)"

definition pick_host :: "spans \<Rightarrow> nat list \<Rightarrow> int \<Rightarrow> nat" where
  "pick_host sp cands t =
     (let starts = map (\<lambda>h. start_ns (span_at sp h)) cands in
      if length cands = 1 then hd cands
      else
        (let j = bisect_right starts t;
             before = (if j > 0 then Some (cands ! (j - 1)) else None);
             after = (if j < length cands then Some (cands ! j) else None)
         in case (before, after) of
              (Some b, Some a) \<Rightarrow>
                if start_ns (span_at sp a) - t < t - start_ns (span_at sp b) then a else b
            | (Some b, None) \<Rightarrow> b
            | (None, Some a) \<Rightarrow> a
            | (None, None) \<Rightarrow> hd cands))"

definition link :: "spans \<Rightarrow> nat list \<Rightarrow> nat \<Rightarrow> span_event \<Rightarrow> correlation \<Rightarrow> correlation" where
  "link sp cands i s out =
     (let pick = pick_host sp cands (start_ns s);
          one = (length cands = 1)
      in out\<lparr>precedes_submission :=
               (if start_ns (span_at sp pick) > start_ns s + CLOCK_TOLERANCE_NS
                then precedes_submission out @ [i] else precedes_submission out),
             host_of := AList.update i pick (host_of out),
             confidence := AList.update i (if one then ''certain'' else ''high'') (confidence out),
             ambiguous := (if one then ambiguous out else ambiguous out + 1),
             devices_of := dict_append pick i (devices_of out)\<rparr>)"

definition correlate_step :: "spans \<Rightarrow> (host_key, nat list) dict \<Rightarrow> nat \<times> span_event \<Rightarrow> correlation \<Rightarrow> correlation" where
  "correlate_step sp idx p out =
     (let (i, s) = p in
      if \<not> is_device_span s then out
      else
        (let cands = host_candidates sp idx s in
         if cands = [] then
           (if tag_truthy s ''lid'' \<or> tag_truthy s ''corr'' then out\<lparr>unmatched := unmatched out @ [i]\<rparr> else out)
         else link sp cands i s out))"

definition correlate :: "spans \<Rightarrow> correlation" where
  "correlate sp = fold (correlate_step sp (host_index sp)) sp no_correlation"

section \<open>Device clock corrections\<close>

definition or_tag :: "span_event \<Rightarrow> string \<Rightarrow> string \<Rightarrow> string option" where
  "or_tag s k k' = (if tag_truthy s k then tag s k else tag s k')"

type_synonym clock_key = "int \<times> string \<times> string"

definition device_clock_key :: "span_event \<Rightarrow> clock_key" where
  "device_clock_key s = (pid s, rt_of s, case or_tag s ''dev'' ''ctx'' of None \<Rightarrow> [] | Some v \<Rightarrow> v)"

text \<open>An integer tag is false when missing, malformed or 0.\<close>

definition clock_evidence_ns :: "span_event \<Rightarrow> int" where
  "clock_evidence_ns d =
     (case int_tag d ''submitted'' of
        None \<Rightarrow> start_ns d
      | Some n \<Rightarrow> if n \<noteq> 0 \<and> n \<le> start_ns d then n else start_ns d)"

definition submission_bound :: "span_event \<Rightarrow> span_event \<Rightarrow> int" where
  "submission_bound h d =
     (case int_tag d ''queued'' of
        None \<Rightarrow> start_ns h
      | Some q \<Rightarrow> if q \<noteq> 0 \<and> start_ns h \<le> q \<and> q \<le> end_ns h then q else start_ns h)"

definition measured_work :: "span_event \<Rightarrow> bool" where
  "measured_work s \<longleftrightarrow> timing_source s = TIMING_DEVICE \<and> op_of s \<in> set DEVICE_WORK_OPS"

definition CLOCK_DRIFT_RATE :: rat where
  "CLOCK_DRIFT_RATE = 1 / 10000"

record clock_correction =
  cc_rate :: rat
  cc_times :: "int list"
  cc_max_need :: int
  cc_fwd :: "rat list"
  cc_bwd :: "rat list"

type_synonym points = "(int \<times> int) list"

fun running_max :: "rat option \<Rightarrow> rat list \<Rightarrow> rat list" where
  "running_max best [] = []"
| "running_max best (x # xs) =
     (let b = (case best of None \<Rightarrow> x | Some y \<Rightarrow> max y x) in b # running_max (Some b) xs)"

definition clock_correction :: "points \<Rightarrow> rat \<Rightarrow> clock_correction" where
  "clock_correction points rate =
     \<lparr>cc_rate = rate, cc_times = map fst points,
      cc_max_need = foldr (\<lambda>p m. max (snd p) m) points (snd (hd points)),
      cc_fwd = running_max None (map (\<lambda>(t, n). of_int n + rate * of_int t) points),
      cc_bwd = rev (running_max None (map (\<lambda>(t, n). of_int n - rate * of_int t) (rev points)))\<rparr>"

definition correction_at :: "clock_correction \<Rightarrow> int \<Rightarrow> int" where
  "correction_at cc t =
     (let j = bisect_right (cc_times cc) t;
          c = (if j > 0 then max 0 (cc_fwd cc ! (j - 1) - cc_rate cc * of_int t) else 0);
          c = (if j < length (cc_times cc) then max c (cc_bwd cc ! j + cc_rate cc * of_int t) else c)
      in py_round c)"

definition add_need :: "spans \<Rightarrow> nat list \<Rightarrow> nat \<times> nat \<Rightarrow> (clock_key, points) dict \<Rightarrow> (clock_key, points) dict" where
  "add_need sp exclude p needs =
     (let (d, h) = p; dev = span_at sp d in
      if d \<in> set exclude \<or> \<not> measured_work dev then needs
      else
        (let n = submission_bound (span_at sp h) dev - clock_evidence_ns dev in
         if n > 0 then dict_append (device_clock_key dev) (clock_evidence_ns dev, n) needs else needs))"

definition device_clock_corrections :: "spans \<Rightarrow> correlation \<Rightarrow> nat list \<Rightarrow> (clock_key, clock_correction) dict" where
  "device_clock_corrections sp corr exclude =
     map (\<lambda>(k, pts). (k, clock_correction (sort pts) CLOCK_DRIFT_RATE)) (fold (add_need sp exclude) (host_of corr) [])"

definition submission_ns :: "spans \<Rightarrow> correlation \<Rightarrow> nat \<Rightarrow> int" where
  "submission_ns sp corr i =
     (case map_of (host_of corr) i of Some h \<Rightarrow> start_ns (span_at sp h) | None \<Rightarrow> start_ns (span_at sp i))"

end
