(* ===== verification/Correlation_Facts.thy ===== *)
theory Correlation_Facts
  imports Correlation
begin

text \<open>
  Every device span is linked to the nearest of the submissions that carry its id, and the clock
  correction is the least function with the bounds and the slope it promises.
\<close>

section \<open>The index of submissions\<close>

definition full_keys :: "span_event \<Rightarrow> host_key list" where
  "full_keys s = map (\<lambda>(kind, val). (pid s, rt_of s, kind, val)) (host_keys s)"

lemma fold_dict_append_get:
  "dict_get (fold (\<lambda>k. dict_append k i) ks d) k [] = dict_get d k [] @ replicate (count_list ks k) i"
  by (induction ks arbitrary: d) (auto simp: replicate_append_same)

lemma index_host_fold: "index_host (i, s) d = (if is_host_submission s then fold (\<lambda>k. dict_append k i) (full_keys s) d else d)"
  by (simp add: index_host_def full_keys_def fold_map comp_def case_prod_unfold)

lemma fold_index_get:
  "dict_get (fold index_host xs d) k [] =
     dict_get d k [] @ concat (map (\<lambda>(i, s). if is_host_submission s then replicate (count_list (full_keys s) k) i else []) xs)"
proof (induction xs arbitrary: d)
  case (Cons p xs)
  obtain i s where p: "p = (i, s)" by fastforce
  have "dict_get (index_host p d) k [] =
      dict_get d k [] @ (if is_host_submission s then replicate (count_list (full_keys s) k) i else [])"
    unfolding p index_host_fold by (simp add: fold_dict_append_get)
  then show ?case using Cons.IH [of "index_host p d"] p by simp
qed simp

lemma dict_get_map: "f [] = [] \<Longrightarrow> dict_get (map (\<lambda>(k, v). (k, f v)) d) k [] = f (dict_get d k [])"
  by (simp add: dict_get_def map_of_map split: option.splits)

abbreviation start_of :: "spans \<Rightarrow> nat \<Rightarrow> int" where
  "start_of sp h \<equiv> start_ns (span_at sp h)"

lemma host_index_get:
  "dict_get (host_index sp) k [] = sort_key (start_of sp)
     (concat (map (\<lambda>(i, s). if is_host_submission s then replicate (count_list (full_keys s) k) i else []) sp))"
  unfolding host_index_def by (subst dict_get_map) (simp_all add: fold_index_get)

lemma span_at_item: "dict_ok sp \<Longrightarrow> (i, s) \<in> set sp \<Longrightarrow> span_at sp i = s"
  by (simp add: span_at_def)

lemma host_index_set:
  "set (dict_get (host_index sp) k []) = {i. \<exists>s. (i, s) \<in> set sp \<and> is_host_submission s \<and> k \<in> set (full_keys s)}"
  unfolding host_index_get by (auto simp: count_list_0_iff split: if_splits)

lemma distinct_concat_singles:
  assumes "distinct (map fst xs)" "\<And>i s. (i, s) \<in> set xs \<Longrightarrow> f (i, s) = [] \<or> f (i, s) = [i]"
  shows "distinct (concat (map f xs)) \<and> set (concat (map f xs)) \<subseteq> fst ` set xs"
  using assms
proof (induction xs)
  case (Cons p xs)
  obtain i s where p: "p = (i, s)" by fastforce
  have "f p = [] \<or> f p = [i]" using Cons.prems(2) [of i s] p by simp
  moreover have "distinct (concat (map f xs)) \<and> set (concat (map f xs)) \<subseteq> fst ` set xs"
    using Cons by auto
  moreover from this have "i \<notin> set (concat (map f xs))" using Cons.prems(1) p by auto
  ultimately show ?case using p by (elim disjE) (auto simp del: set_concat)
qed simp

section \<open>Candidates\<close>

definition corr_values :: "span_event \<Rightarrow> string set" where
  "corr_values s = {v. corr_value s ''corr'' = Some v \<or> corr_value s ''corr2'' = Some v}"

definition same_runtime :: "span_event \<Rightarrow> span_event \<Rightarrow> bool" where
  "same_runtime a b \<longleftrightarrow> pid a = pid b \<and> rt_of a = rt_of b"

text \<open>The submissions that carry a device span's id.\<close>

definition by_lid :: "spans \<Rightarrow> span_event \<Rightarrow> nat set" where
  "by_lid sp d = {h. \<exists>s. (h, s) \<in> set sp \<and> is_host_submission s \<and> same_runtime s d
     \<and> tag_truthy d ''lid'' \<and> tag s ''lid'' = tag d ''lid''}"

definition by_corr :: "spans \<Rightarrow> span_event \<Rightarrow> nat set" where
  "by_corr sp d = {h. \<exists>s. (h, s) \<in> set sp \<and> is_host_submission s \<and> same_runtime s d \<and> corr_values s \<inter> corr_values d \<noteq> {}}"

definition eligible :: "spans \<Rightarrow> span_event \<Rightarrow> nat set" where
  "eligible sp d = (if by_lid sp d \<noteq> {} then by_lid sp d else by_corr sp d)"

lemma lid_key: "(p, r, ''lid'', v) \<in> set (full_keys s) \<longleftrightarrow> pid s = p \<and> rt_of s = r \<and> tag s ''lid'' = Some v \<and> v \<noteq> []"
  by (auto simp: full_keys_def host_keys_def tag_truthy_def split: option.splits if_splits)

lemma corr_key: "(p, r, ''corr'', v) \<in> set (full_keys s) \<longleftrightarrow> pid s = p \<and> rt_of s = r \<and> v \<in> corr_values s"
  by (auto simp: full_keys_def host_keys_def corr_values_def split: option.splits if_splits)

lemma lid_key_once: "count_list (full_keys s) (p, r, ''lid'', v) \<le> 1"
  by (auto simp: full_keys_def host_keys_def split: option.splits)

lemma lid_candidates_set: "set (lid_candidates (host_index sp) d) = by_lid sp d"
proof (cases "tag_truthy d ''lid''")
  case True
  then obtain v where "tag d ''lid'' = Some v" "v \<noteq> []" by (auto simp: tag_truthy_def split: option.splits)
  then show ?thesis using True
    by (auto simp: lid_candidates_def host_index_set lid_key by_lid_def same_runtime_def)
qed (simp add: lid_candidates_def by_lid_def)

lemma add_candidates_set [simp]: "set (add_candidates hs cs) = set hs \<union> set cs"
  unfolding add_candidates_def by (induction hs arbitrary: cs) auto

lemma add_candidates_distinct: "distinct cs \<Longrightarrow> distinct (add_candidates hs cs)"
  unfolding add_candidates_def by (induction hs arbitrary: cs) auto

lemma corr_candidates_set: "set (corr_candidates sp (host_index sp) d) = by_corr sp d"
proof -
  have "set (corr_candidates sp (host_index sp) d) =
      (\<Union>v\<in>corr_values d. set (dict_get (host_index sp) (pid d, rt_of d, ''corr'', v) []))"
    by (cases "corr_value d ''corr''"; cases "corr_value d ''corr2''") (auto simp: corr_candidates_def corr_values_def)
  also have "\<dots> = by_corr sp d"
    unfolding host_index_set corr_key by (auto simp: by_corr_def same_runtime_def)
  finally show ?thesis .
qed

lemma host_candidates_set: "set (host_candidates sp (host_index sp) d) = eligible sp d"
  using lid_candidates_set [of sp d] corr_candidates_set [of sp d]
  by (auto simp: host_candidates_def eligible_def Let_def)

lemma host_candidates_sorted: "sorted (map (start_of sp) (host_candidates sp (host_index sp) d))"
  by (auto simp: host_candidates_def lid_candidates_def corr_candidates_def host_index_get Let_def)

lemma host_candidates_distinct:
  assumes "dict_ok sp"
  shows "distinct (host_candidates sp (host_index sp) d)"
proof -
  have "distinct (lid_candidates (host_index sp) d)"
  proof -
    have once: "replicate (count_list (full_keys s) (pid d, rt_of d, ''lid'', v)) i \<in> {[], [i]}" for v s and i :: nat
      using lid_key_once [of s "pid d" "rt_of d" v] by (auto simp: le_Suc_eq)
    have "distinct (dict_get (host_index sp) (pid d, rt_of d, ''lid'', v) [])" for v
      unfolding host_index_get distinct_sort
      by (rule conjunct1, rule distinct_concat_singles [OF assms])
        (use once in auto)
    then show ?thesis by (simp add: lid_candidates_def)
  qed
  moreover have "distinct (corr_candidates sp (host_index sp) d)"
    by (auto simp: corr_candidates_def intro!: add_candidates_distinct split: option.splits)
  ultimately show ?thesis by (simp add: host_candidates_def Let_def)
qed

section \<open>Picking\<close>

text \<open>The picked submission is the nearest one in time; of two as near, the earlier.\<close>

definition nearest :: "spans \<Rightarrow> nat set \<Rightarrow> int \<Rightarrow> nat \<Rightarrow> bool" where
  "nearest sp H t h \<longleftrightarrow> h \<in> H \<and>
     (\<forall>h'\<in>H. \<bar>start_of sp h - t\<bar> \<le> \<bar>start_of sp h' - t\<bar> \<and>
        (\<bar>start_of sp h - t\<bar> = \<bar>start_of sp h' - t\<bar> \<longrightarrow> start_of sp h \<le> start_of sp h'))"

lemma pick_nearest:
  assumes "cands \<noteq> []" "sorted (map (start_of sp) cands)"
  shows "nearest sp (set cands) t (pick_host sp cands t)"
proof (cases "length cands = 1")
  case True
  then obtain c where "cands = [c]" by (auto simp: length_Suc_conv)
  then show ?thesis by (simp add: nearest_def pick_host_def)
next
  case False
  define j where "j = bisect_right (map (start_of sp) cands) t"
  have j: "j \<le> length cands" "\<And>i. i < length cands \<Longrightarrow> start_of sp (cands ! i) \<le> t \<longleftrightarrow> i < j"
    using bisect_right_splits [OF assms(2), of t] by (auto simp: splits_at_def j_def)
  have mono: "start_of sp (cands ! a) \<le> start_of sp (cands ! b)" if "a \<le> b" "b < length cands" for a b
    using sorted_nth_mono [OF assms(2), of a b] that by simp
  have bef: "start_of sp (cands ! i) \<le> start_of sp (cands ! (j - 1))" if "i < j" for i
    using mono [of i "j - 1"] that j(1) by simp
  have aft: "start_of sp (cands ! j) \<le> start_of sp (cands ! i)" if "j \<le> i" "i < length cands" for i
    using mono [of j i] that by simp
  have p: "pick_host sp cands t =
      (if j = 0 then cands ! j
       else if j = length cands then cands ! (j - 1)
       else if start_of sp (cands ! j) - t < t - start_of sp (cands ! (j - 1)) then cands ! j else cands ! (j - 1))"
    unfolding pick_host_def Let_def j_def [symmetric] using False assms(1) j(1) by simp
  have one: "nearest sp (set cands) t (cands ! k)" if k: "k < length cands"
      and all: "\<And>i. i < length cands \<Longrightarrow> \<bar>start_of sp (cands ! k) - t\<bar> \<le> \<bar>start_of sp (cands ! i) - t\<bar> \<and>
        (\<bar>start_of sp (cands ! k) - t\<bar> = \<bar>start_of sp (cands ! i) - t\<bar> \<longrightarrow> start_of sp (cands ! k) \<le> start_of sp (cands ! i))" for k
    using k all unfolding nearest_def by (auto simp: in_set_conv_nth)
  have ne: "0 < length cands" using assms(1) by simp
  consider "j = 0" | "j = length cands" "j \<noteq> 0" | "0 < j" "j < length cands" using j(1) by linarith
  then show ?thesis
  proof cases
    case 1
    have "nearest sp (set cands) t (cands ! 0)"
      by (rule one) (use 1 ne j(2) aft in \<open>force simp: abs_if\<close>)+
    then show ?thesis using p 1 by simp
  next
    case 2
    have "nearest sp (set cands) t (cands ! (j - 1))"
    proof (rule one)
      fix i assume i: "i < length cands"
      then show "\<bar>start_of sp (cands ! (j - 1)) - t\<bar> \<le> \<bar>start_of sp (cands ! i) - t\<bar> \<and>
        (\<bar>start_of sp (cands ! (j - 1)) - t\<bar> = \<bar>start_of sp (cands ! i) - t\<bar> \<longrightarrow> start_of sp (cands ! (j - 1)) \<le> start_of sp (cands ! i))"
        using bef [of i] j(2) [OF i] j(2) [of "j - 1"] 2 by (auto simp: abs_if)
    qed (use 2 ne in simp)
    then show ?thesis using p 2 ne by simp
  next
    case 3
    let ?a = "start_of sp (cands ! j)" and ?b = "start_of sp (cands ! (j - 1))"
    have ab: "t < ?a" "?b \<le> t" using j(2) [of j] j(2) [of "j - 1"] 3 by auto
    have far: "start_of sp (cands ! i) \<le> ?b \<or> ?a \<le> start_of sp (cands ! i)" if "i < length cands" for i
      using bef [of i] aft [of i] that by (cases "i < j") auto
    show ?thesis
    proof (cases "?a - t < t - ?b")
      case True
      have "nearest sp (set cands) t (cands ! j)"
        by (rule one) (use 3 far ab True in \<open>force simp: abs_if\<close>)+
      then show ?thesis using p 3 True by simp
    next
      case False
      have "nearest sp (set cands) t (cands ! (j - 1))"
        by (rule one) (use 3 far ab False in \<open>force simp: abs_if\<close>)+
      then show ?thesis using p 3 False by simp
    qed
  qed
qed

section \<open>The links\<close>

definition linked :: "spans \<Rightarrow> span_event \<Rightarrow> bool" where
  "linked sp s \<longleftrightarrow> is_device_span s \<and> eligible sp s \<noteq> {}"

lemma candidates_empty: "host_candidates sp (host_index sp) s = [] \<longleftrightarrow> eligible sp s = {}"
  using host_candidates_set [of sp s] by auto

lemma link_fields [simp]:
  "map_of (host_of (link sp cands i s out)) d =
     (if d = i then Some (pick_host sp cands (start_ns s)) else map_of (host_of out) d)"
  "map_of (confidence (link sp cands i s out)) d =
     (if d = i then Some (if length cands = 1 then ''certain'' else ''high'') else map_of (confidence out) d)"
  "unmatched (link sp cands i s out) = unmatched out"
  by (simp_all add: link_def Let_def update_conv')

lemma correlate_fold:
  assumes "dict_ok xs"
  shows "map_of (host_of (fold (correlate_step sp idx) xs out)) d =
     (case map_of xs d of
        Some s \<Rightarrow> if is_device_span s \<and> host_candidates sp idx s \<noteq> []
          then Some (pick_host sp (host_candidates sp idx s) (start_ns s)) else map_of (host_of out) d
      | None \<Rightarrow> map_of (host_of out) d)
   \<and> map_of (confidence (fold (correlate_step sp idx) xs out)) d =
     (case map_of xs d of
        Some s \<Rightarrow> if is_device_span s \<and> host_candidates sp idx s \<noteq> []
          then Some (if length (host_candidates sp idx s) = 1 then ''certain'' else ''high'') else map_of (confidence out) d
      | None \<Rightarrow> map_of (confidence out) d)"
  using assms
proof (induction xs arbitrary: out)
  case (Cons p xs)
  obtain i s where p: "p = (i, s)" by fastforce
  have none: "map_of xs i = None" using Cons.prems p by (simp add: map_of_eq_None_iff)
  have "dict_ok xs" using Cons.prems by simp
  note IH = Cons.IH [OF this, of "correlate_step sp idx p out"]
  show ?case using IH none by (auto simp: p correlate_step_def Let_def split: option.splits)
qed simp

lemma host_of_at:
  assumes "dict_ok sp" "map_of sp d = Some s"
  shows "map_of (host_of (correlate sp)) d =
      (if linked sp s then Some (pick_host sp (host_candidates sp (host_index sp) s) (start_ns s)) else None)"
    "map_of (confidence (correlate sp)) d =
      (if linked sp s then Some (if length (host_candidates sp (host_index sp) s) = 1 then ''certain'' else ''high'') else None)"
  using correlate_fold [OF assms(1), of sp "host_index sp" no_correlation d] assms(2)
  by (auto simp: correlate_def linked_def candidates_empty no_correlation_def)

lemma host_of_outside: "dict_ok sp \<Longrightarrow> map_of sp d = None \<Longrightarrow> map_of (host_of (correlate sp)) d = None"
  using correlate_fold [of sp sp "host_index sp" no_correlation d] by (simp add: correlate_def no_correlation_def)

lemma linked_nearest:
  assumes "dict_ok sp" "map_of sp d = Some s" "map_of (host_of (correlate sp)) d = Some h"
  shows "linked sp s" "nearest sp (eligible sp s) (start_ns s) h"
proof -
  show l: "linked sp s" using host_of_at(1) [OF assms(1,2)] assms(3) by (auto split: if_splits)
  then have "host_candidates sp (host_index sp) s \<noteq> []" by (simp add: linked_def candidates_empty)
  from pick_nearest [OF this host_candidates_sorted] l
  show "nearest sp (eligible sp s) (start_ns s) h"
    using host_of_at(1) [OF assms(1,2)] assms(3) by (simp add: host_candidates_set)
qed

lemma eligible_host:
  assumes "dict_ok sp" "h \<in> eligible sp s"
  shows "\<exists>x. map_of sp h = Some x \<and> span_at sp h = x \<and> is_host_submission x \<and> same_runtime x s"
  using assms by (auto simp: eligible_def by_lid_def by_corr_def span_at_def split: if_splits)

text \<open>
  C9. Correlation links exactly the device spans for which a submission of the same process and
  runtime carries their id (the hook's own id if it matches, else either native id), each to the
  submission nearest in time, the earlier of two as near, and calls the link certain exactly
  when there was only one.
\<close>

theorem correlate_nearest:
  assumes "dict_ok sp" "map_of sp d = Some s"
  shows "case map_of (host_of (correlate sp)) d of
      None \<Rightarrow> \<not> (is_device_span s \<and> eligible sp s \<noteq> {})
    | Some h \<Rightarrow> is_device_span s \<and> nearest sp (eligible sp s) (start_ns s) h \<and>
        (map_of (confidence (correlate sp)) d = Some ''certain'' \<longleftrightarrow> card (eligible sp s) = 1)"
proof (cases "map_of (host_of (correlate sp)) d")
  case None
  then show ?thesis using host_of_at(1) [OF assms] by (auto simp: linked_def split: if_splits)
next
  case (Some h)
  have "card (eligible sp s) = length (host_candidates sp (host_index sp) s)"
    using distinct_card [OF host_candidates_distinct [OF assms(1)], of s] by (simp add: host_candidates_set)
  then show ?thesis
    using linked_nearest [OF assms Some] host_of_at(2) [OF assms] Some by (simp add: linked_def)
qed

text \<open>A device span between two submissions that reuse an id, nearer to the second.\<close>

definition demo_submissions :: spans where
  "demo_submissions = List.enumerate 0
     [mk_span ''launch'' GPU_CUDA 100 10 1 7 [(''side'', ''cpu''), (''rt'', ''cuda''), (''corr'', ''9'')],
      mk_span ''launch'' GPU_CUDA 500 10 1 7 [(''side'', ''cpu''), (''rt'', ''cuda''), (''corr'', ''9'')],
      mk_span ''k'' GPU_CUDA 460 90 1 0 [(''side'', ''gpu''), (''rt'', ''cuda''), (''corr'', ''9'')]]"

lemma correlate_nearest_witness:
  "map_of (host_of (correlate demo_submissions)) 2 = Some 1 \<and>
   nearest demo_submissions (eligible demo_submissions (span_at demo_submissions 2)) 460 1"
proof -
  have 1: "dict_ok demo_submissions" by code_simp
  have 2: "map_of demo_submissions 2 = Some (span_at demo_submissions 2)" by code_simp
  have 3: "map_of (host_of (correlate demo_submissions)) 2 = Some 1" by code_simp
  have 4: "start_ns (span_at demo_submissions 2) = 460" by code_simp
  from correlate_nearest [OF 1 2] show ?thesis unfolding 3 4 by simp
qed

section \<open>The correction\<close>

lemma running_max_length [simp]: "length (running_max b xs) = length xs"
  by (induction xs arbitrary: b) (auto simp: Let_def)

lemma running_max_nth:
  "k < length xs \<Longrightarrow> (\<forall>x\<in>set (take (Suc k) xs). x \<le> running_max b xs ! k) \<and> (\<forall>y. b = Some y \<longrightarrow> y \<le> running_max b xs ! k) \<and>
     (running_max b xs ! k \<in> set (take (Suc k) xs) \<or> b = Some (running_max b xs ! k))"
proof (induction xs arbitrary: b k)
  case (Cons x xs)
  define m where "m = (case b of None \<Rightarrow> x | Some y \<Rightarrow> max y x)"
  have m: "x \<le> m" "\<forall>y. b = Some y \<longrightarrow> y \<le> m" "m = x \<or> b = Some m" by (auto simp: m_def max_def split: option.splits)
  have r: "running_max b (x # xs) = m # running_max (Some m) xs" by (simp add: m_def Let_def)
  show ?case
  proof (cases k)
    case 0
    then show ?thesis using m r by auto
  next
    case (Suc i)
    then have i: "i < length xs" using Cons.prems by simp
    have "m \<le> running_max (Some m) xs ! i" using Cons.IH [OF i, of "Some m"] by blast
    then show ?thesis using Cons.IH [OF i, of "Some m"] m unfolding r Suc by auto
  qed
qed simp

lemma running_max_Max:
  assumes "k < length xs"
  shows "running_max None xs ! k = Max (set (take (Suc k) xs))"
  using running_max_nth [OF assms, of None] by (intro Max_eqI [symmetric]) auto

lemma rev_running_max:
  assumes "k < length xs"
  shows "rev (running_max None (rev xs)) ! k = Max (set (drop k xs))"
proof -
  let ?i = "length xs - Suc k"
  have "rev (running_max None (rev xs)) ! k = running_max None (rev xs) ! ?i" using assms by (simp add: rev_nth)
  also have "\<dots> = Max (set (take (Suc ?i) (rev xs)))" using assms by (intro running_max_Max) simp
  also have "take (Suc ?i) (rev xs) = rev (drop k xs)" using assms by (simp add: take_rev Suc_diff_Suc)
  finally show ?thesis by simp
qed

text \<open>The pull of one record on the correction at time \<open>t\<close>, and the least correction.\<close>

definition pull :: "rat \<Rightarrow> int \<Rightarrow> int \<times> int \<Rightarrow> rat" where
  "pull rate t p = of_int (snd p) - rate * of_int \<bar>t - fst p\<bar>"

definition least_correction :: "points \<Rightarrow> rat \<Rightarrow> int \<Rightarrow> rat" where
  "least_correction pts rate t = Max (insert 0 (pull rate t ` set pts))"

lemma Max_shift:
  assumes "xs \<noteq> []"
  shows "Max (set xs) + (c :: rat) = Max ((\<lambda>x. x + c) ` set xs)"
  using assms by (intro Max_eqI [symmetric]) auto

lemma correction_at_least:
  assumes "sorted (map fst pts)"
  shows "correction_at (clock_correction pts rate) t = py_round (least_correction pts rate t)"
proof -
  define j where "j = bisect_right (map fst pts) t"
  have j: "j \<le> length pts" "\<And>i. i < length pts \<Longrightarrow> fst (pts ! i) \<le> t \<longleftrightarrow> i < j"
    using bisect_right_splits [OF assms, of t] by (auto simp: splits_at_def j_def)
  define A B where "A = pull rate t ` set (take j pts)" and "B = pull rate t ` set (drop j pts)"
  have fwd: "cc_fwd (clock_correction pts rate) ! (j - 1) - rate * of_int t = Max A" if "0 < j"
  proof -
    let ?f = "\<lambda>(t, n). of_int n + rate * of_int t"
    have "cc_fwd (clock_correction pts rate) ! (j - 1) = Max (set (take j (map ?f pts)))"
      using running_max_Max [of "j - 1" "map ?f pts"] that j(1) by (simp add: clock_correction_def)
    moreover have "take j (map ?f pts) \<noteq> []" using that j(1) by auto
    ultimately have "cc_fwd (clock_correction pts rate) ! (j - 1) - rate * of_int t =
        Max ((\<lambda>x. x + - (rate * of_int t)) ` set (take j (map ?f pts)))" using Max_shift [of "take j (map ?f pts)" "- (rate * of_int t)"] by simp
    also have "(\<lambda>x. x + - (rate * of_int t)) ` set (take j (map ?f pts)) = A"
    proof -
      have "?f p + - (rate * of_int t) = pull rate t p" if "p \<in> set (take j pts)" for p
      proof -
        obtain i where i: "i < j" "i < length pts" "p = pts ! i" using \<open>p \<in> set (take j pts)\<close> by (auto simp: in_set_conv_nth)
        then have "fst p \<le> t" using j(2) by simp
        then show ?thesis by (simp add: pull_def case_prod_unfold algebra_simps)
      qed
      then show ?thesis by (simp add: A_def take_map image_image cong: image_cong)
    qed
    finally show ?thesis .
  qed
  have bwd: "cc_bwd (clock_correction pts rate) ! j + rate * of_int t = Max B" if "j < length pts"
  proof -
    let ?f = "\<lambda>(t, n). of_int n - rate * of_int t"
    have "cc_bwd (clock_correction pts rate) ! j = Max (set (drop j (map ?f pts)))"
      using rev_running_max [of j "map ?f pts"] that by (simp add: clock_correction_def rev_map)
    moreover have "drop j (map ?f pts) \<noteq> []" using that by simp
    ultimately have "cc_bwd (clock_correction pts rate) ! j + rate * of_int t =
        Max ((\<lambda>x. x + rate * of_int t) ` set (drop j (map ?f pts)))" using Max_shift [of "drop j (map ?f pts)" "rate * of_int t"] by simp
    also have "(\<lambda>x. x + rate * of_int t) ` set (drop j (map ?f pts)) = B"
    proof -
      have "?f p + rate * of_int t = pull rate t p" if "p \<in> set (drop j pts)" for p
      proof -
        obtain i where i: "j \<le> i" "i < length pts" "p = pts ! i"
          using \<open>p \<in> set (drop j pts)\<close> by (auto simp: in_set_conv_nth) (metis le_add1 less_diff_conv add.commute)
        then have "t < fst p" using j(2) [of i] by simp
        then show ?thesis by (simp add: pull_def case_prod_unfold algebra_simps)
      qed
      then show ?thesis by (simp add: B_def drop_map image_image cong: image_cong)
    qed
    finally show ?thesis .
  qed
  have AB: "pull rate t ` set pts = A \<union> B" unfolding A_def B_def image_Un [symmetric] set_append [symmetric] by simp
  have fin: "finite A" "finite B" by (simp_all add: A_def B_def)
  have e: "A = {} \<longleftrightarrow> j = 0 \<or> pts = []" "B = {} \<longleftrightarrow> j = length pts" using j(1) by (auto simp: A_def B_def)
  have "Max (insert 0 (A \<union> B)) = (if j < length pts then max (if j > 0 then max 0 (Max A) else 0) (Max B)
      else (if j > 0 then max 0 (Max A) else 0))"
  proof (cases "A = {}")
    case True
    then have "j = 0" using e j(1) by auto
    then show ?thesis using True e(2) fin by (cases "B = {}") simp_all
  next
    case False
    then have j0: "0 < j" using e(1) by auto
    show ?thesis
    proof (cases "B = {}")
      case True
      then have "\<not> j < length pts" using e(2) by simp
      then show ?thesis using True False j0 fin by simp
    next
      case B: False
      then have "j < length pts" using e(2) j(1) by simp
      moreover have "Max (insert 0 (A \<union> B)) = max 0 (max (Max A) (Max B))" using B False fin by (simp add: Max_Un)
      ultimately show ?thesis using j0 by (simp add: max.assoc)
    qed
  qed
  moreover have "correction_at (clock_correction pts rate) t = py_round (if j < length pts
      then max (if j > 0 then max 0 (cc_fwd (clock_correction pts rate) ! (j - 1) - rate * of_int t) else 0)
             (cc_bwd (clock_correction pts rate) ! j + rate * of_int t)
      else (if j > 0 then max 0 (cc_fwd (clock_correction pts rate) ! (j - 1) - rate * of_int t) else 0))"
  proof -
    have "cc_times (clock_correction pts rate) = map fst pts" "cc_rate (clock_correction pts rate) = rate"
      by (simp_all add: clock_correction_def)
    then show ?thesis unfolding correction_at_def Let_def by (simp only: length_map j_def)
  qed
  ultimately show ?thesis
    unfolding least_correction_def AB using fwd bwd by (cases "0 < j"; cases "j < length pts") simp_all
qed

lemma pull_le: "p \<in> set pts \<Longrightarrow> pull rate t p \<le> least_correction pts rate t"
  unfolding least_correction_def by (rule Max_ge) auto

lemma least_correction_cases: "least_correction pts rate t = 0 \<or> (\<exists>p\<in>set pts. least_correction pts rate t = pull rate t p)"
proof -
  have "Max (insert 0 (pull rate t ` set pts)) \<in> insert 0 (pull rate t ` set pts)" by (rule Max_in) auto
  then show ?thesis unfolding least_correction_def by blast
qed

lemma least_correction_nonneg: "0 \<le> least_correction pts rate t"
  unfolding least_correction_def by (rule Max_ge) auto

text \<open>The correction falls no faster than its rate.\<close>

lemma least_correction_slope:
  assumes "0 \<le> rate" "t \<le> t'"
  shows "least_correction pts rate t - rate * of_int (t' - t) \<le> least_correction pts rate t'"
proof (rule disjE [OF least_correction_cases [of pts rate t]])
  assume "least_correction pts rate t = 0"
  then show ?thesis using assms least_correction_nonneg [of pts rate t'] by (simp add: order_trans [of _ 0])
next
  assume "\<exists>p\<in>set pts. least_correction pts rate t = pull rate t p"
  then obtain p where p: "p \<in> set pts" "least_correction pts rate t = pull rate t p" by blast
  have "\<bar>t' - fst p\<bar> \<le> \<bar>t - fst p\<bar> + (t' - t)" using assms(2) by (simp add: abs_if)
  then have "(of_int \<bar>t' - fst p\<bar> :: rat) \<le> of_int (\<bar>t - fst p\<bar> + (t' - t))" by (simp only: of_int_le_iff)
  then have "rate * of_int \<bar>t' - fst p\<bar> \<le> rate * of_int (\<bar>t - fst p\<bar> + (t' - t))" using assms(1) by (rule mult_left_mono)
  then have "pull rate t p - rate * of_int (t' - t) \<le> pull rate t' p" by (simp add: pull_def algebra_simps)
  then show ?thesis using pull_le [OF p(1), of rate t'] p(2) by simp
qed

lemma py_round_ge:
  assumes "of_int n \<le> x"
  shows "n \<le> py_round x"
proof -
  have "n \<le> \<lfloor>x\<rfloor>" using assms by (simp add: le_floor_iff)
  then show ?thesis by (auto simp: py_round_def Let_def)
qed

lemma py_round_le:
  assumes "x \<le> of_int n"
  shows "py_round x \<le> n"
proof -
  have "of_int (py_round x) - x \<le> 1 / 2" using py_round_near [of x] by linarith
  then have "of_int (py_round x) < (of_int (n + 1) :: rat)" using assms by simp
  then show ?thesis by (simp only: of_int_less_iff)
qed

lemma py_round_diff: "of_int (py_round x - py_round y) \<le> x - y + 1"
proof -
  have "of_int (py_round x) - x \<le> 1 / 2" "y - of_int (py_round y) \<le> 1 / 2"
    using py_round_near [of x] py_round_near [of y] by linarith+
  then show ?thesis unfolding of_int_diff by linarith
qed

text \<open>
  Property. The correction of a device clock at any time is the rounded least one that is never
  negative and pulls every record to its submission with the given slope; it moves no record by
  more than the greatest need, and the corrected clock never runs backwards.
\<close>

theorem correction_least:
  assumes "sorted (map fst pts)" "0 \<le> rate" "rate < 1" "t \<le> t'"
  shows "correction_at (clock_correction pts rate) t = py_round (least_correction pts rate t) \<and>
    ((t, n) \<in> set pts \<longrightarrow> n \<le> correction_at (clock_correction pts rate) t) \<and>
    0 \<le> correction_at (clock_correction pts rate) t \<and>
    ((\<forall>p\<in>set pts. snd p \<le> m) \<longrightarrow> correction_at (clock_correction pts rate) t \<le> max 0 m) \<and>
    t + correction_at (clock_correction pts rate) t \<le> t' + correction_at (clock_correction pts rate) t'"
proof (intro conjI impI)
  let ?c = "least_correction pts rate"
  note e = correction_at_least [OF assms(1), of rate]
  show "correction_at (clock_correction pts rate) t = py_round (?c t)" by (rule e)
  show "n \<le> correction_at (clock_correction pts rate) t" if "(t, n) \<in> set pts"
    unfolding e by (rule py_round_ge) (use pull_le [OF that, of rate t] in \<open>simp add: pull_def\<close>)
  show "0 \<le> correction_at (clock_correction pts rate) t"
    unfolding e by (rule py_round_ge) (simp add: least_correction_nonneg)
  show "correction_at (clock_correction pts rate) t \<le> max 0 m" if m: "\<forall>p\<in>set pts. snd p \<le> m"
  proof -
    have "pull rate t p \<le> of_int m" if "p \<in> set pts" for p
    proof -
      have "0 \<le> rate * of_int \<bar>t - fst p\<bar>" using assms(2) by simp
      moreover have "(of_int (snd p) :: rat) \<le> of_int m" using m that by (simp only: of_int_le_iff)
      ultimately show ?thesis unfolding pull_def by linarith
    qed
    then have "?c t \<le> of_int (max 0 m)" using least_correction_cases [of pts rate t] by (auto simp: of_int_max le_max_iff_disj)
    then show ?thesis unfolding e by (rule py_round_le)
  qed
  show "t + correction_at (clock_correction pts rate) t \<le> t' + correction_at (clock_correction pts rate) t'"
  proof (cases "t = t'")
    case False
    then have d: "1 \<le> t' - t" using assms(4) by simp
    have "of_int (py_round (?c t) - py_round (?c t')) \<le> ?c t - ?c t' + 1" by (rule py_round_diff)
    also have "\<dots> \<le> rate * of_int (t' - t) + 1" using least_correction_slope [OF assms(2,4), of pts] by simp
    also have "\<dots> < of_int (t' - t) + 1"
      using mult_strict_right_mono [OF assms(3), of "of_int (t' - t)"] d by simp
    finally have "of_int (py_round (?c t) - py_round (?c t')) < (of_int (t' - t + 1) :: rat)" by simp
    then have "py_round (?c t) - py_round (?c t') < t' - t + 1" by (simp only: of_int_less_iff)
    then show ?thesis unfolding e by simp
  qed simp
qed

lemma correction_least_witness:
  "correction_at (clock_correction [(0, 1), (10, 3)] CLOCK_DRIFT_RATE) 0 = 3 \<and>
   correction_at (clock_correction [(0, 1), (10, 3)] CLOCK_DRIFT_RATE) 0 =
     py_round (least_correction [(0, 1), (10, 3)] CLOCK_DRIFT_RATE 0)"
proof -
  have 1: "sorted (map fst [(0 :: int, 1 :: int), (10, 3)])" "0 \<le> CLOCK_DRIFT_RATE" "CLOCK_DRIFT_RATE < 1"
    by (simp_all add: CLOCK_DRIFT_RATE_def)
  have 2: "correction_at (clock_correction [(0, 1), (10, 3)] CLOCK_DRIFT_RATE) 0 = 3" by code_simp
  from correction_least [OF 1, of 0 0] show ?thesis using 2 by simp
qed

text \<open>It may stand still: two instants of the device clock can get the same time.\<close>

lemma correction_not_strict:
  "4999 + correction_at (clock_correction [(0, 1)] CLOCK_DRIFT_RATE) 4999 =
   5000 + correction_at (clock_correction [(0, 1)] CLOCK_DRIFT_RATE) 5000"
  by code_simp

end
