(* ===== verification/Memory_Store.thy ===== *)
theory Memory_Store
  imports Store_Common
begin

text \<open>
  The trace store: the queries every store derives from its span iterator
  (\<^verbatim>\<open>src/src/core/store/base.py\<close>) and the in-memory store with its lane and thread indexes
  (\<^verbatim>\<open>src/src/core/store/memory.py\<close>). The derived queries take the store's \<open>iter_spans\<close> as
  an argument, as the methods of the base class call the subclass's. Derived results are
  cached until the next write in the code; the model recomputes them.
\<close>

section \<open>Span queries\<close>

datatype span_order = SeqOrder | StartOrder

record span_query =
  q_order :: span_order
  q_pid :: "int option"
  q_tid :: "int option"
  q_lane :: "string option"
  q_categories :: "string list option"
  q_window :: "(int \<times> int) option"
  q_has_stack :: "bool option"
  q_gpu_model :: "bool option"
  q_with_ids :: "bool option"
  q_filt :: "span_filter option"

definition any_span :: span_query where
  "any_span = \<lparr>q_order = SeqOrder, q_pid = None, q_tid = None, q_lane = None, q_categories = None,
     q_window = None, q_has_stack = None, q_gpu_model = None, q_with_ids = None, q_filt = None\<rparr>"

definition start_key :: "span_event \<Rightarrow> int \<times> int" where
  "start_key s = (start_ns s, seq s)"

text \<open>The tests of the loop of \<open>iter_spans\<close>, in its order.\<close>

definition query_keeps :: "(string \<Rightarrow> (string \<Rightarrow> bool) option) \<Rightarrow> span_query \<Rightarrow> span_event \<Rightarrow> bool" where
  "query_keeps rx q s =
     (if q_pid q \<noteq> None \<and> q_pid q \<noteq> Some (pid s) then False
      else if q_tid q \<noteq> None \<and> q_tid q \<noteq> Some (tid s) then False
      else if (case q_categories q of None \<Rightarrow> False | Some cs \<Rightarrow> category_value (category s) \<notin> set cs) then False
      else if (case q_window q of None \<Rightarrow> False | Some (a, b) \<Rightarrow> \<not> (start_ns s \<le> b \<and> end_ns s > a)) then False
      else if (case q_has_stack q of None \<Rightarrow> False | Some v \<Rightarrow> (stack_frames s \<noteq> []) \<noteq> v) then False
      else if (case q_gpu_model q of None \<Rightarrow> False | Some v \<Rightarrow> tag_in s ''rt'' [''cuda'', ''rocm''] \<noteq> v) then False
      else if (case q_with_ids q of None \<Rightarrow> False | Some v \<Rightarrow> (span_id s \<noteq> [] \<or> parent_span_id s \<noteq> []) \<noteq> v) then False
      else case q_filt q of
             None \<Rightarrow> True
           | Some f \<Rightarrow> if filter_is_empty f then True else filter_matches rx f s)"

section \<open>Queries derived from the iterator\<close>

type_synonym span_iter = "span_query \<Rightarrow> span_event list"

definition iter_intervals :: "span_iter \<Rightarrow> int option \<Rightarrow> string list option \<Rightarrow> string list \<Rightarrow> bool \<Rightarrow> interval list" where
  "iter_intervals iter p cats excl timed_only =
     map (\<lambda>s. (start_ns s, end_ns s))
       (filter (\<lambda>s. \<not> (timed_only \<and> duration_ns s \<le> 0) \<and> \<not> (excl \<noteq> [] \<and> tag_in s ''type'' excl))
         (iter (any_span\<lparr>q_order := StartOrder, q_pid := p, q_categories := cats\<rparr>)))"

definition first_with_tag :: "span_iter \<Rightarrow> string \<Rightarrow> (string, span_event) dict" where
  "first_with_tag iter key =
     fold (\<lambda>s out. if map_of out (name s) = None \<and> tag_truthy s key then out @ [(name s, s)] else out)
       (iter any_span) []"

definition store_pids :: "span_iter \<Rightarrow> int list" where
  "store_pids iter = sort (remdups (map pid (iter any_span)))"

definition store_threads :: "span_iter \<Rightarrow> (int \<times> int) list" where
  "store_threads iter = sort (remdups (map (\<lambda>s. (pid s, tid s)) (iter any_span)))"

fun extent_loop :: "(int \<times> int) option \<Rightarrow> interval list \<Rightarrow> (int \<times> int) option" where
  "extent_loop acc [] = acc"
| "extent_loop None ((a, b) # ivs) = extent_loop (Some (a, b)) ivs"
| "extent_loop (Some (lo, hi)) ((a, b) # ivs) =
     extent_loop (Some (if a < lo then a else lo, if b > hi then b else hi)) ivs"

definition span_extent :: "span_iter \<Rightarrow> bool \<Rightarrow> (int \<times> int) option" where
  "span_extent iter timed_only =
     extent_loop None (map (\<lambda>s. (start_ns s, end_ns s))
       (filter (\<lambda>s. \<not> (timed_only \<and> duration_ns s \<le> 0)) (iter any_span)))"

definition event_times :: "span_iter \<Rightarrow> instant_event list \<Rightarrow> counter_event list \<Rightarrow> interval list" where
  "event_times iter is ks =
     map (\<lambda>s. (start_ns s, end_ns s)) (iter any_span)
     @ map (\<lambda>i. (i_timestamp_ns i, i_timestamp_ns i)) is
     @ map (\<lambda>k. (k_timestamp_ns k, k_timestamp_ns k)) ks"

definition event_extent :: "span_iter \<Rightarrow> instant_event list \<Rightarrow> counter_event list \<Rightarrow> (int \<times> int) option" where
  "event_extent iter is ks = extent_loop None (event_times iter is ks)"

definition activity_grid :: "span_iter \<Rightarrow> (int \<times> int) option" where
  "activity_grid iter = (case span_extent iter True of None \<Rightarrow> span_extent iter False | Some e \<Rightarrow> Some e)"

text \<open>\<open>lane_infos\<close>: one group per (process, lane), in order of first appearance.\<close>

definition lane_group_step :: "span_event \<Rightarrow> (int \<times> lane_key, lane_group) dict \<Rightarrow> (int \<times> lane_key, lane_group) dict" where
  "lane_group_step s groups =
     (let key = (pid s, lane_base s) in
      case map_of groups key of
        None \<Rightarrow> AList.update key \<lparr>g_pid = pid s, g_base = lane_base s, g_count = 1, g_first_seq = seq s,
                  g_min_start = start_ns s, g_max_end = end_ns s, g_max_dur = duration_ns s\<rparr> groups
      | Some g \<Rightarrow> AList.update key (g\<lparr>g_count := g_count g + 1,
                  g_min_start := min (g_min_start g) (start_ns s),
                  g_max_end := max (g_max_end g) (end_ns s),
                  g_max_dur := max (g_max_dur g) (duration_ns s)\<rparr>) groups)"

definition lane_groups :: "span_event list \<Rightarrow> (int \<times> lane_key, lane_group) dict" where
  "lane_groups spans = fold lane_group_step spans []"

definition lane_infos :: "span_iter \<Rightarrow> lane_info list" where
  "lane_infos iter = assign_lane_names (map snd (lane_groups (iter any_span)))"

text \<open>\<open>{ln.name: ln for ln in infos}\<close>: of two lanes with one name the later is found.\<close>

definition find_lane :: "lane_info list \<Rightarrow> string \<Rightarrow> lane_info option" where
  "find_lane infos nm = map_of (rev (map (\<lambda>l. (l_name l, l)) infos)) nm"

definition store_lane :: "span_iter \<Rightarrow> string \<Rightarrow> lane_info option" where
  "store_lane iter nm = find_lane (lane_infos iter) nm"

definition lane_query :: "string \<Rightarrow> int \<Rightarrow> int \<Rightarrow> span_filter option \<Rightarrow> span_query" where
  "lane_query lane a b filt =
     any_span\<lparr>q_order := StartOrder, q_lane := Some lane, q_window := Some (a, b), q_filt := filt\<rparr>"

text \<open>\<open>window\<close>: the loop appends, then stops once \<open>limit\<close> spans are there.\<close>

fun window_loop :: "int option \<Rightarrow> span_event list \<Rightarrow> span_event list \<Rightarrow> span_event list" where
  "window_loop limit out [] = out"
| "window_loop limit out (s # ss) =
     (let out = out @ [s] in
      if limit \<noteq> None \<and> int (length out) \<ge> the limit then out else window_loop limit out ss)"

definition store_window :: "span_iter \<Rightarrow> string \<Rightarrow> int \<Rightarrow> int \<Rightarrow> span_filter option \<Rightarrow> int option \<Rightarrow> span_event list" where
  "store_window iter lane a b filt limit = window_loop limit [] (iter (lane_query lane a b filt))"

fun count_loop :: "int option \<Rightarrow> int \<Rightarrow> span_event list \<Rightarrow> int" where
  "count_loop cap n [] = n"
| "count_loop cap n (s # ss) =
     (let n = n + 1 in if cap \<noteq> None \<and> n > the cap then n else count_loop cap n ss)"

definition count_window :: "span_iter \<Rightarrow> string \<Rightarrow> int \<Rightarrow> int \<Rightarrow> span_filter option \<Rightarrow> int option \<Rightarrow> int" where
  "count_window iter lane a b filt cap = count_loop cap 0 (iter (lane_query lane a b filt))"

definition lane_count :: "span_iter \<Rightarrow> string \<Rightarrow> span_filter option \<Rightarrow> int" where
  "lane_count iter lane filt =
     (case store_lane iter lane of
        None \<Rightarrow> 0
      | Some info \<Rightarrow>
          if (case filt of None \<Rightarrow> True | Some f \<Rightarrow> filter_is_empty f) then l_count info
          else int (length (iter (any_span\<lparr>q_lane := Some lane, q_filt := filt\<rparr>))))"

definition lanes_in_window :: "span_iter \<Rightarrow> int \<Rightarrow> int \<Rightarrow> span_filter option \<Rightarrow> int option \<Rightarrow> (string, span_event list) dict" where
  "lanes_in_window iter a b filt limit =
     fold (\<lambda>ln out.
         if l_max_end ln \<le> a \<or> l_min_start ln > b then out
         else let spans = store_window iter (l_name ln) a b filt limit in
              if spans \<noteq> [] then AList.update (l_name ln) spans out else out)
       (lane_infos iter) []"

text \<open>\<open>heapq.merge\<close> of lists sorted by \<open>start_key\<close>.\<close>

definition events_in_window :: "span_iter \<Rightarrow> int \<Rightarrow> int \<Rightarrow> string list option \<Rightarrow> span_filter option \<Rightarrow> span_event list" where
  "events_in_window iter a b lanes filt =
     (let names = (case lanes of None \<Rightarrow> map l_name (lane_infos iter) | Some ls \<Rightarrow> ls)
      in sort_key start_key (concat (map (\<lambda>n. iter (lane_query n a b filt)) names)))"

definition span_by_span_id :: "span_iter \<Rightarrow> (int \<Rightarrow> any_event option) \<Rightarrow> string \<Rightarrow> any_event option" where
  "span_by_span_id iter by_id sid =
     (case map_of (rev (map (\<lambda>s. (span_id s, eid s))
          (filter (\<lambda>s. span_id s \<noteq> []) (iter (any_span\<lparr>q_with_ids := Some True\<rparr>))))) sid of
        None \<Rightarrow> None
      | Some i \<Rightarrow> by_id i)"

record stat_row =
  r_name :: string
  r_category :: string
  r_count :: int
  r_total :: int
  r_min :: int
  r_max :: int
  r_avg :: rat
  r_pct :: rat

definition stat_step :: "span_event \<Rightarrow> (string \<times> string, stat_row) dict \<Rightarrow> (string \<times> string, stat_row) dict" where
  "stat_step s totals =
     (let key = (category_value (category s), name s); d = duration_ns s in
      case map_of totals key of
        None \<Rightarrow> AList.update key \<lparr>r_name = name s, r_category = fst key, r_count = 1, r_total = d,
                  r_min = d, r_max = d, r_avg = 0, r_pct = 0\<rparr> totals
      | Some r \<Rightarrow> AList.update key (r\<lparr>r_count := r_count r + 1, r_total := r_total r + d,
                  r_min := (if d < r_min r then d else r_min r),
                  r_max := (if d > r_max r then d else r_max r)\<rparr>) totals)"

text \<open>The averages and percentages are floats in the code and exact here.\<close>

definition finish_aggregate :: "stat_row list \<Rightarrow> stat_row list" where
  "finish_aggregate rs =
     (let rs = map (\<lambda>r. r\<lparr>r_avg := (if r_count r \<noteq> 0 then of_int (r_total r) / of_int (r_count r) else 0)\<rparr>) rs;
          total_time = (let t = sum_list (map r_total rs) in if t \<noteq> 0 then t else 1);
          rs = map (\<lambda>r. r\<lparr>r_pct := 100 * of_int (r_total r) / of_int total_time\<rparr>) rs
      in sort_key (\<lambda>r. - r_total r) rs)"

definition aggregate_stats :: "span_iter \<Rightarrow> stat_row list" where
  "aggregate_stats iter = finish_aggregate (map snd (fold stat_step (iter any_span) []))"

text \<open>\<open>_compute_exclusive\<close>: device spans first, then one sweep per host thread.\<close>

definition host_span :: "span_event \<Rightarrow> bool" where
  "host_span s \<longleftrightarrow> duration_ns s > 0 \<and> \<not> is_device_timed s \<and> bucket_of_span s \<noteq> Annotation"

definition exclusive_scan :: "span_event \<Rightarrow> exclusive_aggregate \<Rightarrow> exclusive_aggregate" where
  "exclusive_scan s a =
     (if duration_ns s \<le> 0 then a
      else if bucket_of_span s = Annotation then a
      else if is_device_timed s then agg_add (agg_key_of s True) (duration_ns s) a
      else a\<lparr>threads := insert (pid s, tid s) (threads a)\<rparr>)"

definition sweep_threads :: "span_iter \<Rightarrow> (int \<times> int) list \<Rightarrow> exclusive_aggregate \<Rightarrow> exclusive_aggregate option" where
  "sweep_threads iter ts a =
     fold (\<lambda>(p, t) acc. Option.bind acc (exclusive_thread_sweep
         (filter host_span (iter (any_span\<lparr>q_order := StartOrder, q_pid := Some p, q_tid := Some t\<rparr>)))))
       ts (Some a)"

definition compute_exclusive :: "span_iter \<Rightarrow> exclusive_aggregate option" where
  "compute_exclusive iter =
     (let a = fold exclusive_scan (iter any_span) empty_aggregate
      in sweep_threads iter (sorted_list_of_set (threads a)) a)"

definition row_key :: "agg_key \<times> int \<Rightarrow> int \<times> int \<times> string \<times> string \<times> string \<times> bool" where
  "row_key r = (case r of ((p, t, c, n, b, d), ns) \<Rightarrow> (p, t, c, n, bucket_name b, d))"

definition exclusive_aggregate_of :: "span_iter \<Rightarrow> exclusive_aggregate option" where
  "exclusive_aggregate_of iter = map_option (\<lambda>a. a\<lparr>rows := sort_key row_key (rows a)\<rparr>) (compute_exclusive iter)"

section \<open>The in-memory store\<close>

record memory_store =
  m_spans :: "span_event list"
  m_instants :: "instant_event list"
  m_counters :: "counter_event list"
  by_seq :: "(int, any_event) dict"
  next_seq :: int

definition empty_store :: memory_store where
  "empty_store = \<lparr>m_spans = [], m_instants = [], m_counters = [], by_seq = [], next_seq = 0\<rparr>"

text \<open>The event is given its sequence number and id; the id is also the result.\<close>

definition store_append :: "any_event \<Rightarrow> memory_store \<Rightarrow> int \<times> memory_store" where
  "store_append ev st =
     (let q = next_seq st; st = st\<lparr>next_seq := q + 1\<rparr> in
      case ev of
        SpanEv s \<Rightarrow>
          (let s = s\<lparr>seq := q, eid := make_eid 0 KIND_SPAN q\<rparr>
           in (eid s, st\<lparr>m_spans := m_spans st @ [s], by_seq := AList.update q (SpanEv s) (by_seq st)\<rparr>))
      | InstantEv i \<Rightarrow>
          (let i = i\<lparr>i_seq := q, i_eid := make_eid 0 KIND_INSTANT q\<rparr>
           in (i_eid i, st\<lparr>m_instants := m_instants st @ [i], by_seq := AList.update q (InstantEv i) (by_seq st)\<rparr>))
      | CounterEv k \<Rightarrow>
          (let k = k\<lparr>k_seq := q, k_eid := make_eid 0 KIND_COUNTER q\<rparr>
           in (k_eid k, st\<lparr>m_counters := m_counters st @ [k], by_seq := AList.update q (CounterEv k) (by_seq st)\<rparr>)))"

text \<open>
  \<open>_index_of\<close> finds the stored object; spans of a store are told apart by their sequence
  number. None is its \<open>KeyError\<close>, raised when the number belongs to an instant or counter.
\<close>

definition store_update_span :: "span_event \<Rightarrow> memory_store \<Rightarrow> memory_store option" where
  "store_update_span s st =
     (case map_of (by_seq st) (seq s) of
        None \<Rightarrow> Some st
      | Some (SpanEv cur) \<Rightarrow>
          Some (st\<lparr>m_spans := map (\<lambda>x. if seq x = seq s then s else x) (m_spans st),
                   by_seq := AList.update (seq s) (SpanEv s) (by_seq st)\<rparr>)
      | Some _ \<Rightarrow> None)"

definition store_delete_spans :: "int list \<Rightarrow> memory_store \<Rightarrow> memory_store" where
  "store_delete_spans eids st =
     (let seqs = map (\<lambda>e. snd (snd (split_eid e))) eids in
      if seqs = [] then st
      else st\<lparr>m_spans := filter (\<lambda>s. seq s \<notin> set seqs) (m_spans st),
              by_seq := fold AList.delete seqs (by_seq st)\<rparr>)"

definition thread_index :: "span_event list \<Rightarrow> (int \<times> int, span_event list) dict" where
  "thread_index spans =
     map (\<lambda>(k, lst). (k, sort_key start_key lst)) (group_by (\<lambda>s. (pid s, tid s)) spans)"

definition no_lane_iter :: "span_event list \<Rightarrow> span_iter" where
  "no_lane_iter spans q = spans"

text \<open>\<open>by_key\<close>: the lane name of a process and lane base; the store's own \<open>lane_infos\<close>.\<close>

definition store_lane_infos :: "span_event list \<Rightarrow> lane_info list" where
  "store_lane_infos spans = lane_infos (no_lane_iter spans)"

definition lane_name_of :: "lane_info list \<Rightarrow> span_event \<Rightarrow> string option" where
  "lane_name_of infos s =
     map_of (rev (map (\<lambda>l. ((l_pid l, l_cat l, l_kind l, l_ident l), l_name l)) infos)) (pid s, lane_base s)"

definition lane_index :: "span_event list \<Rightarrow> (string, span_event list) dict" where
  "lane_index spans =
     (let infos = store_lane_infos spans;
          idx = fold (\<lambda>l d. AList.update (l_name l) [] d) infos [];
          idx = fold (\<lambda>s d. dict_append (the (lane_name_of infos s)) s d) spans idx
      in map (\<lambda>(nm, lst). (nm, sort_key start_key lst)) idx)"

text \<open>\<open>lst[lo:hi]\<close> for \<open>lo\<close>, \<open>hi\<close> within the list.\<close>

definition slice :: "nat \<Rightarrow> nat \<Rightarrow> 'a list \<Rightarrow> 'a list" where
  "slice lo hi xs = drop lo (take hi xs)"

definition iter_source :: "memory_store \<Rightarrow> span_query \<Rightarrow> span_event list" where
  "iter_source st q =
     (case q_lane q of
        Some lane \<Rightarrow>
          (let lst = dict_get (lane_index (m_spans st)) lane [];
               lst = (case q_window q of
                        None \<Rightarrow> lst
                      | Some (a, b) \<Rightarrow>
                          if lst = [] then lst
                          else (let info = the (find_lane (store_lane_infos (m_spans st)) lane);
                                    starts = map start_ns lst
                                in slice (bisect_left starts (a - l_max_dur info)) (bisect_right starts b) lst))
           in if q_order q = SeqOrder then sort_key seq lst else lst)
      | None \<Rightarrow>
          (case (q_pid q, q_tid q) of
             (Some p, Some t) \<Rightarrow>
               (let lst = dict_get (thread_index (m_spans st)) (p, t) []
                in if q_order q = SeqOrder then sort_key seq lst else lst)
           | _ \<Rightarrow> if q_order q = StartOrder then sort_key start_key (m_spans st) else m_spans st))"

definition store_iter :: "(string \<Rightarrow> (string \<Rightarrow> bool) option) \<Rightarrow> memory_store \<Rightarrow> span_iter" where
  "store_iter rx st q = filter (query_keeps rx q) (iter_source st q)"

definition iter_counters :: "memory_store \<Rightarrow> bool \<Rightarrow> counter_event list" where
  "iter_counters st by_name =
     (if by_name then sort_key (\<lambda>c. (k_name c, k_timestamp_ns c, k_seq c)) (m_counters st) else m_counters st)"

definition event_eid :: "any_event \<Rightarrow> int" where
  "event_eid ev = (case ev of SpanEv s \<Rightarrow> eid s | InstantEv i \<Rightarrow> i_eid i | CounterEv k \<Rightarrow> k_eid k)"

definition event_by_id :: "memory_store \<Rightarrow> int \<Rightarrow> any_event option" where
  "event_by_id st i =
     (case map_of (by_seq st) (snd (snd (split_eid i))) of
        None \<Rightarrow> None
      | Some ev \<Rightarrow> if event_eid ev = i then Some ev else None)"

definition span_by_seq :: "memory_store \<Rightarrow> int \<Rightarrow> span_event option" where
  "span_by_seq st q = (case map_of (by_seq st) q of Some (SpanEv s) \<Rightarrow> Some s | _ \<Rightarrow> None)"

definition span_seqs :: "memory_store \<Rightarrow> int list" where
  "span_seqs st = map seq (m_spans st)"

end
