(* ===== verification/Gpu_Assembly.thy ===== *)
theory Gpu_Assembly
  imports Correlation_Facts Memory_Store
begin

text \<open>
  \<^verbatim>\<open>src/src/core/gpu_activity.py\<close>, \<open>assemble\<close>: the CUDA and ROCm spans of a fresh trace are
  correlated, duplicates dropped, device clocks corrected, streams unified, device spans linked to
  their launch, and the result is written back to the store with a summary per process and
  runtime; and the status lines of the tracers. Spans are updated by their index in the list read
  from the store; sets are lists without repetition.
\<close>

definition span_list :: "span_event list \<Rightarrow> spans" where
  "span_list ss = List.enumerate 0 ss"

type_synonym rt_key = "int \<times> string"

definition rt_key :: "span_event \<Rightarrow> rt_key" where
  "rt_key s = (pid s, rt_of s)"

section \<open>Duplicates\<close>

type_synonym dup_key =
  "(int \<times> string \<times> string \<times> string option \<times> string option) \<times> int \<times> int \<times> string \<times> string option \<times> string option"

definition duplicate_key :: "span_event \<Rightarrow> dup_key" where
  "duplicate_key s =
     ((pid s, rt_of s, op_of s, tag s ''corr'', tag s ''lid''), start_ns s, duration_ns s, name s, tag s ''nstream'', tag s ''queue'')"

definition is_native :: "span_event \<Rightarrow> bool" where
  "is_native s \<longleftrightarrow> is_device_span s \<and> timing_source s = TIMING_DEVICE"

type_synonym dups = "dup_key list \<times> nat list \<times> (rt_key, int) dict"

definition duplicate_step :: "nat \<times> span_event \<Rightarrow> dups \<Rightarrow> dups" where
  "duplicate_step p st =
     (let (i, s) = p; (seen, gone, n) = st in
      if \<not> is_native s then st
      else if duplicate_key s \<in> set seen then (seen, List.insert i gone, dict_add (rt_key s) 1 n)
      else (seen @ [duplicate_key s], gone, n))"

definition exact_duplicates :: "spans \<Rightarrow> nat list \<times> (rt_key, int) dict" where
  "exact_duplicates sp = snd (fold duplicate_step sp ([], [], []))"

definition natively_seen_hosts :: "spans \<Rightarrow> correlation \<Rightarrow> nat list \<Rightarrow> nat list" where
  "natively_seen_hosts sp corr gone =
     map snd (filter (\<lambda>(d, h). d \<notin> set gone \<and> timing_source (span_at sp d) = TIMING_DEVICE) (host_of corr))"

definition dedup_step :: "spans \<Rightarrow> nat list \<Rightarrow> nat \<times> nat \<Rightarrow> nat list \<times> (rt_key, int) dict \<Rightarrow> nat list \<times> (rt_key, int) dict" where
  "dedup_step sp native p st =
     (let (d, h) = p; (gone, n) = st in
      if timing_source (span_at sp d) \<in> set PROXY_TIMINGS \<and> h \<in> set native
      then (List.insert d gone, dict_add (rt_key (span_at sp d)) 1 n) else st)"

definition drop_proxies :: "spans \<Rightarrow> correlation \<Rightarrow> nat list \<Rightarrow> nat list \<times> (rt_key, int) dict" where
  "drop_proxies sp corr gone = fold (dedup_step sp (natively_seen_hosts sp corr gone)) (host_of corr) (gone, [])"

section \<open>Updating the spans\<close>

record span_state =
  a_spans :: "span_event list"
  a_changed :: "nat list"

definition touch :: "nat \<Rightarrow> (span_event \<Rightarrow> span_event) \<Rightarrow> span_state \<Rightarrow> span_state" where
  "touch i f st = st\<lparr>a_spans := (a_spans st)[i := f (a_spans st ! i)], a_changed := List.insert i (a_changed st)\<rparr>"

text \<open>A drifting clock: the measured interval and CUPTI's \<open>submitted\<close> move, \<open>queued\<close> does not.\<close>

definition shift_span :: "int \<Rightarrow> span_event \<Rightarrow> span_event" where
  "shift_span c s =
     (let moved = s\<lparr>start_ns := start_ns s + c\<rparr>;
          moved = (case int_tag s ''submitted'' of
              None \<Rightarrow> moved | Some n \<Rightarrow> if n \<noteq> 0 then set_tag ''submitted'' (show_int (n + c)) moved else moved)
      in set_tag ''clock_corr_ns'' (show_int c) moved)"

definition correction_of :: "(clock_key, clock_correction) dict \<Rightarrow> span_event \<Rightarrow> int" where
  "correction_of fixes s =
     (case map_of fixes (device_clock_key s) of None \<Rightarrow> 0 | Some fix \<Rightarrow> correction_at fix (clock_evidence_ns s))"

type_synonym corrected = "(rt_key, int \<times> int) dict"

definition correct_step :: "(clock_key, clock_correction) dict \<Rightarrow> nat list \<Rightarrow> nat \<Rightarrow> span_state \<times> corrected \<Rightarrow> span_state \<times> corrected" where
  "correct_step fixes gone i x =
     (let (st, corrected) = x; s = a_spans st ! i in
      if i \<in> set gone \<or> \<not> is_device_span s \<or> \<not> measured_work s then x
      else
        (let c = correction_of fixes s in
         if c \<le> 0 then x
         else
           (let (n, worst) = dict_get corrected (rt_key s) (0, 0)
            in (touch i (shift_span c) st, AList.update (rt_key s) (n + 1, max worst c) corrected))))"

definition correct_clocks :: "(clock_key, clock_correction) dict \<Rightarrow> nat list \<Rightarrow> span_state \<Rightarrow> span_state \<times> corrected" where
  "correct_clocks fixes gone st =
     (if fixes = [] then (st, []) else fold (correct_step fixes gone) [0..<length (a_spans st)] (st, []))"

section \<open>Streams\<close>

type_synonym vendor_key = "int \<times> string \<times> string option \<times> string \<times> string"

definition vendor_key :: "span_event \<Rightarrow> vendor_key option" where
  "vendor_key s =
     (case tag s ''nstream'' of
        Some v \<Rightarrow> Some (pid s, rt_of s, or_tag s ''ctx'' ''dev'', ''s'', v)
      | None \<Rightarrow>
          (case tag s ''queue'' of
             Some v \<Rightarrow> Some (pid s, rt_of s, tag s ''dev'', ''q'', v)
           | None \<Rightarrow> None))"

definition live_devices :: "correlation \<Rightarrow> nat list \<Rightarrow> (nat, nat list) dict" where
  "live_devices corr gone = map (\<lambda>(h, ds). (h, filter (\<lambda>d. d \<notin> set gone) ds)) (devices_of corr)"

definition learn_step :: "span_event list \<Rightarrow> nat \<times> nat list \<Rightarrow> (vendor_key, string list) dict \<Rightarrow> (vendor_key, string list) dict" where
  "learn_step ss p learned =
     (let (h, ds) = p in
      case (tag (ss ! h) ''stream'', ds) of
        (Some hstream, [d]) \<Rightarrow>
          (case vendor_key (ss ! d) of
             None \<Rightarrow> learned
           | Some vk \<Rightarrow> if op_of (ss ! d) \<noteq> ''graph''
               then AList.update vk (List.insert hstream (dict_get learned vk [])) learned else learned)
      | _ \<Rightarrow> learned)"

definition learned_streams :: "span_event list \<Rightarrow> (nat, nat list) dict \<Rightarrow> (vendor_key, string list) dict" where
  "learned_streams ss alive = fold (learn_step ss) alive []"

definition unified_stream :: "span_event list \<Rightarrow> (nat, nat list) dict \<Rightarrow> (vendor_key, string list) dict \<Rightarrow> nat option \<Rightarrow> span_event \<Rightarrow> string option" where
  "unified_stream ss alive learned h s =
     (let hstream = (case h of None \<Rightarrow> None | Some h \<Rightarrow> tag (ss ! h) ''stream'');
          alone = (case h of None \<Rightarrow> False | Some h \<Rightarrow> length (dict_get alive h []) = 1)
      in if hstream \<noteq> None \<and> alone then hstream
         else
           (case (case vendor_key s of None \<Rightarrow> [] | Some vk \<Rightarrow> dict_get learned vk []) of
              [stream] \<Rightarrow> Some stream
            | _ \<Rightarrow>
               (case (tag s ''nstream'', tag s ''queue'') of
                  (Some v, _) \<Rightarrow> Some (CHR ''n'' # v)
                | (None, Some v) \<Rightarrow> Some (CHR ''q'' # v)
                | (None, None) \<Rightarrow> tag s ''stream'')))"

definition unify_step :: "correlation \<Rightarrow> nat list \<Rightarrow> (nat, nat list) dict \<Rightarrow> (vendor_key, string list) dict \<Rightarrow> nat \<Rightarrow> span_state \<Rightarrow> span_state" where
  "unify_step corr gone alive learned i st =
     (let s = a_spans st ! i in
      if i \<in> set gone \<or> \<not> is_device_span s \<or> timing_source s \<in> set PROXY_TIMINGS then st
      else
        (case unified_stream (a_spans st) alive learned (map_of (host_of corr) i) s of
           None \<Rightarrow> st
         | Some v \<Rightarrow> if tag s ''stream'' = Some v then st else touch i (set_tag ''stream'' v) st))"

definition unify_streams :: "correlation \<Rightarrow> nat list \<Rightarrow> span_state \<Rightarrow> span_state" where
  "unify_streams corr gone st =
     (let alive = live_devices corr gone; learned = learned_streams (a_spans st) alive
      in fold (unify_step corr gone alive learned) [0..<length (a_spans st)] st)"

section \<open>Launching thread, parent and queueing tags\<close>

definition when_state :: "bool \<Rightarrow> nat \<Rightarrow> (span_event \<Rightarrow> span_event) \<Rightarrow> span_state \<Rightarrow> span_state" where
  "when_state b i f st = (if b then touch i f st else st)"

definition queue_tags :: "span_event \<Rightarrow> span_event \<Rightarrow> span_event" where
  "queue_tags host dev =
     (let d = set_tag ''api_ns'' (show_int (duration_ns host)) dev;
          d = set_tag ''launch_ns'' (show_int (start_ns dev - start_ns host)) d;
          d = set_tag ''queue_ns'' (show_int (max 0 (start_ns dev - end_ns host))) d
      in case int_tag dev ''submitted'' of
           None \<Rightarrow> d
         | Some n \<Rightarrow> if n \<noteq> 0 \<and> start_ns dev \<ge> n then set_tag ''submit_ns'' (show_int (start_ns dev - n)) d else d)"

definition link_step :: "nat list \<Rightarrow> nat \<times> nat \<Rightarrow> span_state \<Rightarrow> span_state" where
  "link_step gone p st =
     (let (d, h) = p in
      if d \<in> set gone then st
      else
        (let host = a_spans st ! h; dev = a_spans st ! d;
             st = when_state (tid dev = 0) d (\<lambda>s. s\<lparr>tid := tid host\<rparr>) st;
             st = when_state (span_id host \<noteq> [] \<and> parent_span_id dev = []) d (\<lambda>s. s\<lparr>parent_span_id := span_id host\<rparr>) st;
             st = when_state (tag_truthy host ''mod'' \<and> \<not> tag_truthy dev ''mod'' \<and> op_of dev = ''kernel'') d
                    (set_tag ''mod'' (the (tag host ''mod''))) st
         in when_state (timing_source dev = TIMING_DEVICE \<and> op_of dev \<noteq> ''sync'') d (queue_tags host) st))"

section \<open>Summary\<close>

datatype gval = GInt int | GStr string

type_synonym counts = "(rt_key, (string, int) dict) dict"
type_synonym entry = "(string, gval) dict"

definition count_fields :: "rt_key \<Rightarrow> (string \<times> int) list \<Rightarrow> counts \<Rightarrow> counts" where
  "count_fields key fs counts =
     AList.update key (fold (\<lambda>(f, n). dict_add f n) fs (dict_get counts key [])) counts"

definition expects_device :: "span_event \<Rightarrow> bool" where
  "expects_device s \<longleftrightarrow> op_of s \<in> set DEVICE_WORK_OPS \<and> tag s ''err'' = None"

definition span_counts :: "correlation \<Rightarrow> (nat, nat list) dict \<Rightarrow> nat \<Rightarrow> span_event \<Rightarrow> (string \<times> int) list" where
  "span_counts corr alive i s =
     (if is_device_span s then
        [(if timing_source s = TIMING_DEVICE then ''device_spans''
          else if timing_source s \<in> set PROXY_TIMINGS then ''proxy_spans'' else ''sync_records'', 1)]
        @ (if map_of (host_of corr) i \<noteq> None then [(''correlated'', 1)] else [])
      else if is_host_submission s then
        [(''host_calls'', 1)] @ (if expects_device s \<and> dict_get alive i [] = [] then [(''_no_device'', 1)] else [])
      else [])"

definition count_step :: "correlation \<Rightarrow> nat list \<Rightarrow> (nat, nat list) dict \<Rightarrow> nat \<times> span_event \<Rightarrow> counts \<Rightarrow> counts" where
  "count_step corr gone alive p counts =
     (let (i, s) = p in
      if i \<in> set gone \<or> \<not> is_new_format s then counts else count_fields (rt_key s) (span_counts corr alive i s) counts)"

definition set_field :: "string \<Rightarrow> int \<Rightarrow> rt_key \<Rightarrow> counts \<Rightarrow> counts" where
  "set_field f n key counts = AList.update key (AList.update f n (dict_get counts key [])) counts"

definition summary_counts :: "correlation \<Rightarrow> nat list \<Rightarrow> (rt_key, int) dict \<Rightarrow> (rt_key, int) dict \<Rightarrow> corrected \<Rightarrow> span_event list \<Rightarrow> counts" where
  "summary_counts corr gone duplicates deduped corrected ss =
     (let counts = fold (count_step corr gone (live_devices corr gone)) (span_list ss) [];
          counts = fold (\<lambda>i. count_fields (rt_key (ss ! i)) [(''unmatched_device'', 1)]) (unmatched corr) counts;
          counts = fold (\<lambda>i. count_fields (rt_key (ss ! i)) [(''precedes_submission'', 1)]) (precedes_submission corr) counts;
          counts = fold (\<lambda>(key, n, worst) c. set_field ''clock_correction_max_ns'' worst key (set_field ''clock_corrected_spans'' n key c))
                     corrected counts;
          counts = fold (\<lambda>(key, n). count_fields key [(''duplicate_records'', n)]) duplicates counts
      in fold (\<lambda>(key, n). count_fields key [(''deduplicated_proxy'', n)]) deduped counts)"

definition ASSEMBLY_FIELDS :: "string list" where
  "ASSEMBLY_FIELDS = [''device_spans'', ''proxy_spans'', ''sync_records'', ''correlated'', ''host_calls'',
     ''host_without_device'', ''unmatched_device'', ''precedes_submission'', ''duplicate_records'', ''deduplicated_proxy'',
     ''clock_corrected_spans'', ''clock_correction_max_ns'', ''timing'']"

definition entry_name :: "rt_key \<Rightarrow> string" where
  "entry_name k = show_int (fst k) @ CHR ''/'' # snd k"

definition summarize :: "(string, int) dict \<Rightarrow> entry \<Rightarrow> entry" where
  "summarize c entry =
     (let lost = dict_get c ''_no_device'' 0;
          c = AList.delete ''_no_device'' c;
          c = (if lost \<noteq> 0 \<and> dict_get c ''device_spans'' 0 \<noteq> 0 then AList.update ''host_without_device'' lost c else c);
          entry = fold AList.delete ASSEMBLY_FIELDS entry;
          entry = fold (\<lambda>(k, n). AList.update k (GInt n)) c entry
      in if dict_get c ''device_spans'' 0 \<noteq> 0
         then AList.update ''timing'' (GStr (if dict_get c ''proxy_spans'' 0 = 0 then ''device'' else ''device+proxy'')) entry
         else if dict_get c ''proxy_spans'' 0 \<noteq> 0 then AList.update ''timing'' (GStr ''proxy'') entry
         else entry)"

record device_activity =
  da_entries :: "(string, entry) dict"
  da_assembled :: bool

definition add_summary :: "rt_key \<times> (string, int) dict \<Rightarrow> device_activity \<Rightarrow> device_activity" where
  "add_summary p da =
     (let nm = entry_name (fst p)
      in da\<lparr>da_entries := AList.update nm (summarize (snd p) (dict_get (da_entries da) nm [])) (da_entries da)\<rparr>)"

section \<open>Assembly\<close>

record assembly =
  as_corr :: correlation
  as_drop :: "nat list"
  as_duplicates :: "(rt_key, int) dict"
  as_deduped :: "(rt_key, int) dict"
  as_corrected :: corrected
  as_state :: span_state

definition assemble_spans :: "span_event list \<Rightarrow> assembly" where
  "assemble_spans ss =
     (let sp = span_list ss;
          corr = correlate sp;
          (gone, duplicates) = exact_duplicates sp;
          (gone, deduped) = drop_proxies sp corr gone;
          fixes = device_clock_corrections sp corr gone;
          (st, corrected) = correct_clocks fixes gone \<lparr>a_spans = ss, a_changed = []\<rparr>;
          st = unify_streams corr gone st;
          st = fold (link_step gone) (host_of corr) st
      in \<lparr>as_corr = corr, as_drop = gone, as_duplicates = duplicates, as_deduped = deduped,
          as_corrected = corrected, as_state = st\<rparr>)"

definition write_back :: "assembly \<Rightarrow> memory_store \<Rightarrow> memory_store option" where
  "write_back a store =
     (let ss = a_spans (as_state a);
          changed = sort (filter (\<lambda>i. i \<notin> set (as_drop a)) (a_changed (as_state a)));
          store = fold (\<lambda>i acc. Option.bind acc (store_update_span (ss ! i))) changed (Some store)
      in map_option (store_delete_spans (map (\<lambda>i. eid (ss ! i)) (sort (as_drop a)))) store)"

text \<open>\<open>assemble\<close>; None is the \<open>KeyError\<close> of the store.\<close>

definition assemble_gpu :: "(string \<Rightarrow> (string \<Rightarrow> bool) option) \<Rightarrow> memory_store \<times> device_activity \<Rightarrow> (memory_store \<times> device_activity) option" where
  "assemble_gpu rx x =
     (let (store, da) = x; ss = store_iter rx store (any_span\<lparr>q_gpu_model := Some True\<rparr>) in
      if da_assembled da then Some x
      else if ss = [] then Some (store, da\<lparr>da_assembled := True\<rparr>)
      else
        (let a = assemble_spans ss;
             counts = summary_counts (as_corr a) (as_drop a) (as_duplicates a) (as_deduped a) (as_corrected a) (a_spans (as_state a))
         in map_option (\<lambda>store. (store, (fold add_summary counts da)\<lparr>da_assembled := True\<rparr>)) (write_back a store)))"

section \<open>Status lines\<close>

definition COUNTER_FIELDS :: "string list" where
  "COUNTER_FIELDS = [''dropped'', ''notime'', ''bad_records'', ''buffer_alloc_failed'', ''internal_records'']"

definition gval_int :: "gval \<Rightarrow> int option" where
  "gval_int v = (case v of GInt n \<Rightarrow> Some n | GStr s \<Rightarrow> py_int s)"

definition status_field :: "string \<times> string \<Rightarrow> entry \<Rightarrow> entry" where
  "status_field p entry =
     (let (k, v) = p in
      if k \<in> set COUNTER_FIELDS then
        (case (gval_int (dict_get entry k (GInt 0)), py_int v) of
           (Some m, Some n) \<Rightarrow> AList.update k (GInt (m + n)) entry
         | _ \<Rightarrow> entry)
      else AList.update k (GStr v) entry)"

definition status_runtime :: "string \<Rightarrow> string" where
  "status_runtime api = dict_get [(''cupti'', ''cuda''), (''rocprofiler'', ''rocm'')] api api"

definition record_status :: "int \<Rightarrow> string \<Rightarrow> (string, string) dict \<Rightarrow> device_activity \<Rightarrow> device_activity" where
  "record_status p api fs da =
     (let nm = entry_name (p, status_runtime api);
          entry = AList.update ''tracer'' (GStr api) (dict_get (da_entries da) nm [])
      in da\<lparr>da_entries := AList.update nm (fold status_field fs entry) (da_entries da)\<rparr>)"

definition parse_status_line :: "string \<Rightarrow> (int \<times> string \<times> (string, string) dict) option" where
  "parse_status_line line =
     (case split_max 3 CHR '':'' (strip line) of
        [kind, p, api, kvs] \<Rightarrow>
          (if kind \<noteq> ''gpuact'' then None
           else map_option (\<lambda>p. (p, api,
               fold (\<lambda>kv fs. if CHR ''='' \<in> set kv
                   then AList.update (fst (partition_at CHR ''='' kv)) (snd (partition_at CHR ''='' kv)) fs else fs)
                 (split_on CHR '','' kvs) [])) (py_int p))
      | _ \<Rightarrow> None)"

definition gval_text :: "gval option \<Rightarrow> string" where
  "gval_text v = (case v of None \<Rightarrow> ''None'' | Some (GInt n) \<Rightarrow> show_int n | Some (GStr s) \<Rightarrow> s)"

definition missing_final_flush :: "entry \<Rightarrow> bool" where
  "missing_final_flush e \<longleftrightarrow>
     map_of e ''status'' = Some (GStr ''active'') \<and> gval_text (map_of e ''final_marker'') = ''1''
     \<and> gval_text (map_of e ''final_flush'') \<noteq> ''1''"

end
