(* ===== verification/Store_Facts.thy ===== *)
theory Store_Facts
  imports Memory_Store Streaming_Sweep
begin

text \<open>
  The in-memory store keeps its indexes and lists in step, and its iterator, with the lane
  and thread indexes and the narrowing of a window by the lane's longest span, returns what
  the plain filter over all spans returns. The queries derived from the iterator are then
  proved once, in the locale \<open>span_store\<close>, for every store with that contract.
\<close>

section \<open>Sequence numbers and ids\<close>

definition span_eid :: "int \<Rightarrow> int" where
  "span_eid q = make_eid 0 KIND_SPAN q"

definition held :: "memory_store \<Rightarrow> any_event set" where
  "held st = SpanEv ` set (m_spans st) \<union> InstantEv ` set (m_instants st) \<union> CounterEv ` set (m_counters st)"

definition event_seq :: "any_event \<Rightarrow> int" where
  "event_seq ev = (case ev of SpanEv s \<Rightarrow> seq s | InstantEv i \<Rightarrow> i_seq i | CounterEv k \<Rightarrow> k_seq k)"

definition event_kind_code :: "any_event \<Rightarrow> int" where
  "event_kind_code ev = (case ev of SpanEv s \<Rightarrow> KIND_SPAN | InstantEv i \<Rightarrow> KIND_INSTANT | CounterEv k \<Rightarrow> KIND_COUNTER)"

text \<open>
  The invariant: sequence numbers count up in each list and stay within the 36 bits of an
  id; every event carries the id of its number; the index holds exactly the stored events.
\<close>

definition store_ok :: "memory_store \<Rightarrow> bool" where
  "store_ok st \<longleftrightarrow>
     sorted_wrt (<) (map seq (m_spans st)) \<and> sorted_wrt (<) (map i_seq (m_instants st))
   \<and> sorted_wrt (<) (map k_seq (m_counters st))
   \<and> 0 \<le> next_seq st \<and> next_seq st \<le> 2 ^ 36
   \<and> (\<forall>ev\<in>held st. 0 \<le> event_seq ev \<and> event_seq ev < next_seq st \<and> event_eid ev = make_eid 0 (event_kind_code ev) (event_seq ev))
   \<and> (\<forall>q ev. map_of (by_seq st) q = Some ev \<longleftrightarrow> ev \<in> held st \<and> event_seq ev = q)
   \<and> dict_ok (by_seq st)"

lemma held_facts:
  assumes "store_ok st" "ev \<in> held st"
  shows "0 \<le> event_seq ev \<and> event_seq ev < next_seq st \<and> event_eid ev = make_eid 0 (event_kind_code ev) (event_seq ev)"
proof -
  have "\<forall>ev\<in>held st. 0 \<le> event_seq ev \<and> event_seq ev < next_seq st
      \<and> event_eid ev = make_eid 0 (event_kind_code ev) (event_seq ev)"
    using assms(1) unfolding store_ok_def by (elim conjE)
  then show ?thesis using assms(2) by (rule bspec)
qed

lemma split_stored:
  assumes "store_ok st" "ev \<in> held st"
  shows "snd (snd (split_eid (event_eid ev))) = event_seq ev"
proof -
  have "0 \<le> event_seq ev" "event_seq ev < 2 ^ 36" "event_eid ev = make_eid 0 (event_kind_code ev) (event_seq ev)"
    using assms by (force simp: store_ok_def)+
  moreover have "0 \<le> event_kind_code ev \<and> event_kind_code ev < 4"
    by (cases ev) (simp_all add: event_kind_code_def KIND_SPAN_def KIND_INSTANT_def KIND_COUNTER_def)
  ultimately show ?thesis using make_eid_split by simp
qed

lemma map_of_by_seq: "store_ok st \<Longrightarrow> map_of (by_seq st) q = Some ev \<longleftrightarrow> ev \<in> held st \<and> event_seq ev = q"
  by (simp add: store_ok_def)

lemma event_by_id_held:
  assumes "store_ok st"
  shows "event_by_id st i = Some ev \<longleftrightarrow> ev \<in> held st \<and> event_eid ev = i"
proof
  assume "event_by_id st i = Some ev"
  then show "ev \<in> held st \<and> event_eid ev = i"
    using map_of_by_seq [OF assms] by (auto simp: event_by_id_def split: option.splits if_splits)
next
  assume ev: "ev \<in> held st \<and> event_eid ev = i"
  then have "snd (snd (split_eid i)) = event_seq ev" using split_stored [OF assms] by blast
  then show "event_by_id st i = Some ev"
    using map_of_by_seq [OF assms, of "event_seq ev" ev] ev by (simp add: event_by_id_def)
qed

lemma empty_store_ok: "store_ok empty_store"
  by (simp add: store_ok_def empty_store_def held_def)

section \<open>Writes keep the invariant\<close>

definition stored_event :: "any_event \<Rightarrow> memory_store \<Rightarrow> any_event" where
  "stored_event ev st = (case ev of
      SpanEv s \<Rightarrow> SpanEv (s\<lparr>seq := next_seq st, eid := make_eid 0 KIND_SPAN (next_seq st)\<rparr>)
    | InstantEv i \<Rightarrow> InstantEv (i\<lparr>i_seq := next_seq st, i_eid := make_eid 0 KIND_INSTANT (next_seq st)\<rparr>)
    | CounterEv k \<Rightarrow> CounterEv (k\<lparr>k_seq := next_seq st, k_eid := make_eid 0 KIND_COUNTER (next_seq st)\<rparr>))"

lemma append_fields:
  "held (snd (store_append ev st)) = insert (stored_event ev st) (held st)"
  "next_seq (snd (store_append ev st)) = next_seq st + 1"
  "by_seq (snd (store_append ev st)) = AList.update (next_seq st) (stored_event ev st) (by_seq st)"
  "fst (store_append ev st) = event_eid (stored_event ev st)"
  "event_seq (stored_event ev st) = next_seq st"
  "event_eid (stored_event ev st) = make_eid 0 (event_kind_code (stored_event ev st)) (next_seq st)"
  by (cases ev; auto simp: store_append_def stored_event_def held_def event_eid_def event_seq_def event_kind_code_def Let_def)+

lemma append_ok:
  assumes ok: "store_ok st" and "next_seq st < 2 ^ 36"
  shows "store_ok (snd (store_append ev st))"
proof -
  let ?e = "stored_event ev st"
  have lt: "event_seq x < next_seq st" if "x \<in> held st" for x using ok that by (simp add: store_ok_def)
  have "\<And>s. s \<in> set (m_spans st) \<Longrightarrow> seq s < next_seq st" "\<And>s. s \<in> set (m_instants st) \<Longrightarrow> i_seq s < next_seq st"
    "\<And>s. s \<in> set (m_counters st) \<Longrightarrow> k_seq s < next_seq st"
    using lt [of "SpanEv _"] lt [of "InstantEv _"] lt [of "CounterEv _"] by (auto simp: held_def event_seq_def)
  then have srt: "sorted_wrt (<) (map seq (m_spans (snd (store_append ev st))))"
    "sorted_wrt (<) (map i_seq (m_instants (snd (store_append ev st))))"
    "sorted_wrt (<) (map k_seq (m_counters (snd (store_append ev st))))"
    using ok by (cases ev; simp add: store_append_def store_ok_def Let_def sorted_wrt_append)+
  have idx: "map_of (by_seq (snd (store_append ev st))) q = Some x
      \<longleftrightarrow> x \<in> held (snd (store_append ev st)) \<and> event_seq x = q" for q x
    using map_of_by_seq [OF ok, of q x] lt [of x] append_fields(5) [of ev st]
    by (auto simp: append_fields(1,3) update_conv')
  show ?thesis
    using ok assms(2) srt idx append_fields(5,6) [of ev st] unfolding store_ok_def append_fields(1,2)
    by (auto simp: append_fields(3))
qed

lemma update_fields:
  assumes ok: "store_ok st" and old: "SpanEv cur \<in> held st" "seq cur = seq s"
  shows "store_update_span s st = Some (st\<lparr>m_spans := map (\<lambda>x. if seq x = seq s then s else x) (m_spans st),
      by_seq := AList.update (seq s) (SpanEv s) (by_seq st)\<rparr>)"
    and "set (map (\<lambda>x. if seq x = seq s then s else x) (m_spans st)) = insert s (set (m_spans st) - {cur})"
proof -
  have cur: "map_of (by_seq st) (seq s) = Some (SpanEv cur)"
    using map_of_by_seq [OF ok, of "seq s" "SpanEv cur"] old by (simp add: event_seq_def)
  then show "store_update_span s st = Some (st\<lparr>m_spans := map (\<lambda>x. if seq x = seq s then s else x) (m_spans st),
      by_seq := AList.update (seq s) (SpanEv s) (by_seq st)\<rparr>)"
    by (simp add: store_update_span_def)
  have u: "x = cur" if "x \<in> set (m_spans st)" "seq x = seq s" for x
    using map_of_by_seq [OF ok, of "seq s" "SpanEv x"] that cur by (simp add: event_seq_def held_def)
  have c: "cur \<in> set (m_spans st)" using old by (auto simp: held_def)
  have "(if seq x = seq s then s else x) = (if x = cur then s else x)" if "x \<in> set (m_spans st)" for x
    using u [OF that] old(2) by metis
  then have "set (map (\<lambda>x. if seq x = seq s then s else x) (m_spans st)) = (\<lambda>x. if x = cur then s else x) ` set (m_spans st)"
    unfolding set_map by (rule image_cong [OF refl])
  also have "\<dots> = insert s (set (m_spans st) - {cur})" using c by auto
  finally show "set (map (\<lambda>x. if seq x = seq s then s else x) (m_spans st)) = insert s (set (m_spans st) - {cur})" .
qed

lemma update_ok:
  assumes ok: "store_ok st" and old: "SpanEv cur \<in> held st" "seq cur = seq s" "eid s = eid cur"
    and up: "store_update_span s st = Some st'"
  shows "store_ok st'" and "held st' = insert (SpanEv s) (held st - {SpanEv cur})"
proof -
  note f = update_fields [OF ok old(1,2)]
  have st': "st' = st\<lparr>m_spans := map (\<lambda>x. if seq x = seq s then s else x) (m_spans st),
      by_seq := AList.update (seq s) (SpanEv s) (by_seq st)\<rparr>"
    using f(1) up by simp
  show held: "held st' = insert (SpanEv s) (held st - {SpanEv cur})"
    using f(2) unfolding st' held_def by auto
  have seqs: "map seq (m_spans st') = map seq (m_spans st)" unfolding st' by simp
  have cur: "0 \<le> seq s" "seq s < next_seq st" "eid s = make_eid 0 KIND_SPAN (seq s)"
    using held_facts [OF ok old(1)] old(2,3) by (simp_all add: event_seq_def event_eid_def event_kind_code_def)
  have idx: "map_of (by_seq st') q = Some x \<longleftrightarrow> x \<in> held st' \<and> event_seq x = q" for q x
  proof (cases "q = seq s")
    case True
    have "y = SpanEv cur" if "y \<in> held st" "event_seq y = seq s" for y
      using map_of_by_seq [OF ok, of "seq s" y] map_of_by_seq [OF ok, of "seq s" "SpanEv cur"] that old
      by (simp add: event_seq_def)
    moreover have "map_of (by_seq st') q = Some (SpanEv s)" using True by (simp add: st' update_conv')
    moreover have "event_seq (SpanEv s) = seq s" by (simp add: event_seq_def)
    ultimately show ?thesis unfolding held True by auto
  next
    case False
    then show ?thesis using map_of_by_seq [OF ok, of q x] old unfolding held
      by (auto simp: st' update_conv' event_seq_def)
  qed
  have ev: "0 \<le> event_seq x \<and> event_seq x < next_seq st' \<and> event_eid x = make_eid 0 (event_kind_code x) (event_seq x)"
    if "x \<in> held st'" for x
    using that ok cur unfolding held store_ok_def
    by (auto simp: st' event_seq_def event_eid_def event_kind_code_def split: any_event.splits)
  show "store_ok st'"
    unfolding store_ok_def seqs using ok ev idx by (auto simp: store_ok_def st')
qed

lemma map_of_delete_all: "map_of (fold AList.delete ks d) k = (if k \<in> set ks then None else map_of d k)"
  by (induction ks arbitrary: d) (auto simp: delete_conv')

lemma dict_ok_delete_all: "dict_ok d \<Longrightarrow> dict_ok (fold AList.delete ks d)"
  by (induction ks arbitrary: d) (auto intro: distinct_delete)

lemma delete_ok:
  assumes ok: "store_ok st" and spans: "\<forall>e\<in>set eids. \<exists>s. SpanEv s \<in> held st \<and> eid s = e"
  shows "store_ok (store_delete_spans eids st)"
    and "held (store_delete_spans eids st) = held st - {SpanEv s | s. eid s \<in> set eids}"
proof -
  let ?seqs = "map (\<lambda>e. snd (snd (split_eid e))) eids" and ?st = "store_delete_spans eids st"
  have sq: "snd (snd (split_eid (eid s))) = seq s" if "SpanEv s \<in> held st" for s
    using split_stored [OF ok that] by (simp add: event_eid_def event_seq_def)
  have mem: "event_seq x \<in> set ?seqs \<longleftrightarrow> (\<exists>s. x = SpanEv s \<and> eid s \<in> set eids)" if x: "x \<in> held st" for x
  proof
    assume "event_seq x \<in> set ?seqs"
    then obtain e s where e: "e \<in> set eids" "SpanEv s \<in> held st" "eid s = e" "event_seq x = snd (snd (split_eid e))"
      using spans by auto
    then have "event_seq x = seq s" using sq by auto
    then have "x = SpanEv s"
      using map_of_by_seq [OF ok, of "seq s" x] map_of_by_seq [OF ok, of "seq s" "SpanEv s"] x e(2)
      by (simp add: event_seq_def)
    then show "\<exists>s. x = SpanEv s \<and> eid s \<in> set eids" using e by auto
  next
    assume "\<exists>s. x = SpanEv s \<and> eid s \<in> set eids"
    then obtain s where s: "x = SpanEv s" "eid s \<in> set eids" by blast
    then have "snd (snd (split_eid (eid s))) = event_seq x" using sq x by (simp add: event_seq_def)
    then show "event_seq x \<in> set ?seqs" using s(2) by (metis (no_types, lifting) image_eqI list.set_map)
  qed
  have st: "m_spans ?st = filter (\<lambda>s. seq s \<notin> set ?seqs) (m_spans st)" "m_instants ?st = m_instants st"
    "m_counters ?st = m_counters st" "by_seq ?st = fold AList.delete ?seqs (by_seq st)" "next_seq ?st = next_seq st"
    by (auto simp: store_delete_spans_def Let_def)
  have held_eq: "held ?st = {x \<in> held st. event_seq x \<notin> set ?seqs}"
    unfolding held_def st using mem by (auto simp: held_def event_seq_def)
  then show held: "held ?st = held st - {SpanEv s | s. eid s \<in> set eids}" using mem by auto
  have idx: "map_of (by_seq ?st) q = Some x \<longleftrightarrow> x \<in> held ?st \<and> event_seq x = q" for q x
    unfolding held_eq st map_of_delete_all using map_of_by_seq [OF ok, of q x] by auto
  have "sorted_wrt (<) (map seq (m_spans ?st))"
    using ok unfolding st store_ok_def by (simp add: sorted_wrt_map sorted_wrt_filter)
  then show "store_ok ?st"
    unfolding store_ok_def using ok idx unfolding st held_eq
    by (auto simp: store_ok_def dict_ok_delete_all)
qed

section \<open>The states a store can reach\<close>

lemma option_ext: "(\<And>x. a = Some x \<longleftrightarrow> b = Some x) \<Longrightarrow> a = b"
  by (cases a; cases b) auto

text \<open>
  The writers: any event is appended, a stored span is written back with changes that keep
  its number and id, stored spans are deleted by id.
\<close>

inductive store_reach :: "memory_store \<Rightarrow> bool" where
  init: "store_reach empty_store"
| app: "store_reach st \<Longrightarrow> next_seq st < 2 ^ 36 \<Longrightarrow> store_reach (snd (store_append ev st))"
| upd: "store_reach st \<Longrightarrow> event_by_id st (eid s) = Some (SpanEv cur) \<Longrightarrow> seq s = seq cur
    \<Longrightarrow> store_update_span s st = Some st' \<Longrightarrow> store_reach st'"
| del: "store_reach st \<Longrightarrow> \<forall>e\<in>set eids. \<exists>s. event_by_id st e = Some (SpanEv s)
    \<Longrightarrow> store_reach (store_delete_spans eids st)"

inductive_cases store_reach_appE: "store_reach (snd (store_append ev st))"

lemma store_reach_ok: "store_reach st \<Longrightarrow> store_ok st"
proof (induction rule: store_reach.induct)
  case (app st ev)
  then show ?case by (intro append_ok)
next
  case (upd st s cur st')
  have "SpanEv cur \<in> held st \<and> event_eid (SpanEv cur) = eid s"
    using event_by_id_held [OF upd.IH, of "eid s" "SpanEv cur"] upd.hyps(2) by (rule iffD1)
  then have cur: "SpanEv cur \<in> held st" "eid s = eid cur" by (simp_all add: event_eid_def)
  show ?case by (rule update_ok(1) [OF upd.IH cur(1) upd.hyps(3) [symmetric] cur(2) upd.hyps(4)])
next
  case (del st eids)
  have "\<exists>s. SpanEv s \<in> held st \<and> eid s = e" if "e \<in> set eids" for e
    using del.hyps(2) that event_by_id_held [OF del.IH, of e] by (fastforce simp: event_eid_def)
  then have "\<forall>e\<in>set eids. \<exists>s. SpanEv s \<in> held st \<and> eid s = e" by (rule ballI)
  then show ?case by (rule delete_ok(1) [OF del.IH])
qed (rule empty_store_ok)

text \<open>
  C31. The store's id index and its lists agree in every reachable state: looking an id up
  returns an event exactly when a stored event carries that id, and then that event; an
  appended event is found under the returned id, and every other id keeps its event.
\<close>

theorem store_lookup:
  assumes "store_reach st"
  shows "(event_by_id st i = Some ev \<longleftrightarrow> ev \<in> held st \<and> event_eid ev = i)
    \<and> (next_seq st < 2 ^ 36 \<longrightarrow>
        event_by_id (snd (store_append e st)) (fst (store_append e st)) = Some (stored_event e st)
      \<and> (i \<noteq> fst (store_append e st) \<longrightarrow> event_by_id (snd (store_append e st)) i = event_by_id st i))"
proof -
  have ok: "store_ok st" using assms by (rule store_reach_ok)
  have "event_by_id (snd (store_append e st)) (fst (store_append e st)) = Some (stored_event e st)
      \<and> (i \<noteq> fst (store_append e st) \<longrightarrow> event_by_id (snd (store_append e st)) i = event_by_id st i)"
    if n: "next_seq st < 2 ^ 36"
  proof -
    note ok' = append_ok [OF ok n, of e]
    have "event_by_id (snd (store_append e st)) i = event_by_id st i" if "i \<noteq> fst (store_append e st)"
    proof (rule option_ext)
      fix x
      have "event_eid x \<noteq> i" if "x = stored_event e st"
        using \<open>i \<noteq> fst (store_append e st)\<close> unfolding that append_fields(4) by simp
      then have "x \<in> insert (stored_event e st) (held st) \<and> event_eid x = i \<longleftrightarrow> x \<in> held st \<and> event_eid x = i"
        by blast
      then show "event_by_id (snd (store_append e st)) i = Some x \<longleftrightarrow> event_by_id st i = Some x"
        unfolding event_by_id_held [OF ok'] event_by_id_held [OF ok] append_fields(1) .
    qed
    then show ?thesis using event_by_id_held [OF ok'] unfolding append_fields(1,4) by simp
  qed
  then show ?thesis using event_by_id_held [OF ok] by blast
qed

text \<open>A store with a span, an instant and a second span, the first of them deleted again.\<close>

definition demo_full :: memory_store where
  "demo_full = snd (store_append (SpanEv (mk_span ''recv'' MPI 5 20 1 7 [(''type'', ''recv'')]))
     (snd (store_append (InstantEv \<lparr>i_name = ''mark'', i_category = NVTX, i_timestamp_ns = 11, i_pid = 1,
         i_tid = 7, i_tags = [], i_eid = -1, i_seq = -1\<rparr>)
       (snd (store_append (SpanEv (mk_span ''send'' MPI 10 4 1 7 [(''type'', ''send'')])) empty_store)))))"

definition demo_store :: memory_store where
  "demo_store = store_delete_spans [make_eid 0 KIND_SPAN 0] demo_full"

lemma demo_full_reach: "store_reach demo_full"
  unfolding demo_full_def by (intro app init) (simp_all add: empty_store_def store_append_def Let_def)

lemma demo_store_reach: "store_reach demo_store"
proof -
  note demo_full_reach
  moreover have "event_by_id demo_full (make_eid 0 KIND_SPAN 0)
      = Some (SpanEv ((mk_span ''send'' MPI 10 4 1 7 [(''type'', ''send'')])\<lparr>seq := 0, eid := 0\<rparr>))"
    by code_simp
  ultimately show ?thesis unfolding demo_store_def by (intro del) auto
qed

theorem store_lookup_witness:
  "store_reach demo_store \<and> event_by_id demo_store (make_eid 0 KIND_SPAN 0) = None
   \<and> event_by_id (snd (store_append (SpanEv (mk_span ''x'' CPU 0 1 1 1 [])) demo_store))
        (fst (store_append (SpanEv (mk_span ''x'' CPU 0 1 1 1 [])) demo_store))
      = Some (stored_event (SpanEv (mk_span ''x'' CPU 0 1 1 1 [])) demo_store)"
proof -
  have "next_seq demo_store < 2 ^ 36" by code_simp
  moreover have "event_by_id demo_store (make_eid 0 KIND_SPAN 0) = None" by code_simp
  ultimately show ?thesis using store_lookup [OF demo_store_reach] demo_store_reach by blast
qed

section \<open>Lanes of the stored spans\<close>

definition lane_members :: "span_event list \<Rightarrow> int \<times> lane_key \<Rightarrow> span_event list" where
  "lane_members spans key = filter (\<lambda>s. (pid s, lane_base s) = key) spans"

definition group_of :: "int \<times> lane_key \<Rightarrow> span_event list \<Rightarrow> lane_group" where
  "group_of key ms = \<lparr>g_pid = fst key, g_base = snd key, g_count = int (length ms), g_first_seq = seq (hd ms),
     g_min_start = Min (start_ns ` set ms), g_max_end = Max (end_ns ` set ms), g_max_dur = Max (duration_ns ` set ms)\<rparr>"

lemma group_of_snoc:
  assumes "ms \<noteq> []"
  shows "group_of key (ms @ [s]) = (group_of key ms)\<lparr>g_count := g_count (group_of key ms) + 1,
     g_min_start := min (g_min_start (group_of key ms)) (start_ns s),
     g_max_end := max (g_max_end (group_of key ms)) (end_ns s),
     g_max_dur := max (g_max_dur (group_of key ms)) (duration_ns s)\<rparr>"
  using assms by (simp add: group_of_def min.commute max.commute)

lemma lane_groups_get:
  "map_of (lane_groups spans) key =
     (if lane_members spans key = [] then None else Some (group_of key (lane_members spans key)))"
proof (induction spans rule: rev_induct)
  case (snoc s spans)
  let ?k = "(pid s, lane_base s)"
  have step: "lane_groups (spans @ [s]) = lane_group_step s (lane_groups spans)" by (simp add: lane_groups_def)
  have mem: "lane_members (spans @ [s]) key = lane_members spans key @ (if ?k = key then [s] else [])"
    by (simp add: lane_members_def)
  show ?case
  proof (cases "?k = key")
    case False
    then have "map_of (lane_groups (spans @ [s])) key = map_of (lane_groups spans) key"
      unfolding step lane_group_step_def Let_def by (auto simp: update_conv' split: option.split)
    then show ?thesis using snoc False mem by simp
  next
    case True
    show ?thesis
    proof (cases "lane_members spans key = []")
      case True
      then show ?thesis using snoc \<open>?k = key\<close> mem
        unfolding step lane_group_step_def Let_def by (auto simp: update_conv' group_of_def)
    next
      case False
      then show ?thesis using snoc \<open>?k = key\<close> mem
        unfolding step lane_group_step_def Let_def by (auto simp: update_conv' group_of_snoc)
    qed
  qed
qed (simp add: lane_groups_def lane_members_def)

lemma lane_groups_ok: "dict_ok (lane_groups spans)"
proof -
  have "dict_ok d \<Longrightarrow> dict_ok (fold lane_group_step spans d)" for d
    by (induction spans arbitrary: d) (auto simp: lane_group_step_def Let_def split: option.split)
  then show ?thesis by (simp add: lane_groups_def)
qed

lemma lane_group_entry:
  assumes "g \<in> set (map snd (lane_groups spans))"
  shows "g = group_of (g_pid g, g_base g) (lane_members spans (g_pid g, g_base g))"
    and "lane_members spans (g_pid g, g_base g) \<noteq> []" and "((g_pid g, g_base g), g) \<in> set (lane_groups spans)"
proof -
  obtain key where k: "(key, g) \<in> set (lane_groups spans)" using assms by auto
  then have "map_of (lane_groups spans) key = Some g" using lane_groups_ok by (simp add: map_of_is_SomeI)
  then have g: "g = group_of key (lane_members spans key)" "lane_members spans key \<noteq> []"
    unfolding lane_groups_get by (auto split: if_splits)
  then have "key = (g_pid g, g_base g)" by (simp add: group_of_def)
  then show "g = group_of (g_pid g, g_base g) (lane_members spans (g_pid g, g_base g))"
    "lane_members spans (g_pid g, g_base g) \<noteq> []" "((g_pid g, g_base g), g) \<in> set (lane_groups spans)"
    using g k by simp_all
qed

lemma lane_group_keys: "map (\<lambda>g. (g_pid g, g_base g)) (map snd (lane_groups spans)) = map fst (lane_groups spans)"
proof -
  have "(g_pid g, g_base g) = k" if "(k, g) \<in> set (lane_groups spans)" for k g
  proof -
    have "map_of (lane_groups spans) k = Some g" using that lane_groups_ok by (simp add: map_of_is_SomeI)
    then show ?thesis unfolding lane_groups_get by (auto simp: group_of_def split: if_splits)
  qed
  then show ?thesis by auto
qed

lemma lane_groups_distinct: "distinct (map (\<lambda>g. (g_pid g, g_base g)) (map snd (lane_groups spans)))"
  unfolding lane_group_keys by (rule lane_groups_ok)

lemma lane_groups_has: "s \<in> set spans \<Longrightarrow> \<exists>g\<in>set (map snd (lane_groups spans)). (g_pid g, g_base g) = (pid s, lane_base s)"
proof -
  assume "s \<in> set spans"
  then have "s \<in> set (lane_members spans (pid s, lane_base s))" by (simp add: lane_members_def)
  then have "lane_members spans (pid s, lane_base s) \<noteq> []" by auto
  then have "map_of (lane_groups spans) (pid s, lane_base s) = Some (group_of (pid s, lane_base s) (lane_members spans (pid s, lane_base s)))"
    by (simp add: lane_groups_get)
  then have "group_of (pid s, lane_base s) (lane_members spans (pid s, lane_base s)) \<in> set (map snd (lane_groups spans))"
    by (force dest: map_of_SomeD)
  then show ?thesis by (rule bexI [rotated]) (simp add: group_of_def)
qed

definition idents_ok :: "span_event list \<Rightarrow> bool" where
  "idents_ok spans \<longleftrightarrow> (\<forall>s\<in>set spans. CHR ''@'' \<notin> set (snd (snd (lane_base s))))"

definition info_key :: "lane_info \<Rightarrow> int \<times> lane_key" where
  "info_key l = (l_pid l, l_cat l, l_kind l, l_ident l)"

definition span_key :: "span_event \<Rightarrow> int \<times> lane_key" where
  "span_key s = (pid s, lane_base s)"

lemma store_lane_infos_eq: "store_lane_infos spans = assign_lane_names (map snd (lane_groups spans))"
  by (simp add: store_lane_infos_def lane_infos_def no_lane_iter_def)

lemma mk_lane_info_key [simp]: "info_key (mk_lane_info gs g) = (g_pid g, g_base g)"
  by (simp add: info_key_def mk_lane_info_def)

lemma map_of_rev_distinct:
  assumes "distinct (map fst xs)"
  shows "map_of (rev xs) = map_of xs"
  using assms by (intro map_of_eqI ext) (auto simp: map_of_eq_None_iff rev_map [symmetric] map_of_inject_set)

lemma info_keys_distinct: "distinct (map info_key (store_lane_infos spans))"
proof -
  have "map info_key (store_lane_infos spans) = map (\<lambda>g. (g_pid g, g_base g)) (sort_key g_first_seq (map snd (lane_groups spans)))"
    by (simp add: store_lane_infos_eq assign_lane_names_def)
  moreover have "distinct (map (\<lambda>g. (g_pid g, g_base g)) (sort_key g_first_seq (map snd (lane_groups spans))))"
    using lane_groups_distinct [of spans]
    by (subst mset_eq_imp_distinct_iff [where ys = "map (\<lambda>g. (g_pid g, g_base g)) (map snd (lane_groups spans))"])
      (simp_all only: mset_map mset_sort)
  ultimately show ?thesis by simp
qed

lemma info_members:
  assumes "l \<in> set (store_lane_infos spans)"
  shows "lane_members spans (info_key l) \<noteq> []"
    and "l_count l = int (length (lane_members spans (info_key l)))"
    and "l_min_start l = Min (start_ns ` set (lane_members spans (info_key l)))"
    and "l_max_end l = Max (end_ns ` set (lane_members spans (info_key l)))"
    and "l_max_dur l = Max (duration_ns ` set (lane_members spans (info_key l)))"
    and "l_first_seq l = seq (hd (lane_members spans (info_key l)))"
proof -
  obtain g where g: "g \<in> set (map snd (lane_groups spans))" "l = mk_lane_info (map snd (lane_groups spans)) g"
    using assms by (auto simp: store_lane_infos_eq assign_lane_names_def)
  have k: "info_key l = (g_pid g, g_base g)" using g(2) by simp
  note e = lane_group_entry [OF g(1)]
  show "lane_members spans (info_key l) \<noteq> []" unfolding k by (rule e(2))
  have "l_count l = g_count g" "l_min_start l = g_min_start g" "l_max_end l = g_max_end g"
    "l_max_dur l = g_max_dur g" "l_first_seq l = g_first_seq g"
    using g(2) by (simp_all add: mk_lane_info_def)
  then show "l_count l = int (length (lane_members spans (info_key l)))"
    "l_min_start l = Min (start_ns ` set (lane_members spans (info_key l)))"
    "l_max_end l = Max (end_ns ` set (lane_members spans (info_key l)))"
    "l_max_dur l = Max (duration_ns ` set (lane_members spans (info_key l)))"
    "l_first_seq l = seq (hd (lane_members spans (info_key l)))"
    unfolding k by (simp_all add: arg_cong [OF e(1), of g_count] arg_cong [OF e(1), of g_min_start]
      arg_cong [OF e(1), of g_max_end] arg_cong [OF e(1), of g_max_dur] arg_cong [OF e(1), of g_first_seq] group_of_def)
qed

lemma info_has: "s \<in> set spans \<Longrightarrow> \<exists>l\<in>set (store_lane_infos spans). info_key l = span_key s"
proof -
  assume "s \<in> set spans"
  then obtain g where "g \<in> set (map snd (lane_groups spans))" "(g_pid g, g_base g) = (pid s, lane_base s)"
    using lane_groups_has by blast
  then show ?thesis
    by (intro bexI [of _ "mk_lane_info (map snd (lane_groups spans)) g"])
      (auto simp: store_lane_infos_eq assign_lane_names_def span_key_def)
qed

lemma lane_name_of_iff:
  assumes "l \<in> set (store_lane_infos spans)" "info_key l = span_key s"
  shows "lane_name_of (store_lane_infos spans) s = Some (l_name l)"
proof -
  let ?d = "map (\<lambda>l. (info_key l, l_name l)) (store_lane_infos spans)"
  have d: "distinct (map fst ?d)" using info_keys_distinct [of spans] by (simp add: comp_def)
  have "map_of ?d (span_key s) = Some (l_name l)"
    using assms d by (intro map_of_is_SomeI) (auto intro!: image_eqI [of _ _ l])
  then show ?thesis
    using map_of_rev_distinct [OF d] by (simp add: lane_name_of_def info_key_def span_key_def)
qed

lemma lane_names_inj:
  assumes "idents_ok spans"
  shows "distinct (map l_name (store_lane_infos spans))"
  unfolding store_lane_infos_eq
proof (rule lane_names_distinct [OF lane_groups_distinct], intro ballI)
  fix g assume g: "g \<in> set (map snd (lane_groups spans))"
  obtain s where "s \<in> set (lane_members spans (g_pid g, g_base g))"
    using lane_group_entry(2) [OF g] by (cases "lane_members spans (g_pid g, g_base g)") auto
  then have "s \<in> set spans" "lane_base s = g_base g" by (auto simp: lane_members_def)
  then show "lane_key_ok (g_base g) \<and> CHR ''@'' \<notin> set (snd (snd (g_base g)))"
    using assms lane_base_ok [of s] by (auto simp: idents_ok_def)
qed

lemma find_lane_iff:
  assumes "distinct (map l_name infos)"
  shows "find_lane infos nm = Some l \<longleftrightarrow> l \<in> set infos \<and> l_name l = nm"
proof -
  let ?d = "map (\<lambda>l. (l_name l, l)) infos"
  have d: "distinct (map fst ?d)" using assms by (simp add: comp_def)
  have "find_lane infos nm = map_of ?d nm" unfolding find_lane_def map_of_rev_distinct [OF d] ..
  moreover have "map_of ?d nm = Some l \<longleftrightarrow> (nm, l) \<in> set ?d" using d by simp
  ultimately show ?thesis by auto
qed

section \<open>The iterator is the plain filter\<close>

definition in_lane :: "span_event list \<Rightarrow> string option \<Rightarrow> span_event \<Rightarrow> bool" where
  "in_lane spans lane s \<longleftrightarrow> (case lane of None \<Rightarrow> True | Some nm \<Rightarrow> lane_name_of (store_lane_infos spans) s = Some nm)"

definition order_spans :: "span_order \<Rightarrow> span_event list \<Rightarrow> span_event list" where
  "order_spans ord spans = (case ord of SeqOrder \<Rightarrow> spans | StartOrder \<Rightarrow> sort_key start_key spans)"

definition query_spec :: "(string \<Rightarrow> (string \<Rightarrow> bool) option) \<Rightarrow> span_event list \<Rightarrow> span_query \<Rightarrow> span_event list" where
  "query_spec rx spans q =
     order_spans (q_order q) (filter (\<lambda>s. in_lane spans (q_lane q) s \<and> query_keeps rx q s) spans)"

lemma seq_sort_perm:
  assumes "sorted_wrt (<) (map seq ys)" "mset xs = mset ys"
  shows "sort_key seq xs = ys"
proof (rule map_sorted_distinct_set_unique [where f = seq])
  have d: "distinct (map seq ys)" using assms(1) by (rule strict_sorted_iff [THEN iffD1, THEN conjunct2])
  have s: "set xs = set ys" using assms(2) by (rule mset_eq_setD)
  show "inj_on seq (set (sort_key seq xs) \<union> set ys)" using d s by (simp add: distinct_map)
  show "sorted (map seq ys)" using assms(1) by (rule strict_sorted_iff [THEN iffD1, THEN conjunct1])
  show "distinct (map seq ys)" by (rule d)
  have "mset (map seq (sort_key seq xs)) = mset (map seq ys)" using assms(2) by simp
  then show "distinct (map seq (sort_key seq xs))" using d by (metis mset_eq_imp_distinct_iff)
  show "set (sort_key seq xs) = set ys" using s by simp
qed simp

lemma lane_index_get:
  "dict_get (lane_index spans) nm [] =
     sort_key start_key (filter (\<lambda>s. lane_name_of (store_lane_infos spans) s = Some nm) spans)"
proof -
  let ?infos = "store_lane_infos spans"
  let ?fresh = "fold (\<lambda>l d. AList.update (l_name l) ([] :: span_event list) d) ?infos []"
  let ?idx = "fold (\<lambda>s d. dict_append (the (lane_name_of ?infos s)) s d) spans ?fresh"
  have "dict_get (fold (\<lambda>l d. AList.update (l_name l) ([] :: span_event list) d) ls d) nm [] = []" if "dict_get d nm [] = []" for ls d
    using that by (induction ls arbitrary: d) auto
  from this [of "[]" ?infos] have "dict_get ?fresh nm [] = []" by (simp add: dict_get_Nil)
  then have "dict_get ?idx nm [] = filter (\<lambda>s. the (lane_name_of ?infos s) = nm) spans"
    by (simp add: fold_append_get)
  also have "\<dots> = filter (\<lambda>s. lane_name_of ?infos s = Some nm) spans"
  proof (intro filter_cong refl)
    fix s assume "s \<in> set spans"
    then obtain l where "l \<in> set ?infos" "info_key l = span_key s" using info_has by blast
    then have "lane_name_of ?infos s = Some (l_name l)" by (rule lane_name_of_iff)
    then show "(the (lane_name_of ?infos s) = nm) = (lane_name_of ?infos s = Some nm)" by simp
  qed
  finally have "dict_get ?idx nm [] = \<dots>" .
  moreover have "dict_get (map (\<lambda>(nm, lst). (nm, sort_key start_key lst)) d) nm [] = sort_key start_key (dict_get d nm [])" for d
    by (simp add: dict_get_def map_of_map split: option.split)
  ultimately show ?thesis by (simp add: lane_index_def Let_def)
qed

lemma thread_index_get:
  "dict_get (thread_index spans) (p, t) [] = sort_key start_key (filter (\<lambda>s. (pid s, tid s) = (p, t)) spans)"
proof -
  have "dict_get (map (\<lambda>(k, lst). (k, sort_key start_key lst)) d) (p, t) [] = sort_key start_key (dict_get d (p, t) [])" for d
    by (simp add: dict_get_def map_of_map split: option.split)
  then show ?thesis by (simp add: thread_index_def)
qed

text \<open>The window bounds of the lane cut off only spans outside the window.\<close>

lemma slice_keeps:
  assumes srt: "sorted (map start_ns lst)" and dur: "\<And>s. s \<in> set lst \<Longrightarrow> duration_ns s \<le> md"
    and keeps: "\<And>s. s \<in> set lst \<Longrightarrow> P s \<Longrightarrow> start_ns s \<le> b \<and> a < end_ns s"
  shows "filter P (slice (bisect_left (map start_ns lst) (a - md)) (bisect_right (map start_ns lst) b) lst) = filter P lst"
proof -
  let ?lo = "bisect_left (map start_ns lst) (a - md)" and ?hi = "bisect_right (map start_ns lst) b"
  have lo: "splits_at (\<lambda>y. y < a - md) (map start_ns lst) ?lo" by (rule bisect_left_splits [OF srt])
  have hi: "splits_at (\<lambda>y. y \<le> b) (map start_ns lst) ?hi" by (rule bisect_right_splits [OF srt])
  have low: "\<not> P (lst ! i)" if "i < ?lo" "i < length lst" for i
  proof
    assume P: "P (lst ! i)"
    have "start_ns (lst ! i) < a - md" using lo that by (simp add: splits_at_def)
    moreover have "duration_ns (lst ! i) \<le> md" "a < end_ns (lst ! i)" using dur keeps P that by simp_all
    ultimately show False by (simp add: end_ns_def)
  qed
  have high: "\<not> P (lst ! i)" if "?hi \<le> i" "i < length lst" for i
    using hi that keeps [of "lst ! i"] by (auto simp: splits_at_def)
  have "filter P (take ?lo lst) = []" using low by (auto simp: filter_empty_conv in_set_conv_nth)
  moreover have "filter P (drop ?hi lst) = []" using high by (auto simp: filter_empty_conv in_set_conv_nth)
  moreover have "filter P lst = filter P (take ?lo lst) @ filter P (drop ?lo lst)"
    by (metis append_take_drop_id filter_append)
  moreover have "filter P lst = filter P (take ?hi lst) @ filter P (drop ?hi lst)"
    by (metis append_take_drop_id filter_append)
  moreover have "filter P (take ?hi lst) = filter P (take ?lo (take ?hi lst)) @ filter P (slice ?lo ?hi lst)"
    unfolding slice_def by (metis append_take_drop_id filter_append)
  moreover have "filter P (take ?lo (take ?hi lst)) = []"
    using low by (auto simp: filter_empty_conv in_set_conv_nth)
  ultimately show ?thesis by simp
qed

lemma sorted_start: "sorted (map start_ns (sort_key start_key lst))"
proof -
  have "sorted (map start_key (sort_key start_key lst))" by simp
  then show ?thesis unfolding sorted_map
    by (rule sorted_wrt_mono_rel [rotated]) (auto simp: start_key_def less_eq_prod_def)
qed

lemma query_keeps_window:
  "q_window q = Some (a, b) \<Longrightarrow> query_keeps rx q s \<Longrightarrow> start_ns s \<le> b \<and> a < end_ns s"
  by (auto simp: query_keeps_def split: if_splits)

lemma lane_source:
  assumes "idents_ok spans" and st: "m_spans st = spans" and q: "q_lane q = Some lane"
  shows "\<exists>lst. mset (filter (query_keeps rx q) lst) = mset (filter (query_keeps rx q) (filter (\<lambda>s. in_lane spans (Some lane) s) spans))
    \<and> filter (query_keeps rx q) lst = sort_key start_key (filter (query_keeps rx q) (filter (\<lambda>s. in_lane spans (Some lane) s) spans))
    \<and> iter_source st q = (if q_order q = SeqOrder then sort_key seq lst else lst)"
proof -
  let ?in = "filter (\<lambda>s. in_lane spans (Some lane) s) spans"
  let ?lst = "sort_key start_key ?in" and ?infos = "store_lane_infos spans"
  have get: "dict_get (lane_index spans) lane [] = ?lst" by (simp add: lane_index_get in_lane_def)
  show ?thesis
  proof (cases "q_window q = None \<or> ?lst = []")
    case True
    then have "iter_source st q = (if q_order q = SeqOrder then sort_key seq ?lst else ?lst)"
      using st q get by (auto simp: iter_source_def Let_def split: option.split)
    then show ?thesis by (intro exI [of _ ?lst]) (simp add: filter_sort)
  next
    case False
    then obtain a b where w: "q_window q = Some (a, b)" by auto
    have "?in \<noteq> []" using False by auto
    then obtain s where "s \<in> set ?in" by (cases ?in) auto
    then have s: "s \<in> set spans" "lane_name_of ?infos s = Some lane" by (auto simp: in_lane_def)
    obtain l where l: "l \<in> set ?infos" "info_key l = span_key s" using info_has [OF s(1)] by blast
    have nm: "l_name l = lane" using lane_name_of_iff [OF l] s(2) by simp
    then have fl: "find_lane ?infos lane = Some l" using find_lane_iff [OF lane_names_inj [OF assms(1)]] l(1) by blast
    have dur: "duration_ns x \<le> l_max_dur l" if "x \<in> set ?lst" for x
    proof -
      have x: "x \<in> set spans" "lane_name_of ?infos x = Some lane" using that by (auto simp: in_lane_def)
      obtain k where k: "k \<in> set ?infos" "info_key k = span_key x" using info_has [OF x(1)] by blast
      have "l_name k = lane" using lane_name_of_iff [OF k] x(2) by simp
      then have "k = l" using k(1) l(1) nm lane_names_inj [OF assms(1)] by (auto simp: distinct_map inj_on_def)
      then have "x \<in> set (lane_members spans (info_key l))" using k(2) x(1) by (simp add: lane_members_def span_key_def)
      then show ?thesis unfolding info_members(5) [OF l(1)] by simp
    qed
    let ?cut = "slice (bisect_left (map start_ns ?lst) (a - l_max_dur l)) (bisect_right (map start_ns ?lst) b) ?lst"
    have "filter (query_keeps rx q) ?cut = filter (query_keeps rx q) ?lst"
      by (rule slice_keeps [OF sorted_start dur query_keeps_window [OF w]])
    moreover have "iter_source st q = (if q_order q = SeqOrder then sort_key seq ?cut else ?cut)"
      using st q get w fl False by (simp add: iter_source_def Let_def)
    ultimately show ?thesis by (intro exI [of _ ?cut]) (simp add: filter_sort)
  qed
qed

lemma store_iter_eq:
  assumes ok: "store_ok st" and idents: "q_lane q \<noteq> None \<Longrightarrow> idents_ok (m_spans st)"
  shows "store_iter rx st q = query_spec rx (m_spans st) q"
proof -
  let ?spans = "m_spans st" and ?keep = "query_keeps rx q"
  have srt: "sorted_wrt (<) (map seq ?spans)" using ok by (simp add: store_ok_def)
  have srtf: "sorted_wrt (<) (map seq (filter P ?spans))" for P
    using srt by (simp add: sorted_wrt_map sorted_wrt_filter)
  show ?thesis
  proof (cases "q_lane q")
    case (Some lane)
    then have "idents_ok ?spans" using idents by simp
    then obtain lst where m: "mset (filter ?keep lst) = mset (filter ?keep (filter (\<lambda>s. in_lane ?spans (Some lane) s) ?spans))"
      and f: "filter ?keep lst = sort_key start_key (filter ?keep (filter (\<lambda>s. in_lane ?spans (Some lane) s) ?spans))"
      and src: "iter_source st q = (if q_order q = SeqOrder then sort_key seq lst else lst)"
      using lane_source [OF _ refl Some, where rx = rx] by blast
    have ff: "filter ?keep (filter (\<lambda>s. in_lane ?spans (Some lane) s) ?spans) = filter (\<lambda>s. in_lane ?spans (q_lane q) s \<and> ?keep s) ?spans"
      using Some by (simp add: conj_commute)
    show ?thesis
    proof (cases "q_order q")
      case SeqOrder
      then have "store_iter rx st q = sort_key seq (filter ?keep lst)" using src by (simp add: store_iter_def filter_sort)
      also have "\<dots> = filter (\<lambda>s. in_lane ?spans (q_lane q) s \<and> ?keep s) ?spans"
        using m unfolding ff by (intro seq_sort_perm srtf)
      finally show ?thesis using SeqOrder by (simp add: query_spec_def order_spans_def)
    next
      case StartOrder
      then show ?thesis using src f unfolding ff by (simp add: store_iter_def query_spec_def order_spans_def)
    qed
  next
    case None
    have in_all: "in_lane ?spans (q_lane q) s" for s using None by (simp add: in_lane_def)
    show ?thesis
    proof (cases "q_pid q = None \<or> q_tid q = None")
      case True
      then have "iter_source st q = (if q_order q = StartOrder then sort_key start_key ?spans else ?spans)"
        using None by (auto simp: iter_source_def split: option.split)
      then show ?thesis using in_all
        by (cases "q_order q") (simp_all add: store_iter_def query_spec_def order_spans_def filter_sort)
    next
      case False
      then obtain p t where pt: "q_pid q = Some p" "q_tid q = Some t" by auto
      let ?th = "filter (\<lambda>s. (pid s, tid s) = (p, t)) ?spans"
      have ff: "filter ?keep ?th = filter (\<lambda>s. in_lane ?spans (q_lane q) s \<and> ?keep s) ?spans"
        using in_all pt by (auto simp: query_keeps_def intro!: filter_cong)
      have src: "iter_source st q = (if q_order q = SeqOrder then sort_key seq (sort_key start_key ?th) else sort_key start_key ?th)"
        using None pt by (simp add: iter_source_def Let_def thread_index_get)
      show ?thesis
      proof (cases "q_order q")
        case SeqOrder
        then have "store_iter rx st q = sort_key seq (filter ?keep (sort_key start_key ?th))"
          using src by (simp add: store_iter_def filter_sort)
        also have "\<dots> = filter (\<lambda>s. in_lane ?spans (q_lane q) s \<and> ?keep s) ?spans"
          by (intro seq_sort_perm srtf) (simp add: ff [symmetric] filter_sort [symmetric] del: filter_filter)
        finally show ?thesis using SeqOrder by (simp add: query_spec_def order_spans_def)
      next
        case StartOrder
        then show ?thesis using src unfolding store_iter_def query_spec_def order_spans_def
          by (simp add: ff [symmetric] filter_sort del: filter_filter)
      qed
    qed
  qed
qed

end
