(* ===== verification/Gpu_Assembly_Facts.thy ===== *)
theory Gpu_Assembly_Facts
  imports Gpu_Assembly Store_Facts
begin

text \<open>
  What \<open>assemble\<close> guarantees: measured device work never starts before it was submitted, no
  launch is counted twice and none is lost, nothing but device spans changes, and every change
  is written back to the store.
\<close>

section \<open>The list of spans\<close>

lemma span_list_ok [simp]: "dict_ok (span_list ss)"
  by (simp add: span_list_def)

lemma span_list_get: "map_of (span_list ss) i = (if i < length ss then Some (ss ! i) else None)"
proof (cases "i < length ss")
  case True
  then have "(i, ss ! i) \<in> set (span_list ss)" by (auto simp: span_list_def in_set_enumerate_eq)
  then show ?thesis using True by simp
next
  case False
  then show ?thesis by (auto simp: span_list_def map_of_eq_None_iff in_set_enumerate_eq)
qed

lemma span_list_at [simp]: "i < length ss \<Longrightarrow> span_at (span_list ss) i = ss ! i"
  by (simp add: span_at_def span_list_get)

abbreviation links :: "span_event list \<Rightarrow> (nat, nat) dict" where
  "links ss \<equiv> host_of (correlate (span_list ss))"

lemma host_of_ok: "dict_ok (host_of (fold (correlate_step sp idx) xs out))" if "dict_ok (host_of out)"
  using that
proof (induction xs arbitrary: out)
  case (Cons p xs)
  have "dict_ok (host_of (correlate_step sp idx p out))"
    using Cons.prems by (auto simp: correlate_step_def link_def Let_def split: prod.splits intro: dict_ok_update)
  then show ?case using Cons.IH by simp
qed simp

lemma links_ok: "dict_ok (links ss)"
  unfolding correlate_def by (rule host_of_ok) (simp add: no_correlation_def)

text \<open>A link leads from a device span to a submission of the same process and runtime.\<close>

lemma link_facts:
  assumes "(d, h) \<in> set (links ss)"
  shows "d < length ss" "h < length ss" "is_device_span (ss ! d)" "is_host_submission (ss ! h)" "same_runtime (ss ! h) (ss ! d)"
proof -
  have m: "map_of (links ss) d = Some h" using assms links_ok by simp
  show d: "d < length ss"
    using host_of_outside [OF span_list_ok, of ss d] m by (cases "d < length ss") (auto simp: span_list_get)
  then have s: "map_of (span_list ss) d = Some (ss ! d)" by (simp add: span_list_get)
  note l = linked_nearest [OF span_list_ok s m]
  show "is_device_span (ss ! d)" using l(1) by (simp add: linked_def)
  have "h \<in> eligible (span_list ss) (ss ! d)" using l(2) by (simp add: nearest_def)
  then obtain x where "map_of (span_list ss) h = Some x" "is_host_submission x" "same_runtime x (ss ! d)"
    using eligible_host [OF span_list_ok] by blast
  then show "h < length ss" "is_host_submission (ss ! h)" "same_runtime (ss ! h) (ss ! d)"
    by (auto simp: span_list_get split: if_splits)
qed

section \<open>Clock corrections\<close>

lemma evidence_before_start: "clock_evidence_ns d \<le> start_ns d"
  by (auto simp: clock_evidence_ns_def split: option.splits)

lemma bound_after_call: "start_ns h \<le> submission_bound h d"
  by (auto simp: submission_bound_def split: option.splits)

definition need_of :: "spans \<Rightarrow> nat \<times> nat \<Rightarrow> int" where
  "need_of sp p = submission_bound (span_at sp (snd p)) (span_at sp (fst p)) - clock_evidence_ns (span_at sp (fst p))"

lemma add_need_get:
  "dict_get (fold (add_need sp gone) hs d) k [] = dict_get d k [] @
     map (\<lambda>p. (clock_evidence_ns (span_at sp (fst p)), need_of sp p))
       (filter (\<lambda>p. fst p \<notin> set gone \<and> measured_work (span_at sp (fst p)) \<and> 0 < need_of sp p
          \<and> device_clock_key (span_at sp (fst p)) = k) hs)"
proof (induction hs arbitrary: d)
  case (Cons p hs)
  show ?case using Cons.IH [of "add_need sp gone p d"]
    by (cases p) (auto simp: add_need_def need_of_def Let_def)
qed simp

lemma correction_meets_need:
  assumes p: "(d, h) \<in> set (host_of corr)" "d \<notin> set gone" "measured_work (span_at sp d)" "0 < need_of sp (d, h)"
  shows "need_of sp (d, h) \<le> correction_of (device_clock_corrections sp corr gone) (span_at sp d)"
proof -
  let ?k = "device_clock_key (span_at sp d)"
  define needs where "needs = fold (add_need sp gone) (host_of corr) []"
  define pts where "pts = dict_get needs ?k []"
  have m: "(clock_evidence_ns (span_at sp d), need_of sp (d, h)) \<in> set pts"
    unfolding pts_def needs_def add_need_get using assms by (force intro!: image_eqI [of _ _ "(d, h)"])
  then have "map_of needs ?k = Some pts" by (cases "map_of needs ?k") (simp_all add: pts_def dict_get_def)
  then have f: "map_of (device_clock_corrections sp corr gone) ?k = Some (clock_correction (sort pts) CLOCK_DRIFT_RATE)"
    unfolding device_clock_corrections_def needs_def [symmetric] by (simp add: map_of_map)
  have "sorted (map fst (sort pts))" by (rule sorted_map_mono [OF sorted_sort]) (auto simp: mono_on_def less_eq_prod_def)
  then have "need_of sp (d, h) \<le> correction_at (clock_correction (sort pts) CLOCK_DRIFT_RATE) (clock_evidence_ns (span_at sp d))"
    unfolding correction_at_least [OF \<open>sorted (map fst (sort pts))\<close>]
    by (intro py_round_ge) (use pull_le [of "(clock_evidence_ns (span_at sp d), need_of sp (d, h))" "sort pts" CLOCK_DRIFT_RATE
          "clock_evidence_ns (span_at sp d)"] m in
        \<open>simp add: pull_def\<close>)
  then show ?thesis by (simp add: correction_of_def f)
qed

text \<open>What the correction does to one span.\<close>

definition corrected_span :: "(clock_key, clock_correction) dict \<Rightarrow> nat list \<Rightarrow> nat \<Rightarrow> span_event \<Rightarrow> span_event" where
  "corrected_span fixes gone i s =
     (if i \<in> set gone \<or> \<not> is_device_span s \<or> \<not> measured_work s \<or> correction_of fixes s \<le> 0 then s
      else shift_span (correction_of fixes s) s)"

definition corrected_spans :: "(clock_key, clock_correction) dict \<Rightarrow> nat list \<Rightarrow> span_event list \<Rightarrow> span_event list" where
  "corrected_spans fixes gone ss = map (\<lambda>i. corrected_span fixes gone i (ss ! i)) [0..<length ss]"

lemma correct_step_spans:
  assumes "i < length (a_spans (fst x))"
  shows "a_spans (fst (correct_step fixes gone i x)) = (a_spans (fst x))[i := corrected_span fixes gone i (a_spans (fst x) ! i)]"
    "set (a_changed (fst (correct_step fixes gone i x))) =
       set (a_changed (fst x)) \<union> (if i \<in> set gone \<or> \<not> is_device_span (a_spans (fst x) ! i) \<or> \<not> measured_work (a_spans (fst x) ! i)
            \<or> correction_of fixes (a_spans (fst x) ! i) \<le> 0 then {} else {i})"
  using assms by (auto simp: correct_step_def corrected_span_def touch_def Let_def split: prod.splits)

definition state_of :: "span_event list \<Rightarrow> nat \<Rightarrow> span_event list \<Rightarrow> span_state \<Rightarrow> bool" where
  "state_of ss k out st \<longleftrightarrow> distinct (a_changed st) \<and> a_spans st = take k out @ drop k ss
     \<and> (\<forall>i<length ss. i \<notin> set (a_changed st) \<longrightarrow> a_spans st ! i = ss ! i)
     \<and> (\<forall>i\<in>set (a_changed st). i < length ss \<and> is_device_span (ss ! i))"

lemma correct_clocks_state:
  "state_of ss (length ss) (corrected_spans fixes gone ss) (fst (correct_clocks fixes gone \<lparr>a_spans = ss, a_changed = []\<rparr>))"
proof (cases "fixes = []")
  case True
  have "corrected_spans fixes gone ss = ss"
    by (rule nth_equalityI) (simp_all add: corrected_spans_def corrected_span_def correction_of_def True)
  then show ?thesis by (simp add: correct_clocks_def True state_of_def)
next
  case False
  let ?out = "corrected_spans fixes gone ss"
  have len: "length ?out = length ss" by (simp add: corrected_spans_def)
  have "state_of ss (length ss) ?out (fst (fold (correct_step fixes gone) [0..<length ss] (\<lparr>a_spans = ss, a_changed = []\<rparr>, [])))"
  proof (rule fold_range_inv [where P = "\<lambda>k x. state_of ss k ?out (fst x)"])
    fix i and x :: "span_state \<times> corrected" assume i: "i < length ss" and s: "state_of ss i ?out (fst x)"
    have a: "a_spans (fst x) = take i ?out @ drop i ss" using s by (simp add: state_of_def)
    then have at: "a_spans (fst x) ! i = ss ! i" "length (a_spans (fst x)) = length ss" using i len by (simp_all add: nth_append)
    have "?out ! i = corrected_span fixes gone i (ss ! i)" using i by (simp add: corrected_spans_def)
    moreover have "a_spans (fst (correct_step fixes gone i x)) = (a_spans (fst x))[i := corrected_span fixes gone i (ss ! i)]"
      using correct_step_spans(1) [of i x "fixes" gone] i at by simp
    moreover have "(take i ?out @ drop i ss)[i := ?out ! i] = take (Suc i) ?out @ drop (Suc i) ss"
      using i len by (simp add: list_update_append take_Suc_conv_app_nth Cons_nth_drop_Suc [symmetric])
    ultimately have n: "a_spans (fst (correct_step fixes gone i x)) = take (Suc i) ?out @ drop (Suc i) ss"
      by (simp add: a)
    show "state_of ss (Suc i) ?out (fst (correct_step fixes gone i x))"
      unfolding state_of_def n
    proof (intro conjI refl allI impI)
      show "distinct (a_changed (fst (correct_step fixes gone i x)))"
        using s by (auto simp: state_of_def correct_step_def touch_def Let_def split: prod.split)
      fix j assume j: "j < length ss" "j \<notin> set (a_changed (fst (correct_step fixes gone i x)))"
      then have "j \<notin> set (a_changed (fst x))" "j = i \<Longrightarrow> corrected_span fixes gone i (ss ! i) = ss ! i"
        using correct_step_spans(2) [of i x "fixes" gone] i at by (auto simp: corrected_span_def split: if_splits)
      then have "(a_spans (fst x))[i := corrected_span fixes gone i (ss ! i)] ! j = ss ! j"
        using s j(1) at by (cases "j = i") (auto simp: state_of_def)
      then show "(take (Suc i) ?out @ drop (Suc i) ss) ! j = ss ! j"
        using correct_step_spans(1) [of i x "fixes" gone] i at n by simp
    next
      show "\<forall>j\<in>set (a_changed (fst (correct_step fixes gone i x))). j < length ss \<and> is_device_span (ss ! j)"
        using correct_step_spans(2) [of i x "fixes" gone] i at s by (auto simp: state_of_def split: if_splits)
    qed
  qed (simp add: state_of_def)
  then show ?thesis using False by (simp add: correct_clocks_def)
qed

section \<open>What assembly leaves alone\<close>

text \<open>What no update of \<open>assemble\<close> touches: the identity of a span and its classification.\<close>

definition same_span :: "span_event \<Rightarrow> span_event \<Rightarrow> bool" where
  "same_span s s' \<longleftrightarrow> name s' = name s \<and> category s' = category s \<and> duration_ns s' = duration_ns s \<and> pid s' = pid s
     \<and> eid s' = eid s \<and> seq s' = seq s \<and> span_id s' = span_id s \<and> stack_frames s' = stack_frames s
     \<and> (\<forall>k\<in>{''side'', ''rt'', ''timing'', ''type'', ''op'', ''lid'', ''corr'', ''corr2'', ''nstream'', ''queue'', ''dev'', ''ctx'', ''err''}.
          tag s' k = tag s k)"

definition same_timed :: "span_event \<Rightarrow> span_event \<Rightarrow> bool" where
  "same_timed s s' \<longleftrightarrow> same_span s s' \<and> start_ns s' = start_ns s"

lemma same_refl [simp]: "same_span s s" "same_timed s s"
  by (simp_all add: same_span_def same_timed_def)

lemma same_trans: "same_span a b \<Longrightarrow> same_span b c \<Longrightarrow> same_span a c" "same_timed a b \<Longrightarrow> same_timed b c \<Longrightarrow> same_timed a c"
  by (simp_all add: same_span_def same_timed_def)

lemma same_class:
  assumes "same_span s s'"
  shows "is_device_span s' = is_device_span s" "is_host_submission s' = is_host_submission s" "is_new_format s' = is_new_format s"
    "timing_source s' = timing_source s" "op_of s' = op_of s" "measured_work s' = measured_work s" "rt_of s' = rt_of s"
proof -
  have g: "dict_get (tags x) k [] = (case tag x k of None \<Rightarrow> [] | Some v \<Rightarrow> v)" for x k by (simp add: dict_get_def tag_def)
  have t: "tag s' ''side'' = tag s ''side''" "tag s' ''rt'' = tag s ''rt''" "tag s' ''timing'' = tag s ''timing''"
    "tag s' ''type'' = tag s ''type''" "tag s' ''op'' = tag s ''op''" "tag s' ''lid'' = tag s ''lid''"
    "tag s' ''corr'' = tag s ''corr''" "category s' = category s"
    using assms by (simp_all add: same_span_def)
  show "is_device_span s' = is_device_span s" "is_host_submission s' = is_host_submission s" "is_new_format s' = is_new_format s"
    "rt_of s' = rt_of s" by (simp_all add: is_device_span_def is_host_submission_def is_new_format_def tag_in_def rt_of_def t)
  show ts: "timing_source s' = timing_source s" by (simp only: timing_source_def g tag_in_def t)
  show op: "op_of s' = op_of s" by (simp only: op_of_def g t)
  show "measured_work s' = measured_work s" by (simp only: measured_work_def ts op)
qed

lemma shift_same: "same_span s (shift_span c s)"
  by (simp add: shift_span_def same_span_def Let_def set_tag_def tag_def update_conv' split: option.splits)

lemma shift_start: "start_ns (shift_span c s) = start_ns s + c"
  by (simp add: shift_span_def Let_def set_tag_def split: option.splits)

lemma corrected_same: "same_span s (corrected_span fixes gone i s)"
  by (simp add: corrected_span_def shift_same)

lemma queue_tags_same: "same_timed d (queue_tags h d)"
  by (simp add: queue_tags_def same_timed_def same_span_def Let_def split: option.splits)

text \<open>The later stages: every span keeps its time, and what changes is a device span.\<close>

definition stage_ok :: "span_event list \<Rightarrow> span_event list \<Rightarrow> span_state \<Rightarrow> bool" where
  "stage_ok ss out st \<longleftrightarrow> distinct (a_changed st) \<and> length (a_spans st) = length ss \<and> length out = length ss
     \<and> (\<forall>i<length ss. same_timed (out ! i) (a_spans st ! i) \<and> same_span (ss ! i) (out ! i)
          \<and> (i \<notin> set (a_changed st) \<longrightarrow> a_spans st ! i = ss ! i))
     \<and> (\<forall>i\<in>set (a_changed st). i < length ss \<and> is_device_span (ss ! i))"

lemma stage_touch:
  assumes "stage_ok ss out st" "i < length ss" "is_device_span (ss ! i)" "\<And>s. same_timed s (f s)"
  shows "stage_ok ss out (touch i f st)"
  unfolding stage_ok_def
proof (intro conjI allI impI)
  show "distinct (a_changed (touch i f st))" using assms(1) by (simp add: stage_ok_def touch_def)
  show "length (a_spans (touch i f st)) = length ss" "length out = length ss" using assms(1) by (simp_all add: stage_ok_def touch_def)
  show "\<forall>j\<in>set (a_changed (touch i f st)). j < length ss \<and> is_device_span (ss ! j)"
    using assms(1-3) by (auto simp: stage_ok_def touch_def)
  fix j assume j: "j < length ss"
  then have *: "same_timed (out ! j) (a_spans st ! j)" "length (a_spans st) = length ss" using assms(1) by (auto simp: stage_ok_def)
  show "same_timed (out ! j) (a_spans (touch i f st) ! j)"
    using * j same_trans(2) [OF *(1) assms(4)] by (cases "j = i") (simp_all add: touch_def)
  show "same_span (ss ! j) (out ! j)" using assms(1) j by (simp add: stage_ok_def)
  show "a_spans (touch i f st) ! j = ss ! j" if "j \<notin> set (a_changed (touch i f st))"
    using assms(1) j that by (auto simp: stage_ok_def touch_def)
qed

lemma stage_when: "stage_ok ss out st \<Longrightarrow> i < length ss \<Longrightarrow> is_device_span (ss ! i) \<Longrightarrow> (\<And>s. same_timed s (f s)) \<Longrightarrow>
    stage_ok ss out (when_state b i f st)"
  by (simp add: when_state_def stage_touch)

lemma stage_class:
  assumes "stage_ok ss out st" "i < length ss"
  shows "is_device_span (a_spans st ! i) = is_device_span (ss ! i)" "timing_source (a_spans st ! i) = timing_source (ss ! i)"
proof -
  have "same_span (ss ! i) (a_spans st ! i)"
    using assms same_trans(1) [of "ss ! i" "out ! i"] by (auto simp: stage_ok_def same_timed_def)
  then show "is_device_span (a_spans st ! i) = is_device_span (ss ! i)" "timing_source (a_spans st ! i) = timing_source (ss ! i)"
    by (simp_all add: same_class)
qed

lemma stream_tag_same: "same_timed s (set_tag ''stream'' v s)" "same_timed s (set_tag ''mod'' v s)"
  by (simp_all add: same_timed_def same_span_def)

lemma thread_same: "same_timed s (s\<lparr>tid := t\<rparr>)" "same_timed s (s\<lparr>parent_span_id := p\<rparr>)"
  by (simp_all add: same_timed_def same_span_def tag_def)

lemma stream_stage:
  assumes "stage_ok ss out st" "i < length ss"
  shows "stage_ok ss out (unify_step corr gone alive learned i st)"
proof -
  have "stage_ok ss out (touch i (set_tag ''stream'' v) st)" if "is_device_span (ss ! i)" for v
    using that by (intro stage_touch [OF assms] stream_tag_same)
  then show ?thesis
    using assms(1) stage_class(1) [OF assms] by (simp add: unify_step_def Let_def split: option.split)
qed

lemma unify_stage:
  assumes "stage_ok ss out st"
  shows "stage_ok ss out (unify_streams corr gone st)"
proof -
  have "length (a_spans st) = length ss" using assms by (simp add: stage_ok_def)
  moreover have "stage_ok ss out (fold (unify_step corr gone alive learned) [0..<length ss] st)" for alive learned
    by (rule fold_range_inv [where P = "\<lambda>k. stage_ok ss out"]) (use assms stream_stage in auto)
  ultimately show ?thesis by (simp add: unify_streams_def Let_def)
qed

lemma link_stage:
  assumes "stage_ok ss out st" "d < length ss" "is_device_span (ss ! d)"
  shows "stage_ok ss out (link_step gone (d, h) st)"
  using assms unfolding link_step_def Let_def prod.case
  by (auto intro!: stage_when queue_tags_same stream_tag_same thread_same)

lemma links_stage:
  assumes "stage_ok ss out st" "\<forall>(d, h)\<in>set ps. d < length ss \<and> is_device_span (ss ! d)"
  shows "stage_ok ss out (fold (link_step gone) ps st)"
  using assms
proof (induction ps arbitrary: st)
  case (Cons p ps)
  obtain d h where p: "p = (d, h)" by fastforce
  have "stage_ok ss out (link_step gone p st)" unfolding p by (rule link_stage) (use Cons.prems p in auto)
  then show ?case using Cons by simp
qed simp

text \<open>What was dropped, and the spans after the clock correction.\<close>

definition dropped :: "span_event list \<Rightarrow> nat list" where
  "dropped ss = fst (drop_proxies (span_list ss) (correlate (span_list ss)) (fst (exact_duplicates (span_list ss))))"

definition drift_fixes :: "span_event list \<Rightarrow> (clock_key, clock_correction) dict" where
  "drift_fixes ss = device_clock_corrections (span_list ss) (correlate (span_list ss)) (dropped ss)"

abbreviation assembled :: "span_event list \<Rightarrow> span_event list" where
  "assembled ss \<equiv> a_spans (as_state (assemble_spans ss))"

lemma as_drop: "as_drop (assemble_spans ss) = dropped ss"
  by (simp add: assemble_spans_def dropped_def Let_def split: prod.split)

lemma as_corr: "as_corr (assemble_spans ss) = correlate (span_list ss)"
  by (simp add: assemble_spans_def Let_def split: prod.split)

lemma assembled_stage: "stage_ok ss (corrected_spans (drift_fixes ss) (dropped ss) ss) (as_state (assemble_spans ss))"
proof -
  let ?out = "corrected_spans (drift_fixes ss) (dropped ss) ss"
  let ?st = "fst (correct_clocks (drift_fixes ss) (dropped ss) \<lparr>a_spans = ss, a_changed = []\<rparr>)"
  have out: "length ?out = length ss" "\<And>i. i < length ss \<Longrightarrow> same_span (ss ! i) (?out ! i)"
    by (simp_all add: corrected_spans_def corrected_same)
  have "stage_ok ss ?out ?st"
    using correct_clocks_state [of ss "drift_fixes ss" "dropped ss"] out by (auto simp: state_of_def stage_ok_def)
  then have "stage_ok ss ?out (fold (link_step (dropped ss)) (links ss) (unify_streams (correlate (span_list ss)) (dropped ss) ?st))"
    by (intro links_stage unify_stage) (use link_facts in fast)+
  moreover have "as_state (assemble_spans ss) = fold (link_step (dropped ss)) (links ss) (unify_streams (correlate (span_list ss)) (dropped ss) ?st)"
    by (simp add: assemble_spans_def dropped_def drift_fixes_def Let_def split: prod.split)
  ultimately show ?thesis by simp
qed

text \<open>Every span after assembly, against the span before.\<close>

lemma assembled_span:
  assumes "i < length ss"
  shows "length (assembled ss) = length ss" "same_span (ss ! i) (assembled ss ! i)"
    "start_ns (assembled ss ! i) = start_ns (corrected_span (drift_fixes ss) (dropped ss) i (ss ! i))"
    "i \<notin> set (a_changed (as_state (assemble_spans ss))) \<Longrightarrow> assembled ss ! i = ss ! i"
proof -
  let ?out = "corrected_spans (drift_fixes ss) (dropped ss) ss"
  have s: "same_timed (?out ! i) (assembled ss ! i)" "same_span (ss ! i) (?out ! i)" "length (assembled ss) = length ss"
    "i \<notin> set (a_changed (as_state (assemble_spans ss))) \<Longrightarrow> assembled ss ! i = ss ! i"
    using assembled_stage [of ss] assms unfolding stage_ok_def by blast+
  show "length (assembled ss) = length ss" by (rule s(3))
  show "same_span (ss ! i) (assembled ss ! i)" using s(1,2) same_trans(1) by (auto simp: same_timed_def)
  show "start_ns (assembled ss ! i) = start_ns (corrected_span (drift_fixes ss) (dropped ss) i (ss ! i))"
    using s(1) assms by (simp add: same_timed_def corrected_spans_def)
  show "assembled ss ! i = ss ! i" if "i \<notin> set (a_changed (as_state (assemble_spans ss)))" using that by (rule s(4))
qed

lemma changed_device: "i \<in> set (a_changed (as_state (assemble_spans ss))) \<Longrightarrow> i < length ss \<and> is_device_span (ss ! i)"
  using assembled_stage [of ss] unfolding stage_ok_def by blast

lemma host_untouched:
  assumes "h < length ss" "\<not> is_device_span (ss ! h)"
  shows "assembled ss ! h = ss ! h"
  using assembled_span(4) [OF assms(1)] changed_device assms(2) by blast

text \<open>
  C7. After assembly no measured device operation starts before the call that submitted it: its
  start is at or after its submission (the call's start, or the time within the call at which it
  was queued), its duration and the call are unchanged, and it only moved later.
\<close>

theorem assembled_after_submission:
  assumes "(d, h) \<in> set (links ss)" "d \<notin> set (dropped ss)" "measured_work (ss ! d)"
  shows "submission_bound (ss ! h) (ss ! d) \<le> start_ns (assembled ss ! d) \<and>
    start_ns (assembled ss ! h) \<le> start_ns (assembled ss ! d) \<and> assembled ss ! h = ss ! h \<and>
    start_ns (ss ! d) \<le> start_ns (assembled ss ! d) \<and> duration_ns (assembled ss ! d) = duration_ns (ss ! d)"
proof -
  note l = link_facts [OF assms(1)]
  let ?c = "correction_of (drift_fixes ss) (ss ! d)"
  have at: "span_at (span_list ss) d = ss ! d" "span_at (span_list ss) h = ss ! h" using l by simp_all
  have "\<not> is_device_span (ss ! h)" using l(4) device_not_host by blast
  then have h: "assembled ss ! h = ss ! h" using host_untouched l(2) by blast
  have s: "start_ns (assembled ss ! d) = start_ns (ss ! d) + (if ?c \<le> 0 then 0 else ?c)"
    using assembled_span(3) [OF l(1)] assms(2,3) l(3) by (simp add: corrected_span_def shift_start)
  have "submission_bound (ss ! h) (ss ! d) - clock_evidence_ns (ss ! d) \<le> max 0 ?c"
  proof (cases "0 < need_of (span_list ss) (d, h)")
    case True
    then show ?thesis
      using correction_meets_need [OF assms(1,2) _ True] assms(3) by (simp add: drift_fixes_def need_of_def at)
  next
    case False
    then show ?thesis by (simp add: need_of_def at)
  qed
  then have b: "submission_bound (ss ! h) (ss ! d) \<le> start_ns (assembled ss ! d)"
    using evidence_before_start [of "ss ! d"] s by (simp split: if_splits)
  have "duration_ns (assembled ss ! d) = duration_ns (ss ! d)" using assembled_span(2) [OF l(1)] by (simp add: same_span_def)
  moreover have "start_ns (assembled ss ! h) \<le> start_ns (assembled ss ! d)"
    using b bound_after_call [of "ss ! h" "ss ! d"] h by simp
  ultimately show ?thesis using b h s by simp
qed

definition demo_gpu :: "span_event list" where
  "demo_gpu =
     [mk_span ''cudaLaunchKernel'' GPU_CUDA 1000 50 1 7 [(''side'', ''cpu''), (''rt'', ''cuda''), (''corr'', ''5''), (''lid'', ''1''), (''stream'', ''0xa'')],
      mk_span ''kernel'' GPU_CUDA 900 200 1 0 [(''side'', ''gpu''), (''rt'', ''cuda''), (''timing'', ''device''), (''op'', ''kernel''), (''corr'', ''5''), (''nstream'', ''3'')],
      mk_span ''kernel'' GPU_CUDA 900 200 1 0 [(''side'', ''gpu''), (''rt'', ''cuda''), (''timing'', ''device''), (''op'', ''kernel''), (''corr'', ''5''), (''nstream'', ''3'')],
      mk_span ''kernel'' GPU_CUDA 1000 210 1 0 [(''side'', ''gpu''), (''rt'', ''cuda''), (''timing'', ''proxy_event''), (''op'', ''kernel''), (''lid'', ''1'')]]"

lemma assembled_after_submission_witness:
  "(1, 0) \<in> set (links demo_gpu) \<and> start_ns (demo_gpu ! 1) = 900 \<and> 1000 \<le> start_ns (assembled demo_gpu ! 1)"
proof -
  have l: "(1, 0) \<in> set (links demo_gpu)" "1 \<notin> set (dropped demo_gpu)" "measured_work (demo_gpu ! 1)"
    "start_ns (demo_gpu ! 1) = 900" "submission_bound (demo_gpu ! 0) (demo_gpu ! 1) = 1000" by code_simp+
  from assembled_after_submission [OF l(1-3)] l show ?thesis by simp
qed

section \<open>Duplicates\<close>

definition repeats :: "span_event list \<Rightarrow> nat \<Rightarrow> bool" where
  "repeats ss j \<longleftrightarrow> is_native (ss ! j) \<and> (\<exists>k<j. is_native (ss ! k) \<and> duplicate_key (ss ! k) = duplicate_key (ss ! j))"

lemma exact_duplicates_set: "set (fst (exact_duplicates (span_list ss))) = {j. j < length ss \<and> repeats ss j}"
proof -
  let ?P = "\<lambda>i (st :: dups). set (fst st) = duplicate_key ` {ss ! k | k. k < i \<and> is_native (ss ! k)}
    \<and> set (fst (snd st)) = {j. j < i \<and> repeats ss j}"
  have "?P (length ss) (fold duplicate_step (List.enumerate 0 ss) ([], [], []))"
  proof (rule fold_enumerate_inv [where P = ?P])
    fix i and st :: dups assume i: "i < length ss" and P: "?P i st"
    obtain seen gone n where st: "st = (seen, gone, n)" by (cases st)
    have next1: "{ss ! k | k. k < Suc i \<and> is_native (ss ! k)} =
        (if is_native (ss ! i) then insert (ss ! i) {ss ! k | k. k < i \<and> is_native (ss ! k)} else {ss ! k | k. k < i \<and> is_native (ss ! k)})"
      by (auto simp: less_Suc_eq)
    have next2: "{j. j < Suc i \<and> repeats ss j} = (if repeats ss i then insert i {j. j < i \<and> repeats ss j} else {j. j < i \<and> repeats ss j})"
      by (auto simp: less_Suc_eq)
    have r: "repeats ss i \<longleftrightarrow> is_native (ss ! i) \<and> duplicate_key (ss ! i) \<in> set seen"
      using P st unfolding repeats_def by (simp add: image_iff) metis
    show "?P (Suc i) (duplicate_step (i, ss ! i) st)"
      using P unfolding st next1 next2 r by (auto simp: duplicate_step_def)
  qed simp
  then show ?thesis by (simp add: exact_duplicates_def span_list_def)
qed

lemma dedup_fold:
  "set (fst (fold (dedup_step sp native) ps (gone, n))) =
     set gone \<union> {d. \<exists>h. (d, h) \<in> set ps \<and> timing_source (span_at sp d) \<in> set PROXY_TIMINGS \<and> h \<in> set native}"
proof (induction ps arbitrary: gone n)
  case (Cons p ps)
  then show ?case by (cases p) (auto simp: dedup_step_def)
qed simp

definition native_for :: "span_event list \<Rightarrow> nat \<Rightarrow> nat \<Rightarrow> bool" where
  "native_for ss d h \<longleftrightarrow> (d, h) \<in> set (links ss) \<and> is_native (ss ! d)"

lemma proxy_not_native: "timing_source s \<in> set PROXY_TIMINGS \<Longrightarrow> \<not> is_native s"
  by (auto simp: is_native_def gpu_constants)

lemma dropped_iff:
  "d \<in> set (dropped ss) \<longleftrightarrow> d < length ss \<and> (repeats ss d \<or>
     (timing_source (ss ! d) \<in> set PROXY_TIMINGS \<and> (\<exists>h d'. (d, h) \<in> set (links ss) \<and> native_for ss d' h \<and> \<not> repeats ss d')))"
  (is "_ \<longleftrightarrow> ?R")
proof -
  have at: "span_at (span_list ss) d = ss ! d" if "(d, h) \<in> set (links ss)" for d h using link_facts(1) [OF that] by simp
  have nat: "h \<in> set (natively_seen_hosts (span_list ss) (correlate (span_list ss)) (fst (exact_duplicates (span_list ss))))
      \<longleftrightarrow> (\<exists>d'. native_for ss d' h \<and> \<not> repeats ss d')" for h
  proof
    assume "h \<in> set (natively_seen_hosts (span_list ss) (correlate (span_list ss)) (fst (exact_duplicates (span_list ss))))"
    then obtain d' where d': "(d', h) \<in> set (links ss)" "d' \<notin> {j. j < length ss \<and> repeats ss j}"
        "timing_source (span_at (span_list ss) d') = TIMING_DEVICE"
      by (auto simp: natively_seen_hosts_def exact_duplicates_set)
    then show "\<exists>d'. native_for ss d' h \<and> \<not> repeats ss d'"
      using link_facts(1,3) [OF d'(1)] at [OF d'(1)] by (auto simp: native_for_def is_native_def)
  next
    assume "\<exists>d'. native_for ss d' h \<and> \<not> repeats ss d'"
    then obtain d' where d': "(d', h) \<in> set (links ss)" "is_native (ss ! d')" "\<not> repeats ss d'" by (auto simp: native_for_def)
    then show "h \<in> set (natively_seen_hosts (span_list ss) (correlate (span_list ss)) (fst (exact_duplicates (span_list ss))))"
      using at [OF d'(1)] by (force simp: natively_seen_hosts_def exact_duplicates_set is_native_def)
  qed
  show ?thesis
    unfolding dropped_def drop_proxies_def dedup_fold exact_duplicates_set
    using nat at link_facts(1) by fastforce
qed

lemma dropped_device: "d \<in> set (dropped ss) \<Longrightarrow> d < length ss \<and> is_device_span (ss ! d)"
  using link_facts(3) by (auto simp: dropped_iff repeats_def is_native_def)

lemma native_live: "is_native (ss ! j) \<Longrightarrow> \<not> repeats ss j \<Longrightarrow> j \<notin> set (dropped ss)"
  using proxy_not_native by (auto simp: dropped_iff)

lemma first_native:
  assumes "is_native (ss ! j)" "j < length ss"
  shows "\<exists>i\<le>j. is_native (ss ! i) \<and> duplicate_key (ss ! i) = duplicate_key (ss ! j) \<and> i \<notin> set (dropped ss)"
  using assms
proof (induction j rule: less_induct)
  case (less j)
  show ?case
  proof (cases "repeats ss j")
    case True
    then obtain k where k: "k < j" "is_native (ss ! k)" "duplicate_key (ss ! k) = duplicate_key (ss ! j)" by (auto simp: repeats_def)
    with less obtain i where "i \<le> k" "is_native (ss ! i)" "duplicate_key (ss ! i) = duplicate_key (ss ! k)" "i \<notin> set (dropped ss)"
      by (metis dual_order.strict_trans)
    then show ?thesis using k by (intro exI [of _ i]) simp
  next
    case False
    then show ?thesis using native_live less.prems by blast
  qed
qed

text \<open>
  Property. Removing duplicates counts no launch twice and loses none: of the native records with one
  identity exactly the first stays, a proxy span stays unless a native record of the same
  submission stays, and nothing else is removed.
\<close>

theorem duplicates_removed:
  assumes "d < length ss"
  shows "if is_native (ss ! d) then
      (d \<in> set (dropped ss) \<longleftrightarrow> (\<exists>i<d. is_native (ss ! i) \<and> duplicate_key (ss ! i) = duplicate_key (ss ! d))) \<and>
      (\<exists>i\<le>d. i \<notin> set (dropped ss) \<and> is_native (ss ! i) \<and> duplicate_key (ss ! i) = duplicate_key (ss ! d))
    else d \<in> set (dropped ss) \<longleftrightarrow> timing_source (ss ! d) \<in> set PROXY_TIMINGS \<and>
      (\<exists>h d'. (d, h) \<in> set (links ss) \<and> (d', h) \<in> set (links ss) \<and> is_native (ss ! d') \<and> d' \<notin> set (dropped ss))"
proof (cases "is_native (ss ! d)")
  case True
  then have "d \<in> set (dropped ss) \<longleftrightarrow> repeats ss d" using assms proxy_not_native by (auto simp: dropped_iff)
  then show ?thesis using True first_native [OF True assms] by (auto simp: repeats_def)
next
  case False
  have "native_for ss d' h \<and> \<not> repeats ss d' \<longleftrightarrow> (d', h) \<in> set (links ss) \<and> is_native (ss ! d') \<and> d' \<notin> set (dropped ss)" for d' h
  proof
    assume "native_for ss d' h \<and> \<not> repeats ss d'"
    then show "(d', h) \<in> set (links ss) \<and> is_native (ss ! d') \<and> d' \<notin> set (dropped ss)" using native_live by (auto simp: native_for_def)
  next
    assume r: "(d', h) \<in> set (links ss) \<and> is_native (ss ! d') \<and> d' \<notin> set (dropped ss)"
    then have "d' < length ss" using link_facts(1) by blast
    with r show "native_for ss d' h \<and> \<not> repeats ss d'" by (auto simp: native_for_def dropped_iff)
  qed
  moreover have "\<not> repeats ss d" using False by (simp add: repeats_def)
  ultimately show ?thesis using False assms unfolding dropped_iff [of d] by simp
qed

lemma duplicates_removed_witness:
  "dropped demo_gpu = [3, 2] \<and> (\<exists>i\<le>2. i \<notin> set (dropped demo_gpu) \<and> duplicate_key (demo_gpu ! i) = duplicate_key (demo_gpu ! 2))"
proof -
  have "2 < length demo_gpu" "is_native (demo_gpu ! 2)" by code_simp+
  from duplicates_removed [OF this(1)] this(2)
  have "\<exists>i\<le>2. i \<notin> set (dropped demo_gpu) \<and> duplicate_key (demo_gpu ! i) = duplicate_key (demo_gpu ! 2)" by auto
  moreover have "dropped demo_gpu = [3, 2]" by code_simp
  ultimately show ?thesis by blast
qed

section \<open>Writing back\<close>

lemma update_all:
  assumes "distinct cs" "store_reach st" "inj_on (\<lambda>i. seq (old i)) (set cs)"
    and "\<And>i. i \<in> set cs \<Longrightarrow> SpanEv (old i) \<in> held st \<and> seq (new i) = seq (old i) \<and> eid (new i) = eid (old i)"
  shows "\<exists>st'. fold (\<lambda>i acc. Option.bind acc (store_update_span (new i))) cs (Some st) = Some st' \<and> store_reach st' \<and>
    held st' = (held st - (\<lambda>i. SpanEv (old i)) ` set cs) \<union> (\<lambda>i. SpanEv (new i)) ` set cs"
  using assms
proof (induction cs arbitrary: st)
  case (Cons c cs)
  have ok: "store_ok st" by (rule store_reach_ok [OF Cons.prems(2)])
  have c: "SpanEv (old c) \<in> held st" "seq (old c) = seq (new c)" "eid (new c) = eid (old c)" using Cons.prems(4) [of c] by simp_all
  obtain st1 where st1: "store_update_span (new c) st = Some st1" using update_fields(1) [OF ok c(1,2)] by blast
  note h1 = update_ok(2) [OF ok c st1]
  have "event_by_id st (eid (new c)) = Some (SpanEv (old c))"
    using event_by_id_held [OF ok, of "eid (new c)" "SpanEv (old c)"] c by (simp add: event_eid_def)
  then have r1: "store_reach st1" by (rule upd [OF Cons.prems(2) _ c(2) [symmetric] st1])
  have ne: "seq (old i) \<noteq> seq (old c)" if "i \<in> set cs" for i
    using Cons.prems(1,3) that by (auto simp: inj_on_def)
  have keep: "SpanEv (old i) \<in> held st1 \<and> seq (new i) = seq (old i) \<and> eid (new i) = eid (old i)" if "i \<in> set cs" for i
    using Cons.prems(4) [of i] ne [OF that] that unfolding h1 by auto
  have "inj_on (\<lambda>i. seq (old i)) (set cs)" using Cons.prems(3) by (rule inj_on_subset) auto
  then obtain st' where st': "fold (\<lambda>i acc. Option.bind acc (store_update_span (new i))) cs (Some st1) = Some st'" "store_reach st'"
      "held st' = (held st1 - (\<lambda>i. SpanEv (old i)) ` set cs) \<union> (\<lambda>i. SpanEv (new i)) ` set cs"
    using Cons.IH [OF _ r1 _ keep] Cons.prems(1) by auto
  have "new c \<notin> old ` set cs" using ne c(2) by force
  then have "held st' = (held st - (\<lambda>i. SpanEv (old i)) ` set (c # cs)) \<union> (\<lambda>i. SpanEv (new i)) ` set (c # cs)"
    unfolding st'(3) h1 by auto
  then show ?case using st' st1 by simp
qed simp

lemma same_eid:
  assumes "store_ok st" "SpanEv s \<in> held st" "SpanEv s' \<in> held st" "eid s = eid s'"
  shows "s = s'"
  using event_by_id_held [OF assms(1), of "eid s" "SpanEv s"] event_by_id_held [OF assms(1), of "eid s" "SpanEv s'"] assms(2-4)
  by (simp add: event_eid_def)

definition gpu_spans :: "memory_store \<Rightarrow> span_event list" where
  "gpu_spans st = filter is_new_format (m_spans st)"

lemma gpu_iter: "store_ok st \<Longrightarrow> store_iter rx st (any_span\<lparr>q_gpu_model := Some True\<rparr>) = gpu_spans st"
proof -
  assume ok: "store_ok st"
  have "query_keeps rx (any_span\<lparr>q_gpu_model := Some True\<rparr>) s \<longleftrightarrow> is_new_format s" for s
    by (simp add: query_keeps_def any_span_def is_new_format_def RUNTIMES_def)
  then show ?thesis using store_iter_eq [OF ok, of "any_span\<lparr>q_gpu_model := Some True\<rparr>" rx]
    by (simp add: query_spec_def any_span_def in_lane_def order_spans_def gpu_spans_def)
qed

lemma write_back_held:
  assumes "store_reach st" "ss = gpu_spans st"
  shows "\<exists>st'. write_back (assemble_spans ss) st = Some st' \<and> store_reach st' \<and>
    held st' = (held st - SpanEv ` set ss) \<union> {SpanEv (assembled ss ! i) | i. i < length ss \<and> i \<notin> set (dropped ss)}"
proof -
  let ?ch = "filter (\<lambda>i. i \<notin> set (dropped ss)) (a_changed (as_state (assemble_spans ss)))"
  let ?new = "\<lambda>i. assembled ss ! i" and ?old = "\<lambda>i. ss ! i"
  have ok: "store_ok st" by (rule store_reach_ok [OF assms(1)])
  have in_ss: "SpanEv (ss ! i) \<in> held st" if "i < length ss" for i
    using nth_mem [OF that] assms(2) by (auto simp: gpu_spans_def held_def)
  have same: "seq (?new i) = seq (?old i) \<and> eid (?new i) = eid (?old i)" if "i < length ss" for i
    using assembled_span(2) [OF that] by (simp add: same_span_def)
  have srt: "sorted_wrt (<) (map seq ss)" using ok assms(2) by (simp add: gpu_spans_def store_ok_def sorted_wrt_map sorted_wrt_filter)
  have inj: "i = j" if "i < length ss" "j < length ss" "seq (ss ! i) = seq (ss ! j)" for i j
    using srt that sorted_wrt_nth_less [OF srt, of i j] sorted_wrt_nth_less [OF srt, of j i] by (cases i j rule: linorder_cases) auto
  have ch: "i < length ss" if "i \<in> set ?ch" for i using that changed_device by auto
  have dist: "distinct (a_changed (as_state (assemble_spans ss)))" using assembled_stage [of ss] unfolding stage_ok_def by blast
  have "inj_on (\<lambda>i. seq (?old i)) (set (sort ?ch))" using inj ch by (auto simp: inj_on_def)
  moreover have "SpanEv (?old i) \<in> held st \<and> seq (?new i) = seq (?old i) \<and> eid (?new i) = eid (?old i)" if "i \<in> set (sort ?ch)" for i
    using ch in_ss same that by simp
  ultimately obtain st' where st': "fold (\<lambda>i acc. Option.bind acc (store_update_span (?new i))) (sort ?ch) (Some st) = Some st'"
      "store_reach st'" "held st' = (held st - (\<lambda>i. SpanEv (?old i)) ` set (sort ?ch)) \<union> (\<lambda>i. SpanEv (?new i)) ` set (sort ?ch)"
    using update_all [of "sort ?ch" st ?old ?new] dist assms(1) by auto
  note ok' = store_reach_ok [OF st'(2)]
  let ?eids = "map (\<lambda>i. eid (?new i)) (sort (dropped ss))"
  have gone: "SpanEv (?old i) \<in> held st' \<and> eid (?new i) = eid (?old i)" if "i \<in> set (dropped ss)" for i
  proof -
    have i: "i < length ss" using dropped_device [OF that] by blast
    then have "?old j \<noteq> ?old i" if "j \<in> set ?ch" for j using inj [of j i] ch [OF that] that \<open>i \<in> set (dropped ss)\<close> by auto
    then show ?thesis using in_ss [OF i] same [OF i] unfolding st'(3) by force
  qed
  have r: "store_reach (store_delete_spans ?eids st')"
  proof (rule del [OF st'(2)], rule ballI)
    fix e assume "e \<in> set ?eids"
    then obtain i where "i \<in> set (dropped ss)" "e = eid (?new i)" by auto
    then show "\<exists>s. event_by_id st' e = Some (SpanEv s)"
      using gone event_by_id_held [OF ok', of e] by (intro exI [of _ "?old i"]) (simp add: event_eid_def)
  qed
  have "\<forall>e\<in>set ?eids. \<exists>s. SpanEv s \<in> held st' \<and> eid s = e" using gone by fastforce
  then have "held (store_delete_spans ?eids st') = held st' - {SpanEv s | s. eid s \<in> set ?eids}" by (rule delete_ok(2) [OF ok'])
  also have "\<dots> = held st' - (\<lambda>i. SpanEv (?old i)) ` set (dropped ss)"
  proof -
    have "SpanEv s \<in> held st' \<and> eid s \<in> set ?eids \<longleftrightarrow> s \<in> ?old ` set (dropped ss)" for s
      using gone same_eid [OF ok'] by force
    then show ?thesis by blast
  qed
  also have "\<dots> = (held st - SpanEv ` set ss) \<union> {SpanEv (?new i) | i. i < length ss \<and> i \<notin> set (dropped ss)}" (is "?L = ?R")
  proof (intro equalityI subsetI)
    fix x assume x: "x \<in> ?L"
    show "x \<in> ?R"
    proof (cases "x \<in> (\<lambda>i. SpanEv (?new i)) ` set ?ch")
      case True
      then show ?thesis using ch by auto
    next
      case False
      then have h: "x \<in> held st" "x \<notin> (\<lambda>i. SpanEv (?old i)) ` set ?ch" "x \<notin> (\<lambda>i. SpanEv (?old i)) ` set (dropped ss)"
        using x unfolding st'(3) by auto
      show ?thesis
      proof (cases "x \<in> SpanEv ` set ss")
        case True
        then obtain i where i: "i < length ss" "x = SpanEv (?old i)" by (auto simp: in_set_conv_nth)
        then have "i \<notin> set (dropped ss)" "i \<notin> set ?ch" using h by auto
        then have "?new i = ?old i" using assembled_span(4) [OF i(1)] by auto
        then show ?thesis using i \<open>i \<notin> set (dropped ss)\<close> by (intro UnI2) (auto intro!: exI [of _ i])
      qed (use h in auto)
    qed
  next
    fix x assume "x \<in> ?R"
    then show "x \<in> ?L"
    proof
      assume x: "x \<in> held st - SpanEv ` set ss"
      then have "x \<notin> (\<lambda>i. SpanEv (?old i)) ` set ?ch" "x \<notin> (\<lambda>i. SpanEv (?old i)) ` set (dropped ss)"
        using ch dropped_device by auto
      then show ?thesis using x unfolding st'(3) by simp
    next
      assume "x \<in> {SpanEv (?new i) | i. i < length ss \<and> i \<notin> set (dropped ss)}"
      then obtain i where i: "x = SpanEv (?new i)" "i < length ss" "i \<notin> set (dropped ss)" by blast
      have "?new i \<noteq> ?old j" if "j \<in> set (dropped ss)" for j
        using inj [of i j] same [OF i(2)] dropped_device [OF that] i that by metis
      moreover have "x \<in> held st'"
      proof (cases "i \<in> set (a_changed (as_state (assemble_spans ss)))")
        case True
        then show ?thesis unfolding st'(3) using i by auto
      next
        case False
        then have "?new i = ?old i" using assembled_span(4) [OF i(2)] by blast
        moreover have "?old i \<noteq> ?old j" if "j \<in> set ?ch" for j using inj [of i j] i(2) ch [OF that] that False by auto
        ultimately show ?thesis unfolding st'(3) using in_ss [OF i(2)] i(1) by auto
      qed
      ultimately show ?thesis using i(1) by auto
    qed
  qed
  finally have "held (store_delete_spans ?eids st') = ?R" .
  moreover have "write_back (assemble_spans ss) st = Some (store_delete_spans ?eids st')"
    using st'(1) by (simp add: write_back_def Let_def as_drop)
  ultimately show ?thesis using r by blast
qed

text \<open>
  C24. Assembling a trace's store always succeeds, keeps the store consistent, leaves every event
  that is no CUDA or ROCm span as it was, replaces the CUDA and ROCm spans by exactly the
  assembled ones that were not dropped, and a second assembly changes nothing.
\<close>

theorem assemble_store:
  assumes "store_reach st" "\<not> da_assembled da"
  shows "\<exists>st' da'. assemble_gpu rx (st, da) = Some (st', da') \<and> store_reach st' \<and>
    held st' = (held st - SpanEv ` set (gpu_spans st)) \<union>
      {SpanEv (assembled (gpu_spans st) ! i) | i. i < length (gpu_spans st) \<and> i \<notin> set (dropped (gpu_spans st))} \<and>
    assemble_gpu rx (st', da') = Some (st', da')"
proof (cases "gpu_spans st = []")
  case True
  then have "assemble_gpu rx (st, da) = Some (st, da\<lparr>da_assembled := True\<rparr>)"
    using assms(2) by (simp add: assemble_gpu_def gpu_iter [OF store_reach_ok [OF assms(1)]] Let_def)
  then show ?thesis using True assms(1) by (intro exI [of _ st] exI [of _ "da\<lparr>da_assembled := True\<rparr>"]) (simp add: assemble_gpu_def Let_def)
next
  case False
  let ?ss = "gpu_spans st" and ?a = "assemble_spans (gpu_spans st)"
  from write_back_held [OF assms(1) refl] obtain st' where st': "write_back ?a st = Some st'" "store_reach st'"
    "held st' = (held st - SpanEv ` set ?ss) \<union> {SpanEv (assembled ?ss ! i) | i. i < length ?ss \<and> i \<notin> set (dropped ?ss)}" by blast
  define da' where "da' = (fold add_summary (summary_counts (as_corr ?a) (as_drop ?a) (as_duplicates ?a) (as_deduped ?a)
      (as_corrected ?a) (a_spans (as_state ?a))) da)\<lparr>da_assembled := True\<rparr>"
  have "assemble_gpu rx (st, da) = Some (st', da')"
    using assms(2) False st'(1) by (simp add: assemble_gpu_def gpu_iter [OF store_reach_ok [OF assms(1)]] Let_def da'_def)
  moreover have "assemble_gpu rx (st', da') = Some (st', da')" by (simp add: assemble_gpu_def Let_def da'_def)
  ultimately show ?thesis using st'(2,3) by blast
qed

definition gpu_store :: memory_store where
  "gpu_store = fold (\<lambda>s st. snd (store_append (SpanEv s) st)) (mk_span ''main'' CPU 0 5000 1 7 [] # demo_gpu) empty_store"

lemma append_all_reach:
  "store_reach st \<Longrightarrow> next_seq st + int (length ss) \<le> 2 ^ 36 \<Longrightarrow> store_reach (fold (\<lambda>s st. snd (store_append (SpanEv s) st)) ss st)"
proof (induction ss arbitrary: st)
  case (Cons s ss)
  have "store_reach (snd (store_append (SpanEv s) st))" using Cons.prems by (intro app) simp_all
  then show ?case using Cons.IH Cons.prems(2) by (simp add: append_fields(2))
qed simp

lemma assemble_store_witness:
  "\<exists>st' da'. assemble_gpu (\<lambda>_. None) (gpu_store, \<lparr>da_entries = [], da_assembled = False\<rparr>) = Some (st', da') \<and> store_reach st' \<and>
     SpanEv (hd (m_spans gpu_store)) \<in> held st'"
proof -
  have r: "store_reach gpu_store"
    unfolding gpu_store_def by (rule append_all_reach [OF init]) (simp add: demo_gpu_def empty_store_def)
  have n: "\<not> is_new_format (hd (m_spans gpu_store))" by code_simp
  have "m_spans gpu_store \<noteq> []" by code_simp
  then have h: "SpanEv (hd (m_spans gpu_store)) \<in> held gpu_store - SpanEv ` set (gpu_spans gpu_store)"
    using n by (auto simp: held_def gpu_spans_def)
  have f: "\<not> da_assembled \<lparr>da_entries = [], da_assembled = False\<rparr>" by simp
  from assemble_store [OF r f, of "\<lambda>_. None"] h show ?thesis by blast
qed

text \<open>
  The correction of one record need not suit the next one: of two kernels of a stream, the first
  submitted long before it started, the shifted first starts after the second.
\<close>

definition demo_reordered :: "span_event list" where
  "demo_reordered =
     [mk_span ''launch'' GPU_CUDA 12 3 1 7 [(''side'', ''cpu''), (''rt'', ''cuda''), (''corr'', ''1'')],
      mk_span ''launch'' GPU_CUDA 20 3 1 7 [(''side'', ''cpu''), (''rt'', ''cuda''), (''corr'', ''2'')],
      mk_span ''a'' GPU_CUDA 31000 1 1 0
        [(''side'', ''gpu''), (''rt'', ''cuda''), (''op'', ''kernel''), (''corr'', ''1''), (''nstream'', ''3''), (''submitted'', ''9'')],
      mk_span ''b'' GPU_CUDA 31001 1 1 0
        [(''side'', ''gpu''), (''rt'', ''cuda''), (''op'', ''kernel''), (''corr'', ''2''), (''nstream'', ''3'')]]"

lemma correction_can_reorder:
  "end_ns (demo_reordered ! 2) \<le> start_ns (demo_reordered ! 3) \<and>
   start_ns (assembled demo_reordered ! 3) < start_ns (assembled demo_reordered ! 2)"
proof -
  have c: "correction_of (drift_fixes demo_reordered) (demo_reordered ! 2) = 3"
    "correction_of (drift_fixes demo_reordered) (demo_reordered ! 3) = 0" "dropped demo_reordered = []"
    "is_device_span (demo_reordered ! 2)" "measured_work (demo_reordered ! 2)" by code_simp+
  have "start_ns (assembled demo_reordered ! 2) = 31003" "start_ns (assembled demo_reordered ! 3) = 31001"
    using assembled_span(3) [of 2 demo_reordered] assembled_span(3) [of 3 demo_reordered]
    by (simp_all add: corrected_span_def c shift_start) (simp_all add: demo_reordered_def)
  then show ?thesis by (simp add: demo_reordered_def end_ns_def)
qed

end
