(* ===== verification/Event_Graph.thy ===== *)
theory Event_Graph
  imports Clock_Domains
begin

text \<open>
  The event graph of \<^verbatim>\<open>src/src/analysis/cp_model.py\<close>: its vocabulary, the \<open>EventGraph\<close> with
  \<open>add\<close>, the adjacency arrays and the topological order, and the assembly of the graph from
  span-level edges, thread lanes and device intervals. Spans are ordinals \<open>i\<close>, their start and
  end events the nodes \<open>2i\<close> and \<open>2i+1\<close>. The parallel typed arrays over edges are a list of
  edge records and the lists filled in later; an owner of -1 is None.
\<close>

section \<open>Vocabulary\<close>

datatype emode = BUSY | WAIT | GAP | IDLE | DEP | UNKNOWN

fun mode_name :: "emode \<Rightarrow> string" where
  "mode_name BUSY = ''busy''"
| "mode_name WAIT = ''wait''"
| "mode_name GAP = ''gap''"
| "mode_name IDLE = ''idle''"
| "mode_name DEP = ''dependency''"
| "mode_name UNKNOWN = ''unknown''"

datatype ekind =
    Thread | DeviceWork | StreamOrder | EventWait | Launch | DeviceWait | DeviceSync | P2P | Arrival
  | Fork | Join | ExplicitSpanId | Sequential | TaskJoin | TaskDependence | LockHandoff

fun kind_name :: "ekind \<Rightarrow> string" where
  "kind_name Thread = ''thread''"
| "kind_name DeviceWork = ''device_work''"
| "kind_name StreamOrder = ''stream_order''"
| "kind_name EventWait = ''event_wait''"
| "kind_name Launch = ''launch''"
| "kind_name DeviceWait = ''device_wait''"
| "kind_name DeviceSync = ''device_sync''"
| "kind_name P2P = ''p2p''"
| "kind_name Arrival = ''arrival''"
| "kind_name Fork = ''fork''"
| "kind_name Join = ''join''"
| "kind_name ExplicitSpanId = ''explicit_span_id''"
| "kind_name Sequential = ''sequential''"
| "kind_name TaskJoin = ''task_join''"
| "kind_name TaskDependence = ''task_dependence''"
| "kind_name LockHandoff = ''lock_handoff''"

datatype conf = Certain | High | Medium | Low

fun conf_code :: "conf \<Rightarrow> int" where
  "conf_code Certain = 0"
| "conf_code High = 1"
| "conf_code Medium = 2"
| "conf_code Low = 3"

fun conf_name :: "conf \<Rightarrow> string" where
  "conf_name Certain = ''certain''"
| "conf_name High = ''high''"
| "conf_name Medium = ''medium''"
| "conf_name Low = ''low''"

datatype prov =
    ThreadTimeline | DeviceInterval | StreamFifo | EventRecord | SyncTarget | CorrelationId | ExplicitId
  | ForkJoin | PostingOrder | StatusResolved | CallOrder | NcclSeq | TimeOverlap | TaskId
  | LockHandoffOrder | NcclPseq | RootedFlow

datatype evidence = Direct | Inferred

text \<open>The class of a provenance; the explanatory texts of \<open>PROVENANCE\<close> are left out.\<close>

fun prov_class :: "prov \<Rightarrow> evidence" where
  "prov_class PostingOrder = Inferred"
| "prov_class StatusResolved = Inferred"
| "prov_class CallOrder = Inferred"
| "prov_class TimeOverlap = Inferred"
| "prov_class LockHandoffOrder = Inferred"
| "prov_class RootedFlow = Inferred"
| "prov_class _ = Direct"

definition edge_class :: "prov \<Rightarrow> conf \<Rightarrow> evidence" where
  "edge_class p c = (if prov_class p = Direct \<and> (c = Medium \<or> c = Low) then Inferred else prov_class p)"

definition runtime_of_edge :: "ekind \<Rightarrow> string \<Rightarrow> string \<Rightarrow> string" where
  "runtime_of_edge kind src_cat dst_cat =
     (if kind = P2P then (if dst_cat = ''nccl'' then ''nccl'' else ''mpi'')
      else if kind \<in> {TaskJoin, TaskDependence, LockHandoff} then ''openmp''
      else if kind \<in> {Fork, Join} then ''openmp''
      else if kind = Arrival then (if dst_cat \<in> {''mpi'', ''nccl''} then dst_cat else ''openmp'')
      else if kind = Launch then dst_cat
      else if kind \<in> {DeviceWait, DeviceSync, StreamOrder, EventWait, Sequential, ExplicitSpanId} then src_cat
      else dst_cat)"

text \<open>\<open>VARIANTS\<close>: gaps as work, direct evidence only, gated tails as work.\<close>

definition VARIANTS :: "(string \<times> bool \<times> bool \<times> bool) list" where
  "VARIANTS = [(''default'', False, False, False), (''unrecorded_as_work'', True, False, False),
     (''direct_evidence_only'', False, True, False), (''gated_tail_as_work'', False, False, True)]"

text \<open>The kinds of the span-level edges (\<open>criticalpath.EDGE_KINDS\<close>).\<close>

datatype skind =
    S_sequential | S_device_sync | S_explicit_span_id | S_p2p | S_arrival | S_launch | S_device_wait
  | S_task_join | S_task_dep | S_lock_order

record sedge =
  s_dst :: nat
  s_src :: nat
  s_kind :: skind
  s_conf :: conf

section \<open>The graph\<close>

record edge =
  e_src :: nat
  e_dst :: nat
  e_mode :: emode
  e_kind :: ekind
  e_prov :: prov
  e_conf :: conf
  e_owner :: "nat option"
  e_d :: int
  e_origin :: int

record event_graph =
  g_n :: nat
  g_t :: "int list"
  g_active :: "bool list"
  g_edges :: "edge list"
  g_whi :: "int list"
  g_enabled :: "bool list"
  g_in_ptr :: "nat list"
  g_in_idx :: "nat list"
  g_out_ptr :: "nat list"
  g_out_idx :: "nat list"
  g_order :: "nat list"
  g_cat :: "string list"
  g_name :: "string list"
  g_device :: "bool list"
  g_gated :: "bool list"
  g_blocking :: "bool list"
  g_release :: "int list"
  g_rooted :: "bool list"
  g_rootflow :: "bool list"
  g_excluded :: "bool list"
  g_origin :: int
  g_dropped :: "(ekind, int) dict"
  g_dropped_edges :: "int list"
  g_dropped_pairs :: "(nat \<times> nat \<times> ekind \<times> conf) list"
  g_domain :: "nat list"
  g_clock :: "clock_analysis option"
  g_clock_contradicted :: int
  g_clock_disabled :: "nat list"
  g_skipped :: "int list"
  g_improper_nesting :: int
  g_cycle_edges_dropped :: int
  g_unmapped :: "(string, int) dict"

definition new_graph :: "nat \<Rightarrow> event_graph" where
  "new_graph n = \<lparr>g_n = n, g_t = replicate (2 * n) 0, g_active = replicate (2 * n) False, g_edges = [],
     g_whi = [], g_enabled = [], g_in_ptr = [], g_in_idx = [], g_out_ptr = [], g_out_idx = [], g_order = [],
     g_cat = replicate n [], g_name = replicate n [], g_device = replicate n False, g_gated = replicate n False,
     g_blocking = replicate n False, g_release = replicate n (-1), g_rooted = replicate n False,
     g_rootflow = replicate n False, g_excluded = replicate n False, g_origin = -1, g_dropped = [],
     g_dropped_edges = [], g_dropped_pairs = [], g_domain = replicate n 0, g_clock = None,
     g_clock_contradicted = 0, g_clock_disabled = [], g_skipped = [], g_improper_nesting = 0,
     g_cycle_edges_dropped = 0, g_unmapped = []\<rparr>"

abbreviation time_of :: "event_graph \<Rightarrow> nat \<Rightarrow> int" where
  "time_of g v \<equiv> g_t g ! v"

abbreviation edge_of :: "event_graph \<Rightarrow> nat \<Rightarrow> edge" where
  "edge_of g e \<equiv> g_edges g ! e"

text \<open>\<open>EventGraph.add\<close>; the Boolean is its result.\<close>

definition add_edge :: "nat \<Rightarrow> nat \<Rightarrow> emode \<Rightarrow> ekind \<Rightarrow> prov \<Rightarrow> conf \<Rightarrow> nat option \<Rightarrow> int
    \<Rightarrow> event_graph \<Rightarrow> bool \<times> event_graph" where
  "add_edge u v mode kind prov conf owner tol g =
     (let d = time_of g v - time_of g u in
      if d < 0 \<and> - d > tol then
        (False, g\<lparr>g_dropped := dict_add kind 1 (g_dropped g),
                  g_dropped_edges := (if g_origin g \<ge> 0 then g_dropped_edges g @ [g_origin g] else g_dropped_edges g),
                  g_dropped_pairs := g_dropped_pairs g @ [(u, v, kind, conf)]\<rparr>)
      else
        (True, g\<lparr>g_edges := g_edges g @ [\<lparr>e_src = u, e_dst = v, e_mode = mode, e_kind = kind, e_prov = prov,
                    e_conf = conf, e_owner = owner, e_d = (if d < 0 then 0 else d), e_origin = g_origin g\<rparr>],
                 g_active := (g_active g)[u := True, v := True]\<rparr>))"

abbreviation add :: "nat \<Rightarrow> nat \<Rightarrow> emode \<Rightarrow> ekind \<Rightarrow> prov \<Rightarrow> conf \<Rightarrow> nat option \<Rightarrow> int
    \<Rightarrow> event_graph \<Rightarrow> event_graph" where
  "add u v mode kind prov conf owner tol g \<equiv> snd (add_edge u v mode kind prov conf owner tol g)"

section \<open>Adjacency arrays\<close>

text \<open>\<open>_csr\<close>: count, prefix sums, fill.\<close>

definition csr_count :: "nat list \<Rightarrow> nat \<Rightarrow> nat list" where
  "csr_count keys N = fold (\<lambda>v ptr. ptr[v + 1 := ptr ! (v + 1) + 1]) keys (replicate (N + 1) 0)"

definition csr_sums :: "nat \<Rightarrow> nat list \<Rightarrow> nat list" where
  "csr_sums N ptr = fold (\<lambda>i ptr. ptr[i + 1 := ptr ! (i + 1) + ptr ! i]) [0..<N] ptr"

definition csr_fill :: "nat list \<Rightarrow> nat list \<Rightarrow> nat list" where
  "csr_fill keys ptr =
     snd (fold (\<lambda>(e, v) (fill, idx). (fill[v := fill ! v + 1], idx[fill ! v := e]))
       (List.enumerate 0 keys) (ptr, replicate (length keys) 0))"

definition csr :: "nat list \<Rightarrow> nat \<Rightarrow> nat list \<times> nat list" where
  "csr keys N = (let ptr = csr_sums N (csr_count keys N) in (ptr, csr_fill keys ptr))"

definition finish_graph :: "event_graph \<Rightarrow> event_graph" where
  "finish_graph g =
     (let N = 2 * g_n g; (ip, ii) = csr (map e_dst (g_edges g)) N; (op, oi) = csr (map e_src (g_edges g)) N
      in g\<lparr>g_enabled := replicate (length (g_edges g)) True, g_in_ptr := ip, g_in_idx := ii,
           g_out_ptr := op, g_out_idx := oi\<rparr>)"

text \<open>The loop \<open>for k in range(ptr[v], ptr[v + 1]): e = idx[k]\<close>, as the list of edges it visits.\<close>

definition in_edges :: "event_graph \<Rightarrow> nat \<Rightarrow> nat list" where
  "in_edges g v = map (\<lambda>k. g_in_idx g ! k) [g_in_ptr g ! v..<g_in_ptr g ! (v + 1)]"

definition out_edges :: "event_graph \<Rightarrow> nat \<Rightarrow> nat list" where
  "out_edges g v = map (\<lambda>k. g_out_idx g ! k) [g_out_ptr g ! v..<g_out_ptr g ! (v + 1)]"

definition inferred :: "event_graph \<Rightarrow> nat \<Rightarrow> bool" where
  "inferred g e \<longleftrightarrow> e_mode (edge_of g e) = DEP \<and> edge_class (e_prov (edge_of g e)) (e_conf (edge_of g e)) = Inferred"

definition runtime_of :: "event_graph \<Rightarrow> nat \<Rightarrow> string" where
  "runtime_of g e =
     (let x = edge_of g e in
      if e_mode x = BUSY \<or> e_mode x = WAIT then g_cat g ! the (e_owner x)
      else runtime_of_edge (e_kind x) (g_cat g ! (e_src x div 2)) (g_cat g ! (e_dst x div 2)))"

section \<open>Topological order\<close>

definition indegrees :: "event_graph \<Rightarrow> int list" where
  "indegrees g =
     fold (\<lambda>e indeg. if g_enabled g ! e then indeg[e_dst (edge_of g e) := indeg ! e_dst (edge_of g e) + 1] else indeg)
       [0..<length (g_edges g)] (replicate (2 * g_n g) 0)"

fun relax_out :: "event_graph \<Rightarrow> nat list \<Rightarrow> int list \<Rightarrow> nat list \<Rightarrow> int list \<times> nat list" where
  "relax_out g [] indeg dq = (indeg, dq)"
| "relax_out g (e # es) indeg dq =
     (if g_enabled g ! e then
        (let v = e_dst (edge_of g e); indeg = indeg[v := indeg ! v - 1]
         in relax_out g es indeg (if indeg ! v = 0 then dq @ [v] else dq))
      else relax_out g es indeg dq)"

definition degree_sum :: "int list \<Rightarrow> nat" where
  "degree_sum indeg = sum_list (map nat indeg)"

lemma degree_sum_update:
  "v < length indeg \<Longrightarrow> degree_sum (indeg[v := x]) + nat (indeg ! v) = degree_sum indeg + nat x"
proof (induction indeg arbitrary: v)
  case (Cons a indeg)
  then show ?case by (cases v) (auto simp: degree_sum_def)
qed simp

lemma relax_out_measure:
  "length (snd (relax_out g es indeg dq)) + degree_sum (fst (relax_out g es indeg dq)) \<le> length dq + degree_sum indeg
     \<or> (\<exists>e\<in>set es. length indeg \<le> e_dst (edge_of g e))"
proof (induction g es indeg dq rule: relax_out.induct)
  case (2 g e es indeg dq)
  let ?v = "e_dst (edge_of g e)"
  let ?indeg = "indeg[?v := indeg ! ?v - 1]"
  show ?case
  proof (cases "g_enabled g ! e \<and> ?v < length indeg")
    case True
    have "degree_sum ?indeg + (if ?indeg ! ?v = 0 then 1 else 0) \<le> degree_sum indeg"
      using degree_sum_update [of ?v indeg "indeg ! ?v - 1"] True by (auto simp: nat_diff_distrib)
    then show ?thesis using 2(1) [OF _ refl refl] True by (auto simp: Let_def)
  next
    case False
    then show ?thesis using 2(2) by auto
  qed
qed simp

text \<open>
  \<open>while dq\<close>. The guard on the destinations is the \<open>IndexError\<close> of \<open>indeg[v]\<close>; every
  destination of a graph is one of its \<open>2n\<close> nodes.
\<close>

function kahn :: "event_graph \<Rightarrow> int list \<Rightarrow> nat list \<Rightarrow> nat list \<Rightarrow> nat list" where
  "kahn g indeg order [] = order"
| "kahn g indeg order (u # dq) =
     (if \<exists>e\<in>set (out_edges g u). length indeg \<le> e_dst (edge_of g e) then order
      else kahn g (fst (relax_out g (out_edges g u) indeg dq)) (order @ [u])
             (snd (relax_out g (out_edges g u) indeg dq)))"
  by pat_completeness auto
termination
proof (relation "measure (\<lambda>(g, indeg, order, dq). length dq + degree_sum indeg)")
  fix g :: event_graph and indeg :: "int list" and order dq :: "nat list" and u :: nat
  assume "\<not> (\<exists>e\<in>set (out_edges g u). length indeg \<le> e_dst (edge_of g e))"
  then show "((g, fst (relax_out g (out_edges g u) indeg dq), order @ [u], snd (relax_out g (out_edges g u) indeg dq)),
      g, indeg, order, u # dq) \<in> measure (\<lambda>(g, indeg, order, dq). length dq + degree_sum indeg)"
    using relax_out_measure [of g "out_edges g u" indeg dq] by auto
qed simp

definition topological_order :: "event_graph \<Rightarrow> nat list" where
  "topological_order g =
     (let indeg = indegrees g
      in kahn g indeg [] (filter (\<lambda>v. g_active g ! v \<and> indeg ! v = 0) [0..<2 * g_n g]))"

definition disable_unplaced :: "bool \<Rightarrow> nat list \<Rightarrow> event_graph \<Rightarrow> event_graph" where
  "disable_unplaced dep_only order g =
     fold (\<lambda>e g. if g_enabled g ! e \<and> e_src (edge_of g e) \<notin> set order \<and> e_dst (edge_of g e) \<notin> set order
                     \<and> (\<not> dep_only \<or> e_mode (edge_of g e) = DEP)
                 then g\<lparr>g_enabled := (g_enabled g)[e := False], g_cycle_edges_dropped := g_cycle_edges_dropped g + 1\<rparr>
                 else g)
       [0..<length (g_edges g)] g"

fun break_loop :: "bool list \<Rightarrow> nat \<Rightarrow> nat list \<Rightarrow> event_graph \<Rightarrow> event_graph" where
  "break_loop [] n_active order g = g\<lparr>g_order := order\<rparr>"
| "break_loop (dep_only # rest) n_active order g =
     (if length order = n_active then g\<lparr>g_order := order\<rparr>
      else let g = disable_unplaced dep_only order g in break_loop rest n_active (topological_order g) g)"

definition break_cycles :: "event_graph \<Rightarrow> event_graph" where
  "break_cycles g = break_loop [True, False] (length (filter id (g_active g))) (topological_order g) g"

section \<open>Accepted edges\<close>

text \<open>
  What \<open>add\<close> keeps of a graph: the arrays over nodes have their size, and every edge joins two
  active nodes, is no more than the clock tolerance backwards in time, and lasts the time
  between its nodes (nothing, where the tolerance was needed).
\<close>

definition edge_ok :: "event_graph \<Rightarrow> edge \<Rightarrow> bool" where
  "edge_ok g x \<longleftrightarrow> e_src x < 2 * g_n g \<and> e_dst x < 2 * g_n g \<and> g_active g ! e_src x \<and> g_active g ! e_dst x \<and>
     e_d x = max 0 (time_of g (e_dst x) - time_of g (e_src x)) \<and>
     time_of g (e_src x) - time_of g (e_dst x) \<le> CLOCK_TOLERANCE_NS"

definition graph_ok :: "event_graph \<Rightarrow> bool" where
  "graph_ok g \<longleftrightarrow> length (g_t g) = 2 * g_n g \<and> length (g_active g) = 2 * g_n g \<and> (\<forall>x\<in>set (g_edges g). edge_ok g x)"

lemma new_graph_ok [simp]: "graph_ok (new_graph n)"
  by (simp add: graph_ok_def new_graph_def)

lemma graph_okD:
  assumes "graph_ok g" "e < length (g_edges g)"
  shows "e_src (edge_of g e) < 2 * g_n g" "e_dst (edge_of g e) < 2 * g_n g" "0 \<le> e_d (edge_of g e)"
    "g_active g ! e_src (edge_of g e)" "g_active g ! e_dst (edge_of g e)"
    "e_d (edge_of g e) = max 0 (time_of g (e_dst (edge_of g e)) - time_of g (e_src (edge_of g e)))"
    "time_of g (e_src (edge_of g e)) - time_of g (e_dst (edge_of g e)) \<le> CLOCK_TOLERANCE_NS"
  using assms nth_mem [OF assms(2)] unfolding graph_ok_def edge_ok_def by auto

lemma add_edge_ok:
  assumes ok: "graph_ok g" and uv: "u < 2 * g_n g" "v < 2 * g_n g" and tol: "0 \<le> tol" "tol \<le> CLOCK_TOLERANCE_NS"
  shows "graph_ok (add u v mode kind prov conf owner tol g)"
proof -
  have old: "edge_ok (g\<lparr>g_edges := es, g_active := (g_active g)[u := True, v := True]\<rparr>) x" if "x \<in> set (g_edges g)" for x es
    using ok that by (auto simp: graph_ok_def edge_ok_def nth_update)
  show ?thesis
    using ok old uv tol by (auto simp: add_edge_def Let_def graph_ok_def edge_ok_def nth_list_update)
qed

text \<open>What \<open>add\<close> leaves alone.\<close>

lemma add_fields [simp]:
  "g_n (add u v m k p c ow tol g) = g_n g" "g_t (add u v m k p c ow tol g) = g_t g"
  "g_cat (add u v m k p c ow tol g) = g_cat g" "g_name (add u v m k p c ow tol g) = g_name g"
  "g_device (add u v m k p c ow tol g) = g_device g" "g_gated (add u v m k p c ow tol g) = g_gated g"
  "g_blocking (add u v m k p c ow tol g) = g_blocking g" "g_release (add u v m k p c ow tol g) = g_release g"
  "g_excluded (add u v m k p c ow tol g) = g_excluded g" "g_rootflow (add u v m k p c ow tol g) = g_rootflow g"
  "g_domain (add u v m k p c ow tol g) = g_domain g" "g_origin (add u v m k p c ow tol g) = g_origin g"
  "length (g_active (add u v m k p c ow tol g)) = length (g_active g)"
  by (simp_all add: add_edge_def Let_def)

section \<open>The adjacency arrays\<close>

text \<open>The number of keys below \<open>v\<close> is where the entries of \<open>v\<close> start.\<close>

definition below :: "nat list \<Rightarrow> nat \<Rightarrow> nat" where
  "below keys v = length (filter (\<lambda>k. k < v) keys)"

lemma below_Suc: "below keys (Suc v) = below keys v + count_list keys v"
  by (induction keys) (auto simp: below_def less_Suc_eq)

lemma below_0 [simp]: "below keys 0 = 0"
  by (simp add: below_def)

lemma below_le: "below keys v \<le> length keys"
  by (simp add: below_def)

lemma below_mono: "u \<le> v \<Longrightarrow> below keys u \<le> below keys v"
  by (induction keys) (auto simp: below_def)

lemma csr_count_nth:
  assumes "\<forall>k\<in>set keys. k < N"
  shows "length (csr_count keys N) = N + 1 \<and> csr_count keys N ! 0 = 0 \<and> (\<forall>v<N. csr_count keys N ! Suc v = count_list keys v)"
proof -
  have "length (fold (\<lambda>v ptr. ptr[v + 1 := ptr ! (v + 1) + 1]) keys ptr) = N + 1
      \<and> fold (\<lambda>v ptr. ptr[v + 1 := ptr ! (v + 1) + 1]) keys ptr ! 0 = ptr ! 0
      \<and> (\<forall>v<N. fold (\<lambda>v ptr. ptr[v + 1 := ptr ! (v + 1) + 1]) keys ptr ! Suc v = ptr ! Suc v + count_list keys v)"
    if "length ptr = N + 1" for ptr
    using assms that by (induction keys arbitrary: ptr) (auto simp: nth_list_update)
  from this [of "replicate (N + 1) 0"] show ?thesis by (simp add: csr_count_def)
qed

lemma csr_sums_nth:
  assumes "\<forall>k\<in>set keys. k < N"
  shows "length (csr_sums N (csr_count keys N)) = N + 1 \<and> (\<forall>v\<le>N. csr_sums N (csr_count keys N) ! v = below keys v)"
proof -
  let ?P = "\<lambda>i ptr. length ptr = N + 1 \<and> (\<forall>v\<le>i. ptr ! v = below keys v) \<and> (\<forall>v. i \<le> v \<and> v < N \<longrightarrow> ptr ! Suc v = count_list keys v)"
  have "?P N (csr_sums N (csr_count keys N))" unfolding csr_sums_def
  proof (rule fold_range_inv [where P = ?P])
    show "?P 0 (csr_count keys N)" using csr_count_nth [OF assms] by simp
    show "?P (Suc i) (ptr[i + 1 := ptr ! (i + 1) + ptr ! i])" if "i < N" "?P i ptr" for i ptr
      using that by (auto simp: nth_list_update below_Suc le_Suc_eq)
  qed
  then show ?thesis by auto
qed

text \<open>
  While filling, the entries of \<open>v\<close> so far are the edges of \<open>v\<close> so far, in order, from where
  they start.
\<close>

definition entries :: "nat list \<Rightarrow> nat \<Rightarrow> nat \<Rightarrow> nat list" where
  "entries keys i v = filter (\<lambda>e. keys ! e = v) [0..<i]"

lemma entries_count: "i \<le> length keys \<Longrightarrow> length (entries keys i v) = count_list (take i keys) v"
  by (induction i) (simp_all add: entries_def take_Suc_conv_app_nth)

lemma count_list_take: "i < length keys \<Longrightarrow> count_list (take i keys) (keys ! i) < count_list keys (keys ! i)"
  by (subst (3) id_take_nth_drop [of i keys]) simp_all

lemma count_list_take_le: "count_list (take i keys) v \<le> count_list keys v"
  by (metis append_take_drop_id count_list_append le_add1)

lemma csr_fill_step:
  fixes keys N i
  defines "P \<equiv> \<lambda>i (s :: nat list \<times> nat list). length (fst s) = N + 1 \<and> length (snd s) = length keys \<and>
      (\<forall>v<N. fst s ! v = below keys v + length (entries keys i v)
        \<and> (\<forall>j<length (entries keys i v). snd s ! (below keys v + j) = entries keys i v ! j))"
  assumes keys: "\<forall>k\<in>set keys. k < N" and i: "i < length keys" and P: "P i (fill, idx)"
  shows "P (Suc i) (fill[keys ! i := fill ! (keys ! i) + 1], idx[fill ! (keys ! i) := i])"
proof -
  let ?k = "keys ! i"
  have k: "?k < N" using keys i by simp
  have grow: "entries keys (Suc i) v = (if v = ?k then entries keys i v @ [i] else entries keys i v)" for v
    by (simp add: entries_def)
  have pos: "fill ! ?k = below keys ?k + length (entries keys i ?k)" using P k by (simp add: P_def)
  have room: "length (entries keys i ?k) < count_list keys ?k"
    using count_list_take [OF i] entries_count [of i keys] i by simp
  then have "fill ! ?k < below keys (Suc ?k)" using pos by (simp add: below_Suc)
  then have len: "fill ! ?k < length idx" using below_le [of keys "Suc ?k"] P by (simp add: P_def)
  have apart: "below keys v + j \<noteq> fill ! ?k" if "v \<noteq> ?k" "j < length (entries keys i v)" for v j
  proof -
    have "j < count_list keys v" using that(2) entries_count [of i keys v] count_list_take_le [of i keys v] i by simp
    then have j: "below keys v + j < below keys (Suc v)" by (simp add: below_Suc)
    show ?thesis
    proof (cases "v < ?k")
      case True
      then have "below keys (Suc v) \<le> below keys ?k" by (intro below_mono) simp
      then show ?thesis using j pos by simp
    next
      case False
      then have "below keys (Suc ?k) \<le> below keys v" using that(1) by (intro below_mono) simp
      then show ?thesis using \<open>fill ! ?k < below keys (Suc ?k)\<close> by simp
    qed
  qed
  have entry: "fill[?k := fill ! ?k + 1] ! v = below keys v + length (entries keys (Suc i) v)
        \<and> (\<forall>j<length (entries keys (Suc i) v). idx[fill ! ?k := i] ! (below keys v + j) = entries keys (Suc i) v ! j)"
    if v: "v < N" for v
  proof -
    have old: "fill ! v = below keys v + length (entries keys i v)"
      "\<And>j. j < length (entries keys i v) \<Longrightarrow> idx ! (below keys v + j) = entries keys i v ! j"
      using P v by (simp_all add: P_def)
    show ?thesis
    proof (cases "v = ?k")
      case True
      have "idx[fill ! ?k := i] ! (below keys v + j) = (entries keys i v @ [i]) ! j"
        if "j < Suc (length (entries keys i v))" for j
        using that old(2) [of j] True pos len by (cases "j = length (entries keys i v)") (auto simp: nth_append)
      then show ?thesis using True pos P k by (simp add: grow P_def)
    next
      case False
      have "idx[fill ! ?k := i] ! (below keys v + j) = entries keys i v ! j" if "j < length (entries keys i v)" for j
        using old(2) [OF that] apart [OF False that] by (metis nth_list_update_neq)
      then show ?thesis using old(1) False by (simp add: grow)
    qed
  qed
  show ?thesis using P entry by (simp add: P_def)
qed

lemma csr_spec:
  assumes keys: "\<forall>k\<in>set keys. k < N" and v: "v < N"
  shows "map (\<lambda>k. snd (csr keys N) ! k) [fst (csr keys N) ! v..<fst (csr keys N) ! (v + 1)] =
           filter (\<lambda>e. keys ! e = v) [0..<length keys]"
proof -
  let ?ptr = "csr_sums N (csr_count keys N)"
  note ptr = csr_sums_nth [OF keys]
  let ?P = "\<lambda>i (s :: nat list \<times> nat list). length (fst s) = N + 1 \<and> length (snd s) = length keys \<and>
      (\<forall>v<N. fst s ! v = below keys v + length (entries keys i v)
        \<and> (\<forall>j<length (entries keys i v). snd s ! (below keys v + j) = entries keys i v ! j))"
  have "?P (length keys) (fold (\<lambda>(e, v) (fill, idx). (fill[v := fill ! v + 1], idx[fill ! v := e]))
      (List.enumerate 0 keys) (?ptr, replicate (length keys) 0))"
  proof (rule fold_enumerate_inv [where P = ?P])
    show "?P 0 (?ptr, replicate (length keys) 0)" using ptr by (simp add: entries_def)
    show "?P (Suc i) ((\<lambda>(e, v) (fill, idx). (fill[v := fill ! v + 1], idx[fill ! v := e])) (i, keys ! i) s)"
      if "i < length keys" "?P i s" for i s
      using csr_fill_step [OF keys that(1), of "fst s" "snd s"] that(2) by (simp add: prod.case_eq_if)
  qed
  then have fill: "\<forall>j<length (entries keys (length keys) v). csr_fill keys ?ptr ! (below keys v + j) = entries keys (length keys) v ! j"
    using v by (simp add: csr_fill_def)
  have len: "length (entries keys (length keys) v) = count_list keys v" using entries_count [of "length keys" keys v] by simp
  have "map (\<lambda>k. csr_fill keys ?ptr ! k) [below keys v..<below keys (Suc v)] = entries keys (length keys) v"
    using fill len by (intro nth_equalityI) (auto simp: below_Suc)
  then show ?thesis using ptr v by (simp add: csr_def Let_def entries_def)
qed

text \<open>A finished graph: the adjacency arrays list the edges of every node, in edge order.\<close>

definition finished :: "event_graph \<Rightarrow> bool" where
  "finished g \<longleftrightarrow> graph_ok g \<and> length (g_enabled g) = length (g_edges g) \<and>
     (\<forall>v<2 * g_n g. in_edges g v = filter (\<lambda>e. e_dst (edge_of g e) = v) [0..<length (g_edges g)] \<and>
        out_edges g v = filter (\<lambda>e. e_src (edge_of g e) = v) [0..<length (g_edges g)])"

lemma finish_fields [simp]:
  "g_n (finish_graph g) = g_n g" "g_t (finish_graph g) = g_t g" "g_edges (finish_graph g) = g_edges g"
  "g_active (finish_graph g) = g_active g" "g_enabled (finish_graph g) = replicate (length (g_edges g)) True"
  by (simp_all add: finish_graph_def Let_def case_prod_unfold)

lemma finish_finished:
  assumes "graph_ok g"
  shows "finished (finish_graph g)"
proof -
  let ?N = "2 * g_n g"
  have "graph_ok (finish_graph g)" using assms by (simp add: graph_ok_def edge_ok_def)
  moreover have dst: "\<forall>k\<in>set (map e_dst (g_edges g)). k < ?N" and src: "\<forall>k\<in>set (map e_src (g_edges g)). k < ?N"
    using assms by (auto simp: graph_ok_def edge_ok_def)
  moreover have key: "filter (\<lambda>e. map f (g_edges g) ! e = v) [0..<length (g_edges g)] =
      filter (\<lambda>e. f (edge_of g e) = v) [0..<length (g_edges g)]" for f :: "edge \<Rightarrow> nat" and v
    by (rule filter_cong) auto
  moreover have "in_edges (finish_graph g) v = filter (\<lambda>e. e_dst (edge_of g e) = v) [0..<length (g_edges g)]"
    if "v < ?N" for v
    using csr_spec [OF dst that] key
    by (simp add: in_edges_def finish_graph_def Let_def case_prod_unfold)
  moreover have "out_edges (finish_graph g) v = filter (\<lambda>e. e_src (edge_of g e) = v) [0..<length (g_edges g)]"
    if "v < ?N" for v
    using csr_spec [OF src that] key
    by (simp add: out_edges_def finish_graph_def Let_def case_prod_unfold)
  ultimately show ?thesis by (simp add: finished_def)
qed

lemma finished_ok: "finished g \<Longrightarrow> graph_ok g"
  by (simp add: finished_def)

lemma in_edges_iff: "finished g \<Longrightarrow> v < 2 * g_n g \<Longrightarrow> e \<in> set (in_edges g v) \<longleftrightarrow> e < length (g_edges g) \<and> e_dst (edge_of g e) = v"
  by (auto simp: finished_def)

lemma out_edges_iff: "finished g \<Longrightarrow> v < 2 * g_n g \<Longrightarrow> e \<in> set (out_edges g v) \<longleftrightarrow> e < length (g_edges g) \<and> e_src (edge_of g e) = v"
  by (auto simp: finished_def)

section \<open>Properties\<close>

text \<open>
  Property. The adjacency arrays of a finished event graph are exact: reading
  \<open>in_idx[in_ptr[v]:in_ptr[v + 1]]\<close> gives the edges into \<open>v\<close>, each once and in the order they
  were added, and likewise for the edges out of it.
\<close>

theorem adjacency_exact:
  assumes "graph_ok g" "v < 2 * g_n g"
  shows "in_edges (finish_graph g) v = filter (\<lambda>e. e_dst (edge_of g e) = v) [0..<length (g_edges g)] \<and>
         out_edges (finish_graph g) v = filter (\<lambda>e. e_src (edge_of g e) = v) [0..<length (g_edges g)]"
  using finish_finished [OF assms(1)] assms(2) by (simp add: finished_def)

text \<open>Two spans on two lanes, the second launched by the first, and an edge against time.\<close>

definition demo_graph :: event_graph where
  "demo_graph = add 1 2 DEP Launch CorrelationId Certain None 0
     (add 0 2 DEP Launch CorrelationId Certain None 0
     (add 2 3 BUSY DeviceWork DeviceInterval Certain (Some 1) 0
     (add 0 1 BUSY Thread ThreadTimeline Certain (Some 0) 0
     ((new_graph 2)\<lparr>g_t := [0, 100, 20, 90]\<rparr>))))"

lemma demo_graph_ok: "graph_ok demo_graph"
  unfolding demo_graph_def
  by (intro add_edge_ok) (simp_all add: new_graph_def CLOCK_TOLERANCE_NS_def graph_ok_def)

lemma adjacency_exact_witness:
  "in_edges (finish_graph demo_graph) 2 = [2] \<and> out_edges (finish_graph demo_graph) 0 = [0, 2] \<and>
   g_dropped demo_graph = [(Launch, 1)]"
  using adjacency_exact [OF demo_graph_ok, of 2] adjacency_exact [OF demo_graph_ok, of 0]
  by (simp add: demo_graph_def add_edge_def new_graph_def Let_def dict_add_def)

end
