(* ===== verification/Program_Order.thy ===== *)
theory Program_Order
  imports Event_Graph Activity_Buckets Heapq Correlation
begin

text \<open>
  \<^verbatim>\<open>src/src/analysis/criticalpath.py\<close>: the builders of the orders a process executes in. A builder
  appends to \<open>preds[v]\<close>; the model returns the edges in the order they are appended. Spans are
  given with their index in the whole trace (\<open>_items\<close>). Where the code sorts the set of a
  stream's spans by start, equal starts keep their order here.
\<close>

definition gated_by :: "nat \<Rightarrow> nat \<Rightarrow> skind \<Rightarrow> conf \<Rightarrow> sedge" where
  "gated_by v u kind c = \<lparr>s_dst = v, s_src = u, s_kind = kind, s_conf = c\<rparr>"

section \<open>Program order\<close>

definition ends_with :: "string \<Rightarrow> string \<Rightarrow> bool" where
  "ends_with p s \<longleftrightarrow> suffix p s"

definition off_host_thread :: "span_event \<Rightarrow> bool" where
  "off_host_thread s \<longleftrightarrow> is_device_span s \<or> tag_is s ''side'' ''gpu''
     \<or> (ends_with ''_gpu'' (name s) \<and> category_value (category s) = ''memory'')"

text \<open>The spans of each thread, device-side spans and annotations left out.\<close>

definition on_thread :: "span_event \<Rightarrow> bool" where
  "on_thread s \<longleftrightarrow> \<not> off_host_thread s \<and> \<not> is_annotation s"

definition thread_lists :: "spans \<Rightarrow> (int \<times> int, nat list) dict" where
  "thread_lists sp =
     map (\<lambda>(k, ps). (k, map fst ps)) (group_by (\<lambda>(i, s). (pid s, tid s)) (filter (\<lambda>(i, s). on_thread s) sp))"

type_synonym pending = "(int \<times> int \<times> nat) list"

fun complete_ended :: "int \<Rightarrow> pending \<Rightarrow> (int \<times> int \<times> nat) option \<Rightarrow> pending \<times> (int \<times> int \<times> nat) option" where
  "complete_ended t [] best = ([], best)"
| "complete_ended t ((e, s, i) # h) best =
     (if e \<le> t then
        complete_ended t h (case best of
            None \<Rightarrow> Some (e, - s, i)
          | Some b \<Rightarrow> if (e, - s, i) > b then Some (e, - s, i) else Some b)
      else ((e, s, i) # h, best))"

type_synonym order_state = "pending \<times> (int \<times> int \<times> nat) option \<times> sedge list"

definition order_step :: "spans \<Rightarrow> nat \<Rightarrow> order_state \<Rightarrow> order_state" where
  "order_step sp b st =
     (let (h, best, edges) = st; s = span_at sp b;
          (h, best) = complete_ended (start_ns s) h best;
          edges = (case best of None \<Rightarrow> edges | Some (_, _, i) \<Rightarrow> edges @ [gated_by b i S_sequential Certain])
      in (heappush (end_ns s, start_ns s, b) h, best, edges))"

definition thread_order :: "spans \<Rightarrow> nat list \<Rightarrow> sedge list" where
  "thread_order sp idxs =
     (let idxs = sort_key (\<lambda>i. start_ns (span_at sp i)) idxs in snd (snd (fold (order_step sp) idxs ([], None, []))))"

definition program_order_edges :: "spans \<Rightarrow> sedge list" where
  "program_order_edges sp = concat (map (\<lambda>(k, idxs). thread_order sp idxs) (thread_lists sp))"

section \<open>Streams of old traces\<close>

definition GPU_CATS :: "string list" where
  "GPU_CATS = [''cuda'', ''rocm'']"

definition stream_key_of :: "span_event \<Rightarrow> (int \<times> string \<times> string) option" where
  "stream_key_of s =
     (if is_new_format s then None
      else if category_value (category s) \<in> set GPU_CATS \<or> (category_value (category s) = ''sync'' \<and> tag s ''stream'' \<noteq> None)
      then map_option (\<lambda>st. (pid s, if category_value (category s) \<in> set GPU_CATS then category_value (category s) else ''gpu'', st))
             (tag s ''stream'')
      else None)"

definition add_stream :: "nat \<times> span_event \<Rightarrow> (int \<times> string \<times> string, nat list) dict \<Rightarrow> (int \<times> string \<times> string, nat list) dict" where
  "add_stream p d = (case stream_key_of (snd p) of None \<Rightarrow> d | Some k \<Rightarrow> dict_append k (fst p) d)"

definition stream_lists :: "spans \<Rightarrow> (int \<times> string, nat list) dict" where
  "stream_lists sp =
     fold (\<lambda>((p, c, st), idxs) d. AList.update (p, st) (dict_get d (p, st) [] @ idxs) d) (fold add_stream sp []) []"

definition chain :: "skind \<Rightarrow> conf \<Rightarrow> nat list \<Rightarrow> sedge list" where
  "chain kind c idxs = map (\<lambda>(a, b). gated_by b a kind c) (zip idxs (tl idxs))"

definition stream_order_edges :: "spans \<Rightarrow> sedge list" where
  "stream_order_edges sp =
     concat (map (\<lambda>(k, idxs). chain S_sequential Certain (sort_key (\<lambda>i. start_ns (span_at sp i)) (remdups idxs)))
       (stream_lists sp))"

section \<open>Device synchronization of old traces\<close>

definition DEVICE_SYNC_NAMES :: "string list" where
  "DEVICE_SYNC_NAMES = [''cudaDeviceSynchronize'', ''hipDeviceSynchronize'', ''cuCtxSynchronize'']"

definition old_gpu_work :: "span_event \<Rightarrow> bool" where
  "old_gpu_work s \<longleftrightarrow> \<not> is_new_format s \<and> category_value (category s) \<in> set GPU_CATS"

definition old_device_sync :: "span_event \<Rightarrow> bool" where
  "old_device_sync s \<longleftrightarrow> \<not> is_new_format s \<and> category_value (category s) \<notin> set GPU_CATS
     \<and> category_value (category s) = ''sync'' \<and> name s \<in> set DEVICE_SYNC_NAMES"

definition by_pid :: "(span_event \<Rightarrow> bool) \<Rightarrow> spans \<Rightarrow> (int, nat list) dict" where
  "by_pid P sp = map (\<lambda>(k, ps). (k, map fst ps)) (group_by (\<lambda>(i, s). pid s) (filter (\<lambda>(i, s). P s) sp))"

text \<open>One synchronization: the work not yet taken that started before it, after the last one.\<close>

definition sync_step :: "spans \<Rightarrow> nat \<Rightarrow> nat list \<times> int \<times> sedge list \<Rightarrow> nat list \<times> int \<times> sedge list" where
  "sync_step sp si st =
     (let (work, last_end, edges) = st;
          early = (\<lambda>g. start_ns (span_at sp g) < start_ns (span_at sp si));
          epoch = filter (\<lambda>g. start_ns (span_at sp g) \<ge> last_end) (takeWhile early work)
      in (dropWhile early work, end_ns (span_at sp si), edges @ map (\<lambda>g. gated_by si g S_device_sync Certain) epoch))"

definition device_sync_edges :: "spans \<Rightarrow> sedge list" where
  "device_sync_edges sp =
     (let start = (\<lambda>i. start_ns (span_at sp i)); syncs = by_pid old_device_sync sp in
      concat (map (\<lambda>(p, work). snd (snd (fold (sync_step sp) (sort_key start (dict_get syncs p []))
                  (sort_key start work, -1, []))))
        (by_pid old_gpu_work sp)))"

section \<open>Program order links every span to the last one that completed\<close>

definition completion_key :: "spans \<Rightarrow> nat \<Rightarrow> int \<times> int \<times> nat" where
  "completion_key sp i = (end_ns (span_at sp i), - start_ns (span_at sp i), i)"

text \<open>The latest completed of the spans in \<open>as\<close>, the outermost of those that end together.\<close>

definition latest_completed :: "spans \<Rightarrow> nat list \<Rightarrow> int \<Rightarrow> nat option" where
  "latest_completed sp as t =
     (case filter (\<lambda>a. end_ns (span_at sp a) \<le> t) as of
        [] \<Rightarrow> None | xs \<Rightarrow> Some (snd (snd (Max (completion_key sp ` set xs)))))"

definition heap_key :: "spans \<Rightarrow> nat \<Rightarrow> int \<times> int \<times> nat" where
  "heap_key sp i = (end_ns (span_at sp i), start_ns (span_at sp i), i)"

definition is_best :: "spans \<Rightarrow> nat set \<Rightarrow> (int \<times> int \<times> nat) option \<Rightarrow> bool" where
  "is_best sp A best \<longleftrightarrow> (case best of
      None \<Rightarrow> A = {}
    | Some m \<Rightarrow> m \<in> completion_key sp ` A \<and> (\<forall>a\<in>A. completion_key sp a \<le> m))"

lemma is_best_insert:
  assumes "is_best sp D best" "completion_key sp i = c"
  shows "is_best sp (insert i D) (case best of None \<Rightarrow> Some c | Some b \<Rightarrow> if c > b then Some c else Some b)"
proof (cases best)
  case (Some b)
  then have "b \<in> completion_key sp ` D" "\<forall>a\<in>D. completion_key sp a \<le> b" using assms(1) by (simp_all add: is_best_def)
  then show ?thesis using assms(2) Some by (cases "c > b") (auto simp: is_best_def not_less simp del: less_prod_simp intro: order_trans less_imp_le)
qed (use assms in \<open>simp add: is_best_def\<close>)

lemma complete_ended_spec:
  assumes "sorted h" "set h = heap_key sp ` P" "is_best sp D best" "complete_ended t h best = (h', best')"
  shows "sorted h' \<and> set h' = heap_key sp ` {a \<in> P. t < end_ns (span_at sp a)} \<and>
     is_best sp (D \<union> {a \<in> P. end_ns (span_at sp a) \<le> t}) best'"
  using assms
proof (induction t h best arbitrary: P D rule: complete_ended.induct)
  case (1 t best)
  then show ?case by simp
next
  case (2 t e s i h best)
  have i: "(e, s, i) \<in> heap_key sp ` P" using 2(3) by (metis list.set_intros(1))
  then have es: "e = end_ns (span_at sp i)" "s = start_ns (span_at sp i)" "i \<in> P" by (auto simp: heap_key_def)
  have min: "e \<le> end_ns (span_at sp a)" if "a \<in> P" for a
  proof -
    have "heap_key sp a \<in> set ((e, s, i) # h)" using 2(3) that by auto
    then have "(e, s, i) \<le> heap_key sp a" using 2(2) by auto
    then show ?thesis by (auto simp: heap_key_def less_eq_prod_def)
  qed
  show ?case
  proof (cases "e \<le> t")
    case False
    then have sets: "{a \<in> P. end_ns (span_at sp a) \<le> t} = {}" "{a \<in> P. t < end_ns (span_at sp a)} = P" using min by force+
    have "h' = (e, s, i) # h" "best' = best" using 2(5) False by auto
    then show ?thesis unfolding sets using 2(2-4) by simp
  next
    case True
    define b where "b = (case best of None \<Rightarrow> Some (e, - s, i) | Some b \<Rightarrow> if (e, - s, i) > b then Some (e, - s, i) else Some b)"
    have k: "completion_key sp i = (e, - s, i)" by (simp add: completion_key_def es)
    have best: "is_best sp (insert i D) b"
      unfolding b_def by (rule is_best_insert [OF 2(4) k])
    have inj: "inj (heap_key sp)" by (rule injI) (simp add: heap_key_def)
    show ?thesis
    proof (cases "(e, s, i) \<in> set h")
      case True
      then have "set h = heap_key sp ` P" using 2(3) by (simp add: insert_absorb)
      moreover have "sorted h" "complete_ended t h b = (h', best')" using 2(2,5) \<open>e \<le> t\<close> by (simp_all add: b_def)
      ultimately have "sorted h' \<and> set h' = heap_key sp ` {a \<in> P. t < end_ns (span_at sp a)} \<and>
          is_best sp (insert i D \<union> {a \<in> P. end_ns (span_at sp a) \<le> t}) best'"
        using 2(1) [OF \<open>e \<le> t\<close>, of P "insert i D", folded b_def] best by blast
      moreover have "insert i D \<union> {a \<in> P. end_ns (span_at sp a) \<le> t} = D \<union> {a \<in> P. end_ns (span_at sp a) \<le> t}"
        using es \<open>e \<le> t\<close> by auto
      ultimately show ?thesis by simp
    next
      case False
      have ki: "heap_key sp i = (e, s, i)" by (simp add: heap_key_def es)
      have "insert (e, s, i) (set h) = heap_key sp ` P" using 2(3) by simp
      then have "set h = heap_key sp ` P - {heap_key sp i}" using False unfolding ki by (metis Diff_insert_absorb)
      also have "\<dots> = heap_key sp ` (P - {i})" using inj by (simp add: image_set_diff)
      finally have "set h = heap_key sp ` (P - {i})" .
      moreover have "sorted h" "complete_ended t h b = (h', best')" using 2(2,5) \<open>e \<le> t\<close> by (simp_all add: b_def)
      ultimately have "sorted h' \<and> set h' = heap_key sp ` {a \<in> P - {i}. t < end_ns (span_at sp a)} \<and>
          is_best sp (insert i D \<union> {a \<in> P - {i}. end_ns (span_at sp a) \<le> t}) best'"
        using 2(1) [OF \<open>e \<le> t\<close>, of "P - {i}" "insert i D", folded b_def] best by blast
      moreover have "insert i D \<union> {a \<in> P - {i}. end_ns (span_at sp a) \<le> t} = D \<union> {a \<in> P. end_ns (span_at sp a) \<le> t}"
        "{a \<in> P - {i}. t < end_ns (span_at sp a)} = {a \<in> P. t < end_ns (span_at sp a)}"
        using es \<open>e \<le> t\<close> by auto
      ultimately show ?thesis by simp
    qed
  qed
qed

text \<open>The state after the first spans of a thread, in start order.\<close>

definition order_inv :: "spans \<Rightarrow> nat list \<Rightarrow> nat \<Rightarrow> order_state \<Rightarrow> bool" where
  "order_inv sp L k st \<longleftrightarrow> (\<exists>P D. sorted (fst st) \<and> set (fst st) = heap_key sp ` P \<and> is_best sp D (fst (snd st))
     \<and> P \<union> D = set (take k L) \<and> (\<forall>a\<in>D. \<forall>j. k \<le> j \<and> j < length L \<longrightarrow> end_ns (span_at sp a) \<le> start_ns (span_at sp (L ! j))))"

lemma latest_completed_Max:
  "F \<noteq> [] \<Longrightarrow> filter (\<lambda>a. end_ns (span_at sp a) \<le> t) as = F \<Longrightarrow>
    latest_completed sp as t = Some (snd (snd (Max (completion_key sp ` set F))))"
  by (cases F) (simp_all add: latest_completed_def)

lemma is_best_latest:
  assumes "is_best sp {a \<in> set as. end_ns (span_at sp a) \<le> t} best"
  shows "latest_completed sp as t = map_option (\<lambda>m. snd (snd m)) best"
proof (cases best)
  case None
  then have "filter (\<lambda>a. end_ns (span_at sp a) \<le> t) as = []" using assms by (auto simp: is_best_def filter_empty_conv)
  then show ?thesis using None by (simp add: latest_completed_def)
next
  case (Some m)
  let ?A = "{a \<in> set as. end_ns (span_at sp a) \<le> t}"
  have "Max (completion_key sp ` ?A) = m" using assms Some by (intro Max_eqI) (auto simp: is_best_def)
  moreover have "filter (\<lambda>a. end_ns (span_at sp a) \<le> t) as \<noteq> []" using assms Some by (auto simp: is_best_def filter_empty_conv)
  moreover have "set (filter (\<lambda>a. end_ns (span_at sp a) \<le> t) as) = ?A" by simp
  ultimately show ?thesis using latest_completed_Max [OF _ refl, of sp t as] Some by simp
qed

definition order_edges_upto :: "spans \<Rightarrow> nat list \<Rightarrow> nat \<Rightarrow> sedge list" where
  "order_edges_upto sp L k = concat (map (\<lambda>j. case latest_completed sp (take j L) (start_ns (span_at sp (L ! j))) of
     None \<Rightarrow> [] | Some a \<Rightarrow> [gated_by (L ! j) a S_sequential Certain]) [0..<k])"

lemma order_step_inv:
  assumes srt: "sorted (map (\<lambda>i. start_ns (span_at sp i)) L)" and k: "k < length L"
    and inv: "order_inv sp L k st" and out: "snd (snd st) = order_edges_upto sp L k"
  shows "order_inv sp L (Suc k) (order_step sp (L ! k) st) \<and> snd (snd (order_step sp (L ! k) st)) = order_edges_upto sp L (Suc k)"
proof -
  obtain h best edges where st: "st = (h, best, edges)" by (cases st)
  obtain P D where PD: "sorted h" "set h = heap_key sp ` P" "is_best sp D best" "P \<union> D = set (take k L)"
    "\<forall>a\<in>D. \<forall>j. k \<le> j \<and> j < length L \<longrightarrow> end_ns (span_at sp a) \<le> start_ns (span_at sp (L ! j))"
    using inv by (auto simp: order_inv_def st)
  let ?t = "start_ns (span_at sp (L ! k))"
  obtain h' best' where c: "complete_ended ?t h best = (h', best')" by fastforce
  note s = complete_ended_spec [OF PD(1-3) c]
  let ?P = "{a \<in> P. ?t < end_ns (span_at sp a)}" and ?D = "D \<union> {a \<in> P. end_ns (span_at sp a) \<le> ?t}"
  have "?D = {a \<in> set (take k L). end_ns (span_at sp a) \<le> ?t}" using PD(4,5) k by auto
  then have l: "latest_completed sp (take k L) ?t = map_option (\<lambda>m. snd (snd m)) best'" using is_best_latest s by simp
  have step: "order_step sp (L ! k) st = (heappush (end_ns (span_at sp (L ! k)), ?t, L ! k) h', best',
      case best' of None \<Rightarrow> edges | Some (_, _, i) \<Rightarrow> edges @ [gated_by (L ! k) i S_sequential Certain])"
    by (simp add: order_step_def st c Let_def)
  have "snd (snd (order_step sp (L ! k) st)) = order_edges_upto sp L (Suc k)"
    unfolding step using out l by (auto simp: st order_edges_upto_def split: option.splits)
  moreover have "order_inv sp L (Suc k) (order_step sp (L ! k) st)"
    unfolding order_inv_def
  proof (intro exI conjI ballI allI impI)
    show "sorted (fst (order_step sp (L ! k) st))" using s by (simp add: step heappush_def sorted_insort)
    show "set (fst (order_step sp (L ! k) st)) = heap_key sp ` insert (L ! k) ?P" using s by (simp add: step heap_key_def)
    show "is_best sp ?D (fst (snd (order_step sp (L ! k) st)))" using s by (simp add: step)
    show "insert (L ! k) ?P \<union> ?D = set (take (Suc k) L)" using PD(4) k by (auto simp: take_Suc_conv_app_nth)
    fix a j assume a: "a \<in> ?D" and j: "Suc k \<le> j \<and> j < length L"
    have "?t \<le> start_ns (span_at sp (L ! j))" using sorted_nth_mono [OF srt, of k j] j by simp
    then show "end_ns (span_at sp a) \<le> start_ns (span_at sp (L ! j))" using a PD(5) j k by auto
  qed
  ultimately show ?thesis by blast
qed

lemma thread_order_eq:
  "thread_order sp idxs = (let L = sort_key (\<lambda>i. start_ns (span_at sp i)) idxs in order_edges_upto sp L (length L))"
proof -
  define L where "L = sort_key (\<lambda>i. start_ns (span_at sp i)) idxs"
  have srt: "sorted (map (\<lambda>i. start_ns (span_at sp i)) L)" by (simp add: L_def)
  have "order_inv sp L k (fold (order_step sp) (take k L) ([], None, [])) \<and>
      snd (snd (fold (order_step sp) (take k L) ([], None, []))) = order_edges_upto sp L k" if "k \<le> length L" for k
    using that
  proof (induction k)
    case 0
    have "order_inv sp L 0 ([], None, [])" unfolding order_inv_def by (intro exI [of _ "{}"]) (simp add: is_best_def)
    then show ?case by (simp add: order_edges_upto_def)
  next
    case (Suc k)
    then have "order_inv sp L k (fold (order_step sp) (take k L) ([], None, []))"
      "snd (snd (fold (order_step sp) (take k L) ([], None, []))) = order_edges_upto sp L k" "k < length L" by simp_all
    then show ?case using order_step_inv [OF srt] by (simp add: take_Suc_conv_app_nth)
  qed
  from this [of "length L"] show ?thesis by (simp add: thread_order_def L_def Let_def)
qed

text \<open>The spans of one thread, in start order.\<close>

definition thread_spans :: "spans \<Rightarrow> int \<times> int \<Rightarrow> nat list" where
  "thread_spans sp k = sort_key (\<lambda>i. start_ns (span_at sp i))
     (map fst (filter (\<lambda>(i, s). on_thread s \<and> (pid s, tid s) = k) sp))"

lemma thread_lists_get:
  assumes "(k, idxs) \<in> set (thread_lists sp)"
  shows "idxs = map fst (filter (\<lambda>(i, s). on_thread s \<and> (pid s, tid s) = k) sp)"
proof -
  obtain ps where "(k, ps) \<in> set (group_by (\<lambda>(i, s). (pid s, tid s)) (filter (\<lambda>(i, s). on_thread s) sp))" "idxs = map fst ps"
    using assms by (auto simp: thread_lists_def)
  note p = this
  show ?thesis using group_by_entry(1) [OF p(1)] p(2) by (simp add: filter_filter case_prod_unfold)
qed

lemma thread_lists_keys: "fst ` set (thread_lists sp) = (\<lambda>(i, s). (pid s, tid s)) ` {(i, s) \<in> set sp. on_thread s}"
proof -
  have "fst ` set (thread_lists sp) = fst ` set (group_by (\<lambda>(i, s). (pid s, tid s)) (filter (\<lambda>(i, s). on_thread s) sp))"
    by (simp add: thread_lists_def image_image case_prod_unfold)
  then show ?thesis by (auto simp: case_prod_unfold)
qed

lemma thread_order_edge:
  shows "gated_by b a S_sequential Certain \<in> set (thread_order sp idxs) \<longleftrightarrow>
    (\<exists>j<length idxs. sort_key (\<lambda>i. start_ns (span_at sp i)) idxs ! j = b \<and>
       latest_completed sp (take j (sort_key (\<lambda>i. start_ns (span_at sp i)) idxs)) (start_ns (span_at sp b)) = Some a)"
proof -
  have one: "gated_by b a S_sequential Certain \<in> set (case x of None \<Rightarrow> [] | Some a' \<Rightarrow> [gated_by v a' S_sequential Certain]) \<longleftrightarrow>
      v = b \<and> x = Some a" for x v
    by (cases x) (auto simp: gated_by_def)
  show ?thesis unfolding thread_order_eq Let_def order_edges_upto_def set_concat set_map UN_iff image_image one by auto
qed

text \<open>
  C10. Program order: the predecessor of a span on its thread is, of the spans that started before
  it and ended by its start, the one that ended last (the outermost of those that end together),
  and a span has no predecessor exactly when there is none; device-side spans and annotation
  ranges take no part.
\<close>

theorem program_order_exact:
  "gated_by b a S_sequential Certain \<in> set (program_order_edges sp) \<longleftrightarrow>
    (\<exists>k j. j < length (thread_spans sp k) \<and> thread_spans sp k ! j = b \<and>
       latest_completed sp (take j (thread_spans sp k)) (start_ns (span_at sp b)) = Some a)"
proof -
  have e: "gated_by b a S_sequential Certain \<in> set (thread_order sp idxs) \<longleftrightarrow>
      (\<exists>j<length (thread_spans sp k). thread_spans sp k ! j = b \<and>
         latest_completed sp (take j (thread_spans sp k)) (start_ns (span_at sp b)) = Some a)"
    if "(k, idxs) \<in> set (thread_lists sp)" for k idxs
  proof -
    note g = thread_lists_get [OF that]
    have "thread_spans sp k = sort_key (\<lambda>i. start_ns (span_at sp i)) idxs" by (simp add: thread_spans_def g)
    then show ?thesis by (simp add: thread_order_edge)
  qed
  have "\<exists>idxs. (k, idxs) \<in> set (thread_lists sp)" if "j < length (thread_spans sp k)" for k j
  proof -
    have "filter (\<lambda>(i, s). on_thread s \<and> (pid s, tid s) = k) sp \<noteq> []" using that by (auto simp: thread_spans_def)
    then obtain i s where "(i, s) \<in> set sp" "on_thread s" "(pid s, tid s) = k" by (auto simp: filter_empty_conv)
    then have "k \<in> fst ` set (thread_lists sp)" unfolding thread_lists_keys by force
    then show ?thesis by force
  qed
  then show ?thesis unfolding program_order_edges_def using e by (force simp: case_prod_unfold)
qed

definition demo_thread :: spans where
  "demo_thread = List.enumerate 0
     [mk_span ''region'' OPENMP 0 100 1 7 [], mk_span ''a'' CPU 5 20 1 7 [], mk_span ''range'' NVTX 0 30 1 7 [],
      mk_span ''b'' CPU 30 10 1 7 [], mk_span ''c'' CPU 120 5 1 7 []]"

lemma program_order_exact_witness:
  "gated_by 3 1 S_sequential Certain \<in> set (program_order_edges demo_thread) \<and>
   (\<exists>k j. j < length (thread_spans demo_thread k) \<and> thread_spans demo_thread k ! j = 3 \<and>
     latest_completed demo_thread (take j (thread_spans demo_thread k)) (start_ns (span_at demo_thread 3)) = Some 1) \<and>
   program_order_edges demo_thread = [gated_by 3 1 S_sequential Certain, gated_by 4 0 S_sequential Certain]"
proof -
  have 2: "program_order_edges demo_thread = [gated_by 3 1 S_sequential Certain, gated_by 4 0 S_sequential Certain]" by code_simp
  then have 3: "gated_by 3 1 S_sequential Certain \<in> set (program_order_edges demo_thread)" by simp
  from program_order_exact [of 3 1 demo_thread] 2 3 show ?thesis by simp
qed

text \<open>Program order never leads back: a predecessor ended before its successor started.\<close>

lemma latest_completed_before:
  assumes "latest_completed sp as t = Some a"
  shows "a \<in> set as \<and> end_ns (span_at sp a) \<le> t"
proof -
  let ?xs = "filter (\<lambda>a. end_ns (span_at sp a) \<le> t) as"
  have ne: "?xs \<noteq> []" using assms by (auto simp: latest_completed_def split: list.splits)
  then have "a = snd (snd (Max (completion_key sp ` set ?xs)))" using latest_completed_Max [OF ne refl] assms by simp
  moreover have "Max (completion_key sp ` set ?xs) \<in> completion_key sp ` set ?xs" using ne by (intro Max_in) (auto simp: filter_empty_conv Bex_def)
  ultimately show ?thesis by (auto simp: completion_key_def)
qed

end
