(* ===== verification/Span_Links.thy ===== *)
theory Span_Links
  imports Program_Order
begin

text \<open>
  \<^verbatim>\<open>src/src/analysis/span_links.py\<close> and the explicit-id edges of
  \<^verbatim>\<open>src/src/analysis/criticalpath.py\<close>: which span a \<open>psid=\<close> names. Ids are looked up in the child's
  own process, several spans of one id are told apart by their hook family and time, and an id of
  another process is used only when exactly one process carries it.
\<close>

section \<open>Families\<close>

definition id_family :: "span_event \<Rightarrow> string" where
  "id_family s =
     (let cat = category_value (category s) in
      if cat = ''mpi'' then ''mpi''
      else if cat = ''nvtx'' \<or> tag_in s ''type'' [''nvtx_range'', ''nvtx_mark'', ''roctx_range'', ''roctx_mark''] then ''annotation''
      else if cat = ''openmp'' \<or> (cat = ''sync'' \<and> (prefix ''omp_'' (name s) \<or> prefix ''GOMP_'' (name s))) then ''openmp''
      else if cat \<in> {''cuda'', ''rocm'', ''opencl'', ''nccl'', ''memory'', ''sync''} then ''gpu''
      else cat)"

section \<open>The resolver\<close>

type_synonym 'a id_candidate = "int \<times> string \<times> 'a"
type_synonym 'a resolver = "(int \<times> string, 'a id_candidate list) dict"

definition res_add :: "int \<Rightarrow> string \<Rightarrow> int \<Rightarrow> string \<Rightarrow> 'a \<Rightarrow> 'a resolver \<Rightarrow> 'a resolver" where
  "res_add p sid start family value r = (if sid = [] then r else dict_append (p, sid) (start, family, value) r)"

definition add_span :: "span_event \<Rightarrow> 'a \<Rightarrow> 'a resolver \<Rightarrow> 'a resolver" where
  "add_span s value r = res_add (pid s) (span_id s) (start_ns s) (id_family s) value r"

definition ambiguous_ids :: "'a resolver \<Rightarrow> nat" where
  "ambiguous_ids r = length (filter (\<lambda>(k, c). length c > 1) r)"

definition in_family :: "string \<Rightarrow> 'a id_candidate list \<Rightarrow> 'a id_candidate list" where
  "in_family family cands = filter (\<lambda>c. fst (snd c) = family) cands"

definition resolve :: "'a resolver \<Rightarrow> int \<Rightarrow> string \<Rightarrow> int \<Rightarrow> string \<Rightarrow> 'a option" where
  "resolve r p parent start family =
     (case dict_get r (p, parent) [] of
        [] \<Rightarrow> None
      | [c] \<Rightarrow> Some (snd (snd c))
      | cands \<Rightarrow>
          (let pick = (if in_family family cands \<noteq> [] then in_family family cands else in_family ''annotation'' cands) in
           if length pick = 1 then Some (snd (snd (hd pick)))
           else map_option (\<lambda>c. snd (snd c)) (max_key fst (filter (\<lambda>c. fst c \<le> start) pick))))"

definition parent_of :: "'a resolver \<Rightarrow> span_event \<Rightarrow> string option \<Rightarrow> 'a option" where
  "parent_of r child parent =
     resolve r (pid child) (case parent of Some p \<Rightarrow> if p \<noteq> [] then p else parent_span_id child | None \<Rightarrow> parent_span_id child)
       (start_ns child) (id_family child)"

section \<open>The index of all processes\<close>

datatype id_entry = OneProcess int nat | Ambiguous

record id_index =
  ix_by_pid :: "nat resolver"
  ix_by_id :: "(string, id_entry) dict"

definition empty_index :: id_index where
  "empty_index = \<lparr>ix_by_pid = [], ix_by_id = []\<rparr>"

definition index_add :: "span_event \<Rightarrow> nat \<Rightarrow> id_index \<Rightarrow> id_index" where
  "index_add s i ix =
     ix\<lparr>ix_by_pid := add_span s i (ix_by_pid ix),
        ix_by_id := AList.update (span_id s)
          (case map_of (ix_by_id ix) (span_id s) of
             None \<Rightarrow> OneProcess (pid s) i
           | Some (OneProcess p _) \<Rightarrow> if p = pid s then OneProcess (pid s) i else Ambiguous
           | Some Ambiguous \<Rightarrow> Ambiguous) (ix_by_id ix)\<rparr>"

definition index_get :: "id_index \<Rightarrow> int \<Rightarrow> string \<Rightarrow> int \<Rightarrow> string \<Rightarrow> nat option" where
  "index_get ix p sid start family =
     (if map_of (ix_by_pid ix) (p, sid) \<noteq> None then resolve (ix_by_pid ix) p sid start family
      else case map_of (ix_by_id ix) sid of Some (OneProcess _ i) \<Rightarrow> Some i | _ \<Rightarrow> None)"

definition parse_multi :: "string \<Rightarrow> string list" where
  "parse_multi s = filter (\<lambda>v. v \<noteq> []) (split_on CHR '';'' s)"

definition index_step :: "nat \<times> span_event \<Rightarrow> id_index \<Rightarrow> id_index" where
  "index_step p ix =
     (let (i, s) = p in if span_id s \<noteq> [] \<and> \<not> is_annotation s then index_add s i ix else ix)"

definition span_id_index :: "spans \<Rightarrow> id_index" where
  "span_id_index sp = fold index_step sp empty_index"

definition explicit_edges_of :: "id_index \<Rightarrow> nat \<times> span_event \<Rightarrow> sedge list" where
  "explicit_edges_of ix p =
     (let (i, s) = p in
      if parent_span_id s = [] \<or> is_device_span s \<or> is_annotation s then []
      else concat (map (\<lambda>rid. case index_get ix (pid s) rid (start_ns s) (id_family s) of
             None \<Rightarrow> []
           | Some parent \<Rightarrow> if parent \<noteq> i then [gated_by i parent S_explicit_span_id Certain] else [])
         (parse_multi (parent_span_id s))))"

definition explicit_span_id_edges :: "spans \<Rightarrow> sedge list" where
  "explicit_span_id_edges sp = concat (map (explicit_edges_of (span_id_index sp)) sp)"

section \<open>What an id resolves to\<close>

text \<open>The spans that carry an id in a process, and those of one family.\<close>

definition carries :: "span_event \<Rightarrow> int \<Rightarrow> string \<Rightarrow> bool" where
  "carries s p sid \<longleftrightarrow> span_id s = sid \<and> pid s = p \<and> sid \<noteq> [] \<and> \<not> is_annotation s"

lemma index_by_pid_get:
  "dict_get (ix_by_pid (fold index_step xs ix)) (p, sid) [] = dict_get (ix_by_pid ix) (p, sid) [] @
     map (\<lambda>(i, s). (start_ns s, id_family s, i)) (filter (\<lambda>(i, s). carries s p sid) xs)"
proof (induction xs arbitrary: ix)
  case (Cons x xs)
  show ?case using Cons.IH [of "index_step x ix"]
    by (cases x) (auto simp: index_step_def index_add_def add_span_def res_add_def carries_def)
qed simp

lemma index_by_pid_key:
  "map_of (ix_by_pid (fold index_step xs ix)) (p, sid) \<noteq> None \<longleftrightarrow>
     map_of (ix_by_pid ix) (p, sid) \<noteq> None \<or> (\<exists>(i, s)\<in>set xs. carries s p sid)"
proof (induction xs arbitrary: ix)
  case (Cons x xs)
  show ?case using Cons.IH [of "index_step x ix"]
    by (cases x) (auto simp: index_step_def index_add_def add_span_def res_add_def carries_def dict_append_def update_conv' split: if_splits)
qed simp

lemma index_by_id_get:
  assumes "sid \<noteq> []"
  shows "(case map_of (ix_by_id (fold index_step xs empty_index)) sid of
      None \<Rightarrow> \<not> (\<exists>(i, s)\<in>set xs. \<exists>p. carries s p sid)
    | Some (OneProcess p i) \<Rightarrow> (\<exists>s. (i, s) \<in> set xs \<and> carries s p sid) \<and> (\<forall>(j, s)\<in>set xs. \<forall>q. carries s q sid \<longrightarrow> q = p)
    | Some Ambiguous \<Rightarrow> (\<exists>(i, s)\<in>set xs. \<exists>(j, s')\<in>set xs. carries s (pid s) sid \<and> carries s' (pid s') sid \<and> pid s \<noteq> pid s'))"
proof (induction xs rule: rev_induct)
  case (snoc x xs)
  obtain i s where x: "x = (i, s)" by fastforce
  let ?m = "map_of (ix_by_id (fold index_step xs empty_index)) sid"
  show ?case
  proof (cases "carries s (pid s) sid")
    case False
    then have "map_of (ix_by_id (fold index_step (xs @ [x]) empty_index)) sid = ?m"
      using assms by (auto simp: x index_step_def index_add_def carries_def update_conv')
    moreover have "\<not> carries s p sid" for p using False by (auto simp: carries_def)
    ultimately show ?thesis using snoc by (auto simp: x split: option.splits id_entry.splits)
  next
    case True
    then have c: "carries s p sid \<longleftrightarrow> p = pid s" for p by (auto simp: carries_def)
    have m: "map_of (ix_by_id (fold index_step (xs @ [x]) empty_index)) sid = Some (case ?m of
        None \<Rightarrow> OneProcess (pid s) i | Some (OneProcess p _) \<Rightarrow> if p = pid s then OneProcess (pid s) i else Ambiguous
      | Some Ambiguous \<Rightarrow> Ambiguous)"
      using True by (auto simp: x index_step_def index_add_def carries_def update_conv')
    show ?thesis
    proof (cases ?m)
      case None
      then show ?thesis using snoc m c by (auto simp: x)
    next
      case (Some e)
      show ?thesis
      proof (cases e)
        case Ambiguous
        then have "\<exists>(i, s)\<in>set xs. \<exists>(j, s')\<in>set xs. carries s (pid s) sid \<and> carries s' (pid s') sid \<and> pid s \<noteq> pid s'"
          using snoc Some by simp
        then show ?thesis using m Some Ambiguous by simp blast
      next
        case (OneProcess p j)
        then have old: "\<exists>s. (j, s) \<in> set xs \<and> carries s p sid" "\<forall>(j, s)\<in>set xs. \<forall>q. carries s q sid \<longrightarrow> q = p"
          using snoc Some by simp_all
        show ?thesis
        proof (cases "p = pid s")
          case True
          then show ?thesis using old m Some OneProcess c by (auto simp: x)
        next
          case False
          obtain s' where s': "(j, s') \<in> set xs" "carries s' p sid" using old(1) by blast
          then have "pid s' = p" by (simp add: carries_def)
          then show ?thesis using False m Some OneProcess s' \<open>carries s (pid s) sid\<close> by (fastforce simp: x)
        qed
      qed
    qed
  qed
qed (simp add: empty_index_def)

text \<open>The spans that can be named by an id.\<close>

definition carriers :: "spans \<Rightarrow> int \<Rightarrow> string \<Rightarrow> (nat \<times> span_event) list" where
  "carriers sp p sid = filter (\<lambda>(i, s). carries s p sid) sp"

lemma in_family_map:
  "in_family f (map (\<lambda>(i, s). (start_ns s, id_family s, i)) xs) =
     map (\<lambda>(i, s). (start_ns s, id_family s, i)) (filter (\<lambda>(i, s). id_family s = f) xs)"
  by (induction xs) (auto simp: in_family_def)

lemma resolve_sound:
  assumes r: "dict_get r (p, sid) [] = map (\<lambda>(i, s). (start_ns s, id_family s, i)) xs" and u: "resolve r p sid t f = Some u"
  shows "\<exists>s. (u, s) \<in> set xs \<and> (length xs = 1 \<or>
    ((id_family s = f \<or> (id_family s = ''annotation'' \<and> (\<forall>(i, x)\<in>set xs. id_family x \<noteq> f))) \<and>
     ((\<forall>(i, x)\<in>set xs. id_family x = id_family s \<longrightarrow> i = u) \<or>
      (start_ns s \<le> t \<and> (\<forall>(i, x)\<in>set xs. id_family x = id_family s \<and> start_ns x \<le> t \<longrightarrow> start_ns x \<le> start_ns s)))))"
proof (cases "length xs \<le> 1")
  case True
  then show ?thesis using assms by (cases xs) (auto simp: resolve_def)
next
  case False
  let ?g = "\<lambda>(i, s). (start_ns s, id_family s, i)"
  define fam where "fam = (if filter (\<lambda>(i, s). id_family s = f) xs \<noteq> [] then f else ''annotation'')"
  define pick where "pick = filter (\<lambda>(i, s). id_family s = fam) xs"
  have res: "resolve r p sid t f = (if length pick = 1 then Some (fst (hd pick))
      else map_option (\<lambda>c. snd (snd c)) (max_key fst (filter (\<lambda>c. fst c \<le> t) (map ?g pick))))"
  proof -
    have "(if in_family f (map ?g xs) \<noteq> [] then in_family f (map ?g xs) else in_family ''annotation'' (map ?g xs)) = map ?g pick"
      by (simp add: in_family_map pick_def fam_def)
    moreover have "snd (snd (hd (map ?g pick))) = fst (hd pick)" if "length pick = 1"
      using that by (cases pick) (auto simp: case_prod_unfold)
    ultimately show ?thesis using False r
      by (cases xs rule: remdups_adj.cases) (auto simp: resolve_def Let_def)
  qed
  have fam: "fam = f \<or> (fam = ''annotation'' \<and> (\<forall>(i, x)\<in>set xs. id_family x \<noteq> f))"
    by (auto simp: fam_def filter_empty_conv)
  show ?thesis
  proof (cases "length pick = 1")
    case True
    then obtain s where s: "pick = [(u, s)]" using res u by (auto simp: length_Suc_conv)
    then have "(u, s) \<in> set pick" by simp
    then have m: "(u, s) \<in> set xs" "id_family s = fam" by (auto simp: pick_def)
    have "i = u" if "(i, x) \<in> set xs" "id_family x = fam" for i x
    proof -
      have "(i, x) \<in> set pick" using that by (simp add: pick_def)
      then show ?thesis using s by simp
    qed
    then have "\<forall>(i, x)\<in>set xs. id_family x = id_family s \<longrightarrow> i = u" using m(2) by auto
    moreover have "id_family s = f \<or> (id_family s = ''annotation'' \<and> (\<forall>(i, x)\<in>set xs. id_family x \<noteq> f))" using fam m(2) by simp
    ultimately show ?thesis using m(1) by blast
  next
    case multi: False
    then obtain c where c: "max_key fst (filter (\<lambda>c. fst c \<le> t) (map ?g pick)) = Some c" "u = snd (snd c)"
      using res u by (cases "max_key fst (filter (\<lambda>c. fst c \<le> t) (map ?g pick))") auto
    note mx = max_key_Some [OF c(1)]
    then obtain x where x: "x \<in> set pick" "c = ?g x" "fst c \<le> t" by (auto simp del: set_map simp add: image_set [symmetric])
    obtain j s where j: "x = (j, s)" by fastforce
    then have s: "(u, s) \<in> set pick" "c = ?g (u, s)" "start_ns s \<le> t" using x c(2) by simp_all
    then have m: "(u, s) \<in> set xs" "id_family s = fam" by (auto simp: pick_def)
    have "start_ns x \<le> start_ns s" if "(i, x) \<in> set xs" "id_family x = fam" "start_ns x \<le> t" for i x
    proof -
      have "?g (i, x) \<in> set (filter (\<lambda>c. fst c \<le> t) (map ?g pick))" using that by (auto simp: pick_def intro!: image_eqI [of _ _ "(i, x)"])
      then show ?thesis using mx s(2) by fastforce
    qed
    then have "\<forall>(i, x)\<in>set xs. id_family x = id_family s \<and> start_ns x \<le> t \<longrightarrow> start_ns x \<le> start_ns s" using m(2) by auto
    moreover have "id_family s = f \<or> (id_family s = ''annotation'' \<and> (\<forall>(i, x)\<in>set xs. id_family x \<noteq> f))" using fam m(2) by simp
    ultimately show ?thesis using m(1) s(3) by blast
  qed
qed

lemma span_id_index_get:
  "dict_get (ix_by_pid (span_id_index sp)) (p, sid) [] = map (\<lambda>(i, s). (start_ns s, id_family s, i)) (carriers sp p sid)"
  unfolding span_id_index_def index_by_pid_get by (simp add: carriers_def empty_index_def)

section \<open>What an id stands for\<close>

text \<open>
  The spans a child's id may name: in its own process, the only carrier of the id, or of several one
  of the child's family (of the annotations, when the family has none) that is the only one of its
  family or the last one started by the child's start; when its own process has no carrier, one of
  the single process that has.
\<close>

definition named_by :: "spans \<Rightarrow> span_event \<Rightarrow> string \<Rightarrow> nat \<Rightarrow> bool" where
  "named_by sp child sid u \<longleftrightarrow>
     (let own = carriers sp (pid child) sid; f = id_family child; t = start_ns child in
      if own \<noteq> [] then
        (\<exists>s. (u, s) \<in> set own \<and> (length own = 1 \<or>
          ((id_family s = f \<or> (id_family s = ''annotation'' \<and> (\<forall>(i, x)\<in>set own. id_family x \<noteq> f))) \<and>
           ((\<forall>(i, x)\<in>set own. id_family x = id_family s \<longrightarrow> i = u) \<or>
            (start_ns s \<le> t \<and> (\<forall>(i, x)\<in>set own. id_family x = id_family s \<and> start_ns x \<le> t \<longrightarrow> start_ns x \<le> start_ns s))))))
      else \<exists>p s. (u, s) \<in> set (carriers sp p sid) \<and> (\<forall>q. carriers sp q sid \<noteq> [] \<longrightarrow> q = p))"

text \<open>
  An id names nothing: no process carries it, only several other processes do, or its own process
  carries it more than once and no carrier of the child's family had started.
\<close>

definition names_nothing :: "spans \<Rightarrow> span_event \<Rightarrow> string \<Rightarrow> bool" where
  "names_nothing sp child sid \<longleftrightarrow>
     (let own = carriers sp (pid child) sid in
      if own \<noteq> [] then
        1 < length own \<and> (\<forall>(i, x)\<in>set own. id_family x = id_family child \<longrightarrow> start_ns child < start_ns x)
      else \<forall>p. carriers sp p sid \<noteq> [] \<longrightarrow> (\<exists>q. q \<noteq> p \<and> carriers sp q sid \<noteq> []))"

lemma resolve_none:
  assumes r: "dict_get r (p, sid) [] = map (\<lambda>(i, s). (start_ns s, id_family s, i)) xs" and u: "resolve r p sid t f = None"
  shows "xs = [] \<or> (1 < length xs \<and> (\<forall>(i, x)\<in>set xs. id_family x = f \<longrightarrow> t < start_ns x))"
proof (cases "length xs \<le> 1")
  case True
  then show ?thesis using assms by (cases xs) (auto simp: resolve_def)
next
  case False
  let ?g = "\<lambda>(i, s). (start_ns s, id_family s, i)"
  have "t < start_ns x" if x: "(i, x) \<in> set xs" "id_family x = f" for i x
  proof (rule ccontr)
    assume "\<not> t < start_ns x"
    let ?pick = "in_family f (map ?g xs)"
    have m: "?g (i, x) \<in> set ?pick" using x by (force simp: in_family_def)
    then have ne: "?pick \<noteq> []" by auto
    have "?g (i, x) \<in> set (filter (\<lambda>c. fst c \<le> t) ?pick)" using m \<open>\<not> t < start_ns x\<close> by simp
    then have "filter (\<lambda>c. fst c \<le> t) ?pick \<noteq> []" by (metis empty_iff list.set(1))
    then have "max_key fst (filter (\<lambda>c. fst c \<le> t) ?pick) \<noteq> None" by (cases "filter (\<lambda>c. fst c \<le> t) ?pick") simp_all
    then show False using u False r ne
      by (cases xs rule: remdups_adj.cases) (auto simp: resolve_def Let_def split: if_splits)
  qed
  then show ?thesis using False by auto
qed

lemma index_get_named:
  assumes sid: "sid \<noteq> []"
  shows "case index_get (span_id_index sp) (pid child) sid (start_ns child) (id_family child) of
      None \<Rightarrow> names_nothing sp child sid | Some u \<Rightarrow> named_by sp child sid u"
proof -
  let ?ix = "span_id_index sp" and ?own = "carriers sp (pid child) sid"
  have key: "map_of (ix_by_pid ?ix) (pid child, sid) \<noteq> None \<longleftrightarrow> ?own \<noteq> []"
    unfolding span_id_index_def index_by_pid_key by (auto simp: carriers_def filter_empty_conv empty_index_def)
  show ?thesis
  proof (cases "?own = []")
    case False
    then have get: "index_get ?ix (pid child) sid (start_ns child) (id_family child) =
        resolve (ix_by_pid ?ix) (pid child) sid (start_ns child) (id_family child)"
      using key by (simp add: index_get_def)
    show ?thesis
    proof (cases "resolve (ix_by_pid ?ix) (pid child) sid (start_ns child) (id_family child)")
      case None
      from resolve_none [OF span_id_index_get None] show ?thesis
        using False by (simp add: get None names_nothing_def Let_def)
    next
      case (Some u)
      from resolve_sound [OF span_id_index_get Some] show ?thesis
        using False by (simp add: get Some named_by_def Let_def)
    qed
  next
    case True
    then have get: "index_get ?ix (pid child) sid (start_ns child) (id_family child) =
        (case map_of (ix_by_id ?ix) sid of Some (OneProcess _ i) \<Rightarrow> Some i | _ \<Rightarrow> None)"
      using key by (simp add: index_get_def)
    have carry: "carriers sp p sid \<noteq> [] \<longleftrightarrow> (\<exists>(j, s)\<in>set sp. carries s p sid)" for p
      by (auto simp: carriers_def filter_empty_conv)
    note spec = index_by_id_get [OF sid, of sp, folded span_id_index_def]
    show ?thesis
    proof (cases "map_of (ix_by_id ?ix) sid")
      case None
      then have "\<not> (\<exists>(i, s)\<in>set sp. \<exists>p. carries s p sid)" using spec by simp
      then have "carriers sp p sid = []" for p using carry [of p] by blast
      then show ?thesis by (simp add: get None names_nothing_def Let_def)
    next
      case (Some e)
      show ?thesis
      proof (cases e)
        case (OneProcess p u)
        then have u: "\<exists>s. (u, s) \<in> set sp \<and> carries s p sid" "\<forall>(j, s)\<in>set sp. \<forall>q. carries s q sid \<longrightarrow> q = p"
          using spec Some by simp_all
        obtain s where "(u, s) \<in> set (carriers sp p sid)" using u(1) by (auto simp: carriers_def)
        moreover have "\<forall>q. carriers sp q sid \<noteq> [] \<longrightarrow> q = p" using u(2) carry by blast
        ultimately show ?thesis using True by (auto simp: get Some OneProcess named_by_def Let_def)
      next
        case Ambiguous
        then have "\<exists>(i, s)\<in>set sp. \<exists>(j, s')\<in>set sp. carries s (pid s) sid \<and> carries s' (pid s') sid \<and> pid s \<noteq> pid s'"
          using spec Some by simp
        then obtain i s j s' where a: "(i, s) \<in> set sp" "carries s (pid s) sid" "(j, s') \<in> set sp" "carries s' (pid s') sid" "pid s \<noteq> pid s'"
          by blast
        have "carriers sp (pid s) sid \<noteq> []" "carriers sp (pid s') sid \<noteq> []"
          unfolding carry using a(1-4) by blast+
        then have "\<exists>q. q \<noteq> p \<and> carriers sp q sid \<noteq> []" for p using a(5) by metis
        then show ?thesis using True by (simp add: get Some Ambiguous names_nothing_def Let_def)
      qed
    qed
  qed
qed

text \<open>
  C37. An id never leads to an unrelated span: the explicit edges of a child are, for each of its
  parent ids in their order, one from the span the id names, and none exactly where the id names
  nothing or the child itself; what an id names is a span that carries it, of the child's
  process and hook family whenever these exist.
\<close>

theorem explicit_edge_sound:
  assumes "\<not> is_device_span child" "\<not> is_annotation child"
  shows "\<exists>us. length us = length (parse_multi (parent_span_id child)) \<and>
    explicit_edges_of (span_id_index sp) (i, child) =
      concat (map (\<lambda>u. if u = None \<or> u = Some i then [] else [gated_by i (the u) S_explicit_span_id Certain]) us) \<and>
    (\<forall>k<length us. case us ! k of
        None \<Rightarrow> names_nothing sp child (parse_multi (parent_span_id child) ! k)
      | Some u \<Rightarrow> named_by sp child (parse_multi (parent_span_id child) ! k) u)"
proof -
  let ?ids = "parse_multi (parent_span_id child)"
  let ?get = "\<lambda>sid. index_get (span_id_index sp) (pid child) sid (start_ns child) (id_family child)"
  have "explicit_edges_of (span_id_index sp) (i, child) =
      concat (map (\<lambda>u. if u = None \<or> u = Some i then [] else [gated_by i (the u) S_explicit_span_id Certain]) (map ?get ?ids))"
  proof (cases "parent_span_id child = []")
    case True
    then have "?ids = []" by (simp add: parse_multi_def split_on_def)
    then show ?thesis using True by (simp add: explicit_edges_of_def)
  next
    case False
    have "(case x of None \<Rightarrow> [] | Some u \<Rightarrow> if u \<noteq> i then [gated_by i u S_explicit_span_id Certain] else []) =
        (if x = None \<or> x = Some i then [] else [gated_by i (the x) S_explicit_span_id Certain])" for x
      by (cases x) simp_all
    then show ?thesis using False assms by (simp add: explicit_edges_of_def comp_def)
  qed
  moreover have "case ?get (?ids ! k) of None \<Rightarrow> names_nothing sp child (?ids ! k) | Some u \<Rightarrow> named_by sp child (?ids ! k) u"
    if "k < length ?ids" for k
  proof (rule index_get_named)
    show "?ids ! k \<noteq> []" using nth_mem [OF that] by (auto simp: parse_multi_def)
  qed
  ultimately show ?thesis by (intro exI [of _ "map ?get ?ids"]) simp
qed

text \<open>An id that two hooks give, one of another process and one that nothing carries.\<close>

definition demo_ids :: spans where
  "demo_ids = List.enumerate 0
     [(mk_span ''MPI_Isend'' MPI 0 5 1 7 [(''type'', ''isend'')])\<lparr>span_id := ''3''\<rparr>,
      (mk_span ''cudaLaunchKernel'' GPU_CUDA 2 5 1 7 [])\<lparr>span_id := ''3''\<rparr>,
      (mk_span ''MPI_Isend'' MPI 0 5 2 7 [])\<lparr>span_id := ''4''\<rparr>,
      (mk_span ''MPI_Waitall'' MPI 9 5 1 7 [])\<lparr>parent_span_id := ''3;5;4''\<rparr>]"

lemma explicit_edge_sound_witness:
  "explicit_edges_of (span_id_index demo_ids) (3, span_at demo_ids 3) =
     [gated_by 3 0 S_explicit_span_id Certain, gated_by 3 2 S_explicit_span_id Certain] \<and>
   (\<exists>us. length us = 3 \<and> (\<forall>k<3. case us ! k of
        None \<Rightarrow> names_nothing demo_ids (span_at demo_ids 3) ([''3'', ''5'', ''4''] ! k)
      | Some u \<Rightarrow> named_by demo_ids (span_at demo_ids 3) ([''3'', ''5'', ''4''] ! k) u))"
proof -
  have 1: "\<not> is_device_span (span_at demo_ids 3)" "\<not> is_annotation (span_at demo_ids 3)" by code_simp+
  have 2: "parse_multi (parent_span_id (span_at demo_ids 3)) = [''3'', ''5'', ''4'']" by code_simp
  have 3: "explicit_edges_of (span_id_index demo_ids) (3, span_at demo_ids 3) =
      [gated_by 3 0 S_explicit_span_id Certain, gated_by 3 2 S_explicit_span_id Certain]" by code_simp
  from explicit_edge_sound [OF 1, of demo_ids 3, unfolded 2] obtain us where us: "length us = length [''3'', ''5'', ''4'']"
    "\<forall>k<length us. case us ! k of None \<Rightarrow> names_nothing demo_ids (span_at demo_ids 3) ([''3'', ''5'', ''4''] ! k)
      | Some u \<Rightarrow> named_by demo_ids (span_at demo_ids 3) ([''3'', ''5'', ''4''] ! k) u" by blast
  have l: "length us = 3" using us(1) by simp
  show ?thesis using 3 us(2) unfolding l by (intro conjI exI [of _ us] l)
qed

end
