(* ===== verification/P2p_Matching.thy ===== *)
theory P2p_Matching
  imports Span_Links
begin

text \<open>
  \<^verbatim>\<open>src/src/analysis/criticalpath.py\<close>, \<open>_P2PMatcher\<close>: MPI messages are paired with receives by
  channel (sender, receiver, tag, communicator) in posting order. The matcher collects the MPI
  spans in order and then computes the edges and its diagnostics. A tag that is missing is None;
  the diagnostics the code leaves out when they are zero or empty are 0 and [] here. The one-time
  warning on the terminal is left out.
\<close>

section \<open>Parsing\<close>

text \<open>\<open>rmatches=<req>/<peer>/<tag>;...\<close> and \<open>rwmatches=<req>/<world source>;...\<close>.\<close>

definition parse_rmatches :: "string \<Rightarrow> (string, string \<times> string) dict" where
  "parse_rmatches s =
     fold (\<lambda>e out. case split_on CHR ''/'' e of [r, p, t] \<Rightarrow> AList.update r (p, t) out | _ \<Rightarrow> out) (parse_multi s) []"

definition parse_rwmatches :: "string \<Rightarrow> (string, string) dict" where
  "parse_rwmatches s =
     fold (\<lambda>e out. case split_on CHR ''/'' e of [r, w] \<Rightarrow> AList.update r w out | _ \<Rightarrow> out) (parse_multi s) []"

definition P2P_SEND_TYPES :: "string list" where
  "P2P_SEND_TYPES = [''send'', ''isend'', ''ssend'', ''bsend'', ''rsend'', ''issend'', ''ibsend'', ''irsend'']"

definition PERSISTENT_TYPES :: "string list" where
  "PERSISTENT_TYPES = [''send_init'', ''bsend_init'', ''ssend_init'', ''rsend_init'', ''recv_init'']"

definition MPI_WAIT_NAMES :: "string list" where
  "MPI_WAIT_NAMES = [''MPI_Wait'', ''MPI_Waitall'', ''MPI_Waitany'', ''MPI_Waitsome'']"

section \<open>What is collected\<close>

text \<open>Processes that lost events: some, or possibly any.\<close>

datatype loss = LossPids "int list" | AllProcesses

definition any_loss :: "loss \<Rightarrow> bool" where
  "any_loss l \<longleftrightarrow> l \<noteq> LossPids []"

definition lossy :: "loss \<Rightarrow> int list \<Rightarrow> bool" where
  "lossy l ps = (case l of AllProcesses \<Rightarrow> True | LossPids qs \<Rightarrow> (\<exists>p\<in>set ps. p \<in> set qs))"

record exact_facts =
  x_complete :: "int list"
  x_tainted :: "(int \<times> string) list"

type_synonym request = "int \<times> string"

record msg =
  ms_idx :: nat
  ms_start :: int
  ms_req :: "request option"
  ms_wild :: bool
  ms_rank :: "string option"
  ms_peer :: "string option"
  ms_wpeer :: "string option"
  ms_tag :: "string option"
  ms_comm :: "string option"

record matcher =
  mt_lossy :: loss
  mt_exact :: "exact_facts option"
  mt_pid_of :: "(nat, int) dict"
  mt_sends :: "msg list"
  mt_blocking :: "msg list"
  mt_irecvs :: "msg list"
  mt_completers :: "(request, nat \<times> string option \<times> string option \<times> string option) dict"
  mt_cancelled :: "request list"
  mt_world :: bool

definition new_matcher :: "loss \<Rightarrow> exact_facts option \<Rightarrow> matcher" where
  "new_matcher l x = \<lparr>mt_lossy = l, mt_exact = x, mt_pid_of = [], mt_sends = [], mt_blocking = [], mt_irecvs = [],
     mt_completers = [], mt_cancelled = [], mt_world = False\<rparr>"

text \<open>\<open>str(tags.get("commid"))\<close>.\<close>

definition comm_text :: "string option \<Rightarrow> string" where
  "comm_text c = (case c of None \<Rightarrow> ''None'' | Some s \<Rightarrow> s)"

definition call_type :: "span_event \<Rightarrow> string" where
  "call_type s =
     (let t = dict_get (tags s) ''type'' [] in
      if t = ''start'' then
        dict_get [(''send'', ''isend''), (''recv'', ''irecv'')] (dict_get (tags s) ''ptype'' []) []
      else t)"

definition mk_msg :: "nat \<Rightarrow> span_event \<Rightarrow> msg" where
  "mk_msg i s = \<lparr>ms_idx = i, ms_start = start_ns s, ms_req = (if span_id s \<noteq> [] then Some (pid s, span_id s) else None),
     ms_wild = tag_is s ''wildcard'' ''1'', ms_rank = tag s ''rank'', ms_peer = tag s ''peer'', ms_wpeer = tag s ''wpeer'',
     ms_tag = tag s ''tag'', ms_comm = tag s ''commid''\<rparr>"

definition note_facts :: "nat \<Rightarrow> span_event \<Rightarrow> matcher \<Rightarrow> matcher" where
  "note_facts i s m =
     m\<lparr>mt_pid_of := (if any_loss (mt_lossy m) \<or> mt_exact m \<noteq> None then AList.update i (pid s) (mt_pid_of m) else mt_pid_of m),
       mt_exact := map_option (\<lambda>x. if dict_get (tags s) ''type'' [] \<in> set PERSISTENT_TYPES
           then x\<lparr>x_tainted := List.insert (pid s, case tag s ''commid'' of None \<Rightarrow> ''*'' | Some c \<Rightarrow> c) (x_tainted x)\<rparr> else x)
         (mt_exact m),
       mt_world := (mt_world m \<or> tag s ''wpeer'' \<noteq> None \<or> tag s ''rwpeer'' \<noteq> None \<or> tag s ''rwmatches'' \<noteq> None)\<rparr>"

definition note_message :: "nat \<Rightarrow> span_event \<Rightarrow> matcher \<Rightarrow> matcher" where
  "note_message i s m =
     (let t = call_type s; live = (\<not> tag_is s ''null'' ''1'') in
      if t \<in> set P2P_SEND_TYPES \<and> tag s ''peer'' \<noteq> None \<and> live then m\<lparr>mt_sends := mt_sends m @ [mk_msg i s]\<rparr>
      else if t = ''recv'' \<and> tag s ''peer'' \<noteq> None \<and> live then m\<lparr>mt_blocking := mt_blocking m @ [mk_msg i s]\<rparr>
      else if t = ''irecv'' \<and> span_id s \<noteq> [] \<and> live then m\<lparr>mt_irecvs := mt_irecvs m @ [mk_msg i s]\<rparr>
      else m)"

definition complete_request :: "nat \<Rightarrow> span_event \<Rightarrow> string list \<Rightarrow> string \<Rightarrow> matcher \<Rightarrow> matcher" where
  "complete_request i s ids r m =
     (let rmatches = (case tag s ''rmatches'' of None \<Rightarrow> [] | Some v \<Rightarrow> parse_rmatches v);
          rw = (case tag s ''rwmatches'' of None \<Rightarrow> [] | Some v \<Rightarrow> parse_rwmatches v);
          set_to = (\<lambda>c. m\<lparr>mt_completers := AList.update (pid s, r) c (mt_completers m)\<rparr>)
      in case map_of rmatches r of
           Some (peer, t) \<Rightarrow> set_to (i, Some peer, Some t, map_of rw r)
         | None \<Rightarrow>
             if length ids = 1 \<and> tag s ''rpeer'' \<noteq> None then set_to (i, tag s ''rpeer'', tag s ''rtag'', tag s ''rwpeer'')
             else if map_of (mt_completers m) (pid s, r) = None then set_to (i, None, None, None)
             else m)"

definition note_completion :: "nat \<Rightarrow> span_event \<Rightarrow> matcher \<Rightarrow> matcher" where
  "note_completion i s m =
     (if name s \<in> set MPI_WAIT_NAMES \<and> parent_span_id s \<noteq> [] then
        (let ids = parse_multi (parent_span_id s);
             gone = (case tag s ''cpsid'' of
                Some v \<Rightarrow> map (Pair (pid s)) (parse_multi v)
              | None \<Rightarrow> if tag_is s ''cancelled'' ''1'' \<and> length ids = 1 then [(pid s, hd ids)] else [])
         in fold (complete_request i s ids) ids (m\<lparr>mt_cancelled := fold List.insert gone (mt_cancelled m)\<rparr>))
      else m)"

definition matcher_add :: "nat \<Rightarrow> span_event \<Rightarrow> matcher \<Rightarrow> matcher" where
  "matcher_add i s m = note_completion i s (note_message i s (note_facts i s m))"

section \<open>Pairing\<close>

type_synonym channel = "string option \<times> string option \<times> string option \<times> string option"

record p2p_diag =
  dg_world :: bool
  dg_legacy :: bool
  dg_exact_high :: int
  dg_after_loss :: int
  dg_receives :: int
  dg_matched :: int
  dg_unmatched :: "(string, int) dict"
  dg_unkeyed :: "(string, int) dict"
  dg_cancelled :: int
  dg_unfinished :: int

text \<open>\<open>world_of\<close>: without \<open>wpeer\<close> the local rank is the world rank on communicator 0 only.\<close>

definition world_of :: "string option \<Rightarrow> string option \<Rightarrow> string option \<Rightarrow> string option" where
  "world_of w local comm = (if w \<noteq> None then w else if comm = Some ''0'' then local else None)"

text \<open>The channel of a send; None when a world rank is unknown.\<close>

definition send_channel :: "bool \<Rightarrow> msg \<Rightarrow> channel option" where
  "send_channel world m =
     (if world then
        (let dst = world_of (ms_wpeer m) (ms_peer m) (ms_comm m) in
         if ms_rank m \<noteq> None \<and> dst \<noteq> None then Some (ms_rank m, dst, ms_tag m, ms_comm m) else None)
      else Some (ms_rank m, ms_peer m, ms_tag m, None))"

definition is_cancelled :: "matcher \<Rightarrow> msg \<Rightarrow> bool" where
  "is_cancelled m s \<longleftrightarrow> (case ms_req s of None \<Rightarrow> False | Some r \<Rightarrow> r \<in> set (mt_cancelled m))"

definition channel_sends :: "matcher \<Rightarrow> channel \<Rightarrow> (int \<times> nat) list" where
  "channel_sends m key =
     map (\<lambda>s. (ms_start s, ms_idx s))
       (filter (\<lambda>s. \<not> is_cancelled m s \<and> send_channel (mt_world m) s = Some key) (mt_sends m))"

record recv_event =
  rv_key :: channel
  rv_order :: int
  rv_target :: nat
  rv_conf :: conf
  rv_comm :: "string option"

text \<open>A receive: an event, one that cannot be keyed, one never completed by a wait, or nothing.\<close>

datatype recv_kind = Received recv_event | Unkeyed "string option" | Unfinished | Cancelled | NoPeer

definition receive_at :: "bool \<Rightarrow> msg \<Rightarrow> nat \<Rightarrow> conf \<Rightarrow> string option \<Rightarrow> string option \<Rightarrow> string option \<Rightarrow> recv_kind" where
  "receive_at world m target c src_local src_tag src_world =
     (if world then
        (let sw = world_of src_world src_local (ms_comm m) in
         if sw = None then Unkeyed (ms_comm m)
         else Received \<lparr>rv_key = (sw, ms_rank m, src_tag, ms_comm m), rv_order = ms_start m, rv_target = target, rv_conf = c,
                rv_comm = ms_comm m\<rparr>)
      else Received \<lparr>rv_key = (src_local, ms_rank m, src_tag, None), rv_order = ms_start m, rv_target = target, rv_conf = c,
             rv_comm = ms_comm m\<rparr>)"

definition blocking_kind :: "bool \<Rightarrow> msg \<Rightarrow> recv_kind" where
  "blocking_kind world m = receive_at world m (ms_idx m) (if ms_wild m then High else Medium) (ms_peer m) (ms_tag m) (ms_wpeer m)"

definition irecv_kind :: "matcher \<Rightarrow> msg \<Rightarrow> recv_kind" where
  "irecv_kind mt m =
     (if is_cancelled mt m then Cancelled
      else case map_of (mt_completers mt) (the (ms_req m)) of
        None \<Rightarrow> Unfinished
      | Some (target, rpeer, rtag, rwpeer) \<Rightarrow>
          if ms_wild m then
            (if rpeer = None then Unfinished else receive_at (mt_world mt) m target High rpeer rtag rwpeer)
          else if ms_peer m = None then NoPeer
          else receive_at (mt_world mt) m target Medium (ms_peer m) (ms_tag m) (ms_wpeer m))"

definition recv_kinds :: "matcher \<Rightarrow> recv_kind list" where
  "recv_kinds m = map (blocking_kind (mt_world m)) (mt_blocking m) @ map (irecv_kind m) (mt_irecvs m)"

definition recv_events :: "matcher \<Rightarrow> recv_event list" where
  "recv_events m = concat (map (\<lambda>k. case k of Received r \<Rightarrow> [r] | _ \<Rightarrow> []) (recv_kinds m))"

definition count_text :: "string list \<Rightarrow> (string, int) dict" where
  "count_text cs = fold (\<lambda>c. dict_add c 1) cs []"

definition unkeyed_comms :: "matcher \<Rightarrow> string list" where
  "unkeyed_comms m =
     map (\<lambda>s. comm_text (ms_comm s)) (filter (\<lambda>s. \<not> is_cancelled m s \<and> send_channel (mt_world m) s = None) (mt_sends m))
     @ concat (map (\<lambda>k. case k of Unkeyed c \<Rightarrow> [comm_text c] | _ \<Rightarrow> []) (recv_kinds m))"

definition cancelled_comms :: "matcher \<Rightarrow> string list" where
  "cancelled_comms m = map (\<lambda>s. comm_text (ms_comm s)) (filter (is_cancelled m) (mt_sends m))"

definition pid_at :: "matcher \<Rightarrow> nat \<Rightarrow> int" where
  "pid_at m i = dict_get (mt_pid_of m) i (-1)"

text \<open>The opt-in rule that grades an exact match of a completely captured channel "high".\<close>

definition exactly_captured :: "matcher \<Rightarrow> nat \<Rightarrow> recv_event \<Rightarrow> bool" where
  "exactly_captured m src r =
     (case mt_exact m of
        None \<Rightarrow> False
      | Some x \<Rightarrow>
          (let c = comm_text (rv_comm r); sp = pid_at m src; rp = pid_at m (rv_target r) in
           c \<notin> set (cancelled_comms m) \<and> c \<noteq> ''-1'' \<and> sp \<in> set (x_complete x) \<and> rp \<in> set (x_complete x)
           \<and> (\<forall>t\<in>{(sp, c), (rp, c), (sp, ''*''), (rp, ''*'')}. t \<notin> set (x_tainted x))))"

definition grade :: "matcher \<Rightarrow> bool \<Rightarrow> nat \<Rightarrow> recv_event \<Rightarrow> conf \<times> bool \<times> bool" where
  "grade m whole src r =
     (let exact = (whole \<and> rv_conf r = Medium \<and> exactly_captured m src r);
          lost = (any_loss (mt_lossy m) \<and> lossy (mt_lossy m) [pid_at m (rv_target r), pid_at m src])
      in (if lost then Low else if exact then High else rv_conf r, exact, lost))"

record paired =
  pr_edges :: "sedge list"
  pr_exact :: int
  pr_lost :: int
  pr_unmatched :: "(string, int) dict"

definition pair_step :: "matcher \<Rightarrow> bool \<Rightarrow> nat list \<Rightarrow> nat \<times> recv_event \<Rightarrow> paired \<Rightarrow> paired" where
  "pair_step m whole srcs p out =
     (let (k, r) = p in
      if k < length srcs then
        (let (c, exact, lost) = grade m whole (srcs ! k) r in
         out\<lparr>pr_edges := pr_edges out @ [gated_by (rv_target r) (srcs ! k) S_p2p c],
             pr_exact := pr_exact out + (if exact then 1 else 0),
             pr_lost := pr_lost out + (if lost then 1 else 0)\<rparr>)
      else out\<lparr>pr_unmatched := dict_add (comm_text (rv_comm r)) 1 (pr_unmatched out)\<rparr>)"

definition posted :: "recv_event list \<Rightarrow> recv_event list" where
  "posted rs = sort_key rv_order rs"

definition sent :: "matcher \<Rightarrow> channel \<Rightarrow> nat list" where
  "sent m key = map snd (sort_key fst (channel_sends m key))"

definition pair_channel :: "matcher \<Rightarrow> channel \<times> recv_event list \<Rightarrow> paired \<Rightarrow> paired" where
  "pair_channel m p out =
     (let (key, rs) = p;
          whole = (mt_exact m \<noteq> None \<and> mt_world m \<and> length (sent m key) = length rs)
      in fold (pair_step m whole (sent m key)) (List.enumerate 0 (posted rs)) out)"

definition pair_all :: "matcher \<Rightarrow> paired" where
  "pair_all m =
     fold (pair_channel m) (group_by rv_key (recv_events m))
       \<lparr>pr_edges = [], pr_exact = 0, pr_lost = 0, pr_unmatched = count_text (unkeyed_comms m)\<rparr>"

definition matcher_edges :: "matcher \<Rightarrow> sedge list \<times> p2p_diag" where
  "matcher_edges m =
     (let out = pair_all m in
      (pr_edges out,
       \<lparr>dg_world = mt_world m,
        dg_legacy = (\<not> mt_world m \<and> (mt_sends m \<noteq> [] \<or> mt_blocking m \<noteq> [] \<or> mt_irecvs m \<noteq> [])),
        dg_exact_high = pr_exact out, dg_after_loss = pr_lost out,
        dg_receives = int (length (recv_events m)) + int (length (unkeyed_comms m)),
        dg_matched = int (length (pr_edges out)),
        dg_unmatched = sort (pr_unmatched out), dg_unkeyed = sort (count_text (unkeyed_comms m)),
        dg_cancelled = int (length (filter (is_cancelled m) (mt_sends m))) + int (length (filter (is_cancelled m) (mt_irecvs m))),
        dg_unfinished = int (length (filter (\<lambda>k. k = Unfinished) (recv_kinds m)))\<rparr>))"

definition mpi_matcher :: "spans \<Rightarrow> loss \<Rightarrow> exact_facts option \<Rightarrow> matcher" where
  "mpi_matcher sp l x =
     fold (\<lambda>(i, s) m. if category_value (category s) = ''mpi'' then matcher_add i s m else m) sp (new_matcher l x)"

definition mpi_p2p_edges :: "spans \<Rightarrow> loss \<Rightarrow> exact_facts option \<Rightarrow> sedge list \<times> p2p_diag" where
  "mpi_p2p_edges sp l x = matcher_edges (mpi_matcher sp l x)"

section \<open>Diagnostics of a trace\<close>

definition exact_capture_facts :: "counter_event list \<Rightarrow> instant_event list \<Rightarrow> exact_facts" where
  "exact_capture_facts ks is =
     \<lparr>x_complete = remdups (map k_pid (filter (\<lambda>c. k_name c = ''mpi_p2p_capture_complete'' \<and> k_value c = 1) ks)),
      x_tainted = remdups (map (\<lambda>i. (i_pid i, dict_get (i_tags i) ''commid'' ''*''))
        (filter (\<lambda>i. category_value (i_category i) = ''mpi'' \<and> i_name i \<in> {''MPI_Mprobe'', ''MPI_Improbe''}) is))\<rparr>"

record mpi_diag =
  md_p2p :: p2p_diag
  md_test_only :: nat
  md_orphans :: nat

definition wait_ids :: "span_event \<Rightarrow> string list" where
  "wait_ids s = (if parent_span_id s \<noteq> [] then parse_multi (parent_span_id s) else [])"

definition test_done :: "instant_event \<Rightarrow> request list" where
  "test_done ev =
     (let t = map_of (i_tags ev) in
      if i_name ev \<notin> {''MPI_Test'', ''MPI_Testany'', ''MPI_Testsome'', ''MPI_Testall''} then []
      else if i_name ev \<in> {''MPI_Test'', ''MPI_Testany'', ''MPI_Testall''} \<and> t ''flag'' \<noteq> Some ''1'' then []
      else case t ''psid'' of None \<Rightarrow> [] | Some v \<Rightarrow> map (Pair (i_pid ev)) (parse_multi v))"

text \<open>None stands for the empty dictionary of a trace without MPI messages.\<close>

definition mpi_dependency_diagnostics ::
    "span_event list \<Rightarrow> instant_event list \<Rightarrow> loss \<Rightarrow> exact_facts option \<Rightarrow> mpi_diag option" where
  "mpi_dependency_diagnostics spans instants l x =
     (let mpi = filter (\<lambda>s. category_value (category s) = ''mpi'') spans;
          m = fold (\<lambda>(i, s). matcher_add i s) (List.enumerate 0 mpi) (new_matcher l x);
          posts = map (\<lambda>s. (pid s, span_id s)) (filter (\<lambda>s. span_id s \<noteq> []) mpi);
          waits = filter (\<lambda>s. name s \<in> set MPI_WAIT_NAMES) mpi;
          orphan = length (filter (\<lambda>s. wait_ids s = [] \<and> \<not> tag_is s ''completed_index'' ''none'') waits);
          completed = remdups (concat (map (\<lambda>s. map (Pair (pid s)) (wait_ids s)) waits));
          tested = remdups (concat (map test_done instants));
          test_only = length (filter (\<lambda>r. r \<notin> set completed) tested);
          unknown = length (filter (\<lambda>r. r \<notin> set posts) completed)
      in if mpi = [] \<or> (mt_sends m = [] \<and> mt_blocking m = [] \<and> mt_irecvs m = [] \<and> orphan = 0 \<and> unknown = 0 \<and> test_only = 0)
         then None
         else Some \<lparr>md_p2p = snd (matcher_edges m), md_test_only = test_only, md_orphans = orphan + unknown\<rparr>)"

section \<open>Messages do not overtake each other\<close>

lemma pair_step_edges:
  "pr_edges (fold (pair_step m whole srcs) xs out) = pr_edges out @
     map (\<lambda>(k, r). gated_by (rv_target r) (srcs ! k) S_p2p (fst (grade m whole (srcs ! k) r))) (filter (\<lambda>(k, r). k < length srcs) xs)"
proof (induction xs arbitrary: out)
  case (Cons x xs)
  then show ?case by (cases x) (auto simp: pair_step_def split: prod.splits)
qed simp

text \<open>The edges of one channel: the k-th receive with the k-th send.\<close>

definition channel_edges :: "matcher \<Rightarrow> channel \<Rightarrow> recv_event list \<Rightarrow> sedge list" where
  "channel_edges m key rs =
     (let whole = (mt_exact m \<noteq> None \<and> mt_world m \<and> length (sent m key) = length rs) in
      map (\<lambda>(k, r). gated_by (rv_target r) (sent m key ! k) S_p2p (fst (grade m whole (sent m key ! k) r)))
        (filter (\<lambda>(k, r). k < length (sent m key)) (List.enumerate 0 (posted rs))))"

lemma pair_all_edges: "pr_edges (pair_all m) = concat (map (\<lambda>(key, rs). channel_edges m key rs) (group_by rv_key (recv_events m)))"
proof -
  have "pr_edges (fold (pair_channel m) xs out) = pr_edges out @ concat (map (\<lambda>(key, rs). channel_edges m key rs) xs)" for xs out
    by (induction xs arbitrary: out) (auto simp: pair_channel_def channel_edges_def pair_step_edges Let_def)
  then show ?thesis by (simp add: pair_all_def)
qed

text \<open>The receives of a channel in posting order.\<close>

definition received :: "matcher \<Rightarrow> channel \<Rightarrow> recv_event list" where
  "received m key = posted (filter (\<lambda>r. rv_key r = key) (recv_events m))"

lemma channel_edges_set:
  "set (channel_edges m key (filter (\<lambda>r. rv_key r = key) (recv_events m))) =
     {gated_by (rv_target (received m key ! k)) (sent m key ! k) S_p2p
        (fst (grade m (mt_exact m \<noteq> None \<and> mt_world m \<and> length (sent m key) = length (received m key)) (sent m key ! k) (received m key ! k))) |
      k. k < length (received m key) \<and> k < length (sent m key)}"
proof -
  have len: "length (filter (\<lambda>r. rv_key r = key) (recv_events m)) = length (received m key)" by (simp add: received_def posted_def)
  have "set (map (\<lambda>(k, r). f k r) (filter (\<lambda>(k, r). k < n) (List.enumerate 0 xs))) = {f k (xs ! k) | k. k < length xs \<and> k < n}"
    for f :: "nat \<Rightarrow> recv_event \<Rightarrow> sedge" and n xs
    by (fastforce simp: in_set_enumerate_eq image_iff)
  then show ?thesis
    unfolding channel_edges_def Let_def received_def [symmetric] len by simp
qed

lemma edges_channels:
  "set (fst (matcher_edges m)) = (\<Union>key\<in>rv_key ` set (recv_events m). set (channel_edges m key (filter (\<lambda>r. rv_key r = key) (recv_events m))))"
proof -
  have "set (fst (matcher_edges m)) = (\<Union>(key, rs)\<in>set (group_by rv_key (recv_events m)). set (channel_edges m key rs))"
    by (auto simp: matcher_edges_def pair_all_edges Let_def)
  moreover have "set (group_by rv_key (recv_events m)) = (\<lambda>key. (key, filter (\<lambda>r. rv_key r = key) (recv_events m))) ` rv_key ` set (recv_events m)" (is "?G = ?R")
  proof (intro set_eqI)
    fix x :: "channel \<times> recv_event list"
    obtain key rs where x: "x = (key, rs)" by (cases x)
    have "(key, rs) \<in> ?G \<longleftrightarrow> map_of (group_by rv_key (recv_events m)) key = Some rs"
      using group_by_ok [of rv_key "recv_events m"] by (simp add: map_of_eq_Some_iff)
    then show "x \<in> ?G \<longleftrightarrow> x \<in> ?R" unfolding x group_by_map_of by auto
  qed
  ultimately show ?thesis by simp
qed

lemma received_nonempty: "k < length (received m key) \<Longrightarrow> key \<in> rv_key ` set (recv_events m)"
  by (cases "filter (\<lambda>r. rv_key r = key) (recv_events m)") (force simp: received_def posted_def filter_eq_Cons_iff)+

lemma gated_by_eq: "gated_by t s k c = gated_by t' s' k c' \<longleftrightarrow> t = t' \<and> s = s' \<and> c = c'"
  by (auto simp: gated_by_def)

text \<open>
  C8. Message matching is MPI's non-overtaking rule: an edge leads from a send to the completion
  of a receive exactly when they are, for some k, the k-th send and the k-th posted receive of one
  channel (sender, receiver, tag, communicator), cancelled requests left out.
\<close>

theorem p2p_nonovertaking:
  "(\<exists>c. gated_by target src S_p2p c \<in> set (fst (matcher_edges m))) \<longleftrightarrow>
     (\<exists>key k. k < length (sent m key) \<and> k < length (received m key) \<and> sent m key ! k = src \<and>
        rv_target (received m key ! k) = target)"
proof
  assume "\<exists>c. gated_by target src S_p2p c \<in> set (fst (matcher_edges m))"
  then show "\<exists>key k. k < length (sent m key) \<and> k < length (received m key) \<and> sent m key ! k = src \<and> rv_target (received m key ! k) = target"
    unfolding edges_channels channel_edges_set UN_iff mem_Collect_eq gated_by_eq by blast
next
  assume "\<exists>key k. k < length (sent m key) \<and> k < length (received m key) \<and> sent m key ! k = src \<and> rv_target (received m key ! k) = target"
  then obtain key k where k: "k < length (sent m key)" "k < length (received m key)" "sent m key ! k = src" "rv_target (received m key ! k) = target"
    by blast
  let ?c = "fst (grade m (mt_exact m \<noteq> None \<and> mt_world m \<and> length (sent m key) = length (received m key)) (sent m key ! k) (received m key ! k))"
  have "gated_by target src S_p2p ?c \<in> set (fst (matcher_edges m))"
    unfolding edges_channels channel_edges_set using k received_nonempty [OF k(2)] by blast
  then show "\<exists>c. gated_by target src S_p2p c \<in> set (fst (matcher_edges m))" ..
qed

text \<open>No send is received twice.\<close>

lemma sent_set: "set (sent m key) = ms_idx ` {s \<in> set (mt_sends m). \<not> is_cancelled m s \<and> send_channel (mt_world m) s = Some key}"
  by (force simp: sent_def channel_sends_def)

lemma sent_distinct:
  assumes "distinct (map ms_idx (mt_sends m))"
  shows "distinct (sent m key)" "src \<in> set (sent m key) \<Longrightarrow> src \<in> set (sent m key') \<Longrightarrow> key = key'"
proof -
  have "distinct (map ms_idx (filter P (mt_sends m)))" for P using assms by (rule distinct_map_filter)
  then have "distinct (map snd (channel_sends m key))" by (simp add: channel_sends_def comp_def)
  moreover have "mset (sent m key) = mset (map snd (channel_sends m key))" by (simp add: sent_def)
  ultimately show "distinct (sent m key)" by (metis mset_eq_imp_distinct_iff)
  assume "src \<in> set (sent m key)" "src \<in> set (sent m key')"
  then obtain s s' where s: "s \<in> set (mt_sends m)" "s' \<in> set (mt_sends m)" "ms_idx s = src" "ms_idx s' = src"
    "send_channel (mt_world m) s = Some key" "send_channel (mt_world m) s' = Some key'"
    unfolding sent_set by auto
  then have "s = s'" using assms by (auto simp: distinct_map inj_on_def)
  then show "key = key'" using s by simp
qed

section \<open>Every receive is accounted for\<close>

lemma pair_step_counts:
  "dict_total (pr_unmatched (pair_step m whole srcs p out)) + int (length (pr_edges (pair_step m whole srcs p out))) =
     dict_total (pr_unmatched out) + int (length (pr_edges out)) + 1"
  by (cases p) (auto simp: pair_step_def split: prod.splits)

lemma fold_pair_step_counts:
  "dict_total (pr_unmatched (fold (pair_step m whole srcs) ps out)) + int (length (pr_edges (fold (pair_step m whole srcs) ps out))) =
     dict_total (pr_unmatched out) + int (length (pr_edges out)) + int (length ps)"
proof (induction ps arbitrary: out)
  case (Cons p ps)
  show ?case using Cons [of "pair_step m whole srcs p out"] pair_step_counts [of m whole srcs p out] by simp
qed simp

lemma fold_pair_channel_counts:
  "dict_total (pr_unmatched (fold (pair_channel m) gs out)) + int (length (pr_edges (fold (pair_channel m) gs out))) =
     dict_total (pr_unmatched out) + int (length (pr_edges out)) + (\<Sum>g\<leftarrow>gs. int (length (snd g)))"
proof (induction gs arbitrary: out)
  case (Cons g gs)
  have "dict_total (pr_unmatched (pair_channel m g out)) + int (length (pr_edges (pair_channel m g out))) =
      dict_total (pr_unmatched out) + int (length (pr_edges out)) + int (length (snd g))"
    using fold_pair_step_counts by (cases g) (simp add: pair_channel_def Let_def posted_def)
  then show ?case using Cons [of "pair_channel m g out"] by simp
qed simp

lemma fold_append_length:
  "(\<Sum>g\<leftarrow>fold (\<lambda>x. dict_append (key x) x) xs d. int (length (snd g))) = (\<Sum>g\<leftarrow>d. int (length (snd g))) + int (length xs)"
proof (induction xs arbitrary: d)
  case (Cons x xs)
  have "(\<Sum>g\<leftarrow>AList.update k v d. int (length (snd g))) + int (length (dict_get d k [])) = (\<Sum>g\<leftarrow>d. int (length (snd g))) + int (length v)"
    for k v by (induction d) (auto simp: dict_get_def)
  from this [of "key x" "dict_get d (key x) [] @ [x]"]
  have "(\<Sum>g\<leftarrow>dict_append (key x) x d. int (length (snd g))) = (\<Sum>g\<leftarrow>d. int (length (snd g))) + 1"
    by (simp add: dict_append_def)
  then show ?case using Cons [of "dict_append (key x) x d"] by simp
qed simp

lemma dict_total_sort: "dict_total (sort d) = dict_total d"
proof -
  have "mset (map snd (sort d)) = mset (map snd d)" by simp
  then show ?thesis unfolding dict_total_def by (metis sum_mset_sum_list)
qed

lemma count_text_total: "dict_total (count_text cs) = int (length cs)"
proof -
  have "dict_total (fold (\<lambda>c. dict_add c (1 :: int)) cs d) = dict_total d + int (length cs)" for d
    by (induction cs arbitrary: d) auto
  then show ?thesis by (simp add: count_text_def)
qed

text \<open>
  Property. The matcher's diagnostics account for every receive: the receives it reports are those it
  matched with a send plus those it lists as unmatched, summed over the communicators.
\<close>

theorem p2p_accounted:
  "dg_receives (snd (matcher_edges m)) = dg_matched (snd (matcher_edges m)) + dict_total (dg_unmatched (snd (matcher_edges m)))"
  using fold_pair_channel_counts [of m "group_by rv_key (recv_events m)"
      "\<lparr>pr_edges = [], pr_exact = 0, pr_lost = 0, pr_unmatched = count_text (unkeyed_comms m)\<rparr>"]
    fold_append_length [of rv_key "recv_events m" "[]"]
  by (simp add: matcher_edges_def pair_all_def Let_def dict_total_sort count_text_total group_by_def)

text \<open>
  A send whose destination has no world rank is counted among the receives, although the
  diagnostics speak of receive completions.
\<close>

lemma unkeyed_send_counted:
  "\<exists>m. mt_blocking m = [] \<and> mt_irecvs m = [] \<and> dg_receives (snd (matcher_edges m)) = 1"
proof -
  let ?s = "\<lparr>ms_idx = 0, ms_start = 0, ms_req = None, ms_wild = False, ms_rank = Some ''0'', ms_peer = Some ''1'',
     ms_wpeer = None, ms_tag = Some ''7'', ms_comm = Some ''5''\<rparr>"
  let ?m = "(new_matcher (LossPids []) None)\<lparr>mt_world := True, mt_sends := [?s]\<rparr>"
  have "mt_blocking ?m = [] \<and> mt_irecvs ?m = [] \<and> dg_receives (snd (matcher_edges ?m)) = 1"
    by (simp add: new_matcher_def matcher_edges_def unkeyed_comms_def recv_events_def recv_kinds_def is_cancelled_def
        send_channel_def world_of_def Let_def)
  then show ?thesis by blast
qed

end
