(* ===== verification/Rendezvous_Facts.thy ===== *)
theory Rendezvous_Facts
  imports Rendezvous
begin

text \<open>
  Overlap groups are connected components, call-order groups take the k-th call of every lane, and
  no collective is looked up that was not recorded.
\<close>

lemma map_filter_set: "y \<in> set (List.map_filter f xs) \<longleftrightarrow> (\<exists>x\<in>set xs. f x = Some y)"
  by (force simp: List.map_filter_def)

section \<open>Overlap groups\<close>

definition overlaps :: "timed \<Rightarrow> timed \<Rightarrow> bool" where
  "overlaps a b \<longleftrightarrow> fst a \<le> fst (snd b) \<and> fst b \<le> fst (snd a)"

definition overlap_in :: "timed list \<Rightarrow> timed \<Rightarrow> timed \<Rightarrow> bool" where
  "overlap_in items a b \<longleftrightarrow> a \<in> set items \<and> b \<in> set items \<and> overlaps a b"

definition before_all :: "timed list \<Rightarrow> timed list \<Rightarrow> bool" where
  "before_all c c' \<longleftrightarrow> (\<forall>a\<in>set c. \<forall>b\<in>set c'. fst (snd a) < fst b)"

lemma overlap_in_sym: "(overlap_in items)\<^sup>*\<^sup>* a b \<Longrightarrow> (overlap_in items)\<^sup>*\<^sup>* b a"
proof -
  have "symp (overlap_in items)" by (rule sympI) (auto simp: overlap_in_def overlaps_def)
  then show "(overlap_in items)\<^sup>*\<^sup>* a b \<Longrightarrow> (overlap_in items)\<^sup>*\<^sup>* b a" by (meson symp_rtranclp sympD)
qed

text \<open>The state of the loop after a sorted prefix.\<close>

definition cluster_inv :: "timed list \<Rightarrow> timed list \<Rightarrow> timed list list \<times> timed list \<times> int \<Rightarrow> bool" where
  "cluster_inv items seen st \<longleftrightarrow>
     (let (clusters, cur, hi) = st in
      concat (clusters @ [cur]) = seen \<and> cur \<noteq> []
      \<and> (\<forall>b\<in>set cur. fst (snd b) \<le> hi) \<and> (\<exists>m\<in>set cur. fst (snd m) = hi)
      \<and> sorted_wrt before_all (clusters @ [cur])
      \<and> (\<forall>c\<in>set (clusters @ [cur]). \<forall>a\<in>set c. \<forall>b\<in>set c. (overlap_in items)\<^sup>*\<^sup>* a b))"

lemma cluster_inv_step:
  assumes inv: "cluster_inv items seen st" and sorted: "\<forall>a\<in>set seen. fst a \<le> fst it"
    and sub: "set seen \<subseteq> set items" "it \<in> set items" and ok: "fst it \<le> fst (snd it)"
  shows "cluster_inv items (seen @ [it]) (cluster_step it st)"
proof -
  obtain clusters cur hi where st: "st = (clusters, cur, hi)" by (cases st)
  let ?R = "(overlap_in items)\<^sup>*\<^sup>*"
  have i: "concat clusters @ cur = seen" "cur \<noteq> []" "\<forall>b\<in>set cur. fst (snd b) \<le> hi" "\<exists>m\<in>set cur. fst (snd m) = hi"
    "sorted_wrt before_all (clusters @ [cur])" "\<forall>c\<in>set clusters. \<forall>a\<in>set c. \<forall>b\<in>set c. ?R a b" "\<forall>a\<in>set cur. \<forall>b\<in>set cur. ?R a b"
    using inv by (auto simp: cluster_inv_def st)
  have cur_sub: "set cur \<subseteq> set seen" using i(1) by auto
  show ?thesis
  proof (cases "fst it \<le> hi")
    case True
    obtain m where m: "m \<in> set cur" "fst (snd m) = hi" using i(4) by blast
    have mit: "overlap_in items m it" using m True sorted sub ok cur_sub by (fastforce simp: overlap_in_def overlaps_def)
    have all: "?R a it" if "a \<in> set cur" for a
      using i(7) that m(1) mit by (meson rtranclp.rtrancl_into_rtrancl)
    have conn: "\<forall>a\<in>set (cur @ [it]). \<forall>b\<in>set (cur @ [it]). ?R a b"
      using i(7) all overlap_in_sym [OF all] by auto
    have before: "before_all c (cur @ [it])" if c: "before_all c cur" for c
    proof -
      obtain b where b: "b \<in> set cur" using i(2) by (meson last_in_set)
      then have "fst b \<le> fst it" using cur_sub sorted by blast
      then show ?thesis using c b by (force simp: before_all_def)
    qed
    have "sorted_wrt before_all (clusters @ [cur @ [it]])" using i(5) before by (auto simp: sorted_wrt_append)
    moreover have "\<exists>m\<in>set (cur @ [it]). fst (snd m) = max hi (fst (snd it))" using m by (auto simp: max_def)
    moreover have "\<forall>b\<in>set (cur @ [it]). fst (snd b) \<le> max hi (fst (snd it))" using i(3) by fastforce
    ultimately show ?thesis using True i(1,6) conn by (auto simp: cluster_inv_def cluster_step_def st)
  next
    case False
    have before: "before_all c [it]" if c: "c \<in> set clusters \<or> c = cur" for c
    proof -
      have "fst (snd a) < fst it" if a: "a \<in> set c" for a
      proof (cases "c = cur")
        case True then show ?thesis using i(3) a False by fastforce
      next
        case f: False
        obtain b where b: "b \<in> set cur" using i(2) by (meson last_in_set)
        have "before_all c cur" using i(5) c f by (auto simp: sorted_wrt_append)
        then have "fst (snd a) < fst b" using a b by (auto simp: before_all_def)
        moreover have "fst b \<le> fst it" using b cur_sub sorted by blast
        ultimately show ?thesis by simp
      qed
      then show ?thesis by (simp add: before_all_def)
    qed
    have "sorted_wrt before_all ((clusters @ [cur]) @ [[it]])"
      unfolding sorted_wrt_append [of _ "clusters @ [cur]"] using i(5) before by auto
    then show ?thesis using False i(1,6,7) by (auto simp: cluster_inv_def cluster_step_def st)
  qed
qed

lemma cluster_inv_fold:
  assumes "cluster_inv items seen st" "sorted (map fst (seen @ rest))" "set (seen @ rest) \<subseteq> set items"
    "\<forall>it\<in>set rest. fst it \<le> fst (snd it)"
  shows "cluster_inv items (seen @ rest) (fold cluster_step rest st)"
  using assms
proof (induction rest arbitrary: seen st)
  case (Cons it rest)
  have "cluster_inv items (seen @ [it]) (cluster_step it st)"
    by (rule cluster_inv_step [OF Cons.prems(1)]) (use Cons.prems(2-4) in \<open>auto simp: sorted_append\<close>)
  from Cons.IH [OF this] show ?case using Cons.prems(2-4) by simp
qed simp

lemma clusters_spec:
  assumes "\<forall>it\<in>set items. fst it \<le> fst (snd it)"
  shows "concat (clusters_of items) = sort_key fst items" "sorted_wrt before_all (clusters_of items)"
    "c \<in> set (clusters_of items) \<Longrightarrow> a \<in> set c \<Longrightarrow> b \<in> set c \<Longrightarrow> (overlap_in items)\<^sup>*\<^sup>* a b"
proof -
  have "concat (clusters_of items) = sort_key fst items \<and> sorted_wrt before_all (clusters_of items)
    \<and> (\<forall>c\<in>set (clusters_of items). \<forall>a\<in>set c. \<forall>b\<in>set c. (overlap_in items)\<^sup>*\<^sup>* a b)"
  proof (cases "sort_key fst items")
    case Nil
    then show ?thesis by (simp add: clusters_of_def)
  next
    case (Cons it rest)
    have set: "set (it # rest) = set items" unfolding Cons [symmetric] by simp
    have "cluster_inv items [it] ([], [it], fst (snd it))" by (simp add: cluster_inv_def)
    moreover have "sorted (map fst ([it] @ rest))" using sorted_sort_key [of fst items] Cons by simp
    ultimately have "cluster_inv items ([it] @ rest) (fold cluster_step rest ([], [it], fst (snd it)))"
      using assms set by (intro cluster_inv_fold) auto
    then show ?thesis by (auto simp: clusters_of_def Cons cluster_inv_def split: prod.splits)
  qed
  then show "concat (clusters_of items) = sort_key fst items" "sorted_wrt before_all (clusters_of items)"
    "c \<in> set (clusters_of items) \<Longrightarrow> a \<in> set c \<Longrightarrow> b \<in> set c \<Longrightarrow> (overlap_in items)\<^sup>*\<^sup>* a b" by blast+
qed

lemma overlap_same_cluster:
  assumes ok: "\<forall>it\<in>set items. fst it \<le> fst (snd it)" and c: "c \<in> set (clusters_of items)" "a \<in> set c"
    and r: "(overlap_in items)\<^sup>*\<^sup>* a b"
  shows "b \<in> set c"
  using r
proof (induction rule: rtranclp_induct)
  case base then show ?case using c by simp
next
  case (step y z)
  obtain c' where c': "c' \<in> set (clusters_of items)" "z \<in> set c'"
  proof -
    have "z \<in> set (sort_key fst items)" using step(2) by (simp add: overlap_in_def)
    then show ?thesis using that unfolding clusters_spec(1) [OF ok, symmetric] by auto
  qed
  obtain i j where ij: "i < length (clusters_of items)" "clusters_of items ! i = c" "j < length (clusters_of items)" "clusters_of items ! j = c'"
    using c(1) c'(1) by (meson in_set_conv_nth)
  have y: "overlaps y z" "y \<in> set c" using step by (auto simp: overlap_in_def)
  have "i = j"
  proof (rule ccontr)
    assume "i \<noteq> j"
    then have "before_all c c' \<or> before_all c' c"
      using sorted_wrt_nth_less [OF clusters_spec(2) [OF ok]] ij by (metis nat_neq_iff)
    then show False using y c'(2) by (force simp: before_all_def overlaps_def)
  qed
  then show ?case using ij c'(2) by simp
qed

text \<open>
  C16. Calls grouped by time are exactly the connected components of overlapping calls: two
  different calls are in one rendezvous if and only if a chain of calls, each overlapping the
  next, joins them.
\<close>

theorem overlap_components:
  assumes "\<forall>it\<in>set items. fst it \<le> fst (snd it)" and "distinct (map (\<lambda>it. snd (snd it)) items)"
    and "a \<in> set items" "b \<in> set items" "a \<noteq> b"
  shows "(\<exists>g\<in>set (cluster_rendezvous items). snd (snd a) \<in> set g \<and> snd (snd b) \<in> set g) \<longleftrightarrow> (overlap_in items)\<^sup>*\<^sup>* a b"
proof
  have members: "set c \<subseteq> set items" if "c \<in> set (clusters_of items)" for c
  proof
    fix x assume "x \<in> set c"
    then have "x \<in> set (concat (clusters_of items))" using that by auto
    then show "x \<in> set items" using clusters_spec(1) [OF assms(1)] by simp
  qed
  have inj: "x = y" if "x \<in> set items" "y \<in> set items" "snd (snd x) = snd (snd y)" for x y
    using assms(2) that by (auto simp: distinct_map inj_on_def)
  assume "\<exists>g\<in>set (cluster_rendezvous items). snd (snd a) \<in> set g \<and> snd (snd b) \<in> set g"
  then obtain c where c: "c \<in> set (clusters_of items)" "snd (snd a) \<in> (\<lambda>t. snd (snd t)) ` set c" "snd (snd b) \<in> (\<lambda>t. snd (snd t)) ` set c"
    by (auto simp: cluster_rendezvous_def)
  obtain x y where xy: "x \<in> set c" "snd (snd a) = snd (snd x)" "y \<in> set c" "snd (snd b) = snd (snd y)"
    using c(2,3) by blast
  then have "a = x" "b = y" using inj members [OF c(1)] assms(3,4) by blast+
  then have "a \<in> set c" "b \<in> set c" using xy by simp_all
  then show "(overlap_in items)\<^sup>*\<^sup>* a b" using clusters_spec(3) [OF assms(1) c(1)] by blast
next
  assume r: "(overlap_in items)\<^sup>*\<^sup>* a b"
  have "a \<in> set (concat (clusters_of items))" using clusters_spec(1) [OF assms(1)] assms(3) by simp
  then obtain c where c: "c \<in> set (clusters_of items)" "a \<in> set c" by auto
  have b: "b \<in> set c" by (rule overlap_same_cluster [OF assms(1) c r])
  have "length c > 1"
  proof (rule ccontr)
    assume "\<not> length c > 1"
    then have "length c = 1" using c(2) by (cases c) auto
    then show False using c(2) b assms(5) by (auto simp: length_Suc_conv)
  qed
  then have "map (\<lambda>t. snd (snd t)) c \<in> set (cluster_rendezvous items)" using c(1) by (simp add: cluster_rendezvous_def)
  then show "\<exists>g\<in>set (cluster_rendezvous items). snd (snd a) \<in> set g \<and> snd (snd b) \<in> set g" using c(2) b by force
qed

lemma overlap_components_witness:
  "let items = [(0 :: int, 4 :: int, 0 :: nat), (6, 9, 1), (3, 7, 2), (20, 21, 3)] in
     cluster_rendezvous items = [[0, 2, 1]] \<and> (overlap_in items)\<^sup>*\<^sup>* (0, 4, 0) (6, 9, 1)"
proof -
  let ?i = "[(0, 4, 0), (6, 9, 1), (3, 7, 2), (20, 21, 3)] :: timed list"
  have c: "cluster_rendezvous ?i = [[0, 2, 1]]" by code_simp
  have "(\<exists>g\<in>set (cluster_rendezvous ?i). snd (snd (0, 4, 0 :: nat)) \<in> set g \<and> snd (snd (6, 9, 1 :: nat)) \<in> set g) \<longleftrightarrow>
      (overlap_in ?i)\<^sup>*\<^sup>* (0, 4, 0) (6, 9, 1)"
    using overlap_components [of ?i "(0, 4, 0)" "(6, 9, 1)"] by simp
  then show ?thesis unfolding Let_def using c by simp
qed

section \<open>Call order\<close>

definition nth_call :: "rkind \<Rightarrow> ritem list \<Rightarrow> lane \<Rightarrow> nat \<Rightarrow> int \<times> nat \<times> string" where
  "nth_call kind items l k = sort (map call_of (filter (\<lambda>it. lane_of kind it = l) items)) ! k"

lemma lane_calls_set:
  "set (lane_calls kind items) = (\<lambda>l. sort (map call_of (filter (\<lambda>it. lane_of kind it = l) items))) ` lane_of kind ` set items"
proof -
  have "set (group_by (lane_of kind) items) = (\<lambda>l. (l, filter (\<lambda>it. lane_of kind it = l) items)) ` lane_of kind ` set items" (is "?G = ?R")
  proof (intro set_eqI)
    fix x :: "lane \<times> ritem list"
    obtain l cs where x: "x = (l, cs)" by (cases x)
    have "(l, cs) \<in> ?G \<longleftrightarrow> map_of (group_by (lane_of kind) items) l = Some cs"
      using group_by_ok [of "lane_of kind" items] by (simp add: map_of_eq_Some_iff)
    then show "x \<in> ?G \<longleftrightarrow> x \<in> ?R" unfolding x group_by_map_of by auto
  qed
  then show ?thesis by (simp add: lane_calls_def image_image case_prod_beta)
qed

text \<open>
  C35. Grouping by call order puts the k-th call of every lane, and nothing else, in the k-th
  rendezvous; it does so only when every lane made the same number of calls and the k-th calls
  have one type.
\<close>

theorem order_groups_exact:
  assumes "order_groups kind items = Some groups" and "k < length groups"
  shows "set (groups ! k) = (\<lambda>l. fst (snd (nth_call kind items l k))) ` lane_of kind ` set items
    \<and> (\<exists>t. \<forall>l\<in>lane_of kind ` set items.
          snd (snd (nth_call kind items l k)) = t \<and> length (filter (\<lambda>it. lane_of kind it = l) items) = length groups)"
proof -
  let ?seqs = "lane_calls kind items"
  let ?n = "length (hd ?seqs)"
  have two: "\<not> length ?seqs < 2" using assms by (auto simp: order_groups_def Let_def split: if_splits)
  then have ne: "?seqs \<noteq> []" by auto
  have ok: "\<not> list_ex (\<lambda>s. length s \<noteq> ?n) ?seqs"
    "\<not> list_ex (\<lambda>k. list_ex (\<lambda>s. snd (snd (s ! k)) \<noteq> snd (snd (hd ?seqs ! k))) ?seqs) [0..<?n]"
    and groups: "groups = map (\<lambda>k. map (\<lambda>s. fst (snd (s ! k))) ?seqs) [0..<?n]"
    using assms(1) two by (auto simp: order_groups_def Let_def split: if_splits)
  have k: "k < ?n" "length groups = ?n" using assms(2) groups by auto
  have "set (groups ! k) = (\<lambda>s. fst (snd (s ! k))) ` set ?seqs" using k groups by simp
  also have "\<dots> = (\<lambda>l. fst (snd (nth_call kind items l k))) ` lane_of kind ` set items"
    unfolding lane_calls_set nth_call_def image_image ..
  finally have 1: "set (groups ! k) = (\<lambda>l. fst (snd (nth_call kind items l k))) ` lane_of kind ` set items" .
  have "snd (snd (s ! k)) = snd (snd (hd ?seqs ! k)) \<and> length s = ?n" if "s \<in> set ?seqs" for s
    using ok that k(1) by (simp add: list_ex_iff)
  then have "snd (snd (nth_call kind items l k)) = snd (snd (hd ?seqs ! k)) \<and> length (filter (\<lambda>it. lane_of kind it = l) items) = length groups"
    if "l \<in> lane_of kind ` set items" for l
    using that k(2) unfolding lane_calls_set nth_call_def by fastforce
  then show ?thesis using 1 by blast
qed

definition demo_calls :: "ritem list" where
  "demo_calls = map (\<lambda>(t, i, r, ty). \<lparr>ri_start = t, ri_end = t + 5, ri_idx = i, ri_member = Lane_Rank r, ri_tid = 1, ri_type = ty,
     ri_comm = Some ''0'', ri_seq = None, ri_team = None\<rparr>)
     [(0, 0, ''0'', ''bcast''), (9, 1, ''0'', ''barrier''), (30, 2, ''1'', ''barrier''), (2, 3, ''1'', ''bcast'')]"

lemma order_groups_exact_witness:
  "order_groups R_mpi demo_calls = Some [[0, 3], [1, 2]] \<and>
   {1, 2} = (\<lambda>l. fst (snd (nth_call R_mpi demo_calls l 1))) ` {Lane_Rank ''0'', Lane_Rank ''1''}"
proof -
  have g: "order_groups R_mpi demo_calls = Some [[0, 3], [1, 2]]" by code_simp
  have l: "lane_of R_mpi ` set demo_calls = {Lane_Rank ''0'', Lane_Rank ''1''}" by code_simp
  have "set ([[0, 3], [1, 2]] ! 1) = (\<lambda>l. fst (snd (nth_call R_mpi demo_calls l 1))) ` lane_of R_mpi ` set demo_calls"
    using order_groups_exact [OF g, of 1] by simp
  then show ?thesis unfolding l using g by simp
qed

section \<open>Recorded collectives\<close>

lemma info_add_calls: "map_of (mi_calls m) i \<noteq> None \<Longrightarrow> map_of (mi_calls (info_add j s m)) i \<noteq> None"
  by (auto simp: info_add_def Let_def update_conv')

lemma info_fold_calls: "map_of (mi_calls m) i \<noteq> None \<Longrightarrow> map_of (mi_calls (fold (\<lambda>(i, s). info_add i s) sp m)) i \<noteq> None"
proof (induction sp arbitrary: m)
  case (Cons p sp)
  then show ?case using info_add_calls by (cases p) auto
qed simp

lemma item_recorded: "rendezvous_item s i R_mpi \<noteq> None \<Longrightarrow> map_of (mi_calls (info_add i s m)) i \<noteq> None"
  by (auto simp: rendezvous_item_def info_add_def Let_def update_conv' split: if_splits)

lemma items_recorded:
  assumes "it \<in> set (rendezvous_items R_mpi sp)"
  shows "map_of (mi_calls (fold (\<lambda>(i, s). info_add i s) sp m)) (ri_idx it) \<noteq> None"
  using assms
proof (induction sp arbitrary: m)
  case (Cons p sp)
  obtain i s where p: "p = (i, s)" by (cases p)
  show ?case
  proof (cases "rendezvous_item s i R_mpi = Some it")
    case True
    then have "ri_idx it = i" by (auto simp: rendezvous_item_def Let_def split: if_splits)
    then show ?thesis using True item_recorded [of s i m] info_fold_calls by (simp add: p)
  next
    case False
    then have "it \<in> set (rendezvous_items R_mpi sp)"
      using Cons.prems by (auto simp: p rendezvous_items_def List.map_filter_def split: if_splits)
    then show ?thesis using Cons.IH by (simp add: p)
  qed
qed (simp add: rendezvous_items_def List.map_filter_def)

end
