(* ===== verification/Gpu_Edges.thy ===== *)
theory Gpu_Edges
  imports Rendezvous_Facts
begin

text \<open>
  \<^verbatim>\<open>src/src/analysis/criticalpath.py\<close>, \<open>_add_gpu_edges\<close>, and
  \<^verbatim>\<open>src/src/analysis/semantics/gpu.py\<close>: the edges of the CUDA/ROCm host and device model. The
  dictionaries the function builds first are collected in a record that the local functions read.
\<close>

definition contains :: "string \<Rightarrow> string \<Rightarrow> bool" where
  "contains p s \<longleftrightarrow> sublist p s"

definition sync_kind :: "span_event \<Rightarrow> string option" where
  "sync_kind s =
     (if tag_truthy s ''sync'' then tag s ''sync''
      else if contains ''DeviceSynchronize'' (name s) \<or> contains ''CtxSynchronize'' (name s) then Some ''device''
      else if contains ''StreamSynchronize'' (name s) then Some ''stream''
      else if contains ''EventSynchronize'' (name s) then Some ''event''
      else None)"

definition effective_start_ns :: "span_event \<Rightarrow> int" where
  "effective_start_ns s =
     (case Option.bind (tag s ''xs'') py_int of Some n \<Rightarrow> n | None \<Rightarrow> start_ns s)"

definition effective_end_ns :: "span_event \<Rightarrow> int" where
  "effective_end_ns s = effective_start_ns s + duration_ns s"

section \<open>Streams\<close>

type_synonym device = "string option"
type_synonym stream = "int \<times> string \<times> device \<times> string"

definition conf_of_text :: "string \<Rightarrow> conf" where
  "conf_of_text c = (if c = ''certain'' then Certain else High)"

definition launch_edges :: "correlation \<Rightarrow> sedge list" where
  "launch_edges corr =
     map (\<lambda>(d, h). gated_by d h S_launch (conf_of_text (dict_get (confidence corr) d []))) (host_of corr)"

definition native_to_host :: "spans \<Rightarrow> correlation \<Rightarrow> (int \<times> string \<times> string, string list) dict" where
  "native_to_host sp corr =
     fold (\<lambda>(d, h) m. case (tag (span_at sp d) ''dev'', tag (span_at sp h) ''hdev'') of
         (Some nd, Some hv) \<Rightarrow>
           (let k = (pid (span_at sp d), rt_of (span_at sp d), nd) in AList.update k (List.insert hv (dict_get m k [])) m)
       | _ \<Rightarrow> m) (host_of corr) []"

definition device_of :: "spans \<Rightarrow> correlation \<Rightarrow> nat \<Rightarrow> device" where
  "device_of sp corr i =
     (let s = span_at sp i;
          hd = (case tag s ''hdev'' of
              Some v \<Rightarrow> Some v
            | None \<Rightarrow> (case map_of (host_of corr) i of Some h \<Rightarrow> tag (span_at sp h) ''hdev'' | None \<Rightarrow> None))
      in case hd of
           Some v \<Rightarrow> Some (''h'' @ v)
         | None \<Rightarrow>
             (case tag s ''dev'' of
                None \<Rightarrow> None
              | Some nd \<Rightarrow>
                  (case dict_get (native_to_host sp corr) (pid s, rt_of s, nd) [] of
                     [v] \<Rightarrow> Some (''h'' @ v)
                   | _ \<Rightarrow> Some (''n'' @ nd))))"

definition STREAM_ORDERED_EXTRA_OPS :: "string list" where
  "STREAM_ORDERED_EXTRA_OPS = [''host_func'']"

definition stream_work :: "spans \<Rightarrow> nat list" where
  "stream_work sp =
     map fst (filter (\<lambda>(i, s). is_device_span s \<and> op_of s \<in> set (DEVICE_WORK_OPS @ STREAM_ORDERED_EXTRA_OPS)) sp)"

text \<open>Older hooks: a synchronous copy named no stream and ran on the default stream.\<close>

definition legacy_copy :: "spans \<Rightarrow> correlation \<Rightarrow> nat \<Rightarrow> bool" where
  "legacy_copy sp corr i =
     (case map_of (host_of corr) i of
        None \<Rightarrow> False
      | Some h \<Rightarrow> tag (span_at sp h) ''stream'' = None \<and> op_of (span_at sp h) = ''memcpy'' \<and> tag_is (span_at sp h) ''type'' ''memcpy'')"

definition stream_of :: "spans \<Rightarrow> correlation \<Rightarrow> nat \<Rightarrow> stream option" where
  "stream_of sp corr i =
     (let s = span_at sp i; st = (if legacy_copy sp corr i then Some ''0'' else tag s ''stream'') in
      map_option (\<lambda>st. (pid s, rt_of s, device_of sp corr i, st)) st)"

definition fifo_key :: "spans \<Rightarrow> correlation \<Rightarrow> nat \<Rightarrow> int \<times> int" where
  "fifo_key sp corr i = (submission_ns sp corr i, effective_start_ns (span_at sp i))"

definition streams :: "spans \<Rightarrow> correlation \<Rightarrow> (stream, nat list) dict" where
  "streams sp corr =
     map (\<lambda>(k, is). (the k, sort_key (fifo_key sp corr) is))
       (group_by (stream_of sp corr) (filter (\<lambda>i. stream_of sp corr i \<noteq> None) (stream_work sp)))"

text \<open>The graph launch a device span belongs to.\<close>

definition graph_of :: "spans \<Rightarrow> correlation \<Rightarrow> nat \<Rightarrow> nat option" where
  "graph_of sp corr i =
     (case map_of (host_of corr) i of
        None \<Rightarrow> None
      | Some h \<Rightarrow> if op_of (span_at sp h) = ''graph'' \<and> op_of (span_at sp i) \<noteq> ''graph'' then Some h else None)"

definition graph_step :: "spans \<Rightarrow> correlation \<Rightarrow> nat \<Rightarrow> nat list list \<Rightarrow> nat list list" where
  "graph_step sp corr i groups =
     (if groups \<noteq> [] \<and> graph_of sp corr i \<noteq> None \<and> graph_of sp corr (hd (last groups)) = graph_of sp corr i
      then butlast groups @ [last groups @ [i]] else groups @ [[i]])"

definition graph_groups :: "spans \<Rightarrow> correlation \<Rightarrow> nat list \<Rightarrow> nat list list" where
  "graph_groups sp corr lst = fold (graph_step sp corr) lst []"

definition last_to_finish :: "spans \<Rightarrow> nat list \<Rightarrow> nat" where
  "last_to_finish sp g = the (max_key (\<lambda>j. effective_end_ns (span_at sp j)) g)"

definition fifo_edges :: "spans \<Rightarrow> correlation \<Rightarrow> nat list \<Rightarrow> sedge list" where
  "fifo_edges sp corr lst =
     (let groups = graph_groups sp corr lst in
      concat (map (\<lambda>(a, b). map (\<lambda>j. gated_by j (last_to_finish sp a) S_sequential Certain) b) (zip groups (tl groups))))"

section \<open>What a call refers to\<close>

record gpu_view =
  gv_spans :: spans
  gv_corr :: correlation
  gv_streams :: "(stream, nat list) dict"

definition streams_of :: "gpu_view \<Rightarrow> int \<Rightarrow> string \<Rightarrow> stream list" where
  "streams_of g p rt = filter (\<lambda>(q, r, d, st). q = p \<and> r = rt) (map fst (gv_streams g))"

definition stream_text :: "stream \<Rightarrow> string" where
  "stream_text k = snd (snd (snd k))"

definition stream_device :: "stream \<Rightarrow> device" where
  "stream_device k = fst (snd (snd k))"

definition stream_keys :: "gpu_view \<Rightarrow> int \<Rightarrow> string \<Rightarrow> device \<Rightarrow> string option \<Rightarrow> (stream \<times> conf) list" where
  "stream_keys g p rt dev st =
     (case st of
        None \<Rightarrow> []
      | Some t \<Rightarrow>
          if dev \<noteq> None \<and> map_of (gv_streams g) (p, rt, dev, t) \<noteq> None then [((p, rt, dev, t), Certain)]
          else (let cands = filter (\<lambda>k. stream_text k = t) (streams_of g p rt)
                in map (\<lambda>k. (k, if length cands = 1 then Certain else Medium)) cands))"

definition submitted :: "gpu_view \<Rightarrow> nat list \<Rightarrow> int list" where
  "submitted g lst = map (submission_ns (gv_spans g) (gv_corr g)) lst"

text \<open>The last of the first \<open>n\<close> works that ended by \<open>limit\<close>, looking back at most \<open>tries\<close> works.\<close>

fun ended_by :: "spans \<Rightarrow> nat list \<Rightarrow> int \<Rightarrow> nat \<Rightarrow> nat \<Rightarrow> nat option" where
  "ended_by sp lst limit 0 n = None"
| "ended_by sp lst limit (Suc tries) 0 = None"
| "ended_by sp lst limit (Suc tries) (Suc n) =
     (if effective_end_ns (span_at sp (lst ! n)) \<le> limit then Some (lst ! n) else ended_by sp lst limit tries n)"

definition last_before :: "gpu_view \<Rightarrow> stream \<Rightarrow> int \<Rightarrow> int \<Rightarrow> nat option" where
  "last_before g k cutoff limit =
     (case map_of (gv_streams g) k of
        None \<Rightarrow> None
      | Some lst \<Rightarrow> ended_by (gv_spans g) lst limit 64 (bisect_left (submitted g lst) cutoff))"

definition is_record :: "span_event \<Rightarrow> bool" where
  "is_record s \<longleftrightarrow> tag_is s ''side'' ''cpu'' \<and> is_new_format s \<and> op_of s = ''event_record'' \<and> tag_truthy s ''event''"

definition records_of :: "gpu_view \<Rightarrow> int \<Rightarrow> string \<Rightarrow> string \<Rightarrow> nat list" where
  "records_of g p rt event =
     sort_key (\<lambda>i. start_ns (span_at (gv_spans g) i))
       (map fst (filter (\<lambda>(i, s). is_record s \<and> (pid s, rt_of s, the (tag s ''event'')) = (p, rt, event)) (gv_spans g)))"

definition record_before :: "gpu_view \<Rightarrow> int \<Rightarrow> string \<Rightarrow> string option \<Rightarrow> int \<Rightarrow> nat option" where
  "record_before g p rt event t =
     (case event of
        None \<Rightarrow> None
      | Some e \<Rightarrow>
          if e = [] then None
          else (let rs = records_of g p rt e; n = bisect_left (map (\<lambda>i. start_ns (span_at (gv_spans g) i)) rs) t
                in if n > 0 then Some (rs ! (n - 1)) else None))"

definition host_dev :: "gpu_view \<Rightarrow> nat \<Rightarrow> device" where
  "host_dev g j = map_option (\<lambda>v. ''h'' @ v) (tag (span_at (gv_spans g) j) ''hdev'')"

definition weaker :: "conf \<Rightarrow> conf \<Rightarrow> conf" where
  "weaker a b = (if conf_code a \<ge> conf_code b then a else b)"

section \<open>Synchronization calls\<close>

type_synonym sync_target = "nat \<times> conf"

definition waited :: "gpu_view \<Rightarrow> int \<Rightarrow> int \<Rightarrow> (stream \<times> conf) list \<Rightarrow> sync_target list" where
  "waited g cutoff limit ks = List.map_filter (\<lambda>(k, c). map_option (\<lambda>j. (j, c)) (last_before g k cutoff limit)) ks"

definition sync_limit :: "span_event \<Rightarrow> int" where
  "sync_limit s = end_ns s + CLOCK_TOLERANCE_NS"

definition synced_stream :: "gpu_view \<Rightarrow> nat \<Rightarrow> string option" where
  "synced_stream g i =
     (let sp = gv_spans g in
      case tag (span_at sp i) ''stream'' of
        Some t \<Rightarrow> Some t
      | None \<Rightarrow>
          (case filter (\<lambda>d. op_of (span_at sp d) = ''sync'' \<and> tag_truthy (span_at sp d) ''stream'') (dict_get (devices_of (gv_corr g)) i []) of
             [] \<Rightarrow> None | d # _ \<Rightarrow> tag (span_at sp d) ''stream''))"

definition stream_targets :: "gpu_view \<Rightarrow> nat \<Rightarrow> sync_target list" where
  "stream_targets g i =
     (let s = span_at (gv_spans g) i in
      waited g (start_ns s) (sync_limit s) (stream_keys g (pid s) (rt_of s) (host_dev g i) (synced_stream g i)))"

definition event_targets :: "gpu_view \<Rightarrow> loss \<Rightarrow> nat \<Rightarrow> sync_target list" where
  "event_targets g l i =
     (let s = span_at (gv_spans g) i; p = pid s; rt = rt_of s in
      case record_before g p rt (tag s ''event'') (start_ns s) of
        Some r \<Rightarrow>
          map (\<lambda>(j, c). (j, if lossy l [p] then Low else c))
            (waited g (start_ns (span_at (gv_spans g) r)) (sync_limit s)
              (stream_keys g p rt (host_dev g r) (tag (span_at (gv_spans g) r) ''stream'')))
      | None \<Rightarrow> waited g (start_ns s) (sync_limit s) (map (\<lambda>k. (k, Medium)) (streams_of g p rt)))"

definition device_conf :: "nat \<Rightarrow> device \<Rightarrow> device \<Rightarrow> conf option" where
  "device_conf devices dev kdev =
     (if devices \<le> 1 then Some Certain
      else if dev \<noteq> None \<and> kdev = dev then Some Certain
      else if dev \<noteq> None \<and> kdev \<noteq> None \<and> prefix ''h'' (the kdev) then None
      else Some Medium)"

definition device_targets :: "gpu_view \<Rightarrow> nat \<Rightarrow> sync_target list" where
  "device_targets g i =
     (let s = span_at (gv_spans g) i; ks = streams_of g (pid s) (rt_of s);
          devices = length (remdups (map stream_device ks))
      in waited g (start_ns s) (sync_limit s)
           (List.map_filter (\<lambda>k. map_option (Pair k) (device_conf devices (host_dev g i) (stream_device k))) ks))"

definition sync_targets :: "gpu_view \<Rightarrow> loss \<Rightarrow> nat \<Rightarrow> sync_target list" where
  "sync_targets g l i =
     (let kind = sync_kind (span_at (gv_spans g) i) in
      if kind = Some ''stream'' then stream_targets g i
      else if kind = Some ''event'' then event_targets g l i
      else if kind = Some ''device'' then device_targets g i
      else [])"

text \<open>A stream told to wait for an event of another one.\<close>

definition stream_wait_edges :: "gpu_view \<Rightarrow> loss \<Rightarrow> nat \<Rightarrow> sedge list" where
  "stream_wait_edges g l i =
     (let sp = gv_spans g; s = span_at sp i; p = pid s; rt = rt_of s in
      case record_before g p rt (tag s ''event'') (start_ns s) of
        None \<Rightarrow> []
      | Some r \<Rightarrow>
          if tag s ''stream'' = None \<or> tag (span_at sp r) ''stream'' = None then []
          else
            (case (stream_keys g p rt (host_dev g r) (tag (span_at sp r) ''stream''), stream_keys g p rt (host_dev g i) (tag s ''stream'')) of
               ([(pkey, pconf)], [(wkey, wconf)]) \<Rightarrow>
                 (let lst = dict_get (gv_streams g) wkey [];
                      pos = bisect_left (submitted g lst) (start_ns s)
                  in case last_before g pkey (start_ns (span_at sp r)) (2 ^ 62) of
                       None \<Rightarrow> []
                     | Some producer \<Rightarrow>
                         if pos < length lst \<and> lst ! pos \<noteq> producer
                         then [gated_by (lst ! pos) producer S_sequential (if lossy l [p] then Low else weaker pconf wconf)]
                         else [])
             | _ \<Rightarrow> []))"

definition host_call_edges :: "gpu_view \<Rightarrow> loss \<Rightarrow> nat \<times> span_event \<Rightarrow> sedge list" where
  "host_call_edges g l p =
     (let (i, s) = p in
      if \<not> tag_is s ''side'' ''cpu'' \<or> \<not> is_new_format s then []
      else if op_of s = ''sync'' then map (\<lambda>(j, c). gated_by i j S_device_wait c) (sync_targets g l i)
      else if op_of s = ''stream_wait'' then stream_wait_edges g l i
      else [])"

section \<open>Copies, host functions and the legacy default stream\<close>

definition blocking_copy_edges :: "gpu_view \<Rightarrow> sedge list" where
  "blocking_copy_edges g =
     (let sp = gv_spans g in
      concat (map (\<lambda>(h, ds). if tag_is (span_at sp h) ''blocking'' ''1''
          then map (\<lambda>d. gated_by h d S_device_wait Certain) (filter (\<lambda>d. op_of (span_at sp d) \<in> {''memcpy'', ''memset''}) ds)
          else []) (sort_key fst (devices_of (gv_corr g)))))"

definition host_function_order :: "spans \<Rightarrow> (nat \<times> nat) list" where
  "host_function_order sp =
     concat (map (\<lambda>(k, ps). let lst = sort_key (\<lambda>i. start_ns (span_at sp i)) (map fst ps) in
         filter (\<lambda>(a, b). tag (span_at sp a) ''stream'' \<noteq> tag (span_at sp b) ''stream'') (zip lst (tl lst)))
       (group_by (\<lambda>(i, s). (pid s, tid s)) (filter (\<lambda>(i, s). tag_is s ''side'' ''gpu'' \<and> tag_is s ''op'' ''host_func'') sp)))"

definition created_streams :: "spans \<Rightarrow> (int \<times> string option \<times> string) list" where
  "created_streams sp =
     map (\<lambda>(i, s). (pid s, tag s ''rt'', the (tag s ''stream'')))
       (filter (\<lambda>(i, s). tag_is s ''op'' ''stream_create'' \<and> tag s ''stream'' \<noteq> None \<and> tag s ''stream'' \<noteq> Some ''0'') sp)"

definition nonblocking_streams :: "spans \<Rightarrow> (int \<times> string option \<times> string) list" where
  "nonblocking_streams sp = created_streams (filter (\<lambda>(i, s). tag_is s ''nonblocking'' ''1'') sp)"

definition legacy_pair_edges :: "gpu_view \<Rightarrow> nat list \<Rightarrow> nat list \<Rightarrow> conf \<Rightarrow> nat \<Rightarrow> sedge list" where
  "legacy_pair_edges g legacy lst c k =
     (let lsubs = submitted g legacy; subs = submitted g lst; x = legacy ! k; pos = bisect_left subs (lsubs ! k) in
      (if pos > 0 \<and> (k = 0 \<or> lsubs ! (k - 1) < subs ! (pos - 1)) then [gated_by x (lst ! (pos - 1)) S_sequential c] else [])
      @ (if pos < length lst \<and> (k + 1 = length lsubs \<or> lsubs ! (k + 1) > subs ! pos) then [gated_by (lst ! pos) x S_sequential c] else []))"

definition legacy_stream_edges :: "gpu_view \<Rightarrow> int \<Rightarrow> string \<Rightarrow> stream list \<Rightarrow> stream \<Rightarrow> sedge list" where
  "legacy_stream_edges g p rt ks legacy =
     (let sp = gv_spans g;
          others = filter (\<lambda>k. stream_device k = stream_device legacy \<and> stream_text k \<noteq> ''0''
            \<and> (p, Some rt, stream_text k) \<notin> set (nonblocking_streams sp)) ks;
          lst = dict_get (gv_streams g) legacy []
      in concat (map (\<lambda>k. concat (map (\<lambda>key. legacy_pair_edges g lst (dict_get (gv_streams g) key [])
            (if (p, Some rt, stream_text key) \<in> set (created_streams sp) then High else Medium) k) others)) [0..<length lst]))"

definition runtime_text :: "int \<times> string \<Rightarrow> string" where
  "runtime_text k = (case k of (p, rt) \<Rightarrow> ''('' @ show_int p @ '', '' @ py_repr rt @ '')'')"

definition default_stream_edges :: "gpu_view \<Rightarrow> sedge list" where
  "default_stream_edges g =
     concat (map (\<lambda>((p, rt), ks). concat (map (legacy_stream_edges g p rt ks) (filter (\<lambda>k. stream_text k = ''0'') ks)))
       (sort_key (\<lambda>x. runtime_text (fst x)) (group_by (\<lambda>k. (fst k, fst (snd k))) (map fst (gv_streams g)))))"

definition gpu_view_of :: "spans \<Rightarrow> gpu_view" where
  "gpu_view_of sp = (let corr = correlate sp in \<lparr>gv_spans = sp, gv_corr = corr, gv_streams = streams sp corr\<rparr>)"

definition gpu_edges :: "spans \<Rightarrow> loss \<Rightarrow> sedge list" where
  "gpu_edges sp l =
     (if \<not> list_ex (\<lambda>(i, s). is_new_format s) sp then []
      else
        (let g = gpu_view_of sp in
         launch_edges (gv_corr g)
         @ concat (map (\<lambda>(k, lst). fifo_edges sp (gv_corr g) lst) (gv_streams g))
         @ concat (map (host_call_edges g l) sp)
         @ blocking_copy_edges g
         @ map (\<lambda>(a, b). gated_by b a S_sequential High) (host_function_order sp)
         @ default_stream_edges g))"

end
