(* ===== verification/Gpu_Edges_Facts.thy ===== *)
theory Gpu_Edges_Facts
  imports Gpu_Edges
begin

text \<open>
  Consecutive work of a stream is ordered, and a synchronization call waits only for work that was
  submitted before it and had ended when it returned.
\<close>

section \<open>Stream order\<close>

definition same_graph :: "spans \<Rightarrow> correlation \<Rightarrow> nat \<Rightarrow> nat \<Rightarrow> bool" where
  "same_graph sp corr i j \<longleftrightarrow> graph_of sp corr i \<noteq> None \<and> graph_of sp corr i = graph_of sp corr j"

definition groups_ok :: "spans \<Rightarrow> correlation \<Rightarrow> nat list \<Rightarrow> nat list list \<Rightarrow> bool" where
  "groups_ok sp corr lst gs \<longleftrightarrow> concat gs = lst \<and> [] \<notin> set gs
    \<and> (\<forall>g\<in>set gs. \<forall>x\<in>set g. x = hd g \<or> (\<forall>y\<in>set g. same_graph sp corr y x))
    \<and> (\<forall>n. Suc n < length lst \<and> \<not> same_graph sp corr (lst ! n) (lst ! Suc n) \<longrightarrow>
        (\<exists>m. Suc m < length gs \<and> lst ! n \<in> set (gs ! m) \<and> lst ! Suc n \<in> set (gs ! Suc m)))"

lemma groups_ok_step:
  assumes "groups_ok sp corr xs gs"
  shows "groups_ok sp corr (xs @ [x]) (graph_step sp corr x gs)"
proof -
  have c: "concat gs = xs" "[] \<notin> set gs" using assms by (simp_all add: groups_ok_def)
  have uni: "\<And>g y. g \<in> set gs \<Longrightarrow> y \<in> set g \<Longrightarrow> y = hd g \<or> (\<forall>z\<in>set g. same_graph sp corr z y)"
    using assms by (simp add: groups_ok_def)
  have adj: "\<And>n. Suc n < length xs \<Longrightarrow> \<not> same_graph sp corr (xs ! n) (xs ! Suc n) \<Longrightarrow>
      \<exists>m. Suc m < length gs \<and> xs ! n \<in> set (gs ! m) \<and> xs ! Suc n \<in> set (gs ! Suc m)"
    using assms by (simp add: groups_ok_def)
  have last_in: "xs ! n \<in> set (last gs)" if n: "Suc n = length xs" for n
  proof -
    have "gs \<noteq> []" using c(1) n by auto
    then have "xs = concat (butlast gs) @ last gs" "last gs \<noteq> []"
      using c by (metis append_butlast_last_id concat.simps concat_append append_Nil2, metis last_in_set)
    then have "last xs = last (last gs)" by simp
    moreover have "xs ! n = last xs" using n by (metis diff_Suc_1 last_conv_nth length_0_conv nat.distinct(1))
    ultimately show ?thesis using \<open>last gs \<noteq> []\<close> by simp
  qed
  show ?thesis
  proof (cases "gs \<noteq> [] \<and> graph_of sp corr x \<noteq> None \<and> graph_of sp corr (hd (last gs)) = graph_of sp corr x")
    case True
    define a l where "a = butlast gs" and "l = last gs"
    have gs: "gs = a @ [l]" using True by (simp add: a_def l_def)
    have step: "graph_step sp corr x gs = a @ [l @ [x]]" using True by (simp add: graph_step_def a_def l_def)
    have l: "l \<noteq> []" "hd (l @ [x]) = hd l" using c(2) gs by auto
    have xl: "same_graph sp corr y x \<and> same_graph sp corr x y" if "y \<in> set l" for y
    proof (cases "y = hd l")
      case f: False
      then have "\<forall>z\<in>set l. same_graph sp corr z y" using uni [of l y] that gs by auto
      then have "same_graph sp corr (hd l) y" using l by simp
      then show ?thesis using True by (simp add: same_graph_def l_def)
    qed (use True in \<open>simp add: same_graph_def l_def\<close>)
    have xx: "same_graph sp corr x x" using True by (simp add: same_graph_def)
    have u: "y = hd g \<or> (\<forall>z\<in>set g. same_graph sp corr z y)" if g: "g \<in> set (a @ [l @ [x]])" "y \<in> set g" for g y
    proof (cases "g = l @ [x]")
      case True
      then consider "y = x" | "y \<in> set l" using g(2) by auto
      then show ?thesis
      proof cases
        case 1
        then show ?thesis using True xl xx by auto
      next
        case 2
        then show ?thesis using uni [of l y] gs True l(2) xl by auto
      qed
    next
      case False
      then show ?thesis using uni [of g y] g gs by auto
    qed
    have ad: "\<exists>m. Suc m < length (a @ [l @ [x]]) \<and> (xs @ [x]) ! n \<in> set ((a @ [l @ [x]]) ! m) \<and> (xs @ [x]) ! Suc n \<in> set ((a @ [l @ [x]]) ! Suc m)"
      if n: "Suc n < length (xs @ [x])" "\<not> same_graph sp corr ((xs @ [x]) ! n) ((xs @ [x]) ! Suc n)" for n
    proof (cases "Suc n = length xs")
      case True
      then have "xs ! n \<in> set l" using last_in by (simp add: l_def)
      then show ?thesis using n(2) xl True by (simp add: nth_append)
    next
      case False
      then have "Suc n < length xs" "\<not> same_graph sp corr (xs ! n) (xs ! Suc n)" using n by (auto simp: nth_append)
      from adj [OF this] obtain m where m: "Suc m < length gs" "xs ! n \<in> set (gs ! m)" "xs ! Suc n \<in> set (gs ! Suc m)" by blast
      have "set (gs ! k) \<subseteq> set ((a @ [l @ [x]]) ! k)" if "k < length gs" for k
        using that gs by (auto simp: nth_append less_Suc_eq)
      then have "xs ! n \<in> set ((a @ [l @ [x]]) ! m)" "xs ! Suc n \<in> set ((a @ [l @ [x]]) ! Suc m)" using m by (meson Suc_lessD subsetD)+
      moreover have "Suc m < length (a @ [l @ [x]])" using m(1) gs by simp
      moreover have "(xs @ [x]) ! n = xs ! n" "(xs @ [x]) ! Suc n = xs ! Suc n" using \<open>Suc n < length xs\<close> by (simp_all add: nth_append)
      ultimately show ?thesis by metis
    qed
    have cc: "concat (a @ [l @ [x]]) = xs @ [x]" "[] \<notin> set (a @ [l @ [x]])" using c gs by auto
    show ?thesis unfolding step groups_ok_def using cc u ad by blast
  next
    case False
    then have step: "graph_step sp corr x gs = gs @ [[x]]" by (auto simp: graph_step_def)
    have ad: "\<exists>m. Suc m < length (gs @ [[x]]) \<and> (xs @ [x]) ! n \<in> set ((gs @ [[x]]) ! m) \<and> (xs @ [x]) ! Suc n \<in> set ((gs @ [[x]]) ! Suc m)"
      if n: "Suc n < length (xs @ [x])" "\<not> same_graph sp corr ((xs @ [x]) ! n) ((xs @ [x]) ! Suc n)" for n
    proof (cases "Suc n = length xs")
      case True
      then have ne: "gs \<noteq> []" "xs ! n \<in> set (last gs)" using last_in c(1) by auto
      then show ?thesis using True by (intro exI [of _ "length gs - 1"]) (auto simp: nth_append last_conv_nth)
    next
      case False
      then have "Suc n < length xs" "\<not> same_graph sp corr (xs ! n) (xs ! Suc n)" using n by (auto simp: nth_append)
      from adj [OF this] obtain m where "Suc m < length gs" "xs ! n \<in> set (gs ! m)" "xs ! Suc n \<in> set (gs ! Suc m)" by blast
      then show ?thesis using False n(1) by (intro exI [of _ m]) (auto simp: nth_append)
    qed
    have cc: "concat (gs @ [[x]]) = xs @ [x]" "[] \<notin> set (gs @ [[x]])" using c by auto
    have u: "y = hd g \<or> (\<forall>z\<in>set g. same_graph sp corr z y)" if g: "g \<in> set (gs @ [[x]])" "y \<in> set g" for g y
      using uni [of g y] g by auto
    show ?thesis unfolding step groups_ok_def using cc u ad by blast
  qed
qed

lemma graph_groups_ok: "groups_ok sp corr lst (graph_groups sp corr lst)"
proof (induction lst rule: rev_induct)
  case (snoc x xs)
  then show ?case using groups_ok_step [OF snoc.IH, of x] by (simp add: graph_groups_def)
qed (simp add: groups_ok_def graph_groups_def)

lemma last_to_finish_ge:
  assumes "x \<in> set g"
  shows "last_to_finish sp g \<in> set g" "effective_end_ns (span_at sp x) \<le> effective_end_ns (span_at sp (last_to_finish sp g))"
proof -
  have "max_key (\<lambda>j. effective_end_ns (span_at sp j)) g \<noteq> None" using assms by (auto simp del: not_None_eq)
  then obtain m where m: "max_key (\<lambda>j. effective_end_ns (span_at sp j)) g = Some m" by blast
  from max_key_Some [OF m] assms m
  show "last_to_finish sp g \<in> set g" "effective_end_ns (span_at sp x) \<le> effective_end_ns (span_at sp (last_to_finish sp g))"
    by (simp_all add: last_to_finish_def)
qed


definition demo_stream :: spans where
  "demo_stream = List.enumerate 0
     [mk_span ''cudaLaunchKernel'' GPU_CUDA 0 2 1 7 [(''side'', ''cpu''), (''rt'', ''cuda''), (''op'', ''kernel''), (''corr'', ''1'')],
      mk_span ''cudaGraphLaunch'' GPU_CUDA 3 2 1 7 [(''side'', ''cpu''), (''rt'', ''cuda''), (''op'', ''graph''), (''corr'', ''2'')],
      mk_span ''k0'' GPU_CUDA 4 3 1 0 [(''side'', ''gpu''), (''rt'', ''cuda''), (''op'', ''kernel''), (''corr'', ''1''), (''stream'', ''3'')],
      mk_span ''g1'' GPU_CUDA 8 5 1 0 [(''side'', ''gpu''), (''rt'', ''cuda''), (''op'', ''kernel''), (''corr'', ''2''), (''stream'', ''3'')],
      mk_span ''g2'' GPU_CUDA 8 4 1 0 [(''side'', ''gpu''), (''rt'', ''cuda''), (''op'', ''kernel''), (''corr'', ''2''), (''stream'', ''3'')],
      mk_span ''cudaStreamSynchronize'' SYNC 6 8 1 7 [(''side'', ''cpu''), (''rt'', ''cuda''), (''op'', ''sync''), (''stream'', ''3'')]]"


section \<open>Synchronization\<close>

lemma ended_by_spec:
  "ended_by sp lst limit tries n = Some j \<Longrightarrow>
     \<exists>k<n. j = lst ! k \<and> effective_end_ns (span_at sp j) \<le> limit
       \<and> (\<forall>i. k < i \<and> i < n \<longrightarrow> limit < effective_end_ns (span_at sp (lst ! i)))"
proof (induction sp lst limit tries n rule: ended_by.induct)
  case (3 sp lst limit tries n)
  show ?case
  proof (cases "effective_end_ns (span_at sp (lst ! n)) \<le> limit")
    case True
    then show ?thesis using 3(2) by (auto intro!: exI [of _ n])
  next
    case False
    then obtain k where "k < n" "j = lst ! k" "effective_end_ns (span_at sp j) \<le> limit"
      "\<forall>i. k < i \<and> i < n \<longrightarrow> limit < effective_end_ns (span_at sp (lst ! i))" using 3 by auto
    then show ?thesis using False by (intro exI [of _ k]) (auto simp: less_Suc_eq)
  qed
qed simp_all

lemma streams_entry:
  assumes "map_of (streams sp corr) k = Some lst"
  shows "sorted (map (fifo_key sp corr) lst)" "j \<in> set lst \<longleftrightarrow> j \<in> set (stream_work sp) \<and> stream_of sp corr j = Some k"
proof -
  obtain ks js where e: "(ks, js) \<in> set (group_by (stream_of sp corr) (filter (\<lambda>i. stream_of sp corr i \<noteq> None) (stream_work sp)))"
    "k = the ks" "lst = sort_key (fifo_key sp corr) js"
    using map_of_SomeD [OF assms] by (auto simp: streams_def)
  note g = group_by_entry [OF e(1)]
  have "ks \<in> stream_of sp corr ` set (filter (\<lambda>i. stream_of sp corr i \<noteq> None) (stream_work sp))"
    using e(1) group_by_keys by (metis fst_conv image_eqI)
  then have "ks \<noteq> None" by (auto simp del: not_None_eq)
  then have ks: "ks = Some k" using e(2) by simp
  show "sorted (map (fifo_key sp corr) lst)" by (simp add: e(3))
  show "j \<in> set lst \<longleftrightarrow> j \<in> set (stream_work sp) \<and> stream_of sp corr j = Some k"
  proof -
    have "lst = sort_key (fifo_key sp corr) (filter (\<lambda>i. stream_of sp corr i = Some k) (filter (\<lambda>i. stream_of sp corr i \<noteq> None) (stream_work sp)))"
      using g(1) ks e(3) by simp
    then have "j \<in> set lst \<longleftrightarrow> j \<in> set (stream_work sp) \<and> stream_of sp corr j \<noteq> None \<and> stream_of sp corr j = Some k"
      by (simp del: not_None_eq)
    then show ?thesis by (metis option.distinct(1))
  qed
qed

lemma last_before_spec:
  assumes "last_before (gpu_view_of sp) k cutoff limit = Some j"
  shows "stream_of sp (correlate sp) j = Some k" "submission_ns sp (correlate sp) j < cutoff"
    "effective_end_ns (span_at sp j) \<le> limit"
proof -
  let ?c = "correlate sp"
  obtain lst where lst: "map_of (streams sp ?c) k = Some lst"
    "ended_by sp lst limit 64 (bisect_left (map (submission_ns sp ?c) lst) cutoff) = Some j"
    using assms by (auto simp: last_before_def gpu_view_of_def submitted_def Let_def split: option.splits)
  from ended_by_spec [OF lst(2)] obtain i where i: "i < bisect_left (map (submission_ns sp ?c) lst) cutoff" "j = lst ! i"
    "effective_end_ns (span_at sp j) \<le> limit" by blast
  have "sorted (map fst (map (fifo_key sp ?c) lst))"
    using streams_entry(1) [OF lst(1)] by (rule sorted_map_mono) (auto simp: mono_on_def less_eq_prod_def)
  then have "sorted (map (submission_ns sp ?c) lst)" by (simp add: fifo_key_def comp_def)
  from bisect_left_splits [OF this, of cutoff] i(1)
  have len: "i < length lst" "submission_ns sp ?c (lst ! i) < cutoff" by (auto simp: splits_at_def)
  then show "stream_of sp ?c j = Some k" "submission_ns sp ?c j < cutoff" "effective_end_ns (span_at sp j) \<le> limit"
    using i streams_entry(2) [OF lst(1)] nth_mem by auto
qed

text \<open>A stream of a process and runtime.\<close>

definition in_process :: "int \<Rightarrow> string \<Rightarrow> stream \<Rightarrow> bool" where
  "in_process p rt k \<longleftrightarrow> fst k = p \<and> fst (snd k) = rt"

lemma waited_causal:
  assumes "(j, c) \<in> set (waited (gpu_view_of sp) cutoff limit ks)" "cutoff \<le> t" "\<forall>x\<in>set ks. in_process p rt (fst x)"
  shows "\<exists>dev st. stream_of sp (correlate sp) j = Some (p, rt, dev, st) \<and> submission_ns sp (correlate sp) j < t
    \<and> effective_end_ns (span_at sp j) \<le> limit"
proof -
  obtain x where x: "x \<in> set ks" "map_option (\<lambda>j. (j, snd x)) (last_before (gpu_view_of sp) (fst x) cutoff limit) = Some (j, c)"
    using assms(1) unfolding waited_def map_filter_set case_prod_beta by (elim bexE)
  then have j: "last_before (gpu_view_of sp) (fst x) cutoff limit = Some j" by (cases "last_before (gpu_view_of sp) (fst x) cutoff limit") simp_all
  have "fst x = (p, rt, fst (snd (snd (fst x))), snd (snd (snd (fst x))))"
    using bspec [OF assms(3) x(1)] unfolding in_process_def by (metis prod.collapse)
  then have "stream_of sp (correlate sp) j = Some (p, rt, fst (snd (snd (fst x))), snd (snd (snd (fst x))))"
    using last_before_spec(1) [OF j] by (simp only:)
  moreover have "submission_ns sp (correlate sp) j < t" using last_before_spec(2) [OF j] assms(2) by (rule less_le_trans)
  ultimately show ?thesis using last_before_spec(3) [OF j] by blast
qed

lemma streams_of_process: "k \<in> set (streams_of g p rt) \<Longrightarrow> in_process p rt k"
  by (auto simp: streams_of_def in_process_def)

lemma stream_keys_process: "x \<in> set (stream_keys g p rt dev st) \<Longrightarrow> in_process p rt (fst x)"
proof (cases st)
  case (Some t)
  assume x: "x \<in> set (stream_keys g p rt dev st)"
  show ?thesis
  proof (cases "dev \<noteq> None \<and> map_of (gv_streams g) (p, rt, dev, t) \<noteq> None")
    case True
    then show ?thesis using x unfolding Some by (simp add: stream_keys_def in_process_def)
  next
    case False
    then have "fst x \<in> set (streams_of g p rt)"
      using x unfolding Some stream_keys_def Let_def option.case if_not_P [OF False] by auto
    then show ?thesis by (rule streams_of_process)
  qed
qed (simp add: stream_keys_def)

lemma record_before_starts:
  assumes "record_before g p rt event t = Some r"
  shows "start_ns (span_at (gv_spans g) r) < t"
proof -
  obtain e n where e: "event = Some e" "n = bisect_left (map (\<lambda>i. start_ns (span_at (gv_spans g) i)) (records_of g p rt e)) t"
    "0 < n" "r = records_of g p rt e ! (n - 1)"
    using assms by (auto simp: record_before_def Let_def split: option.splits if_splits)
  have "sorted (map (\<lambda>i. start_ns (span_at (gv_spans g) i)) (records_of g p rt e))" by (simp add: records_of_def)
  from bisect_left_splits [OF this, of t] e(2,3) have "n - 1 < length (records_of g p rt e)"
    "map (\<lambda>i. start_ns (span_at (gv_spans g) i)) (records_of g p rt e) ! (n - 1) < t"
    by (auto simp: splits_at_def)
  then show ?thesis using e(4) by simp
qed

text \<open>
  C13. A synchronization call (of a stream, an event or a device) waits only for device work of its
  own process and runtime that was submitted before the call started and had ended, within the
  clock tolerance, when the call returned.
\<close>

theorem sync_waits_causal:
  assumes "(j, c) \<in> set (sync_targets (gpu_view_of sp) l i)"
  shows "\<exists>dev st. stream_of sp (correlate sp) j = Some (pid (span_at sp i), rt_of (span_at sp i), dev, st)
    \<and> submission_ns sp (correlate sp) j < start_ns (span_at sp i)
    \<and> effective_end_ns (span_at sp j) \<le> end_ns (span_at sp i) + CLOCK_TOLERANCE_NS"
proof -
  let ?g = "gpu_view_of sp" and ?s = "span_at sp i"
  have sp [simp]: "gv_spans ?g = sp" by (simp add: gpu_view_of_def Let_def)
  note causal = waited_causal [of j _ sp _ "sync_limit ?s" _ "start_ns ?s" "pid ?s" "rt_of ?s", unfolded sync_limit_def]
  consider "(j, c) \<in> set (stream_targets ?g i)" | "(j, c) \<in> set (event_targets ?g l i)" | "(j, c) \<in> set (device_targets ?g i)"
    using assms unfolding sync_targets_def Let_def by (simp only: empty_iff list.set split: if_split_asm)
  then show ?thesis
  proof cases
    case 1
    then show ?thesis unfolding stream_targets_def Let_def sp sync_limit_def
      by (rule causal) (simp_all add: stream_keys_process)
  next
    case 2
    show ?thesis
    proof (cases "record_before ?g (pid ?s) (rt_of ?s) (tag ?s ''event'') (start_ns ?s)")
      case None
      have "(j, c) \<in> set (waited ?g (start_ns ?s) (sync_limit ?s) (map (\<lambda>k. (k, Medium)) (streams_of ?g (pid ?s) (rt_of ?s))))"
        using 2 None by (simp add: event_targets_def Let_def)
      then show ?thesis unfolding sync_limit_def by (rule causal) (simp_all add: streams_of_process)
    next
      case (Some r)
      obtain c' where "(j, c') \<in> set (waited ?g (start_ns (span_at sp r)) (sync_limit ?s)
          (stream_keys ?g (pid ?s) (rt_of ?s) (host_dev ?g r) (tag (span_at sp r) ''stream'')))"
        using 2 unfolding event_targets_def Let_def sp Some option.case by (auto simp del: split_paired_Ex)
      then show ?thesis unfolding sync_limit_def
        by (rule causal) (use record_before_starts [OF Some] in \<open>simp_all add: stream_keys_process\<close>)
    qed
  next
    case 3
    then show ?thesis unfolding device_targets_def Let_def sp sync_limit_def
      by (rule causal) (simp, unfold List.map_filter_def, auto simp del: split_paired_All intro: streams_of_process)
  qed
qed

lemma sync_waits_causal_witness:
  "(4, Certain) \<in> set (sync_targets (gpu_view_of demo_stream) (LossPids []) 5) \<and>
   submission_ns demo_stream (correlate demo_stream) 4 < start_ns (span_at demo_stream 5)"
proof -
  have "(4, Certain) \<in> set (sync_targets (gpu_view_of demo_stream) (LossPids []) 5)" by code_simp
  then show ?thesis using sync_waits_causal by blast
qed

end
