(* ===== verification/Nccl_Edges.thy ===== *)
theory Nccl_Edges
  imports Rendezvous_Facts
begin

text \<open>
  \<^verbatim>\<open>src/src/analysis/semantics/nccl.py\<close> and \<open>_add_nccl_edges\<close> of
  \<^verbatim>\<open>src/src/analysis/criticalpath.py\<close>: the span timing an NCCL operation's work, the
  point-to-point pairs by issue number and the collectives by sequence number.
\<close>

definition nccl_spans :: "spans \<Rightarrow> spans" where
  "nccl_spans sp = filter (\<lambda>(i, s). category_value (category s) = ''nccl'') sp"

definition device_copies :: "spans \<Rightarrow> (int \<times> string, nat) dict" where
  "device_copies nccl =
     fold (\<lambda>(i, s) d. if tag_is s ''side'' ''gpu'' \<and> parent_span_id s \<noteq> [] then AList.update (pid s, parent_span_id s) i d else d)
       nccl []"

type_synonym group_key = "int \<times> string option \<times> string option"

definition exec_key :: "span_event \<Rightarrow> group_key" where
  "exec_key s = (pid s, tag s ''group'', tag s ''stream'')"

definition group_work :: "spans \<Rightarrow> (int \<times> string, nat) dict \<Rightarrow> nat \<times> span_event \<Rightarrow> (group_key, nat) dict \<Rightarrow> (group_key, nat) dict" where
  "group_work sp dev_of p d =
     (let (i, s) = p in
      if tag_is s ''type'' ''group_exec'' then
        (let j = (if tag_is s ''side'' ''cpu'' \<and> span_id s \<noteq> [] then dict_get dev_of (pid s, span_id s) i else i) in
         if map_of d (exec_key s) = None \<or> tag_is (span_at sp j) ''side'' ''gpu'' then AList.update (exec_key s) j d else d)
      else d)"

definition group_execs :: "spans \<Rightarrow> (group_key, nat) dict" where
  "group_execs sp = fold (group_work sp (device_copies (nccl_spans sp))) (nccl_spans sp) []"

definition work_of :: "(int \<times> string, nat) dict \<Rightarrow> (group_key, nat) dict \<Rightarrow> span_event \<Rightarrow> nat option" where
  "work_of dev_of execs s =
     (if tag_is s ''type'' ''group_exec'' then None
      else if tag_is s ''timing'' ''deferred'' then map_of execs (exec_key s)
      else if tag_is s ''side'' ''cpu'' \<and> span_id s \<noteq> [] then map_of dev_of (pid s, span_id s)
      else None)"

definition nccl_effective :: "spans \<Rightarrow> (nat, nat) dict" where
  "nccl_effective sp =
     fold (\<lambda>(i, s) d. case work_of (device_copies (nccl_spans sp)) (group_execs sp) s of None \<Rightarrow> d | Some j \<Rightarrow> AList.update i j d)
       (nccl_spans sp) []"

definition nccl_operations :: "spans \<Rightarrow> spans" where
  "nccl_operations sp =
     filter (\<lambda>(i, s). \<not> tag_is s ''side'' ''gpu'' \<and> \<not> tag_in s ''type'' [''group'', ''group_exec'']) (nccl_spans sp)"

type_synonym issue = "string \<times> string option \<times> string option \<times> string"

definition issued :: "string \<Rightarrow> span_event \<Rightarrow> bool" where
  "issued typ s \<longleftrightarrow> tag_is s ''type'' typ \<and> tag_truthy s ''pseq'' \<and> tag_truthy s ''commid''"

definition issue_key :: "string \<Rightarrow> string \<Rightarrow> span_event \<Rightarrow> issue" where
  "issue_key sender receiver s = (the (tag s ''commid''), tag s sender, tag s receiver, the (tag s ''pseq''))"

definition nccl_sends :: "spans \<Rightarrow> (issue, nat) dict" where
  "nccl_sends ops =
     fold (\<lambda>(i, s) d. if issued ''send'' s then AList.update (issue_key ''rank'' ''peer'' s) i d else d) ops []"

definition nccl_p2p_edges :: "spans \<Rightarrow> (nat, nat) dict \<Rightarrow> loss \<Rightarrow> sedge list" where
  "nccl_p2p_edges sp eff l =
     (let ops = nccl_operations sp; sends = nccl_sends ops in
      List.map_filter (\<lambda>(r, s).
        if \<not> issued ''recv'' s then None
        else case map_of sends (issue_key ''peer'' ''rank'' s) of
            None \<Rightarrow> None
          | Some sent_by \<Rightarrow>
              (let a = dict_get eff sent_by sent_by; b = dict_get eff r r in
               if a = b then None
               else Some (gated_by b a S_p2p (if lossy l [pid (span_at sp sent_by), pid (span_at sp r)] then Low else Certain))))
        ops)"

definition nccl_item :: "spans \<Rightarrow> (nat, nat) dict \<Rightarrow> nat \<times> span_event \<Rightarrow> ritem option" where
  "nccl_item sp eff p =
     (let (i, s) = p; typ = dict_get (tags s) ''type'' []; j = dict_get eff i i; w = span_at sp j in
      if typ \<notin> set NCCL_COLLECTIVE_TYPES \<or> duration_ns w \<le> 0 then None
      else Some \<lparr>ri_start = start_ns w, ri_end = start_ns w + duration_ns w, ri_idx = j, ri_member = Lane_Pid (pid s), ri_tid = tid s,
        ri_type = typ, ri_comm = tag s ''commid'', ri_seq = tag s ''seq'', ri_team = None\<rparr>)"

definition nccl_edges :: "spans \<Rightarrow> loss \<Rightarrow> sedge list" where
  "nccl_edges sp l =
     (let eff = nccl_effective sp;
          items = List.map_filter (nccl_item sp eff) (nccl_operations sp)
      in nccl_p2p_edges sp eff l @ concat (map (group_arrival_edges items) (rendezvous_groups R_nccl items)))"

end
