(* ===== verification/Openmp_Edges.thy ===== *)
theory Openmp_Edges
  imports Rendezvous_Facts
begin

text \<open>
  \<^verbatim>\<open>src/src/analysis/semantics/openmp.py\<close>: task joins and dependences from the OMPT tool's task
  ids, and lock hand-offs. \<open>descend\<close> is the search for a taskgroup's descendants: the code keeps
  the tasks found both in the list \<open>waited\<close> and in the set \<open>seen\<close>, which always agree.
\<close>

definition HANDOFF_TOLERANCE_NS :: int where
  "HANDOFF_TOLERANCE_NS = 50000"

definition work_end :: "span_event \<Rightarrow> int" where
  "work_end s = start_ns s + max 0 (duration_ns s)"

section \<open>Tasks\<close>

record omp_process =
  op_exec :: "(string, nat list) dict"
  op_created :: "(string, string \<times> int) dict"
  op_joins :: "nat list"

definition no_tasks :: omp_process where
  "no_tasks = \<lparr>op_exec = [], op_created = [], op_joins = []\<rparr>"

definition note_task :: "nat \<times> span_event \<Rightarrow> omp_process \<Rightarrow> omp_process" where
  "note_task ev p =
     (let (i, s) = ev; cat = category_value (category s) in
      if cat = ''openmp'' \<and> name s = ''omp_task'' \<and> tag_truthy s ''id''
        then p\<lparr>op_exec := dict_append (the (tag s ''id'')) i (op_exec p)\<rparr>
      else if cat = ''openmp'' \<and> tag_is s ''type'' ''task_create'' \<and> tag_truthy s ''id'' \<and> tag s ''parent'' \<noteq> None
        then p\<lparr>op_created := AList.update (the (tag s ''id'')) (the (tag s ''parent''), start_ns s) (op_created p)\<rparr>
      else if cat = ''sync'' \<and> name s \<in> {''omp_taskwait'', ''omp_taskgroup''} \<and> tag_truthy s ''task''
        then p\<lparr>op_joins := op_joins p @ [i]\<rparr>
      else p)"

type_synonym children = "(string, (int \<times> string) list) dict"

definition task_children :: "omp_process \<Rightarrow> children" where
  "task_children p =
     map (\<lambda>(k, l). (k, sort l)) (fold (\<lambda>(t, parent, created). dict_append parent (created, t)) (op_created p) [])"

definition found :: "string \<Rightarrow> string list \<times> string list \<Rightarrow> string list \<times> string list" where
  "found t st = (let (todo, waited) = st in if t \<in> set waited then st else (todo @ [t], waited @ [t]))"

definition kids :: "children \<Rightarrow> string \<Rightarrow> string list" where
  "kids ch t = map snd (dict_get ch t [])"

definition all_kids :: "children \<Rightarrow> string set" where
  "all_kids ch = (\<Union>p\<in>set ch. snd ` set (snd p))"

lemma finite_all_kids [simp]: "finite (all_kids ch)"
  by (simp add: all_kids_def)

lemma kids_all: "set (kids ch t) \<subseteq> all_kids ch"
proof (cases "map_of ch t")
  case (Some l)
  then have "(t, l) \<in> set ch" by (rule map_of_SomeD)
  then show ?thesis using Some by (force simp: kids_def all_kids_def dict_get_def)
qed (simp add: kids_def dict_get_def)

lemma found_fold:
  "set (snd (fold found ts (todo, waited))) = set waited \<union> set ts
   \<and> (fold found ts (todo, waited) = (todo, waited) \<or> (\<exists>t\<in>set ts. t \<notin> set waited))"
proof (induction ts arbitrary: todo waited)
  case (Cons t ts)
  show ?case
  proof (cases "t \<in> set waited")
    case True
    then show ?thesis using Cons [of todo waited] by (auto simp: found_def)
  next
    case False
    then show ?thesis using Cons [of "todo @ [t]" "waited @ [t]"] by (auto simp: found_def)
  qed
qed simp

function descend :: "children \<Rightarrow> string list \<Rightarrow> string list \<Rightarrow> string list" where
  "descend ch todo waited =
     (if todo = [] then waited
      else (let (todo', waited') = fold found (kids ch (last todo)) (butlast todo, waited) in descend ch todo' waited'))"
  by pat_completeness auto

termination
proof (relation "measures [\<lambda>(ch, todo, waited). card (all_kids ch - set waited), \<lambda>(ch, todo, waited). length todo]")
  fix ch todo waited x todo' waited'
  assume todo: "todo \<noteq> []" and x: "x = fold found (kids ch (last todo)) (butlast todo, waited)" "(todo', waited') = x"
  have set: "set waited' = set waited \<union> set (kids ch (last todo))"
    and new: "(todo', waited') = (butlast todo, waited) \<or> (\<exists>t\<in>set (kids ch (last todo)). t \<notin> set waited)"
    using found_fold [of "kids ch (last todo)" "butlast todo" waited] x by (metis snd_conv)+
  show "((ch, todo', waited'), ch, todo, waited) \<in>
      measures [\<lambda>(ch, todo, waited). card (all_kids ch - set waited), \<lambda>(ch, todo, waited). length todo]"
  proof (cases "\<exists>t\<in>set (kids ch (last todo)). t \<notin> set waited")
    case True
    then have "all_kids ch - set waited' \<subset> all_kids ch - set waited" using set kids_all by blast
    then have "card (all_kids ch - set waited') < card (all_kids ch - set waited)" by (simp add: psubset_card_mono)
    then show ?thesis by simp
  next
    case False
    then show ?thesis using new todo by simp
  qed
qed simp

declare descend.simps [simp del]

definition waited_tasks :: "children \<Rightarrow> span_event \<Rightarrow> string list" where
  "waited_tasks ch s =
     (let mine = dict_get ch (the (tag s ''task'')) [] in
      if name s = ''omp_taskwait'' then map snd (filter (\<lambda>(created, t). created < start_ns s) mine)
      else (let inside = map snd (filter (\<lambda>(created, t). start_ns s \<le> created \<and> created \<le> work_end s) mine)
            in descend ch inside inside))"

definition task_completion :: "spans \<Rightarrow> omp_process \<Rightarrow> string \<Rightarrow> nat option" where
  "task_completion sp p t = Option.bind (map_of (op_exec p) t) (max_key (\<lambda>j. work_end (span_at sp j)))"

definition task_first :: "spans \<Rightarrow> omp_process \<Rightarrow> string \<Rightarrow> nat option" where
  "task_first sp p t = Option.bind (map_of (op_exec p) t) (min_key (\<lambda>j. start_ns (span_at sp j)))"

definition join_edges :: "spans \<Rightarrow> omp_process \<Rightarrow> nat \<Rightarrow> sedge list" where
  "join_edges sp p j =
     List.map_filter (\<lambda>t. case task_completion sp p t of
         None \<Rightarrow> None
       | Some k \<Rightarrow> if k = j then None else Some (gated_by j k S_task_join Certain))
       (waited_tasks (task_children p) (span_at sp j))"

definition dependence_edge :: "spans \<Rightarrow> omp_process \<Rightarrow> string \<times> string \<Rightarrow> sedge option" where
  "dependence_edge sp p d =
     (case (task_completion sp p (fst d), task_first sp p (snd d)) of
        (Some a, Some b) \<Rightarrow> if a = b then None else Some (gated_by b a S_task_dep Certain)
      | _ \<Rightarrow> None)"

definition task_dependence :: "instant_event \<Rightarrow> (int \<times> string \<times> string) option" where
  "task_dependence ins =
     (let src = dict_get (i_tags ins) ''src'' []; sink = dict_get (i_tags ins) ''sink'' [] in
      if i_name ins = ''omp_task_dependence'' \<and> src \<noteq> [] \<and> sink \<noteq> [] then Some (i_pid ins, src, sink) else None)"

definition omp_process_of :: "spans \<Rightarrow> int \<Rightarrow> omp_process" where
  "omp_process_of sp p = fold note_task (filter (\<lambda>(i, s). pid s = p) sp) no_tasks"

definition process_task_edges :: "spans \<Rightarrow> (int \<times> string \<times> string) list \<Rightarrow> int \<Rightarrow> sedge list" where
  "process_task_edges sp deps p =
     (let pr = omp_process_of sp p in
      concat (map (join_edges sp pr) (op_joins pr))
      @ List.map_filter (dependence_edge sp pr) (map snd (filter (\<lambda>d. fst d = p) deps)))"

text \<open>A process without tasks, joins or dependences has no edges.\<close>

definition task_edges :: "spans \<Rightarrow> instant_event list \<Rightarrow> sedge list" where
  "task_edges sp instants =
     (let deps = List.map_filter task_dependence instants in
      concat (map (process_task_edges sp deps) (sort (remdups (map (\<lambda>(i, s). pid s) sp @ map fst deps)))))"

section \<open>Locks\<close>

type_synonym lock_key = "int \<times> string \<times> string"

definition lock_key :: "span_event \<Rightarrow> lock_key option" where
  "lock_key s =
     (let lock = or_tag s ''wait_id'' ''lock'' in
      if lock \<noteq> None \<and> lock \<noteq> Some [] \<and> tag s ''mutex'' \<noteq> None then Some (pid s, the (tag s ''mutex''), the lock)
      else if name s \<in> {''omp_critical_wait'', ''omp_critical_hold''} \<and> tag s ''named'' = None \<and> tag s ''mutex'' = None
        then Some (pid s, ''critical'', ''unnamed'')
      else None)"

definition is_hold :: "span_event \<Rightarrow> bool" where
  "is_hold s \<longleftrightarrow> ends_with ''_hold'' (name s) \<or> tag_is s ''type'' ''hold''"

definition is_wait :: "span_event \<Rightarrow> bool" where
  "is_wait s \<longleftrightarrow> \<not> is_hold s \<and> ends_with ''_wait'' (name s)"

definition lock_lists :: "(span_event \<Rightarrow> bool) \<Rightarrow> spans \<Rightarrow> (lock_key, nat list) dict" where
  "lock_lists sel sp =
     fold (\<lambda>(i, s) d. case lock_key s of None \<Rightarrow> d | Some k \<Rightarrow> if sel s then dict_append k i d else d) sp []"

definition lock_text :: "lock_key \<Rightarrow> string" where
  "lock_text k = (case k of (p, m, l) \<Rightarrow> ''('' @ show_int p @ '', '' @ py_repr m @ '', '' @ py_repr l @ '')'')"

text \<open>The last of the first \<open>n\<close> releases made by another thread.\<close>

fun other_release :: "spans \<Rightarrow> nat list \<Rightarrow> int \<Rightarrow> nat \<Rightarrow> nat option" where
  "other_release sp hl t 0 = None"
| "other_release sp hl t (Suc n) = (if tid (span_at sp (hl ! n)) = t then other_release sp hl t n else Some n)"

definition handoff :: "spans \<Rightarrow> nat list \<Rightarrow> nat \<Rightarrow> sedge option" where
  "handoff sp hl w =
     (let ends = map (\<lambda>j. work_end (span_at sp j)) hl;
          sw = span_at sp w;
          acquired = work_end sw
      in case other_release sp hl (tid sw) (bisect_right ends (acquired + HANDOFF_TOLERANCE_NS)) of
           None \<Rightarrow> None
         | Some k \<Rightarrow>
             if ends ! k \<ge> start_ns sw \<and> acquired - ends ! k \<le> HANDOFF_TOLERANCE_NS
             then Some (gated_by w (hl ! k) S_lock_order High) else None)"

definition lock_releases :: "spans \<Rightarrow> lock_key \<Rightarrow> nat list" where
  "lock_releases sp k = sort_key (\<lambda>j. work_end (span_at sp j)) (dict_get (lock_lists is_hold sp) k [])"

definition lock_edges :: "spans \<Rightarrow> sedge list" where
  "lock_edges sp =
     concat (map (\<lambda>(k, ws). List.map_filter (handoff sp (lock_releases sp k)) ws)
       (sort_key (\<lambda>p. lock_text (fst p)) (lock_lists is_wait sp)))"

end
