(* ===== verification/Openmp_Facts.thy ===== *)
theory Openmp_Facts
  imports Openmp_Edges Correlation_Facts
begin

text \<open>
  A taskgroup waits for exactly the tasks created inside it and their descendants, and a lock
  hand-off comes from the latest release by another thread.
\<close>

section \<open>Descendants\<close>

definition kid_of :: "children \<Rightarrow> string \<Rightarrow> string \<Rightarrow> bool" where
  "kid_of ch a b \<longleftrightarrow> b \<in> set (kids ch a)"

definition closed_but :: "children \<Rightarrow> string list \<Rightarrow> string list \<Rightarrow> bool" where
  "closed_but ch todo waited \<longleftrightarrow> set todo \<subseteq> set waited \<and> (\<forall>w\<in>set waited - set todo. set (kids ch w) \<subseteq> set waited)"

lemma found_fold_todo:
  "set todo \<union> (set (snd (fold found ts (todo, waited))) - set waited) \<subseteq> set (fst (fold found ts (todo, waited))) \<and>
   set (fst (fold found ts (todo, waited))) \<subseteq> set todo \<union> set ts"
proof (induction ts arbitrary: todo waited)
  case (Cons t ts)
  show ?case
  proof (cases "t \<in> set waited")
    case True
    then show ?thesis using Cons [of todo waited] by (auto simp: found_def)
  next
    case False
    then show ?thesis using Cons [of "todo @ [t]" "waited @ [t]"] found_fold [of ts "todo @ [t]" "waited @ [t]"]
      by (simp add: found_def) blast
  qed
qed simp

lemma closed_step:
  assumes "closed_but ch todo waited" "todo \<noteq> []" "fold found (kids ch (last todo)) (butlast todo, waited) = (todo', waited')"
  shows "closed_but ch todo' waited'" "set waited \<subseteq> set waited'" "set waited' = set waited \<union> set (kids ch (last todo))"
proof -
  have w: "set waited' = set waited \<union> set (kids ch (last todo))"
    using found_fold [of "kids ch (last todo)" "butlast todo" waited] assms(3) by simp
  then show "set waited' = set waited \<union> set (kids ch (last todo))" "set waited \<subseteq> set waited'" by auto
  have t: "set (butlast todo) \<union> (set waited' - set waited) \<subseteq> set todo'" "set todo' \<subseteq> set (butlast todo) \<union> set (kids ch (last todo))"
    using found_fold_todo [of "butlast todo" "kids ch (last todo)" waited] assms(3) by simp_all
  have todo: "set todo = insert (last todo) (set (butlast todo))"
    using assms(2) by (metis append_butlast_last_id list.simps(15) rotate1.simps(2) set_rotate1)
  show "closed_but ch todo' waited'"
    unfolding closed_but_def
  proof (intro conjI ballI)
    show "set todo' \<subseteq> set waited'" using t(2) w assms(1) todo by (auto simp: closed_but_def)
    fix x assume "x \<in> set waited' - set todo'"
    then have x: "x \<in> set waited" "x \<notin> set (butlast todo)" using t(1) by auto
    show "set (kids ch x) \<subseteq> set waited'"
    proof (cases "x = last todo")
      case True then show ?thesis using w by simp
    next
      case False
      then have "x \<in> set waited - set todo" using x todo by auto
      then show ?thesis using assms(1) w by (auto simp: closed_but_def)
    qed
  qed
qed

lemma descend_reach:
  assumes "closed_but ch todo waited"
  shows "set (descend ch todo waited) = {t. \<exists>w\<in>set waited. (kid_of ch)\<^sup>*\<^sup>* w t}"
  using assms
proof (induction ch todo waited rule: descend.induct)
  case (1 ch todo waited)
  show ?case
  proof (cases "todo = []")
    case True
    have "t \<in> set waited" if "(kid_of ch)\<^sup>*\<^sup>* w t" "w \<in> set waited" for w t
      using that by (induction rule: rtranclp_induct) (use 1(2) True in \<open>auto simp: closed_but_def kid_of_def\<close>)
    then show ?thesis using True by (subst descend.simps) auto
  next
    case False
    obtain todo' waited' where f: "fold found (kids ch (last todo)) (butlast todo, waited) = (todo', waited')" by force
    note c = closed_step [OF 1(2) False f]
    have IH: "set (descend ch todo' waited') = {t. \<exists>w\<in>set waited'. (kid_of ch)\<^sup>*\<^sup>* w t}"
      using 1(1) [OF False f [symmetric] refl c(1)] .
    have "last todo \<in> set waited" using 1(2) False by (auto simp: closed_but_def)
    then have "{t. \<exists>w\<in>set waited'. (kid_of ch)\<^sup>*\<^sup>* w t} = {t. \<exists>w\<in>set waited. (kid_of ch)\<^sup>*\<^sup>* w t}"
      using c(3) converse_rtranclp_into_rtranclp [of "kid_of ch" "last todo"] by (auto simp: kid_of_def)
    then show ?thesis using IH False f by (subst descend.simps) simp
  qed
qed

lemma fold_children_get:
  "dict_get (fold (\<lambda>(t, parent, created). dict_append parent (created, t)) xs d) q [] =
     dict_get d q [] @ map (\<lambda>(t, parent, created). (created, t)) (filter (\<lambda>(t, parent, created). parent = q) xs)"
proof (induction xs arbitrary: d)
  case (Cons x xs)
  then show ?case by (cases x) auto
qed simp

lemma dict_get_map_values:
  "dict_get (map (\<lambda>(k, l). (k, f l)) d) k [] = (if map_of d k = None then [] else f (dict_get d k []))"
  by (induction d) (auto simp: dict_get_def)

lemma task_children_get:
  "set (dict_get (task_children p) q []) = {(c, t). (t, q, c) \<in> set (op_created p)}"
proof -
  let ?d = "fold (\<lambda>(t, parent, created). dict_append parent (created, t)) (op_created p) []"
  have "set (dict_get (task_children p) q []) = set (dict_get ?d q [])"
    unfolding task_children_def dict_get_map_values by (auto simp: dict_get_def)
  then show ?thesis by (force simp: fold_children_get)
qed

text \<open>\<open>b\<close> was created by \<open>a\<close>, at time \<open>c\<close>.\<close>

definition created_by :: "omp_process \<Rightarrow> string \<Rightarrow> string \<Rightarrow> int \<Rightarrow> bool" where
  "created_by p a b c \<longleftrightarrow> (b, a, c) \<in> set (op_created p)"

lemma kid_of_created: "kid_of (task_children p) a b \<longleftrightarrow> (\<exists>c. created_by p a b c)"
  by (force simp: kid_of_def kids_def task_children_get created_by_def)

text \<open>
  C15. A taskgroup waits for exactly the tasks its task created inside it and all their
  descendants: it has a join edge from each one's completion and no other.
\<close>

theorem taskgroup_exact:
  assumes "name (span_at sp j) = ''omp_taskgroup''" and "tag (span_at sp j) ''task'' = Some me"
  shows "gated_by j k S_task_join Certain \<in> set (join_edges sp p j) \<longleftrightarrow>
    (\<exists>w c t. created_by p me w c \<and> start_ns (span_at sp j) \<le> c \<and> c \<le> work_end (span_at sp j)
       \<and> (\<lambda>a b. \<exists>c. created_by p a b c)\<^sup>*\<^sup>* w t \<and> task_completion sp p t = Some k \<and> k \<noteq> j)"
proof -
  let ?ch = "task_children p" and ?s = "span_at sp j"
  define inside where "inside = map snd (filter (\<lambda>(c, t). start_ns ?s \<le> c \<and> c \<le> work_end ?s) (dict_get ?ch me []))"
  have inside: "w \<in> set inside \<longleftrightarrow> (\<exists>c. created_by p me w c \<and> start_ns ?s \<le> c \<and> c \<le> work_end ?s)" for w
    by (force simp: inside_def task_children_get created_by_def)
  have rel: "kid_of ?ch = (\<lambda>a b. \<exists>c. created_by p a b c)" by (intro ext) (rule kid_of_created)
  have "waited_tasks ?ch ?s = descend ?ch inside inside"
    using assms by (simp add: waited_tasks_def inside_def Let_def)
  moreover have "closed_but ?ch inside inside" by (simp add: closed_but_def)
  ultimately have waited: "set (waited_tasks ?ch ?s) = {t. \<exists>w\<in>set inside. (kid_of ?ch)\<^sup>*\<^sup>* w t}"
    using descend_reach by metis
  have "gated_by j k S_task_join Certain \<in> set (join_edges sp p j) \<longleftrightarrow>
      (\<exists>t\<in>set (waited_tasks ?ch ?s). task_completion sp p t = Some k \<and> k \<noteq> j)"
    by (fastforce simp: join_edges_def List.map_filter_def gated_by_def image_iff split: option.splits if_splits)
  then show ?thesis unfolding waited rel mem_Collect_eq Bex_def inside by blast
qed

definition demo_tasks :: spans where
  "demo_tasks = List.enumerate 0
     [mk_span ''GOMP_task'' OPENMP 11 1 1 7 [(''type'', ''task_create''), (''id'', ''2''), (''parent'', ''1'')],
      mk_span ''GOMP_task'' OPENMP 14 1 1 8 [(''type'', ''task_create''), (''id'', ''3''), (''parent'', ''2'')],
      mk_span ''omp_task'' OPENMP 13 3 1 8 [(''id'', ''2'')],
      mk_span ''omp_task'' OPENMP 17 6 1 8 [(''id'', ''3'')],
      mk_span ''omp_taskgroup'' SYNC 10 15 1 7 [(''task'', ''1'')]]"

lemma taskgroup_exact_witness:
  "gated_by 4 3 S_task_join Certain \<in> set (join_edges demo_tasks (omp_process_of demo_tasks 1) 4) \<and>
   (\<exists>w c t. created_by (omp_process_of demo_tasks 1) ''1'' w c \<and>
      task_completion demo_tasks (omp_process_of demo_tasks 1) t = Some 3)"
proof -
  let ?p = "omp_process_of demo_tasks 1"
  have 1: "name (span_at demo_tasks 4) = ''omp_taskgroup''" "tag (span_at demo_tasks 4) ''task'' = Some ''1''"
    "gated_by 4 3 S_task_join Certain \<in> set (join_edges demo_tasks ?p 4)" by code_simp+
  then show ?thesis using taskgroup_exact [OF 1(1,2), of 3 ?p] by blast
qed

section \<open>Locks\<close>

lemma lock_lists_fold:
  "dict_get (fold (\<lambda>(i, s) d. case lock_key s of None \<Rightarrow> d | Some k \<Rightarrow> if sel s then dict_append k i d else d) sp d) k [] =
     dict_get d k [] @ map fst (filter (\<lambda>(i, s). sel s \<and> lock_key s = Some k) sp)"
proof (induction sp arbitrary: d)
  case (Cons p sp)
  obtain i s where p: "p = (i, s)" by (cases p)
  show ?case
  proof (cases "lock_key s")
    case (Some q)
    then show ?thesis using Cons by (cases "sel s"; cases "q = k") (simp_all add: p)
  qed (simp add: p Cons)
qed simp

lemma lock_lists_get:
  "dict_get (lock_lists sel sp) k [] = map fst (filter (\<lambda>(i, s). sel s \<and> lock_key s = Some k) sp)"
  by (simp add: lock_lists_def lock_lists_fold)

lemma lock_lists_fold_ok:
  "dict_ok d \<Longrightarrow> dict_ok (fold (\<lambda>(i, s) d. case lock_key s of None \<Rightarrow> d | Some k \<Rightarrow> if sel s then dict_append k i d else d) sp d)"
proof (induction sp arbitrary: d)
  case (Cons p sp)
  obtain i s where p: "p = (i, s)" by (cases p)
  have "dict_ok (case lock_key s of None \<Rightarrow> d | Some k \<Rightarrow> if sel s then dict_append k i d else d)"
    using Cons.prems by (cases "lock_key s") (simp_all add: dict_ok_append del: split_paired_All)
  then show ?case using Cons.IH by (simp add: p)
qed simp

lemma lock_lists_ok: "dict_ok (lock_lists sel sp)"
  unfolding lock_lists_def by (rule lock_lists_fold_ok) simp

lemma other_release_spec:
  "other_release sp hl t n = Some k \<Longrightarrow> k < n \<and> tid (span_at sp (hl ! k)) \<noteq> t \<and> (\<forall>i. k < i \<and> i < n \<longrightarrow> tid (span_at sp (hl ! i)) = t)"
proof (induction n)
  case (Suc n)
  show ?case
  proof (cases "tid (span_at sp (hl ! n)) = t")
    case True
    then show ?thesis using Suc less_Suc_eq by fastforce
  next
    case False
    then show ?thesis using Suc.prems by (auto simp: less_Suc_eq)
  qed
qed simp

text \<open>The releases of a lock.\<close>

definition releases :: "spans \<Rightarrow> lock_key \<Rightarrow> nat \<Rightarrow> bool" where
  "releases sp k h \<longleftrightarrow> (\<exists>s. (h, s) \<in> set sp \<and> is_hold s \<and> lock_key s = Some k)"

lemma lock_releases_set: "set (lock_releases sp k) = {h. releases sp k h}"
  by (force simp: lock_releases_def lock_lists_get releases_def)

lemma handoff_latest:
  assumes "handoff sp (lock_releases sp k) w = Some e"
  defines "acquired \<equiv> work_end (span_at sp w)"
  shows "\<exists>h. e = gated_by w h S_lock_order High \<and> releases sp k h \<and> tid (span_at sp h) \<noteq> tid (span_at sp w)
    \<and> start_ns (span_at sp w) \<le> work_end (span_at sp h) \<and> \<bar>acquired - work_end (span_at sp h)\<bar> \<le> HANDOFF_TOLERANCE_NS
    \<and> (\<forall>h'. releases sp k h' \<and> tid (span_at sp h') \<noteq> tid (span_at sp w) \<and> work_end (span_at sp h') \<le> acquired + HANDOFF_TOLERANCE_NS
          \<longrightarrow> work_end (span_at sp h') \<le> work_end (span_at sp h))"
proof -
  define hl ends where "hl = lock_releases sp k" and "ends = map (\<lambda>j. work_end (span_at sp j)) hl"
  have sorted: "sorted ends" by (simp add: ends_def hl_def lock_releases_def)
  define n where "n = bisect_right ends (acquired + HANDOFF_TOLERANCE_NS)"
  have n: "n \<le> length hl" "\<And>i. i < length hl \<Longrightarrow> ends ! i \<le> acquired + HANDOFF_TOLERANCE_NS \<longleftrightarrow> i < n"
    using bisect_right_splits [OF sorted, of "acquired + HANDOFF_TOLERANCE_NS"] by (auto simp: splits_at_def ends_def n_def)
  obtain p where p: "other_release sp hl (tid (span_at sp w)) n = Some p" "start_ns (span_at sp w) \<le> ends ! p"
    "acquired - ends ! p \<le> HANDOFF_TOLERANCE_NS" "e = gated_by w (hl ! p) S_lock_order High"
    using assms(1) unfolding handoff_def Let_def hl_def [symmetric] ends_def [symmetric] acquired_def [symmetric] n_def [symmetric]
    by (auto split: option.splits if_splits)
  note o = other_release_spec [OF p(1)]
  have "p < length hl" using o n(1) by simp
  then have h: "releases sp k (hl ! p)" "ends ! p = work_end (span_at sp (hl ! p))" "ends ! p \<le> acquired + HANDOFF_TOLERANCE_NS"
    using lock_releases_set [of sp k] nth_mem n(2) o by (auto simp: hl_def ends_def)
  have "work_end (span_at sp h') \<le> work_end (span_at sp (hl ! p))"
    if h': "releases sp k h'" "tid (span_at sp h') \<noteq> tid (span_at sp w)" "work_end (span_at sp h') \<le> acquired + HANDOFF_TOLERANCE_NS" for h'
  proof -
    have "h' \<in> set hl" using lock_releases_set [of sp k] h'(1) by (simp add: hl_def)
    then obtain i where i: "i < length hl" "hl ! i = h'" by (auto simp: in_set_conv_nth)
    then have "i < n" using n(2) h'(3) by (auto simp: ends_def)
    then have "i \<le> p" using o h'(2) i(2) by (metis not_le_imp_less)
    then have "ends ! i \<le> ends ! p" using sorted \<open>p < length hl\<close> sorted_nth_mono [of ends i p] by (simp add: ends_def)
    then show ?thesis using i \<open>p < length hl\<close> by (simp add: ends_def)
  qed
  then show ?thesis using h p o by (intro exI [of _ "hl ! p"]) auto
qed

text \<open>
  C34. A lock hand-off edge leads to a contended acquisition from a release of the same lock by
  another thread that is within the tolerance of the acquisition, before or after it, and not
  before the wait began; of the releases by other threads up to the tolerance after the
  acquisition it is the last.
\<close>

theorem lock_handoff:
  assumes "e \<in> set (lock_edges sp)"
  shows "\<exists>k w h s. e = gated_by w h S_lock_order High \<and> (w, s) \<in> set sp \<and> is_wait s \<and> lock_key s = Some k
    \<and> releases sp k h \<and> tid (span_at sp h) \<noteq> tid (span_at sp w)
    \<and> start_ns (span_at sp w) \<le> work_end (span_at sp h)
    \<and> \<bar>work_end (span_at sp w) - work_end (span_at sp h)\<bar> \<le> HANDOFF_TOLERANCE_NS
    \<and> (\<forall>h'. releases sp k h' \<and> tid (span_at sp h') \<noteq> tid (span_at sp w)
          \<and> work_end (span_at sp h') \<le> work_end (span_at sp w) + HANDOFF_TOLERANCE_NS
          \<longrightarrow> work_end (span_at sp h') \<le> work_end (span_at sp h))"
proof -
  obtain k ws w where kw: "(k, ws) \<in> set (lock_lists is_wait sp)" "w \<in> set ws" "handoff sp (lock_releases sp k) w = Some e"
    using assms by (auto simp: lock_edges_def List.map_filter_def)
  have "dict_get (lock_lists is_wait sp) k [] = ws"
    using kw(1) lock_lists_ok [of is_wait sp] by (simp add: dict_get_def)
  then have "ws = map fst (filter (\<lambda>(i, s). is_wait s \<and> lock_key s = Some k) sp)"
    using lock_lists_get [of is_wait sp k] by simp
  then obtain s where "(w, s) \<in> set sp" "is_wait s" "lock_key s = Some k" using kw(2) by auto
  then show ?thesis using handoff_latest [OF kw(3)] by blast
qed

definition demo_locks :: spans where
  "demo_locks = List.enumerate 0
     [mk_span ''omp_critical_hold'' OPENMP 0 20 1 7 [],
      mk_span ''omp_critical_wait'' SYNC 5 16 1 8 [],
      mk_span ''omp_critical_hold'' OPENMP 21 9 1 8 []]"

lemma lock_handoff_witness:
  "lock_edges demo_locks = [gated_by 1 0 S_lock_order High] \<and>
   (\<exists>k h. releases demo_locks k h \<and> tid (span_at demo_locks h) \<noteq> tid (span_at demo_locks 1))"
proof -
  have 1: "lock_edges demo_locks = [gated_by 1 0 S_lock_order High]" by code_simp
  then have 2: "gated_by 1 0 S_lock_order High \<in> set (lock_edges demo_locks)" by simp
  from lock_handoff [OF 2] obtain k w h where "gated_by 1 0 S_lock_order High = gated_by w h S_lock_order High"
    "releases demo_locks k h" "tid (span_at demo_locks h) \<noteq> tid (span_at demo_locks w)" by blast
  then have "releases demo_locks k h" "tid (span_at demo_locks h) \<noteq> tid (span_at demo_locks 1)" by (auto simp: gated_by_eq)
  then show ?thesis using 1 by blast
qed

text \<open>
  The comment in the code says that the release is no later than the acquisition; within the
  tolerance a later one is preferred to an earlier one.
\<close>

lemma handoff_after_acquisition:
  "lock_edges (List.enumerate 0
     [mk_span ''omp_critical_hold'' OPENMP 0 20 1 7 [],
      mk_span ''omp_critical_wait'' SYNC 5 16 1 8 [],
      mk_span ''omp_critical_hold'' OPENMP 22 8 1 9 []]) = [gated_by 1 2 S_lock_order High]"
  by code_simp

end
