(* ===== verification/Opencl_Edges.thy ===== *)
theory Opencl_Edges
  imports Openmp_Edges
begin

text \<open>
  \<^verbatim>\<open>src/src/analysis/semantics/opencl.py\<close>: edges of OpenCL command queues. The state of \<open>walk\<close> holds
  its local variables and \<open>done_by\<close>, which the walks of all queues share.
\<close>

record cmd =
  c_host :: nat
  c_dev :: "nat option"
  c_ev :: "string option"
  c_wait :: "string list"
  c_kind :: string
  c_start :: int
  c_blocking :: bool

definition is_cl_device :: "span_event \<Rightarrow> bool" where
  "is_cl_device s \<longleftrightarrow> tag_is s ''side'' ''gpu'' \<or> ends_with ''_gpu'' (name s)"

definition cl_ids :: "string option \<Rightarrow> string list" where
  "cl_ids v = filter (\<lambda>x. x \<noteq> []) (split_on CHR '';'' (case v of None \<Rightarrow> [] | Some s \<Rightarrow> s))"

record cl_process =
  cl_host :: "(nat, span_event) dict"
  cl_dev :: "(string, nat) dict"
  cl_finish :: "nat list"
  cl_waits :: "nat list"

definition cl_note :: "nat \<times> span_event \<Rightarrow> cl_process \<Rightarrow> cl_process" where
  "cl_note ev p =
     (let (i, s) = ev; cat = category_value (category s) in
      if cat \<notin> {''opencl'', ''memory'', ''sync''} then p
      else if is_cl_device s then
        (if parent_span_id s \<noteq> [] \<and> tag s ''queue'' \<noteq> None then p\<lparr>cl_dev := AList.update (parent_span_id s) i (cl_dev p)\<rparr> else p)
      else if cat = ''sync'' \<and> name s = ''clFinish'' \<and> tag s ''queue'' \<noteq> None then p\<lparr>cl_finish := cl_finish p @ [i]\<rparr>
      else if cat = ''sync'' \<and> name s = ''clWaitForEvents'' \<and> tag s ''nwait'' \<noteq> None then p\<lparr>cl_waits := cl_waits p @ [i]\<rparr>
      else if tag s ''queue'' \<noteq> None then p\<lparr>cl_host := AList.update i s (cl_host p)\<rparr>
      else p)"

definition cl_process_of :: "spans \<Rightarrow> int \<Rightarrow> cl_process" where
  "cl_process_of sp p =
     fold cl_note (filter (\<lambda>(i, s). pid s = p) sp) \<lparr>cl_host = [], cl_dev = [], cl_finish = [], cl_waits = []\<rparr>"

definition queue_of :: "span_event \<Rightarrow> string" where
  "queue_of s = the (tag s ''queue'')"

definition cl_cmd :: "cl_process \<Rightarrow> nat \<Rightarrow> span_event \<Rightarrow> cmd" where
  "cl_cmd p i s =
     (let typ = dict_get (tags s) ''type'' [] in
      \<lparr>c_host = i, c_dev = (if span_id s \<noteq> [] then map_of (cl_dev p) (span_id s) else None), c_ev = tag s ''ev'',
       c_wait = cl_ids (tag s ''wait''), c_kind = (if typ \<in> {''marker'', ''barrier''} then typ else ''command''),
       c_start = start_ns s, c_blocking = tag_is s ''blocking'' ''1''\<rparr>)"

definition cl_hosts :: "cl_process \<Rightarrow> (nat \<times> span_event) list" where
  "cl_hosts p = sort_key fst (cl_host p)"

definition cl_queues :: "cl_process \<Rightarrow> (string, cmd list) dict" where
  "cl_queues p =
     map (\<lambda>(q, cs). (q, sort_key c_start (map (\<lambda>(i, s). cl_cmd p i s) cs))) (group_by (\<lambda>(i, s). queue_of s) (cl_hosts p))"

definition cl_ooo :: "cl_process \<Rightarrow> string list" where
  "cl_ooo p = map (\<lambda>(i, s). queue_of s) (filter (\<lambda>(i, s). tag_is s ''ooo'' ''1'') (cl_hosts p))"

definition has_event :: "cmd \<Rightarrow> bool" where
  "has_event c \<longleftrightarrow> c_ev c \<noteq> None \<and> c_ev c \<noteq> Some []"

definition cl_events :: "cl_process \<Rightarrow> (string, cmd) dict" where
  "cl_events p =
     fold (\<lambda>(i, s) d. if has_event (cl_cmd p i s) then AList.update (the (c_ev (cl_cmd p i s))) (cl_cmd p i s) d else d) (cl_hosts p) []"

type_synonym completions = "(string, nat option) dict"

definition resolve_event :: "(string, cmd) dict \<Rightarrow> completions \<Rightarrow> string \<Rightarrow> nat option" where
  "resolve_event by_ev by ev =
     (case map_of by_ev ev of
        None \<Rightarrow> None
      | Some src \<Rightarrow> (case c_dev src of Some d \<Rightarrow> Some d | None \<Rightarrow> dict_get by ev None))"

text \<open>\<open>dict.fromkeys\<close>: once each, in order.\<close>

definition once :: "'a list \<Rightarrow> 'a list" where
  "once xs = rev (remdups (rev xs))"

definition opt_list :: "'a option \<Rightarrow> 'a list" where
  "opt_list x = (case x of None \<Rightarrow> [] | Some y \<Rightarrow> [y])"

record walk_state =
  wk_last :: "nat option"
  wk_barrier :: "nat option"
  wk_since :: "nat list"
  wk_done :: completions
  wk_edges :: "sedge list"

definition event_sources :: "(string, cmd) dict \<Rightarrow> walk_state \<Rightarrow> cmd \<Rightarrow> nat list" where
  "event_sources by_ev st c = concat (map (\<lambda>ev. opt_list (resolve_event by_ev (wk_done st) ev)) (c_wait c))"

text \<open>A marker or a barrier: what it stands for is the latest-ending of its prerequisites.\<close>

definition walk_marker :: "spans \<Rightarrow> bool \<Rightarrow> (string, cmd) dict \<Rightarrow> cmd \<Rightarrow> walk_state \<Rightarrow> walk_state" where
  "walk_marker sp in_order by_ev c st =
     (let pre = (if c_wait c \<noteq> [] then event_sources by_ev st c @ (if in_order then opt_list (wk_last st) else [])
                 else if in_order then opt_list (wk_last st) else wk_since st @ opt_list (wk_barrier st));
          m = max_key (\<lambda>j. work_end (span_at sp j)) pre;
          st = (if has_event c then st\<lparr>wk_done := AList.update (the (c_ev c)) m (wk_done st)\<rparr> else st)
      in if in_order then st\<lparr>wk_last := (if m \<noteq> None then m else wk_last st)\<rparr>
         else if c_kind c = ''barrier'' then st\<lparr>wk_barrier := (if m \<noteq> None then m else wk_barrier st), wk_since := []\<rparr>
         else st)"

definition command_edges :: "nat list \<Rightarrow> cmd \<Rightarrow> sedge list" where
  "command_edges sources c =
     List.map_filter (\<lambda>j. case c_dev c of
         Some d \<Rightarrow> if j \<noteq> d then Some (gated_by d j S_sequential Certain) else None
       | None \<Rightarrow> if c_blocking c then Some (gated_by (c_host c) j S_device_wait Certain) else None) (once sources)"

definition walk_command :: "bool \<Rightarrow> (string, cmd) dict \<Rightarrow> bool \<Rightarrow> cmd \<Rightarrow> walk_state \<Rightarrow> walk_state" where
  "walk_command in_order by_ev emit c st =
     (let sources = event_sources by_ev st c @ opt_list (if in_order then wk_last st else wk_barrier st);
          st = (if emit then st\<lparr>wk_edges := wk_edges st @ command_edges sources c\<rparr> else st)
      in case c_dev c of
           None \<Rightarrow> st
         | Some d \<Rightarrow> st\<lparr>wk_last := (if in_order then Some d else wk_last st), wk_since := wk_since st @ [d]\<rparr>)"

definition walk_step :: "spans \<Rightarrow> bool \<Rightarrow> (string, cmd) dict \<Rightarrow> bool \<Rightarrow> cmd \<Rightarrow> walk_state \<Rightarrow> walk_state" where
  "walk_step sp in_order by_ev emit c st =
     (if c_kind c \<noteq> ''command'' then walk_marker sp in_order by_ev c st else walk_command in_order by_ev emit c st)"

definition walk_start :: "completions \<Rightarrow> sedge list \<Rightarrow> walk_state" where
  "walk_start by edges = \<lparr>wk_last = None, wk_barrier = None, wk_since = [], wk_done = by, wk_edges = edges\<rparr>"

definition walk_queue ::
    "spans \<Rightarrow> cl_process \<Rightarrow> bool \<Rightarrow> string \<times> cmd list \<Rightarrow> completions \<times> sedge list \<Rightarrow> completions \<times> sedge list" where
  "walk_queue sp p emit queue st =
     (let st = fold (walk_step sp (fst queue \<notin> set (cl_ooo p)) (cl_events p) emit) (snd queue) (walk_start (fst st) (snd st))
      in (wk_done st, wk_edges st))"

text \<open>Two passes settle the markers of all queues, a third emits the edges.\<close>

definition walk_all :: "spans \<Rightarrow> cl_process \<Rightarrow> completions \<times> sedge list" where
  "walk_all sp p =
     (let qs = cl_queues p; pass = (\<lambda>st. fold (walk_queue sp p False) qs st) in
      fold (walk_queue sp p True) (sort_key fst qs) (pass (pass ([], []))))"

definition finish_edges :: "spans \<Rightarrow> cl_process \<Rightarrow> sedge list" where
  "finish_edges sp p =
     List.map_filter (\<lambda>f. let s = span_at sp f;
         cmds = filter (\<lambda>c. c_start c \<le> start_ns s) (dict_get (cl_queues p) (queue_of s) [])
       in map_option (\<lambda>j. gated_by f j S_device_wait Certain)
            (max_key (\<lambda>j. work_end (span_at sp j)) (concat (map (\<lambda>c. opt_list (c_dev c)) cmds)))) (cl_finish p)"

definition wait_edges :: "spans \<Rightarrow> cl_process \<Rightarrow> completions \<Rightarrow> sedge list" where
  "wait_edges sp p by =
     concat (map (\<lambda>w. map (\<lambda>j. gated_by w j S_device_wait Certain)
         (concat (map opt_list (once (map (resolve_event (cl_events p) by) (cl_ids (tag (span_at sp w) ''wait'')))))))
       (cl_waits p))"

definition cl_process_edges :: "spans \<Rightarrow> cl_process \<Rightarrow> sedge list" where
  "cl_process_edges sp p =
     (let (by, edges) = walk_all sp p in edges @ finish_edges sp p @ wait_edges sp p by)"

definition opencl_edges :: "spans \<Rightarrow> sedge list" where
  "opencl_edges sp = concat (map (\<lambda>p. cl_process_edges sp (cl_process_of sp p)) (sort (remdups (map (\<lambda>(i, s). pid s) sp))))"

section \<open>In-order queues\<close>

text \<open>
  What the next command of an in-order queue follows: \<open>d\<close> itself, or a span of a set \<open>W\<close> that ends
  no earlier than \<open>d\<close>.
\<close>

definition follows :: "spans \<Rightarrow> nat \<Rightarrow> nat set \<Rightarrow> walk_state \<Rightarrow> bool" where
  "follows sp d W st \<longleftrightarrow>
     (\<exists>j. wk_last st = Some j \<and> j \<in> insert d W \<and> work_end (span_at sp d) \<le> work_end (span_at sp j))"

lemma follows_marker:
  assumes "follows sp d W st" "set (event_sources by_ev st c) \<subseteq> W"
  shows "follows sp d W (walk_marker sp True by_ev c st)"
proof -
  obtain j where j: "wk_last st = Some j" "j \<in> insert d W" "work_end (span_at sp d) \<le> work_end (span_at sp j)"
    using assms(1) by (auto simp: follows_def)
  define pre where "pre = (if c_wait c \<noteq> [] then event_sources by_ev st c else []) @ [j]"
  have "max_key (\<lambda>j. work_end (span_at sp j)) pre \<noteq> None" by (simp add: pre_def del: not_None_eq)
  then obtain m where m: "max_key (\<lambda>j. work_end (span_at sp j)) pre = Some m" by blast
  note mx = max_key_Some [OF m]
  have "work_end (span_at sp j) \<le> work_end (span_at sp m)" using mx by (simp add: pre_def)
  moreover have "m \<in> insert d W" using mx assms(2) j(2) by (auto simp: pre_def split: if_splits)
  moreover have "wk_last (walk_marker sp True by_ev c st) = Some m"
    using m j(1) by (cases "c_wait c = []") (simp_all add: walk_marker_def Let_def opt_list_def pre_def)
  ultimately show ?thesis using j(3) by (simp add: follows_def)
qed

lemma follows_host:
  "follows sp d W st \<Longrightarrow> c_dev c = None \<Longrightarrow> follows sp d W (walk_command True by_ev emit c st)"
  by (simp add: follows_def walk_command_def)

text \<open>The spans that the markers of a stretch of the queue wait for, each in the state it is reached in.\<close>

fun waited_between :: "spans \<Rightarrow> (string, cmd) dict \<Rightarrow> cmd list \<Rightarrow> walk_state \<Rightarrow> nat set" where
  "waited_between sp by_ev [] st = {}"
| "waited_between sp by_ev (x # xs) st =
     (if c_kind x \<noteq> ''command'' then set (event_sources by_ev st x) else {}) \<union>
     waited_between sp by_ev xs (walk_step sp True by_ev True x st)"

lemma walk_edges_mono: "set (wk_edges st) \<subseteq> set (wk_edges (walk_step sp io by_ev emit c st))"
  by (auto simp: walk_step_def walk_marker_def walk_command_def Let_def split: option.splits)

lemma walk_fold_edges_mono: "set (wk_edges st) \<subseteq> set (wk_edges (fold (walk_step sp io by_ev emit) cs st))"
proof (induction cs arbitrary: st)
  case (Cons c cs)
  show ?case using Cons [of "walk_step sp io by_ev emit c st"] walk_edges_mono [of st sp io by_ev emit c] by simp
qed simp

lemma follows_between:
  assumes "follows sp d W st" "waited_between sp by_ev xs st \<subseteq> W" "\<forall>x\<in>set xs. c_kind x = ''command'' \<longrightarrow> c_dev x = None"
  shows "follows sp d W (fold (walk_step sp True by_ev True) xs st)"
  using assms
proof (induction xs arbitrary: st)
  case (Cons x xs)
  have "follows sp d W (walk_step sp True by_ev True x st)"
    using Cons.prems follows_marker follows_host by (auto simp: walk_step_def)
  then show ?case using Cons by simp
qed simp

text \<open>
  C36. An in-order queue keeps its order: the device span of a command has an edge from that of the
  queue's previous device command, or from a span that a marker or barrier between the two waits
  for and that ends no earlier than it, whatever markers, barriers and commands without a device
  span lie between, unless such a marker waits for the command itself.
\<close>

theorem in_order_queue:
  assumes "c_kind c = ''command''" "c_dev c = Some d" "c_kind c' = ''command''" "c_dev c' = Some d'"
    and "\<forall>x\<in>set between. c_kind x = ''command'' \<longrightarrow> c_dev x = None"
    and "d' \<notin> insert d (waited_between sp by_ev between (fold (walk_step sp True by_ev True) (before @ [c]) st))"
  shows "\<exists>j. j \<in> insert d (waited_between sp by_ev between (fold (walk_step sp True by_ev True) (before @ [c]) st)) \<and>
    work_end (span_at sp d) \<le> work_end (span_at sp j) \<and>
    gated_by d' j S_sequential Certain \<in>
      set (wk_edges (fold (walk_step sp True by_ev True) (before @ c # between @ c' # rest) st))"
proof -
  let ?run = "fold (walk_step sp True by_ev True)"
  define W where "W = waited_between sp by_ev between (?run (before @ [c]) st)"
  define st1 where "st1 = ?run between (?run (before @ [c]) st)"
  have "follows sp d W (?run (before @ [c]) st)"
    using assms(1,2) by (simp add: walk_step_def walk_command_def follows_def)
  then have "follows sp d W st1" unfolding st1_def by (rule follows_between) (use assms(5) in \<open>simp_all add: W_def\<close>)
  then obtain j where j: "wk_last st1 = Some j" "j \<in> insert d W" "work_end (span_at sp d) \<le> work_end (span_at sp j)"
    by (auto simp: follows_def)
  have "j \<noteq> d'" using j(2) assms(6) W_def by auto
  then have "gated_by d' j S_sequential Certain \<in> set (wk_edges (walk_step sp True by_ev True c' st1))"
    using assms(3,4) j(1)
    by (auto simp: walk_step_def walk_command_def Let_def command_edges_def List.map_filter_def opt_list_def once_def)
  moreover have "?run (before @ c # between @ c' # rest) st = ?run rest (walk_step sp True by_ev True c' st1)"
    by (simp add: st1_def)
  ultimately have "gated_by d' j S_sequential Certain \<in> set (wk_edges (?run (before @ c # between @ c' # rest) st))"
    using walk_fold_edges_mono by (metis (no_types, lifting) subsetD)
  then show ?thesis using j(2,3) unfolding W_def by blast
qed

definition demo_cmd :: "nat \<Rightarrow> nat option \<Rightarrow> string \<Rightarrow> cmd" where
  "demo_cmd i d k = \<lparr>c_host = i, c_dev = d, c_ev = None, c_wait = [], c_kind = k, c_start = int i, c_blocking = False\<rparr>"

lemma in_order_queue_witness:
  "\<exists>j. j = 1 \<and> gated_by 3 j S_sequential Certain \<in> set (wk_edges (fold (walk_step [] True [] True)
       ([] @ demo_cmd 0 (Some 1) ''command'' # [demo_cmd 4 None ''marker''] @ demo_cmd 2 (Some 3) ''command'' # []) (walk_start [] [])))"
proof -
  have w: "waited_between [] [] [demo_cmd 4 None ''marker''] st = {}" for st
    by (simp add: demo_cmd_def event_sources_def)
  from in_order_queue [of "demo_cmd 0 (Some 1) ''command''" 1 "demo_cmd 2 (Some 3) ''command''" 3 "[demo_cmd 4 None ''marker'']" "[]" "[]" "[]" "walk_start [] []" "[]"]
  show ?thesis unfolding w by (simp add: demo_cmd_def)
qed

end
