(* ===== verification/Dependency_Graph.thy ===== *)
theory Dependency_Graph
  imports Gpu_Edges_Facts Nccl_Edges Openmp_Facts Opencl_Edges
begin

text \<open>
  \<^verbatim>\<open>src/src/analysis/criticalpath.py\<close>, \<open>build_dependency_graph\<close>: all builders, in their order. The
  dictionary \<open>preds\<close> is the list of edges in the order they are appended; \<open>preds_of\<close> reads the
  entry of one span. The environment variable that opts in to exact point-to-point matching is an
  argument. The theorem is the type of the graph: an edge joins spans of the trace, so the
  algorithms over it never index out of range.
\<close>

record trace_view =
  tv_spans :: "span_event list"
  tv_instants :: "instant_event list"
  tv_counters :: "counter_event list"
  tv_pids :: "int list"
  tv_health :: capture_health

definition items :: "trace_view \<Rightarrow> spans" where
  "items t = List.enumerate 0 (tv_spans t)"

definition loss_of :: "trace_view \<Rightarrow> string list \<Rightarrow> loss" where
  "loss_of t hooks = event_loss_pids (tv_health t) (tv_pids t) hooks"

definition dependency_edges :: "trace_view \<Rightarrow> bool \<Rightarrow> sedge list" where
  "dependency_edges t exact_p2p =
     (let sp = items t in
      program_order_edges sp
      @ stream_order_edges sp
      @ device_sync_edges sp
      @ gpu_edges sp (loss_of t [''cuda'', ''rocm''])
      @ explicit_span_id_edges sp
      @ fst (mpi_p2p_edges sp (loss_of t [''mpi''])
              (if exact_p2p then Some (exact_capture_facts (tv_counters t) (tv_instants t)) else None))
      @ mpi_rendezvous_edges sp
      @ nccl_edges sp (loss_of t [''nccl''])
      @ omp_barrier_edges sp
      @ task_edges sp (tv_instants t)
      @ lock_edges sp
      @ opencl_edges sp)"

definition preds_of :: "sedge list \<Rightarrow> nat \<Rightarrow> sedge list" where
  "preds_of edges v = filter (\<lambda>e. s_dst e = v) edges"

section \<open>Edges between spans of a set\<close>

definition edges_in :: "nat set \<Rightarrow> sedge list \<Rightarrow> bool" where
  "edges_in A es \<longleftrightarrow> (\<forall>e\<in>set es. s_dst e \<in> A \<and> s_src e \<in> A)"

lemma edges_in_Nil [simp]: "edges_in A []"
  by (simp add: edges_in_def)

lemma edges_in_append [simp]: "edges_in A (xs @ ys) \<longleftrightarrow> edges_in A xs \<and> edges_in A ys"
  by (auto simp: edges_in_def)

lemma edges_in_Cons [simp]: "edges_in A (gated_by v u k c # es) \<longleftrightarrow> v \<in> A \<and> u \<in> A \<and> edges_in A es"
  by (auto simp: edges_in_def gated_by_def)

lemma edges_in_concat: "(\<And>x. x \<in> set xs \<Longrightarrow> edges_in A (f x)) \<Longrightarrow> edges_in A (concat (map f xs))"
  by (auto simp: edges_in_def)

lemma edges_in_map: "(\<And>x. x \<in> set xs \<Longrightarrow> edges_in A [f x]) \<Longrightarrow> edges_in A (map f xs)"
  by (auto simp: edges_in_def)

lemma edges_in_filter_map: "(\<And>x e. x \<in> set xs \<Longrightarrow> f x = Some e \<Longrightarrow> edges_in A [e]) \<Longrightarrow> edges_in A (List.map_filter f xs)"
  by (force simp: edges_in_def map_filter_set)

definition ids :: "spans \<Rightarrow> nat set" where
  "ids sp = fst ` set sp"

lemma ids_item: "(i, s) \<in> set sp \<Longrightarrow> i \<in> ids sp"
  by (force simp: ids_def)

lemma ids_fst: "x \<in> set sp \<Longrightarrow> fst x \<in> ids sp"
  by (simp add: ids_def)

lemma ids_filter: "ids (filter P sp) \<subseteq> ids sp"
  by (auto simp: ids_def)

lemma group_member: "(k, ys) \<in> set (group_by key xs) \<Longrightarrow> y \<in> set ys \<Longrightarrow> y \<in> set xs"
  using group_by_entry(1) by fastforce

lemma zip_tl_in: "(a, b) \<in> set (zip xs (tl xs)) \<Longrightarrow> a \<in> set xs \<and> b \<in> set xs"
  by (cases xs) (auto dest: set_zip_leftD set_zip_rightD)

section \<open>Orders\<close>

definition order_in :: "nat set \<Rightarrow> order_state \<Rightarrow> bool" where
  "order_in A st \<longleftrightarrow> (\<forall>x\<in>set (fst st). snd (snd x) \<in> A) \<and> (\<forall>x. fst (snd st) = Some x \<longrightarrow> snd (snd x) \<in> A)
     \<and> edges_in A (snd (snd st))"

lemma complete_ended_in:
  assumes "complete_ended t h best = (h', best')" "\<forall>x\<in>set h. snd (snd x) \<in> A" "\<forall>x. best = Some x \<longrightarrow> snd (snd x) \<in> A"
  shows "(\<forall>x\<in>set h'. snd (snd x) \<in> A) \<and> (\<forall>x. best' = Some x \<longrightarrow> snd (snd x) \<in> A)"
  using assms
proof (induction t h best rule: complete_ended.induct)
  case (2 t e s i h best)
  show ?case
  proof (cases "e \<le> t")
    case True
    show ?thesis by (rule 2(1) [OF True]) (use 2(2-4) True in \<open>auto split: option.splits if_splits simp del: less_prod_simp\<close>)
  next
    case False
    then show ?thesis using 2(2-4) by auto
  qed
qed auto

lemma order_step_in:
  assumes "b \<in> A" "order_in A st"
  shows "order_in A (order_step sp b st)"
proof -
  obtain h best es where st: "st = (h, best, es)" by (cases st)
  obtain h' best' where c: "complete_ended (start_ns (span_at sp b)) h best = (h', best')" by force
  have "(\<forall>x\<in>set h'. snd (snd x) \<in> A) \<and> (\<forall>x. best' = Some x \<longrightarrow> snd (snd x) \<in> A)"
    by (rule complete_ended_in [OF c]) (use assms(2) st in \<open>simp_all add: order_in_def\<close>)
  then show ?thesis
    using assms c st by (auto simp: order_in_def order_step_def Let_def split: option.splits)
qed

lemma fold_inv: "P s \<Longrightarrow> (\<And>x s. x \<in> set xs \<Longrightarrow> P s \<Longrightarrow> P (f x s)) \<Longrightarrow> P (fold f xs s)"
  by (induction xs arbitrary: s) auto

lemma program_order_in: "edges_in (ids sp) (program_order_edges sp)"
  unfolding program_order_edges_def
proof (rule edges_in_concat)
  fix x assume "x \<in> set (thread_lists sp)"
  then obtain k js where x: "x = (k, js)" "set js \<subseteq> ids sp"
    by (fastforce simp: thread_lists_def ids_def dest: group_member)
  have "order_in (ids sp) (fold (order_step sp) (sort_key (\<lambda>i. start_ns (span_at sp i)) js) ([], None, []))"
    by (rule fold_inv) (use x(2) in \<open>auto simp: order_in_def [of _ "([], None, [])"] intro!: order_step_in\<close>)
  then show "edges_in (ids sp) (case x of (k, idxs) \<Rightarrow> thread_order sp idxs)"
    by (simp add: x(1) thread_order_def Let_def order_in_def)
qed

definition values_in :: "nat set \<Rightarrow> ('k, nat list) dict \<Rightarrow> bool" where
  "values_in A d \<longleftrightarrow> (\<forall>k. set (dict_get d k []) \<subseteq> A)"

lemma values_in_entry: "values_in A d \<Longrightarrow> dict_ok d \<Longrightarrow> (k, v) \<in> set d \<Longrightarrow> set v \<subseteq> A"
  by (metis dict_get_def map_of_is_SomeI option.case(2) values_in_def)

lemma stream_order_in: "edges_in (ids sp) (stream_order_edges sp)"
  unfolding stream_order_edges_def
proof (rule edges_in_concat)
  fix x assume x: "x \<in> set (stream_lists sp)"
  let ?inner = "fold add_stream sp []"
  let ?f = "\<lambda>((p, c, st), idxs) d. AList.update (p, st) (dict_get d (p, st) [] @ idxs) d"
  have inner: "values_in (ids sp) ?inner \<and> dict_ok ?inner"
    by (rule fold_inv) (auto simp: values_in_def add_stream_def ids_fst subset_iff simp del: split_paired_All split: option.splits)
  have outer: "values_in (ids sp) (stream_lists sp) \<and> dict_ok (stream_lists sp)"
    unfolding stream_lists_def
  proof (rule fold_inv)
    fix y :: "(int \<times> string \<times> string) \<times> nat list" and d :: "(int \<times> string, nat list) dict"
    assume y: "y \<in> set ?inner" and d: "values_in (ids sp) d \<and> dict_ok d"
    obtain p c st js where yy: "y = ((p, c, st), js)" by (metis prod.collapse)
    have "set js \<subseteq> ids sp" using values_in_entry inner y yy by metis
    then show "values_in (ids sp) (?f y d) \<and> dict_ok (?f y d)"
      using d unfolding yy by (auto simp: values_in_def split: if_splits)
  qed (simp add: values_in_def)
  obtain k js where k: "x = (k, js)" by (cases x)
  then have "set js \<subseteq> ids sp" using values_in_entry outer x by metis
  then show "edges_in (ids sp) (case x of (k, idxs) \<Rightarrow> chain S_sequential Certain (sort_key (\<lambda>i. start_ns (span_at sp i)) (remdups idxs)))"
    unfolding k chain_def case_prod_conv by (intro edges_in_map) (auto dest!: zip_tl_in)
qed

lemma by_pid_in: "values_in (ids sp) (by_pid P sp)"
proof -
  have "set (dict_get (by_pid P sp) k []) \<subseteq> ids sp" for k
  proof (cases "map_of (by_pid P sp) k")
    case (Some v)
    then have "(k, v) \<in> set (by_pid P sp)" by (rule map_of_SomeD)
    then show ?thesis using Some by (fastforce simp: by_pid_def ids_def dict_get_def dest: group_member)
  qed (simp add: dict_get_def)
  then show ?thesis by (simp add: values_in_def)
qed

lemma by_pid_entry: "(p, work) \<in> set (by_pid P sp) \<Longrightarrow> set work \<subseteq> ids sp"
  by (fastforce simp: by_pid_def ids_def dest: group_member)

lemma device_sync_in: "edges_in (ids sp) (device_sync_edges sp)"
proof -
  let ?start = "\<lambda>i. start_ns (span_at sp i)"
  define inv where "inv st \<longleftrightarrow> set (fst st) \<subseteq> ids sp \<and> edges_in (ids sp) (snd (snd st))" for st :: "nat list \<times> int \<times> sedge list"
  have step: "inv (sync_step sp si st)" if "si \<in> ids sp" "inv st" for si st
  proof -
    obtain work t es where st: "st = (work, t, es)" by (cases st)
    have "\<And>P x. x \<in> set (takeWhile P work) \<Longrightarrow> x \<in> ids sp" "\<And>P x. x \<in> set (dropWhile P work) \<Longrightarrow> x \<in> ids sp"
      using that(2) by (auto simp: inv_def st dest: set_takeWhileD set_dropWhileD)
    then show ?thesis using that unfolding inv_def st sync_step_def Let_def prod.case
      by (auto intro!: edges_in_map)
  qed
  have "edges_in (ids sp) (snd (snd (fold (sync_step sp) (sort_key ?start (dict_get (by_pid old_device_sync sp) p [])) (sort_key ?start work, -1, []))))"
    if "(p, work) \<in> set (by_pid old_gpu_work sp)" for p work
  proof -
    have "inv (fold (sync_step sp) (sort_key ?start (dict_get (by_pid old_device_sync sp) p [])) (sort_key ?start work, -1, []))"
      by (rule fold_inv) (use by_pid_entry [OF that] by_pid_in [of sp old_device_sync] in \<open>auto simp: inv_def values_in_def intro!: step [unfolded inv_def]\<close>)
    then show ?thesis by (simp add: inv_def)
  qed
  then show ?thesis unfolding device_sync_edges_def Let_def by (intro edges_in_concat) auto
qed

section \<open>Explicit ids\<close>

lemma explicit_in: "edges_in (ids sp) (explicit_span_id_edges sp)"
  unfolding explicit_span_id_edges_def
proof (rule edges_in_concat)
  fix x assume "x \<in> set sp"
  obtain i s where x: "x = (i, s)" "i \<in> ids sp" using \<open>x \<in> set sp\<close> by (metis ids_item prod.collapse)
  have found: "u \<in> ids sp" if get: "index_get (span_id_index sp) p rid t f = Some u" and rid: "rid \<noteq> []" for p rid t f u
  proof (cases "map_of (ix_by_pid (span_id_index sp)) (p, rid) = None")
    case False
    then have "resolve (ix_by_pid (span_id_index sp)) p rid t f = Some u" using get by (simp add: index_get_def)
    from resolve_sound [OF span_id_index_get this] obtain s where "(u, s) \<in> set (carriers sp p rid)" by blast
    then show ?thesis using ids_item [of u s sp] by (simp add: carriers_def)
  next
    case True
    then obtain q where "map_of (ix_by_id (span_id_index sp)) rid = Some (OneProcess q u)"
      using get by (auto simp: index_get_def split: option.splits id_entry.splits)
    then have "\<exists>s. (u, s) \<in> set sp" using index_by_id_get [OF rid, of sp] unfolding span_id_index_def by simp blast
    then show ?thesis using ids_item by blast
  qed
  have "edges_in (ids sp) (case index_get (span_id_index sp) (pid s) rid (start_ns s) (id_family s) of
      None \<Rightarrow> [] | Some parent \<Rightarrow> if parent \<noteq> i then [gated_by i parent S_explicit_span_id Certain] else [])"
    if "rid \<in> set (parse_multi (parent_span_id s))" for rid
    using found x(2) that by (auto simp: parse_multi_def split: option.splits)
  then show "edges_in (ids sp) (explicit_edges_of (span_id_index sp) x)"
    unfolding x(1) explicit_edges_of_def Let_def by (auto intro!: edges_in_concat)
qed

section \<open>Messages\<close>

definition range_in :: "nat set \<Rightarrow> ('k, nat) dict \<Rightarrow> bool" where
  "range_in A d \<longleftrightarrow> (\<forall>k v. map_of d k = Some v \<longrightarrow> v \<in> A)"

lemma range_in_Nil [simp]: "range_in A []"
  by (simp add: range_in_def)

lemma range_in_update: "range_in A d \<Longrightarrow> v \<in> A \<Longrightarrow> range_in A (AList.update k v d)"
  by (auto simp: range_in_def update_conv')

lemma range_in_get: "range_in A d \<Longrightarrow> v \<in> A \<Longrightarrow> dict_get d k v \<in> A"
  by (auto simp: range_in_def dict_get_def split: option.splits)

definition matcher_in :: "nat set \<Rightarrow> matcher \<Rightarrow> bool" where
  "matcher_in A m \<longleftrightarrow> ms_idx ` set (mt_sends m) \<subseteq> A \<and> ms_idx ` set (mt_blocking m) \<subseteq> A
     \<and> (\<forall>k v. map_of (mt_completers m) k = Some v \<longrightarrow> fst v \<in> A)"

lemma matcher_add_in:
  assumes "i \<in> A" "matcher_in A m"
  shows "matcher_in A (matcher_add i s m)"
proof -
  have 1: "matcher_in A (note_facts i s m)" using assms by (simp add: matcher_in_def note_facts_def)
  have 2: "matcher_in A (note_message i s m)" if "matcher_in A m" for m
    using that assms(1) by (auto simp: matcher_in_def note_message_def mk_msg_def Let_def)
  have 3: "matcher_in A (complete_request i s rs r m)" if "matcher_in A m" for m rs r
  proof -
    have u: "matcher_in A (m\<lparr>mt_completers := AList.update k (i, v) (mt_completers m)\<rparr>)" for k v
      using that assms(1) by (simp add: matcher_in_def update_conv' del: split_paired_All)
    show ?thesis using that u
      by (simp add: complete_request_def Let_def del: split_paired_All split: option.split prod.split)
  qed
  have 4: "matcher_in A (fold (complete_request i s rs) rs' m)" if "matcher_in A m" for m rs rs'
    by (rule fold_inv [where P = "matcher_in A"]) (use that 3 in blast)+
  have "matcher_in A (note_completion i s m)" if "matcher_in A m" for m
  proof -
    have "matcher_in A (m\<lparr>mt_cancelled := c\<rparr>)" for c using that by (simp add: matcher_in_def)
    then show ?thesis using that 4 by (simp add: note_completion_def Let_def)
  qed
  then show ?thesis using 1 2 by (simp add: matcher_add_def)
qed

lemma receive_target: "receive_at w m target c l t src = Received r \<Longrightarrow> rv_target r = target"
  by (auto simp: receive_at_def Let_def split: if_splits)

lemma recv_target_in:
  assumes "matcher_in A m" "r \<in> set (recv_events m)"
  shows "rv_target r \<in> A"
proof -
  have "Received r \<in> set (recv_kinds m)" using assms(2) by (auto simp: recv_events_def split: recv_kind.splits)
  then consider b where "b \<in> set (mt_blocking m)" "blocking_kind (mt_world m) b = Received r"
    | b where "irecv_kind m b = Received r"
    by (auto simp: recv_kinds_def)
  then show ?thesis
  proof cases
    case 1
    have "rv_target r = ms_idx b" using 1(2) receive_target unfolding blocking_kind_def by blast
    then show ?thesis using assms(1) 1(1) by (auto simp: matcher_in_def simp del: split_paired_All)
  next
    case 2
    obtain v where "map_of (mt_completers m) (the (ms_req b)) = Some v" "rv_target r = fst v"
      using 2 by (auto simp: irecv_kind_def receive_target split: if_split_asm option.splits)
    then show ?thesis using assms(1) unfolding matcher_in_def by metis
  qed
qed

lemma p2p_in: "edges_in (ids sp) (fst (mpi_p2p_edges sp l x))"
proof -
  have m: "matcher_in (ids sp) (mpi_matcher sp l x)"
    unfolding mpi_matcher_def
  proof (rule fold_inv)
    show "matcher_in (ids sp) (new_matcher l x)" by (simp add: matcher_in_def new_matcher_def)
    fix y m assume "y \<in> set sp" "matcher_in (ids sp) m"
    then show "matcher_in (ids sp) ((case y of (i, s) \<Rightarrow> \<lambda>m. if category_value (category s) = ''mpi'' then matcher_add i s m else m) m)"
      using matcher_add_in [OF ids_fst [OF \<open>y \<in> set sp\<close>]] by (simp add: case_prod_beta)
  qed
  let ?m = "mpi_matcher sp l x"
  have "s_dst e \<in> ids sp \<and> s_src e \<in> ids sp" if "e \<in> set (fst (matcher_edges ?m))" for e
  proof -
    obtain key k c where k: "k < length (received ?m key)" "k < length (sent ?m key)"
      "e = gated_by (rv_target (received ?m key ! k)) (sent ?m key ! k) S_p2p c"
      using \<open>e \<in> _\<close> unfolding edges_channels channel_edges_set UN_iff mem_Collect_eq by blast
    have "received ?m key ! k \<in> set (recv_events ?m)" using nth_mem [OF k(1)] by (simp add: received_def posted_def)
    moreover have "sent ?m key ! k \<in> ms_idx ` set (mt_sends ?m)" using nth_mem [OF k(2)] sent_set by blast
    ultimately show ?thesis using recv_target_in [OF m] m unfolding k(3) matcher_in_def by (auto simp: gated_by_def simp del: split_paired_All)
  qed
  then show ?thesis by (simp add: mpi_p2p_edges_def edges_in_def)
qed

section \<open>Rendezvous\<close>

lemma cluster_concat:
  "concat (fst (fold cluster_step xs st)) @ fst (snd (fold cluster_step xs st)) = concat (fst st) @ fst (snd st) @ xs"
proof (induction xs arbitrary: st)
  case (Cons x xs)
  then show ?case by (cases st) (simp add: cluster_step_def)
qed simp

lemma clusters_concat: "concat (clusters_of xs) = sort_key fst xs"
proof (cases "sort_key fst xs")
  case (Cons it rest)
  then show ?thesis using cluster_concat [of rest "([], [it], fst (snd it))"]
    by (auto simp: clusters_of_def split: prod.splits)
qed (simp add: clusters_of_def)

lemma overlap_in_items: "g \<in> set (overlap_groups its) \<Longrightarrow> set g \<subseteq> ri_idx ` set its"
proof -
  assume "g \<in> set (overlap_groups its)"
  then obtain c where c: "c \<in> set (clusters_of (map (\<lambda>it. (ri_start it, ri_end it, ri_idx it)) its))" "g = map (\<lambda>t. snd (snd t)) c"
    by (auto simp: overlap_groups_def cluster_rendezvous_def)
  have "set c \<subseteq> set (concat (clusters_of (map (\<lambda>it. (ri_start it, ri_end it, ri_idx it)) its)))"
    using c(1) by auto
  then have "set c \<subseteq> set (map (\<lambda>it. (ri_start it, ri_end it, ri_idx it)) its)"
    unfolding clusters_concat by simp
  then show ?thesis using c(2) by auto
qed

lemma order_in_items:
  assumes "order_groups kind its = Some gs" "g \<in> set gs"
  shows "set g \<subseteq> ri_idx ` set its"
proof -
  obtain k where k: "k < length (hd (lane_calls kind its))" "g = map (\<lambda>s. fst (snd (s ! k))) (lane_calls kind its)"
    "\<forall>s\<in>set (lane_calls kind its). length s = length (hd (lane_calls kind its))"
    using assms by (auto simp: order_groups_def Let_def list_ex_iff split: if_splits)
  have "fst (snd (s ! k)) \<in> ri_idx ` set its" if "s \<in> set (lane_calls kind its)" for s
  proof -
    have "s ! k \<in> set s" using k(1,3) that by simp
    then show ?thesis using that unfolding lane_calls_set by (auto simp: call_of_def)
  qed
  then show ?thesis using k(2) by auto
qed

lemma medium_in_items: "(g, c) \<in> set (medium_groups its) \<Longrightarrow> set g \<subseteq> ri_idx ` set its"
  by (auto simp: medium_groups_def dest: overlap_in_items)

lemma group_in_items:
  assumes "(g, c) \<in> set (rendezvous_groups kind its)"
  shows "set g \<subseteq> ri_idx ` set its"
proof -
  obtain k js where k: "(k, js) \<in> set (group_by (rkey_of kind) its)" "(g, c) \<in> set (key_groups kind (k, js))"
    using assms by (auto simp: rendezvous_groups_def)
  have sub: "set js \<subseteq> set its" using group_member [OF k(1)] by blast
  have typed: "set g \<subseteq> ri_idx ` set js" if "(t, ts) \<in> set (group_by ri_type js)" "(g, c) \<in> set (medium_groups ts)" for t ts
    using medium_in_items [OF that(2)] group_member [OF that(1)] by blast
  have "set g \<subseteq> ri_idx ` set js"
    using k(2) by (auto simp: key_groups_def split: rkey.splits option.splits dest: order_in_items medium_in_items typed)
  then show ?thesis using sub by blast
qed

lemma last_arrived_in: "members \<noteq> [] \<Longrightarrow> last_arrived its members \<in> set members"
proof -
  assume "members \<noteq> []"
  then obtain m where m: "max_key (item_start its) members = Some m" by (cases members) simp_all
  then show ?thesis using max_key_Some [OF m] by (simp add: last_arrived_def)
qed

lemma group_arrival_in: "set (fst g) \<subseteq> A \<Longrightarrow> edges_in A (group_arrival_edges its g)"
proof -
  assume g: "set (fst g) \<subseteq> A"
  obtain members c where m: "g = (members, c)" by (cases g)
  show ?thesis
  proof (cases "length members < 2")
    case False
    then have "members \<noteq> []" by auto
    then have "last_arrived its members \<in> A" using last_arrived_in [of members its] g m by auto
    then show ?thesis using g False by (auto simp: m group_arrival_edges_def Let_def intro!: edges_in_map)
  qed (simp add: m group_arrival_edges_def)
qed

lemma items_in: "it \<in> set (rendezvous_items kind sp) \<Longrightarrow> ri_idx it \<in> ids sp"
proof -
  assume "it \<in> set (rendezvous_items kind sp)"
  then obtain i s where "(i, s) \<in> set sp" "rendezvous_item s i kind = Some it"
    by (auto simp: rendezvous_items_def map_filter_set)
  moreover from this have "ri_idx it = i"
    by (auto simp: rendezvous_item_def omp_item_def Let_def split: if_splits)
  ultimately show ?thesis using ids_item by blast
qed

lemma omp_barrier_in: "edges_in (ids sp) (omp_barrier_edges sp)"
proof -
  have "edges_in (ids sp) (group_arrival_edges js g)"
    if "(p, js) \<in> set (group_by key (rendezvous_items R_omp sp))" "g \<in> set (rendezvous_groups R_omp js)" for p js g and key :: "ritem \<Rightarrow> int"
  proof (rule group_arrival_in)
    have "set (fst g) \<subseteq> ri_idx ` set js" using group_in_items [of "fst g" "snd g"] that(2) by simp
    then show "set (fst g) \<subseteq> ids sp" using group_member [OF that(1)] items_in by blast
  qed
  then show ?thesis unfolding omp_barrier_edges_def by (auto intro!: edges_in_concat)
qed

lemma collective_edges_in:
  assumes "set (fst g) \<subseteq> A" "range_in A (mi_completer m)"
  shows "edges_in A (collective_edges its m g)"
proof -
  obtain members c where g: "g = (members, c)" by (cases g)
  have comp: "the (completion m i) \<in> A" if "completion m i \<noteq> None" "i \<in> A" for i
    using that assms(2) by (auto simp: completion_def range_in_def split: option.splits)
  show ?thesis
  proof (cases "length members < 2")
    case False
    then have ne: "members \<noteq> []" by auto
    have root: "r \<in> set members" if "root_of m members = Some r" for r
      using that by (auto simp: root_of_def Let_def filter_eq_Cons_iff split: if_splits list.splits)
    have links: "src \<in> set members \<and> i \<in> set members" if "(src, i) \<in> set (made_links its m members)" for src i
      using that root last_arrived_in [OF ne, of its]
      by (auto simp: made_links_def collective_links_def Let_def split: option.splits if_splits)
    have some: "completion m i \<noteq> None" if "(src, i) \<in> set (made_links its m members)" for src i
      using that by (auto simp: made_links_def)
    have mem: "i \<in> A" if "i \<in> set members" for i using that assms(1) by (auto simp: g)
    have 1: "edges_in A (map (\<lambda>(src, i). gated_by (the (completion m i)) src S_arrival c) (made_links its m members))"
    proof (rule edges_in_map)
      fix x assume x: "x \<in> set (made_links its m members)"
      obtain src i where i: "x = (src, i)" by (cases x)
      show "edges_in A [case x of (src, i) \<Rightarrow> gated_by (the (completion m i)) src S_arrival c]"
        using links some comp mem x by (simp add: i)
    qed
    have 2: "edges_in A (map (\<lambda>i. gated_by (the (completion m i)) i S_arrival c)
        (filter (\<lambda>i. i \<notin> snd ` set (made_links its m members) \<and> completion m i \<noteq> None \<and> completion m i \<noteq> Some i) members))"
      by (rule edges_in_map) (use comp mem in \<open>simp del: not_None_eq\<close>)
    show ?thesis using False 1 2 by (simp add: g collective_edges_def Let_def)
  qed (simp add: g collective_edges_def)
qed

lemma mpi_rendezvous_in: "edges_in (ids sp) (mpi_rendezvous_edges sp)"
proof -
  have mpi: "ids (mpi_spans sp) \<subseteq> ids sp" unfolding mpi_spans_def by (rule ids_filter)
  let ?info = "fold (\<lambda>(i, s). info_add i s) (mpi_spans sp) no_collectives"
  have info: "range_in (ids sp) (mi_completer ?info)"
  proof (rule fold_inv [where P = "\<lambda>m. range_in (ids sp) (mi_completer m)"])
    show "range_in (ids sp) (mi_completer no_collectives)" by (simp add: no_collectives_def)
    fix x :: "nat \<times> span_event" and m :: collective_info assume x: "x \<in> set (mpi_spans sp)" and m: "range_in (ids sp) (mi_completer m)"
    obtain i s where i: "x = (i, s)" "i \<in> ids sp" using x mpi by (metis ids_item prod.collapse subsetD)
    have "range_in (ids sp) (fold (\<lambda>r. set_default (pid s, r) i) rs (mi_completer m))" for rs
      by (rule fold_inv) (use m i(2) in \<open>auto simp: set_default_def intro: range_in_update\<close>)
    then show "range_in (ids sp) (mi_completer ((\<lambda>(i, s). info_add i s) x m))"
      using m by (simp add: i info_add_def Let_def)
  qed
  show ?thesis unfolding mpi_rendezvous_edges_def Let_def
  proof (intro edges_in_concat collective_edges_in info)
    fix g assume "g \<in> set (rendezvous_groups R_mpi (rendezvous_items R_mpi (mpi_spans sp)))"
    then have "set (fst g) \<subseteq> ri_idx ` set (rendezvous_items R_mpi (mpi_spans sp))"
      using group_in_items [of "fst g" "snd g"] by simp
    then show "set (fst g) \<subseteq> ids sp" using items_in mpi by blast
  qed
qed

section \<open>GPU\<close>

lemma update_set: "set (AList.update k v d) \<subseteq> insert (k, v) (set d)"
  by (induction d) auto

definition corr_in :: "nat set \<Rightarrow> correlation \<Rightarrow> bool" where
  "corr_in A c \<longleftrightarrow> (\<forall>(d, h)\<in>set (host_of c). d \<in> A \<and> h \<in> A) \<and> (\<forall>(h, ds)\<in>set (devices_of c). h \<in> A \<and> set ds \<subseteq> A)"

lemma link_in:
  assumes "i \<in> A" "pick_host sp cands (start_ns s) \<in> A" "corr_in A out"
  shows "corr_in A (link sp cands i s out)"
proof -
  let ?p = "pick_host sp cands (start_ns s)"
  have "set (dict_get (devices_of out) ?p []) \<subseteq> A"
  proof (cases "map_of (devices_of out) ?p")
    case (Some ds)
    then have "(?p, ds) \<in> set (devices_of out)" by (rule map_of_SomeD)
    then show ?thesis using assms(3) Some by (auto simp: corr_in_def dict_get_def)
  qed (simp add: dict_get_def)
  then have "\<forall>(h, ds)\<in>set (dict_append ?p i (devices_of out)). h \<in> A \<and> set ds \<subseteq> A"
    using assms update_set [of ?p "dict_get (devices_of out) ?p [] @ [i]" "devices_of out"]
    by (fastforce simp: corr_in_def dict_append_def)
  moreover have "\<forall>(d, h)\<in>set (AList.update i ?p (host_of out)). d \<in> A \<and> h \<in> A"
    using assms update_set [of i ?p "host_of out"] by (fastforce simp: corr_in_def)
  ultimately show ?thesis by (simp add: corr_in_def link_def Let_def)
qed

lemma correlate_in: "corr_in (ids sp) (correlate sp)"
  unfolding correlate_def
proof (rule fold_inv)
  show "corr_in (ids sp) no_correlation" by (simp add: corr_in_def no_correlation_def)
  fix x :: "nat \<times> span_event" and out :: correlation
  assume x: "x \<in> set sp" and out: "corr_in (ids sp) out"
  obtain i s where i: "x = (i, s)" by (cases x)
  let ?c = "host_candidates sp (host_index sp) s"
  have "pick_host sp ?c (start_ns s) \<in> ids sp" if "?c \<noteq> []"
  proof -
    have "nearest sp (set ?c) (start_ns s) (pick_host sp ?c (start_ns s))"
      by (rule pick_nearest [OF that host_candidates_sorted])
    then have "pick_host sp ?c (start_ns s) \<in> eligible sp s" unfolding host_candidates_set by (simp add: nearest_def)
    then show ?thesis by (auto simp: eligible_def by_lid_def by_corr_def ids_item split: if_splits)
  qed
  then have "corr_in (ids sp) (link sp ?c i s out)" if "?c \<noteq> []"
    using link_in that out ids_item x i by blast
  moreover have "corr_in (ids sp) (out\<lparr>unmatched := u\<rparr>)" for u using out by (simp add: corr_in_def)
  ultimately show "corr_in (ids sp) (correlate_step sp (host_index sp) x out)"
    using out by (simp add: i correlate_step_def Let_def)
qed

lemma correlate_hosts: "(d, h) \<in> set (host_of (correlate sp)) \<Longrightarrow> d \<in> ids sp \<and> h \<in> ids sp"
  using correlate_in [of sp] by (fastforce simp: corr_in_def)

lemma launch_in: "edges_in (ids sp) (launch_edges (correlate sp))"
  unfolding launch_edges_def by (intro edges_in_map) (auto simp: edges_in_def gated_by_def dest: correlate_hosts)

lemma streams_in: "(k, lst) \<in> set (streams sp corr) \<Longrightarrow> set lst \<subseteq> ids sp"
proof -
  assume "(k, lst) \<in> set (streams sp corr)"
  then obtain ks js where "(ks, js) \<in> set (group_by (stream_of sp corr) (filter (\<lambda>i. stream_of sp corr i \<noteq> None) (stream_work sp)))"
    "set lst = set js" by (auto simp: streams_def)
  then have "set lst \<subseteq> set (stream_work sp)" using group_member by fastforce
  then show ?thesis by (auto simp: stream_work_def ids_def)
qed

lemma stream_values_in: "set (dict_get (streams sp corr) k []) \<subseteq> ids sp"
proof (cases "map_of (streams sp corr) k")
  case (Some lst)
  then show ?thesis using streams_in map_of_SomeD by (fastforce simp: dict_get_def)
qed (simp add: dict_get_def)

lemma fifo_in:
  assumes "set lst \<subseteq> A"
  shows "edges_in A (fifo_edges sp corr lst)"
  unfolding fifo_edges_def Let_def
proof (rule edges_in_concat)
  fix x assume x: "x \<in> set (zip (graph_groups sp corr lst) (tl (graph_groups sp corr lst)))"
  obtain a b where ab: "x = (a, b)" by (cases x)
  have ok: "concat (graph_groups sp corr lst) = lst" "[] \<notin> set (graph_groups sp corr lst)"
    using graph_groups_ok [of sp corr lst] unfolding groups_ok_def by blast+
  have mem: "a \<in> set (graph_groups sp corr lst)" "b \<in> set (graph_groups sp corr lst)" using zip_tl_in [of a b] x ab by simp_all
  have sub: "set g \<subseteq> A" if "g \<in> set (graph_groups sp corr lst)" for g
  proof -
    have "set g \<subseteq> set (concat (graph_groups sp corr lst))" using that by auto
    then show ?thesis unfolding ok(1) using assms by blast
  qed
  have "a \<noteq> []" using mem(1) ok(2) by auto
  then have "last_to_finish sp a \<in> set a" using last_to_finish_ge(1) [of "hd a" a sp] by simp
  then show "edges_in A (case x of (a, b) \<Rightarrow> map (\<lambda>j. gated_by j (last_to_finish sp a) S_sequential Certain) b)"
    using sub [OF mem(1)] sub [OF mem(2)] by (auto simp: ab intro!: edges_in_map)
qed

lemma view_fields [simp]:
  "gv_spans (gpu_view_of sp) = sp" "gv_corr (gpu_view_of sp) = correlate sp" "gv_streams (gpu_view_of sp) = streams sp (correlate sp)"
  by (simp_all add: gpu_view_of_def Let_def)

lemma last_before_in: "last_before (gpu_view_of sp) k cutoff limit = Some j \<Longrightarrow> j \<in> ids sp"
proof -
  assume "last_before (gpu_view_of sp) k cutoff limit = Some j"
  then obtain lst where lst: "map_of (streams sp (correlate sp)) k = Some lst"
    "ended_by sp lst limit 64 (bisect_left (submitted (gpu_view_of sp) lst) cutoff) = Some j"
    by (auto simp: last_before_def split: option.splits)
  have "sorted (map fst (map (fifo_key sp (correlate sp)) lst))"
    using streams_entry(1) [OF lst(1)] by (rule sorted_map_mono) (auto simp: mono_on_def less_eq_prod_def)
  then have "sorted (submitted (gpu_view_of sp) lst)" by (simp add: submitted_def fifo_key_def comp_def)
  from bisect_left_splits [OF this, of cutoff]
  have "bisect_left (submitted (gpu_view_of sp) lst) cutoff \<le> length lst" by (simp add: splits_at_def submitted_def)
  then have "j \<in> set lst" using ended_by_spec [OF lst(2)] by fastforce
  then show ?thesis using streams_in map_of_SomeD [OF lst(1)] by blast
qed

lemma sync_targets_in: "(j, c) \<in> set (sync_targets (gpu_view_of sp) l i) \<Longrightarrow> j \<in> ids sp"
proof -
  assume a: "(j, c) \<in> set (sync_targets (gpu_view_of sp) l i)"
  have w: "j \<in> ids sp" if "(j, c') \<in> set (waited (gpu_view_of sp) cutoff limit ks)" for c' cutoff limit ks
    using that last_before_in unfolding waited_def map_filter_set case_prod_beta by fastforce
  have e: "\<exists>c'. (j, c') \<in> set xs" if "(j, c) \<in> set (map (\<lambda>(j, c). (j, f c)) xs)" for xs :: "sync_target list" and f
    using that by auto
  show ?thesis
    using a w unfolding sync_targets_def stream_targets_def device_targets_def event_targets_def Let_def
    by (auto simp del: split_paired_Ex split_paired_All split: if_split_asm option.splits)
qed

lemma stream_wait_in: "edges_in (ids sp) (stream_wait_edges (gpu_view_of sp) l i)"
proof -
  let ?g = "gpu_view_of sp"
  have pos: "dict_get (streams sp (correlate sp)) k [] ! n \<in> ids sp" if "n < length (dict_get (streams sp (correlate sp)) k [])" for k n
    using stream_values_in nth_mem [OF that] by blast
  show ?thesis unfolding stream_wait_edges_def Let_def view_fields
    by (auto simp del: split_paired_Ex split_paired_All split: option.split list.split prod.split intro: pos last_before_in)
qed

lemma host_call_in: "x \<in> set sp \<Longrightarrow> edges_in (ids sp) (host_call_edges (gpu_view_of sp) l x)"
  using stream_wait_in sync_targets_in ids_fst
  by (cases x) (auto simp: host_call_edges_def ids_item intro!: edges_in_map)

lemma blocking_copy_in: "edges_in (ids sp) (blocking_copy_edges (gpu_view_of sp))"
  unfolding blocking_copy_edges_def Let_def view_fields
  using correlate_in [of sp] by (intro edges_in_concat) (fastforce simp: corr_in_def intro!: edges_in_map)

lemma host_function_in: "(a, b) \<in> set (host_function_order sp) \<Longrightarrow> a \<in> ids sp \<and> b \<in> ids sp"
proof -
  assume "(a, b) \<in> set (host_function_order sp)"
  then obtain k ps where k: "(k, ps) \<in> set (group_by (\<lambda>(i, s). (pid s, tid s)) (filter (\<lambda>(i, s). tag_is s ''side'' ''gpu'' \<and> tag_is s ''op'' ''host_func'') sp))"
    "(a, b) \<in> set (zip (sort_key (\<lambda>i. start_ns (span_at sp i)) (map fst ps)) (tl (sort_key (\<lambda>i. start_ns (span_at sp i)) (map fst ps))))"
    by (auto simp: host_function_order_def Let_def)
  have "set (map fst ps) \<subseteq> ids sp" using group_member [OF k(1)] ids_fst [of _ sp] by fastforce
  then show ?thesis using zip_tl_in [OF k(2)] by auto
qed

lemma bisect_loop_le: "lo \<le> hi \<Longrightarrow> bisect_loop before xs lo hi \<le> hi"
proof (induction before xs lo hi rule: bisect_loop.induct)
  case (1 before xs lo hi)
  then show ?case by (subst bisect_loop.simps) (fastforce simp: Let_def)
qed

lemma bisect_left_le: "bisect_left xs x \<le> length xs"
  by (simp add: bisect_left_def bisect_loop_le)

lemma legacy_pair_in:
  assumes "set legacy \<subseteq> A" "set lst \<subseteq> A" "k < length legacy"
  shows "edges_in A (legacy_pair_edges (gpu_view_of sp) legacy lst c k)"
proof -
  have "legacy ! k \<in> A" using assms(1,3) nth_mem by blast
  moreover have "lst ! n \<in> A" if "n < length lst" for n using assms(2) nth_mem [OF that] by blast
  moreover have "bisect_left (submitted (gpu_view_of sp) lst) t \<le> length lst" for t
    using bisect_left_le [of "submitted (gpu_view_of sp) lst" t] by (simp add: submitted_def)
  ultimately show ?thesis unfolding legacy_pair_edges_def Let_def
    by (auto simp: less_le_trans [OF diff_Suc_less])
qed

lemma default_stream_in: "edges_in (ids sp) (default_stream_edges (gpu_view_of sp))"
proof -
  have "edges_in (ids sp) (legacy_stream_edges (gpu_view_of sp) p rt ks legacy)" for p rt ks legacy
    unfolding legacy_stream_edges_def Let_def view_fields
    by (intro edges_in_concat legacy_pair_in stream_values_in) simp
  then have "edges_in (ids sp) (concat (map (legacy_stream_edges (gpu_view_of sp) p rt ks) ls))" for p rt ks ls
    by (simp add: edges_in_concat)
  then show ?thesis unfolding default_stream_edges_def by (intro edges_in_concat) (simp add: case_prod_beta)
qed

lemma gpu_in: "edges_in (ids sp) (gpu_edges sp l)"
proof -
  have "edges_in (ids sp) (concat (map (\<lambda>(k, lst). fifo_edges sp (correlate sp) lst) (streams sp (correlate sp))))"
    by (intro edges_in_concat) (auto intro: fifo_in dest: streams_in)
  moreover have "edges_in (ids sp) (concat (map (host_call_edges (gpu_view_of sp) l) sp))"
    by (intro edges_in_concat host_call_in)
  moreover have "edges_in (ids sp) (map (\<lambda>(a, b). gated_by b a S_sequential High) (host_function_order sp))"
    by (intro edges_in_map) (use host_function_in in fastforce)
  ultimately show ?thesis
    by (simp add: gpu_edges_def Let_def launch_in blocking_copy_in default_stream_in)
qed

section \<open>NCCL, OpenMP, OpenCL\<close>

lemma nccl_in: "edges_in (ids sp) (nccl_edges sp l)"
proof -
  have nccl: "i \<in> ids sp" if "(i, s) \<in> set (nccl_spans sp)" for i s
    using that ids_item by (auto simp: nccl_spans_def)
  have ops: "i \<in> ids sp" if "(i, s) \<in> set (nccl_operations sp)" for i s
    using that nccl by (auto simp: nccl_operations_def)
  let ?dev = "device_copies (nccl_spans sp)"
  have dev: "range_in (ids sp) ?dev"
    unfolding device_copies_def by (rule fold_inv) (auto intro!: range_in_update dest: nccl)
  have execs: "range_in (ids sp) (group_execs sp)"
    unfolding group_execs_def
  proof (rule fold_inv)
    fix x and d :: "(group_key, nat) dict" assume x: "x \<in> set (nccl_spans sp)" and d: "range_in (ids sp) d"
    obtain i s where i: "x = (i, s)" by (cases x)
    then show "range_in (ids sp) (group_work sp ?dev x d)"
      using d dev nccl x by (auto simp: group_work_def Let_def intro!: range_in_update range_in_get)
  qed simp
  have eff: "range_in (ids sp) (nccl_effective sp)"
    unfolding nccl_effective_def
  proof (rule fold_inv)
    fix x and d :: "(nat, nat) dict" assume x: "x \<in> set (nccl_spans sp)" and d: "range_in (ids sp) d"
    obtain i s where i: "x = (i, s)" by (cases x)
    have "j \<in> ids sp" if "work_of ?dev (group_execs sp) s = Some j" for j
      using that dev execs by (auto simp: work_of_def range_in_def simp del: split_paired_All split: if_splits)
    then show "range_in (ids sp) ((\<lambda>(i, s) d. case work_of ?dev (group_execs sp) s of None \<Rightarrow> d | Some j \<Rightarrow> AList.update i j d) x d)"
      using d by (auto simp: i intro: range_in_update split: option.split)
  qed simp
  have sends: "range_in (ids sp) (nccl_sends (nccl_operations sp))"
    unfolding nccl_sends_def by (rule fold_inv) (auto intro!: range_in_update dest: ops)
  have p2p: "edges_in (ids sp) (nccl_p2p_edges sp (nccl_effective sp) l)"
    unfolding nccl_p2p_edges_def Let_def
  proof (rule edges_in_filter_map)
    fix x e assume x: "x \<in> set (nccl_operations sp)"
      and e: "(case x of (r, s) \<Rightarrow> if \<not> issued ''recv'' s then None
        else case map_of (nccl_sends (nccl_operations sp)) (issue_key ''peer'' ''rank'' s) of None \<Rightarrow> None
          | Some sent_by \<Rightarrow> if dict_get (nccl_effective sp) sent_by sent_by = dict_get (nccl_effective sp) r r then None
              else Some (gated_by (dict_get (nccl_effective sp) r r) (dict_get (nccl_effective sp) sent_by sent_by) S_p2p
                (if lossy l [pid (span_at sp sent_by), pid (span_at sp r)] then Low else Certain))) = Some e"
    obtain r s where r: "x = (r, s)" by (cases x)
    obtain k where k: "map_of (nccl_sends (nccl_operations sp)) (issue_key ''peer'' ''rank'' s) = Some k"
      "\<exists>c. e = gated_by (dict_get (nccl_effective sp) r r) (dict_get (nccl_effective sp) k k) S_p2p c"
      using e unfolding r prod.case by (auto split: if_split_asm option.splits)
    have "k \<in> ids sp" using sends k(1) unfolding range_in_def by blast
    then show "edges_in (ids sp) [e]" using k(2) range_in_get [OF eff] ops x r by (auto simp: edges_in_def gated_by_def)
  qed
  let ?its = "List.map_filter (nccl_item sp (nccl_effective sp)) (nccl_operations sp)"
  have its: "ri_idx it \<in> ids sp" if "it \<in> set ?its" for it
  proof -
    obtain x where "x \<in> set (nccl_operations sp)" "nccl_item sp (nccl_effective sp) x = Some it"
      using \<open>it \<in> set ?its\<close> unfolding map_filter_set by blast
    then obtain i s where i: "(i, s) \<in> set (nccl_operations sp)" "nccl_item sp (nccl_effective sp) (i, s) = Some it"
      by (metis prod.collapse)
    then have "ri_idx it = dict_get (nccl_effective sp) i i" by (auto simp: nccl_item_def Let_def split: if_splits)
    then show ?thesis using range_in_get [OF eff ops [OF i(1)]] by simp
  qed
  have "edges_in (ids sp) (concat (map (group_arrival_edges ?its) (rendezvous_groups R_nccl ?its)))"
  proof (intro edges_in_concat group_arrival_in)
    fix g assume "g \<in> set (rendezvous_groups R_nccl ?its)"
    then show "set (fst g) \<subseteq> ids sp" using group_in_items [of "fst g" "snd g" R_nccl ?its] its by auto
  qed
  then show ?thesis using p2p by (simp add: nccl_edges_def Let_def)
qed

definition process_in :: "nat set \<Rightarrow> omp_process \<Rightarrow> bool" where
  "process_in A p \<longleftrightarrow> values_in A (op_exec p) \<and> set (op_joins p) \<subseteq> A"

lemma omp_process_in: "process_in (ids sp) (omp_process_of sp q)"
  unfolding omp_process_of_def
proof (rule fold_inv)
  fix x p assume x: "x \<in> set (filter (\<lambda>(i, s). pid s = q) sp)" and p: "process_in (ids sp) p"
  obtain i s where i: "x = (i, s)" by (cases x)
  have "x \<in> set sp" using x by simp
  then have "i \<in> ids sp" unfolding i by (rule ids_item)
  note i = i this
  then show "process_in (ids sp) (note_task x p)"
    using p by (auto simp: note_task_def process_in_def values_in_def Let_def)
qed (simp add: process_in_def no_tasks_def values_in_def)

lemma task_in:
  assumes "process_in A p"
  shows "task_completion sp p t = Some j \<Longrightarrow> j \<in> A" "task_first sp p t = Some j \<Longrightarrow> j \<in> A"
proof -
  have v: "set l \<subseteq> A" if "map_of (op_exec p) t = Some l" for l
  proof -
    have "set (dict_get (op_exec p) t []) \<subseteq> A" using assms by (simp add: process_in_def values_in_def)
    then show ?thesis using that by (simp add: dict_get_def)
  qed
  show "task_completion sp p t = Some j \<Longrightarrow> j \<in> A"
    using v max_key_Some by (fastforce simp: task_completion_def bind_eq_Some_conv)
  show "task_first sp p t = Some j \<Longrightarrow> j \<in> A"
    using v min_key_in by (fastforce simp: task_first_def bind_eq_Some_conv)
qed

lemma process_tasks_in: "edges_in (ids sp) (process_task_edges sp deps q)"
proof -
  let ?p = "omp_process_of sp q"
  note p = omp_process_in [of sp q]
  have "edges_in (ids sp) (join_edges sp ?p j)" if "j \<in> set (op_joins ?p)" for j
    unfolding join_edges_def
  proof (rule edges_in_filter_map)
    fix t e assume "(case task_completion sp ?p t of None \<Rightarrow> None | Some k \<Rightarrow> if k = j then None else Some (gated_by j k S_task_join Certain)) = Some e"
    then show "edges_in (ids sp) [e]" using that p task_in(1) [OF p]
      by (auto simp: process_in_def split: option.splits if_splits)
  qed
  moreover have "edges_in (ids sp) (List.map_filter (dependence_edge sp ?p) ds)" for ds
  proof (rule edges_in_filter_map)
    fix d e assume "dependence_edge sp ?p d = Some e"
    then show "edges_in (ids sp) [e]" using task_in [OF p]
      by (auto simp: dependence_edge_def split: option.splits if_splits)
  qed
  ultimately show ?thesis by (simp add: process_task_edges_def Let_def edges_in_concat)
qed

lemma tasks_in: "edges_in (ids sp) (task_edges sp instants)"
  unfolding task_edges_def Let_def by (intro edges_in_concat process_tasks_in)

lemma lock_lists_in: "(k, ws) \<in> set (lock_lists sel sp) \<Longrightarrow> set ws \<subseteq> ids sp"
proof -
  assume "(k, ws) \<in> set (lock_lists sel sp)"
  then have "ws = dict_get (lock_lists sel sp) k []" using lock_lists_ok [of sel sp] by (simp add: dict_get_def)
  then have "set ws \<subseteq> fst ` set sp" unfolding lock_lists_get by auto
  then show ?thesis by (simp add: ids_def)
qed

lemma locks_in: "edges_in (ids sp) (lock_edges sp)"
  unfolding lock_edges_def
proof (rule edges_in_concat)
  fix x assume x: "x \<in> set (sort_key (\<lambda>p. lock_text (fst p)) (lock_lists is_wait sp))"
  obtain k ws where k: "x = (k, ws)" by (cases x)
  have rel: "h \<in> ids sp" if "releases sp k h" for h using that ids_item by (auto simp: releases_def)
  show "edges_in (ids sp) (case x of (k, ws) \<Rightarrow> List.map_filter (handoff sp (lock_releases sp k)) ws)"
    unfolding k prod.case
  proof (rule edges_in_filter_map)
    fix w e assume w: "w \<in> set ws" and e: "handoff sp (lock_releases sp k) w = Some e"
    have "w \<in> ids sp" using lock_lists_in x k w by (metis set_sort subsetD)
    then show "edges_in (ids sp) [e]" using handoff_latest [OF e] rel by auto
  qed
qed

definition cl_in :: "nat set \<Rightarrow> cl_process \<Rightarrow> bool" where
  "cl_in A p \<longleftrightarrow> fst ` set (cl_host p) \<subseteq> A \<and> range_in A (cl_dev p) \<and> set (cl_finish p) \<subseteq> A \<and> set (cl_waits p) \<subseteq> A"

lemma cl_process_in: "cl_in (ids sp) (cl_process_of sp q)"
  unfolding cl_process_of_def
proof (rule fold_inv)
  fix x p assume x: "x \<in> set (filter (\<lambda>(i, s). pid s = q) sp)" and p: "cl_in (ids sp) p"
  obtain i s where i: "x = (i, s)" by (cases x)
  have "x \<in> set sp" using x by simp
  then have "i \<in> ids sp" unfolding i by (rule ids_item)
  note i = i this
  have "fst ` set (AList.update i s (cl_host p)) \<subseteq> ids sp" using p i(2) by (simp add: cl_in_def dom_update)
  then show "cl_in (ids sp) (cl_note x p)"
    using p i(2) by (simp add: i(1) cl_note_def cl_in_def Let_def range_in_update)
qed (simp add: cl_in_def)

definition cmd_in :: "nat set \<Rightarrow> cmd \<Rightarrow> bool" where
  "cmd_in A c \<longleftrightarrow> c_host c \<in> A \<and> (\<forall>d. c_dev c = Some d \<longrightarrow> d \<in> A)"

lemma cl_cmd_in: "cl_in A p \<Longrightarrow> (i, s) \<in> set (cl_hosts p) \<Longrightarrow> cmd_in A (cl_cmd p i s)"
  by (force simp: cmd_in_def cl_cmd_def cl_in_def cl_hosts_def range_in_def Let_def split: if_splits)

lemma cl_queues_in:
  assumes "cl_in A p"
  shows "(q, cs) \<in> set (cl_queues p) \<Longrightarrow> c \<in> set cs \<Longrightarrow> cmd_in A c"
proof -
  assume "(q, cs) \<in> set (cl_queues p)" "c \<in> set cs"
  then obtain hs i s where "(q, hs) \<in> set (group_by (\<lambda>(i, s). queue_of s) (cl_hosts p))" "(i, s) \<in> set hs" "c = cl_cmd p i s"
    by (auto simp: cl_queues_def)
  then show ?thesis using cl_cmd_in [OF assms] group_member by fastforce
qed

lemma cl_events_in:
  assumes "cl_in A p"
  shows "map_of (cl_events p) ev = Some c \<Longrightarrow> cmd_in A c"
proof -
  have "\<forall>k c. map_of (cl_events p) k = Some c \<longrightarrow> cmd_in A c"
    unfolding cl_events_def
  proof (rule fold_inv [where P = "\<lambda>d. \<forall>k c. map_of d k = Some c \<longrightarrow> cmd_in A c"])
    fix x and d :: "(string, cmd) dict" assume x: "x \<in> set (cl_hosts p)" and d: "\<forall>k c. map_of d k = Some c \<longrightarrow> cmd_in A c"
    obtain i s where i: "x = (i, s)" by (cases x)
    then show "\<forall>k c. map_of ((\<lambda>(i, s) d. if has_event (cl_cmd p i s) then AList.update (the (c_ev (cl_cmd p i s))) (cl_cmd p i s) d else d) x d) k
        = Some c \<longrightarrow> cmd_in A c"
      using d cl_cmd_in [OF assms] x by (auto simp: update_conv')
  qed simp
  then show "map_of (cl_events p) ev = Some c \<Longrightarrow> cmd_in A c" by blast
qed

definition done_in :: "nat set \<Rightarrow> completions \<Rightarrow> bool" where
  "done_in A d \<longleftrightarrow> (\<forall>k j. map_of d k = Some (Some j) \<longrightarrow> j \<in> A)"

definition walk_in :: "nat set \<Rightarrow> walk_state \<Rightarrow> bool" where
  "walk_in A st \<longleftrightarrow> set (opt_list (wk_last st)) \<subseteq> A \<and> set (opt_list (wk_barrier st)) \<subseteq> A \<and> set (wk_since st) \<subseteq> A
     \<and> done_in A (wk_done st) \<and> edges_in A (wk_edges st)"

lemma resolve_event_in:
  assumes "cl_in A p" "done_in A d"
  shows "set (opt_list (resolve_event (cl_events p) d ev)) \<subseteq> A"
  using cl_events_in [OF assms(1)] assms(2)
  by (auto simp: resolve_event_def opt_list_def cmd_in_def done_in_def dict_get_def split: option.splits)

lemma event_sources_in: "cl_in A p \<Longrightarrow> walk_in A st \<Longrightarrow> set (event_sources (cl_events p) st c) \<subseteq> A"
  using resolve_event_in [of A p "wk_done st"] by (auto simp: event_sources_def walk_in_def)

lemma max_key_in: "max_key f xs = m \<Longrightarrow> set xs \<subseteq> A \<Longrightarrow> set (opt_list m) \<subseteq> A"
  using max_key_Some [of f xs] by (cases m) (auto simp: opt_list_def)

lemma walk_marker_in:
  assumes "cl_in A p" "walk_in A st"
  shows "walk_in A (walk_marker sp io (cl_events p) c st)"
proof -
  define pre where "pre = (if c_wait c \<noteq> [] then event_sources (cl_events p) st c @ (if io then opt_list (wk_last st) else [])
                 else if io then opt_list (wk_last st) else wk_since st @ opt_list (wk_barrier st))"
  define m where "m = max_key (\<lambda>j. work_end (span_at sp j)) pre"
  have "set pre \<subseteq> A" using event_sources_in [OF assms, of c] assms(2) by (auto simp: pre_def walk_in_def)
  then have m: "set (opt_list m) \<subseteq> A" using max_key_in m_def by metis
  define d where "d = (if has_event c then AList.update (the (c_ev c)) m (wk_done st) else wk_done st)"
  have d: "done_in A d" using assms(2) m by (auto simp: d_def done_in_def walk_in_def update_conv' opt_list_def)
  have "walk_marker sp io (cl_events p) c st =
      (let st = st\<lparr>wk_done := d\<rparr> in
       if io then st\<lparr>wk_last := (if m \<noteq> None then m else wk_last st)\<rparr>
       else if c_kind c = ''barrier'' then st\<lparr>wk_barrier := (if m \<noteq> None then m else wk_barrier st), wk_since := []\<rparr> else st)"
    unfolding walk_marker_def pre_def [symmetric] m_def [symmetric] d_def Let_def by simp
  then show ?thesis using assms(2) m d by (simp add: walk_in_def Let_def)
qed

lemma command_edges_in: "set sources \<subseteq> A \<Longrightarrow> cmd_in A c \<Longrightarrow> edges_in A (command_edges sources c)"
  unfolding command_edges_def
  by (rule edges_in_filter_map) (auto simp: once_def cmd_in_def split: option.splits if_splits)

lemma walk_command_in:
  assumes "cl_in A p" "walk_in A st" "cmd_in A c"
  shows "walk_in A (walk_command io (cl_events p) emit c st)"
proof -
  have "set (event_sources (cl_events p) st c @ opt_list (if io then wk_last st else wk_barrier st)) \<subseteq> A"
    using event_sources_in [OF assms(1,2), of c] assms(2) by (auto simp: walk_in_def)
  from command_edges_in [OF this assms(3)]
  have w: "walk_in A (st\<lparr>wk_edges := wk_edges st @ command_edges (event_sources (cl_events p) st c @
      opt_list (if io then wk_last st else wk_barrier st)) c\<rparr>)" using assms(2) by (simp add: walk_in_def)
  have "walk_in A (case c_dev c of None \<Rightarrow> st
      | Some d \<Rightarrow> st\<lparr>wk_last := (if io then Some d else wk_last st), wk_since := wk_since st @ [d]\<rparr>)" if "walk_in A st" for st
    using that assms(3) by (auto simp: walk_in_def cmd_in_def opt_list_def split: option.split)
  then show ?thesis using w assms(2) by (simp add: walk_command_def Let_def)
qed

lemma walk_queue_in:
  assumes "cl_in A p" "\<forall>c\<in>set (snd queue). cmd_in A c" "done_in A (fst st)" "edges_in A (snd st)"
  shows "done_in A (fst (walk_queue sp p emit queue st)) \<and> edges_in A (snd (walk_queue sp p emit queue st))"
proof -
  have "walk_in A (fold (walk_step sp io (cl_events p) emit) (snd queue) (walk_start (fst st) (snd st)))" for io
  proof (rule fold_inv)
    show "walk_in A (walk_start (fst st) (snd st))" using assms(3,4) by (simp add: walk_in_def walk_start_def opt_list_def)
    fix c w assume "c \<in> set (snd queue)" "walk_in A w"
    then show "walk_in A (walk_step sp io (cl_events p) emit c w)"
      using assms(1,2) walk_marker_in walk_command_in by (simp add: walk_step_def)
  qed
  then show ?thesis by (simp add: walk_queue_def Let_def walk_in_def)
qed

lemma walk_all_in:
  assumes "cl_in A p"
  shows "done_in A (fst (walk_all sp p)) \<and> edges_in A (snd (walk_all sp p))"
proof -
  have pass: "done_in A (fst (fold (walk_queue sp p emit) qs st)) \<and> edges_in A (snd (fold (walk_queue sp p emit) qs st))"
    if "done_in A (fst st) \<and> edges_in A (snd st)" "set qs \<subseteq> set (cl_queues p)" for emit qs st
  proof (rule fold_inv [where P = "\<lambda>st. done_in A (fst st) \<and> edges_in A (snd st)"])
    fix q st assume q: "q \<in> set qs" and st: "done_in A (fst st) \<and> edges_in A (snd st)"
    have "\<forall>c\<in>set (snd q). cmd_in A c" using cl_queues_in [OF assms, of "fst q" "snd q"] q that(2) by auto
    then show "done_in A (fst (walk_queue sp p emit q st)) \<and> edges_in A (snd (walk_queue sp p emit q st))"
      using walk_queue_in [OF assms] st by blast
  qed (rule that(1))
  show ?thesis unfolding walk_all_def Let_def by (intro pass) (simp_all add: done_in_def)
qed

lemma cl_edges_in: "edges_in (ids sp) (cl_process_edges sp (cl_process_of sp q))"
proof -
  let ?p = "cl_process_of sp q"
  note p = cl_process_in [of sp q]
  obtain d es where w: "walk_all sp ?p = (d, es)" by force
  have de: "done_in (ids sp) d" "edges_in (ids sp) es" using walk_all_in [OF p, of sp] w by simp_all
  have 1: "edges_in (ids sp) (finish_edges sp ?p)"
    unfolding finish_edges_def Let_def
  proof (rule edges_in_filter_map)
    fix f e assume f: "f \<in> set (cl_finish ?p)" and e: "map_option (\<lambda>j. gated_by f j S_device_wait Certain)
        (max_key (\<lambda>j. work_end (span_at sp j)) (concat (map (\<lambda>c. opt_list (c_dev c))
          (filter (\<lambda>c. c_start c \<le> start_ns (span_at sp f)) (dict_get (cl_queues ?p) (queue_of (span_at sp f)) []))))) = Some e"
    let ?cs = "dict_get (cl_queues ?p) (queue_of (span_at sp f)) []"
    have cs: "cmd_in (ids sp) c" if "c \<in> set ?cs" for c
    proof (cases "map_of (cl_queues ?p) (queue_of (span_at sp f))")
      case (Some cs)
      then show ?thesis using cl_queues_in [OF p map_of_SomeD [OF Some]] that by (simp add: dict_get_def)
    qed (use that in \<open>simp add: dict_get_def\<close>)
    obtain j where j: "max_key (\<lambda>j. work_end (span_at sp j)) (concat (map (\<lambda>c. opt_list (c_dev c))
          (filter (\<lambda>c. c_start c \<le> start_ns (span_at sp f)) ?cs))) = Some j" "e = gated_by f j S_device_wait Certain"
      using e by auto
    have "j \<in> set (concat (map (\<lambda>c. opt_list (c_dev c)) (filter (\<lambda>c. c_start c \<le> start_ns (span_at sp f)) ?cs)))"
      using max_key_Some [OF j(1)] by blast
    then have "j \<in> ids sp" using cs by (auto simp: opt_list_def cmd_in_def split: option.splits)
    then show "edges_in (ids sp) [e]" using j(2) f p by (auto simp: cl_in_def)
  qed
  have 2: "edges_in (ids sp) (wait_edges sp ?p d)"
    unfolding wait_edges_def
  proof (rule edges_in_concat, rule edges_in_map)
    fix w j assume w: "w \<in> set (cl_waits ?p)"
      and j: "j \<in> set (concat (map opt_list (once (map (resolve_event (cl_events ?p) d) (cl_ids (tag (span_at sp w) ''wait''))))))"
    have "j \<in> ids sp" using j resolve_event_in [OF p de(1)] by (auto simp: once_def)
    then show "edges_in (ids sp) [gated_by w j S_device_wait Certain]" using w p by (auto simp: cl_in_def)
  qed
  show ?thesis using 1 2 de(2) by (simp add: cl_process_edges_def w)
qed

lemma opencl_in: "edges_in (ids sp) (opencl_edges sp)"
  unfolding opencl_edges_def by (intro edges_in_concat cl_edges_in)

section \<open>The graph is over the trace's spans\<close>

lemma dependency_edges_valid:
  "e \<in> set (dependency_edges t exact_p2p) \<Longrightarrow> s_dst e < length (tv_spans t) \<and> s_src e < length (tv_spans t)"
proof -
  assume e: "e \<in> set (dependency_edges t exact_p2p)"
  have "ids (items t) \<subseteq> {..<length (tv_spans t)}" by (auto simp: ids_def items_def in_set_enumerate_eq)
  moreover have "edges_in (ids (items t)) (dependency_edges t exact_p2p)"
    by (simp add: dependency_edges_def Let_def program_order_in stream_order_in device_sync_in gpu_in explicit_in p2p_in
        mpi_rendezvous_in nccl_in omp_barrier_in tasks_in locks_in opencl_in)
  ultimately show ?thesis using e unfolding edges_in_def by blast
qed

text \<open>
  C33. The dependency graph is well typed: whatever the trace, every edge that any builder makes
  joins two spans of the trace by their index.
\<close>

theorem dependency_graph_typed:
  assumes "e \<in> set (dependency_edges t exact_p2p)"
  shows "s_dst e < length (tv_spans t) \<and> s_src e < length (tv_spans t)"
  using assms by (rule dependency_edges_valid)

definition demo_view :: trace_view where
  "demo_view = \<lparr>tv_spans = [mk_span ''a'' CPU 0 5 1 7 [], mk_span ''omp_barrier_x'' SYNC 6 4 1 7 [(''team'', ''1'')],
       mk_span ''omp_barrier_x'' SYNC 8 2 1 8 [(''team'', ''1'')]],
     tv_instants = [], tv_counters = [], tv_pids = [1], tv_health = \<lparr>h_receiver = [], h_transport = []\<rparr>\<rparr>"

lemma dependency_graph_typed_witness:
  "dependency_edges demo_view False = [gated_by 1 0 S_sequential Certain, gated_by 1 2 S_arrival High] \<and>
   s_src (gated_by 1 2 S_arrival High) < length (tv_spans demo_view)"
proof -
  have e: "dependency_edges demo_view False = [gated_by 1 0 S_sequential Certain, gated_by 1 2 S_arrival High]" by code_simp
  then have "gated_by 1 2 S_arrival High \<in> set (dependency_edges demo_view False)" by simp
  then show ?thesis using dependency_graph_typed e by blast
qed

end
