(* ===== verification/Span_Path.thy ===== *)
theory Span_Path
  imports Dependency_Graph
begin

text \<open>
  \<^verbatim>\<open>src/src/analysis/criticalpath.py\<close>, the span-level critical path: Kahn's order, the longest-path
  dynamic program with its choice of predecessors, the greedy walk for graphs with cycles, and the
  attribution of the path's time. The edges are those of \<open>build_dependency_graph\<close>, a list; loops
  carry a fuel and return None when it runs out, which \<^theory_text>\<open>Span_Path_Facts\<close> shows never happens.
\<close>

section \<open>Gaps and gates\<close>

definition END_GATED :: "skind list" where
  "END_GATED = [S_sequential, S_device_sync, S_explicit_span_id]"

definition OVERLAP_KINDS :: "skind list" where
  "OVERLAP_KINDS = [S_launch, S_device_wait]"

record hop =
  h_gate :: int
  h_limit :: int
  h_gap :: int

definition edge_gap_and_gate :: "spans \<Rightarrow> nat \<Rightarrow> nat \<Rightarrow> skind \<Rightarrow> hop" where
  "edge_gap_and_gate sp u v kind =
     (let su = span_at sp u; sv = span_at sp v in
      if kind \<in> set END_GATED then
        (let gate = effective_end_ns su; limit = effective_start_ns sv in \<lparr>h_gate = gate, h_limit = limit, h_gap = max 0 (limit - gate)\<rparr>)
      else if kind = S_launch then
        \<lparr>h_gate = start_ns su, h_limit = effective_start_ns sv + CLOCK_TOLERANCE_NS, h_gap = effective_start_ns sv - end_ns su\<rparr>
      else if kind = S_device_wait then
        \<lparr>h_gate = effective_end_ns su, h_limit = end_ns sv + CLOCK_TOLERANCE_NS, h_gap = start_ns sv - effective_end_ns su\<rparr>
      else \<lparr>h_gate = effective_start_ns su, h_limit = effective_end_ns sv, h_gap = 0\<rparr>)"

definition hop_of :: "spans \<Rightarrow> sedge \<Rightarrow> hop" where
  "hop_of sp e = edge_gap_and_gate sp (s_src e) (s_dst e) (s_kind e)"

section \<open>Kahn's order\<close>

text \<open>The targets of a span in the order of \<open>preds.items()\<close>.\<close>

definition succs_of :: "sedge list \<Rightarrow> nat \<Rightarrow> nat list" where
  "succs_of edges u = map s_dst (filter (\<lambda>e. s_src e = u) (concat (map snd (group_by s_dst edges))))"

definition in_degrees :: "nat \<Rightarrow> sedge list \<Rightarrow> int list" where
  "in_degrees n edges = fold (\<lambda>e d. d[s_dst e := d ! s_dst e + 1]) edges (replicate n 0)"

fun release :: "nat list \<Rightarrow> int list \<Rightarrow> nat list \<Rightarrow> int list \<times> nat list" where
  "release [] indeg dq = (indeg, dq)"
| "release (v # vs) indeg dq =
     (let indeg = indeg[v := indeg ! v - 1] in release vs indeg (if indeg ! v = 0 then dq @ [v] else dq))"

fun span_kahn :: "nat \<Rightarrow> (nat \<Rightarrow> nat list) \<Rightarrow> int list \<Rightarrow> nat list \<Rightarrow> nat list \<Rightarrow> nat list option" where
  "span_kahn fuel succs indeg order [] = Some order"
| "span_kahn 0 succs indeg order (u # dq) = None"
| "span_kahn (Suc fuel) succs indeg order (u # dq) =
     (let (indeg, dq) = release (succs u) indeg dq in span_kahn fuel succs indeg (order @ [u]) dq)"

definition run_kahn :: "nat \<Rightarrow> nat \<Rightarrow> sedge list \<Rightarrow> nat list option" where
  "run_kahn fuel n edges =
     (let indeg = in_degrees n edges in span_kahn fuel (succs_of edges) indeg [] (filter (\<lambda>i. indeg ! i = 0) [0..<n]))"

definition kahn_order :: "nat \<Rightarrow> sedge list \<Rightarrow> nat list option" where
  "kahn_order n edges =
     (case run_kahn n n edges of Some order \<Rightarrow> if length order = n then Some order else None | None \<Rightarrow> None)"

section \<open>The dynamic program\<close>

type_synonym choice = "sedge option"

definition overrides :: "spans \<Rightarrow> nat \<Rightarrow> sedge \<Rightarrow> sedge \<Rightarrow> bool" where
  "overrides sp v e best \<longleftrightarrow>
     (is_new_format (span_at sp v) \<or> s_kind e \<in> set OVERLAP_KINDS \<or> s_kind best \<in> set OVERLAP_KINDS)
     \<and> effective_end_ns (span_at sp (s_src e)) > effective_end_ns (span_at sp (s_src best))"

definition consider_edge :: "spans \<Rightarrow> int list \<Rightarrow> nat \<Rightarrow> sedge \<Rightarrow> int \<times> choice \<Rightarrow> int \<times> choice" where
  "consider_edge sp acc v e st =
     (let (best, chosen) = st; h = hop_of sp e; candidate = acc ! s_src e + h_gap h + duration_ns (span_at sp v) in
      if is_annotation (span_at sp (s_src e)) \<or> h_gate h > h_limit h then st
      else if candidate > best then (candidate, Some e)
      else if candidate = best \<and> (case chosen of None \<Rightarrow> False | Some b \<Rightarrow> overrides sp v e b) then (best, Some e)
      else st)"

type_synonym dp_state = "int list \<times> choice list"

definition dp_step :: "spans \<Rightarrow> sedge list \<Rightarrow> nat \<Rightarrow> dp_state \<Rightarrow> dp_state" where
  "dp_step sp edges v st =
     (let (acc, chosen) = st in
      if is_annotation (span_at sp v) then st
      else
        (let (best, c) = fold (consider_edge sp acc v) (preds_of edges v) (duration_ns (span_at sp v), None)
         in (acc[v := best], chosen[v := c])))"

definition dp_run :: "spans \<Rightarrow> sedge list \<Rightarrow> nat list \<Rightarrow> dp_state" where
  "dp_run sp edges order = fold (dp_step sp edges) order (replicate (length sp) 0, replicate (length sp) None)"

text \<open>The chosen edges back from a span, in path order.\<close>

fun follow :: "nat \<Rightarrow> choice list \<Rightarrow> nat \<Rightarrow> sedge list \<Rightarrow> sedge list option" where
  "follow fuel chosen cur es =
     (case chosen ! cur of
        None \<Rightarrow> Some es
      | Some e \<Rightarrow> (case fuel of 0 \<Rightarrow> None | Suc fuel \<Rightarrow> follow fuel chosen (s_src e) (e # es)))"

declare follow.simps [simp del]

record span_path =
  sp_path :: "nat list"
  sp_conf :: "conf list"
  sp_kinds :: "skind list"

definition empty_path :: span_path where
  "empty_path = \<lparr>sp_path = [], sp_conf = [], sp_kinds = []\<rparr>"

definition path_of :: "nat \<Rightarrow> sedge list \<Rightarrow> span_path" where
  "path_of last_span es =
     \<lparr>sp_path = map s_src es @ [last_span], sp_conf = map s_conf es, sp_kinds = map s_kind es\<rparr>"

definition nodes :: "spans \<Rightarrow> nat list" where
  "nodes sp = filter (\<lambda>i. \<not> is_annotation (span_at sp i)) [0..<length sp]"

definition critical_path_dp :: "spans \<Rightarrow> sedge list \<Rightarrow> span_path option" where
  "critical_path_dp sp edges =
     (case kahn_order (length sp) edges of
        None \<Rightarrow> None
      | Some order \<Rightarrow>
          (let (acc, chosen) = dp_run sp edges order in
           case max_key (\<lambda>i. acc ! i) (nodes sp) of
             None \<Rightarrow> Some empty_path
           | Some v \<Rightarrow> map_option (path_of v) (follow (length sp) chosen v [])))"

section \<open>The greedy walk\<close>

definition greedy_best :: "spans \<Rightarrow> nat list \<Rightarrow> sedge \<Rightarrow> choice \<times> int \<Rightarrow> choice \<times> int" where
  "greedy_best sp visited e st =
     (let (best, best_gate) = st; h = hop_of sp e in
      if s_src e \<in> set visited \<or> is_annotation (span_at sp (s_src e)) then st
      else if h_gate h \<le> h_limit h \<and> h_gate h > best_gate then (Some e, h_gate h) else st)"

fun greedy :: "nat \<Rightarrow> spans \<Rightarrow> sedge list \<Rightarrow> nat list \<Rightarrow> nat \<Rightarrow> sedge list \<Rightarrow> sedge list option" where
  "greedy fuel sp edges visited cur es =
     (case fst (fold (greedy_best sp visited) (preds_of edges cur) (None, -1)) of
        None \<Rightarrow> Some es
      | Some e \<Rightarrow> (case fuel of 0 \<Rightarrow> None | Suc fuel \<Rightarrow> greedy fuel sp edges (s_src e # visited) (s_src e) (e # es)))"

declare greedy.simps [simp del]

definition critical_path_greedy :: "spans \<Rightarrow> sedge list \<Rightarrow> span_path option" where
  "critical_path_greedy sp edges =
     (case max_key (\<lambda>i. end_ns (span_at sp i)) (nodes sp) of
        None \<Rightarrow> Some empty_path
      | Some v \<Rightarrow> map_option (path_of v) (greedy (length sp) sp edges [v] v []))"

definition span_critical_path :: "spans \<Rightarrow> sedge list \<Rightarrow> span_path option" where
  "span_critical_path sp edges =
     (if sp = [] then Some empty_path
      else case critical_path_dp sp edges of Some p \<Rightarrow> Some p | None \<Rightarrow> critical_path_greedy sp edges)"

section \<open>The path's time\<close>

record blame_state =
  bs_frontier :: "int option"
  bs_on_path :: "(string, int) dict"
  bs_caused :: "(string, int) dict"
  bs_total :: int
  bs_credited :: "int list"
  bs_gaps :: "int list"

definition no_path_blame :: blame_state where
  "no_path_blame = \<lparr>bs_frontier = None, bs_on_path = [], bs_caused = [], bs_total = 0, bs_credited = [], bs_gaps = []\<rparr>"

definition cat_at :: "spans \<Rightarrow> nat \<Rightarrow> string" where
  "cat_at sp i = category_value (category (span_at sp i))"

definition blame_step :: "spans \<Rightarrow> nat list \<Rightarrow> nat \<Rightarrow> blame_state \<Rightarrow> blame_state" where
  "blame_step sp path i st =
     (let s = span_at sp (path ! i);
          (gap, own, frontier) =
            (case bs_frontier st of
               None \<Rightarrow> (0, duration_ns s, end_ns s)
             | Some f \<Rightarrow> (max 0 (start_ns s - f), max 0 (end_ns s - max (start_ns s) f), max f (end_ns s)))
      in st\<lparr>bs_frontier := Some frontier,
            bs_caused := (if gap \<noteq> 0 then dict_add (cat_at sp (path ! (i - 1))) gap (bs_caused st) else bs_caused st),
            bs_on_path := dict_add (cat_at sp (path ! i)) own (bs_on_path st),
            bs_total := bs_total st + (gap + own),
            bs_credited := bs_credited st @ [own],
            bs_gaps := bs_gaps st @ [gap]\<rparr>)"

definition attribute_path :: "spans \<Rightarrow> nat list \<Rightarrow> blame_state" where
  "attribute_path sp path = fold (blame_step sp path) [0..<length path] no_path_blame"

definition dp_accounted_ns :: "spans \<Rightarrow> nat list \<Rightarrow> skind list \<Rightarrow> int" where
  "dp_accounted_ns sp path kinds =
     (if path \<noteq> [] \<and> length kinds = length path - 1
      then fold (\<lambda>i a. a + (h_gap (edge_gap_and_gate sp (path ! (i - 1)) (path ! i) (kinds ! (i - 1))) + duration_ns (span_at sp (path ! i))))
             [1..<length path] (duration_ns (span_at sp (path ! 0)))
      else 0)"

end
