(* ===== verification/Topological_Order.thy ===== *)
theory Topological_Order
  imports Event_Graph
begin

text \<open>
  The topological order of the event graph and the breaking of cycles in
  \<^verbatim>\<open>src/src/analysis/cp_model.py\<close>: whatever edges a graph has, \<open>_break_cycles\<close> leaves an
  order of all its active nodes in which every enabled edge leads forward, and it disables
  nothing in a graph without cycles.
\<close>

section \<open>Orders\<close>

text \<open>Every enabled edge into a listed node comes from a node listed before it.\<close>

definition ordered :: "event_graph \<Rightarrow> nat list \<Rightarrow> bool" where
  "ordered g order \<longleftrightarrow> distinct order \<and>
     (\<forall>e<length (g_edges g). g_enabled g ! e \<longrightarrow>
        (\<forall>xs ys. order = xs @ e_dst (edge_of g e) # ys \<longrightarrow> e_src (edge_of g e) \<in> set xs))"

lemma ordered_source:
  assumes "ordered g order" "e < length (g_edges g)" "g_enabled g ! e" "e_dst (edge_of g e) \<in> set order"
  shows "e_src (edge_of g e) \<in> set order"
  using assms split_list [OF assms(4)] by (fastforce simp: ordered_def)

lemma ordered_snoc:
  assumes "ordered g order" "u \<notin> set order"
    "\<And>e. e < length (g_edges g) \<Longrightarrow> g_enabled g ! e \<Longrightarrow> e_dst (edge_of g e) = u \<Longrightarrow> e_src (edge_of g e) \<in> set order"
  shows "ordered g (order @ [u])"
  unfolding ordered_def
proof (intro conjI allI impI)
  show "distinct (order @ [u])" using assms(1,2) by (simp add: ordered_def)
  fix e xs ys assume e: "e < length (g_edges g)" "g_enabled g ! e" and split: "order @ [u] = xs @ e_dst (edge_of g e) # ys"
  show "e_src (edge_of g e) \<in> set xs"
  proof (cases ys rule: rev_cases)
    case Nil
    then show ?thesis using split assms(3) [OF e] by simp
  next
    case (snoc zs z)
    then have "order = xs @ e_dst (edge_of g e) # zs" using split by simp
    then show ?thesis using assms(1) e by (simp add: ordered_def)
  qed
qed

text \<open>The position of a node, and what it says of an edge.\<close>

definition position :: "nat list \<Rightarrow> nat \<Rightarrow> nat" where
  "position order v = length (takeWhile (\<lambda>x. x \<noteq> v) order)"

lemma position_append: "v \<notin> set xs \<Longrightarrow> position (xs @ v # ys) v = length xs"
  by (simp add: position_def takeWhile_append)

lemma position_less: "v \<in> set xs \<Longrightarrow> position (xs @ ys) v < length xs"
  by (induction xs) (auto simp: position_def)

lemma ordered_position:
  assumes "ordered g order" "e < length (g_edges g)" "g_enabled g ! e" "e_dst (edge_of g e) \<in> set order"
  shows "position order (e_src (edge_of g e)) < position order (e_dst (edge_of g e))"
proof -
  obtain xs ys where split: "order = xs @ e_dst (edge_of g e) # ys" "e_dst (edge_of g e) \<notin> set xs"
    using split_list_first [OF assms(4)] by blast
  then have "e_src (edge_of g e) \<in> set xs" using assms(1-3) unfolding ordered_def by blast
  then show ?thesis unfolding split(1) using split(2) position_append position_less by fastforce
qed

section \<open>The queue\<close>

text \<open>The enabled edges into \<open>v\<close> from outside a set of nodes.\<close>

definition waiting :: "event_graph \<Rightarrow> nat set \<Rightarrow> nat \<Rightarrow> nat set" where
  "waiting g placed v =
     {e. e < length (g_edges g) \<and> g_enabled g ! e \<and> e_dst (edge_of g e) = v \<and> e_src (edge_of g e) \<notin> placed}"

lemma finite_waiting [simp]: "finite (waiting g placed v)"
  by (rule finite_subset [of _ "{..<length (g_edges g)}"]) (auto simp: waiting_def)

lemma indegrees_spec:
  assumes "graph_ok g"
  shows "length (indegrees g) = 2 * g_n g \<and> (\<forall>v<2 * g_n g. indegrees g ! v = int (card (waiting g {} v)))"
proof -
  let ?W = "\<lambda>i v. {e. e < i \<and> g_enabled g ! e \<and> e_dst (edge_of g e) = v}"
  let ?P = "\<lambda>i indeg. length indeg = 2 * g_n g \<and> (\<forall>v<2 * g_n g. indeg ! v = int (card (?W i v)))"
  have fin: "finite (?W i v)" for i v by (rule finite_subset [of _ "{..<i}"]) auto
  have "?P (length (g_edges g)) (indegrees g)" unfolding indegrees_def
  proof (rule fold_range_inv [where P = ?P])
    fix e indeg assume e: "e < length (g_edges g)" and P: "?P e indeg"
    have W: "?W (Suc e) v = (if g_enabled g ! e \<and> e_dst (edge_of g e) = v then insert e (?W e v) else ?W e v)" for v
      by (auto simp: less_Suc_eq)
    show "?P (Suc e) (if g_enabled g ! e then indeg[e_dst (edge_of g e) := indeg ! e_dst (edge_of g e) + 1] else indeg)"
      unfolding W using P fin graph_okD(2) [OF assms e] by (auto simp: nth_update)
  qed simp
  then show ?thesis by (simp add: waiting_def)
qed

text \<open>
  The invariant of the queue: the nodes placed are in order, every count is of the edges
  still to come, and a node waits in the queue or is placed as soon as its count is zero.
\<close>

definition kahn_inv :: "event_graph \<Rightarrow> int list \<Rightarrow> nat list \<Rightarrow> nat list \<Rightarrow> bool" where
  "kahn_inv g indeg order dq \<longleftrightarrow> length indeg = 2 * g_n g \<and> ordered g order \<and> distinct (order @ dq) \<and>
     (\<forall>v\<in>set (order @ dq). v < 2 * g_n g \<and> g_active g ! v \<and> waiting g (set order) v = {}) \<and>
     (\<forall>v<2 * g_n g. indeg ! v = int (card (waiting g (set order) v))) \<and>
     (\<forall>v<2 * g_n g. g_active g ! v \<longrightarrow> waiting g (set order) v = {} \<longrightarrow> v \<in> set (order @ dq))"

text \<open>
  While \<open>u\<close> is placed: the edges out of it in \<open>todo\<close> still count, the others no more.
\<close>

definition remaining_in :: "event_graph \<Rightarrow> nat list \<Rightarrow> nat \<Rightarrow> nat set \<Rightarrow> nat \<Rightarrow> nat set" where
  "remaining_in g order u todo v = waiting g (insert u (set order)) v \<union> (todo \<inter> waiting g (set order) v)"

lemma finite_remaining [simp]: "finite (remaining_in g order u todo v)"
  by (simp add: remaining_in_def)

lemma remaining_mono: "todo \<subseteq> todo' \<Longrightarrow> remaining_in g order u todo v \<subseteq> remaining_in g order u todo' v"
  by (auto simp: remaining_in_def)

lemma remaining_disabled: "\<not> g_enabled g ! e \<Longrightarrow> remaining_in g order u (insert e todo) v = remaining_in g order u todo v"
  by (auto simp: remaining_in_def waiting_def)

lemma remaining_insert:
  assumes "e < length (g_edges g)" "g_enabled g ! e" "e_src (edge_of g e) = u" "u \<notin> set order"
  shows "remaining_in g order u (insert e todo) v =
    (if v = e_dst (edge_of g e) then insert e (remaining_in g order u todo v) else remaining_in g order u todo v)"
  using assms by (auto simp: remaining_in_def waiting_def)

lemma remaining_fresh: "e_src (edge_of g e) = u \<Longrightarrow> e \<notin> todo \<Longrightarrow> e \<notin> remaining_in g order u todo v"
  by (simp add: remaining_in_def waiting_def)

lemma remaining_none: "remaining_in g order u {} v = waiting g (set (order @ [u])) v"
  by (simp add: remaining_in_def)

definition relax_inv :: "event_graph \<Rightarrow> nat list \<Rightarrow> nat \<Rightarrow> nat set \<Rightarrow> int list \<Rightarrow> nat list \<Rightarrow> bool" where
  "relax_inv g order u todo indeg dq \<longleftrightarrow> length indeg = 2 * g_n g \<and> distinct (order @ u # dq) \<and>
     (\<forall>v\<in>set dq. v < 2 * g_n g \<and> g_active g ! v \<and> remaining_in g order u todo v = {}) \<and>
     (\<forall>v<2 * g_n g. indeg ! v = int (card (remaining_in g order u todo v))) \<and>
     (\<forall>v<2 * g_n g. g_active g ! v \<longrightarrow> remaining_in g order u todo v = {} \<longrightarrow> v \<in> set (order @ u # dq))"

lemma relax_edge_inv:
  assumes ok: "graph_ok g" and o: "ordered g order" and inv: "relax_inv g order u (insert e todo) indeg dq"
    and e: "e < length (g_edges g)" "e_src (edge_of g e) = u" "e \<notin> todo" "g_enabled g ! e"
    and u: "u \<notin> set order" "waiting g (set order) u = {}"
  defines "v \<equiv> e_dst (edge_of g e)"
  defines "indeg' \<equiv> indeg[v := indeg ! v - 1]"
  shows "relax_inv g order u todo indeg' (if indeg' ! v = 0 then dq @ [v] else dq)"
proof -
  let ?R = "remaining_in g order u"
  have v: "v < 2 * g_n g" "g_active g ! v" unfolding v_def using graph_okD [OF ok e(1)] by auto
  have R: "?R (insert e todo) z = (if z = v then insert e (?R todo z) else ?R todo z)" for z
    unfolding v_def by (rule remaining_insert [OF e(1,4,2) u(1)])
  have fresh: "e \<notin> ?R todo z" for z by (rule remaining_fresh [OF e(2,3)])
  have len: "length indeg = 2 * g_n g" and dist: "distinct (order @ u # dq)"
    and queued: "\<And>z. z \<in> set dq \<Longrightarrow> z < 2 * g_n g \<and> g_active g ! z \<and> ?R (insert e todo) z = {}"
    and counts: "\<And>z. z < 2 * g_n g \<Longrightarrow> indeg ! z = int (card (?R (insert e todo) z))"
    and found: "\<And>z. z < 2 * g_n g \<Longrightarrow> g_active g ! z \<Longrightarrow> ?R (insert e todo) z = {} \<Longrightarrow> z \<in> set (order @ u # dq)"
    using inv by (simp_all add: relax_inv_def)
  have count: "indeg' ! z = int (card (?R todo z))" if "z < 2 * g_n g" for z
    using counts [OF that] counts [OF v(1)] that len fresh [of v] by (simp add: indeg'_def R nth_update)
  have zero: "indeg' ! v = 0 \<longleftrightarrow> ?R todo v = {}" using count [OF v(1)] by simp
  have "?R (insert e todo) v \<noteq> {}" by (simp add: R)
  then have "v \<notin> set dq" using queued by blast
  moreover have "v \<noteq> u"
  proof
    assume "v = u"
    then have "e \<in> waiting g (set order) u" using e u(1) by (simp add: v_def waiting_def)
    with u(2) show False by simp
  qed
  moreover have "v \<notin> set order" using ordered_source [OF o e(1,4)] e(2) u(1) unfolding v_def by blast
  ultimately have vfresh: "v \<notin> set (order @ u # dq)" by simp
  let ?dq = "if indeg' ! v = 0 then dq @ [v] else dq"
  show ?thesis unfolding relax_inv_def
  proof (intro conjI ballI allI impI)
    show "length indeg' = 2 * g_n g" using len by (simp add: indeg'_def)
    show "distinct (order @ u # ?dq)" using dist vfresh by auto
    have all: "z < 2 * g_n g \<and> g_active g ! z \<and> ?R todo z = {}" if z: "z \<in> set ?dq" for z
    proof (cases "z \<in> set dq")
      case True
      from queued [OF this] show ?thesis unfolding R by (metis insert_not_empty)
    next
      case False
      with z zero v show ?thesis by (auto split: if_splits)
    qed
    show "z < 2 * g_n g" "g_active g ! z" "?R todo z = {}" if "z \<in> set ?dq" for z using all [OF that] by blast+
    show "indeg' ! z = int (card (?R todo z))" if "z < 2 * g_n g" for z by (rule count [OF that])
    show "z \<in> set (order @ u # ?dq)" if "z < 2 * g_n g" "g_active g ! z" "?R todo z = {}" for z
      using found [OF that(1,2)] that(3) zero R [of z] by (cases "z = v") auto
  qed
qed

lemma relax_out_inv:
  assumes "graph_ok g" "ordered g order" "u \<notin> set order" "waiting g (set order) u = {}"
    and "relax_inv g order u (set es) indeg dq" "distinct es" "\<forall>e\<in>set es. e < length (g_edges g) \<and> e_src (edge_of g e) = u"
  shows "relax_inv g order u {} (fst (relax_out g es indeg dq)) (snd (relax_out g es indeg dq))"
  using assms(5-7)
proof (induction es arbitrary: indeg dq)
  case (Cons e es)
  then have e: "e < length (g_edges g)" "e_src (edge_of g e) = u" "e \<notin> set es" and es: "distinct es"
    "\<forall>e\<in>set es. e < length (g_edges g) \<and> e_src (edge_of g e) = u" by auto
  have inv: "relax_inv g order u (insert e (set es)) indeg dq" using Cons.prems(1) by simp
  show ?case
  proof (cases "g_enabled g ! e")
    case False
    then have "relax_inv g order u (set es) indeg dq" using inv by (simp add: relax_inv_def remaining_disabled)
    from Cons.IH [OF this es] False show ?thesis by simp
  next
    case True
    from Cons.IH [OF relax_edge_inv [OF assms(1,2) inv e True assms(3,4)] es] True show ?thesis by (simp add: Let_def)
  qed
qed simp

section \<open>The whole loop\<close>

lemma kahn_step:
  assumes g: "finished g" and inv: "kahn_inv g indeg order (u # dq)"
  shows "kahn_inv g (fst (relax_out g (out_edges g u) indeg dq)) (order @ [u]) (snd (relax_out g (out_edges g u) indeg dq))"
proof -
  let ?es = "out_edges g u"
  note ok = finished_ok [OF g]
  from inv have o: "ordered g order" and len: "length indeg = 2 * g_n g" and dist: "distinct (order @ u # dq)"
    and facts: "\<And>v. v \<in> set (order @ u # dq) \<Longrightarrow> v < 2 * g_n g \<and> g_active g ! v \<and> waiting g (set order) v = {}"
    and counts: "\<And>v. v < 2 * g_n g \<Longrightarrow> indeg ! v = int (card (waiting g (set order) v))"
    and found: "\<And>v. v < 2 * g_n g \<Longrightarrow> g_active g ! v \<Longrightarrow> waiting g (set order) v = {} \<Longrightarrow> v \<in> set (order @ u # dq)"
    unfolding kahn_inv_def by blast+
  from facts [of u] have u: "u < 2 * g_n g" "waiting g (set order) u = {}" by simp_all
  have un: "u \<notin> set order" using dist by simp
  have es: "distinct ?es" "\<forall>e\<in>set ?es. e < length (g_edges g) \<and> e_src (edge_of g e) = u"
    using g u(1) by (auto simp: finished_def)
  have start: "remaining_in g order u (set ?es) v = waiting g (set order) v" for v
    using out_edges_iff [OF g u(1)] by (auto simp: remaining_in_def waiting_def)
  have "relax_inv g order u (set ?es) indeg dq"
    unfolding relax_inv_def start using len dist facts counts found by simp
  from relax_out_inv [OF ok o un u(2) this es]
  have inv': "relax_inv g order u {} (fst (relax_out g ?es indeg dq)) (snd (relax_out g ?es indeg dq))" .
  have o': "ordered g (order @ [u])"
    by (rule ordered_snoc [OF o un]) (use u(2) in \<open>auto simp: waiting_def\<close>)
  have "waiting g (set (order @ [u])) v = {}" if "v \<in> set (order @ [u])" for v
    using facts [of v] that by (auto simp: waiting_def)
  then show ?thesis
    using inv' o' facts unfolding relax_inv_def remaining_none kahn_inv_def by auto
qed

lemma kahn_spec:
  assumes "finished g" "kahn_inv g indeg order dq"
  shows "\<exists>indeg'. kahn_inv g indeg' (kahn g indeg order dq) []"
  using assms
proof (induction g indeg order dq rule: kahn.induct)
  case (1 g indeg order)
  then show ?case by auto
next
  case (2 g indeg order u dq)
  have u: "u < 2 * g_n g" and len: "length indeg = 2 * g_n g" using 2(3) by (auto simp: kahn_inv_def)
  have "\<not> (\<exists>e\<in>set (out_edges g u). length indeg \<le> e_dst (edge_of g e))"
    using out_edges_iff [OF 2(2) u] graph_okD(2) [OF finished_ok [OF 2(2)]] len by (auto simp: not_le)
  with 2(1) [OF this 2(2) kahn_step [OF 2(2,3)]] show ?case by simp
qed

lemma kahn_start:
  assumes "graph_ok g"
  shows "kahn_inv g (indegrees g) [] (filter (\<lambda>v. g_active g ! v \<and> indegrees g ! v = 0) [0..<2 * g_n g])"
  using indegrees_spec [OF assms] by (auto simp: kahn_inv_def ordered_def)

text \<open>
  The order: its nodes are active, every enabled edge into one leads forward, and a node is
  missing only if an enabled edge into it comes from outside.
\<close>

lemma topological_order_spec:
  assumes "finished g"
  shows "ordered g (topological_order g)" "set (topological_order g) \<subseteq> {v. v < 2 * g_n g \<and> g_active g ! v}"
    and "v < 2 * g_n g \<Longrightarrow> g_active g ! v \<Longrightarrow> v \<notin> set (topological_order g) \<Longrightarrow>
      \<exists>e<length (g_edges g). g_enabled g ! e \<and> e_dst (edge_of g e) = v \<and> e_src (edge_of g e) \<notin> set (topological_order g)"
proof -
  obtain indeg where inv: "kahn_inv g indeg (topological_order g) []"
    using kahn_spec [OF assms kahn_start [OF finished_ok [OF assms]]] by (auto simp: topological_order_def Let_def)
  then show "ordered g (topological_order g)" "set (topological_order g) \<subseteq> {v. v < 2 * g_n g \<and> g_active g ! v}"
    by (auto simp: kahn_inv_def)
  show "\<exists>e<length (g_edges g). g_enabled g ! e \<and> e_dst (edge_of g e) = v \<and> e_src (edge_of g e) \<notin> set (topological_order g)"
    if "v < 2 * g_n g" "g_active g ! v" "v \<notin> set (topological_order g)"
  proof -
    have "waiting g (set (topological_order g)) v \<noteq> {}" using inv that by (auto simp: kahn_inv_def)
    then show ?thesis by (auto simp: waiting_def)
  qed
qed

section \<open>Breaking cycles\<close>

lemma disable_fields [simp]:
  "g_n (disable_unplaced b order g) = g_n g" "g_edges (disable_unplaced b order g) = g_edges g"
  "g_active (disable_unplaced b order g) = g_active g" "g_t (disable_unplaced b order g) = g_t g"
  "in_edges (disable_unplaced b order g) = in_edges g" "out_edges (disable_unplaced b order g) = out_edges g"
proof -
  define f where "f = (\<lambda>e (g :: event_graph). if g_enabled g ! e \<and> e_src (edge_of g e) \<notin> set order \<and> e_dst (edge_of g e) \<notin> set order
                     \<and> (\<not> b \<or> e_mode (edge_of g e) = DEP)
                 then g\<lparr>g_enabled := (g_enabled g)[e := False], g_cycle_edges_dropped := g_cycle_edges_dropped g + 1\<rparr>
                 else g)"
  have "g_n (fold f es g) = g_n g \<and> g_edges (fold f es g) = g_edges g \<and> g_active (fold f es g) = g_active g \<and>
      g_t (fold f es g) = g_t g \<and> in_edges (fold f es g) = in_edges g \<and> out_edges (fold f es g) = out_edges g" for es
    by (induction es arbitrary: g) (auto simp: f_def in_edges_def [abs_def] out_edges_def [abs_def])
  from this [of "[0..<length (g_edges g)]"]
  show "g_n (disable_unplaced b order g) = g_n g" "g_edges (disable_unplaced b order g) = g_edges g"
    "g_active (disable_unplaced b order g) = g_active g" "g_t (disable_unplaced b order g) = g_t g"
    "in_edges (disable_unplaced b order g) = in_edges g" "out_edges (disable_unplaced b order g) = out_edges g"
    by (simp_all add: disable_unplaced_def f_def)
qed

text \<open>Exactly the enabled edges between unplaced nodes go (only dependencies, in the first round).\<close>

definition unplaced :: "bool \<Rightarrow> nat list \<Rightarrow> event_graph \<Rightarrow> nat \<Rightarrow> bool" where
  "unplaced b order g e \<longleftrightarrow> e_src (edge_of g e) \<notin> set order \<and> e_dst (edge_of g e) \<notin> set order
     \<and> (\<not> b \<or> e_mode (edge_of g e) = DEP)"

lemma disable_enabled:
  assumes "length (g_enabled g) = length (g_edges g)"
  shows "length (g_enabled (disable_unplaced b order g)) = length (g_edges g)"
    and "e < length (g_edges g) \<Longrightarrow> g_enabled (disable_unplaced b order g) ! e \<longleftrightarrow> g_enabled g ! e \<and> \<not> unplaced b order g e"
proof -
  let ?m = "length (g_edges g)"
  let ?P = "\<lambda>i (h :: event_graph). g_edges h = g_edges g \<and> length (g_enabled h) = ?m \<and>
      (\<forall>e<?m. g_enabled h ! e \<longleftrightarrow> g_enabled g ! e \<and> (e < i \<longrightarrow> \<not> unplaced b order g e))"
  have P: "?P ?m (disable_unplaced b order g)" unfolding disable_unplaced_def
    by (rule fold_range_inv [where P = ?P]) (use assms in \<open>auto simp: unplaced_def nth_update less_Suc_eq\<close>)
  then show "length (g_enabled (disable_unplaced b order g)) = ?m" by blast
  show "g_enabled (disable_unplaced b order g) ! e \<longleftrightarrow> g_enabled g ! e \<and> \<not> unplaced b order g e" if "e < ?m"
    using P that by blast
qed

lemma disable_finished: "finished g \<Longrightarrow> finished (disable_unplaced b order g)"
  using disable_enabled(1) [of g b order] by (simp add: finished_def graph_ok_def edge_ok_def)

lemma topological_order_complete:
  assumes g: "finished g" and r: "\<And>e. e < length (g_edges g) \<Longrightarrow> g_enabled g ! e \<Longrightarrow> r (e_src (edge_of g e)) < (r (e_dst (edge_of g e)) :: nat)"
    and v: "v < 2 * g_n g" "g_active g ! v"
  shows "v \<in> set (topological_order g)"
  using v
proof (induction "r v" arbitrary: v rule: less_induct)
  case less
  show ?case
  proof (rule ccontr)
    assume "v \<notin> set (topological_order g)"
    from topological_order_spec(3) [OF g less.prems this] obtain e where e: "e < length (g_edges g)" "g_enabled g ! e"
      "e_dst (edge_of g e) = v" "e_src (edge_of g e) \<notin> set (topological_order g)" by blast
    moreover have "e_src (edge_of g e) \<in> set (topological_order g)"
      using less.hyps [of "e_src (edge_of g e)"] r [OF e(1,2)] e(3) graph_okD [OF finished_ok [OF g] e(1)] by simp
    ultimately show False by simp
  qed
qed

text \<open>With all edges between unplaced nodes gone, the old positions rank the rest.\<close>

lemma disable_all_complete:
  assumes g: "finished g" and v: "v < 2 * g_n g" "g_active g ! v"
  defines "order \<equiv> topological_order g"
  shows "v \<in> set (topological_order (disable_unplaced False order g))"
proof (rule topological_order_complete [where r = "\<lambda>v. if v \<in> set order then position order v else length order"])
  let ?h = "disable_unplaced False order g"
  show "finished ?h" by (rule disable_finished [OF g])
  show "v < 2 * g_n ?h" "g_active ?h ! v" using v by simp_all
  fix e assume e: "e < length (g_edges ?h)" "g_enabled ?h ! e"
  have en: "g_enabled g ! e" "\<not> unplaced False order g e"
    using e disable_enabled(2) [of g e False order] g by (auto simp: finished_def)
  have o: "ordered g order" unfolding order_def by (rule topological_order_spec(1) [OF g])
  have src: "e_src (edge_of g e) \<in> set order"
    using en ordered_source [OF o _ en(1)] e(1) by (auto simp: unplaced_def)
  show "(if e_src (edge_of ?h e) \<in> set order then position order (e_src (edge_of ?h e)) else length order) <
      (if e_dst (edge_of ?h e) \<in> set order then position order (e_dst (edge_of ?h e)) else length order)"
    using src ordered_position [OF o _ en(1)] position_less [of _ order "[]"] e(1) by auto
qed

definition complete_order :: "event_graph \<Rightarrow> bool" where
  "complete_order g \<longleftrightarrow> finished g \<and> ordered g (g_order g) \<and> set (g_order g) = {v. v < 2 * g_n g \<and> g_active g ! v}"

lemma card_active: "length (g_active g) = 2 * g_n g \<Longrightarrow> length (filter id (g_active g)) = card {v. v < 2 * g_n g \<and> g_active g ! v}"
  by (simp add: length_filter_conv_card)

lemma all_placed:
  assumes g: "finished g" and "length (topological_order g) = length (filter id (g_active g))"
  shows "set (topological_order g) = {v. v < 2 * g_n g \<and> g_active g ! v}"
proof (rule card_subset_eq)
  show "card (set (topological_order g)) = card {v. v < 2 * g_n g \<and> g_active g ! v}"
    using assms(2) topological_order_spec(1) [OF g] card_active [of g] finished_ok [OF g]
    by (simp add: ordered_def distinct_card graph_ok_def)
qed (use topological_order_spec(2) [OF g] in simp_all)

lemma order_update [simp]:
  "finished (g\<lparr>g_order := xs\<rparr>) = finished g" "ordered (g\<lparr>g_order := xs\<rparr>) ys = ordered g ys"
  by (simp_all add: finished_def graph_ok_def edge_ok_def ordered_def in_edges_def out_edges_def)

lemma all_in_order:
  assumes "finished g" "\<And>v. v < 2 * g_n g \<Longrightarrow> g_active g ! v \<Longrightarrow> v \<in> set (topological_order g)"
  shows "complete_order (g\<lparr>g_order := topological_order g\<rparr>)"
  using assms topological_order_spec(1,2) [OF assms(1)] by (auto simp: complete_order_def)

lemma break_cycles_complete:
  assumes g: "finished g"
  shows "complete_order (break_cycles g)"
proof -
  let ?n = "length (filter id (g_active g))"
  let ?h = "disable_unplaced True (topological_order g) g"
  have h: "finished ?h" by (rule disable_finished [OF g])
  note k = disable_finished [OF h, of False "topological_order ?h"]
  consider "length (topological_order g) = ?n"
    | "length (topological_order g) \<noteq> ?n" "length (topological_order ?h) = ?n"
    | "length (topological_order g) \<noteq> ?n" "length (topological_order ?h) \<noteq> ?n" by blast
  then show ?thesis
  proof cases
    case 1
    then have "break_cycles g = g\<lparr>g_order := topological_order g\<rparr>" by (simp add: break_cycles_def)
    then show ?thesis using all_in_order [OF g] all_placed [OF g 1] by simp
  next
    case 2
    then have eq: "break_cycles g = ?h\<lparr>g_order := topological_order ?h\<rparr>" by (simp add: break_cycles_def Let_def)
    have "length (topological_order ?h) = length (filter id (g_active ?h))" using 2 by simp
    then show ?thesis using all_in_order [OF h] all_placed [OF h] unfolding eq by simp
  next
    case 3
    then have eq: "break_cycles g = (disable_unplaced False (topological_order ?h) ?h)
        \<lparr>g_order := topological_order (disable_unplaced False (topological_order ?h) ?h)\<rparr>"
      by (simp add: break_cycles_def Let_def)
    show ?thesis unfolding eq by (rule all_in_order [OF k]) (use disable_all_complete [OF h] in simp)
  qed
qed

lemma break_acyclic:
  assumes g: "finished g" and "\<And>e. e < length (g_edges g) \<Longrightarrow> g_enabled g ! e \<Longrightarrow> r (e_src (edge_of g e)) < (r (e_dst (edge_of g e)) :: nat)"
  shows "break_cycles g = g\<lparr>g_order := topological_order g\<rparr>"
proof -
  have "set (topological_order g) = {v. v < 2 * g_n g \<and> g_active g ! v}"
    using topological_order_complete [OF g, of r] topological_order_spec(2) [OF g] assms(2) by blast
  then have "length (topological_order g) = length (filter id (g_active g))"
    using topological_order_spec(1) [OF g] card_active [of g] finished_ok [OF g]
    by (metis distinct_card graph_ok_def ordered_def)
  then show ?thesis by (simp add: break_cycles_def)
qed

lemma disable_loop_fields:
  "g_n (break_loop bs n order g) = g_n g \<and> g_edges (break_loop bs n order g) = g_edges g \<and>
   g_active (break_loop bs n order g) = g_active g \<and> g_t (break_loop bs n order g) = g_t g"
  by (induction bs n order g rule: break_loop.induct) (auto simp: Let_def)

lemma break_cycles_fields [simp]:
  "g_n (break_cycles g) = g_n g" "g_edges (break_cycles g) = g_edges g"
  "g_active (break_cycles g) = g_active g" "g_t (break_cycles g) = g_t g"
  by (simp_all only: break_cycles_def disable_loop_fields)

section \<open>Properties\<close>

text \<open>
  Property. Whatever the edges of a finished graph are (cyclic ones included), \<open>_break_cycles\<close> leaves
  \<open>order\<close> with every active node exactly once, such that every edge still enabled leads from
  an earlier to a later position. No edge is removed, only disabled.
\<close>

theorem break_cycles_topological:
  assumes "finished g"
  shows "distinct (g_order (break_cycles g)) \<and>
    set (g_order (break_cycles g)) = {v. v < 2 * g_n g \<and> g_active g ! v} \<and>
    g_edges (break_cycles g) = g_edges g \<and>
    (\<forall>e<length (g_edges g). g_enabled (break_cycles g) ! e \<longrightarrow>
       position (g_order (break_cycles g)) (e_src (edge_of g e)) < position (g_order (break_cycles g)) (e_dst (edge_of g e)))"
proof -
  let ?h = "break_cycles g"
  note c = break_cycles_complete [OF assms, unfolded complete_order_def]
  have "position (g_order ?h) (e_src (edge_of g e)) < position (g_order ?h) (e_dst (edge_of g e))"
    if e: "e < length (g_edges g)" "g_enabled ?h ! e" for e
    using ordered_position [of ?h "g_order ?h" e] c e graph_okD(2,5) [OF finished_ok [OF assms] e(1)] by auto
  with c show ?thesis by (auto simp: ordered_def)
qed

text \<open>Three events at one instant, two dependencies against each other.\<close>

definition demo_cycle :: event_graph where
  "demo_cycle = finish_graph (add 2 1 DEP P2P PostingOrder Medium None 0
     (add 1 2 DEP Arrival CallOrder High None 0
     (add 2 3 BUSY Thread ThreadTimeline Certain (Some 1) 0
     (add 0 1 BUSY Thread ThreadTimeline Certain (Some 0) 0
     ((new_graph 2)\<lparr>g_t := [0, 10, 10, 30]\<rparr>)))))"

lemma demo_cycle_finished: "finished demo_cycle"
  unfolding demo_cycle_def
  by (intro finish_finished add_edge_ok) (simp_all add: new_graph_def CLOCK_TOLERANCE_NS_def graph_ok_def)

lemma break_cycles_topological_witness:
  "set (g_order (break_cycles demo_cycle)) = {v. v < 4 \<and> g_active demo_cycle ! v} \<and>
   g_order (break_cycles demo_cycle) = [0, 2, 1, 3] \<and> g_enabled (break_cycles demo_cycle) = [True, True, False, False]"
proof -
  have "g_order (break_cycles demo_cycle) = [0, 2, 1, 3]" "g_enabled (break_cycles demo_cycle) = [True, True, False, False]"
    by code_simp+
  moreover have "2 * g_n demo_cycle = 4" by code_simp
  ultimately show ?thesis using break_cycles_topological [OF demo_cycle_finished] by simp
qed

text \<open>
  Property. A graph whose enabled edges have no cycle (some numbering of the nodes grows along each)
  loses none: \<open>_break_cycles\<close> changes no edge and counts no drop.
\<close>

theorem break_cycles_acyclic:
  assumes "finished g"
    and "\<And>e. e < length (g_edges g) \<Longrightarrow> g_enabled g ! e \<Longrightarrow> r (e_src (edge_of g e)) < (r (e_dst (edge_of g e)) :: nat)"
  shows "g_enabled (break_cycles g) = g_enabled g \<and> g_cycle_edges_dropped (break_cycles g) = g_cycle_edges_dropped g"
  using break_acyclic [OF assms] by simp

lemma break_cycles_acyclic_witness:
  "g_cycle_edges_dropped (break_cycles (finish_graph demo_graph)) = 0"
proof -
  have "e_src (edge_of demo_graph e) < e_dst (edge_of demo_graph e)" if "e < length (g_edges demo_graph)" for e
  proof -
    have "\<forall>x\<in>set (g_edges demo_graph). e_src x < e_dst x" by code_simp
    then show ?thesis using that by simp
  qed
  then have r: "id (e_src (edge_of (finish_graph demo_graph) e)) < id (e_dst (edge_of (finish_graph demo_graph) e))"
    if "e < length (g_edges (finish_graph demo_graph))" for e using that by simp
  have "g_cycle_edges_dropped (finish_graph demo_graph) = 0" by code_simp
  with break_cycles_acyclic [OF finish_finished [OF demo_graph_ok], of id] r show ?thesis by simp
qed

end
