(* ===== verification/Span_Path_Facts.thy ===== *)
theory Span_Path_Facts
  imports Span_Path Topological_Order
begin

text \<open>
  Kahn's order exists exactly for graphs without cycles, the dynamic program finds a chain of the
  greatest account, both searches end, and the time attributed to a path is its extent.
\<close>

section \<open>Kahn's order\<close>

definition typed_edges :: "nat \<Rightarrow> sedge list \<Rightarrow> bool" where
  "typed_edges n edges \<longleftrightarrow> (\<forall>e\<in>set edges. s_src e < n \<and> s_dst e < n)"

text \<open>The edges into \<open>v\<close> from spans not yet placed.\<close>

definition pending_edges :: "sedge list \<Rightarrow> nat set \<Rightarrow> nat \<Rightarrow> nat" where
  "pending_edges edges placed v = length (filter (\<lambda>e. s_dst e = v \<and> s_src e \<notin> placed) edges)"

lemma pending_zero: "pending_edges edges placed v = 0 \<longleftrightarrow> (\<forall>e\<in>set edges. s_dst e = v \<longrightarrow> s_src e \<in> placed)"
  by (auto simp: pending_edges_def filter_empty_conv)

lemma in_degrees_spec:
  assumes "typed_edges n edges"
  shows "length (in_degrees n edges) = n \<and> (\<forall>v<n. in_degrees n edges ! v = int (pending_edges edges {} v))"
proof -
  have "length (fold (\<lambda>e d. d[s_dst e := d ! s_dst e + 1]) es d) = length d \<and>
      (\<forall>v<length d. fold (\<lambda>e d. d[s_dst e := d ! s_dst e + 1]) es d ! v = d ! v + int (length (filter (\<lambda>e. s_dst e = v) es)))"
    if "\<forall>e\<in>set es. s_dst e < length d" for es and d :: "int list"
    using that by (induction es arbitrary: d) (auto simp: nth_list_update)
  from this [of edges "replicate n 0"] show ?thesis
    using assms by (simp add: in_degrees_def pending_edges_def typed_edges_def)
qed

lemma release_spec:
  assumes "set vs \<subseteq> {..<length indeg}" "\<forall>v<length indeg. int (count_list vs v) \<le> indeg ! v"
  shows "\<exists>new. snd (release vs indeg dq) = dq @ new \<and> length (fst (release vs indeg dq)) = length indeg
    \<and> (\<forall>v<length indeg. fst (release vs indeg dq) ! v = indeg ! v - int (count_list vs v))
    \<and> distinct new \<and> set new = {v \<in> set vs. indeg ! v = int (count_list vs v)}"
  using assms
proof (induction vs arbitrary: indeg dq)
  case (Cons v vs)
  define indeg' where "indeg' = indeg[v := indeg ! v - 1]"
  define dq' where "dq' = (if indeg' ! v = 0 then dq @ [v] else dq)"
  have v: "v < length indeg" and sub: "set vs \<subseteq> {..<length indeg'}" using Cons.prems(1) by (auto simp: indeg'_def)
  have at: "indeg' ! x = (if x = v then indeg ! v - 1 else indeg ! x)" for x
    using v by (simp add: indeg'_def)
  have cnt: "int (count_list (v # vs) x) \<le> indeg ! x" if "x < length indeg" for x using Cons.prems(2) that by blast
  have "\<forall>x<length indeg'. int (count_list vs x) \<le> indeg' ! x"
    using cnt v by (fastforce simp: at indeg'_def split: if_splits)
  from Cons.IH [OF sub this, of dq'] obtain new where new: "snd (release vs indeg' dq') = dq' @ new"
    "length (fst (release vs indeg' dq')) = length indeg'"
    "\<forall>x<length indeg'. fst (release vs indeg' dq') ! x = indeg' ! x - int (count_list vs x)"
    "distinct new" "set new = {x \<in> set vs. indeg' ! x = int (count_list vs x)}" by blast
  have r: "release (v # vs) indeg dq = release vs indeg' dq'" by (simp add: indeg'_def dq'_def Let_def)
  have len: "length indeg' = length indeg" by (simp add: indeg'_def)
  define all where "all = (if indeg' ! v = 0 then v # new else new)"
  have snd: "snd (release (v # vs) indeg dq) = dq @ all" unfolding r new(1) by (simp add: dq'_def all_def)
  have vals: "\<forall>x<length indeg. fst (release (v # vs) indeg dq) ! x = indeg ! x - int (count_list (v # vs) x)"
    unfolding r using new(3) by (simp add: len at)
  have zero: "v \<notin> set vs" if "indeg' ! v = 0"
  proof -
    have "int (count_list vs v) \<le> 0" using cnt [OF v] that by (simp add: at)
    then show ?thesis by (simp add: count_list_0_iff)
  qed
  have set: "set all = {x \<in> set (v # vs). indeg ! x = int (count_list (v # vs) x)}"
  proof (cases "indeg' ! v = 0")
    case True
    then have one: "indeg ! v = 1 + int (count_list vs v)" "v \<notin> set vs" using zero [OF True] by (simp_all add: at count_list_0_iff)
    have "x \<in> set (v # new) \<longleftrightarrow> x \<in> set (v # vs) \<and> indeg ! x = int (count_list (v # vs) x)" for x
    proof (cases "x = v")
      case t: True
      show ?thesis unfolding t using one(1) by simp
    next
      case False
      then show ?thesis by (simp add: new(5) at)
    qed
    then have "set (v # new) = {x \<in> set (v # vs). indeg ! x = int (count_list (v # vs) x)}" by blast
    then show ?thesis unfolding all_def if_P [OF True] .
  next
    case False
    have n: "v \<notin> set vs \<Longrightarrow> indeg ! v \<noteq> 1 + int (count_list vs v)" using False by (simp add: at count_list_0_iff)
    have "x \<in> set new \<longleftrightarrow> x \<in> set (v # vs) \<and> indeg ! x = int (count_list (v # vs) x)" for x
    proof (cases "x = v")
      case t: True
      show ?thesis unfolding t using n by (cases "v \<in> set vs") (simp_all add: new(5) at, linarith?)
    next
      case False
      then show ?thesis by (simp add: new(5) at)
    qed
    then have "set new = {x \<in> set (v # vs). indeg ! x = int (count_list (v # vs) x)}" by blast
    then show ?thesis unfolding all_def if_not_P [OF False] .
  qed
  have "distinct all" using new(4,5) zero by (auto simp: all_def)
  then show ?case using snd vals set new(2) unfolding r by (intro exI [of _ all]) (simp add: len)
qed simp

definition span_inv :: "nat \<Rightarrow> sedge list \<Rightarrow> int list \<Rightarrow> nat list \<Rightarrow> nat list \<Rightarrow> bool" where
  "span_inv n edges indeg order dq \<longleftrightarrow> length indeg = n \<and> distinct (order @ dq) \<and> set (order @ dq) \<subseteq> {..<n}
    \<and> (\<forall>v\<in>set (order @ dq). pending_edges edges (set order) v = 0)
    \<and> (\<forall>v<n. indeg ! v = int (pending_edges edges (set order) v))
    \<and> (\<forall>v<n. pending_edges edges (set order) v = 0 \<longrightarrow> v \<in> set (order @ dq))
    \<and> (\<forall>xs v ys. order = xs @ v # ys \<longrightarrow> pending_edges edges (set xs) v = 0)"

lemma pending_mono: "A \<subseteq> B \<Longrightarrow> pending_edges edges A v = 0 \<Longrightarrow> pending_edges edges B v = 0"
  by (auto simp: pending_zero)

text \<open>
  The two pipelines list the successors of a span in different orders. Kahn's algorithm only needs
  that each edge is listed once.
\<close>

locale span_successors =
  fixes succs :: "sedge list \<Rightarrow> nat \<Rightarrow> nat list"
  assumes count_succs: "count_list (succs edges u) v = length (filter (\<lambda>e. s_src e = u \<and> s_dst e = v) edges)"
begin

lemma succs_dst: "v \<in> set (succs edges u) \<Longrightarrow> \<exists>e\<in>set edges. s_src e = u \<and> s_dst e = v"
proof -
  assume "v \<in> set (succs edges u)"
  then have "count_list (succs edges u) v \<noteq> 0" by (simp add: count_list_0_iff)
  then have "filter (\<lambda>e. s_src e = u \<and> s_dst e = v) edges \<noteq> []" by (simp add: count_succs)
  then show ?thesis by (auto simp: filter_empty_conv)
qed

lemma pending_insert:
  assumes "u \<notin> placed"
  shows "pending_edges edges placed v = pending_edges edges (insert u placed) v + count_list (succs edges u) v"
  unfolding count_succs pending_edges_def using assms by (induction edges) auto

lemma span_inv_step:
  assumes typed: "typed_edges n edges" and inv: "span_inv n edges indeg order (u # dq)"
  shows "span_inv n edges (fst (release (succs edges u) indeg dq)) (order @ [u]) (snd (release (succs edges u) indeg dq))"
proof -
  let ?w = "pending_edges edges" and ?vs = "succs edges u"
  have len: "length indeg = n" and dist: "distinct (order @ u # dq)" and sub: "set (order @ u # dq) \<subseteq> {..<n}"
    and zero: "\<And>v. v \<in> set (order @ u # dq) \<Longrightarrow> ?w (set order) v = 0"
    and counts: "\<And>v. v < n \<Longrightarrow> indeg ! v = int (?w (set order) v)"
    and found: "\<And>v. v < n \<Longrightarrow> ?w (set order) v = 0 \<Longrightarrow> v \<in> set (order @ u # dq)"
    and topo: "\<And>xs v ys. order = xs @ v # ys \<Longrightarrow> ?w (set xs) v = 0"
    using inv unfolding span_inv_def by blast+
  have u: "u \<notin> set order" using dist by simp
  note ins = pending_insert [OF u, of edges]
  have set_succ: "set ?vs \<subseteq> {..<length indeg}"
    using succs_dst typed by (force simp: typed_edges_def len)
  have "\<forall>v<length indeg. int (count_list ?vs v) \<le> indeg ! v" using counts ins by (auto simp: len)
  from release_spec [OF set_succ this, of dq] obtain new where new:
    "snd (release ?vs indeg dq) = dq @ new" "length (fst (release ?vs indeg dq)) = n"
    "\<forall>v<n. fst (release ?vs indeg dq) ! v = indeg ! v - int (count_list ?vs v)"
    "distinct new" "set new = {v \<in> set ?vs. indeg ! v = int (count_list ?vs v)}" unfolding len by blast
  have new_set: "v \<in> set new \<longleftrightarrow> v < n \<and> ?w (set order) v \<noteq> 0 \<and> ?w (insert u (set order)) v = 0" for v
  proof (cases "v < n")
    case True
    then show ?thesis using new(5) counts [OF True] ins [of v] by (auto simp: count_list_0_iff)
  next
    case False
    then show ?thesis using new(5) set_succ len by auto
  qed
  have fresh: "v \<notin> set (order @ u # dq)" if "v \<in> set new" for v using that new_set zero by blast
  have dist': "distinct ((order @ [u]) @ dq @ new)" using dist new(4) fresh by auto
  have sub': "set ((order @ [u]) @ dq @ new) \<subseteq> {..<n}" using sub new_set by auto
  have zero': "?w (set (order @ [u])) v = 0" if "v \<in> set ((order @ [u]) @ dq @ new)" for v
  proof (cases "v \<in> set new")
    case True
    then show ?thesis using new_set by simp
  next
    case False
    then have "?w (set order) v = 0" using zero that by auto
    then show ?thesis by (rule pending_mono [rotated]) auto
  qed
  have counts': "fst (release ?vs indeg dq) ! v = int (?w (set (order @ [u])) v)" if "v < n" for v
    using new(3) counts [OF that] ins [of v] that by simp
  have found': "v \<in> set ((order @ [u]) @ dq @ new)" if "v < n" "?w (set (order @ [u])) v = 0" for v
    using found [OF that(1)] that new_set by fastforce
  have topo': "?w (set xs) v = 0" if "order @ [u] = xs @ v # ys" for xs v ys
  proof (cases ys rule: rev_cases)
    case Nil
    then show ?thesis using that zero by simp
  next
    case (snoc zs z)
    then show ?thesis using that topo by simp
  qed
  show ?thesis unfolding span_inv_def new(1)
    using new(2) dist' sub' zero' counts' found' topo' by blast
qed

lemma span_kahn_spec:
  assumes "typed_edges n edges" "span_inv n edges indeg order dq" "n \<le> fuel + length order"
  shows "\<exists>order' indeg'. span_kahn fuel (succs edges) indeg order dq = Some order' \<and> span_inv n edges indeg' order' []"
  using assms(2,3)
proof (induction fuel "succs edges" indeg order dq rule: span_kahn.induct)
  case (1 fuel indeg order)
  then show ?case by auto
next
  case (2 indeg order u dq)
  have "distinct (order @ u # dq)" "set (order @ u # dq) \<subseteq> {..<n}" using 2(1) by (auto simp: span_inv_def)
  then have "length (order @ u # dq) \<le> n" by (metis card_lessThan card_mono distinct_card finite_lessThan)
  then show ?case using 2(2) by simp
next
  case (3 fuel indeg order u dq)
  obtain indeg' dq' where r: "release (succs edges u) indeg dq = (indeg', dq')" by force
  have "span_inv n edges indeg' (order @ [u]) dq'" using span_inv_step [OF assms(1) 3(2)] r by simp
  from 3(1) [OF r [symmetric] refl this] 3(3) show ?case using r by simp
qed

end

lemma count_map_filter: "count_list (map f (filter P xs)) v = length (filter (\<lambda>x. P x \<and> f x = v) xs)"
  by (induction xs) auto

interpretation dict: span_successors succs_of
proof
  fix edges :: "sedge list" and u v :: nat
  let ?flat = "concat (map snd (group_by s_dst edges))"
  have "length (filter P ?flat) = length (filter P edges)" for P
    using mset_group_by [of s_dst edges] by (metis mset_filter size_mset)
  then show "count_list (succs_of edges u) v = length (filter (\<lambda>e. s_src e = u \<and> s_dst e = v) edges)"
    by (simp add: succs_of_def count_map_filter)
qed

lemma span_start:
  assumes "typed_edges n edges"
  shows "span_inv n edges (in_degrees n edges) [] (filter (\<lambda>i. in_degrees n edges ! i = 0) [0..<n])"
  using in_degrees_spec [OF assms] by (auto simp: span_inv_def)

lemma run_kahn_spec:
  assumes "typed_edges n edges" "n \<le> fuel"
  shows "\<exists>order indeg. run_kahn fuel n edges = Some order \<and> span_inv n edges indeg order []"
  using dict.span_kahn_spec [OF assms(1) span_start [OF assms(1)], of fuel] assms(2) by (simp add: run_kahn_def Let_def)

text \<open>An order of all spans in which each comes after the sources of its edges.\<close>

definition topo_order :: "nat \<Rightarrow> sedge list \<Rightarrow> nat list \<Rightarrow> bool" where
  "topo_order n edges order \<longleftrightarrow> distinct order \<and> set order = {..<n}
     \<and> (\<forall>xs v ys. order = xs @ v # ys \<longrightarrow> (\<forall>e\<in>set edges. s_dst e = v \<longrightarrow> s_src e \<in> set xs))"

lemma span_inv_topo:
  assumes "span_inv n edges indeg order []" "length order = n"
  shows "topo_order n edges order"
proof -
  have "set order = {..<n}"
    using assms by (intro card_subset_eq) (simp_all add: span_inv_def distinct_card)
  then show ?thesis using assms(1) by (auto simp: topo_order_def span_inv_def pending_zero)
qed

definition edge_pairs :: "sedge list \<Rightarrow> (nat \<times> nat) set" where
  "edge_pairs edges = (\<lambda>e. (s_src e, s_dst e)) ` set edges"

lemma topo_position:
  assumes "typed_edges n edges" "topo_order n edges order" "e \<in> set edges"
  shows "position order (s_src e) < position order (s_dst e)"
proof -
  have "s_dst e \<in> set order" using assms by (auto simp: typed_edges_def topo_order_def)
  then obtain xs ys where split: "order = xs @ s_dst e # ys" "s_dst e \<notin> set xs" using split_list_first by metis
  then have "s_src e \<in> set xs" using assms(2,3) unfolding topo_order_def by blast
  then show ?thesis unfolding split(1) using split(2) position_append position_less by fastforce
qed

lemma topo_acyclic:
  assumes "typed_edges n edges" "topo_order n edges order"
  shows "acyclic (edge_pairs edges)"
proof -
  have "acyclic ((edge_pairs edges)\<inverse>)"
    by (rule acyclicI_order [where f = "position order"]) (use topo_position [OF assms] in \<open>auto simp: edge_pairs_def\<close>)
  then show ?thesis by simp
qed

lemma acyclic_wf_pairs: "acyclic (edge_pairs edges) \<Longrightarrow> wf (edge_pairs edges)"
  by (rule finite_acyclic_wf) (simp_all add: edge_pairs_def)

lemma acyclic_places_all:
  assumes "typed_edges n edges" "acyclic (edge_pairs edges)" "span_inv n edges indeg order []"
  shows "length order = n"
proof -
  have all: "v \<in> set order" if "v < n" for v
    using acyclic_wf_pairs [OF assms(2)] that
  proof (induction v rule: wf_induct_rule)
    case (less v)
    have "s_src e \<in> set order" if e: "e \<in> set edges" "s_dst e = v" for e
      using less.IH [of "s_src e"] e assms(1) by (force simp: edge_pairs_def typed_edges_def)
    then have "pending_edges edges (set order) v = 0" by (simp add: pending_zero)
    then show ?case using assms(3) less.prems by (simp add: span_inv_def)
  qed
  have "set order = {..<n}" using all assms(3) by (auto simp: span_inv_def)
  then show ?thesis using assms(3) by (metis append_Nil2 card_lessThan distinct_card span_inv_def)
qed

lemma kahn_order_topo:
  assumes "typed_edges n edges" "kahn_order n edges = Some order"
  shows "topo_order n edges order"
proof -
  obtain order' indeg where o: "run_kahn n n edges = Some order'" "span_inv n edges indeg order' []"
    using run_kahn_spec [OF assms(1) order_refl] by blast
  then have "order' = order" "length order = n" using assms(2) by (auto simp: kahn_order_def split: if_splits)
  then show ?thesis using span_inv_topo [OF o(2)] by simp
qed

lemma span_order_some:
  assumes "typed_edges n edges" "kahn_order n edges = Some order"
  shows "distinct order" "set order = {..<n}" "order = xs @ v # ys \<Longrightarrow> e \<in> set edges \<Longrightarrow> s_dst e = v \<Longrightarrow> s_src e \<in> set xs"
  using kahn_order_topo [OF assms] unfolding topo_order_def by blast+

lemma span_order_position:
  assumes "typed_edges n edges" "kahn_order n edges = Some order" "e \<in> set edges"
  shows "position order (s_src e) < position order (s_dst e)"
  by (rule topo_position [OF assms(1) kahn_order_topo [OF assms(1,2)] assms(3)])

lemma kahn_order_exists:
  assumes "typed_edges n edges"
  shows "kahn_order n edges \<noteq> None \<longleftrightarrow> acyclic (edge_pairs edges)"
proof
  assume "kahn_order n edges \<noteq> None"
  then show "acyclic (edge_pairs edges)" using topo_acyclic [OF assms kahn_order_topo [OF assms]] by blast
next
  assume ac: "acyclic (edge_pairs edges)"
  obtain order indeg where o: "run_kahn n n edges = Some order" "span_inv n edges indeg order []"
    using run_kahn_spec [OF assms order_refl] by blast
  then show "kahn_order n edges \<noteq> None" using acyclic_places_all [OF assms ac] by (simp add: kahn_order_def)
qed

text \<open>
  C32. The span-level search takes the dynamic program exactly when it can: Kahn's algorithm orders
  all spans if and only if the dependency graph has no cycle, and the order it gives lists every span
  once, each after the sources of its edges.
\<close>

theorem span_order_acyclic:
  assumes "typed_edges n edges"
  shows "case kahn_order n edges of
      None \<Rightarrow> \<not> acyclic (edge_pairs edges)
    | Some order \<Rightarrow> acyclic (edge_pairs edges) \<and> distinct order \<and> set order = {..<n} \<and>
        (\<forall>e\<in>set edges. position order (s_src e) < position order (s_dst e))"
  using kahn_order_exists [OF assms] span_order_some [OF assms] span_order_position [OF assms]
  by (auto split: option.split)

lemma span_order_acyclic_witness:
  "typed_edges 3 [gated_by 1 0 S_p2p Medium, gated_by 2 1 S_p2p Medium] \<and>
   acyclic (edge_pairs [gated_by 1 0 S_p2p Medium, gated_by 2 1 S_p2p Medium])"
proof -
  have t: "typed_edges 3 [gated_by 1 0 S_p2p Medium, gated_by 2 1 S_p2p Medium]" by (simp add: typed_edges_def gated_by_def)
  have "kahn_order 3 [gated_by 1 0 S_p2p Medium, gated_by 2 1 S_p2p Medium] = Some [0, 1, 2]" by code_simp
  then show ?thesis using span_order_acyclic [OF t] t by simp
qed

section \<open>The dynamic program\<close>

definition admissible :: "spans \<Rightarrow> sedge \<Rightarrow> bool" where
  "admissible sp e \<longleftrightarrow> \<not> is_annotation (span_at sp (s_src e)) \<and> \<not> is_annotation (span_at sp (s_dst e))
     \<and> h_gate (hop_of sp e) \<le> h_limit (hop_of sp e)"

text \<open>A chain of admissible edges that ends at \<open>v\<close>, the last edge first, and the time it accounts for.\<close>

fun chain_to :: "spans \<Rightarrow> sedge list \<Rightarrow> nat \<Rightarrow> sedge list \<Rightarrow> bool" where
  "chain_to sp edges v [] \<longleftrightarrow> True"
| "chain_to sp edges v (e # es) \<longleftrightarrow> e \<in> set edges \<and> admissible sp e \<and> s_dst e = v \<and> chain_to sp edges (s_src e) es"

fun account :: "spans \<Rightarrow> nat \<Rightarrow> sedge list \<Rightarrow> int" where
  "account sp v [] = duration_ns (span_at sp v)"
| "account sp v (e # es) = account sp (s_src e) es + h_gap (hop_of sp e) + duration_ns (span_at sp v)"

definition candidate :: "spans \<Rightarrow> int list \<Rightarrow> sedge \<Rightarrow> int" where
  "candidate sp acc e = acc ! s_src e + h_gap (hop_of sp e) + duration_ns (span_at sp (s_dst e))"

definition usable :: "spans \<Rightarrow> sedge \<Rightarrow> bool" where
  "usable sp e \<longleftrightarrow> \<not> is_annotation (span_at sp (s_src e)) \<and> h_gate (hop_of sp e) \<le> h_limit (hop_of sp e)"

lemma consider_fold:
  assumes "\<forall>e\<in>set xs. s_dst e = v"
  shows "\<exists>best chosen. fold (consider_edge sp acc v) xs (b, c) = (best, chosen) \<and> b \<le> best
    \<and> (\<forall>e\<in>set xs. usable sp e \<longrightarrow> candidate sp acc e \<le> best)
    \<and> (best = b \<and> chosen = c \<or> (\<exists>e\<in>set xs. chosen = Some e \<and> usable sp e \<and> best = candidate sp acc e))"
  using assms
proof (induction xs arbitrary: b c)
  case (Cons e xs)
  obtain b' c' where step: "consider_edge sp acc v e (b, c) = (b', c')" by force
  have e: "s_dst e = v" using Cons.prems by simp
  have one: "b \<le> b' \<and> (usable sp e \<longrightarrow> candidate sp acc e \<le> b')
      \<and> (b' = b \<and> c' = c \<or> c' = Some e \<and> usable sp e \<and> b' = candidate sp acc e)"
    using step e by (auto simp: consider_edge_def usable_def candidate_def Let_def split: if_splits)
  obtain best chosen where r: "fold (consider_edge sp acc v) xs (b', c') = (best, chosen)" "b' \<le> best"
    "\<forall>e\<in>set xs. usable sp e \<longrightarrow> candidate sp acc e \<le> best"
    "best = b' \<and> chosen = c' \<or> (\<exists>e\<in>set xs. chosen = Some e \<and> usable sp e \<and> best = candidate sp acc e)"
    using Cons.IH [of b' c'] Cons.prems by auto
  have "fold (consider_edge sp acc v) (e # xs) (b, c) = (best, chosen)" using step r(1) by simp
  moreover have "b \<le> best" using one r(2) by simp
  moreover have "\<forall>x\<in>set (e # xs). usable sp x \<longrightarrow> candidate sp acc x \<le> best" using one r(2,3) by auto
  moreover have "best = b \<and> chosen = c \<or> (\<exists>x\<in>set (e # xs). chosen = Some x \<and> usable sp x \<and> best = candidate sp acc x)"
    using one r(4) by auto
  ultimately show ?case by blast
qed auto

text \<open>What the program leaves at a span.\<close>

definition settled_at :: "spans \<Rightarrow> sedge list \<Rightarrow> dp_state \<Rightarrow> nat \<Rightarrow> bool" where
  "settled_at sp edges st v \<longleftrightarrow>
     duration_ns (span_at sp v) \<le> fst st ! v
     \<and> (\<forall>e\<in>set edges. s_dst e = v \<and> admissible sp e \<longrightarrow> candidate sp (fst st) e \<le> fst st ! v)
     \<and> (case snd st ! v of
          None \<Rightarrow> fst st ! v = duration_ns (span_at sp v)
        | Some e \<Rightarrow> e \<in> set edges \<and> s_dst e = v \<and> admissible sp e \<and> fst st ! v = candidate sp (fst st) e)"

definition dp_inv :: "spans \<Rightarrow> sedge list \<Rightarrow> nat list \<Rightarrow> dp_state \<Rightarrow> bool" where
  "dp_inv sp edges xs st \<longleftrightarrow> length (fst st) = length sp \<and> length (snd st) = length sp
     \<and> (\<forall>v\<in>set xs. \<not> is_annotation (span_at sp v) \<longrightarrow> settled_at sp edges st v)"

lemma dp_inv_step:
  assumes inv: "dp_inv sp edges xs st" and v: "v < length sp" "v \<notin> set xs"
    and closed: "\<And>x e. x \<in> set xs \<Longrightarrow> e \<in> set edges \<Longrightarrow> s_dst e = x \<Longrightarrow> s_src e \<in> set xs"
    and here: "\<And>e. e \<in> set edges \<Longrightarrow> s_dst e = v \<Longrightarrow> s_src e \<in> set xs"
  shows "dp_inv sp edges (xs @ [v]) (dp_step sp edges v st)"
proof (cases "is_annotation (span_at sp v)")
  case True
  then show ?thesis using inv by (cases st) (simp add: dp_inv_def dp_step_def)
next
  case False
  obtain acc ch where st: "st = (acc, ch)" by (cases st)
  have len: "length acc = length sp" "length ch = length sp" using inv by (simp_all add: dp_inv_def st)
  have "\<forall>e\<in>set (preds_of edges v). s_dst e = v" by (simp add: preds_of_def)
  from consider_fold [OF this, of sp acc "duration_ns (span_at sp v)" None] obtain best c where
    f: "fold (consider_edge sp acc v) (preds_of edges v) (duration_ns (span_at sp v), None) = (best, c)"
      "duration_ns (span_at sp v) \<le> best" "\<forall>e\<in>set (preds_of edges v). usable sp e \<longrightarrow> candidate sp acc e \<le> best"
      "best = duration_ns (span_at sp v) \<and> c = None \<or>
        (\<exists>e\<in>set (preds_of edges v). c = Some e \<and> usable sp e \<and> best = candidate sp acc e)" by blast
  let ?st = "(acc[v := best], ch[v := c])"
  have step: "dp_step sp edges v st = ?st" using False f(1) by (simp add: dp_step_def st)
  have keep: "candidate sp (acc[v := best]) e = candidate sp acc e" if "s_src e \<in> set xs" for e
    using that v(2) by (cases "s_src e = v") (auto simp: candidate_def)
  have old: "settled_at sp edges ?st x" if x: "x \<in> set xs" "\<not> is_annotation (span_at sp x)" for x
  proof -
    have "settled_at sp edges (acc, ch) x" using inv x by (simp add: dp_inv_def st)
    moreover have "x \<noteq> v" using x v by auto
    ultimately show ?thesis using keep closed [OF x(1)] by (auto simp: settled_at_def split: option.splits)
  qed
  have "settled_at sp edges ?st v"
    using f(2-4) False keep here v(1) len
    by (auto simp: settled_at_def preds_of_def usable_def admissible_def split: option.splits)
  then show ?thesis using old len by (auto simp: dp_inv_def step)
qed

lemma dp_run_inv:
  assumes "typed_edges (length sp) edges" "kahn_order (length sp) edges = Some order"
  shows "dp_inv sp edges order (dp_run sp edges order)"
proof -
  note o = span_order_some [OF assms]
  have "dp_inv sp edges xs (dp_run sp edges xs)" if "order = xs @ ys" for xs ys
    using that
  proof (induction xs arbitrary: ys rule: rev_induct)
    case Nil
    then show ?case by (simp add: dp_inv_def dp_run_def)
  next
    case (snoc v xs)
    have ord: "order = xs @ v # ys" using snoc.prems by simp
    have "dp_inv sp edges (xs @ [v]) (dp_step sp edges v (dp_run sp edges xs))"
    proof (rule dp_inv_step)
      show "dp_inv sp edges xs (dp_run sp edges xs)" using snoc.IH ord by simp
      have "v \<in> set order" "distinct order" using ord o(1) by simp_all
      then show "v < length sp" "v \<notin> set xs" using o(2) ord by auto
      show "s_src e \<in> set xs" if "e \<in> set edges" "s_dst e = v" for e using o(3) [OF ord that] .
      show "s_src e \<in> set xs" if "x \<in> set xs" "e \<in> set edges" "s_dst e = x" for x e
      proof -
        obtain us ws where us: "xs = us @ x # ws" using \<open>x \<in> set xs\<close> by (meson split_list)
        then show ?thesis using o(3) [of us x "ws @ v # ys" e] ord \<open>e \<in> set edges\<close> \<open>s_dst e = x\<close> by simp
      qed
    qed
    then show ?case by (simp add: dp_run_def)
  qed
  then show ?thesis by simp
qed

lemma chain_bounded:
  assumes "\<And>v. v < length sp \<Longrightarrow> \<not> is_annotation (span_at sp v) \<Longrightarrow> settled_at sp edges st v" "typed_edges (length sp) edges"
    and "chain_to sp edges v es" "v < length sp" "\<not> is_annotation (span_at sp v)"
  shows "account sp v es \<le> fst st ! v"
  using assms(3-5)
proof (induction es arbitrary: v)
  case Nil
  then show ?case using assms(1) by (simp add: settled_at_def)
next
  case (Cons e es)
  have e: "e \<in> set edges" "admissible sp e" "s_dst e = v" "chain_to sp edges (s_src e) es" using Cons.prems(1) by simp_all
  have "s_src e < length sp" using assms(2) e(1) by (auto simp: typed_edges_def)
  then have "account sp (s_src e) es \<le> fst st ! s_src e" using Cons.IH e by (simp add: admissible_def)
  moreover have "candidate sp (fst st) e \<le> fst st ! v" using assms(1) Cons.prems e by (simp add: settled_at_def)
  ultimately show ?case using e(3) by (simp add: candidate_def)
qed

lemma follow_chain:
  assumes settled: "\<And>v. v < length sp \<Longrightarrow> \<not> is_annotation (span_at sp v) \<Longrightarrow> settled_at sp edges st v"
    and typed: "typed_edges (length sp) edges" and order: "kahn_order (length sp) edges = Some order"
    and v: "v < length sp" "\<not> is_annotation (span_at sp v)" "position order v \<le> fuel"
  shows "\<exists>fs. follow fuel (snd st) v es = Some (rev fs @ es) \<and> chain_to sp edges v fs \<and> account sp v fs = fst st ! v
     \<and> (\<forall>e\<in>set fs. position order (s_src e) < position order v) \<and> distinct (v # map s_src fs)"
  using v
proof (induction fuel arbitrary: v es)
  case 0
  show ?case
  proof (cases "snd st ! v")
    case None
    then show ?thesis using settled [OF 0(1,2)] by (intro exI [of _ "[]"]) (simp add: follow.simps settled_at_def)
  next
    case (Some e)
    then have "e \<in> set edges" "s_dst e = v" using settled [OF 0(1,2)] by (simp_all add: settled_at_def)
    then show ?thesis using span_order_position [OF typed order, of e] 0(3) by simp
  qed
next
  case (Suc fuel)
  show ?case
  proof (cases "snd st ! v")
    case None
    then show ?thesis using settled [OF Suc(2,3)] by (intro exI [of _ "[]"]) (simp add: follow.simps settled_at_def)
  next
    case (Some e)
    then have e: "e \<in> set edges" "s_dst e = v" "admissible sp e" "fst st ! v = candidate sp (fst st) e"
      using settled [OF Suc(2,3)] by (simp_all add: settled_at_def)
    have u: "s_src e < length sp" "\<not> is_annotation (span_at sp (s_src e))" using typed e by (auto simp: typed_edges_def admissible_def)
    have pos: "position order (s_src e) < position order v" using span_order_position [OF typed order e(1)] e(2) by simp
    then have "position order (s_src e) \<le> fuel" using Suc(4) by simp
    from Suc(1) [OF u this, of "e # es"] obtain fs where fs: "follow fuel (snd st) (s_src e) (e # es) = Some (rev fs @ e # es)"
      "chain_to sp edges (s_src e) fs" "account sp (s_src e) fs = fst st ! s_src e"
      "\<forall>x\<in>set fs. position order (s_src x) < position order (s_src e)" "distinct (s_src e # map s_src fs)" by blast
    have before: "\<forall>x\<in>set (e # fs). position order (s_src x) < position order v" using pos fs(4) by auto
    then have "distinct (v # map s_src (e # fs))" using fs(5) by auto
    moreover have "follow (Suc fuel) (snd st) v es = Some (rev (e # fs) @ es)" using Some fs(1) by (simp add: follow.simps)
    moreover have "account sp v (e # fs) = fst st ! v" using e(2,4) fs(3) by (simp add: candidate_def)
    ultimately show ?thesis using before fs(2) e by (intro exI [of _ "e # fs"]) simp
  qed
qed

lemma accounted_chain:
  assumes "chain_to sp edges v es"
  shows "dp_accounted_ns sp (sp_path (path_of v (rev es))) (sp_kinds (path_of v (rev es))) = account sp v es"
  using assms
proof (induction es arbitrary: v)
  case Nil
  then show ?case by (simp add: path_of_def dp_accounted_ns_def)
next
  case (Cons e es)
  let ?u = "s_src e" and ?k = "length es"
  define path kinds where "path = map s_src (rev es) @ [?u]" and "kinds = map s_kind (rev es)"
  let ?f = "\<lambda>path kinds i a. a + (h_gap (edge_gap_and_gate sp (path ! (i - 1)) (path ! i) (kinds ! (i - 1))) + duration_ns (span_at sp (path ! i)))"
  have len: "length path = Suc ?k" "length kinds = ?k" by (simp_all add: path_def kinds_def)
  have IH: "fold (?f path kinds) [1..<Suc ?k] (duration_ns (span_at sp (path ! 0))) = account sp ?u es"
    using Cons.IH [of ?u] Cons.prems len by (simp add: path_of_def dp_accounted_ns_def path_def kinds_def)
  have "fold (?f (path @ [v]) (kinds @ [s_kind e])) [1..<Suc ?k] a = fold (?f path kinds) [1..<Suc ?k] a" for a
    by (rule fold_cong) (auto simp: nth_append len)
  then have "fold (?f (path @ [v]) (kinds @ [s_kind e])) [1..<Suc (Suc ?k)] (duration_ns (span_at sp ((path @ [v]) ! 0))) =
      account sp ?u es + (h_gap (edge_gap_and_gate sp ?u v (s_kind e)) + duration_ns (span_at sp v))"
    using IH by (simp add: nth_append len) (simp add: path_def kinds_def nth_append)
  moreover have "s_dst e = v" using Cons.prems by simp
  ultimately show ?case by (simp add: path_of_def dp_accounted_ns_def path_def kinds_def hop_of_def)
qed

text \<open>
  C1. The dynamic program is exact: on a graph without cycles it returns a chain of admissible
  dependencies, and the time that chain accounts for is the greatest of any chain of admissible
  dependencies in the trace.
\<close>

theorem dp_longest_path:
  assumes "typed_edges (length sp) edges" "kahn_order (length sp) edges \<noteq> None" "nodes sp \<noteq> []"
  shows "\<exists>v fs. critical_path_dp sp edges = Some (path_of v (rev fs)) \<and> v \<in> set (nodes sp) \<and> chain_to sp edges v fs
    \<and> (\<forall>u es. u \<in> set (nodes sp) \<and> chain_to sp edges u es \<longrightarrow>
         account sp u es \<le> dp_accounted_ns sp (sp_path (path_of v (rev fs))) (sp_kinds (path_of v (rev fs))))"
proof -
  obtain order where order: "kahn_order (length sp) edges = Some order" using assms(2) by blast
  obtain acc ch where run: "dp_run sp edges order = (acc, ch)" by force
  have settled: "settled_at sp edges (acc, ch) v" if "v < length sp" "\<not> is_annotation (span_at sp v)" for v
    using dp_run_inv [OF assms(1) order] that span_order_some(2) [OF assms(1) order] by (simp add: dp_inv_def run)
  obtain v where v: "max_key (\<lambda>i. acc ! i) (nodes sp) = Some v" using assms(3) by (cases "nodes sp") simp_all
  note m = max_key_Some [OF v]
  have vn: "v < length sp" "\<not> is_annotation (span_at sp v)" using m by (auto simp: nodes_def)
  have "v \<in> set order" using vn(1) span_order_some(2) [OF assms(1) order] by simp
  then have "position order v < length order" using position_less [of v order "[]"] by simp
  moreover have "length order = length sp" using span_order_some(1,2) [OF assms(1) order] by (metis card_lessThan distinct_card)
  ultimately have "position order v \<le> length sp" by simp
  from follow_chain [OF settled assms(1) order vn this, of "[]"] obtain fs where fs: "follow (length sp) ch v [] = Some (rev fs)"
    "chain_to sp edges v fs" "account sp v fs = acc ! v" by auto
  have "critical_path_dp sp edges = Some (path_of v (rev fs))" by (simp add: critical_path_dp_def order run v fs(1))
  moreover have "account sp u es \<le> dp_accounted_ns sp (sp_path (path_of v (rev fs))) (sp_kinds (path_of v (rev fs)))"
    if u: "u \<in> set (nodes sp)" "chain_to sp edges u es" for u es
  proof -
    have un: "u < length sp" "\<not> is_annotation (span_at sp u)" using u(1) by (auto simp: nodes_def)
    have "account sp u es \<le> acc ! u" using chain_bounded [OF settled assms(1) u(2) un] by simp
    also have "\<dots> \<le> acc ! v" using m u(1) by blast
    finally show ?thesis unfolding accounted_chain [OF fs(2)] fs(3) .
  qed
  ultimately show ?thesis using m fs(2) by blast
qed

definition demo_dag :: spans where
  "demo_dag = List.enumerate 0
     [mk_span ''a'' CPU 0 10 1 7 [], mk_span ''b'' CPU 12 5 1 7 [], mk_span ''c'' CPU 0 4 1 8 [], mk_span ''d'' CPU 20 2 1 7 []]"

definition demo_dag_edges :: "sedge list" where
  "demo_dag_edges = [gated_by 1 0 S_sequential Certain, gated_by 3 2 S_sequential Certain, gated_by 3 1 S_p2p High]"

lemma dp_longest_path_witness:
  "critical_path_dp demo_dag demo_dag_edges = Some (path_of 3 [gated_by 3 2 S_sequential Certain]) \<and>
   (\<exists>v fs. critical_path_dp demo_dag demo_dag_edges = Some (path_of v (rev fs)) \<and> chain_to demo_dag demo_dag_edges v fs)"
proof -
  have t: "typed_edges (length demo_dag) demo_dag_edges" by code_simp
  have o: "kahn_order (length demo_dag) demo_dag_edges \<noteq> None" "nodes demo_dag \<noteq> []" by code_simp+
  have c: "critical_path_dp demo_dag demo_dag_edges = Some (path_of 3 [gated_by 3 2 S_sequential Certain])" by code_simp
  then show ?thesis using dp_longest_path [OF t o] by blast
qed

section \<open>The searches end\<close>

lemma greedy_best_fold:
  assumes "\<forall>e. c = Some e \<longrightarrow> P e"
    and "\<forall>e\<in>set xs. s_src e \<notin> set visited \<and> \<not> is_annotation (span_at sp (s_src e)) \<longrightarrow> P e"
  shows "\<forall>e. fst (fold (greedy_best sp visited) xs (c, g)) = Some e \<longrightarrow> P e"
  using assms
proof (induction xs arbitrary: c g)
  case (Cons x xs)
  obtain c' g' where s: "greedy_best sp visited x (c, g) = (c', g')" by force
  have "\<forall>e. c' = Some e \<longrightarrow> P e" using s Cons.prems by (auto simp: greedy_best_def Let_def split: if_splits)
  from Cons.IH [OF this, of g'] show ?case using Cons.prems(2) s by simp
qed simp

lemma greedy_returns:
  assumes "typed_edges n edges" "distinct visited" "set visited \<subseteq> {..<n}" "n \<le> fuel + length visited"
    "visited = map s_src es @ [last_span]" "cur = hd visited"
  shows "\<exists>fs. greedy fuel sp edges visited cur es = Some fs \<and> distinct (map s_src fs @ [last_span])
    \<and> set (map s_src fs @ [last_span]) \<subseteq> {..<n}"
  using assms(2-6)
proof (induction fuel arbitrary: visited cur es)
  case 0
  have "\<nexists>e. fst (fold (greedy_best sp visited) (preds_of edges cur) (None, -1)) = Some e"
  proof -
    have "card (set visited) = n" using 0(1-3) by (metis add_0 card_lessThan card_mono distinct_card finite_lessThan le_antisym)
    then have "set visited = {..<n}" using 0(2) by (simp add: card_subset_eq)
    then have "\<forall>e\<in>set (preds_of edges cur). s_src e \<in> set visited" using assms(1) by (auto simp: typed_edges_def preds_of_def)
    then show ?thesis using greedy_best_fold [of None "\<lambda>e. False" "preds_of edges cur" visited sp "-1"] by blast
  qed
  then show ?case using 0 by (simp add: greedy.simps)
next
  case (Suc fuel)
  show ?case
  proof (cases "fst (fold (greedy_best sp visited) (preds_of edges cur) (None, -1))")
    case None
    then show ?thesis using Suc.prems by (simp add: greedy.simps)
  next
    case (Some e)
    have "\<forall>e. fst (fold (greedy_best sp visited) (preds_of edges cur) (None, -1)) = Some e \<longrightarrow> e \<in> set edges \<and> s_src e \<notin> set visited"
      by (rule greedy_best_fold) (simp_all add: preds_of_def)
    then have e: "e \<in> set edges \<and> s_src e \<notin> set visited" using Some by blast
    have "s_src e < n" using e assms(1) by (simp add: typed_edges_def)
    have "\<exists>fs. greedy fuel sp edges (s_src e # visited) (s_src e) (e # es) = Some fs \<and> distinct (map s_src fs @ [last_span])
        \<and> set (map s_src fs @ [last_span]) \<subseteq> {..<n}"
    proof (rule Suc.IH)
      show "distinct (s_src e # visited)" using Suc.prems(1) e by simp
      show "set (s_src e # visited) \<subseteq> {..<n}" using Suc.prems(2) \<open>s_src e < n\<close> by simp
      show "n \<le> fuel + length (s_src e # visited)" using Suc.prems(3) by simp
      show "s_src e # visited = map s_src (e # es) @ [last_span]" using Suc.prems(4) by simp
      show "s_src e = hd (s_src e # visited)" by simp
    qed
    then show ?thesis using Some by (simp add: greedy.simps)
  qed
qed

lemma nodes_max: "max_key f (nodes sp) = Some v \<Longrightarrow> v < length sp \<and> \<not> is_annotation (span_at sp v)"
  using max_key_Some [of f "nodes sp" v] by (auto simp: nodes_def)

lemma greedy_path_returns:
  assumes "typed_edges (length sp) edges"
  shows "\<exists>p. critical_path_greedy sp edges = Some p \<and> distinct (sp_path p) \<and> set (sp_path p) \<subseteq> {..<length sp}"
proof (cases "max_key (\<lambda>i. end_ns (span_at sp i)) (nodes sp)")
  case None
  then show ?thesis by (simp add: critical_path_greedy_def empty_path_def)
next
  case (Some v)
  have "\<exists>fs. greedy (length sp) sp edges [v] v [] = Some fs \<and> distinct (map s_src fs @ [v]) \<and> set (map s_src fs @ [v]) \<subseteq> {..<length sp}"
    by (rule greedy_returns [OF assms]) (use nodes_max [OF Some] in simp_all)
  then show ?thesis using Some by (auto simp: critical_path_greedy_def path_of_def)
qed

lemma chain_sources: "chain_to sp edges v fs \<Longrightarrow> typed_edges n edges \<Longrightarrow> s_src ` set fs \<subseteq> {..<n}"
  by (induction fs arbitrary: v) (auto simp: typed_edges_def)

lemma dp_path_returns:
  assumes "typed_edges (length sp) edges" "kahn_order (length sp) edges = Some order"
  shows "\<exists>p. critical_path_dp sp edges = Some p \<and> distinct (sp_path p) \<and> set (sp_path p) \<subseteq> {..<length sp}"
proof -
  obtain acc ch where run: "dp_run sp edges order = (acc, ch)" by force
  show ?thesis
  proof (cases "max_key (\<lambda>i. acc ! i) (nodes sp)")
    case None
    then show ?thesis by (simp add: critical_path_dp_def assms(2) run empty_path_def)
  next
    case (Some v)
    have settled: "settled_at sp edges (acc, ch) v" if "v < length sp" "\<not> is_annotation (span_at sp v)" for v
      using dp_run_inv [OF assms] that span_order_some(2) [OF assms] by (simp add: dp_inv_def run)
    note v = nodes_max [OF Some]
    have "v \<in> set order" using v span_order_some(2) [OF assms] by simp
    then have "position order v < length order" using position_less [of v order "[]"] by simp
    moreover have "length order = length sp" using span_order_some(1,2) [OF assms] by (metis card_lessThan distinct_card)
    ultimately have fuel: "position order v \<le> length sp" by simp
    obtain fs where fs: "follow (length sp) ch v [] = Some (rev fs)" "chain_to sp edges v fs" "distinct (v # map s_src fs)"
      using follow_chain [OF settled assms _ _ fuel, of "[]"] v by auto
    have "critical_path_dp sp edges = Some (path_of v (rev fs))" by (simp add: critical_path_dp_def assms(2) run Some fs(1))
    moreover have "distinct (map s_src (rev fs) @ [v])" using fs(3) by (simp flip: rev_map)
    moreover have "set (map s_src (rev fs) @ [v]) \<subseteq> {..<length sp}" using chain_sources [OF fs(2) assms(1)] v by auto
    ultimately show ?thesis by (simp add: path_of_def)
  qed
qed

text \<open>
  C12. The search for the critical path ends on every trace, cyclic graphs included: with as many
  steps as the trace has spans, Kahn's loop, the walk back along the chosen predecessors and the
  greedy walk all finish, and the path visits spans of the trace at most once each.
\<close>

theorem critical_path_returns:
  "\<exists>p. span_critical_path (items t) (dependency_edges t exact_p2p) = Some p \<and> distinct (sp_path p)
     \<and> set (sp_path p) \<subseteq> {..<length (tv_spans t)}"
proof -
  let ?sp = "items t" and ?es = "dependency_edges t exact_p2p"
  have len: "length ?sp = length (tv_spans t)" by (simp add: items_def)
  have typed: "typed_edges (length ?sp) ?es" using dependency_edges_valid by (auto simp: typed_edges_def len)
  show ?thesis
  proof (cases "?sp = []")
    case True
    then show ?thesis by (simp add: span_critical_path_def empty_path_def)
  next
    case False
    show ?thesis
    proof (cases "kahn_order (length ?sp) ?es")
      case None
      then have "critical_path_dp ?sp ?es = None" by (simp add: critical_path_dp_def)
      then show ?thesis using greedy_path_returns [OF typed] False by (simp add: span_critical_path_def len)
    next
      case (Some order)
      then show ?thesis using dp_path_returns [OF typed Some] False by (auto simp: span_critical_path_def len)
    qed
  qed
qed

section \<open>The path's time\<close>

definition blame_inv :: "spans \<Rightarrow> nat list \<Rightarrow> nat \<Rightarrow> blame_state \<Rightarrow> bool" where
  "blame_inv sp path n st \<longleftrightarrow>
     (if n = 0 then st = no_path_blame
      else bs_frontier st = Some (Max ((\<lambda>i. end_ns (span_at sp i)) ` set (take n path)))
        \<and> bs_total st = Max ((\<lambda>i. end_ns (span_at sp i)) ` set (take n path)) - start_ns (span_at sp (hd path)))
     \<and> sum_list (bs_credited st) + sum_list (bs_gaps st) = bs_total st
     \<and> dict_total (bs_on_path st) + dict_total (bs_caused st) = bs_total st"

lemma blame_step_inv:
  assumes "blame_inv sp path n st" "n < length path" "0 \<le> duration_ns (span_at sp (path ! n))"
  shows "blame_inv sp path (Suc n) (blame_step sp path n st)"
proof -
  let ?s = "span_at sp (path ! n)" and ?fin = "\<lambda>i. end_ns (span_at sp i)"
  have take: "take (Suc n) path = take n path @ [path ! n]" using assms(2) by (simp add: take_Suc_conv_app_nth)
  have e: "end_ns ?s = start_ns ?s + duration_ns ?s" by (simp add: end_ns_def)
  show ?thesis
  proof (cases n)
    case 0
    then have "hd path = path ! 0" using assms(2) by (simp add: hd_conv_nth)
    then show ?thesis using assms 0 e take by (auto simp: blame_inv_def blame_step_def no_path_blame_def Let_def)
  next
    case (Suc m)
    define f where "f = Max (?fin ` set (take n path))"
    have st: "bs_frontier st = Some f" "bs_total st = f - start_ns (span_at sp (hd path))"
      using assms(1) Suc by (simp_all add: blame_inv_def f_def)
    have ne: "?fin ` set (take n path) \<noteq> {}" using assms(2) Suc by auto
    have M: "Max (?fin ` set (take (Suc n) path)) = max f (end_ns ?s)"
      unfolding take f_def using ne by (simp add: max.commute)
    have sums: "sum_list (bs_credited st) + sum_list (bs_gaps st) = bs_total st"
      "dict_total (bs_on_path st) + dict_total (bs_caused st) = bs_total st" using assms(1) by (simp_all add: blame_inv_def)
    have step: "max 0 (start_ns ?s - f) + max 0 (end_ns ?s - max (start_ns ?s) f) = max f (end_ns ?s) - f"
      using assms(3) e by auto
    show ?thesis using st sums M step Suc by (auto simp: blame_inv_def blame_step_def Let_def)
  qed
qed

text \<open>
  C11. No instant of a path is counted twice or lost: the path's total time is the time from the
  start of its first span to the latest end of any, and its spans' own times and gaps, as well as
  its categories' work and the waits they caused, add up to it.
\<close>

theorem path_time_is_extent:
  assumes "path \<noteq> []" and "\<forall>i\<in>set path. 0 \<le> duration_ns (span_at sp i)"
  shows "bs_total (attribute_path sp path) = Max ((\<lambda>i. end_ns (span_at sp i)) ` set path) - start_ns (span_at sp (hd path))
    \<and> sum_list (bs_credited (attribute_path sp path)) + sum_list (bs_gaps (attribute_path sp path)) = bs_total (attribute_path sp path)
    \<and> dict_total (bs_on_path (attribute_path sp path)) + dict_total (bs_caused (attribute_path sp path)) = bs_total (attribute_path sp path)"
proof -
  have "blame_inv sp path n (fold (blame_step sp path) [0..<n] no_path_blame)" if "n \<le> length path" for n
    using that
  proof (induction n)
    case 0
    then show ?case by (simp add: blame_inv_def no_path_blame_def)
  next
    case (Suc n)
    then have "blame_inv sp path (Suc n) (blame_step sp path n (fold (blame_step sp path) [0..<n] no_path_blame))"
      using assms(2) by (intro blame_step_inv) simp_all
    then show ?case by simp
  qed
  from this [of "length path"] assms(1) show ?thesis by (simp add: blame_inv_def attribute_path_def)
qed

lemma path_time_is_extent_witness:
  "bs_total (attribute_path demo_dag [2, 0, 1]) = 17 \<and>
   sum_list (bs_credited (attribute_path demo_dag [2, 0, 1])) + sum_list (bs_gaps (attribute_path demo_dag [2, 0, 1])) = 17"
proof -
  have t: "bs_total (attribute_path demo_dag [2, 0, 1]) = 17" by code_simp
  have "\<forall>i\<in>set [2, 0, 1]. 0 \<le> duration_ns (span_at demo_dag i)" by code_simp
  then show ?thesis using path_time_is_extent [of "[2, 0, 1]" demo_dag] t by simp
qed

text \<open>
  The account of the dynamic program is no upper bound of a path's time: a message received long
  after its send contributes no gap to the account, but the idle time between the two is counted.
\<close>

lemma account_below_total:
  "\<exists>sp edges p. span_critical_path sp edges = Some p \<and>
     dp_accounted_ns sp (sp_path p) (sp_kinds p) < bs_total (attribute_path sp (sp_path p))"
proof -
  let ?sp = "List.enumerate 0 [mk_span ''MPI_Send'' MPI 0 10 1 7 [], mk_span ''MPI_Recv'' MPI 100 10 2 7 []]"
  let ?es = "[gated_by 1 0 S_p2p Medium]"
  let ?p = "\<lparr>sp_path = [0, 1], sp_conf = [Medium], sp_kinds = [S_p2p]\<rparr>"
  have "span_critical_path ?sp ?es = Some ?p \<and> dp_accounted_ns ?sp (sp_path ?p) (sp_kinds ?p) < bs_total (attribute_path ?sp (sp_path ?p))"
    by code_simp
  then show ?thesis by blast
qed

end
