(* ===== verification/Array_Path.thy ===== *)
theory Array_Path
  imports Span_Path_Facts Gpu_Assembly_Facts
begin

text \<open>
  \<^verbatim>\<open>src/src/analysis/criticalpath.py\<close>, the critical path over persisted edges: the coded edges of
  \<open>_EdgeSink\<close> and \<open>Graph.preds_dict\<close>, and \<open>_dp_arrays\<close>, the dynamic program over compact arrays with
  edges sorted by destination. It visits spans in another topological order than
  \<open>_compute_critical_path_dp_full\<close> and knows edges by their index; the theorem is that both return
  the same path.
\<close>

section \<open>Coded edges\<close>

definition EDGE_KINDS :: "skind list" where
  "EDGE_KINDS = [S_sequential, S_device_sync, S_explicit_span_id, S_p2p, S_arrival, S_launch, S_device_wait,
     S_task_join, S_task_dep, S_lock_order]"

definition EDGE_CONFS :: "conf list" where
  "EDGE_CONFS = [Certain, High, Medium, Low]"

definition code_of :: "'a list \<Rightarrow> 'a \<Rightarrow> nat" where
  "code_of xs x = length (takeWhile (\<lambda>y. y \<noteq> x) xs)"

record edge_row =
  row_dst :: nat
  row_src :: nat
  row_kind :: nat
  row_conf :: nat

definition edge_row_of :: "sedge \<Rightarrow> edge_row" where
  "edge_row_of e = \<lparr>row_dst = s_dst e, row_src = s_src e, row_kind = code_of EDGE_KINDS (s_kind e),
     row_conf = code_of EDGE_CONFS (s_conf e)\<rparr>"

definition edge_of_row :: "edge_row \<Rightarrow> sedge" where
  "edge_of_row r = gated_by (row_dst r) (row_src r) (EDGE_KINDS ! row_kind r) (EDGE_CONFS ! row_conf r)"

definition preds_dict :: "edge_row list \<Rightarrow> (nat, sedge list) dict" where
  "preds_dict rs = group_by s_dst (map edge_of_row rs)"

section \<open>The arrays\<close>

record path_arrays =
  pa_start :: "int list"
  pa_end :: "int list"
  pa_eff :: "int list"
  pa_gpu :: "bool list"
  pa_annot :: "bool list"
  pa_src :: "nat list"
  pa_kind :: "nat list"
  pa_conf :: "nat list"
  pa_indptr :: "nat list"

definition rows_by_dst :: "edge_row list \<Rightarrow> edge_row list" where
  "rows_by_dst rs = sort_key row_dst rs"

definition load_arrays :: "span_event list \<Rightarrow> edge_row list \<Rightarrow> path_arrays" where
  "load_arrays ss rs =
     (let sorted_rows = rows_by_dst rs; n = length ss in
      \<lparr>pa_start = map start_ns ss, pa_end = map end_ns ss, pa_eff = map effective_start_ns ss,
       pa_gpu = map is_new_format ss, pa_annot = map is_annotation ss,
       pa_src = map row_src sorted_rows, pa_kind = map row_kind sorted_rows, pa_conf = map row_conf sorted_rows,
       pa_indptr = map (bisect_left (map row_dst sorted_rows)) [0..<n + 1]\<rparr>)"

text \<open>The successors of a span: the edges sorted by source, in their order.\<close>

definition row_succs :: "edge_row list \<Rightarrow> nat \<Rightarrow> nat list" where
  "row_succs rs u =
     (let by_src = sort_key row_src rs; srcs = map row_src by_src in
      map (\<lambda>e. row_dst (by_src ! e)) [bisect_left srcs u..<bisect_left srcs (u + 1)])"

definition bincount :: "nat \<Rightarrow> nat list \<Rightarrow> int list" where
  "bincount n xs = map (\<lambda>v. int (count_list xs v)) [0..<n]"

definition array_order :: "nat \<Rightarrow> edge_row list \<Rightarrow> nat list option" where
  "array_order n rs =
     (let indeg = bincount n (map row_dst rs) in
      case span_kahn n (row_succs rs) indeg [] (filter (\<lambda>v. indeg ! v = 0) [0..<n]) of
        None \<Rightarrow> None
      | Some topo \<Rightarrow> if length topo \<noteq> n then None else Some topo)"

section \<open>The dynamic program\<close>

text \<open>The codes of the last end-gated kind, of a launch and of a device wait.\<close>

definition EXPL :: nat where "EXPL = 2"
definition LAUNCH :: nat where "LAUNCH = 5"
definition DWAIT :: nat where "DWAIT = 6"

definition array_hop :: "path_arrays \<Rightarrow> nat \<Rightarrow> nat \<Rightarrow> nat \<Rightarrow> hop" where
  "array_hop pa u v k =
     (let eff_u = pa_eff pa ! u; eff_v = pa_eff pa ! v; eff_end_u = eff_u + (pa_end pa ! u - pa_start pa ! u);
          dur_v = pa_end pa ! v - pa_start pa ! v
      in if k \<le> EXPL then \<lparr>h_gate = eff_end_u, h_limit = eff_v, h_gap = (if eff_v > eff_end_u then eff_v - eff_end_u else 0)\<rparr>
         else if k = LAUNCH then
           \<lparr>h_gate = pa_start pa ! u, h_limit = eff_v + CLOCK_TOLERANCE_NS, h_gap = eff_v - pa_end pa ! u\<rparr>
         else if k = DWAIT then
           \<lparr>h_gate = eff_end_u, h_limit = pa_end pa ! v + CLOCK_TOLERANCE_NS, h_gap = pa_start pa ! v - eff_end_u\<rparr>
         else \<lparr>h_gate = eff_u, h_limit = eff_v + dur_v, h_gap = 0\<rparr>)"

definition eff_end_at :: "path_arrays \<Rightarrow> nat \<Rightarrow> int" where
  "eff_end_at pa u = pa_eff pa ! u + (pa_end pa ! u - pa_start pa ! u)"

definition array_consider :: "path_arrays \<Rightarrow> int list \<Rightarrow> nat \<Rightarrow> nat \<Rightarrow> int \<times> nat option \<Rightarrow> int \<times> nat option" where
  "array_consider pa acc v e st =
     (let (best, best_e) = st; u = pa_src pa ! e; k = pa_kind pa ! e; h = array_hop pa u v k;
          cand = acc ! u + h_gap h + (pa_end pa ! v - pa_start pa ! v)
      in if pa_annot pa ! u then st
         else if h_gate h > h_limit h then st
         else if cand > best then (cand, Some e)
         else case best_e of
             None \<Rightarrow> st
           | Some be \<Rightarrow>
               if cand = best \<and> (pa_gpu pa ! v \<or> k \<in> {LAUNCH, DWAIT} \<or> pa_kind pa ! be \<in> {LAUNCH, DWAIT})
                  \<and> eff_end_at pa u > eff_end_at pa (pa_src pa ! be)
               then (best, Some e) else st)"

definition array_step :: "path_arrays \<Rightarrow> nat \<Rightarrow> int list \<times> nat option list \<Rightarrow> int list \<times> nat option list" where
  "array_step pa v st =
     (let (acc, chosen) = st in
      if pa_annot pa ! v then st
      else
        (let (best, best_e) = fold (array_consider pa acc v) [pa_indptr pa ! v..<pa_indptr pa ! (v + 1)]
               (pa_end pa ! v - pa_start pa ! v, None)
         in (acc[v := best], chosen[v := best_e])))"

definition array_run :: "nat \<Rightarrow> path_arrays \<Rightarrow> nat list \<Rightarrow> int list \<times> nat option list" where
  "array_run n pa topo = fold (array_step pa) topo (replicate n 0, replicate n None)"

fun array_follow :: "nat \<Rightarrow> path_arrays \<Rightarrow> nat option list \<Rightarrow> nat \<Rightarrow> nat list \<Rightarrow> nat list option" where
  "array_follow fuel pa chosen cur es =
     (case chosen ! cur of
        None \<Rightarrow> Some es
      | Some e \<Rightarrow> (case fuel of 0 \<Rightarrow> None | Suc fuel \<Rightarrow> array_follow fuel pa chosen (pa_src pa ! e) (e # es)))"

declare array_follow.simps [simp del]

definition array_path :: "path_arrays \<Rightarrow> nat \<Rightarrow> nat list \<Rightarrow> span_path" where
  "array_path pa last_span es =
     \<lparr>sp_path = map (\<lambda>e. pa_src pa ! e) es @ [last_span], sp_conf = map (\<lambda>e. EDGE_CONFS ! (pa_conf pa ! e)) es,
      sp_kinds = map (\<lambda>e. EDGE_KINDS ! (pa_kind pa ! e)) es\<rparr>"

definition dp_arrays :: "span_event list \<Rightarrow> edge_row list \<Rightarrow> span_path option" where
  "dp_arrays ss rs =
     (let n = length ss; pa = load_arrays ss rs in
      if n = 0 then Some empty_path
      else case array_order n rs of
          None \<Rightarrow> critical_path_greedy (List.enumerate 0 ss) (concat (map snd (preds_dict rs)))
        | Some topo \<Rightarrow>
            (let (acc, chosen) = array_run n pa topo in
             case max_key (\<lambda>v. acc ! v) (filter (\<lambda>v. \<not> pa_annot pa ! v) [0..<n]) of
               None \<Rightarrow> Some empty_path
             | Some v \<Rightarrow> map_option (array_path pa v) (array_follow n pa chosen v [])))"


section \<open>Edges and rows\<close>

lemma kind_code [simp]: "EDGE_KINDS ! code_of EDGE_KINDS k = k"
  by (cases k) (simp_all add: EDGE_KINDS_def code_of_def)

lemma conf_code_nth [simp]: "EDGE_CONFS ! code_of EDGE_CONFS c = c"
  by (cases c) (simp_all add: EDGE_CONFS_def code_of_def)

lemma row_roundtrip [simp]: "edge_of_row (edge_row_of e) = e"
  by (simp add: edge_of_row_def edge_row_of_def gated_by_def)

lemma rows_edges [simp]: "map edge_of_row (map edge_row_of edges) = edges"
  by (simp add: comp_def)

lemma row_fields [simp]:
  "row_dst (edge_row_of e) = s_dst e" "row_src (edge_row_of e) = s_src e"
  "s_dst (edge_of_row r) = row_dst r" "s_src (edge_of_row r) = row_src r"
  "s_kind (edge_of_row r) = EDGE_KINDS ! row_kind r" "s_conf (edge_of_row r) = EDGE_CONFS ! row_conf r"
  by (simp_all add: edge_row_of_def edge_of_row_def gated_by_def)

lemma filter_groups:
  assumes "dict_ok d" "\<forall>p\<in>set d. \<forall>y\<in>set (snd p). key y = fst p"
  shows "filter (\<lambda>y. key y = k) (concat (map snd d)) = dict_get d k []"
  using assms
proof (induction d)
  case (Cons p d)
  obtain k' ys where p: "p = (k', ys)" by (cases p)
  have f: "filter (\<lambda>y. key y = k) ys = (if k = k' then ys else [])"
    using Cons.prems(2) p by (auto simp: filter_id_conv filter_empty_conv)
  show ?case
  proof (cases "k = k'")
    case True
    then have "map_of d k = None" using Cons.prems(1) p by (auto simp: map_of_eq_None_iff)
    then show ?thesis using Cons.IH Cons.prems f True p by (simp add: dict_get_def)
  next
    case False
    then show ?thesis using Cons.IH Cons.prems f p by (simp add: dict_get_def)
  qed
qed (simp add: dict_get_def)

lemma preds_dict_of: "preds_of (concat (map snd (preds_dict rs))) v = preds_of (map edge_of_row rs) v"
proof -
  have "\<forall>p\<in>set (preds_dict rs). \<forall>y\<in>set (snd p). s_dst y = fst p"
    unfolding preds_dict_def using group_by_entry(1) by fastforce
  from filter_groups [OF _ this, of v] show ?thesis
    by (simp add: preds_of_def) (simp add: preds_dict_def)
qed

text \<open>The edges with one key are a slice of the edges sorted by that key.\<close>

lemma filter_slice:
  assumes "hi \<le> length xs" "\<And>i. i < length xs \<Longrightarrow> P (xs ! i) \<longleftrightarrow> lo \<le> i \<and> i < hi"
  shows "filter P xs = map (\<lambda>i. xs ! i) [lo..<hi]"
proof -
  have f: "filter (\<lambda>i. P (xs ! i)) [0..<length xs] = [lo..<hi]"
    by (rule sorted_distinct_set_unique) (use assms in \<open>auto intro: sorted_wrt_filter\<close>)
  have "filter P xs = filter P (map (\<lambda>i. xs ! i) [0..<length xs])" by (simp add: map_nth)
  also have "\<dots> = map (\<lambda>i. xs ! i) (filter (\<lambda>i. P (xs ! i)) [0..<length xs])" by (simp add: filter_map comp_def)
  finally show ?thesis by (simp only: f)
qed

lemma sorted_slice:
  fixes key :: "'a \<Rightarrow> nat"
  shows "map (\<lambda>e. sort_key key xs ! e)
     [bisect_left (map key (sort_key key xs)) v..<bisect_left (map key (sort_key key xs)) (v + 1)] = filter (\<lambda>x. key x = v) xs"
proof -
  let ?ys = "sort_key key xs"
  have s: "sorted (map key ?ys)" by simp
  note lo = bisect_left_splits [OF s, of v] and hi = bisect_left_splits [OF s, of "v + 1"]
  have "filter (\<lambda>x. key x = v) ?ys = map (\<lambda>e. ?ys ! e) [bisect_left (map key ?ys) v..<bisect_left (map key ?ys) (v + 1)]"
  proof (rule filter_slice)
    show "bisect_left (map key ?ys) (v + 1) \<le> length ?ys" using hi by (simp add: splits_at_def)
    show "key (?ys ! i) = v \<longleftrightarrow> bisect_left (map key ?ys) v \<le> i \<and> i < bisect_left (map key ?ys) (v + 1)" if "i < length ?ys" for i
    proof -
      have "key (?ys ! i) < v \<longleftrightarrow> i < bisect_left (map key ?ys) v" "key (?ys ! i) < v + 1 \<longleftrightarrow> i < bisect_left (map key ?ys) (v + 1)"
        using lo hi that by (simp_all add: splits_at_def)
      then show ?thesis by linarith
    qed
  qed
  moreover have "filter (\<lambda>x. key x = v) ?ys = filter (\<lambda>x. key x = v) xs" by (rule sort_key_stable)
  ultimately show ?thesis by simp
qed

lemma row_succs_eq: "row_succs (map edge_row_of edges) u = map s_dst (filter (\<lambda>e. s_src e = u) edges)"
proof -
  have "row_succs (map edge_row_of edges) u = map row_dst (filter (\<lambda>r. row_src r = u) (map edge_row_of edges))"
    unfolding row_succs_def Let_def sorted_slice [of row_src, symmetric] by (simp add: comp_def)
  then show ?thesis by (simp add: filter_map comp_def)
qed

interpretation arrays: span_successors "\<lambda>edges. row_succs (map edge_row_of edges)"
  by unfold_locales (simp add: row_succs_eq count_map_filter)

lemma bincount_degrees:
  assumes "typed_edges n edges"
  shows "bincount n (map s_dst edges) = in_degrees n edges"
proof (rule nth_equalityI)
  show "length (bincount n (map s_dst edges)) = length (in_degrees n edges)"
    using in_degrees_spec [OF assms] by (simp add: bincount_def)
  fix v assume "v < length (bincount n (map s_dst edges))"
  then have v: "v < n" by (simp add: bincount_def)
  have "count_list (map s_dst edges) v = pending_edges edges {} v" unfolding pending_edges_def by (induction edges) auto
  then show "bincount n (map s_dst edges) ! v = in_degrees n edges ! v"
    using in_degrees_spec [OF assms] v by (simp add: bincount_def)
qed


section \<open>One value for every order\<close>

definition dp_value :: "spans \<Rightarrow> sedge list \<Rightarrow> int list \<Rightarrow> nat \<Rightarrow> int \<times> choice" where
  "dp_value sp edges acc v =
     (if is_annotation (span_at sp v) then (0, None)
      else fold (consider_edge sp acc v) (preds_of edges v) (duration_ns (span_at sp v), None))"

definition dp_fixed :: "spans \<Rightarrow> sedge list \<Rightarrow> dp_state \<Rightarrow> bool" where
  "dp_fixed sp edges st \<longleftrightarrow> length (fst st) = length sp \<and> length (snd st) = length sp
     \<and> (\<forall>v<length sp. (fst st ! v, snd st ! v) = dp_value sp edges (fst st) v)"

lemma dp_value_cong:
  assumes "\<And>e. e \<in> set edges \<Longrightarrow> s_dst e = v \<Longrightarrow> acc ! s_src e = acc' ! s_src e"
  shows "dp_value sp edges acc v = dp_value sp edges acc' v"
proof -
  have "fold (consider_edge sp acc v) (preds_of edges v) st = fold (consider_edge sp acc' v) (preds_of edges v) st" for st
    by (rule fold_cong) (use assms in \<open>auto simp: preds_of_def consider_edge_def fun_eq_iff\<close>)
  then show ?thesis by (simp add: dp_value_def)
qed

lemma dp_run_fixed:
  assumes "typed_edges (length sp) edges" "topo_order (length sp) edges order"
  shows "dp_fixed sp edges (dp_run sp edges order)"
proof -
  have o: "distinct order" "set order = {..<length sp}"
    "\<And>xs v ys e. order = xs @ v # ys \<Longrightarrow> e \<in> set edges \<Longrightarrow> s_dst e = v \<Longrightarrow> s_src e \<in> set xs"
    using assms(2) unfolding topo_order_def by blast+
  let ?st = "\<lambda>xs. dp_run sp edges xs"
  have "length (fst (?st xs)) = length sp \<and> length (snd (?st xs)) = length sp \<and>
      (\<forall>v<length sp. (fst (?st xs) ! v, snd (?st xs) ! v) = (if v \<in> set xs then dp_value sp edges (fst (?st xs)) v else (0, None)))"
    if "order = xs @ ys" for xs ys
    using that
  proof (induction xs arbitrary: ys rule: rev_induct)
    case Nil
    then show ?case by (simp add: dp_run_def)
  next
    case (snoc x xs)
    have split: "order = xs @ x # ys" using snoc.prems by simp
    obtain acc ch where st: "?st xs = (acc, ch)" by force
    have len: "length acc = length sp" "length ch = length sp"
      and old: "\<And>v. v < length sp \<Longrightarrow> (acc ! v, ch ! v) = (if v \<in> set xs then dp_value sp edges acc v else (0, None))"
      using snoc.IH [OF split] st by simp_all
    have x: "x < length sp" "x \<notin> set xs" using o(1,2) split by auto
    obtain best c where bc: "dp_value sp edges acc x = (best, c)" by force
    have "?st (xs @ [x]) = dp_step sp edges x (acc, ch)" by (simp add: dp_run_def flip: st)
    also have "\<dots> = (acc[x := best], ch[x := c])"
    proof (cases "is_annotation (span_at sp x)")
      case True
      then have "best = 0" "c = None" using bc by (simp_all add: dp_value_def)
      then show ?thesis using True old [OF x(1)] x len by (simp add: dp_step_def) (metis list_update_id)
    next
      case False
      then show ?thesis using bc by (simp add: dp_step_def dp_value_def)
    qed
    finally have new: "?st (xs @ [x]) = (acc[x := best], ch[x := c])" .
    have same: "dp_value sp edges (acc[x := best]) v = dp_value sp edges acc v" if v: "v \<in> set (xs @ [x])" for v
    proof (rule dp_value_cong)
      fix e assume e: "e \<in> set edges" "s_dst e = v"
      have "s_src e \<in> set xs"
      proof (cases "v = x")
        case True
        then show ?thesis using o(3) [OF split e(1)] e(2) by simp
      next
        case False
        then obtain us ws where "xs = us @ v # ws" using v by (metis rotate1.simps(2) set_ConsD set_rotate1 split_list)
        then show ?thesis using o(3) [of us v "ws @ x # ys" e] split e by simp
      qed
      then show "acc[x := best] ! s_src e = acc ! s_src e" using x(2) by (metis nth_list_update_neq)
    qed
    have "(acc[x := best] ! v, ch[x := c] ! v) =
        (if v \<in> set (xs @ [x]) then dp_value sp edges (acc[x := best]) v else (0, None))" if v: "v < length sp" for v
    proof (cases "v = x")
      case True
      then show ?thesis using same [of x] bc len x by simp
    next
      case False
      then show ?thesis using same [of v] old [OF v] by simp
    qed
    then show ?case using len by (simp add: new)
  qed
  from this [of order "[]"] show ?thesis using o(2) by (simp add: dp_fixed_def)
qed

lemma dp_fixed_unique:
  assumes "typed_edges (length sp) edges" "acyclic (edge_pairs edges)" "dp_fixed sp edges st" "dp_fixed sp edges st'"
  shows "st = st'"
proof -
  have "(fst st ! v, snd st ! v) = (fst st' ! v, snd st' ! v)" if "v < length sp" for v
    using acyclic_wf_pairs [OF assms(2)] that
  proof (induction v rule: wf_induct_rule)
    case (less v)
    have "dp_value sp edges (fst st) v = dp_value sp edges (fst st') v"
    proof (rule dp_value_cong)
      fix e assume e: "e \<in> set edges" "s_dst e = v"
      then have "(s_src e, v) \<in> edge_pairs edges" "s_src e < length sp" using assms(1) by (auto simp: edge_pairs_def typed_edges_def)
      then show "fst st ! s_src e = fst st' ! s_src e" using less.IH by blast
    qed
    then show ?case using assms(3,4) less.prems by (simp add: dp_fixed_def)
  qed
  then have "fst st = fst st'" "snd st = snd st'" using assms(3,4) by (auto simp: dp_fixed_def intro!: nth_equalityI)
  then show ?thesis by (simp add: prod_eq_iff)
qed


section \<open>The arrays hold the trace\<close>

lemma insort_key_map: "insort_key key (f x) (map f xs) = map f (insort_key (\<lambda>x. key (f x)) x xs)"
  by (induction xs) auto

lemma sort_key_map: "sort_key key (map f xs) = map f (sort_key (\<lambda>x. key (f x)) xs)"
  by (induction xs) (simp_all add: insort_key_map)

lemma span_at_enumerate: "i < length ss \<Longrightarrow> span_at (List.enumerate 0 ss) i = ss ! i"
  using span_list_at [of i ss] by (simp add: span_list_def)

text \<open>The edges by destination, and the spans of a trace.\<close>

definition by_dst :: "sedge list \<Rightarrow> sedge list" where
  "by_dst edges = sort_key s_dst edges"

lemma rows_by_dst_eq: "rows_by_dst (map edge_row_of edges) = map edge_row_of (by_dst edges)"
  by (simp add: rows_by_dst_def by_dst_def sort_key_map)

lemma set_by_dst [simp]: "set (by_dst edges) = set edges"
  by (simp add: by_dst_def)

lemma slice_preds:
  assumes "v < length ss"
  shows "map (\<lambda>e. by_dst edges ! e)
     [pa_indptr (load_arrays ss (map edge_row_of edges)) ! v..<pa_indptr (load_arrays ss (map edge_row_of edges)) ! (v + 1)]
     = preds_of edges v"
proof -
  have "map row_dst (rows_by_dst (map edge_row_of edges)) = map s_dst (by_dst edges)" by (simp add: rows_by_dst_eq comp_def)
  then have ptr: "pa_indptr (load_arrays ss (map edge_row_of edges)) ! w = bisect_left (map s_dst (by_dst edges)) w"
    if "w \<le> length ss" for w
    using that by (simp add: load_arrays_def Let_def del: upt_Suc)
  show ?thesis using assms sorted_slice [of s_dst edges v] by (simp add: ptr by_dst_def preds_of_def)
qed

text \<open>A step over an index is the step over its edge.\<close>

definition chosen_edge :: "sedge list \<Rightarrow> nat option \<Rightarrow> choice" where
  "chosen_edge edges c = map_option (\<lambda>e. by_dst edges ! e) c"

definition chosen_ok :: "sedge list \<Rightarrow> nat option \<Rightarrow> bool" where
  "chosen_ok edges c \<longleftrightarrow> (\<forall>e. c = Some e \<longrightarrow> e < length edges)"

lemma array_fields:
  assumes "i < length ss"
  shows "pa_start (load_arrays ss rs) ! i = start_ns (span_at (List.enumerate 0 ss) i)"
    "pa_end (load_arrays ss rs) ! i = end_ns (span_at (List.enumerate 0 ss) i)"
    "pa_eff (load_arrays ss rs) ! i = effective_start_ns (span_at (List.enumerate 0 ss) i)"
    "pa_gpu (load_arrays ss rs) ! i = is_new_format (span_at (List.enumerate 0 ss) i)"
    "pa_annot (load_arrays ss rs) ! i = is_annotation (span_at (List.enumerate 0 ss) i)"
    "pa_end (load_arrays ss rs) ! i - pa_start (load_arrays ss rs) ! i = duration_ns (span_at (List.enumerate 0 ss) i)"
  using assms by (simp_all add: load_arrays_def Let_def span_at_enumerate end_ns_def)

lemma array_edge_fields:
  assumes "e < length edges"
  shows "pa_src (load_arrays ss (map edge_row_of edges)) ! e = s_src (by_dst edges ! e)"
    "pa_kind (load_arrays ss (map edge_row_of edges)) ! e = code_of EDGE_KINDS (s_kind (by_dst edges ! e))"
    "pa_conf (load_arrays ss (map edge_row_of edges)) ! e = code_of EDGE_CONFS (s_conf (by_dst edges ! e))"
  using assms by (simp_all add: load_arrays_def Let_def rows_by_dst_eq) (simp_all add: by_dst_def edge_row_of_def)

lemma kind_codes:
  "code_of EDGE_KINDS k \<le> EXPL \<longleftrightarrow> k \<in> set END_GATED" "code_of EDGE_KINDS k = LAUNCH \<longleftrightarrow> k = S_launch"
  "code_of EDGE_KINDS k = DWAIT \<longleftrightarrow> k = S_device_wait" "code_of EDGE_KINDS k \<in> {LAUNCH, DWAIT} \<longleftrightarrow> k \<in> set OVERLAP_KINDS"
  by (cases k; simp add: EDGE_KINDS_def code_of_def EXPL_def LAUNCH_def DWAIT_def END_GATED_def OVERLAP_KINDS_def)+

lemma array_hop_eq:
  assumes "u < length ss" "v < length ss"
  shows "array_hop (load_arrays ss rs) u v (code_of EDGE_KINDS k) = edge_gap_and_gate (List.enumerate 0 ss) u v k"
  unfolding array_hop_def Let_def kind_codes(1-3) array_fields(6) [OF assms(1)] array_fields(6) [OF assms(2)]
  using assms by (simp add: array_fields edge_gap_and_gate_def effective_end_ns_def Let_def max_def)

lemma array_consider_eq:
  assumes typed: "typed_edges (length ss) edges" and e: "e < length edges" "s_dst (by_dst edges ! e) = v"
    and c: "chosen_ok edges c"
    and r: "array_consider (load_arrays ss (map edge_row_of edges)) acc v e (best, c) = (best', c')"
  shows "consider_edge (List.enumerate 0 ss) acc v (by_dst edges ! e) (best, chosen_edge edges c) = (best', chosen_edge edges c')
    \<and> chosen_ok edges c'"
proof -
  let ?sp = "List.enumerate 0 ss" and ?pa = "load_arrays ss (map edge_row_of edges)" and ?x = "by_dst edges ! e"
  have mem: "by_dst edges ! i \<in> set edges" if "i < length edges" for i
    using that nth_mem [of i "by_dst edges"] by (simp add: by_dst_def)
  have inn: "s_src (by_dst edges ! i) < length ss" if "i < length edges" for i
    using mem [OF that] typed by (simp add: typed_edges_def)
  have v: "v < length ss" using mem [OF e(1)] typed e(2) by (auto simp: typed_edges_def)
  note u = inn [OF e(1)]
  have hop: "array_hop ?pa (s_src ?x) v (code_of EDGE_KINDS (s_kind ?x)) = hop_of ?sp ?x"
    using array_hop_eq [OF u v] e(2) by (simp add: hop_of_def)
  have en: "eff_end_at ?pa i = effective_end_ns (span_at ?sp i)" if "i < length ss" for i
    using that by (simp add: eff_end_at_def array_fields(3,6) effective_end_ns_def)
  note step = r [unfolded array_consider_def Let_def array_edge_fields [OF e(1)] hop, simplified,
      unfolded array_fields(4) [OF v] array_fields(5) [OF u] array_fields(6) [OF v] en [OF u]]
  show ?thesis
  proof (cases c)
    case None
    then show ?thesis using step e(1)
      by (auto simp: consider_edge_def Let_def chosen_edge_def chosen_ok_def split: if_splits)
  next
    case (Some b)
    then have b: "b < length edges" using c by (simp add: chosen_ok_def)
    have ov: "(is_new_format (span_at ?sp v) \<or> code_of EDGE_KINDS (s_kind ?x) \<in> {LAUNCH, DWAIT} \<or>
        pa_kind ?pa ! b \<in> {LAUNCH, DWAIT}) \<and> effective_end_ns (span_at ?sp (s_src ?x)) > eff_end_at ?pa (pa_src ?pa ! b)
        \<longleftrightarrow> overrides ?sp v ?x (by_dst edges ! b)"
      unfolding overrides_def array_edge_fields [OF b] kind_codes(4) en [OF inn [OF b]] by simp
    show ?thesis using step Some ov b e(1) c
      by (auto simp: consider_edge_def Let_def chosen_edge_def chosen_ok_def split: if_splits)
  qed
qed

lemma array_fold_eq:
  assumes typed: "typed_edges (length ss) edges"
    and "\<forall>e\<in>set es. e < length edges \<and> s_dst (by_dst edges ! e) = v" "chosen_ok edges c"
    and "fold (array_consider (load_arrays ss (map edge_row_of edges)) acc v) es (best, c) = (best', c')"
  shows "fold (consider_edge (List.enumerate 0 ss) acc v) (map (\<lambda>e. by_dst edges ! e) es) (best, chosen_edge edges c)
      = (best', chosen_edge edges c') \<and> chosen_ok edges c'"
  using assms(2-4)
proof (induction es arbitrary: best c)
  case (Cons e es)
  obtain b1 c1 where s: "array_consider (load_arrays ss (map edge_row_of edges)) acc v e (best, c) = (b1, c1)" by force
  from array_consider_eq [OF typed _ _ Cons.prems(2) s] Cons.prems(1)
  have "consider_edge (List.enumerate 0 ss) acc v (by_dst edges ! e) (best, chosen_edge edges c) = (b1, chosen_edge edges c1)"
    "chosen_ok edges c1" by simp_all
  then show ?case using Cons.IH [of c1 b1] Cons.prems s by simp
qed (simp add: chosen_edge_def)

lemma array_step_eq:
  assumes typed: "typed_edges (length ss) edges" and v: "v < length ss"
    and st: "list_all (chosen_ok edges) ch" "array_step (load_arrays ss (map edge_row_of edges)) v (acc, ch) = (acc', ch')"
  shows "dp_step (List.enumerate 0 ss) edges v (acc, map (chosen_edge edges) ch) = (acc', map (chosen_edge edges) ch')
    \<and> list_all (chosen_ok edges) ch'"
proof -
  let ?sp = "List.enumerate 0 ss" and ?pa = "load_arrays ss (map edge_row_of edges)"
  let ?es = "[pa_indptr ?pa ! v..<pa_indptr ?pa ! (v + 1)]"
  show ?thesis
  proof (cases "is_annotation (span_at ?sp v)")
    case True
    then show ?thesis using st by (simp add: array_step_def dp_step_def array_fields(5) [OF v])
  next
    case False
    obtain best c where f: "fold (array_consider ?pa acc v) ?es (duration_ns (span_at ?sp v), None) = (best, c)" by force
    note sl = slice_preds [OF v, of edges]
    have len: "length (by_dst edges) = length edges" by (simp add: by_dst_def)
    have ptr: "pa_indptr ?pa ! (v + 1) \<le> length edges"
    proof -
      have "pa_indptr ?pa ! (v + 1) = bisect_left (map row_dst (rows_by_dst (map edge_row_of edges))) (v + 1)"
        using v by (simp add: load_arrays_def Let_def del: upt_Suc)
      moreover have "sorted (map row_dst (rows_by_dst (map edge_row_of edges)))" by (simp add: rows_by_dst_def)
      ultimately show ?thesis using bisect_left_splits [of "map row_dst (rows_by_dst (map edge_row_of edges))" "v + 1"]
        by (simp add: splits_at_def rows_by_dst_def)
    qed
    have "e < length edges \<and> s_dst (by_dst edges ! e) = v" if "e \<in> set ?es" for e
    proof -
      have "by_dst edges ! e \<in> set (preds_of edges v)" using that unfolding sl [symmetric] by simp
      then show ?thesis using that ptr by (simp add: preds_of_def)
    qed
    then have es: "\<forall>e\<in>set ?es. e < length edges \<and> s_dst (by_dst edges ! e) = v" by blast
    have none: "chosen_ok edges None" "chosen_edge edges None = None" by (simp_all add: chosen_ok_def chosen_edge_def)
    from array_fold_eq [OF typed es none(1) f] sl none(2)
    have g: "fold (consider_edge ?sp acc v) (preds_of edges v) (duration_ns (span_at ?sp v), None) = (best, chosen_edge edges c)"
      and ok: "chosen_ok edges c" by simp_all
    have "acc' = acc[v := best]" "ch' = ch[v := c]"
      using st(2) False f by (simp_all add: array_step_def array_fields(5,6) [OF v])
    moreover have "list_all (chosen_ok edges) (ch[v := c])"
      using st(1) ok set_update_subset_insert [of ch v c] by (auto simp: list_all_iff)
    ultimately show ?thesis using False g by (simp add: dp_step_def map_update)
  qed
qed

lemma array_run_eq:
  assumes typed: "typed_edges (length ss) edges" and "set topo \<subseteq> {..<length ss}"
    and "array_run (length ss) (load_arrays ss (map edge_row_of edges)) topo = (acc, ch)"
  shows "dp_run (List.enumerate 0 ss) edges topo = (acc, map (chosen_edge edges) ch) \<and> list_all (chosen_ok edges) ch"
proof -
  have "dp_run (List.enumerate 0 ss) edges topo = (acc, map (chosen_edge edges) ch) \<and> list_all (chosen_ok edges) ch"
    if "set topo \<subseteq> {..<length ss}" "array_run (length ss) (load_arrays ss (map edge_row_of edges)) topo = (acc, ch)" for topo acc ch
    using that
  proof (induction topo arbitrary: acc ch rule: rev_induct)
    case Nil
    then show ?case by (auto simp: array_run_def dp_run_def chosen_edge_def chosen_ok_def list_all_iff)
  next
    case (snoc v topo)
    obtain a1 c1 where r: "array_run (length ss) (load_arrays ss (map edge_row_of edges)) topo = (a1, c1)" by force
    then have s: "array_step (load_arrays ss (map edge_row_of edges)) v (a1, c1) = (acc, ch)"
      using snoc.prems(2) by (simp add: array_run_def)
    have IH: "dp_run (List.enumerate 0 ss) edges topo = (a1, map (chosen_edge edges) c1)" "list_all (chosen_ok edges) c1"
      using snoc.IH [OF _ r] snoc.prems(1) by simp_all
    have v: "v < length ss" using snoc.prems(1) by simp
    from array_step_eq [OF typed v IH(2) s] IH(1) show ?case by (simp add: dp_run_def)
  qed
  then show ?thesis using assms(2,3) by blast
qed

lemma array_follow_eq:
  assumes typed: "typed_edges (length ss) edges" and "list_all (chosen_ok edges) ch"
  shows "length ch = length ss \<Longrightarrow> cur < length ss \<Longrightarrow> \<forall>e\<in>set es. e < length edges \<Longrightarrow>
    map_option (array_path (load_arrays ss (map edge_row_of edges)) v) (array_follow fuel (load_arrays ss (map edge_row_of edges)) ch cur es)
    = map_option (path_of v) (follow fuel (map (chosen_edge edges) ch) cur (map (\<lambda>e. by_dst edges ! e) es))"
proof (induction fuel arbitrary: cur es)
  case 0
  then show ?case
    by (auto simp: array_follow.simps follow.simps chosen_edge_def array_path_def path_of_def array_edge_fields split: option.splits)
next
  case (Suc fuel)
  show ?case
  proof (cases "ch ! cur")
    case None
    then show ?thesis using Suc.prems
      by (auto simp: array_follow.simps follow.simps chosen_edge_def array_path_def path_of_def array_edge_fields)
  next
    case (Some e)
    have "chosen_ok edges (ch ! cur)" using assms(2) Suc.prems(1,2) by (simp add: list_all_length)
    then have e: "e < length edges" using Some by (simp add: chosen_ok_def)
    then have "by_dst edges ! e \<in> set edges" using nth_mem [of e "by_dst edges"] by (simp add: by_dst_def)
    then have u: "s_src (by_dst edges ! e) < length ss" using typed by (simp add: typed_edges_def)
    show ?thesis using Suc.IH [OF Suc.prems(1) u, of "e # es"] Suc.prems e Some
      by (simp add: array_follow.simps follow.simps chosen_edge_def array_edge_fields)
  qed
qed

section \<open>Both searches return one path\<close>

lemma array_order_exists:
  assumes "typed_edges n edges"
  shows "case array_order n (map edge_row_of edges) of
      None \<Rightarrow> \<not> acyclic (edge_pairs edges)
    | Some topo \<Rightarrow> topo_order n edges topo"
proof -
  let ?succs = "row_succs (map edge_row_of edges)"
  have deg: "bincount n (map row_dst (map edge_row_of edges)) = in_degrees n edges"
    using bincount_degrees [OF assms] by (simp add: comp_def)
  have "n \<le> n + length []" by simp
  from arrays.span_kahn_spec [OF assms span_start [OF assms] this]
  obtain topo indeg where k: "span_kahn n ?succs (in_degrees n edges) [] (filter (\<lambda>i. in_degrees n edges ! i = 0) [0..<n]) = Some topo"
    "span_inv n edges indeg topo []" by auto
  then show ?thesis
    using span_inv_topo [OF k(2)] acyclic_places_all [OF assms _ k(2)]
    unfolding array_order_def deg Let_def by auto
qed

lemma dp_arrays_same:
  assumes "typed_edges (length ss) edges"
  shows "dp_arrays ss (map edge_row_of edges) = span_critical_path (List.enumerate 0 ss) edges"
proof (cases "ss = []")
  case True
  then show ?thesis by (simp add: dp_arrays_def span_critical_path_def Let_def)
next
  case False
  let ?sp = "List.enumerate 0 ss" and ?rs = "map edge_row_of edges"
  have len: "length ?sp = length ss" by simp
  note typed = assms [folded len]
  show ?thesis
  proof (cases "array_order (length ss) ?rs")
    case None
    then have "\<not> acyclic (edge_pairs edges)" using array_order_exists [OF assms] by simp
    then have "kahn_order (length ?sp) edges = None" using kahn_order_exists [OF typed] by blast
    then have dp: "critical_path_dp ?sp edges = None" by (simp add: critical_path_dp_def)
    have "preds_of (concat (map snd (preds_dict ?rs))) = preds_of edges"
      by (rule ext) (simp only: preds_dict_of rows_edges)
    then have "greedy fuel ?sp (concat (map snd (preds_dict ?rs))) visited cur es = greedy fuel ?sp edges visited cur es"
      for fuel visited cur es
      by (induction fuel arbitrary: visited cur es) (auto simp: greedy.simps split: option.split)
    then have "critical_path_greedy ?sp (concat (map snd (preds_dict ?rs))) = critical_path_greedy ?sp edges"
      unfolding critical_path_greedy_def by (simp only:)
    moreover have "?sp \<noteq> []" using False by (metis length_0_conv len)
    ultimately show ?thesis using False None dp by (simp add: dp_arrays_def span_critical_path_def Let_def)
  next
    case (Some topo)
    then have topo: "topo_order (length ss) edges topo" using array_order_exists [OF assms] by simp
    have ac: "acyclic (edge_pairs edges)" by (rule topo_acyclic [OF assms topo])
    then obtain order where order: "kahn_order (length ?sp) edges = Some order" using kahn_order_exists [OF typed] by blast
    obtain acc ch where run: "array_run (length ss) (load_arrays ss ?rs) topo = (acc, ch)" by force
    have "set topo \<subseteq> {..<length ss}" using topo by (simp add: topo_order_def)
    from array_run_eq [OF assms this run]
    have dp: "dp_run ?sp edges topo = (acc, map (chosen_edge edges) ch)" and ok: "list_all (chosen_ok edges) ch" by simp_all
    have "dp_run ?sp edges topo = dp_run ?sp edges order"
      by (rule dp_fixed_unique [OF typed ac dp_run_fixed dp_run_fixed])
         (use typed topo kahn_order_topo [OF typed order] in \<open>simp_all\<close>)
    then have full: "dp_run ?sp edges order = (acc, map (chosen_edge edges) ch)" using dp by simp
    have "dp_fixed ?sp edges (acc, map (chosen_edge edges) ch)"
      using dp_run_fixed [OF typed kahn_order_topo [OF typed order]] full by simp
    then have lch: "length ch = length ss" by (simp add: dp_fixed_def)
    have nodes: "filter (\<lambda>v. \<not> pa_annot (load_arrays ss ?rs) ! v) [0..<length ss] = nodes ?sp"
      unfolding nodes_def len by (rule filter_cong) (simp_all add: array_fields(5))
    have follow: "map_option (array_path (load_arrays ss ?rs) v) (array_follow (length ss) (load_arrays ss ?rs) ch v [])
        = map_option (path_of v) (follow (length ss) (map (chosen_edge edges) ch) v [])" if "v < length ss" for v
      using array_follow_eq [OF assms ok lch that, of "[]" v "length ss"] by simp
    have "dp_arrays ss ?rs = critical_path_dp ?sp edges"
    proof (cases "max_key (\<lambda>v. acc ! v) (nodes ?sp)")
      case m: None
      then show ?thesis
        using False Some run nodes by (simp add: dp_arrays_def critical_path_dp_def order [unfolded len] full Let_def del: max_key_None)
    next
      case m: (Some v)
      then have "v < length ss" using max_key_Some [OF m] by (simp add: nodes_def)
      then show ?thesis
        using False Some run nodes m follow by (simp add: dp_arrays_def critical_path_dp_def order [unfolded len] full Let_def)
    qed
    moreover have "?sp \<noteq> []" using False by (metis length_0_conv len)
    ultimately show ?thesis using dp_path_returns [OF typed order] by (auto simp: span_critical_path_def)
  qed
qed

text \<open>
  C17. The compact search over persisted edges is the search over the full graph: for every trace and
  all edges between its spans, cyclic or not, coding the edges and running the dynamic program over
  arrays returns the path, kinds and confidences that the program over the dictionary returns.
\<close>

theorem dp_arrays_same_path:
  assumes "typed_edges (length ss) edges"
  shows "dp_arrays ss (map edge_row_of edges) = span_critical_path (List.enumerate 0 ss) edges"
  using assms by (rule dp_arrays_same)

text \<open>A span with two predecessors on different threads.\<close>

lemma dp_arrays_same_path_witness:
  "typed_edges (length (map snd demo_dag)) demo_dag_edges \<and>
   dp_arrays (map snd demo_dag) (map edge_row_of demo_dag_edges) = Some (path_of 3 [gated_by 3 2 S_sequential Certain])"
proof -
  have t: "typed_edges (length (map snd demo_dag)) demo_dag_edges" by code_simp
  have e: "List.enumerate 0 (map snd demo_dag) = demo_dag" by code_simp
  have "span_critical_path demo_dag demo_dag_edges = Some (path_of 3 [gated_by 3 2 S_sequential Certain])" by code_simp
  then show ?thesis using dp_arrays_same_path [OF t] t unfolding e by simp
qed

end
