(* ===== verification/Graph_Assembly.thy ===== *)
theory Graph_Assembly
  imports Topological_Order
begin

text \<open>
  The assembly of the event graph in \<^verbatim>\<open>src/src/analysis/cp_model.py\<close>: the event edges of a
  span-level edge, the edges of a thread lane, which calls are gated and when they are
  released, the upper bounds of required time, the clocks, and \<open>build_event_graph\<close> from a
  skeleton of the spans.
\<close>

section \<open>The skeleton\<close>

type_synonym stream_key = "int \<times> string \<times> string option \<times> string option"

record skeleton =
  sk_n :: nat
  sk_t :: "int list"
  sk_cat :: "string list"
  sk_name :: "string list"
  sk_device :: "bool list"
  sk_excluded :: "bool list"
  sk_rooted :: "bool list"
  sk_rootflow :: "bool list"
  sk_blocking :: "bool list"
  sk_domain :: "nat list"
  sk_stream_key :: "(nat, stream_key) dict"
  sk_lane :: "nat option list"
  sk_resolved :: "bool list"
  sk_lanes :: "nat list list"
  sk_dom_keys :: "domain_key list"
  sk_dom_bounds :: "rat option list"

section \<open>Dependency edges\<close>

definition dep :: "nat \<Rightarrow> nat \<Rightarrow> ekind \<Rightarrow> prov \<Rightarrow> conf \<Rightarrow> int \<Rightarrow> event_graph \<Rightarrow> event_graph" where
  "dep u v kind prov c tol g = add u v DEP kind prov c None tol g"

definition add_sequential :: "nat \<Rightarrow> nat \<Rightarrow> conf \<Rightarrow> bool \<Rightarrow> skeleton \<Rightarrow> event_graph \<Rightarrow> event_graph" where
  "add_sequential v u c same_lane sk g =
     (let du = g_device g ! u; dv = g_device g ! v; tol = CLOCK_TOLERANCE_NS in
      if du \<and> dv then
        (if map_of (sk_stream_key sk) u = map_of (sk_stream_key sk) v
         then add (2 * u + 1) (2 * v) IDLE StreamOrder StreamFifo c None tol g
         else dep (2 * u + 1) (2 * v) EventWait EventRecord c tol g)
      else if du \<and> g_cat g ! v = ''sync'' then dep (2 * u + 1) (2 * v + 1) DeviceSync StreamFifo c tol g
      else if du \<or> dv then
        dep (2 * u + 1) (2 * v) Sequential (if g_cat g ! u = ''sync'' then StreamFifo else ThreadTimeline) c tol g
      else if \<not> same_lane then g\<lparr>g_unmapped := dict_add ''sequential across threads'' 1 (g_unmapped g)\<rparr>
      else g)"

definition add_explicit :: "nat \<Rightarrow> nat \<Rightarrow> conf \<Rightarrow> bool \<Rightarrow> event_graph \<Rightarrow> event_graph" where
  "add_explicit v u c same_lane g =
     (let tu0 = time_of g (2 * u); tu1 = time_of g (2 * u + 1); tv0 = time_of g (2 * v) in
      if same_lane then g
      else if tu0 \<le> tv0 \<and> tv0 \<le> tu1 \<and> g_cat g ! u = ''openmp'' then
        dep (2 * v + 1) (2 * u + 1) Join ForkJoin c 0 (dep (2 * u) (2 * v) Fork ForkJoin c 0 g)
      else if tu1 \<le> tv0 then dep (2 * u + 1) (2 * v) ExplicitSpanId ExplicitId c 0 g
      else if tu0 \<le> tv0 then dep (2 * u) (2 * v) ExplicitSpanId ExplicitId c 0 g
      else dep (2 * u) (2 * v + 1) ExplicitSpanId ExplicitId c 0 g)"

text \<open>
  \<open>_add_dependency_edge\<close>: span \<open>u\<close> before span \<open>v\<close>. Every kind of \<open>EDGE_KINDS\<close> has its branch,
  so the last one of the code (an unknown kind) is never reached.
\<close>

definition add_dependency_edge :: "skeleton \<Rightarrow> sedge \<Rightarrow> event_graph \<Rightarrow> event_graph" where
  "add_dependency_edge sk x g =
     (let v = s_dst x; u = s_src x; c = s_conf x; tol = CLOCK_TOLERANCE_NS;
          same_lane = (sk_lane sk ! u \<noteq> None \<and> sk_lane sk ! u = sk_lane sk ! v) in
      if g_excluded g ! u \<or> g_excluded g ! v then g
      else case s_kind x of
        S_sequential \<Rightarrow> add_sequential v u c same_lane sk g
      | S_launch \<Rightarrow> dep (2 * u) (2 * v) Launch CorrelationId c tol g
      | S_device_wait \<Rightarrow> dep (2 * u + 1) (2 * v + 1) DeviceWait SyncTarget c tol g
      | S_device_sync \<Rightarrow> dep (2 * u + 1) (2 * v + 1) DeviceSync SyncTarget c tol g
      | S_p2p \<Rightarrow> dep (2 * u) (2 * v + 1) P2P
          (if g_cat g ! v = ''nccl'' then NcclPseq
           else if sk_resolved sk ! v \<and> c = High then StatusResolved else PostingOrder) c 0 g
      | S_task_join \<Rightarrow> dep (2 * u + 1) (2 * v + 1) TaskJoin TaskId c 0 g
      | S_task_dep \<Rightarrow> dep (2 * u + 1) (2 * v) TaskDependence TaskId c 0 g
      | S_lock_order \<Rightarrow> dep (2 * u + 1) (2 * v + 1) LockHandoff LockHandoffOrder c tol g
      | S_arrival \<Rightarrow> dep (2 * u) (2 * v + 1) Arrival
          (if c = High then
             (if g_cat g ! v = ''nccl'' then NcclSeq
              else if g_rootflow g ! u \<or> g_rootflow g ! v then RootedFlow else CallOrder)
           else TimeOverlap) c 0 g
      | S_explicit_span_id \<Rightarrow> add_explicit v u c same_lane g)"

definition add_dependency_step :: "skeleton \<Rightarrow> nat \<times> sedge \<Rightarrow> event_graph \<Rightarrow> event_graph" where
  "add_dependency_step sk ix g =
     (let g = g\<lparr>g_origin := int (fst ix)\<rparr>;
          n_before = length (g_edges g) + length (g_dropped_edges g);
          g = add_dependency_edge sk (snd ix) g
      in if length (g_edges g) + length (g_dropped_edges g) = n_before
         then g\<lparr>g_skipped := g_skipped g @ [int (fst ix)]\<rparr> else g)"

definition add_dependency_edges :: "skeleton \<Rightarrow> sedge list \<Rightarrow> event_graph \<Rightarrow> event_graph" where
  "add_dependency_edges sk edges g = (fold (add_dependency_step sk) (List.enumerate 0 edges) g)\<lparr>g_origin := -1\<rparr>"

section \<open>Gated calls\<close>

definition gate_edge :: "nat \<Rightarrow> event_graph \<Rightarrow> event_graph" where
  "gate_edge e g =
     (let x = edge_of g e in
      if e_mode x \<noteq> DEP then g
      else
        (let g = (if odd (e_dst x) then
                    (let j = e_dst x div 2; ts = time_of g (e_src x)
                     in g\<lparr>g_gated := (g_gated g)[j := True],
                          g_release := (if ts > g_release g ! j then (g_release g)[j := ts] else g_release g)\<rparr>)
                  else g)
         in if e_kind x = Arrival then
              (let u = e_src x div 2 in
               if \<not> g_gated g ! u \<and> g_blocking g ! u then
                 g\<lparr>g_gated := (g_gated g)[u := True],
                   g_release := (g_release g)[u := max (g_release g ! u) (time_of g (2 * u))]\<rparr>
               else g)
            else g))"

definition gate_rootflow :: "nat \<Rightarrow> event_graph \<Rightarrow> event_graph" where
  "gate_rootflow j g =
     (if g_rootflow g ! j \<and> g_blocking g ! j \<and> \<not> g_gated g ! j
      then g\<lparr>g_gated := (g_gated g)[j := True], g_release := (g_release g)[j := time_of g (2 * j)]\<rparr> else g)"

definition mark_gated :: "event_graph \<Rightarrow> event_graph" where
  "mark_gated g = fold gate_rootflow [0..<g_n g] (fold gate_edge [0..<length (g_edges g)] g)"

section \<open>Thread lanes\<close>

text \<open>
  The events of a lane, \<open>(t, o, k, j, node)\<close> in their sorting order: nested ends first, then
  zero-length spans (node -1: start and end together), then enclosing starts first.
\<close>

type_synonym lane_event = "int \<times> int \<times> int \<times> int \<times> int"

definition lane_events :: "event_graph \<Rightarrow> nat list \<Rightarrow> lane_event list" where
  "lane_events g members =
     sort (concat (map (\<lambda>j. let st = time_of g (2 * j); en = time_of g (2 * j + 1) in
        if en > st then [(st, 2, - en, int j, int (2 * j)), (en, 0, - st, - int j, int (2 * j + 1))]
        else [(st, 1, 0, int j, -1)]) members))"

text \<open>The state of the loop: the open spans (innermost last), the previous node, the graph.\<close>

type_synonym lane_state = "nat list \<times> nat option \<times> event_graph"

definition lane_add :: "nat list \<Rightarrow> nat option \<Rightarrow> nat \<Rightarrow> event_graph \<Rightarrow> event_graph" where
  "lane_add opn prev nd g =
     (case prev of
        None \<Rightarrow> g
      | Some p \<Rightarrow>
          if opn = [] then add p nd GAP Thread ThreadTimeline Certain None 0 g
          else (let inner = last opn
                in add p nd (if g_gated g ! inner then WAIT else if g_blocking g ! inner then UNKNOWN else BUSY)
                     Thread ThreadTimeline Certain (Some inner) 0 g))"

definition lane_node :: "nat \<Rightarrow> nat \<Rightarrow> lane_state \<Rightarrow> lane_state" where
  "lane_node j nd s =
     (case s of (opn, prev, g) \<Rightarrow>
        let g = lane_add opn prev nd g in
        if odd nd then
          (if opn \<noteq> [] \<and> last opn = j then (butlast opn, Some nd, g)
           else if j \<in> set opn then (remove1 j opn, Some nd, g\<lparr>g_improper_nesting := g_improper_nesting g + 1\<rparr>)
           else (opn, Some nd, g))
        else (opn @ [j], Some nd, g))"

definition lane_instant :: "nat \<Rightarrow> lane_state \<Rightarrow> lane_state" where
  "lane_instant j s =
     (case s of (opn, prev, g) \<Rightarrow>
        (opn, Some (2 * j + 1), lane_add opn (Some (2 * j)) (2 * j + 1) (lane_add opn prev (2 * j) g)))"

definition lane_step :: "lane_event \<Rightarrow> lane_state \<Rightarrow> lane_state" where
  "lane_step ev s =
     (case ev of (t, ord, k, j, node) \<Rightarrow>
        if node < 0 then lane_instant (nat j) s else lane_node (nat node div 2) (nat node) s)"

definition add_thread_lane :: "nat list \<Rightarrow> event_graph \<Rightarrow> event_graph" where
  "add_thread_lane members g = snd (snd (fold lane_step (lane_events g members) ([], None, g)))"

definition add_device_work :: "nat \<Rightarrow> event_graph \<Rightarrow> event_graph" where
  "add_device_work j g =
     (if g_device g ! j \<and> \<not> g_excluded g ! j
      then add (2 * j) (2 * j + 1) (if g_gated g ! j then WAIT else BUSY) DeviceWork DeviceInterval Certain (Some j) 0 g
      else g)"

section \<open>Bounds of required time\<close>

definition upper_bound :: "event_graph \<Rightarrow> edge \<Rightarrow> int" where
  "upper_bound g x =
     (if e_mode x = WAIT then
        (let j = the (e_owner x); lo = max (time_of g (e_src x)) (g_release g ! j)
         in if lo < time_of g (e_dst x) then max 0 (min (time_of g (e_dst x)) (time_of g (2 * j + 1)) - lo) else 0)
      else if e_mode x \<in> {BUSY, GAP, UNKNOWN} then e_d x
      else 0)"

definition required_upper_bounds :: "event_graph \<Rightarrow> event_graph" where
  "required_upper_bounds g = g\<lparr>g_whi := map (upper_bound g) (g_edges g)\<rparr>"

definition lane_modes :: "emode set" where
  "lane_modes = {BUSY, WAIT, GAP, UNKNOWN}"

definition lane_in :: "event_graph \<Rightarrow> nat \<Rightarrow> nat option" where
  "lane_in g v = List.find (\<lambda>e. e_mode (edge_of g e) \<in> lane_modes) (in_edges g v)"

text \<open>
  The loop of \<open>_tail_after_release\<close>, backwards along the lane. None: the fuel ran out; a lane
  has no more edges than the graph, so that never happens.
\<close>

fun tail_loop :: "nat \<Rightarrow> event_graph \<Rightarrow> nat \<Rightarrow> nat \<Rightarrow> int \<Rightarrow> int option" where
  "tail_loop 0 g j v acc = None"
| "tail_loop (Suc fuel) g j v acc =
     (if v = 2 * j then Some acc
      else case lane_in g v of
        None \<Rightarrow> Some acc
      | Some e \<Rightarrow>
          (let x = edge_of g e; w = (if e_mode x \<in> {BUSY, WAIT, UNKNOWN} then g_whi g ! e else 0);
               rel = g_release g ! j
           in if time_of g (e_src x) \<ge> rel then tail_loop fuel g j (e_src x) (acc + w)
              else Some (acc + min w (max 0 (time_of g v - rel)))))"

definition tail_after_release :: "event_graph \<Rightarrow> nat \<Rightarrow> int option" where
  "tail_after_release g j = tail_loop (length (g_edges g) + 2) g j (2 * j + 1) 0"

text \<open>
  \<open>_gating_dependency_bounds\<close>. The code keeps the tails it computed in a dictionary; a tail
  reads only lane edges' bounds, which the loop does not change.
\<close>

definition gate_bound :: "nat \<Rightarrow> event_graph \<Rightarrow> event_graph" where
  "gate_bound e g =
     (let x = edge_of g e; j = e_dst x div 2 in
      if e_mode x \<noteq> DEP \<or> even (e_dst x) \<or> \<not> g_gated g ! j then g
      else g\<lparr>g_whi := (g_whi g)[e := min (the (tail_after_release g j)) (e_d x)]\<rparr>)"

definition gating_dependency_bounds :: "event_graph \<Rightarrow> event_graph" where
  "gating_dependency_bounds g = fold gate_bound [0..<length (g_edges g)] g"

section \<open>Clocks\<close>

definition clock_constraints :: "event_graph \<Rightarrow> ccons list" where
  "clock_constraints g =
     concat (map (\<lambda>e. let x = edge_of g e in
        if e_mode x = DEP \<or> e_mode x = IDLE then [(e, e_src x, e_dst x, if inferred g e then 0 else 1)] else [])
        [0..<length (g_edges g)]) @
     map (\<lambda>(k, u, v, kind, c). (length (g_edges g) + k, u, v, if conf_code c \<ge> conf_code Medium then 0 else 1))
       (List.enumerate 0 (g_dropped_pairs g))"

definition clock_analysis_of :: "event_graph \<Rightarrow> domain_key list \<Rightarrow> rat option list \<Rightarrow> clock_analysis" where
  "clock_analysis_of g keys bounds =
     analyze_clocks (\<lambda>v. g_domain g ! (v div 2)) (g_t g) (clock_constraints g) keys bounds"

text \<open>\<open>for cid in ca.contradicted\<close>: a set, whose order does not matter; ids of dropped edges are no edges.\<close>

definition clock_disable :: "nat set \<Rightarrow> nat \<Rightarrow> event_graph \<Rightarrow> event_graph" where
  "clock_disable gone cid g =
     (if cid \<in> gone \<and> g_enabled g ! cid then
        g\<lparr>g_enabled := (g_enabled g)[cid := False], g_clock_contradicted := g_clock_contradicted g + 1,
          g_clock_disabled := g_clock_disabled g @ [cid]\<rparr>
      else g)"

definition disable_clock_contradicted :: "clock_analysis \<Rightarrow> event_graph \<Rightarrow> event_graph" where
  "disable_clock_contradicted ca g = fold (clock_disable (c_contradicted ca)) [0..<length (g_edges g)] g"

section \<open>Assembly\<close>

definition skeleton_graph :: "skeleton \<Rightarrow> event_graph" where
  "skeleton_graph sk = (new_graph (sk_n sk))\<lparr>g_t := sk_t sk, g_cat := sk_cat sk, g_name := sk_name sk,
     g_device := sk_device sk, g_excluded := sk_excluded sk, g_rooted := sk_rooted sk,
     g_rootflow := sk_rootflow sk, g_blocking := sk_blocking sk, g_domain := sk_domain sk\<rparr>"

definition lanes_graph :: "skeleton \<Rightarrow> sedge list \<Rightarrow> event_graph" where
  "lanes_graph sk edges =
     fold add_device_work [0..<sk_n sk]
       (fold add_thread_lane (sk_lanes sk) (mark_gated (add_dependency_edges sk edges (skeleton_graph sk))))"

definition bounded_graph :: "skeleton \<Rightarrow> sedge list \<Rightarrow> event_graph" where
  "bounded_graph sk edges = gating_dependency_bounds (finish_graph (required_upper_bounds (lanes_graph sk edges)))"

definition assemble :: "skeleton \<Rightarrow> sedge list \<Rightarrow> bool \<Rightarrow> clock_analysis option \<Rightarrow> event_graph" where
  "assemble sk edges clocks prior_clock =
     (let g = bounded_graph sk edges;
          g = (if clocks then
                 (let ca = clock_analysis_of g (sk_dom_keys sk) (sk_dom_bounds sk)
                  in disable_clock_contradicted ca (g\<lparr>g_clock := Some ca\<rparr>))
               else g\<lparr>g_clock := prior_clock\<rparr>)
      in break_cycles g)"

text \<open>\<open>_shifted\<close>: the timestamps of the shifted domains moved.\<close>

definition shifted :: "skeleton \<Rightarrow> (domain_key, int) dict \<Rightarrow> skeleton" where
  "shifted sk shift =
     (let d = (\<lambda>j. dict_get shift (sk_dom_keys sk ! (sk_domain sk ! j)) 0)
      in sk\<lparr>sk_t := map (\<lambda>v. sk_t sk ! v + d (v div 2)) [0..<2 * sk_n sk]\<rparr>)"

definition shift_dict :: "domain_key list \<Rightarrow> int list \<Rightarrow> (domain_key, int) dict" where
  "shift_dict keys shifts = fold (\<lambda>(k, s). AList.update k s) (filter (\<lambda>(k, s). s \<noteq> 0) (zip keys shifts)) []"

definition build_event_graph :: "skeleton \<Rightarrow> sedge list \<Rightarrow> bool \<Rightarrow> event_graph" where
  "build_event_graph sk edges clocks =
     (let g = assemble sk edges clocks None in
      if clocks then
        (let ca = the (g_clock g); shift = shift_dict (sk_dom_keys sk) (c_shift ca) in
         if shift \<noteq> [] then
           (let g = assemble (shifted sk shift) edges True None; cb = the (g_clock g)
            in g\<lparr>g_clock := Some (cb\<lparr>c_shift := map (\<lambda>k. dict_get shift k 0) (c_keys cb),
                  c_feasible := False, c_relaxed := c_relaxed ca @ c_relaxed cb\<rparr>)\<rparr>)
         else g)
      else g)"

end
