(* ===== verification/Assembly_Facts.thy ===== *)
theory Assembly_Facts
  imports Graph_Assembly
begin

text \<open>
  The assembled event graph of \<^verbatim>\<open>src/src/analysis/cp_model.py\<close>: every step of the assembly keeps
  the graph well formed, a thread lane becomes one chain over the lane's events, the backward
  walk along a lane ends, and the bounds of required time are within the edges' durations.
\<close>

section \<open>Well-formedness\<close>

lemma graph_ok_update [simp]:
  "graph_ok (g\<lparr>g_unmapped := a\<rparr>) = graph_ok g" "graph_ok (g\<lparr>g_origin := b\<rparr>) = graph_ok g"
  "graph_ok (g\<lparr>g_skipped := c\<rparr>) = graph_ok g" "graph_ok (g\<lparr>g_gated := d\<rparr>) = graph_ok g"
  "graph_ok (g\<lparr>g_release := e\<rparr>) = graph_ok g" "graph_ok (g\<lparr>g_improper_nesting := k\<rparr>) = graph_ok g"
  "graph_ok (g\<lparr>g_whi := w\<rparr>) = graph_ok g" "graph_ok (g\<lparr>g_clock := x\<rparr>) = graph_ok g"
  "graph_ok (g\<lparr>g_enabled := y\<rparr>) = graph_ok g" "graph_ok (g\<lparr>g_clock_contradicted := z\<rparr>) = graph_ok g"
  "graph_ok (g\<lparr>g_clock_disabled := l\<rparr>) = graph_ok g"
  by (simp_all add: graph_ok_def edge_ok_def)

text \<open>What no step of the assembly changes.\<close>

definition same_base :: "event_graph \<Rightarrow> event_graph \<Rightarrow> bool" where
  "same_base g h \<longleftrightarrow> g_n h = g_n g \<and> g_t h = g_t g \<and> g_cat h = g_cat g \<and> g_device h = g_device g \<and>
     g_excluded h = g_excluded g \<and> g_blocking h = g_blocking g \<and> g_rootflow h = g_rootflow g \<and> g_domain h = g_domain g"

lemma same_base_refl [simp, intro]: "same_base g g"
  by (simp add: same_base_def)

lemma same_base_trans: "same_base g h \<Longrightarrow> same_base h k \<Longrightarrow> same_base g k"
  by (simp add: same_base_def)

lemma same_baseD:
  assumes "same_base g h"
  shows "g_n h = g_n g" "g_t h = g_t g" "g_cat h = g_cat g" "g_device h = g_device g" "g_excluded h = g_excluded g"
    "g_blocking h = g_blocking g" "g_rootflow h = g_rootflow g" "g_domain h = g_domain g"
  using assms by (simp_all add: same_base_def)

text \<open>A step keeps the graph: the base, and well-formedness.\<close>

definition keeps :: "(event_graph \<Rightarrow> event_graph) \<Rightarrow> event_graph \<Rightarrow> bool" where
  "keeps f g \<longleftrightarrow> same_base g (f g) \<and> (graph_ok g \<longrightarrow> graph_ok (f g))"

lemma keepsI: "same_base g (f g) \<Longrightarrow> (graph_ok g \<Longrightarrow> graph_ok (f g)) \<Longrightarrow> keeps f g"
  by (simp add: keeps_def)

lemma fold_keeps:
  assumes "\<And>x h. x \<in> set xs \<Longrightarrow> same_base g h \<Longrightarrow> keeps (f x) h"
  shows "keeps (fold f xs) g"
  using assms
proof (induction xs arbitrary: g)
  case (Cons x xs)
  have k: "keeps (f x) g" using Cons.prems by simp
  then have s: "same_base g (f x g)" by (simp add: keeps_def)
  have "keeps (fold f xs) (f x g)"
    by (rule Cons.IH) (use Cons.prems same_base_trans [OF s] in auto)
  with k s show ?case by (auto simp: keeps_def intro: same_base_trans)
qed (simp add: keeps_def)

lemma add_base [simp]: "same_base g (add u v m k p c ow tol g)"
  by (simp add: same_base_def)

lemma dep_keeps:
  assumes "u < 2 * g_n g" "v < 2 * g_n g" "tol = 0 \<or> tol = CLOCK_TOLERANCE_NS"
  shows "keeps (dep u v k p c tol) g"
  using assms add_edge_ok [of g u v tol DEP k p c None] by (auto simp: keeps_def dep_def CLOCK_TOLERANCE_NS_def)

lemma update_base [simp]:
  "same_base g (h\<lparr>g_unmapped := a\<rparr>) = same_base g h" "same_base g (h\<lparr>g_origin := b\<rparr>) = same_base g h"
  "same_base g (h\<lparr>g_skipped := c\<rparr>) = same_base g h" "same_base g (h\<lparr>g_gated := d\<rparr>) = same_base g h"
  "same_base g (h\<lparr>g_release := e\<rparr>) = same_base g h" "same_base g (h\<lparr>g_improper_nesting := k\<rparr>) = same_base g h"
  "same_base g (h\<lparr>g_whi := w\<rparr>) = same_base g h" "same_base g (h\<lparr>g_clock := x\<rparr>) = same_base g h"
  "same_base g (h\<lparr>g_enabled := y\<rparr>) = same_base g h" "same_base g (h\<lparr>g_clock_contradicted := z\<rparr>) = same_base g h"
  "same_base g (h\<lparr>g_clock_disabled := l\<rparr>) = same_base g h"
  by (simp_all add: same_base_def)

lemma dep_base [simp]: "same_base g (dep u v k p c tol g)"
  by (simp add: dep_def)

lemma dep_ok:
  "graph_ok g \<Longrightarrow> u < 2 * g_n g \<Longrightarrow> v < 2 * g_n g \<Longrightarrow> 0 \<le> tol \<Longrightarrow> tol \<le> CLOCK_TOLERANCE_NS \<Longrightarrow> graph_ok (dep u v k p c tol g)"
  unfolding dep_def by (rule add_edge_ok)

lemma dep_n [simp]: "g_n (dep u v k p c tol g) = g_n g"
  by (simp add: dep_def)

lemma tolerance [simp]: "0 \<le> CLOCK_TOLERANCE_NS"
  by (simp add: CLOCK_TOLERANCE_NS_def)

lemma add_dependency_edge_keeps:
  assumes "s_src x < g_n g" "s_dst x < g_n g"
  shows "keeps (add_dependency_edge sk x) g"
proof (rule keepsI)
  let ?u = "s_src x" and ?v = "s_dst x"
  have seq: "same_base g (add_sequential ?v ?u c b sk g)" for c b
    by (simp add: add_sequential_def Let_def same_base_trans)
  have exp: "same_base g (add_explicit ?v ?u c b g)" for c b
    by (auto simp: add_explicit_def Let_def intro: same_base_trans [OF dep_base dep_base])
  show "same_base g (add_dependency_edge sk x g)"
    using seq exp by (simp add: add_dependency_edge_def Let_def split: skind.split)
  assume ok: "graph_ok g"
  have seq: "graph_ok (add_sequential ?v ?u c b sk g)" for c b
    using ok assms by (auto simp: add_sequential_def Let_def intro!: dep_ok add_edge_ok)
  have exp: "graph_ok (add_explicit ?v ?u c b g)" for c b
    using ok assms by (auto simp: add_explicit_def Let_def intro!: dep_ok)
  show "graph_ok (add_dependency_edge sk x g)"
    using ok assms seq exp by (auto simp: add_dependency_edge_def Let_def intro!: dep_ok split: skind.split)
qed

lemma add_dependency_edges_keeps:
  assumes "\<forall>x\<in>set edges. s_src x < g_n g \<and> s_dst x < g_n g"
  shows "keeps (add_dependency_edges sk edges) g"
proof -
  have "keeps (fold (add_dependency_step sk) (List.enumerate 0 edges)) g"
  proof (rule fold_keeps)
    fix ix :: "nat \<times> sedge" and h assume "ix \<in> set (List.enumerate 0 edges)" and b: "same_base g h"
    then have "snd ix \<in> set edges" by (metis in_set_enumerate_eq nth_mem diff_zero plus_nat.add_0 add.right_neutral)
    then have "keeps (add_dependency_edge sk (snd ix)) (h\<lparr>g_origin := int (fst ix)\<rparr>)"
      using assms same_baseD(1) [OF b] by (intro add_dependency_edge_keeps) simp_all
    moreover have "same_base h (h\<lparr>g_origin := int (fst ix)\<rparr>)" by simp
    ultimately have "same_base h (add_dependency_edge sk (snd ix) (h\<lparr>g_origin := int (fst ix)\<rparr>)) \<and>
        (graph_ok h \<longrightarrow> graph_ok (add_dependency_edge sk (snd ix) (h\<lparr>g_origin := int (fst ix)\<rparr>)))"
      unfolding keeps_def graph_ok_update by (blast intro: same_base_trans)
    then show "keeps (add_dependency_step sk ix) h"
      unfolding keeps_def add_dependency_step_def Let_def by simp
  qed
  then show ?thesis by (simp add: keeps_def add_dependency_edges_def)
qed

lemma mark_gated_keeps: "keeps mark_gated g"
proof -
  have e: "keeps (gate_edge e) h" for e h
    by (auto simp: keeps_def gate_edge_def Let_def)
  have r: "keeps (gate_rootflow j) h" for j h
    by (auto simp: keeps_def gate_rootflow_def)
  have "keeps (fold gate_edge [0..<length (g_edges g)]) g" using e by (rule fold_keeps)
  moreover have "keeps (fold gate_rootflow [0..<g_n g]) h" for h using r by (rule fold_keeps)
  ultimately show ?thesis unfolding keeps_def mark_gated_def by (blast intro: same_base_trans)
qed

lemma mark_gated_edges [simp]: "g_edges (mark_gated g) = g_edges g"
proof -
  have e: "g_edges (fold gate_edge es h) = g_edges h" for es h
    by (induction es arbitrary: h) (simp_all add: gate_edge_def Let_def)
  have r: "g_edges (fold gate_rootflow js h) = g_edges h" for js h
    by (induction js arbitrary: h) (simp_all add: gate_rootflow_def)
  show ?thesis by (simp add: mark_gated_def e r)
qed

section \<open>Thread lanes\<close>

text \<open>The nodes an event of a lane stands for, and the start and end events of a span.\<close>

definition ev_nodes :: "lane_event \<Rightarrow> nat list" where
  "ev_nodes ev = (case ev of (t, ord, k, j, node) \<Rightarrow> if node < 0 then [2 * nat j, 2 * nat j + 1] else [nat node])"

definition ev_start :: "event_graph \<Rightarrow> nat \<Rightarrow> lane_event" where
  "ev_start g j = (time_of g (2 * j), 2, - time_of g (2 * j + 1), int j, int (2 * j))"

definition ev_end :: "event_graph \<Rightarrow> nat \<Rightarrow> lane_event" where
  "ev_end g j = (time_of g (2 * j + 1), 0, - time_of g (2 * j), - int j, int (2 * j + 1))"

definition ev_zero :: "event_graph \<Rightarrow> nat \<Rightarrow> lane_event" where
  "ev_zero g j = (time_of g (2 * j), 1, 0, int j, -1)"

definition ev_time :: "lane_event \<Rightarrow> int" where
  "ev_time ev = fst ev"

definition lasting :: "event_graph \<Rightarrow> nat \<Rightarrow> bool" where
  "lasting g j \<longleftrightarrow> time_of g (2 * j) < time_of g (2 * j + 1)"

lemma lane_events_eq:
  "lane_events g members = sort (concat (map (\<lambda>j. if lasting g j then [ev_start g j, ev_end g j] else [ev_zero g j]) members))"
  unfolding lane_events_def ev_start_def ev_end_def ev_zero_def lasting_def Let_def by (rule refl)

lemma set_lane_events:
  "set (lane_events g members) = (\<Union>j\<in>set members. if lasting g j then {ev_start g j, ev_end g j} else {ev_zero g j})"
  unfolding lane_events_eq by auto

lemma ev_distinct [simp]:
  "ev_start g i = ev_start g j \<longleftrightarrow> i = j" "ev_end g i = ev_end g j \<longleftrightarrow> i = j" "ev_zero g i = ev_zero g j \<longleftrightarrow> i = j"
  "ev_start g i \<noteq> ev_end g j" "ev_end g i \<noteq> ev_start g j" "ev_start g i \<noteq> ev_zero g j" "ev_zero g i \<noteq> ev_start g j"
  "ev_end g i \<noteq> ev_zero g j" "ev_zero g i \<noteq> ev_end g j"
  by (auto simp: ev_start_def ev_end_def ev_zero_def)

lemma distinct_lane_events: "distinct members \<Longrightarrow> distinct (lane_events g members)"
  unfolding lane_events_eq distinct_sort
  by (induction members) auto

lemma sorted_lane_events: "sorted (lane_events g members)"
  by (simp add: lane_events_eq)

lemma ev_nodes_simps [simp]:
  "ev_nodes (ev_start g j) = [2 * j]" "ev_nodes (ev_end g j) = [2 * j + 1]" "ev_nodes (ev_zero g j) = [2 * j, 2 * j + 1]"
  by (simp_all add: ev_nodes_def ev_start_def ev_end_def ev_zero_def)

lemma ev_time_simps [simp]:
  "ev_time (ev_start g j) = time_of g (2 * j)" "ev_time (ev_end g j) = time_of g (2 * j + 1)"
  "ev_time (ev_zero g j) = time_of g (2 * j)"
  by (simp_all add: ev_time_def ev_start_def ev_end_def ev_zero_def)

lemma nat_node [simp]: "nat (2 * int j) = 2 * j" "nat (1 + 2 * int j) = Suc (2 * j)"
  by simp_all

lemma lane_step_simps [simp]:
  "lane_step (ev_start g j) s = lane_node j (2 * j) s" "lane_step (ev_end g j) s = lane_node j (2 * j + 1) s"
  "lane_step (ev_zero g j) s = lane_instant j s"
  by (simp_all add: lane_step_def ev_start_def ev_end_def ev_zero_def)

definition lane_nodes :: "event_graph \<Rightarrow> nat list \<Rightarrow> nat list" where
  "lane_nodes g members = concat (map ev_nodes (lane_events g members))"

text \<open>Spans end no earlier than they start.\<close>

definition forward :: "event_graph \<Rightarrow> nat list \<Rightarrow> bool" where
  "forward g members \<longleftrightarrow> (\<forall>j\<in>set members. time_of g (2 * j) \<le> time_of g (2 * j + 1))"

lemma ev_nodes_time:
  assumes "forward g members" "ev \<in> set (lane_events g members)" "v \<in> set (ev_nodes ev)"
  shows "time_of g v = ev_time ev"
  using assms by (auto simp: set_lane_events forward_def lasting_def split: if_splits)

section \<open>The chain of a lane\<close>

text \<open>A span covers the time between two events; an owner is the covering span started last.\<close>

definition covers :: "event_graph \<Rightarrow> nat list \<Rightarrow> int \<Rightarrow> int \<Rightarrow> nat \<Rightarrow> bool" where
  "covers g members a b j \<longleftrightarrow> j \<in> set members \<and> time_of g (2 * j) \<le> a \<and> b \<le> time_of g (2 * j + 1)"

definition owner_ok :: "event_graph \<Rightarrow> nat list \<Rightarrow> int \<Rightarrow> int \<Rightarrow> nat option \<Rightarrow> bool" where
  "owner_ok g members a b ow = (case ow of
      None \<Rightarrow> (\<forall>j. \<not> covers g members a b j)
    | Some i \<Rightarrow> covers g members a b i \<and> (\<forall>j. covers g members a b j \<longrightarrow>
        (time_of g (2 * j), - time_of g (2 * j + 1), j) \<le> (time_of g (2 * i), - time_of g (2 * i + 1), i)))"

definition owner_mode :: "event_graph \<Rightarrow> nat option \<Rightarrow> emode" where
  "owner_mode g ow = (case ow of None \<Rightarrow> GAP
    | Some i \<Rightarrow> if g_gated g ! i then WAIT else if g_blocking g ! i then UNKNOWN else BUSY)"

definition lane_edge_ok :: "event_graph \<Rightarrow> nat list \<Rightarrow> edge \<Rightarrow> bool" where
  "lane_edge_ok g members x \<longleftrightarrow> e_kind x = Thread \<and> e_mode x = owner_mode g (e_owner x) \<and>
     e_d x = time_of g (e_dst x) - time_of g (e_src x) \<and> 0 \<le> e_d x \<and>
     (0 < e_d x \<longrightarrow> owner_ok g members (time_of g (e_src x)) (time_of g (e_dst x)) (e_owner x))"

definition top_of :: "nat list \<Rightarrow> nat option" where
  "top_of opn = (if opn = [] then None else Some (last opn))"

lemma lane_add_None [simp]: "lane_add opn None nd h = h"
  by (simp add: lane_add_def)

text \<open>Everything about a graph but its edges, active nodes and counters.\<close>

definition lane_base :: "event_graph \<Rightarrow> event_graph \<Rightarrow> bool" where
  "lane_base g h \<longleftrightarrow> same_base g h \<and> g_gated h = g_gated g \<and> g_release h = g_release g \<and> g_origin h = g_origin g"

lemma lane_baseD:
  assumes "lane_base g h"
  shows "same_base g h" "g_gated h = g_gated g" "g_release h = g_release g" "g_origin h = g_origin g"
    "g_t h = g_t g" "g_n h = g_n g" "g_blocking h = g_blocking g"
  using assms by (simp_all add: lane_base_def same_base_def)

lemma lane_add_Some:
  assumes "lane_base g h" "time_of g p \<le> time_of g nd"
  shows "\<exists>x. g_edges (lane_add opn (Some p) nd h) = g_edges h @ [x] \<and> e_src x = p \<and> e_dst x = nd \<and> e_kind x = Thread \<and>
    e_owner x = top_of opn \<and> e_mode x = owner_mode g (top_of opn) \<and> e_d x = time_of g nd - time_of g p"
    and "lane_base g (lane_add opn (Some p) nd h)"
  using assms
  by (auto simp: lane_add_def add_edge_def Let_def lane_base_def same_base_def top_of_def owner_mode_def)

lemma lane_base_improper [simp]: "lane_base g (h\<lparr>g_improper_nesting := k\<rparr>) = lane_base g h"
  by (simp add: lane_base_def)

text \<open>The spans open after some events: started, not ended, in the order they started.\<close>

definition starts :: "event_graph \<Rightarrow> nat list \<Rightarrow> lane_event list \<Rightarrow> nat list" where
  "starts g members evs = concat (map (\<lambda>ev. if \<exists>j\<in>set members. ev = ev_start g j then [nat (fst (snd (snd (snd ev))))] else []) evs)"

lemma starts_simps [simp]:
  "starts g members [] = []" "starts g members (xs @ ys) = starts g members xs @ starts g members ys"
  "j \<in> set members \<Longrightarrow> starts g members [ev_start g j] = [j]"
  "starts g members [ev_end g j] = []" "starts g members [ev_zero g j] = []"
  by (auto simp: starts_def) (auto simp: ev_start_def)

definition opened :: "event_graph \<Rightarrow> nat list \<Rightarrow> lane_event list \<Rightarrow> nat list" where
  "opened g members evs = filter (\<lambda>j. ev_end g j \<notin> set evs) (starts g members evs)"

lemma set_starts: "set (starts g members evs) = {j \<in> set members. ev_start g j \<in> set evs}"
  by (auto simp: starts_def ev_start_def split: if_splits)

lemma starts_filter: "map (ev_start g) (starts g members evs) = filter (\<lambda>ev. \<exists>j\<in>set members. ev = ev_start g j) evs"
proof (induction evs rule: rev_induct)
  case (snoc ev evs)
  show ?case
  proof (cases "\<exists>j\<in>set members. ev = ev_start g j")
    case True
    then obtain j where "j \<in> set members" "ev = ev_start g j" by blast
    then show ?thesis using snoc.IH by auto
  next
    case False
    then have "starts g members [ev] = []" by (simp add: starts_def)
    then show ?thesis using snoc.IH False by simp
  qed
qed simp

lemma sorted_le_last: "sorted xs \<Longrightarrow> x \<in> set xs \<Longrightarrow> x \<le> last xs"
  by (cases xs rule: rev_cases) (auto simp: sorted_append)

lemma last_opened:
  assumes "sorted evs" "j \<in> set (opened g members evs)"
  shows "ev_start g j \<le> ev_start g (last (opened g members evs))"
proof -
  have "sorted (map (ev_start g) (starts g members evs))" using assms(1) unfolding starts_filter by (rule sorted_wrt_filter)
  then have "sorted (map (ev_start g) (opened g members evs))" unfolding opened_def by (rule sorted_filter)
  moreover have ne: "opened g members evs \<noteq> []" using assms(2) by auto
  ultimately have "ev_start g j \<le> last (map (ev_start g) (opened g members evs))"
    using assms(2) by (intro sorted_le_last) auto
  then show ?thesis using ne by (simp add: last_map)
qed

lemma ev_start_le: "ev_start g j \<le> ev_start g i \<Longrightarrow>
    (time_of g (2 * j), - time_of g (2 * j + 1), j) \<le> (time_of g (2 * i), - time_of g (2 * i + 1), i)"
  by (auto simp: ev_start_def)

text \<open>Between the last event so far and the next one, the open spans are those that cover it.\<close>

lemma opened_covers:
  assumes evs: "lane_events g members = pre @ ev # post" and less: "ev_time (last pre) < ev_time ev" "pre \<noteq> []"
    and fwd: "forward g members"
  shows "j \<in> set (opened g members pre) \<longleftrightarrow> covers g members (ev_time (last pre)) (ev_time ev) j"
proof -
  have sorted: "sorted (pre @ ev # post)" using sorted_lane_events [of g members] evs by simp
  have time: "x \<le> y \<Longrightarrow> ev_time x \<le> ev_time y" for x y by (cases x; cases y) (auto simp: ev_time_def)
  have early: "ev_time x \<le> ev_time (last pre)" if "x \<in> set pre" for x
  proof -
    have "x \<le> last pre" using sorted that by (intro sorted_le_last) (auto simp: sorted_append)
    then show ?thesis by (rule time)
  qed
  have late: "ev_time ev \<le> ev_time x" if "x \<in> set (ev # post)" for x
  proof -
    have "ev \<le> x" using sorted that by (auto simp: sorted_append)
    then show ?thesis by (rule time)
  qed
  have pre: "x \<in> set pre \<longleftrightarrow> ev_time x \<le> ev_time (last pre)" if "x \<in> set (lane_events g members)" for x
  proof -
    have "x \<in> set (ev # post)" if "x \<notin> set pre" using that \<open>x \<in> set (lane_events g members)\<close> unfolding evs by simp
    then have "ev_time ev \<le> ev_time x" if "x \<notin> set pre" using that late by blast
    then show ?thesis using early [of x] less(1) by (cases "x \<in> set pre") auto
  qed
  have mem: "ev_start g j \<in> set (lane_events g members)" "ev_end g j \<in> set (lane_events g members)"
    if "j \<in> set members" "lasting g j" using that by (auto simp: set_lane_events)
  show ?thesis
  proof
    assume "j \<in> set (opened g members pre)"
    then have j: "j \<in> set members" "ev_start g j \<in> set pre" "ev_end g j \<notin> set pre"
      by (auto simp: opened_def set_starts)
    then have "ev_start g j \<in> set (lane_events g members)" by (simp add: evs)
    then have l: "lasting g j" by (auto simp: set_lane_events split: if_splits)
    have "ev_end g j \<in> set (ev # post)" using mem(2) [OF j(1) l] j(3) unfolding evs by simp
    then show "covers g members (ev_time (last pre)) (ev_time ev) j"
      using early [OF j(2)] late [of "ev_end g j"] j(1) by (simp add: covers_def)
  next
    assume c: "covers g members (ev_time (last pre)) (ev_time ev) j"
    then have l: "lasting g j" using less(1) by (auto simp: covers_def lasting_def)
    have j: "j \<in> set members" using c by (simp add: covers_def)
    have "ev_start g j \<in> set pre" using pre [OF mem(1) [OF j l]] c by (simp add: covers_def)
    moreover have "ev_end g j \<notin> set pre" using pre [OF mem(2) [OF j l]] c less(1) by (auto simp: covers_def)
    ultimately show "j \<in> set (opened g members pre)" using j by (simp add: opened_def set_starts)
  qed
qed

lemma owner_of_top:
  assumes evs: "lane_events g members = pre @ ev # post" and less: "ev_time (last pre) < ev_time ev" "pre \<noteq> []"
    and fwd: "forward g members"
  shows "owner_ok g members (ev_time (last pre)) (ev_time ev) (top_of (opened g members pre))"
proof (cases "opened g members pre = []")
  case True
  then show ?thesis using opened_covers [OF assms] by (simp add: owner_ok_def top_of_def)
next
  case False
  have "sorted pre" using sorted_lane_events [of g members] evs by (simp add: sorted_append)
  from last_opened [OF this] show ?thesis
    using opened_covers [OF assms] False ev_start_le by (simp add: owner_ok_def top_of_def) (metis last_in_set)
qed

text \<open>How the open spans change with the next event.\<close>

lemma opened_snoc:
  assumes evs: "lane_events g members = pre @ ev # post" and dist: "distinct members" and fwd: "forward g members"
    and j: "j \<in> set members"
  shows "ev = ev_start g j \<Longrightarrow> opened g members (pre @ [ev]) = opened g members pre @ [j]"
    and "ev = ev_end g j \<Longrightarrow> opened g members (pre @ [ev]) = filter (\<lambda>i. i \<noteq> j) (opened g members pre)"
    and "ev = ev_zero g j \<Longrightarrow> opened g members (pre @ [ev]) = opened g members pre"
proof -
  have sorted: "sorted (pre @ ev # post)" using sorted_lane_events [of g members] evs by simp
  show "opened g members (pre @ [ev]) = opened g members pre @ [j]" if s: "ev = ev_start g j"
  proof -
    have "ev \<in> set (lane_events g members)" by (simp add: evs)
    then have l: "lasting g j" by (auto simp: s set_lane_events split: if_splits)
    have "ev_end g j \<notin> set pre"
    proof
      assume "ev_end g j \<in> set pre"
      then have "ev_end g j \<le> ev_start g j" using sorted s by (auto simp: sorted_append)
      then show False using l by (auto simp: ev_end_def ev_start_def lasting_def)
    qed
    then show ?thesis using j by (simp add: opened_def s cong: filter_cong)
  qed
  show "opened g members (pre @ [ev]) = filter (\<lambda>i. i \<noteq> j) (opened g members pre)" if "ev = ev_end g j"
    by (auto simp: opened_def that intro: filter_cong)
  show "opened g members (pre @ [ev]) = opened g members pre" if "ev = ev_zero g j"
    by (simp add: opened_def that)
qed

lemma distinct_opened:
  assumes "lane_events g members = pre @ post" "distinct members"
  shows "distinct (opened g members pre)"
proof -
  have "distinct pre" using distinct_lane_events [OF assms(2), of g] assms(1) by simp
  then have "distinct (map (ev_start g) (starts g members pre))" unfolding starts_filter by simp
  then show ?thesis by (simp add: opened_def distinct_map)
qed

lemma close_span:
  assumes "distinct opn"
  shows "(if opn \<noteq> [] \<and> last opn = j then butlast opn else if j \<in> set opn then remove1 j opn else opn) = filter (\<lambda>i. i \<noteq> j) opn"
  using assms
proof -
  have f: "filter (\<lambda>i. i \<noteq> j) opn = removeAll j opn" by (induction opn) auto
  show ?thesis
  proof (cases "opn \<noteq> [] \<and> last opn = j")
    case True
    then obtain ys where ys: "opn = ys @ [j]" by (metis append_butlast_last_id)
    then show ?thesis using assms unfolding f by simp
  next
    case False
    then show ?thesis using assms unfolding f by (auto simp: distinct_remove1_removeAll)
  qed
qed

section \<open>The loop over a lane\<close>

definition ends :: "edge \<Rightarrow> nat \<times> nat" where
  "ends x = (e_src x, e_dst x)"

text \<open>The edges added so far form a chain over the nodes so far.\<close>

definition chained :: "event_graph \<Rightarrow> nat list \<Rightarrow> nat list \<Rightarrow> event_graph \<Rightarrow> bool" where
  "chained g members ns h \<longleftrightarrow> lane_base g h \<and>
     (\<exists>es. g_edges h = g_edges g @ es \<and> map ends es = zip ns (tl ns) \<and> (\<forall>x\<in>set es. lane_edge_ok g members x))"

definition last_node :: "nat list \<Rightarrow> nat option" where
  "last_node ns = (if ns = [] then None else Some (last ns))"

lemma last_node_snoc [simp]: "last_node (ns @ [nd]) = Some nd"
  by (simp add: last_node_def)

lemma zip_tl_snoc: "ns \<noteq> [] \<Longrightarrow> zip (ns @ [nd]) (tl ns @ [nd]) = zip ns (tl ns) @ [(last ns, nd)]"
  by (induction ns) (auto simp: neq_Nil_conv)

lemma chain_add:
  assumes ch: "chained g members ns h"
    and time: "ns \<noteq> [] \<Longrightarrow> time_of g (last ns) \<le> time_of g nd"
    and owner: "ns \<noteq> [] \<Longrightarrow> time_of g (last ns) < time_of g nd \<Longrightarrow>
      owner_ok g members (time_of g (last ns)) (time_of g nd) (top_of opn)"
  shows "chained g members (ns @ [nd]) (lane_add opn (last_node ns) nd h)"
proof (cases "ns = []")
  case True
  then show ?thesis using ch by (simp add: chained_def last_node_def)
next
  case False
  from ch obtain es where base: "lane_base g h" and es: "g_edges h = g_edges g @ es" "map ends es = zip ns (tl ns)"
    "\<forall>x\<in>set es. lane_edge_ok g members x" unfolding chained_def by blast
  from lane_add_Some [OF base time [OF False], of opn] obtain x where
    x: "g_edges (lane_add opn (Some (last ns)) nd h) = g_edges h @ [x]" "e_src x = last ns" "e_dst x = nd" "e_kind x = Thread"
      "e_owner x = top_of opn" "e_mode x = owner_mode g (top_of opn)" "e_d x = time_of g nd - time_of g (last ns)"
    and base': "lane_base g (lane_add opn (Some (last ns)) nd h)" by blast
  have "lane_edge_ok g members x" using x time [OF False] owner [OF False] by (simp add: lane_edge_ok_def)
  then show ?thesis using es x base' False unfolding chained_def last_node_def
    by (intro conjI exI [of _ "es @ [x]"]) (simp_all add: zip_tl_snoc ends_def)
qed

definition nodes_of :: "lane_event list \<Rightarrow> nat list" where
  "nodes_of evs = concat (map ev_nodes evs)"

lemma nodes_of_simps [simp]: "nodes_of [] = []" "nodes_of (xs @ ys) = nodes_of xs @ nodes_of ys" "nodes_of [ev] = ev_nodes ev"
  by (simp_all add: nodes_of_def)

lemma last_nodes_of:
  assumes "evs \<noteq> []"
  shows "nodes_of evs \<noteq> [] \<and> last (nodes_of evs) \<in> set (ev_nodes (last evs))"
proof -
  obtain xs ev where "evs = xs @ [ev]" using assms by (metis append_butlast_last_id)
  moreover have "ev_nodes ev \<noteq> []" by (simp add: ev_nodes_def split: prod.split)
  ultimately show ?thesis by simp
qed

definition lane_inv :: "event_graph \<Rightarrow> nat list \<Rightarrow> lane_event list \<Rightarrow> lane_state \<Rightarrow> bool" where
  "lane_inv g members pre s \<longleftrightarrow> (case s of (opn, prev, h) \<Rightarrow>
     opn = opened g members pre \<and> prev = last_node (nodes_of pre) \<and> chained g members (nodes_of pre) h)"

lemma chained_improper [simp]: "chained g members ns (h\<lparr>g_improper_nesting := k\<rparr>) = chained g members ns h"
  by (simp add: chained_def)

lemma lane_step_inv:
  assumes evs: "lane_events g members = pre @ ev # post" and dist: "distinct members" and fwd: "forward g members"
    and inv: "lane_inv g members pre s"
  shows "lane_inv g members (pre @ [ev]) (lane_step ev s)"
proof -
  obtain h where s: "s = (opened g members pre, last_node (nodes_of pre), h)" and ch: "chained g members (nodes_of pre) h"
    using inv by (cases s) (auto simp: lane_inv_def)
  let ?opn = "opened g members pre"
  have ev: "ev \<in> set (lane_events g members)" by (simp add: evs)
  have tm: "time_of g (last (nodes_of pre)) = ev_time (last pre) \<and> ev_time (last pre) \<le> ev_time ev" if "nodes_of pre \<noteq> []"
  proof -
    have ne: "pre \<noteq> []" using that by auto
    have "last pre \<in> set (lane_events g members)" using ne by (simp add: evs)
    from ev_nodes_time [OF fwd this] last_nodes_of [OF ne] have "time_of g (last (nodes_of pre)) = ev_time (last pre)" by blast
    moreover have "last pre \<le> ev" using sorted_lane_events [of g members] ne unfolding evs by (auto simp: sorted_append)
    ultimately show ?thesis by (cases "last pre"; cases ev) (auto simp: ev_time_def)
  qed
  have chain: "chained g members (nodes_of pre @ [nd]) (lane_add ?opn (last_node (nodes_of pre)) nd h)" if "time_of g nd = ev_time ev" for nd
  proof (rule chain_add [OF ch])
    show "time_of g (last (nodes_of pre)) \<le> time_of g nd" if "nodes_of pre \<noteq> []"
      using tm [OF that] \<open>time_of g nd = ev_time ev\<close> by simp
    show "owner_ok g members (time_of g (last (nodes_of pre))) (time_of g nd) (top_of ?opn)"
      if "nodes_of pre \<noteq> []" "time_of g (last (nodes_of pre)) < time_of g nd"
    proof -
      have "pre \<noteq> []" using that(1) by auto
      then show ?thesis using owner_of_top [OF evs _ _ fwd] tm [OF that(1)] that(2) \<open>time_of g nd = ev_time ev\<close> by simp
    qed
  qed
  from ev consider j where "j \<in> set members" "ev = ev_start g j" | j where "j \<in> set members" "ev = ev_end g j"
    | j where "j \<in> set members" "ev = ev_zero g j" "\<not> lasting g j"
    by (auto simp: set_lane_events split: if_splits)
  then show ?thesis
  proof cases
    case 1
    then show ?thesis using chain [of "2 * j"] opened_snoc(1) [OF evs dist fwd 1]
      by (simp add: lane_inv_def s lane_node_def Let_def)
  next
    case 2
    have "fst (lane_step ev s) = (if ?opn \<noteq> [] \<and> last ?opn = j then butlast ?opn else if j \<in> set ?opn then remove1 j ?opn else ?opn)"
      and "fst (snd (lane_step ev s)) = Some (2 * j + 1)"
      by (simp_all add: 2(2) s lane_node_def Let_def)
    moreover have "chained g members (nodes_of pre @ [2 * j + 1]) (snd (snd (lane_step ev s)))"
      using chain [of "2 * j + 1"] by (auto simp: 2(2) s lane_node_def Let_def)
    ultimately show ?thesis using opened_snoc(2) [OF evs dist fwd 2]
      unfolding close_span [OF distinct_opened [OF evs dist]] by (simp add: lane_inv_def 2(2) prod.case_eq_if)
  next
    case 3
    have "time_of g (2 * j) = time_of g (2 * j + 1)" using 3 fwd by (auto simp: forward_def lasting_def)
    then have "chained g members ((nodes_of pre @ [2 * j]) @ [2 * j + 1])
        (lane_add ?opn (last_node (nodes_of pre @ [2 * j])) (2 * j + 1) (lane_add ?opn (last_node (nodes_of pre)) (2 * j) h))"
      using 3(2) by (intro chain_add [OF chain]) simp_all
    then show ?thesis using opened_snoc(3) [OF evs dist fwd 3(1,2)]
      by (simp add: lane_inv_def s 3(2) lane_instant_def last_node_def)
  qed
qed

lemma add_thread_lane_chain:
  assumes "distinct members" "forward g members"
  shows "chained g members (lane_nodes g members) (add_thread_lane members g)"
proof -
  have "lane_inv g members pre (fold lane_step pre ([], None, g))" if "lane_events g members = pre @ post" for pre post
    using that
  proof (induction pre arbitrary: post rule: rev_induct)
    case Nil
    show ?case by (simp add: lane_inv_def opened_def last_node_def chained_def lane_base_def)
  next
    case (snoc ev pre)
    then show ?case using lane_step_inv [of g members pre ev post] assms by simp
  qed
  from this [of "lane_events g members" "[]"] show ?thesis
    by (simp add: lane_inv_def add_thread_lane_def lane_nodes_def nodes_of_def case_prod_unfold)
qed

section \<open>What the chain covers\<close>

lemma set_lane_nodes: "set (lane_nodes g members) = (\<Union>j\<in>set members. {2 * j, 2 * j + 1})"
  unfolding lane_nodes_def set_concat set_map set_lane_events by (auto split: if_splits)

lemma node_split: "v \<in> {2 * j, 2 * j + 1} \<longleftrightarrow> v div 2 = (j :: nat)"
  by auto

lemma lane_nodes_div: "v \<in> set (lane_nodes g members) \<longleftrightarrow> v div 2 \<in> set members"
  unfolding set_lane_nodes UN_iff node_split by simp

lemma distinct_lane_nodes:
  assumes "distinct members"
  shows "distinct (lane_nodes g members)"
proof -
  have "distinct (concat (map ev_nodes evs))" if "distinct evs" "set evs \<subseteq> set (lane_events g members)" for evs
    using that
  proof (induction evs)
    case (Cons ev evs)
    have "distinct (ev_nodes ev)" using Cons.prems(2) by (auto simp: set_lane_events split: if_splits)
    moreover have "set (ev_nodes ev) \<inter> set (ev_nodes ev') = {}" if "ev' \<in> set evs" for ev'
    proof -
      have "ev \<noteq> ev'" "ev \<in> set (lane_events g members)" "ev' \<in> set (lane_events g members)"
        using that Cons.prems by auto
      then show ?thesis by (auto simp: set_lane_events split: if_splits) presburger+
    qed
    ultimately have "set (ev_nodes ev) \<inter> set (concat (map ev_nodes evs)) = {}" "distinct (ev_nodes ev)"
      unfolding set_concat set_map by blast+
    then show ?case using Cons by simp
  qed simp
  then show ?thesis unfolding lane_nodes_def using distinct_lane_events [OF assms, of g] by blast
qed

lemma telescope: "ns \<noteq> [] \<Longrightarrow> sum_list (map (\<lambda>(u, v). f v - (f u :: int)) (zip ns (tl ns))) = f (last ns) - f (hd ns)"
proof (induction ns)
  case (Cons n ns)
  then show ?case by (cases ns) auto
qed simp

lemma lane_nodes_sorted:
  assumes "forward g members"
  shows "sorted (map (time_of g) (lane_nodes g members))"
proof -
  have "sorted (map (time_of g) (nodes_of evs))" if "sorted evs" "set evs \<subseteq> set (lane_events g members)" for evs
    using that
  proof (induction evs rule: rev_induct)
    case (snoc ev evs)
    have le: "ev_time x \<le> ev_time ev" if "x \<in> set evs" for x
    proof -
      have "x \<le> ev" using snoc.prems that by (simp add: sorted_append)
      then show ?thesis by (cases x; cases ev) (auto simp: ev_time_def)
    qed
    have t: "time_of g v = ev_time x" if "x \<in> set (evs @ [ev])" "v \<in> set (ev_nodes x)" for x v
      using ev_nodes_time [OF assms, of x v] snoc.prems that by auto
    have "sorted (map (time_of g) (ev_nodes ev))"
      using t [of ev] by (auto simp: ev_nodes_def split: prod.splits)
    moreover have "time_of g u \<le> time_of g v" if uv: "u \<in> set (nodes_of evs)" "v \<in> set (ev_nodes ev)" for u v
    proof -
      obtain x where "x \<in> set evs" "u \<in> set (ev_nodes x)"
        using uv(1) unfolding nodes_of_def set_concat set_map by blast
      then show ?thesis using t [of x u] t [of ev v] le [of x] uv(2) by simp
    qed
    ultimately show ?case using snoc by (auto simp: sorted_append)
  qed simp
  from this [of "lane_events g members"] show ?thesis using sorted_lane_events by (simp add: lane_nodes_def nodes_of_def)
qed

lemma lane_extent:
  assumes "members \<noteq> []" "forward g members"
  shows "time_of g (hd (lane_nodes g members)) = Min ((\<lambda>j. time_of g (2 * j)) ` set members)"
    and "time_of g (last (lane_nodes g members)) = Max ((\<lambda>j. time_of g (2 * j + 1)) ` set members)"
proof -
  let ?ns = "lane_nodes g members"
  have mem: "2 * j \<in> set ?ns" "2 * j + 1 \<in> set ?ns" if "j \<in> set members" for j using that by (auto simp: set_lane_nodes)
  have ne: "?ns \<noteq> []" using mem(1) [of "hd members"] assms(1) by (cases ?ns) auto
  note s = lane_nodes_sorted [OF assms(2)]
  have lo: "time_of g (hd ?ns) \<le> time_of g v" if "v \<in> set ?ns" for v
    using s ne that by (cases ?ns) auto
  have hi: "time_of g v \<le> time_of g (last ?ns)" if "v \<in> set ?ns" for v
    using sorted_le_last [OF s, of "time_of g v"] that ne by (simp add: last_map)
  obtain i where i: "i \<in> set members" "hd ?ns \<in> {2 * i, 2 * i + 1}" using hd_in_set [OF ne] by (auto simp: set_lane_nodes)
  obtain k where k: "k \<in> set members" "last ?ns \<in> {2 * k, 2 * k + 1}" using last_in_set [OF ne] by (auto simp: set_lane_nodes)
  have fwd: "time_of g (2 * j) \<le> time_of g (2 * j + 1)" if "j \<in> set members" for j using assms(2) that by (simp add: forward_def)
  have "time_of g (hd ?ns) = time_of g (2 * i)"
    using i lo [OF mem(1) [OF i(1)]] fwd [OF i(1)] by auto
  then show "time_of g (hd ?ns) = Min ((\<lambda>j. time_of g (2 * j)) ` set members)"
    using i(1) lo mem(1) by (intro Min_eqI [symmetric]) auto
  have "time_of g (last ?ns) = time_of g (2 * k + 1)"
    using k hi [OF mem(2) [OF k(1)]] fwd [OF k(1)] by auto
  then show "time_of g (last ?ns) = Max ((\<lambda>j. time_of g (2 * j + 1)) ` set members)"
    using k(1) hi mem(2) by (intro Max_eqI [symmetric]) auto
qed

lemma thread_lane_spec:
  assumes "distinct members" "members \<noteq> []" "forward g members"
  obtains es where "g_edges (add_thread_lane members g) = g_edges g @ es"
    "map ends es = zip (lane_nodes g members) (tl (lane_nodes g members))"
    "\<forall>x\<in>set es. lane_edge_ok g members x"
    "sum_list (map e_d es) = Max ((\<lambda>j. time_of g (2 * j + 1)) ` set members) - Min ((\<lambda>j. time_of g (2 * j)) ` set members)"
proof -
  let ?ns = "lane_nodes g members"
  from add_thread_lane_chain [OF assms(1,3)] obtain es where es: "g_edges (add_thread_lane members g) = g_edges g @ es"
    "map ends es = zip ?ns (tl ?ns)" "\<forall>x\<in>set es. lane_edge_ok g members x" unfolding chained_def by blast
  have ne: "?ns \<noteq> []" using assms(2) set_lane_nodes [of g members] by (cases members) auto
  have "map e_d es = map (\<lambda>(u, v). time_of g v - time_of g u) (map ends es)"
    using es(3) by (auto simp: lane_edge_ok_def ends_def)
  then have "sum_list (map e_d es) = sum_list (map (\<lambda>(u, v). time_of g v - time_of g u) (map ends es))" by (rule arg_cong)
  also have "\<dots> = time_of g (last ?ns) - time_of g (hd ?ns)" unfolding es(2) by (rule telescope [OF ne])
  finally have "sum_list (map e_d es) = time_of g (last ?ns) - time_of g (hd ?ns)" .
  with es that show thesis unfolding lane_extent [OF assms(2,3)] by blast
qed

end
