(* ===== verification/Assembled.thy ===== *)
theory Assembled
  imports Assembly_Facts
begin

text \<open>
  The whole assembly of an event graph (\<^verbatim>\<open>src/src/analysis/cp_model.py\<close>): from a well-formed
  skeleton it gives a well-formed graph with a topological order, bounds of required time
  within the durations, and a backward walk along a lane that always ends.
\<close>

section \<open>Well-formed input\<close>

text \<open>What \<open>_read_spans\<close> gives: arrays of one length, lanes of host spans without repetition.\<close>

definition skeleton_ok :: "skeleton \<Rightarrow> bool" where
  "skeleton_ok sk \<longleftrightarrow> length (sk_t sk) = 2 * sk_n sk \<and> length (sk_device sk) = sk_n sk \<and>
     length (sk_domain sk) = sk_n sk \<and> distinct (concat (sk_lanes sk)) \<and>
     (\<forall>j\<in>set (concat (sk_lanes sk)). j < sk_n sk \<and> \<not> sk_device sk ! j) \<and>
     (\<forall>j<sk_n sk. sk_t sk ! (2 * j) \<le> sk_t sk ! (2 * j + 1))"

definition sedges_ok :: "skeleton \<Rightarrow> sedge list \<Rightarrow> bool" where
  "sedges_ok sk edges \<longleftrightarrow> (\<forall>x\<in>set edges. s_src x < sk_n sk \<and> s_dst x < sk_n sk)"

lemma skeleton_graph_ok: "skeleton_ok sk \<Longrightarrow> graph_ok (skeleton_graph sk)"
  by (simp add: skeleton_graph_def new_graph_def graph_ok_def skeleton_ok_def)

lemma skeleton_graph_fields [simp]:
  "g_n (skeleton_graph sk) = sk_n sk" "g_t (skeleton_graph sk) = sk_t sk" "g_edges (skeleton_graph sk) = []"
  "g_device (skeleton_graph sk) = sk_device sk" "g_domain (skeleton_graph sk) = sk_domain sk"
  "g_dropped_pairs (skeleton_graph sk) = []"
  by (simp_all add: skeleton_graph_def new_graph_def)

section \<open>Lanes keep the graph\<close>

definition lane_state_ok :: "event_graph \<Rightarrow> lane_state \<Rightarrow> bool" where
  "lane_state_ok g s \<longleftrightarrow> (case s of (opn, prev, h) \<Rightarrow>
     graph_ok h \<and> same_base g h \<and> (case prev of None \<Rightarrow> True | Some p \<Rightarrow> p < 2 * g_n g))"

lemma lane_add_ok:
  assumes "graph_ok h" "same_base g h" "case prev of None \<Rightarrow> True | Some p \<Rightarrow> p < 2 * g_n g" "nd < 2 * g_n g"
  shows "graph_ok (lane_add opn prev nd h)" "same_base g (lane_add opn prev nd h)"
proof -
  show "graph_ok (lane_add opn prev nd h)"
    using assms same_baseD(1) [OF assms(2)]
    by (auto simp: lane_add_def Let_def intro!: add_edge_ok split: option.splits)
  have "same_base h (lane_add opn prev nd h)" by (auto simp: lane_add_def Let_def split: option.splits)
  with assms(2) show "same_base g (lane_add opn prev nd h)" by (rule same_base_trans)
qed

lemma lane_step_ok:
  assumes "lane_state_ok g s" "ev \<in> set (lane_events g members)" "\<forall>j\<in>set members. j < g_n g"
  shows "lane_state_ok g (lane_step ev s)"
proof -
  obtain opn prev h where s: "s = (opn, prev, h)" by (cases s) auto
  note ok = assms(1) [unfolded lane_state_ok_def s prod.case]
  have node: "lane_state_ok g (lane_node j nd s)" if "nd < 2 * g_n g" for j nd
    using lane_add_ok [of h g prev nd opn] ok that by (auto simp: lane_state_ok_def lane_node_def s Let_def)
  have inst: "lane_state_ok g (lane_instant j s)" if "j < g_n g" for j
    using lane_add_ok [of h g prev "2 * j" opn] ok that
      lane_add_ok [of "lane_add opn prev (2 * j) h" g "Some (2 * j)" "2 * j + 1" opn]
    by (simp add: lane_state_ok_def lane_instant_def s)
  have "j < g_n g \<Longrightarrow> 2 * j < 2 * g_n g \<and> 2 * j + 1 < 2 * g_n g" for j by linarith
  with assms(2,3) node inst show ?thesis by (auto simp: set_lane_events split: if_splits)
qed

lemma lane_add_base: "same_base h (lane_add opn prev nd h)"
  by (simp add: lane_add_def Let_def split: option.split)

lemma lane_step_base: "same_base (snd (snd s)) (snd (snd (lane_step ev s)))"
proof -
  obtain opn prev h where s: "s = (opn, prev, h)" by (cases s) auto
  have "same_base h (lane_add opn p' nd' (lane_add opn prev nd h))" for p' nd' nd
    by (rule same_base_trans [OF lane_add_base lane_add_base])
  then show ?thesis using lane_add_base [of h opn prev]
    by (cases ev) (auto simp add: s lane_step_def lane_node_def lane_instant_def Let_def)
qed

lemma add_thread_lane_keeps:
  assumes "\<forall>j\<in>set members. j < g_n g"
  shows "keeps (add_thread_lane members) g"
proof -
  have base: "same_base g (snd (snd (fold lane_step evs s)))" if "same_base g (snd (snd s))" for evs s
    using that
  proof (induction evs arbitrary: s)
    case (Cons ev evs)
    have "same_base (snd (snd s)) (snd (snd (lane_step ev s)))" by (rule lane_step_base)
    then show ?case using Cons same_base_trans by simp
  qed simp
  have "lane_state_ok g (fold lane_step evs s)" if "lane_state_ok g s" "set evs \<subseteq> set (lane_events g members)" for evs s
    using that lane_step_ok [OF _ _ assms] by (induction evs arbitrary: s) auto
  from this [of "([], None, g)" "lane_events g members"] base [of "([], None, g)" "lane_events g members"]
  show ?thesis by (auto simp: keeps_def add_thread_lane_def lane_state_ok_def split: prod.splits)
qed

lemma add_device_work_keeps: "j < g_n g \<Longrightarrow> keeps (add_device_work j) g"
  by (auto simp: keeps_def add_device_work_def intro!: add_edge_ok)

section \<open>Lane edges are ranked by their index\<close>

definition lane_ranked :: "nat set \<Rightarrow> edge list \<Rightarrow> bool" where
  "lane_ranked S es \<longleftrightarrow>
     (\<forall>e<length es. e_mode (es ! e) \<in> lane_modes \<longrightarrow> e_src (es ! e) div 2 \<in> S \<and> e_dst (es ! e) div 2 \<in> S) \<and>
     (\<forall>e<length es. \<forall>e'<length es. e_mode (es ! e) \<in> lane_modes \<longrightarrow> e_mode (es ! e') \<in> lane_modes \<longrightarrow>
        e_dst (es ! e') = e_src (es ! e) \<longrightarrow> e' < e)"

lemma lane_ranked_append:
  assumes old: "lane_ranked S es" and new: "lane_ranked T fs" and "S \<inter> T = {}"
  shows "lane_ranked (S \<union> T) (es @ fs)"
  unfolding lane_ranked_def
proof (intro conjI allI impI)
  fix e assume e: "e < length (es @ fs)" "e_mode ((es @ fs) ! e) \<in> lane_modes"
  have span: "e_src ((es @ fs) ! e) div 2 \<in> (if e < length es then S else T) \<and>
      e_dst ((es @ fs) ! e) div 2 \<in> (if e < length es then S else T)"
    if "e < length (es @ fs)" "e_mode ((es @ fs) ! e) \<in> lane_modes" for e
    using that old new by (auto simp: nth_append lane_ranked_def)
  then show "e_src ((es @ fs) ! e) div 2 \<in> S \<union> T" "e_dst ((es @ fs) ! e) div 2 \<in> S \<union> T"
    using span [OF e] by (auto split: if_splits)
  fix e' assume e': "e' < length (es @ fs)" "e_mode ((es @ fs) ! e') \<in> lane_modes" "e_dst ((es @ fs) ! e') = e_src ((es @ fs) ! e)"
  from span [OF e] span [OF e'(1,2)] e'(3) assms(3) have "e < length es \<longleftrightarrow> e' < length es" by (auto split: if_splits)
  then show "e' < e"
  proof (cases "e < length es")
    case True
    then show ?thesis using old e e' \<open>e < length es \<longleftrightarrow> e' < length es\<close> by (auto simp: lane_ranked_def nth_append)
  next
    case False
    then have "e' - length es < e - length es"
      using new e e' \<open>e < length es \<longleftrightarrow> e' < length es\<close> by (auto simp: lane_ranked_def nth_append)
    then show ?thesis by simp
  qed
qed

lemma lane_ranked_chain:
  assumes "map ends fs = zip ns (tl ns)" "distinct ns" "\<forall>v\<in>set ns. v div 2 \<in> T"
  shows "lane_ranked T fs"
proof -
  have len: "length fs = length ns - 1" using arg_cong [OF assms(1), of length] by simp
  have e: "e_src (fs ! i) = ns ! i \<and> e_dst (fs ! i) = ns ! Suc i" if "i < length fs" for i
  proof -
    have "ends (fs ! i) = zip ns (tl ns) ! i" using that assms(1) by (metis nth_map)
    also have "\<dots> = (ns ! i, ns ! Suc i)" using that len by (simp add: nth_tl)
    finally show ?thesis by (simp add: ends_def)
  qed
  show ?thesis unfolding lane_ranked_def
  proof (intro conjI allI impI)
    fix i assume i: "i < length fs"
    show "e_src (fs ! i) div 2 \<in> T" "e_dst (fs ! i) div 2 \<in> T" using e [OF i] i len assms(3) by auto
    fix k assume k: "k < length fs" "e_dst (fs ! k) = e_src (fs ! i)"
    then have "ns ! Suc k = ns ! i" using e [OF i] e [OF k(1)] by simp
    then have "Suc k = i" using assms(2) i k len by (simp add: nth_eq_iff_index_eq)
    then show "k < i" by simp
  qed
qed

lemma lane_ranked_empty: "\<forall>x\<in>set es. e_mode x \<notin> lane_modes \<Longrightarrow> lane_ranked {} es"
  by (auto simp: lane_ranked_def)

definition deps_only :: "event_graph \<Rightarrow> bool" where
  "deps_only g \<longleftrightarrow> (\<forall>x\<in>set (g_edges g). e_mode x \<notin> lane_modes)"

lemma add_deps_only: "deps_only g \<Longrightarrow> m \<notin> lane_modes \<Longrightarrow> deps_only (add u v m k p c ow tol g)"
  by (auto simp: deps_only_def add_edge_def Let_def)

lemma dep_deps_only [simp]: "deps_only g \<Longrightarrow> deps_only (dep u v k p c tol g)"
  unfolding dep_def by (rule add_deps_only) (simp_all add: lane_modes_def)

lemma add_dependency_edges_deps_only: "deps_only g \<Longrightarrow> deps_only (add_dependency_edges sk edges g)"
proof -
  have upd: "deps_only (h\<lparr>g_unmapped := a\<rparr>) = deps_only h" "deps_only (h\<lparr>g_origin := b\<rparr>) = deps_only h"
    "deps_only (h\<lparr>g_skipped := c\<rparr>) = deps_only h" for h a b c by (simp_all add: deps_only_def)
  have seq: "deps_only (add_sequential v u c b sk h)" if "deps_only h" for v u c b h
    using that add_deps_only [OF that, of IDLE] by (simp add: add_sequential_def Let_def upd lane_modes_def)
  have exp: "deps_only (add_explicit v u c b h)" if "deps_only h" for v u c b h
  proof -
    have "deps_only (dep x y k p c 0 (dep x' y' k' p' c 0 h))" for x y k p x' y' k' p' by (intro dep_deps_only that)
    then show ?thesis using that by (simp add: add_explicit_def Let_def)
  qed
  have one: "deps_only (add_dependency_edge sk x h)" if "deps_only h" for x h
    using that seq exp by (simp add: add_dependency_edge_def Let_def split: skind.split)
  have "deps_only (add_dependency_step sk ix h)" if "deps_only h" for ix h
    using one that by (simp add: add_dependency_step_def Let_def upd)
  then have "deps_only (fold (add_dependency_step sk) ixs h)" if "deps_only h" for ixs h
    using that by (induction ixs arbitrary: h) auto
  then show "deps_only g \<Longrightarrow> ?thesis" by (simp add: add_dependency_edges_def upd)
qed

text \<open>All lanes, one after the other, and the device intervals.\<close>

lemma lane_ranked_add_lane:
  assumes "lane_ranked S (g_edges g)" "distinct members" "forward g members" "S \<inter> set members = {}"
  shows "lane_ranked (S \<union> set members) (g_edges (add_thread_lane members g))"
proof -
  from add_thread_lane_chain [OF assms(2,3)] obtain es where es: "g_edges (add_thread_lane members g) = g_edges g @ es"
    "map ends es = zip (lane_nodes g members) (tl (lane_nodes g members))" unfolding chained_def by blast
  show ?thesis unfolding es(1)
    by (rule lane_ranked_append [OF assms(1) lane_ranked_chain [OF es(2) distinct_lane_nodes [OF assms(2)]] assms(4)])
       (simp add: lane_nodes_div)
qed

lemma forward_cong: "g_t h = g_t g \<Longrightarrow> forward h members = forward g members"
  by (simp add: forward_def)

lemma lane_ranked_lanes:
  assumes "lane_ranked S (g_edges g)" "distinct (concat lanes)" "\<forall>m\<in>set lanes. forward g m" "S \<inter> set (concat lanes) = {}"
    "\<forall>j\<in>set (concat lanes). j < g_n g"
  shows "lane_ranked (S \<union> set (concat lanes)) (g_edges (fold add_thread_lane lanes g))"
  using assms
proof (induction lanes arbitrary: g S)
  case (Cons m lanes)
  have b: "same_base g (add_thread_lane m g)" using add_thread_lane_keeps [of m g] Cons.prems(5) by (simp add: keeps_def)
  have r: "lane_ranked (S \<union> set m) (g_edges (add_thread_lane m g))"
    by (rule lane_ranked_add_lane) (use Cons.prems in auto)
  have "lane_ranked ((S \<union> set m) \<union> set (concat lanes)) (g_edges (fold add_thread_lane lanes (add_thread_lane m g)))"
  proof (rule Cons.IH [OF r])
    show "distinct (concat lanes)" using Cons.prems(2) by simp
    show "\<forall>k\<in>set lanes. forward (add_thread_lane m g) k"
      using Cons.prems(3) forward_cong [OF same_baseD(2) [OF b]] by simp
    show "(S \<union> set m) \<inter> set (concat lanes) = {}" using Cons.prems(2,4) by auto
    show "\<forall>j\<in>set (concat lanes). j < g_n (add_thread_lane m g)"
      using Cons.prems(5) same_baseD(1) [OF b] by simp
  qed
  then show ?case by (simp add: Un_assoc)
qed simp

lemma lane_ranked_device:
  assumes "lane_ranked S (g_edges g)" "j \<notin> S"
  shows "lane_ranked (insert j S) (g_edges (add_device_work j g))"
proof -
  have mono: "lane_ranked (insert j S) es" if "lane_ranked S es" for es using that by (auto simp: lane_ranked_def)
  have one: "lane_ranked {j} [x]" if "e_src x = 2 * j" "e_dst x = 2 * j + 1" for x using that by (auto simp: lane_ranked_def)
  have "lane_ranked (S \<union> {j}) (g_edges g @ [x])" if "e_src x = 2 * j" "e_dst x = 2 * j + 1" for x
    using assms(2) by (intro lane_ranked_append [OF assms(1) one [OF that]]) simp
  then show ?thesis using mono assms(1) by (auto simp: add_device_work_def add_edge_def Let_def)
qed

lemma lane_ranked_devices:
  assumes "lane_ranked S (g_edges g)" "distinct js" "\<forall>j\<in>set js. g_device g ! j \<longrightarrow> j \<notin> S" "\<forall>j\<in>set js. j < g_n g"
  shows "\<exists>T. lane_ranked T (g_edges (fold add_device_work js g))"
  using assms
proof (induction js arbitrary: g S)
  case (Cons j js)
  show ?case
  proof (cases "g_device g ! j")
    case True
    have b: "same_base g (add_device_work j g)" using add_device_work_keeps [of j g] Cons.prems by (simp add: keeps_def)
    have "lane_ranked (insert j S) (g_edges (add_device_work j g))"
      using lane_ranked_device [OF Cons.prems(1)] True Cons.prems(3) by simp
    from Cons.IH [OF this] Cons.prems same_baseD [OF b] show ?thesis by auto
  next
    case False
    then have "add_device_work j g = g" by (simp add: add_device_work_def)
    then show ?thesis using Cons by simp
  qed
qed auto

section \<open>The graph with its lanes\<close>

lemma keeps_base: "keeps f g \<Longrightarrow> same_base g (f g)"
  by (simp add: keeps_def)

lemma keeps_ok: "keeps f g \<Longrightarrow> graph_ok g \<Longrightarrow> graph_ok (f g)"
  by (simp add: keeps_def)

lemma lanes_graph_facts:
  assumes sk: "skeleton_ok sk" and ed: "sedges_ok sk edges"
  shows "graph_ok (lanes_graph sk edges)" "same_base (skeleton_graph sk) (lanes_graph sk edges)"
    "\<exists>T. lane_ranked T (g_edges (lanes_graph sk edges))"
proof -
  let ?g0 = "skeleton_graph sk"
  let ?g1 = "add_dependency_edges sk edges ?g0"
  let ?g2 = "mark_gated ?g1"
  let ?g3 = "fold add_thread_lane (sk_lanes sk) ?g2"
  let ?S = "set (concat (sk_lanes sk))"
  have k1: "keeps (add_dependency_edges sk edges) ?g0"
    using ed by (intro add_dependency_edges_keeps) (simp add: sedges_ok_def)
  have b2: "same_base ?g0 ?g2" by (rule same_base_trans [OF keeps_base [OF k1] keeps_base [OF mark_gated_keeps]])
  have o2: "graph_ok ?g2" by (rule keeps_ok [OF mark_gated_keeps keeps_ok [OF k1 skeleton_graph_ok [OF sk]]])
  have lanes: "\<forall>j\<in>?S. j < g_n ?g2" using sk same_baseD(1) [OF b2] by (simp add: skeleton_ok_def)
  have k3: "keeps (fold add_thread_lane (sk_lanes sk)) ?g2"
    by (rule fold_keeps, rule add_thread_lane_keeps) (use lanes same_baseD(1) in fastforce)
  note b3 = same_base_trans [OF b2 keeps_base [OF k3]]
  have k4: "keeps (fold add_device_work [0..<sk_n sk]) ?g3"
    by (rule fold_keeps, rule add_device_work_keeps) (use same_baseD(1) [OF b3] same_baseD(1) in auto)
  show "graph_ok (lanes_graph sk edges)" "same_base ?g0 (lanes_graph sk edges)"
    unfolding lanes_graph_def by (rule keeps_ok [OF k4 keeps_ok [OF k3 o2]], rule same_base_trans [OF b3 keeps_base [OF k4]])
  have "deps_only ?g1" by (rule add_dependency_edges_deps_only) (simp add: deps_only_def)
  then have "lane_ranked {} (g_edges ?g2)" by (auto simp: deps_only_def intro: lane_ranked_empty)
  then have "lane_ranked ({} \<union> ?S) (g_edges ?g3)"
  proof (rule lane_ranked_lanes)
    show "distinct (concat (sk_lanes sk))" using sk by (simp add: skeleton_ok_def)
    show "\<forall>m\<in>set (sk_lanes sk). forward ?g2 m"
      using sk same_baseD(2) [OF b2] by (auto simp: skeleton_ok_def forward_def)
  qed (use lanes in auto)
  then show "\<exists>T. lane_ranked T (g_edges (lanes_graph sk edges))"
    unfolding lanes_graph_def
  proof (rule lane_ranked_devices)
    show "\<forall>j\<in>set [0..<sk_n sk]. g_device ?g3 ! j \<longrightarrow> j \<notin> {} \<union> ?S"
      using sk same_baseD(4) [OF b3] by (auto simp: skeleton_ok_def)
  qed (use same_baseD(1) [OF b3] in auto)
qed

section \<open>Bounds of required time\<close>

lemma upper_bound_range: "edge_ok g x \<Longrightarrow> 0 \<le> upper_bound g x \<and> upper_bound g x \<le> e_d x"
  by (auto simp: upper_bound_def edge_ok_def Let_def max_def min_def)

definition bounds_within :: "event_graph \<Rightarrow> bool" where
  "bounds_within g \<longleftrightarrow> length (g_whi g) = length (g_edges g) \<and>
     (\<forall>e<length (g_edges g). 0 \<le> g_whi g ! e \<and> g_whi g ! e \<le> e_d (edge_of g e))"

lemma lane_in_SomeD:
  assumes "finished g" "v < 2 * g_n g" "lane_in g v = Some e"
  shows "e < length (g_edges g)" "e_dst (edge_of g e) = v" "e_mode (edge_of g e) \<in> lane_modes"
proof -
  have "e \<in> set (in_edges g v)" "e_mode (edge_of g e) \<in> lane_modes"
    using assms(3) unfolding lane_in_def find_Some_iff by auto
  then show "e < length (g_edges g)" "e_dst (edge_of g e) = v" "e_mode (edge_of g e) \<in> lane_modes"
    using in_edges_iff [OF assms(1,2)] by auto
qed

text \<open>Each step of the walk takes a lane edge of a smaller index, so it ends.\<close>

lemma tail_loop_ends:
  assumes g: "finished g" and rank: "lane_ranked T (g_edges g)" and b: "bounds_within g"
  shows "v < 2 * g_n g \<Longrightarrow> 0 < fuel \<Longrightarrow> (\<And>e. lane_in g v = Some e \<Longrightarrow> e + 1 < fuel) \<Longrightarrow> 0 \<le> acc \<Longrightarrow>
    \<exists>r. tail_loop fuel g j v acc = Some r \<and> 0 \<le> r"
proof (induction fuel arbitrary: v acc)
  case (Suc fuel)
  show ?case
  proof (cases "v = 2 * j \<or> lane_in g v = None")
    case True
    then show ?thesis using Suc.prems(4) by auto
  next
    case False
    then obtain e where e: "lane_in g v = Some e" by blast
    note s = lane_in_SomeD [OF g Suc.prems(1) e]
    let ?x = "edge_of g e"
    have w: "0 \<le> g_whi g ! e" using b s(1) by (simp add: bounds_within_def)
    have src: "e_src ?x < 2 * g_n g" by (rule graph_okD(1) [OF finished_ok [OF g] s(1)])
    have lt: "e' + 1 < fuel" if "lane_in g (e_src ?x) = Some e'" for e'
    proof -
      note s' = lane_in_SomeD [OF g src that]
      have "e' < e" using rank s s' by (auto simp: lane_ranked_def)
      then show ?thesis using Suc.prems(3) [OF e] by simp
    qed
    have "0 < fuel" using Suc.prems(3) [OF e] by simp
    from Suc.IH [OF src this lt] have "\<exists>r. tail_loop fuel g j (e_src ?x) a = Some r \<and> 0 \<le> r" if "0 \<le> a" for a
      using that by blast
    then show ?thesis using False e w Suc.prems(4) by (auto simp: Let_def)
  qed
qed simp

lemma tail_after_release_ends:
  assumes "finished g" "lane_ranked T (g_edges g)" "bounds_within g" "j < g_n g"
  shows "\<exists>r. tail_after_release g j = Some r \<and> 0 \<le> r"
  unfolding tail_after_release_def
proof (rule tail_loop_ends [OF assms(1-3)])
  show "2 * j + 1 < 2 * g_n g" using assms(4) by simp
  then show "e + 1 < length (g_edges g) + 2" if "lane_in g (2 * j + 1) = Some e" for e
    using lane_in_SomeD(1) [OF assms(1) _ that] by simp
qed simp_all

lemma finished_whi [simp]: "finished (g\<lparr>g_whi := w\<rparr>) = finished g"
  by (simp add: finished_def graph_ok_def edge_ok_def in_edges_def out_edges_def)

lemma gate_bound_keeps:
  assumes "finished g" "lane_ranked T (g_edges g)" "bounds_within g" "e < length (g_edges g)"
  shows "finished (gate_bound e g)" "g_edges (gate_bound e g) = g_edges g" "bounds_within (gate_bound e g)"
    "same_base g (gate_bound e g)" "g_gated (gate_bound e g) = g_gated g" "g_enabled (gate_bound e g) = g_enabled g"
proof -
  show "finished (gate_bound e g)" "g_edges (gate_bound e g) = g_edges g" "same_base g (gate_bound e g)"
    "g_gated (gate_bound e g) = g_gated g" "g_enabled (gate_bound e g) = g_enabled g"
    using assms(1) by (simp_all add: gate_bound_def Let_def)
  have j: "e_dst (edge_of g e) div 2 < g_n g" using graph_okD(2) [OF finished_ok [OF assms(1)] assms(4)] by simp
  from tail_after_release_ends [OF assms(1-3) j] obtain r where "tail_after_release g (e_dst (edge_of g e) div 2) = Some r" "0 \<le> r"
    by blast
  then show "bounds_within (gate_bound e g)"
    using assms(3) graph_okD(3) [OF finished_ok [OF assms(1)] assms(4)] assms(4)
    by (auto simp: bounds_within_def gate_bound_def Let_def nth_list_update)
qed

lemma gating_bounds_facts:
  assumes "finished g" "lane_ranked T (g_edges g)" "bounds_within g"
  shows "finished (gating_dependency_bounds g) \<and> bounds_within (gating_dependency_bounds g) \<and>
    same_base g (gating_dependency_bounds g) \<and> g_edges (gating_dependency_bounds g) = g_edges g"
  unfolding gating_dependency_bounds_def
proof (rule fold_range_inv [where P = "\<lambda>i h. finished h \<and> bounds_within h \<and> same_base g h \<and> g_edges h = g_edges g"])
  fix e h assume e: "e < length (g_edges g)" and h: "finished h \<and> bounds_within h \<and> same_base g h \<and> g_edges h = g_edges g"
  have r: "lane_ranked T (g_edges h)" using h assms(2) by simp
  have e': "e < length (g_edges h)" using h e by simp
  note k = gate_bound_keeps [OF _ r _ e']
  show "finished (gate_bound e h) \<and> bounds_within (gate_bound e h) \<and> same_base g (gate_bound e h) \<and> g_edges (gate_bound e h) = g_edges g"
    using h k same_base_trans by auto
qed (use assms in simp)

lemma bounded_graph_facts:
  assumes "skeleton_ok sk" "sedges_ok sk edges"
  shows "finished (bounded_graph sk edges)" "bounds_within (bounded_graph sk edges)"
    "same_base (skeleton_graph sk) (bounded_graph sk edges)" "g_edges (bounded_graph sk edges) = g_edges (lanes_graph sk edges)"
    "\<exists>T. lane_ranked T (g_edges (bounded_graph sk edges))"
proof -
  let ?l = "lanes_graph sk edges"
  let ?f = "finish_graph (required_upper_bounds ?l)"
  note l = lanes_graph_facts [OF assms]
  have f: "finished ?f" using l(1) by (intro finish_finished) (simp add: required_upper_bounds_def)
  have fe: "g_edges ?f = g_edges ?l" by (simp add: required_upper_bounds_def)
  have "edge_ok ?l x" if "x \<in> set (g_edges ?l)" for x using l(1) that by (simp add: graph_ok_def)
  then have w: "bounds_within ?f"
    using upper_bound_range [of ?l]
    by (simp add: bounds_within_def required_upper_bounds_def finish_graph_def Let_def case_prod_unfold)
  have b: "same_base (skeleton_graph sk) ?f"
    using l(2) by (simp add: same_base_def finish_graph_def Let_def case_prod_unfold required_upper_bounds_def)
  from l(3) obtain T where T: "lane_ranked T (g_edges ?f)" unfolding fe by blast
  note g = gating_bounds_facts [OF f T w]
  show "finished (bounded_graph sk edges)" "bounds_within (bounded_graph sk edges)"
    "g_edges (bounded_graph sk edges) = g_edges ?l" using g fe by (simp_all add: bounded_graph_def)
  show "same_base (skeleton_graph sk) (bounded_graph sk edges)"
    using g same_base_trans [OF b] by (simp add: bounded_graph_def)
  show "\<exists>T. lane_ranked T (g_edges (bounded_graph sk edges))" using g T by (auto simp: bounded_graph_def)
qed

section \<open>Clocks and the final order\<close>

text \<open>What disabling edges leaves: everything but the enabled flags and the counters.\<close>

definition same_edges :: "event_graph \<Rightarrow> event_graph \<Rightarrow> bool" where
  "same_edges g h \<longleftrightarrow> same_base g h \<and> g_edges h = g_edges g \<and> g_whi h = g_whi g \<and> g_active h = g_active g \<and>
     g_gated h = g_gated g \<and> g_release h = g_release g \<and> in_edges h = in_edges g \<and> out_edges h = out_edges g"

lemma same_edges_refl [simp]: "same_edges g g"
  by (simp add: same_edges_def)

lemma same_edges_trans: "same_edges g h \<Longrightarrow> same_edges h k \<Longrightarrow> same_edges g k"
  using same_base_trans by (auto simp: same_edges_def)

lemma same_edges_bounds: "same_edges g h \<Longrightarrow> bounds_within g \<Longrightarrow> bounds_within h"
  by (simp add: same_edges_def bounds_within_def)

lemma same_edges_finished:
  "same_edges g h \<Longrightarrow> length (g_enabled h) = length (g_enabled g) \<Longrightarrow> finished g \<Longrightarrow> finished h"
  by (simp add: same_edges_def same_base_def finished_def graph_ok_def edge_ok_def)

lemma clock_disable_same: "same_edges g (clock_disable gone e g)" "length (g_enabled (clock_disable gone e g)) = length (g_enabled g)"
  by (simp_all add: clock_disable_def same_edges_def in_edges_def [abs_def] out_edges_def [abs_def])

lemma disable_clock_same:
  "same_edges g (disable_clock_contradicted ca g) \<and> length (g_enabled (disable_clock_contradicted ca g)) = length (g_enabled g)"
proof -
  have "same_edges g (fold (clock_disable gone) es g) \<and> length (g_enabled (fold (clock_disable gone) es g)) = length (g_enabled g)"
    for gone es g
  proof (induction es arbitrary: g)
    case (Cons e es)
    then show ?case using clock_disable_same [where g = g and gone = gone and e = e] same_edges_trans by fastforce
  qed simp
  then show ?thesis by (simp add: disable_clock_contradicted_def)
qed

lemma disable_unplaced_same: "same_edges g (disable_unplaced b order g)"
proof -
  define f where "f = (\<lambda>e (g :: event_graph). if g_enabled g ! e \<and> e_src (edge_of g e) \<notin> set order \<and> e_dst (edge_of g e) \<notin> set order
                     \<and> (\<not> b \<or> e_mode (edge_of g e) = DEP)
                 then g\<lparr>g_enabled := (g_enabled g)[e := False], g_cycle_edges_dropped := g_cycle_edges_dropped g + 1\<rparr>
                 else g)"
  have "same_edges g (fold f es g)" for es
  proof (induction es arbitrary: g)
    case (Cons e es)
    have "same_edges g (f e g)"
      by (simp add: f_def same_edges_def same_base_def in_edges_def [abs_def] out_edges_def [abs_def])
    then show ?case using Cons same_edges_trans by simp
  qed simp
  then show ?thesis unfolding disable_unplaced_def f_def by blast
qed

lemma order_same: "same_edges g h \<Longrightarrow> same_edges g (h\<lparr>g_order := xs\<rparr>)"
  by (simp add: same_edges_def same_base_def in_edges_def [abs_def] out_edges_def [abs_def])

lemma break_cycles_same: "same_edges g (break_cycles g)"
proof -
  have "same_edges h (break_loop bs n order h)" for bs n order h
  proof (induction bs n order h rule: break_loop.induct)
    case (2 b rest n order g)
    then show ?case using disable_unplaced_same [of g b order] order_same [of g g]
      by (auto simp: Let_def intro: same_edges_trans)
  qed (simp add: order_same)
  then show ?thesis by (simp only: break_cycles_def)
qed

lemma clock_same: "same_edges g (g\<lparr>g_clock := c\<rparr>)" "finished (g\<lparr>g_clock := c\<rparr>) = finished g"
  by (simp_all add: same_edges_def in_edges_def [abs_def] out_edges_def [abs_def] finished_def graph_ok_def edge_ok_def)

text \<open>A graph as \<open>build_event_graph\<close> returns it.\<close>

definition built :: "event_graph \<Rightarrow> bool" where
  "built g \<longleftrightarrow> complete_order g \<and> bounds_within g"

lemma assemble_facts:
  assumes "skeleton_ok sk" "sedges_ok sk edges"
  shows "built (assemble sk edges clocks prior)" "same_edges (bounded_graph sk edges) (assemble sk edges clocks prior)"
proof -
  let ?b = "bounded_graph sk edges"
  note b = bounded_graph_facts [OF assms]
  define c where "c = (if clocks then (let ca = clock_analysis_of ?b (sk_dom_keys sk) (sk_dom_bounds sk)
      in disable_clock_contradicted ca (?b\<lparr>g_clock := Some ca\<rparr>)) else ?b\<lparr>g_clock := prior\<rparr>)"
  have eq: "assemble sk edges clocks prior = break_cycles c" by (simp add: assemble_def c_def Let_def)
  have c: "same_edges ?b c" "length (g_enabled c) = length (g_enabled ?b)"
  proof -
    have "same_edges ?b (disable_clock_contradicted ca (?b\<lparr>g_clock := Some ca\<rparr>))" for ca
      by (rule same_edges_trans [OF clock_same(1) conjunct1 [OF disable_clock_same]])
    then show "same_edges ?b c" "length (g_enabled c) = length (g_enabled ?b)"
      using disable_clock_same clock_same(1) by (simp_all add: c_def Let_def)
  qed
  have fc: "finished c" by (rule same_edges_finished [OF c b(1)])
  show s: "same_edges ?b (assemble sk edges clocks prior)"
    unfolding eq by (rule same_edges_trans [OF c(1) break_cycles_same])
  show "built (assemble sk edges clocks prior)"
    using break_cycles_complete [OF fc] same_edges_bounds [OF s b(2)] unfolding built_def eq by blast
qed

lemma shifted_ok: "skeleton_ok sk \<Longrightarrow> skeleton_ok (shifted sk shift)"
  by (simp add: skeleton_ok_def shifted_def Let_def)

lemma built_clock [simp]: "built (g\<lparr>g_clock := c\<rparr>) = built g"
  by (simp add: built_def complete_order_def bounds_within_def clock_same(2) ordered_def)

lemma build_built:
  assumes "skeleton_ok sk" "sedges_ok sk edges"
  shows "built (build_event_graph sk edges clocks)"
proof -
  have "sedges_ok (shifted sk s) edges" for s using assms(2) by (simp add: sedges_ok_def shifted_def Let_def)
  then have "built (assemble (shifted sk s) edges True None)" for s
    using assemble_facts(1) [OF shifted_ok [OF assms(1)]] by blast
  then show ?thesis using assemble_facts(1) [OF assms] by (simp add: build_event_graph_def Let_def)
qed

section \<open>Properties\<close>

text \<open>
  Property. A thread's spans become one chain: \<open>_add_thread_lane\<close> adds an edge between every two
  consecutive events of the lane and nothing else, so the chain's durations add up to the
  lane's extent. The time of each edge belongs to the span started last among those that
  cover it (busy, waiting where the call is gated, unknown where it blocks without a gate),
  and is a gap exactly where no span covers it.
\<close>

theorem thread_lane_exact:
  assumes "distinct members" "members \<noteq> []" "\<forall>j\<in>set members. time_of g (2 * j) \<le> time_of g (2 * j + 1)"
  shows "\<exists>es. g_edges (add_thread_lane members g) = g_edges g @ es \<and>
    map (\<lambda>x. (e_src x, e_dst x)) es = zip (lane_nodes g members) (tl (lane_nodes g members)) \<and>
    distinct (lane_nodes g members) \<and> set (lane_nodes g members) = (\<Union>j\<in>set members. {2 * j, 2 * j + 1}) \<and>
    (\<forall>x\<in>set es. lane_edge_ok g members x) \<and>
    sum_list (map e_d es) = Max ((\<lambda>j. time_of g (2 * j + 1)) ` set members) - Min ((\<lambda>j. time_of g (2 * j)) ` set members)"
proof -
  have "forward g members" using assms(3) by (simp add: forward_def)
  from thread_lane_spec [OF assms(1,2) this] obtain es where "g_edges (add_thread_lane members g) = g_edges g @ es"
    "map ends es = zip (lane_nodes g members) (tl (lane_nodes g members))" "\<forall>x\<in>set es. lane_edge_ok g members x"
    "sum_list (map e_d es) = Max ((\<lambda>j. time_of g (2 * j + 1)) ` set members) - Min ((\<lambda>j. time_of g (2 * j)) ` set members)" .
  then show ?thesis using distinct_lane_nodes [OF assms(1)] set_lane_nodes ends_def [abs_def]
    by (intro exI [of _ es]) simp
qed

text \<open>A nested call, a gap, and a zero-length span at the end of the lane.\<close>

definition demo_lane :: event_graph where
  "demo_lane = (new_graph 4)\<lparr>g_t := [0, 100, 20, 60, 120, 150, 150, 150]\<rparr>"

lemma thread_lane_exact_witness:
  "map (\<lambda>x. (e_src x, e_dst x, e_owner x)) (g_edges (add_thread_lane [0, 1, 2, 3] demo_lane)) =
     [(0, 2, Some 0), (2, 3, Some 1), (3, 1, Some 0), (1, 4, None), (4, 5, Some 2), (5, 6, None), (6, 7, None)] \<and>
   sum_list (map e_d (g_edges (add_thread_lane [0, 1, 2, 3] demo_lane))) = 150 - 0"
proof -
  have t: "\<forall>j\<in>set [0, 1, 2, 3]. time_of demo_lane (2 * j) \<le> time_of demo_lane (2 * j + 1)" by code_simp
  have e: "g_edges demo_lane = []" by code_simp
  have m: "Max ((\<lambda>j. time_of demo_lane (2 * j + 1)) ` set [0, 1, 2, 3]) = 150"
    "Min ((\<lambda>j. time_of demo_lane (2 * j)) ` set [0, 1, 2, 3]) = 0" by code_simp+
  have "map (\<lambda>x. (e_src x, e_dst x, e_owner x)) (g_edges (add_thread_lane [0, 1, 2, 3] demo_lane)) =
     [(0, 2, Some 0), (2, 3, Some 1), (3, 1, Some 0), (1, 4, None), (4, 5, Some 2), (5, 6, None), (6, 7, None)]"
    by code_simp
  with thread_lane_exact [of "[0, 1, 2, 3]", OF _ _ t] show ?thesis unfolding m e by auto
qed

text \<open>
  Property. The event graph \<open>build_event_graph\<close> assembles from well-formed spans and any span-level
  edges between them: every edge joins two of its event nodes, at most the clock tolerance
  backwards in time, and lasts the time between them; the order has each active node once and
  every enabled edge leads forward in it; and the required time of every edge is bounded by
  its duration.
\<close>

theorem build_event_graph_wf:
  assumes "skeleton_ok sk" "sedges_ok sk edges"
  shows "let g = build_event_graph sk edges clocks in
    (\<forall>x\<in>set (g_edges g). edge_ok g x) \<and> ordered g (g_order g) \<and>
    set (g_order g) = {v. v < 2 * g_n g \<and> g_active g ! v} \<and>
    (\<forall>e<length (g_edges g). 0 \<le> g_whi g ! e \<and> g_whi g ! e \<le> e_d (edge_of g e))"
  using build_built [OF assms]
  by (simp add: built_def complete_order_def finished_def graph_ok_def bounds_within_def Let_def)

text \<open>A host call that launches device work and another that waits for it.\<close>

definition demo_skeleton :: skeleton where
  "demo_skeleton = \<lparr>sk_n = 3, sk_t = [0, 10, 20, 100, 30, 90], sk_cat = [''cuda'', ''sync'', ''cuda''],
     sk_name = [''launch'', ''wait'', ''kernel''], sk_device = [False, False, True], sk_excluded = [False, False, False],
     sk_rooted = [False, False, False], sk_rootflow = [False, False, False], sk_blocking = [False, True, False],
     sk_domain = [0, 0, 1], sk_stream_key = [(2, (1, ''cuda'', Some ''7'', None))],
     sk_lane = [Some 0, Some 0, None], sk_resolved = [False, False, False], sk_lanes = [[0, 1]],
     sk_dom_keys = [HostDom ''0'', DeviceDom ''0'' 1 (Some ''cuda'') []], sk_dom_bounds = [Some 0, Some 50000]\<rparr>"

definition demo_sedges :: "sedge list" where
  "demo_sedges = [\<lparr>s_dst = 2, s_src = 0, s_kind = S_launch, s_conf = Certain\<rparr>,
     \<lparr>s_dst = 1, s_src = 2, s_kind = S_device_wait, s_conf = Certain\<rparr>]"

lemma demo_skeleton_ok: "skeleton_ok demo_skeleton" "sedges_ok demo_skeleton demo_sedges"
  by code_simp+

lemma build_event_graph_wf_witness:
  "g_order (build_event_graph demo_skeleton demo_sedges True) = [0, 4, 1, 5, 2, 3] \<and>
   g_whi (build_event_graph demo_skeleton demo_sedges True) = [0, 10, 10, 10, 10, 60] \<and>
   ordered (build_event_graph demo_skeleton demo_sedges True) [0, 4, 1, 5, 2, 3]"
proof -
  have o: "g_order (build_event_graph demo_skeleton demo_sedges True) = [0, 4, 1, 5, 2, 3]" by code_simp
  have w: "g_whi (build_event_graph demo_skeleton demo_sedges True) = [0, 10, 10, 10, 10, 60]" by code_simp
  from build_event_graph_wf [OF demo_skeleton_ok, of True] o w show ?thesis by (simp add: Let_def)
qed

end
