(* ===== verification/Read_Spans.thy ===== *)
theory Read_Spans
  imports Assembled Gpu_Edges
begin

text \<open>
  What \<^verbatim>\<open>src/src/analysis/cp_model.py\<close> reads from the spans of a trace, \<open>_read_spans\<close>, with
  \<open>blocking_wait\<close> of \<^verbatim>\<open>src/src/analysis/semantics/__init__.py\<close> and \<open>node_bounds_of\<close> of
  \<^verbatim>\<open>src/src/analysis/cp_clock.py\<close>. A field of the skeleton that the code fills span by span is a map
  over the spans; the clock domains and the lanes, which are numbered as they come up, are folds.
  The result is None where the code raises: a clock tag that is no number, a time that does not fit
  in the 64-bit array of times, or a graph with another number of ordinals.
\<close>

section \<open>Calls that wait\<close>

definition MPI_BLOCKING_TYPES :: "string list" where
  "MPI_BLOCKING_TYPES =
     [''recv'', ''sendrecv'', ''sendrecv_replace'', ''ssend'', ''wait'', ''waitall'', ''waitany'', ''waitsome'',
      ''probe'', ''mrecv'',
      ''allreduce'', ''bcast'', ''reduce'', ''alltoall'', ''allgather'', ''scatter'', ''gather'', ''barrier'', ''scan'',
      ''exscan'', ''allgatherv'', ''alltoallv'', ''gatherv'', ''scatterv'', ''reduce_scatter'', ''reduce_scatter_block'',
      ''win_fence'', ''win_flush'', ''win_flush_all'', ''win_unlock'', ''win_unlock_all'']"

definition WAITING_SYNC_NAMES :: "string list" where
  "WAITING_SYNC_NAMES =
     [''cudaDeviceSynchronize'', ''cudaStreamSynchronize'', ''cudaEventSynchronize'', ''cuCtxSynchronize'',
      ''cuStreamSynchronize'', ''cuEventSynchronize'',
      ''hipDeviceSynchronize'', ''hipStreamSynchronize'', ''hipEventSynchronize'',
      ''clFinish'', ''clWaitForEvents'']"

definition omp_wait :: "string \<Rightarrow> bool" where
  "omp_wait n \<longleftrightarrow> prefix ''omp_barrier'' n \<or> n \<in> {''omp_taskwait'', ''omp_taskgroup'', ''omp_reduction''} \<or> suffix ''_wait'' n"

definition blocking_wait :: "span_event \<Rightarrow> bool" where
  "blocking_wait s =
     (let cat = category_value (category s); n = name s in
      if tag_is s ''side'' ''gpu'' then False
      else if cat = ''mpi'' then tag_in s ''type'' MPI_BLOCKING_TYPES
      else if cat = ''sync'' then
        (if prefix ''omp_'' n then omp_wait n
         else if prefix ''GOMP_'' n then True
         else n \<in> set WAITING_SYNC_NAMES \<or> tag_is s ''type'' ''sync'')
      else False)"

definition excluded_span :: "span_event \<Rightarrow> bool" where
  "excluded_span s \<longleftrightarrow> is_annotation s \<or> is_sampled s \<or> category_value (category s) = ''sched''"

section \<open>Fields of one span\<close>

definition span_times :: "span_event \<Rightarrow> int list" where
  "span_times s = (let st = effective_start_ns s in [st, st + max 0 (duration_ns s)])"

definition fits64 :: "int \<Rightarrow> bool" where
  "fits64 x \<longleftrightarrow> - (2 ^ 63) \<le> x \<and> x < 2 ^ 63"

definition device_lane :: "span_event \<Rightarrow> bool" where
  "device_lane s \<longleftrightarrow> \<not> excluded_span s \<and> is_device_timed s"

definition host_lane :: "span_event \<Rightarrow> bool" where
  "host_lane s \<longleftrightarrow> \<not> excluded_span s \<and> \<not> is_device_timed s"

definition stream_key_of_span :: "span_event \<Rightarrow> stream_key" where
  "stream_key_of_span s =
     (case tag s ''queue'' of
        Some q \<Rightarrow>
          if \<not> tag_truthy s ''rt'' then (pid s, ''opencl'', Some (''q'' @ q), None)
          else (pid s, the (tag s ''rt''), tag s ''stream'', tag s ''dev'')
      | None \<Rightarrow>
          (pid s, if tag_truthy s ''rt'' then the (tag s ''rt'') else category_value (category s), tag s ''stream'', tag s ''dev''))"

definition resolved_wildcard :: "span_event \<Rightarrow> bool" where
  "resolved_wildcard s \<longleftrightarrow>
     \<not> excluded_span s \<and> category_value (category s) = ''mpi'' \<and> (tag s ''rpeer'' \<noteq> None \<or> tag s ''rmatches'' \<noteq> None)"

definition ROOTED_COLLECTIVE_TYPES :: "string list" where
  "ROOTED_COLLECTIVE_TYPES =
     [''bcast'', ''broadcast'', ''reduce'', ''gather'', ''gatherv'', ''scatter'', ''scatterv'', ''scan'', ''exscan'']"

definition root_recorded :: "span_event \<Rightarrow> bool" where
  "root_recorded s \<longleftrightarrow>
     \<not> excluded_span s \<and> tag_in s ''type'' (ROOTED_COLLECTIVE_TYPES @ FROM_ROOT @ TO_ROOT)
     \<and> tag s ''wroot'' \<noteq> None \<and> \<not> tag_in s ''type'' [''scan'', ''exscan'']"

definition root_missing :: "span_event \<Rightarrow> bool" where
  "root_missing s \<longleftrightarrow> \<not> excluded_span s \<and> \<not> root_recorded s \<and> tag_in s ''type'' ROOTED_COLLECTIVE_TYPES"

section \<open>Clock domains\<close>

text \<open>The offset bound of each node of a merged trace; None is infinite.\<close>

definition node_bounds_of :: "rat option list \<Rightarrow> (string, rat option) dict" where
  "node_bounds_of nodes = map (\<lambda>(i, b). (show_int (int i), b)) (List.enumerate 0 nodes)"

definition wider :: "rat option \<Rightarrow> rat option \<Rightarrow> rat option" where
  "wider b b' = (case (b, b') of (Some x, Some y) \<Rightarrow> Some (if x > y then x else y) | _ \<Rightarrow> None)"

text \<open>The ids of the domain keys seen so far, their bounds, and the domain of every span read.\<close>

type_synonym domains = "(domain_key, nat) dict \<times> rat option list \<times> nat list"

definition note_domain :: "domain_key \<times> rat option \<Rightarrow> domains \<Rightarrow> domains" where
  "note_domain kb d =
     (let (key, bound) = kb; (ids, bounds, domain) = d in
      case map_of ids key of
        None \<Rightarrow> (ids @ [(key, length ids)], bounds @ [bound], domain @ [length ids])
      | Some i \<Rightarrow> (ids, bounds[i := wider bound (bounds ! i)], domain @ [i]))"

fun read_domains :: "(string, rat option) dict \<Rightarrow> span_event list \<Rightarrow> domains \<Rightarrow> domains option" where
  "read_domains nb [] d = Some d"
| "read_domains nb (s # ss) d =
     (case domain_of s nb of None \<Rightarrow> None | Some kb \<Rightarrow> read_domains nb ss (note_domain kb d))"

definition add_reference :: "domains \<Rightarrow> domain_key list \<times> rat option list" where
  "add_reference d =
     (let (ids, bounds, domain) = d; keys = map fst ids in
      if REFERENCE \<in> set keys then (keys, bounds) else (keys @ [REFERENCE], bounds @ [Some 0]))"

section \<open>Lanes\<close>

definition host_lanes :: "span_event list \<Rightarrow> (int \<times> int, nat list) dict" where
  "host_lanes ss =
     map (\<lambda>(k, ms). (k, map fst ms))
       (group_by (\<lambda>(i, s). (pid s, tid s)) (filter (\<lambda>(i, s). host_lane s) (List.enumerate 0 ss)))"

definition number_lanes :: "nat \<Rightarrow> nat list list \<Rightarrow> nat option list" where
  "number_lanes n lanes =
     fold (\<lambda>(li, ms) lane. fold (\<lambda>j lane. lane[j := Some li]) ms lane) (List.enumerate 0 lanes) (replicate n None)"

definition stream_keys_of :: "span_event list \<Rightarrow> (nat, stream_key) dict" where
  "stream_keys_of ss =
     map (\<lambda>(i, s). (i, stream_key_of_span s)) (filter (\<lambda>(i, s). device_lane s) (List.enumerate 0 ss))"

section \<open>The skeleton\<close>

definition read_spans :: "nat \<Rightarrow> rat option list \<Rightarrow> span_event list \<Rightarrow> skeleton option" where
  "read_spans n nodes ss =
     (case read_domains (node_bounds_of nodes) ss ([], [], []) of
        None \<Rightarrow> None
      | Some d \<Rightarrow>
          if \<not> list_all fits64 (concat (map span_times ss)) \<or> length ss \<noteq> n then None
          else
            (let lanes = map snd (host_lanes ss) in
             Some \<lparr>sk_n = n, sk_t = concat (map span_times ss), sk_cat = map (\<lambda>s. category_value (category s)) ss,
               sk_name = map name ss, sk_device = map device_lane ss, sk_excluded = map excluded_span ss,
               sk_rooted = map root_missing ss, sk_rootflow = map root_recorded ss,
               sk_blocking = map (\<lambda>s. \<not> excluded_span s \<and> blocking_wait s) ss, sk_domain = snd (snd d),
               sk_stream_key = stream_keys_of ss, sk_lane = number_lanes n lanes,
               sk_resolved = map resolved_wildcard ss, sk_lanes = lanes,
               sk_dom_keys = fst (add_reference d), sk_dom_bounds = snd (add_reference d)\<rparr>))"

section \<open>What is read\<close>

lemma read_domains_Some: "read_domains nb ss d \<noteq> None \<longleftrightarrow> (\<forall>s\<in>set ss. domain_of s nb \<noteq> None)"
  by (induction ss arbitrary: d) (auto split: option.splits)

definition domains_ok :: "domains \<Rightarrow> bool" where
  "domains_ok d \<longleftrightarrow> (case d of (ids, bounds, domain) \<Rightarrow>
     dict_ok ids \<and> map snd ids = [0..<length ids] \<and> length bounds = length ids \<and> (\<forall>i\<in>set domain. i < length ids))"

lemma note_domain_ok:
  assumes "domains_ok d"
  shows "domains_ok (note_domain kb d) \<and> length (snd (snd (note_domain kb d))) = Suc (length (snd (snd d)))"
proof -
  obtain ids bounds domain key bound where d: "d = (ids, bounds, domain)" "kb = (key, bound)" by (cases d, cases kb) auto
  show ?thesis
  proof (cases "map_of ids key")
    case None
    then have "dict_ok (ids @ [(key, length ids)])" using assms d by (simp add: domains_ok_def map_of_eq_None_iff)
    then show ?thesis using assms d None by (auto simp: domains_ok_def note_domain_def)
  next
    case (Some i)
    then have "i \<in> set (map snd ids)" using map_of_SomeD by force
    moreover have "set (map snd ids) = {0..<length ids}" using assms d by (simp add: domains_ok_def del: set_map)
    ultimately have "i < length ids" by simp
    then show ?thesis using assms d Some by (auto simp: domains_ok_def note_domain_def)
  qed
qed

lemma read_domains_ok:
  "read_domains nb ss d = Some d' \<Longrightarrow> domains_ok d \<Longrightarrow> domains_ok d' \<and> length (snd (snd d')) = length (snd (snd d)) + length ss"
proof (induction ss arbitrary: d)
  case (Cons s ss)
  obtain kb where kb: "domain_of s nb = Some kb" "read_domains nb ss (note_domain kb d) = Some d'"
    using Cons.prems(1) by (auto split: option.splits)
  show ?case using Cons.IH [OF kb(2)] note_domain_ok [OF Cons.prems(2), of kb] by simp
qed simp

lemma host_lanes_members: "mset (concat (map snd (host_lanes ss))) = mset (filter (\<lambda>i. host_lane (ss ! i)) [0..<length ss])"
proof -
  have "concat (map snd (host_lanes ss)) =
      map fst (concat (map snd (group_by (\<lambda>(i, s). (pid s, tid s)) (filter (\<lambda>(i, s). host_lane s) (List.enumerate 0 ss)))))"
    by (simp add: host_lanes_def map_concat comp_def case_prod_beta)
  then have "mset (concat (map snd (host_lanes ss))) = image_mset fst (mset (filter (\<lambda>(i, s). host_lane s) (List.enumerate 0 ss)))"
    by (simp only: mset_map mset_group_by)
  also have "\<dots> = mset (map fst (filter (\<lambda>(i, s). host_lane s) (List.enumerate 0 ss)))" by simp
  also have "map fst (filter (\<lambda>(i, s). host_lane s) (List.enumerate 0 ss)) = filter (\<lambda>i. host_lane (ss ! i)) [0..<length ss]"
  proof -
    have "List.enumerate 0 ss = map (\<lambda>i. (i, ss ! i)) [0..<length ss]"
      by (rule nth_equalityI) (simp_all add: nth_enumerate_eq)
    then show ?thesis by (simp add: filter_map comp_def)
  qed
  finally show ?thesis .
qed

lemma read_times:
  assumes "j < length ss"
  shows "concat (map span_times ss) ! (2 * j) = effective_start_ns (ss ! j)"
    and "concat (map span_times ss) ! (2 * j + 1) = effective_start_ns (ss ! j) + max 0 (duration_ns (ss ! j))"
  using assms
proof (induction ss arbitrary: j)
  case (Cons s ss)
  {
    case 1
    then show ?case using Cons(1) [of "j - 1"] by (cases j) (simp_all add: span_times_def Let_def)
  next
    case 2
    then show ?case using Cons(2) [of "j - 1"] by (cases j) (simp_all add: span_times_def Let_def)
  }
qed simp_all

lemma length_read_times: "length (concat (map span_times ss)) = 2 * length ss"
  by (induction ss) (simp_all add: span_times_def Let_def)

text \<open>
  What is read is a well-formed skeleton: it exists exactly when every span has a clock domain, every
  time fits and the graph numbers these spans, and every span of the model is on one thread lane or
  a device's.
\<close>

lemma read_spans_Some:
  "read_spans n nodes ss \<noteq> None \<longleftrightarrow>
     n = length ss \<and> (\<forall>s\<in>set ss. domain_of s (node_bounds_of nodes) \<noteq> None \<and> list_all fits64 (span_times s))"
proof -
  have fits: "list_all fits64 (concat (map span_times ss)) \<longleftrightarrow> (\<forall>s\<in>set ss. list_all fits64 (span_times s))"
    by (simp add: list_all_iff)
  have "read_spans n nodes ss \<noteq> None \<longleftrightarrow>
      read_domains (node_bounds_of nodes) ss ([], [], []) \<noteq> None
      \<and> list_all fits64 (concat (map span_times ss)) \<and> length ss = n"
    by (simp add: read_spans_def Let_def split: option.split)
  then show ?thesis unfolding read_domains_Some fits by blast
qed

lemma read_spans_parts:
  assumes "read_spans n nodes ss = Some sk"
  obtains d where "read_domains (node_bounds_of nodes) ss ([], [], []) = Some d" "length ss = n" "domains_ok d"
    "length (snd (snd d)) = n" "sk_n sk = n" "sk_t sk = concat (map span_times ss)" "sk_device sk = map device_lane ss"
    "sk_domain sk = snd (snd d)" "sk_lanes sk = map snd (host_lanes ss)" "sk_excluded sk = map excluded_span ss"
    "sk_dom_keys sk = fst (add_reference d)" "sk_dom_bounds sk = snd (add_reference d)"
proof -
  obtain d where d: "read_domains (node_bounds_of nodes) ss ([], [], []) = Some d" "length ss = n"
    using assms by (auto simp: read_spans_def split: option.splits if_splits)
  have fits: "list_all fits64 (concat (map span_times ss))"
    using assms d(1) by (simp add: read_spans_def split: if_splits)
  have ok: "domains_ok ([], [], [])" by (simp add: domains_ok_def)
  from read_domains_ok [OF d(1) ok] have "domains_ok d" "length (snd (snd d)) = n" using d(2) by simp_all
  then show ?thesis using that [OF d] assms d fits by (auto simp: read_spans_def Let_def)
qed

lemma read_spans_ok:
  assumes "read_spans n nodes ss = Some sk"
  shows "skeleton_ok sk" "sk_n sk = length ss"
proof -
  obtain d :: domains where d: "length ss = n" "length (snd (snd d)) = n" "sk_n sk = n" "sk_t sk = concat (map span_times ss)"
    "sk_device sk = map device_lane ss" "sk_domain sk = snd (snd d)" "sk_lanes sk = map snd (host_lanes ss)"
    by (rule read_spans_parts [OF assms]) blast
  show "sk_n sk = length ss" using d by simp
  have m: "mset (concat (sk_lanes sk)) = mset (filter (\<lambda>i. host_lane (ss ! i)) [0..<length ss])"
    using d(7) host_lanes_members by simp
  then have s: "set (concat (sk_lanes sk)) = set (filter (\<lambda>i. host_lane (ss ! i)) [0..<length ss])"
    by (rule mset_eq_setD)
  have "distinct (filter (\<lambda>i. host_lane (ss ! i)) [0..<length ss])" by simp
  then have "distinct (concat (sk_lanes sk))" using mset_eq_imp_distinct_iff [OF m] by blast
  moreover have "j < sk_n sk \<and> \<not> sk_device sk ! j" if "j \<in> set (concat (sk_lanes sk))" for j
    using that d unfolding s by (auto simp: host_lane_def device_lane_def)
  moreover have "sk_t sk ! (2 * j) \<le> sk_t sk ! (2 * j + 1)" if "j < sk_n sk" for j
    using read_times [of j ss] that d by simp
  moreover have "length (sk_t sk) = 2 * sk_n sk" "length (sk_device sk) = sk_n sk" "length (sk_domain sk) = sk_n sk"
    using d by (simp_all add: length_read_times)
  ultimately show "skeleton_ok sk" unfolding skeleton_ok_def by blast
qed

end
