(* ===== verification/Store_Queries.thy ===== *)
theory Store_Queries
  imports Store_Facts
begin

text \<open>
  The queries derived from a store's span iterator, for every store that keeps the iterator's
  contract (locale \<open>span_store\<close>), and for the in-memory store by interpretation.
\<close>

section \<open>Exclusive time by span\<close>

text \<open>
  The exclusive time of a span among the host spans \<open>S\<close> of its thread, by the spans' values:
  what \<open>ExclusiveTime\<close> computes on any list of them whose ties are in arrival order.
\<close>

definition span_rank :: "span_event \<Rightarrow> int \<times> int \<times> int" where
  "span_rank s = (- start_ns s, end_ns s, seq s)"

definition span_time :: "span_event set \<Rightarrow> span_event \<Rightarrow> int" where
  "span_time S s =
     (if is_sampled s then
        (if \<exists>x\<in>S. \<not> is_sampled x \<and> start_ns x \<le> start_ns s \<and> start_ns s < end_ns x then 0 else duration_ns s)
      else int (card {c. start_ns s \<le> c \<and> c < end_ns s
          \<and> (\<forall>x\<in>S. \<not> is_sampled x \<and> start_ns x \<le> c \<and> c < end_ns x \<longrightarrow> span_rank s \<le> span_rank x)}))"

definition ties_in_order :: "span_event list \<Rightarrow> bool" where
  "ties_in_order spans \<longleftrightarrow> (\<forall>i j. i < j \<longrightarrow> j < length spans \<longrightarrow>
     start_ns (spans ! i) = start_ns (spans ! j) \<longrightarrow> seq (spans ! i) < seq (spans ! j))"

definition host_of_thread :: "span_event list \<Rightarrow> int \<times> int \<Rightarrow> span_event set" where
  "host_of_thread spans key = {s \<in> set spans. is_host_work s \<and> thread_key s = key}"

lemma rank_span_rank:
  assumes "ties_in_order spans" "i < length spans" "j < length spans"
  shows "rank_of (sp_start spans) (sp_end spans) i \<le> rank_of (sp_start spans) (sp_end spans) j
    \<longleftrightarrow> span_rank (spans ! i) \<le> span_rank (spans ! j)"
proof (cases "start_ns (spans ! i) = start_ns (spans ! j)")
  case True
  have "i \<le> j \<longleftrightarrow> seq (spans ! i) \<le> seq (spans ! j)"
  proof (cases i j rule: linorder_cases)
    case less
    then have "seq (spans ! i) < seq (spans ! j)" using assms True by (simp add: ties_in_order_def)
    then show ?thesis using less by simp
  next
    case greater
    then have "seq (spans ! j) < seq (spans ! i)" using assms True by (simp add: ties_in_order_def)
    then show ?thesis using greater by simp
  qed simp
  then show ?thesis using True
    by (auto simp: rank_of_def span_rank_def sp_start_def sp_end_def less_eq_prod_def less_prod_def)
next
  case False
  then show ?thesis
    by (auto simp: rank_of_def span_rank_def sp_start_def sp_end_def less_eq_prod_def less_prod_def)
qed

lemma exclusive_owned_value:
  assumes "ties_in_order spans" "i < length spans"
  shows "dict_get (exclusive_owned spans) i 0 = (if is_host_work (spans ! i)
    then span_time (host_of_thread spans (thread_key (spans ! i))) (spans ! i) else 0)"
proof (cases "is_host_work (spans ! i)")
  case True
  let ?key = "thread_key (spans ! i)" and ?S = "host_of_thread spans (thread_key (spans ! i))"
  show ?thesis
  proof (cases "is_sampled (spans ! i)")
    case True
    have "start_ns (spans ! i) \<in> thread_cells spans ?key
        \<longleftrightarrow> (\<exists>x\<in>?S. \<not> is_sampled x \<and> start_ns x \<le> start_ns (spans ! i) \<and> start_ns (spans ! i) < end_ns x)"
      by (fastforce simp: thread_cells_def thread_idxs_def host_of_thread_def in_set_conv_nth)
    then show ?thesis using True assms(2) unfolding exclusive_owned_get by (simp add: span_time_def)
  next
    case False
    have "thread_owned spans (set (thread_idxs spans ?key)) i
        = {c. start_ns (spans ! i) \<le> c \<and> c < end_ns (spans ! i)
          \<and> (\<forall>x\<in>?S. \<not> is_sampled x \<and> start_ns x \<le> c \<and> c < end_ns x \<longrightarrow> span_rank (spans ! i) \<le> span_rank x)}"
    proof (rule Collect_cong [of "\<lambda>c. owns (sp_start spans) (sp_end spans) (rank_of (sp_start spans) (sp_end spans))
          (set (thread_idxs spans ?key)) i c", folded owned_cells_def])
      fix c
      have "(\<forall>j\<in>live (sp_start spans) (sp_end spans) (set (thread_idxs spans ?key)) c.
            rank_of (sp_start spans) (sp_end spans) i \<le> rank_of (sp_start spans) (sp_end spans) j)
          \<longleftrightarrow> (\<forall>j<length spans. is_host_work (spans ! j) \<and> thread_key (spans ! j) = ?key \<and> \<not> is_sampled (spans ! j)
              \<and> start_ns (spans ! j) \<le> c \<and> c < end_ns (spans ! j) \<longrightarrow> span_rank (spans ! i) \<le> span_rank (spans ! j))"
        using rank_span_rank [OF assms] by (auto simp: live_def thread_idxs_def sp_start_def sp_end_def)
      also have "\<dots> \<longleftrightarrow> (\<forall>x\<in>?S. \<not> is_sampled x \<and> start_ns x \<le> c \<and> c < end_ns x \<longrightarrow> span_rank (spans ! i) \<le> span_rank x)"
        by (auto simp: host_of_thread_def in_set_conv_nth)
      finally show "owns (sp_start spans) (sp_end spans) (rank_of (sp_start spans) (sp_end spans))
            (set (thread_idxs spans ?key)) i c \<longleftrightarrow> start_ns (spans ! i) \<le> c \<and> c < end_ns (spans ! i)
          \<and> (\<forall>x\<in>?S. \<not> is_sampled x \<and> start_ns x \<le> c \<and> c < end_ns x \<longrightarrow> span_rank (spans ! i) \<le> span_rank x)"
        unfolding owns_def using True False assms(2)
        by (auto simp: live_def thread_idxs_def sp_start_def sp_end_def)
    qed
    then show ?thesis using True False assms(2) unfolding exclusive_owned_get by (simp add: span_time_def)
  qed
qed (simp add: exclusive_owned_get)

lemma ties_sorted:
  assumes "distinct (map seq spans)" "sorted (map start_key spans)"
  shows "ties_in_order spans"
  unfolding ties_in_order_def
proof (intro allI impI)
  fix i j assume ij: "i < j" "j < length spans" "start_ns (spans ! i) = start_ns (spans ! j)"
  then have "start_key (spans ! i) \<le> start_key (spans ! j)" using sorted_nth_mono [OF assms(2), of i j] by simp
  moreover have "seq (spans ! i) \<noteq> seq (spans ! j)"
    using ij assms(1) by (auto simp: distinct_conv_nth)
  ultimately show "seq (spans ! i) < seq (spans ! j)" using ij(3) by (auto simp: start_key_def)
qed

lemma ties_seq: "sorted_wrt (<) (map seq spans) \<Longrightarrow> ties_in_order spans"
  unfolding ties_in_order_def by (auto simp: sorted_wrt_iff_nth_less)

section \<open>The contract of a store\<close>

locale span_store =
  fixes iter :: "'st \<Rightarrow> span_iter" and spans :: "'st \<Rightarrow> span_event list" and ok :: "'st \<Rightarrow> bool"
  assumes iter_all: "ok st \<Longrightarrow> iter st any_span = spans st"
    and iter_thread: "ok st \<Longrightarrow> iter st (any_span\<lparr>q_order := StartOrder, q_pid := Some p, q_tid := Some t\<rparr>)
      = sort_key start_key (filter (\<lambda>s. thread_key s = (p, t)) (spans st))"
    and seqs_increase: "ok st \<Longrightarrow> sorted_wrt (<) (map seq (spans st))"

lemma host_span_eq: "host_span s = is_host_work s"
  by (auto simp: host_span_def is_host_work_def)

lemma exclusive_scan_rows:
  "dict_get (rows (fold exclusive_scan xs a)) k 0 = dict_get (rows a) k 0
     + (\<Sum>s\<leftarrow>xs. if 0 < duration_ns s \<and> bucket_of_span s \<noteq> Annotation \<and> is_device_timed s \<and> agg_key_of s True = k
                then duration_ns s else 0)"
  by (induction xs arbitrary: a) (auto simp: exclusive_scan_def)

lemma exclusive_scan_threads:
  "threads (fold exclusive_scan xs a) = threads a \<union> thread_key ` set (filter is_host_work xs)"
  by (induction xs arbitrary: a) (auto simp: exclusive_scan_def is_host_work_def thread_key_def)

definition thread_rows :: "span_event list \<Rightarrow> agg_key \<Rightarrow> int \<times> int \<Rightarrow> int" where
  "thread_rows spans k th =
     (\<Sum>s\<in>host_of_thread spans th. if agg_key_of s False = k then span_time (host_of_thread spans th) s else 0)"

lemma sum_nth_set: "distinct xs \<Longrightarrow> (\<Sum>i<length xs. g (xs ! i)) = (\<Sum>x\<in>set xs. g x :: int)"
  by (rule sum_over_distinct [symmetric])

lemma sum_upt_set: "distinct xs \<Longrightarrow> (\<Sum>i\<leftarrow>[0..<length xs]. g (xs ! i)) = (\<Sum>x\<in>set xs. g x :: int)"
  by (simp add: sum_nth_set [symmetric] sum_list_distinct_conv_sum_set atLeast0LessThan)

lemma strict_start_key:
  assumes "distinct (map seq xs)" "sorted (map start_key xs)"
  shows "sorted_wrt (\<lambda>a b. (start_ns a, seq a) < (start_ns b, seq b)) xs"
proof (rule sorted_wrt_iff_nth_less [THEN iffD2], intro allI impI)
  fix i j assume ij: "i < j" "j < length xs"
  then have "start_key (xs ! i) \<le> start_key (xs ! j)" using sorted_nth_mono [OF assms(2), of i j] by simp
  moreover have "seq (xs ! i) \<noteq> seq (xs ! j)" using ij assms(1) by (auto simp: distinct_conv_nth)
  ultimately show "(start_ns (xs ! i), seq (xs ! i)) < (start_ns (xs ! j), seq (xs ! j))"
    by (auto simp: start_key_def less_eq_prod_def less_prod_def)
qed

context span_store
begin

lemma spans_distinct:
  assumes "ok st"
  shows "distinct (map seq (spans st))" "distinct (spans st)"
proof -
  show "distinct (map seq (spans st))"
    using seqs_increase [OF assms] by (rule strict_sorted_iff [THEN iffD1, THEN conjunct2])
  then show "distinct (spans st)" by (rule distinct_map [THEN iffD1, THEN conjunct1])
qed

text \<open>The spans one thread's sweep is fed.\<close>

lemma thread_feed:
  fixes th :: "int \<times> int"
  assumes "ok st"
  defines "L \<equiv> filter host_span (iter st (any_span\<lparr>q_order := StartOrder, q_pid := Some (fst th), q_tid := Some (snd th)\<rparr>))"
  shows "set L = host_of_thread (spans st) th"
    and "sorted_wrt (\<lambda>a b. (start_ns a, seq a) < (start_ns b, seq b)) L" and "ties_in_order L" and "distinct L"
proof -
  have L: "L = sort_key start_key (filter host_span (filter (\<lambda>s. thread_key s = th) (spans st)))"
    unfolding L_def using iter_thread [OF assms(1), where p = "fst th" and t = "snd th"]
    by (simp add: filter_sort del: filter_filter)
  show "set L = host_of_thread (spans st) th" unfolding L by (auto simp: host_of_thread_def host_span_eq)
  have "mset (map seq L) = mset (map seq (filter host_span (filter (\<lambda>s. thread_key s = th) (spans st))))"
    unfolding L by simp
  moreover have "distinct (map seq (filter host_span (filter (\<lambda>s. thread_key s = th) (spans st))))"
    using spans_distinct(1) [OF assms(1)] by (simp add: distinct_map_filter)
  ultimately have d: "distinct (map seq L)" by (metis mset_eq_imp_distinct_iff)
  have s: "sorted (map start_key L)" unfolding L by simp
  show "sorted_wrt (\<lambda>a b. (start_ns a, seq a) < (start_ns b, seq b)) L" using d s by (rule strict_start_key)
  show "ties_in_order L" using d s by (rule ties_sorted)
  show "distinct L" using d by (rule distinct_map [THEN iffD1, THEN conjunct1])
qed

lemma thread_sweep_rows:
  assumes "ok st"
  shows "\<exists>a'. exclusive_thread_sweep (filter host_span
        (iter st (any_span\<lparr>q_order := StartOrder, q_pid := Some (fst th), q_tid := Some (snd th)\<rparr>))) a = Some a'
    \<and> (\<forall>k. dict_get (rows a') k 0 = dict_get (rows a) k 0 + thread_rows (spans st) k th)"
proof -
  let ?L = "filter host_span (iter st (any_span\<lparr>q_order := StartOrder, q_pid := Some (fst th), q_tid := Some (snd th)\<rparr>))"
  note f = thread_feed [OF assms, of th]
  have host: "\<forall>s\<in>set ?L. is_host_work s \<and> thread_key s = th" unfolding f(1) by (auto simp: host_of_thread_def)
  have H: "host_of_thread ?L th = host_of_thread (spans st) th"
    unfolding host_of_thread_def f(1) by auto
  have own: "dict_get (exclusive_owned ?L) i 0 = span_time (host_of_thread (spans st) th) (?L ! i)" if "i < length ?L" for i
    using exclusive_owned_value [OF f(3) that] host nth_mem [OF that] H by auto
  have "(\<Sum>i<length ?L. if agg_key_of (?L ! i) False = k then dict_get (exclusive_owned ?L) i 0 else 0)
      = thread_rows (spans st) k th" for k
  proof -
    have "(\<Sum>i<length ?L. if agg_key_of (?L ! i) False = k then dict_get (exclusive_owned ?L) i 0 else 0)
        = (\<Sum>i<length ?L. if agg_key_of (?L ! i) False = k then span_time (host_of_thread (spans st) th) (?L ! i) else 0)"
      using own by (intro sum.cong) auto
    also have "\<dots> = (\<Sum>s\<in>set ?L. if agg_key_of s False = k then span_time (host_of_thread (spans st) th) s else 0)"
      by (rule sum_nth_set [OF f(4)])
    finally show ?thesis unfolding thread_rows_def f(1) .
  qed
  then show ?thesis using stream_sweep_batch [OF f(2) host, of a] by simp
qed

lemma sweep_threads_rows:
  assumes "ok st"
  shows "\<exists>a'. sweep_threads (iter st) ts a = Some a'
    \<and> (\<forall>k. dict_get (rows a') k 0 = dict_get (rows a) k 0 + (\<Sum>th\<leftarrow>ts. thread_rows (spans st) k th))"
proof (induction ts arbitrary: a)
  case (Cons th ts)
  obtain a1 where a1: "exclusive_thread_sweep (filter host_span
        (iter st (any_span\<lparr>q_order := StartOrder, q_pid := Some (fst th), q_tid := Some (snd th)\<rparr>))) a = Some a1"
    and r1: "\<And>k. dict_get (rows a1) k 0 = dict_get (rows a) k 0 + thread_rows (spans st) k th"
    using thread_sweep_rows [OF assms, of th a] by blast
  have "sweep_threads (iter st) (th # ts) a = sweep_threads (iter st) ts a1"
    using a1 by (simp add: sweep_threads_def split_beta)
  then show ?case using Cons.IH [of a1] r1 by (simp add: add.assoc)
qed (simp add: sweep_threads_def)

lemma exclusive_rows:
  assumes "ok st"
  shows "\<exists>a. compute_exclusive (iter st) = Some a
    \<and> (\<forall>k. dict_get (rows a) k 0
        = dict_get (exclusive_totals (spans st) (\<lambda>i s. agg_key_of s (is_device_timed s)) True) k 0)"
proof -
  let ?S = "spans st" and ?a = "fold exclusive_scan (spans st) empty_aggregate"
  let ?dev = "\<lambda>s. 0 < duration_ns s \<and> bucket_of_span s \<noteq> Annotation \<and> is_device_timed s"
  let ?ths = "thread_key ` set (filter is_host_work ?S)"
  have ths: "threads ?a = ?ths" by (simp add: exclusive_scan_threads empty_aggregate_def)
  have d: "distinct ?S" by (rule spans_distinct(2) [OF assms])
  obtain a' where a': "sweep_threads (iter st) (sorted_list_of_set ?ths) ?a = Some a'"
    and r: "\<And>k. dict_get (rows a') k 0 = dict_get (rows ?a) k 0 + (\<Sum>th\<leftarrow>sorted_list_of_set ?ths. thread_rows ?S k th)"
    using sweep_threads_rows [OF assms] by blast
  have "dict_get (rows a') k 0 = dict_get (exclusive_totals ?S (\<lambda>i s. agg_key_of s (is_device_timed s)) True) k 0" for k
  proof -
    let ?host = "\<lambda>s. if is_host_work s \<and> agg_key_of s False = k then span_time (host_of_thread ?S (thread_key s)) s else 0"
    let ?devs = "\<lambda>s. if ?dev s \<and> agg_key_of s True = k then duration_ns s else 0"
    have "(\<Sum>th\<leftarrow>sorted_list_of_set ?ths. thread_rows ?S k th) = (\<Sum>th\<in>?ths. thread_rows ?S k th)"
      by (simp add: sum_list_distinct_conv_sum_set)
    also have "\<dots> = (\<Sum>th\<in>?ths. \<Sum>s\<in>{s \<in> set (filter is_host_work ?S). thread_key s = th}. ?host s)"
      unfolding thread_rows_def host_of_thread_def by (intro sum.cong) auto
    also have "\<dots> = (\<Sum>s\<in>set (filter is_host_work ?S). ?host s)" by (rule sum.image_gen [symmetric]) simp
    also have "\<dots> = (\<Sum>s\<in>set ?S. ?host s)" by (intro sum.mono_neutral_left) auto
    finally have host: "(\<Sum>th\<leftarrow>sorted_list_of_set ?ths. thread_rows ?S k th) = (\<Sum>s\<in>set ?S. ?host s)" .
    have dev: "dict_get (rows ?a) k 0 = (\<Sum>s\<in>set ?S. ?devs s)"
      unfolding exclusive_scan_rows using d
      by (simp add: empty_aggregate_def sum_list_distinct_conv_sum_set conj_assoc)
    have c: "(if agg_key_of (?S ! i) (is_device_timed (?S ! i)) = k then contribution ?S True i else 0)
        = ?devs (?S ! i) + ?host (?S ! i)" if "i < length ?S" for i
      using exclusive_owned_value [OF ties_seq [OF seqs_increase [OF assms]] that]
      by (auto simp: contribution_def Let_def is_host_work_def)
    have "dict_get (exclusive_totals ?S (\<lambda>i s. agg_key_of s (is_device_timed s)) True) k 0
        = (\<Sum>i\<leftarrow>[0..<length ?S]. ?devs (?S ! i) + ?host (?S ! i))"
      unfolding exclusive_totals_get using c by (intro arg_cong [where f = sum_list] map_cong) auto
    also have "\<dots> = (\<Sum>s\<in>set ?S. ?devs s + ?host s)" by (rule sum_upt_set [OF d])
    finally show ?thesis unfolding r dev host by (simp add: sum.distrib)
  qed
  moreover have "compute_exclusive (iter st) = Some a'"
    using a' by (simp add: compute_exclusive_def Let_def iter_all [OF assms] ths)
  ultimately show ?thesis by blast
qed

end

interpretation mem: span_store "store_iter rx" m_spans store_ok for rx
proof
  fix st :: memory_store and p t :: int
  assume ok: "store_ok st"
  show "store_iter rx st any_span = m_spans st"
    using store_iter_eq [OF ok, of any_span rx]
    by (simp add: any_span_def query_spec_def order_spans_def in_lane_def query_keeps_def)
  show "store_iter rx st (any_span\<lparr>q_order := StartOrder, q_pid := Some p, q_tid := Some t\<rparr>)
      = sort_key start_key (filter (\<lambda>s. thread_key s = (p, t)) (m_spans st))"
    using store_iter_eq [OF ok, of "any_span\<lparr>q_order := StartOrder, q_pid := Some p, q_tid := Some t\<rparr>" rx]
    by (auto simp: any_span_def query_spec_def order_spans_def in_lane_def query_keeps_def thread_key_def
        intro!: arg_cong [where f = "sort_key start_key"] filter_cong)
  show "sorted_wrt (<) (map seq (m_spans st))" using ok by (simp add: store_ok_def)
qed

section \<open>Per-name statistics\<close>

definition stat_key :: "span_event \<Rightarrow> string \<times> string" where
  "stat_key s = (category_value (category s), name s)"

definition stat_of :: "string \<times> string \<Rightarrow> span_event list \<Rightarrow> stat_row" where
  "stat_of key ms = \<lparr>r_name = snd key, r_category = fst key, r_count = int (length ms),
     r_total = sum_list (map duration_ns ms), r_min = Min (duration_ns ` set ms), r_max = Max (duration_ns ` set ms),
     r_avg = 0, r_pct = 0\<rparr>"

lemma stat_of_snoc:
  assumes "ms \<noteq> []"
  shows "stat_of key (ms @ [s]) = (let r = stat_of key ms; d = duration_ns s in
    r\<lparr>r_count := r_count r + 1, r_total := r_total r + d,
      r_min := (if d < r_min r then d else r_min r), r_max := (if d > r_max r then d else r_max r)\<rparr>)"
proof -
  have "(if a < b then a else b) = min a b" "(if b < a then a else b) = max a b" for a b :: int
    by (simp_all add: min_def max_def)
  then show ?thesis using assms by (simp add: stat_of_def Let_def)
qed

lemma stats_get:
  "map_of (fold stat_step spans []) key =
     (if filter (\<lambda>s. stat_key s = key) spans = [] then None else Some (stat_of key (filter (\<lambda>s. stat_key s = key) spans)))"
proof (induction spans rule: rev_induct)
  case (snoc s spans)
  let ?ms = "filter (\<lambda>s. stat_key s = key) spans"
  show ?case
  proof (cases "stat_key s = key")
    case False
    then have "map_of (fold stat_step (spans @ [s]) []) key = map_of (fold stat_step spans []) key"
      by (auto simp: stat_step_def stat_key_def Let_def update_conv' split: option.split)
    then show ?thesis using snoc False by simp
  next
    case True
    then show ?thesis using snoc stat_of_snoc [of ?ms key s]
      by (cases "?ms = []") (auto simp: stat_step_def stat_key_def Let_def update_conv' stat_of_def)
  qed
qed simp

lemma stats_ok: "dict_ok (fold stat_step spans [])"
proof -
  have "dict_ok d \<Longrightarrow> dict_ok (fold stat_step spans d)" for d
    by (induction spans arbitrary: d) (auto simp: stat_step_def Let_def split: option.split)
  then show ?thesis by simp
qed

lemma stats_entries:
  "set (fold stat_step spans []) = (\<lambda>key. (key, stat_of key (filter (\<lambda>s. stat_key s = key) spans))) ` stat_key ` set spans"
proof -
  have "(k, r) \<in> set (fold stat_step spans []) \<longleftrightarrow> map_of (fold stat_step spans []) k = Some r" for k r
    using stats_ok [of spans] by simp
  also have "map_of (fold stat_step spans []) k = Some r
      \<longleftrightarrow> k \<in> stat_key ` set spans \<and> r = stat_of k (filter (\<lambda>s. stat_key s = k) spans)" for k r
    unfolding stats_get by (auto simp: filter_empty_conv)
  finally show ?thesis by (intro set_eqI) (auto simp del: image_iff)
qed

lemma update_total:
  "sum_list (map r_total (map snd (AList.update k r d)))
     = sum_list (map r_total (map snd d)) + r_total r - (case map_of d k of None \<Rightarrow> 0 | Some r0 \<Rightarrow> r_total r0)"
  by (induction d) auto

lemma stat_step_total:
  "sum_list (map r_total (map snd (stat_step s d))) = sum_list (map r_total (map snd d)) + duration_ns s"
  unfolding stat_step_def Let_def
  by (cases "map_of d (category_value (category s), name s)")
    (simp_all only: option.case update_total, simp_all)

lemma stats_total:
  "sum_list (map r_total (map snd (fold stat_step spans []))) = sum_list (map duration_ns spans)"
proof (induction spans rule: rev_induct)
  case (snoc s spans)
  then show ?case using stat_step_total [of s "fold stat_step spans []"] by simp
qed simp

definition finish_row :: "int \<Rightarrow> stat_row \<Rightarrow> stat_row" where
  "finish_row tt r = r\<lparr>r_avg := (if r_count r \<noteq> 0 then of_int (r_total r) / of_int (r_count r) else 0),
     r_pct := 100 * of_int (r_total r) / of_int tt\<rparr>"

definition total_or_one :: "stat_row list \<Rightarrow> int" where
  "total_or_one rs = (if sum_list (map r_total rs) \<noteq> 0 then sum_list (map r_total rs) else 1)"

lemma finish_aggregate_eq:
  "finish_aggregate rs = sort_key (\<lambda>r. - r_total r) (map (finish_row (total_or_one rs)) rs)"
  by (simp add: finish_aggregate_def finish_row_def [abs_def] total_or_one_def Let_def comp_def)

lemma finish_row_fields [simp]:
  "r_total (finish_row tt r) = r_total r" "r_name (finish_row tt r) = r_name r"
  "r_category (finish_row tt r) = r_category r" "r_count (finish_row tt r) = r_count r"
  "r_min (finish_row tt r) = r_min r" "r_max (finish_row tt r) = r_max r"
  by (simp_all add: finish_row_def)

lemma sum_pct: "sum_list (map (\<lambda>r. r_pct (finish_row tt r)) rs) = 100 * of_int (sum_list (map r_total rs)) / of_int tt"
  by (induction rs) (simp_all add: finish_row_def add_divide_distrib distrib_left)

context span_store
begin

lemma stats_rows:
  assumes "ok st"
  shows "sorted (map (\<lambda>r. - r_total r) (aggregate_stats (iter st)))"
    and "r \<in> set (aggregate_stats (iter st)) \<longleftrightarrow> (\<exists>key\<in>stat_key ` set (spans st).
      r = finish_row (total_or_one (map snd (fold stat_step (spans st) [])))
            (stat_of key (filter (\<lambda>s. stat_key s = key) (spans st))))"
    and "distinct (map (\<lambda>r. (r_category r, r_name r)) (aggregate_stats (iter st)))"
    and "sum_list (map duration_ns (spans st)) \<noteq> 0 \<Longrightarrow> sum_list (map r_pct (aggregate_stats (iter st))) = 100"
proof -
  let ?d = "fold stat_step (spans st) []" and ?tt = "total_or_one (map snd (fold stat_step (spans st) []))"
  have eq: "aggregate_stats (iter st) = sort_key (\<lambda>r. - r_total r) (map (finish_row ?tt) (map snd ?d))"
    by (simp only: aggregate_stats_def iter_all [OF assms] finish_aggregate_eq)
  show "sorted (map (\<lambda>r. - r_total r) (aggregate_stats (iter st)))" unfolding eq by simp
  have key: "r_category r = fst k" "r_name r = snd k" if "(k, r) \<in> set ?d" for k r
    using that unfolding stats_entries by (auto simp: stat_of_def)
  show "r \<in> set (aggregate_stats (iter st)) \<longleftrightarrow> (\<exists>key\<in>stat_key ` set (spans st).
      r = finish_row ?tt (stat_of key (filter (\<lambda>s. stat_key s = key) (spans st))))"
    unfolding eq using stats_entries [of "spans st"] by (simp add: image_image) blast
  let ?f = "\<lambda>r. (r_category r, r_name r)" and ?rs = "map (finish_row ?tt) (map snd ?d)"
  have fk: "map ?f ?rs = map fst ?d" using key by (auto simp: prod_eq_iff)
  have "distinct (map ?f ?rs)" unfolding fk by (rule stats_ok)
  moreover have "mset (map ?f (sort_key (\<lambda>r. - r_total r) ?rs)) = mset (map ?f ?rs)"
    by (simp only: mset_map mset_sort)
  ultimately have "distinct (map ?f (sort_key (\<lambda>r. - r_total r) ?rs))"
    using mset_eq_imp_distinct_iff by blast
  then show "distinct (map (\<lambda>r. (r_category r, r_name r)) (aggregate_stats (iter st)))" unfolding eq .
  assume nz: "sum_list (map duration_ns (spans st)) \<noteq> 0"
  have "mset (map r_pct (aggregate_stats (iter st))) = mset (map r_pct (map (finish_row ?tt) (map snd ?d)))"
    unfolding eq by (simp only: mset_map mset_sort)
  then have "sum_list (map r_pct (aggregate_stats (iter st))) = sum_list (map r_pct (map (finish_row ?tt) (map snd ?d)))"
    by (metis sum_mset_sum_list)
  also have "\<dots> = 100 * of_int (sum_list (map r_total (map snd ?d))) / of_int ?tt"
    using sum_pct [of ?tt "map snd ?d"] by (simp add: comp_def)
  also have "\<dots> = 100" using nz stats_total [of "spans st"] by (simp add: total_or_one_def)
  finally show "sum_list (map r_pct (aggregate_stats (iter st))) = 100" .
qed

end

section \<open>Properties\<close>

text \<open>
  C30. The iterator of the in-memory store is a plain filter: whatever combination of lane,
  process, thread, category, window, stack, model, id and event filter is asked for, the
  lane index narrowed by the lane's longest span and the thread index yield exactly the
  stored spans that satisfy it, in the order asked for. Lanes need identifiers without an
  at sign, so that their names are distinct.
\<close>

theorem store_iter_spec:
  assumes "store_reach st" and "q_lane q \<noteq> None \<longrightarrow> idents_ok (m_spans st)"
  shows "store_iter rx st q =
    (case q_order q of SeqOrder \<Rightarrow> (\<lambda>xs. xs) | StartOrder \<Rightarrow> sort_key (\<lambda>s. (start_ns s, seq s)))
      (filter (\<lambda>s. (case q_lane q of None \<Rightarrow> True
                   | Some nm \<Rightarrow> lane_name_of (store_lane_infos (m_spans st)) s = Some nm) \<and> query_keeps rx q s) (m_spans st))"
proof -
  have "store_iter rx st q = query_spec rx (m_spans st) q"
    using store_iter_eq [OF store_reach_ok [OF assms(1)]] assms(2) by blast
  then show ?thesis
    by (simp add: query_spec_def order_spans_def in_lane_def start_key_def [abs_def] split: span_order.split)
qed

theorem store_iter_spec_witness:
  "map name (store_iter (\<lambda>_. None) demo_full (any_span\<lparr>q_order := StartOrder, q_lane := Some ''mpi/thread-7'', q_window := Some (12, 30)\<rparr>))
     = [''recv'', ''send'']"
proof -
  let ?q = "any_span\<lparr>q_order := StartOrder, q_lane := Some ''mpi/thread-7'', q_window := Some (12, 30)\<rparr>"
  have "idents_ok (m_spans demo_full)" by code_simp
  then have h: "q_lane ?q \<noteq> None \<longrightarrow> idents_ok (m_spans demo_full)" by blast
  have "map name (sort_key (\<lambda>s. (start_ns s, seq s)) (filter (\<lambda>s. lane_name_of (store_lane_infos (m_spans demo_full)) s = Some ''mpi/thread-7''
      \<and> query_keeps (\<lambda>_. None) ?q s) (m_spans demo_full))) = [''recv'', ''send'']"
    by code_simp
  then show ?thesis using store_iter_spec [OF demo_full_reach h, of "\<lambda>_. None"] by (simp add: any_span_def)
qed

text \<open>
  C29. The store's exclusive-time aggregate is \<open>ExclusiveTime\<close>'s breakdown: its one pass over
  the device spans and one streaming sweep per host thread never fail, and every row is the
  total \<open>ExclusiveTime\<close> gives for the spans of that process, thread, category, name, bucket
  and side.
\<close>

theorem store_exclusive:
  assumes "store_reach st"
  shows "\<exists>a. compute_exclusive (store_iter rx st) = Some a
    \<and> (\<forall>k. dict_get (rows a) k 0
        = dict_get (exclusive_totals (m_spans st) (\<lambda>i s. agg_key_of s (is_device_timed s)) True) k 0)"
  by (rule mem.exclusive_rows [OF store_reach_ok [OF assms]])

theorem store_exclusive_witness:
  "\<exists>a. compute_exclusive (store_iter (\<lambda>_. None) demo_full) = Some a
     \<and> dict_get (rows a) (1, 7, ''mpi'', ''recv'', Communication, False) 0 = 16"
proof -
  have "dict_get (exclusive_totals (m_spans demo_full) (\<lambda>i s. agg_key_of s (is_device_timed s)) True)
      (1, 7, ''mpi'', ''recv'', Communication, False) 0 = 16"
    by code_simp
  then show ?thesis using store_exclusive [OF demo_full_reach, of "\<lambda>_. None"] by auto
qed

text \<open>
  Property. The per-name statistics: one row per (category, name) of the stored spans, largest
  total first; count, total, shortest and longest are those of the row's spans, and the
  percentages of a trace with time in it add up to 100.
\<close>

theorem store_statistics:
  assumes "store_reach st"
  shows "let stats = aggregate_stats (store_iter rx st) in
      sorted (map (\<lambda>r. - r_total r) stats)
    \<and> distinct (map (\<lambda>r. (r_category r, r_name r)) stats)
    \<and> (\<lambda>r. (r_category r, r_name r)) ` set stats = stat_key ` set (m_spans st)
    \<and> (\<forall>r\<in>set stats. let ms = filter (\<lambda>s. stat_key s = (r_category r, r_name r)) (m_spans st) in
          r_count r = int (length ms) \<and> r_total r = sum_list (map duration_ns ms)
        \<and> r_min r = Min (duration_ns ` set ms) \<and> r_max r = Max (duration_ns ` set ms)
        \<and> r_avg r * of_int (r_count r) = of_int (r_total r))
    \<and> (sum_list (map duration_ns (m_spans st)) \<noteq> 0 \<longrightarrow> sum_list (map r_pct stats) = 100)"
proof -
  define stats where "stats = aggregate_stats (store_iter rx st)"
  note ok = store_reach_ok [OF assms(1)]
  note rows = mem.stats_rows(2) [OF ok, of _ rx, folded stats_def]
  have "r_count r = int (length ms) \<and> r_total r = sum_list (map duration_ns ms)
        \<and> r_min r = Min (duration_ns ` set ms) \<and> r_max r = Max (duration_ns ` set ms)
        \<and> r_avg r * of_int (r_count r) = of_int (r_total r)"
    if r: "r \<in> set stats" and ms: "ms = filter (\<lambda>s. stat_key s = (r_category r, r_name r)) (m_spans st)" for r ms
  proof -
    obtain tt key where k: "key \<in> stat_key ` set (m_spans st)"
      "r = finish_row tt (stat_of key (filter (\<lambda>s. stat_key s = key) (m_spans st)))"
      using r unfolding rows by blast
    have "(r_category r, r_name r) = key" using k(2) by (simp add: stat_of_def)
    then have r: "r = finish_row tt (stat_of key ms)" unfolding ms k(2) by simp
    have "ms \<noteq> []" using k(1) \<open>(r_category r, r_name r) = key\<close> unfolding ms by (auto simp: filter_empty_conv)
    then show ?thesis unfolding r by (simp add: finish_row_def stat_of_def)
  qed
  moreover have "(\<lambda>r. (r_category r, r_name r)) ` set stats = stat_key ` set (m_spans st)"
  proof -
    define g where "g k = finish_row (total_or_one (map snd (fold stat_step (m_spans st) [])))
        (stat_of k (filter (\<lambda>s. stat_key s = k) (m_spans st)))" for k
    have "set stats = g ` stat_key ` set (m_spans st)" using rows unfolding g_def by blast
    moreover have "(r_category (g k), r_name (g k)) = k" for k by (simp add: g_def stat_of_def)
    ultimately show ?thesis by (simp add: image_image)
  qed
  ultimately show ?thesis
    unfolding Let_def stats_def [symmetric] using mem.stats_rows(1,3,4) [OF ok, of rx, folded stats_def] by blast
qed

theorem store_statistics_witness:
  "map r_total (aggregate_stats (store_iter (\<lambda>_. None) demo_full)) = [20, 4]
   \<and> sum_list (map r_pct (aggregate_stats (store_iter (\<lambda>_. None) demo_full))) = 100"
proof -
  have "map r_total (aggregate_stats (store_iter (\<lambda>_. None) demo_full)) = [20, 4]" by code_simp
  moreover have "sum_list (map duration_ns (m_spans demo_full)) \<noteq> 0" by code_simp
  ultimately show ?thesis using store_statistics [OF demo_full_reach, of "\<lambda>_. None"] by (simp add: Let_def)
qed

section \<open>Lanes\<close>

lemma mem_lane_infos: "store_ok st \<Longrightarrow> lane_infos (store_iter rx st) = store_lane_infos (m_spans st)"
  by (simp add: lane_infos_def store_lane_infos_eq mem.iter_all)

lemma named_iff:
  assumes "idents_ok spans" "s \<in> set spans" "l \<in> set (store_lane_infos spans)"
  shows "lane_name_of (store_lane_infos spans) s = Some (l_name l) \<longleftrightarrow> info_key l = span_key s"
proof
  obtain k where k: "k \<in> set (store_lane_infos spans)" "info_key k = span_key s" using info_has [OF assms(2)] by blast
  assume "lane_name_of (store_lane_infos spans) s = Some (l_name l)"
  then have "l_name k = l_name l" using lane_name_of_iff [OF k] by simp
  then have "k = l" using k(1) assms(3) lane_names_inj [OF assms(1)] by (auto simp: distinct_map inj_on_def)
  then show "info_key l = span_key s" using k(2) by simp
qed (rule lane_name_of_iff [OF assms(3)])

lemma info_bounds:
  assumes "l \<in> set (store_lane_infos spans)" "s \<in> set spans" "info_key l = span_key s"
  shows "l_min_start l \<le> start_ns s" "end_ns s \<le> l_max_end l" "duration_ns s \<le> l_max_dur l"
proof -
  have "s \<in> set (lane_members spans (info_key l))" using assms(2,3) by (simp add: lane_members_def span_key_def)
  then show "l_min_start l \<le> start_ns s" "end_ns s \<le> l_max_end l" "duration_ns s \<le> l_max_dur l"
    using info_members [OF assms(1)] by auto
qed

lemma sum_members:
  assumes "distinct keys" "\<And>s. s \<in> set spans \<Longrightarrow> span_key s \<in> set keys"
  shows "(\<Sum>k\<leftarrow>keys. int (length (lane_members spans k))) = int (length spans)"
  using assms(2)
proof (induction spans)
  case (Cons s spans)
  have split: "int (length (lane_members (s # spans) k)) = int (length (lane_members spans k)) + (if k = span_key s then 1 else 0)" for k
    by (simp add: lane_members_def span_key_def)
  have "(\<Sum>k\<leftarrow>keys. if k = span_key s then 1 else 0 :: int) = 1"
    using assms(1) Cons.prems by (simp add: sum_list_distinct_conv_sum_set)
  then show ?case using Cons by (simp add: split sum_list_addf)
qed (simp add: lane_members_def)

text \<open>
  Property. Every stored span is displayed on exactly one lane, the lanes' counts add up to the
  number of spans, and a lane's extent and longest duration bound all of its spans.
\<close>

theorem lanes_partition:
  assumes "store_reach st" "idents_ok (m_spans st)"
  shows "let infos = lane_infos (store_iter rx st) in
      (\<forall>s\<in>set (m_spans st). \<exists>!l. l \<in> set infos \<and> lane_name_of infos s = Some (l_name l))
    \<and> (\<Sum>l\<leftarrow>infos. l_count l) = int (length (m_spans st))
    \<and> (\<forall>l\<in>set infos. \<forall>s\<in>set (m_spans st). lane_name_of infos s = Some (l_name l) \<longrightarrow>
          l_min_start l \<le> start_ns s \<and> end_ns s \<le> l_max_end l \<and> duration_ns s \<le> l_max_dur l)"
proof -
  let ?spans = "m_spans st" and ?infos = "store_lane_infos (m_spans st)"
  have "\<exists>!l. l \<in> set ?infos \<and> lane_name_of ?infos s = Some (l_name l)" if s: "s \<in> set ?spans" for s
  proof -
    obtain l where l: "l \<in> set ?infos" "info_key l = span_key s" using info_has [OF s] by blast
    show ?thesis
    proof (rule ex1I [of _ l])
      show "l \<in> set ?infos \<and> lane_name_of ?infos s = Some (l_name l)" using l lane_name_of_iff by blast
      fix k assume "k \<in> set ?infos \<and> lane_name_of ?infos s = Some (l_name k)"
      then have "k \<in> set ?infos" "info_key k = info_key l" using named_iff [OF assms(2) s] l(2) by auto
      then show "k = l" using l(1) info_keys_distinct [of ?spans] by (auto simp: distinct_map inj_on_def)
    qed
  qed
  moreover have "(\<Sum>l\<leftarrow>?infos. l_count l) = int (length ?spans)"
  proof -
    have "(\<Sum>l\<leftarrow>?infos. l_count l) = (\<Sum>k\<leftarrow>map info_key ?infos. int (length (lane_members ?spans k)))"
      using info_members(2) [of _ ?spans] by (simp add: comp_def cong: map_cong)
    also have "\<dots> = int (length ?spans)"
    proof (rule sum_members [OF info_keys_distinct])
      fix s assume "s \<in> set ?spans"
      then show "span_key s \<in> set (map info_key ?infos)" using info_has by force
    qed
    finally show ?thesis .
  qed
  moreover have "l_min_start l \<le> start_ns s \<and> end_ns s \<le> l_max_end l \<and> duration_ns s \<le> l_max_dur l"
    if "l \<in> set ?infos" "s \<in> set ?spans" "lane_name_of ?infos s = Some (l_name l)" for l s
    using info_bounds [OF that(1,2)] named_iff [OF assms(2) that(2,1)] that(3) by blast
  ultimately show ?thesis
    unfolding Let_def mem_lane_infos [OF store_reach_ok [OF assms(1)]] by blast
qed

theorem lanes_partition_witness:
  "map l_name (lane_infos (store_iter (\<lambda>_. None) demo_full)) = [''mpi/thread-7'']
   \<and> (\<Sum>l\<leftarrow>lane_infos (store_iter (\<lambda>_. None) demo_full). l_count l) = 2"
proof -
  have i: "idents_ok (m_spans demo_full)" and n: "map l_name (lane_infos (store_iter (\<lambda>_. None) demo_full)) = [''mpi/thread-7'']"
    and l: "length (m_spans demo_full) = 2" by code_simp+
  show ?thesis using lanes_partition [OF demo_full_reach i, of "\<lambda>_. None"] n l by (simp add: Let_def)
qed

lemma lanes_fold_get:
  assumes "distinct (map l_name ls)" "dict_get out nm [] = (if nm \<in> l_name ` set ls then [] else v)"
  shows "dict_get (fold (\<lambda>ln out. if skip ln then out
      else let spans = f ln in if spans \<noteq> [] then AList.update (l_name ln) spans out else out) ls out) nm []
    = (case filter (\<lambda>l. l_name l = nm) ls of [] \<Rightarrow> v | l # _ \<Rightarrow> if skip l then [] else f l)"
  using assms
proof (induction ls arbitrary: out)
  case (Cons l ls)
  let ?out = "if skip l then out else let spans = f l in if spans \<noteq> [] then AList.update (l_name l) spans out else out"
  show ?case
  proof (cases "l_name l = nm")
    case True
    then have "nm \<notin> l_name ` set ls" using Cons.prems(1) by auto
    then have none: "filter (\<lambda>l. l_name l = nm) ls = []" by (auto simp: filter_empty_conv)
    have keep: "dict_get (fold (\<lambda>ln out. if skip ln then out
      else let spans = f ln in if spans \<noteq> [] then AList.update (l_name ln) spans out else out) ls out') nm [] = dict_get out' nm []" for out'
      using \<open>nm \<notin> l_name ` set ls\<close> by (induction ls arbitrary: out') (auto simp: Let_def)
    show ?thesis using True Cons.prems(2) none by (simp add: keep Let_def)
  next
    case False
    have "dict_get ?out nm [] = dict_get out nm []" using False by (simp add: Let_def)
    then show ?thesis using Cons.IH [of ?out] Cons.prems False by auto
  qed
qed simp

lemma sort_nil: "\<forall>x\<in>set xs. \<not> P x \<Longrightarrow> sort_key f (filter P xs) = []"
  by (simp add: filter_False)

lemma window_loop_None: "window_loop None out ss = out @ ss"
  by (induction ss arbitrary: out) simp_all

text \<open>
  Property. The spans of a window, by lane: skipping the lanes whose extent misses the window loses
  nothing; for every lane name the result holds the lane's spans that overlap the window and
  pass the filter, in (start, arrival) order.
\<close>

theorem lanes_in_window_spec:
  assumes "store_reach st" "idents_ok (m_spans st)"
  shows "dict_get (lanes_in_window (store_iter rx st) a b filt None) nm []
    = sort_key start_key (filter (\<lambda>s. lane_name_of (store_lane_infos (m_spans st)) s = Some nm
        \<and> start_ns s \<le> b \<and> a < end_ns s \<and> (case filt of None \<Rightarrow> True | Some f \<Rightarrow> filter_is_empty f \<or> filter_matches rx f s)) (m_spans st))"
proof -
  let ?spans = "m_spans st" and ?infos = "store_lane_infos (m_spans st)"
  note ok = store_reach_ok [OF assms(1)]
  let ?R = "\<lambda>nm. sort_key start_key (filter (\<lambda>s. lane_name_of ?infos s = Some nm
        \<and> start_ns s \<le> b \<and> a < end_ns s \<and> (case filt of None \<Rightarrow> True | Some f \<Rightarrow> filter_is_empty f \<or> filter_matches rx f s)) ?spans)"
  have keep: "query_keeps rx (lane_query nm a b filt) s \<longleftrightarrow> start_ns s \<le> b \<and> a < end_ns s
      \<and> (case filt of None \<Rightarrow> True | Some f \<Rightarrow> filter_is_empty f \<or> filter_matches rx f s)" for nm s
    by (cases filt) (auto simp: query_keeps_def lane_query_def any_span_def)
  have q: "store_iter rx st (lane_query nm a b filt) = ?R nm" for nm
    using store_iter_eq [OF ok, of "lane_query nm a b filt" rx] assms(2) keep
    by (simp add: query_spec_def order_spans_def in_lane_def lane_query_def any_span_def)
  have win: "store_window (store_iter rx st) nm a b filt None = ?R nm" for nm
    by (simp add: store_window_def window_loop_None q)
  have skip: "?R (l_name l) = []" if "l \<in> set ?infos" "l_max_end l \<le> a \<or> b < l_min_start l" for l
  proof -
    have "\<not> (start_ns s \<le> b \<and> a < end_ns s)" if "s \<in> set ?spans" "lane_name_of ?infos s = Some (l_name l)" for s
      using info_bounds [OF \<open>l \<in> set ?infos\<close> that(1)] named_iff [OF assms(2) that(1) \<open>l \<in> set ?infos\<close>] that(2)
        \<open>l_max_end l \<le> a \<or> b < l_min_start l\<close> by fastforce
    then show ?thesis by (intro sort_nil) blast
  qed
  have "dict_get (lanes_in_window (store_iter rx st) a b filt None) nm []
      = (case filter (\<lambda>l. l_name l = nm) ?infos of [] \<Rightarrow> [] | l # _ \<Rightarrow>
          if l_max_end l \<le> a \<or> b < l_min_start l then [] else ?R (l_name l))"
    unfolding lanes_in_window_def mem_lane_infos [OF ok] win
    by (rule lanes_fold_get [OF lane_names_inj [OF assms(2)]]) simp
  also have "\<dots> = ?R nm"
  proof (cases "filter (\<lambda>l. l_name l = nm) ?infos")
    case Nil
    have "lane_name_of ?infos s \<noteq> Some nm" if s: "s \<in> set ?spans" for s
    proof
      assume nm: "lane_name_of ?infos s = Some nm"
      obtain l where l: "l \<in> set ?infos" "info_key l = span_key s" using info_has [OF s] by blast
      then have "l_name l = nm" using lane_name_of_iff nm by fastforce
      then show False using l(1) Nil by (auto simp: filter_empty_conv)
    qed
    then have "?R nm = []" by (intro sort_nil) blast
    then show ?thesis using Nil by simp
  next
    case (Cons l ls)
    then have "l \<in> set (filter (\<lambda>l. l_name l = nm) ?infos)" by simp
    then have l: "l \<in> set ?infos" "l_name l = nm" by auto
    then show ?thesis using Cons skip [OF l(1)] by auto
  qed
  finally show ?thesis .
qed

theorem lanes_in_window_spec_witness:
  "map name (dict_get (lanes_in_window (store_iter (\<lambda>_. None) demo_full) 12 30 None None) ''mpi/thread-7'' []) = [''recv'', ''send'']"
proof -
  have i: "idents_ok (m_spans demo_full)" by code_simp
  have "map name (sort_key start_key (filter (\<lambda>s. lane_name_of (store_lane_infos (m_spans demo_full)) s = Some ''mpi/thread-7''
        \<and> start_ns s \<le> 30 \<and> 12 < end_ns s \<and> (case None of None \<Rightarrow> True | Some f \<Rightarrow> filter_is_empty f \<or> filter_matches (\<lambda>_. None) f s))
      (m_spans demo_full))) = [''recv'', ''send'']"
    by code_simp
  then show ?thesis using lanes_in_window_spec [OF demo_full_reach i, of "\<lambda>_. None" 12 30 None "''mpi/thread-7''"] by simp
qed

end
