(* ===== verification/Streamed_Graph.thy ===== *)
theory Streamed_Graph
  imports Array_Path Read_Spans Store_Queries
begin

text \<open>
  \<^verbatim>\<open>src/src/analysis/criticalpath.py\<close>, \<open>build_edges\<close>: the edges of a trace built from queries of its
  store, one process or one category at a time, with the compact builders and the streamed program
  order, and \<open>load_or_build_graph\<close>, which keeps them with the store. A query gives spans with their
  ordinals, found by bisection in the sequence numbers. The instants, the counters and the health of
  the capture are read from the store and the trace's metadata.
\<close>

record trace_state =
  ts_store :: memory_store
  ts_health :: capture_health

section \<open>Queries\<close>

abbreviation run_query :: "trace_state \<Rightarrow> span_query \<Rightarrow> span_event list" where
  "run_query t q \<equiv> store_iter (\<lambda>_. None) (ts_store t) q"

definition ordinal_of :: "trace_state \<Rightarrow> int \<Rightarrow> nat" where
  "ordinal_of t q = bisect_left (span_seqs (ts_store t)) q"

definition subset_of :: "trace_state \<Rightarrow> span_query \<Rightarrow> spans" where
  "subset_of t q = map (\<lambda>s. (ordinal_of t (seq s), s)) (run_query t q)"

definition trace_pids :: "trace_state \<Rightarrow> int list" where
  "trace_pids t = store_pids (run_query t)"

definition capture_loss :: "trace_state \<Rightarrow> string list \<Rightarrow> loss" where
  "capture_loss t hooks = event_loss_pids (ts_health t) (trace_pids t) hooks"

section \<open>Compact builders\<close>

text \<open>Program order, one thread at a time in start order.\<close>

definition streamed_thread :: "trace_state \<Rightarrow> int \<times> int \<Rightarrow> sedge list" where
  "streamed_thread t k =
     (let sub = filter (\<lambda>(i, s). on_thread s)
            (subset_of t (any_span\<lparr>q_order := StartOrder, q_pid := Some (fst k), q_tid := Some (snd k)\<rparr>))
      in snd (snd (fold (order_step sub) (map fst sub) ([], None, []))))"

definition streamed_program_order :: "trace_state \<Rightarrow> sedge list" where
  "streamed_program_order t = concat (map (streamed_thread t) (store_threads (run_query t)))"

text \<open>What the two builders for old traces read of a process, in ordinal order.\<close>

definition legacy_gpu :: "trace_state \<Rightarrow> int \<Rightarrow> spans" where
  "legacy_gpu t p =
     (let gpu = filter (\<lambda>(i, s). \<not> is_new_format s) (subset_of t (any_span\<lparr>q_pid := Some p, q_categories := Some GPU_CATS\<rparr>));
          sync = filter (\<lambda>(i, s). \<not> is_new_format s \<and> (tag s ''stream'' \<noteq> None \<or> name s \<in> set DEVICE_SYNC_NAMES))
            (subset_of t (any_span\<lparr>q_pid := Some p, q_categories := Some [''sync'']\<rparr>))
      in sort_key fst (fold (\<lambda>(i, s). AList.update i s) sync gpu))"

type_synonym id_child = "nat \<times> int \<times> string \<times> int \<times> string"

definition compact_id_step :: "nat \<times> span_event \<Rightarrow> id_index \<times> id_child list \<Rightarrow> id_index \<times> id_child list" where
  "compact_id_step p st =
     (let (i, s) = p; (ix, children) = st in
      if is_annotation s then st
      else (if span_id s \<noteq> [] then index_add s i ix else ix,
            if parent_span_id s \<noteq> [] \<and> \<not> is_device_span s
            then children @ [(i, pid s, parent_span_id s, start_ns s, id_family s)] else children))"

definition compact_id_links :: "id_index \<Rightarrow> id_child \<Rightarrow> sedge list" where
  "compact_id_links ix c =
     (let (i, p, psid, start, family) = c in
      concat (map (\<lambda>rid. case index_get ix p rid start family of
           None \<Rightarrow> []
         | Some parent \<Rightarrow> if parent \<noteq> i then [gated_by i parent S_explicit_span_id Certain] else []) (parse_multi psid)))"

definition compact_explicit_edges :: "trace_state \<Rightarrow> sedge list" where
  "compact_explicit_edges t =
     (let (ix, children) = fold compact_id_step (subset_of t (any_span\<lparr>q_with_ids := Some True\<rparr>)) (empty_index, [])
      in concat (map (compact_id_links ix) children))"

definition compact_mpi_step :: "nat \<times> span_event \<Rightarrow> matcher \<times> collective_info \<times> ritem list \<Rightarrow> matcher \<times> collective_info \<times> ritem list" where
  "compact_mpi_step p st =
     (let (i, s) = p; (m, info, colls) = st in
      (matcher_add i s m, info_add i s info,
       case rendezvous_item s i R_mpi of None \<Rightarrow> colls | Some it \<Rightarrow> colls @ [it]))"

definition facts_of :: "trace_state \<Rightarrow> bool \<Rightarrow> exact_facts option" where
  "facts_of t exact_p2p =
     (if exact_p2p then Some (exact_capture_facts (iter_counters (ts_store t) False) (m_instants (ts_store t))) else None)"

definition compact_mpi_edges :: "trace_state \<Rightarrow> bool \<Rightarrow> sedge list" where
  "compact_mpi_edges t exact_p2p =
     (let (m, info, colls) = fold compact_mpi_step (subset_of t (any_span\<lparr>q_categories := Some [''mpi'']\<rparr>))
            (new_matcher (capture_loss t [''mpi'']) (facts_of t exact_p2p), no_collectives, [])
      in fst (matcher_edges m) @ concat (map (collective_edges colls info) (rendezvous_groups R_mpi colls)))"

definition compact_barrier_edges :: "trace_state \<Rightarrow> int \<Rightarrow> sedge list" where
  "compact_barrier_edges t p =
     (let barriers = rendezvous_items R_omp (subset_of t (any_span\<lparr>q_pid := Some p, q_categories := Some [''sync'']\<rparr>))
      in concat (map (group_arrival_edges barriers) (rendezvous_groups R_omp barriers)))"

section \<open>All edges\<close>

definition task_dependences :: "trace_state \<Rightarrow> instant_event list" where
  "task_dependences t = filter (\<lambda>i. i_name i = ''omp_task_dependence'') (m_instants (ts_store t))"

definition of_process :: "trace_state \<Rightarrow> string list \<Rightarrow> int \<Rightarrow> spans" where
  "of_process t cats p = subset_of t (any_span\<lparr>q_pid := Some p, q_categories := Some cats\<rparr>)"

definition build_edges :: "trace_state \<Rightarrow> bool \<Rightarrow> sedge list" where
  "build_edges t exact_p2p =
     (let pids = trace_pids t; each = (\<lambda>f. concat (map f pids)); deps = task_dependences t in
      streamed_program_order t
      @ each (\<lambda>p. stream_order_edges (legacy_gpu t p) @ device_sync_edges (legacy_gpu t p))
      @ each (\<lambda>p. gpu_edges (subset_of t (any_span\<lparr>q_pid := Some p, q_gpu_model := Some True\<rparr>)) (capture_loss t [''cuda'', ''rocm'']))
      @ compact_explicit_edges t
      @ compact_mpi_edges t exact_p2p
      @ nccl_edges (subset_of t (any_span\<lparr>q_categories := Some [''nccl'']\<rparr>)) (capture_loss t [''nccl''])
      @ each (compact_barrier_edges t)
      @ each (\<lambda>p. task_edges (of_process t [''openmp'', ''sync''] p) (filter (\<lambda>d. i_pid d = p) deps))
      @ each (\<lambda>p. lock_edges (of_process t [''openmp'', ''sync''] p))
      @ each (\<lambda>p. opencl_edges (of_process t [''opencl'', ''memory'', ''sync''] p)))"

section \<open>The persisted graph\<close>

text \<open>The edges a store holds for its present events, by version; a change of the events clears them.\<close>

type_synonym edge_cache = "(string, edge_row list) dict"

definition edges_version :: "bool \<Rightarrow> string" where
  "edges_version exact_p2p = ''cp-6'' @ (if exact_p2p then ''+exact'' else '''')"

record dep_graph =
  dg_seqs :: "int list"
  dg_edges :: "edge_row list"

definition load_or_build_graph :: "trace_state \<Rightarrow> bool \<Rightarrow> edge_cache \<Rightarrow> dep_graph \<times> edge_cache" where
  "load_or_build_graph t exact_p2p cache =
     (let version = edges_version exact_p2p in
      case map_of cache version of
        Some es \<Rightarrow> (\<lparr>dg_seqs = span_seqs (ts_store t), dg_edges = es\<rparr>, cache)
      | None \<Rightarrow>
          (let es = map edge_row_of (build_edges t exact_p2p)
           in (\<lparr>dg_seqs = span_seqs (ts_store t), dg_edges = es\<rparr>, AList.update version es cache)))"

text \<open>The communication edges alone, for a view: not built for a trace of more spans than the limit.\<close>

definition comm_rows :: "edge_row list \<Rightarrow> edge_row list" where
  "comm_rows rs = filter (\<lambda>r. row_kind r \<in> {code_of EDGE_KINDS S_p2p, code_of EDGE_KINDS S_arrival}) rs"

definition load_comm_graph :: "trace_state \<Rightarrow> bool \<Rightarrow> nat option \<Rightarrow> edge_cache \<Rightarrow> dep_graph option \<times> edge_cache" where
  "load_comm_graph t exact_p2p max_build_spans cache =
     (case map_of cache (edges_version exact_p2p) of
        None \<Rightarrow>
          (if (case max_build_spans of None \<Rightarrow> False | Some k \<Rightarrow> length (m_spans (ts_store t)) > k) then (None, cache)
           else (let (full, cache) = load_or_build_graph t exact_p2p cache
                 in (Some \<lparr>dg_seqs = dg_seqs full, dg_edges = comm_rows (dg_edges full)\<rparr>, cache)))
      | Some es \<Rightarrow>
          (let edges = comm_rows es in
           (Some \<lparr>dg_seqs = if edges = [] then [] else span_seqs (ts_store t), dg_edges = edges\<rparr>, cache)))"

definition endpoints :: "trace_state \<Rightarrow> nat set \<Rightarrow> span_query \<Rightarrow> spans" where
  "endpoints t ordinals q = filter (\<lambda>(i, s). i \<in> ordinals) (subset_of t q)"

definition graph_critical_path :: "trace_state \<Rightarrow> dep_graph \<Rightarrow> span_path option" where
  "graph_critical_path t g = dp_arrays (run_query t any_span) (dg_edges g)"

end
