(* ===== verification/Streamed_Facts.thy ===== *)
theory Streamed_Facts
  imports Streamed_Graph
begin

text \<open>
  The streamed pipeline reads what the batch pipeline reads: a query without a lane gives the spans
  that satisfy it with their positions, so the compact builders add the edges of the builders they
  stand for, and every edge joins two spans of the trace.
\<close>

section \<open>Queries of a consistent store\<close>

definition all_items :: "trace_state \<Rightarrow> spans" where
  "all_items t = List.enumerate 0 (m_spans (ts_store t))"

lemma all_items_map: "all_items t = map (\<lambda>i. (i, m_spans (ts_store t) ! i)) [0..<length (m_spans (ts_store t))]"
  unfolding all_items_def by (rule nth_equalityI) (simp_all add: nth_enumerate_eq)

lemma all_items_ok [simp]: "dict_ok (all_items t)"
  by (simp add: all_items_def)

lemma ordinal_of_seq:
  assumes "store_ok (ts_store t)" "i < length (m_spans (ts_store t))"
  shows "ordinal_of t (seq (m_spans (ts_store t) ! i)) = i"
proof -
  let ?qs = "span_seqs (ts_store t)" and ?n = "length (m_spans (ts_store t))"
  have srt: "sorted_wrt (<) ?qs" using assms(1) by (simp add: store_ok_def span_seqs_def)
  have lt: "?qs ! j < ?qs ! i \<longleftrightarrow> j < i" if "j < ?n" for j
    using sorted_wrt_nth_less [OF srt] that assms(2) by (metis length_map not_less_iff_gr_or_eq span_seqs_def)
  have "sorted ?qs" using srt by (rule strict_sorted_imp_sorted)
  from bisect_left_splits [OF this, of "?qs ! i"]
  have k: "bisect_left ?qs (?qs ! i) \<le> ?n" "\<And>j. j < ?n \<Longrightarrow> ?qs ! j < ?qs ! i \<longleftrightarrow> j < bisect_left ?qs (?qs ! i)"
    by (simp_all add: splits_at_def span_seqs_def)
  have "bisect_left ?qs (?qs ! i) = i"
  proof (rule ccontr)
    assume "bisect_left ?qs (?qs ! i) \<noteq> i"
    then consider "bisect_left ?qs (?qs ! i) < i" | "i < bisect_left ?qs (?qs ! i)" by linarith
    then show False
    proof cases
      case 1
      then show ?thesis using k(2) [of "bisect_left ?qs (?qs ! i)"] lt [of "bisect_left ?qs (?qs ! i)"] assms(2) by simp
    next
      case 2
      then show ?thesis using k(2) [OF assms(2)] by simp
    qed
  qed
  then show ?thesis using assms(2) by (simp add: ordinal_of_def span_seqs_def)
qed

lemma with_ordinals:
  assumes "store_ok (ts_store t)"
  shows "map (\<lambda>s. (ordinal_of t (seq s), s)) (m_spans (ts_store t)) = all_items t"
  unfolding all_items_def by (rule nth_equalityI) (simp_all add: nth_enumerate_eq ordinal_of_seq [OF assms])

lemma subset_of_eq:
  assumes "store_ok (ts_store t)" "q_lane q = None"
  shows "subset_of t q = (case q_order q of SeqOrder \<Rightarrow> (\<lambda>xs. xs) | StartOrder \<Rightarrow> sort_key (\<lambda>(i, s). start_key s))
     (filter (\<lambda>(i, s). query_keeps (\<lambda>_. None) q s) (all_items t))"
proof -
  let ?f = "\<lambda>s. (ordinal_of t (seq s), s)"
  have r: "run_query t q = order_spans (q_order q) (filter (query_keeps (\<lambda>_. None) q) (m_spans (ts_store t)))"
    using store_iter_eq [OF assms(1), of q "\<lambda>_. None"] assms(2) by (simp add: query_spec_def in_lane_def)
  have p: "map ?f (filter P (m_spans (ts_store t))) = filter (\<lambda>(i, s). P s) (all_items t)" for P
    unfolding with_ordinals [OF assms(1), symmetric] by (simp add: filter_map comp_def)
  have s: "map ?f (sort_key start_key xs) = sort_key (\<lambda>(i, s). start_key s) (map ?f xs)" for xs
    by (simp add: sort_key_map)
  show ?thesis by (cases "q_order q") (simp_all add: subset_of_def order_spans_def r s p)
qed

lemma whole_query: "store_ok (ts_store t) \<Longrightarrow> run_query t any_span = m_spans (ts_store t)"
  using store_iter_eq [of "ts_store t" any_span "\<lambda>_. None"]
  by (simp add: query_spec_def in_lane_def any_span_def order_spans_def query_keeps_def)

lemma subset_ids: "store_ok (ts_store t) \<Longrightarrow> q_lane q = None \<Longrightarrow> ids (subset_of t q) \<subseteq> {..<length (m_spans (ts_store t))}"
  by (auto simp: subset_of_eq ids_def all_items_def in_set_enumerate_eq split: span_order.splits)

text \<open>The queries of the builders, in arrival order.\<close>

lemma category_query:
  assumes "store_ok (ts_store t)"
  shows "subset_of t (any_span\<lparr>q_categories := Some cs\<rparr>) = filter (\<lambda>(i, s). category_value (category s) \<in> set cs) (all_items t)"
    and "subset_of t (any_span\<lparr>q_with_ids := Some True\<rparr>) = filter (\<lambda>(i, s). span_id s \<noteq> [] \<or> parent_span_id s \<noteq> []) (all_items t)"
    and "subset_of t (any_span\<lparr>q_pid := Some p, q_categories := Some cs\<rparr>)
      = filter (\<lambda>(i, s). pid s = p \<and> category_value (category s) \<in> set cs) (all_items t)"
    and "subset_of t (any_span\<lparr>q_pid := Some p, q_gpu_model := Some True\<rparr>)
      = filter (\<lambda>(i, s). pid s = p \<and> is_new_format s) (all_items t)"
  by (auto simp: subset_of_eq [OF assms] any_span_def query_keeps_def is_new_format_def RUNTIMES_def intro!: filter_cong)

section \<open>Explicit ids\<close>

lemma compact_explicit_eq:
  assumes "store_ok (ts_store t)"
  shows "compact_explicit_edges t = explicit_span_id_edges (all_items t)"
proof -
  define keep where "keep = (\<lambda>(i :: nat, s :: span_event). span_id s \<noteq> [] \<or> parent_span_id s \<noteq> [])"
  let ?child = "\<lambda>(i :: nat, s :: span_event). (i, pid s, parent_span_id s, start_ns s, id_family s)"
  let ?has = "\<lambda>(i :: nat, s :: span_event). \<not> is_annotation s \<and> parent_span_id s \<noteq> [] \<and> \<not> is_device_span s"
  have step: "compact_id_step p (ix, ch) = (index_step p ix, if ?has p then ch @ [?child p] else ch)" for p ix ch
    by (cases p) (simp add: compact_id_step_def index_step_def)
  have run: "fold compact_id_step xs (ix, ch) = (fold index_step xs ix, ch @ map ?child (filter ?has xs))" for xs ix ch
    by (induction xs arbitrary: ix ch) (simp_all add: step)
  have skip: "fold index_step (filter keep xs) ix = fold index_step xs ix" for xs ix
    by (induction xs arbitrary: ix) (auto simp: keep_def index_step_def)
  have links: "explicit_edges_of ix p = (if ?has p then compact_id_links ix (?child p) else [])" for ix p
    by (cases p) (simp add: explicit_edges_of_def compact_id_links_def)
  have some: "filter ?has (filter keep xs) = filter ?has xs" for xs
    by (induction xs) (auto simp: keep_def)
  have flat: "concat (map f xs) = concat (map (\<lambda>p. g (?child p)) (filter ?has xs))"
    if "\<And>p. f p = (if ?has p then g (?child p) else [])" for f g :: "_ \<Rightarrow> sedge list" and xs
    by (induction xs) (simp_all add: that)
  show ?thesis
    unfolding compact_explicit_edges_def explicit_span_id_edges_def category_query(2) [OF assms] keep_def [symmetric] run skip some
    using flat [of "explicit_edges_of ix" "compact_id_links ix" for ix, OF links, of "span_id_index (all_items t)" "all_items t"]
    by (simp add: span_id_index_def comp_def)
qed

section \<open>Messages and collectives\<close>

lemma compact_mpi_run:
  "fold compact_mpi_step xs (m, info, colls) =
     (fold (\<lambda>(i, s). matcher_add i s) xs m, fold (\<lambda>(i, s). info_add i s) xs info, colls @ rendezvous_items R_mpi xs)"
  by (induction xs arbitrary: m info colls)
    (auto simp: compact_mpi_step_def rendezvous_items_def List.map_filter_simps split: option.split)

lemma matcher_of_mpi: "mpi_matcher sp l x = fold (\<lambda>(i, s). matcher_add i s) (mpi_spans sp) (new_matcher l x)"
proof -
  have "fold (\<lambda>(i, s) m. if category_value (category s) = ''mpi'' then matcher_add i s m else m) xs m =
      fold (\<lambda>(i, s). matcher_add i s) (mpi_spans xs) m" for xs m
    by (induction xs arbitrary: m) (auto simp: mpi_spans_def)
  then show ?thesis by (simp add: mpi_matcher_def)
qed

lemma compact_mpi_eq:
  assumes "store_ok (ts_store t)"
  shows "compact_mpi_edges t exact_p2p =
     fst (mpi_p2p_edges (all_items t) (capture_loss t [''mpi'']) (facts_of t exact_p2p)) @ mpi_rendezvous_edges (all_items t)"
proof -
  have q: "subset_of t (any_span\<lparr>q_categories := Some [''mpi'']\<rparr>) = mpi_spans (all_items t)"
    using category_query(1) [OF assms, of "[''mpi'']"] by (simp add: mpi_spans_def)
  show ?thesis
    unfolding compact_mpi_edges_def q compact_mpi_run mpi_p2p_edges_def matcher_of_mpi mpi_rendezvous_edges_def
    by (simp add: Let_def)
qed

section \<open>NCCL\<close>

lemma span_at_mem: "dict_ok sp \<Longrightarrow> (i, s) \<in> set sp \<Longrightarrow> span_at sp i = s"
  by (simp add: span_at_def)

lemma nccl_spans_idem [simp]: "nccl_spans (nccl_spans sp) = nccl_spans sp"
  unfolding nccl_spans_def filter_filter by (rule filter_cong) auto

lemma nccl_spans_ok: "dict_ok sp \<Longrightarrow> dict_ok (nccl_spans sp)"
  by (auto simp: nccl_spans_def dest: distinct_map_filter)

lemma nccl_span_at: "dict_ok sp \<Longrightarrow> i \<in> ids (nccl_spans sp) \<Longrightarrow> span_at (nccl_spans sp) i = span_at sp i"
proof -
  assume sp: "dict_ok sp" and "i \<in> ids (nccl_spans sp)"
  then obtain s where "(i, s) \<in> set (nccl_spans sp)" by (auto simp: ids_def)
  moreover from this have "(i, s) \<in> set sp" by (simp add: nccl_spans_def)
  ultimately show ?thesis using sp nccl_spans_ok [OF sp] span_at_mem by metis
qed

lemma device_copies_in: "range_in (ids (nccl_spans sp)) (device_copies (nccl_spans sp))"
  unfolding device_copies_def by (rule fold_inv) (auto intro!: range_in_update dest: ids_item)

lemma nccl_operation_in: "(i, s) \<in> set (nccl_operations sp) \<Longrightarrow> i \<in> ids (nccl_spans sp)"
  using ids_item [of i s "nccl_spans sp"] by (simp add: nccl_operations_def)

lemma group_work_at:
  assumes "dict_ok sp" "p \<in> set (nccl_spans sp)"
  shows "group_work (nccl_spans sp) (device_copies (nccl_spans sp)) p d = group_work sp (device_copies (nccl_spans sp)) p d"
proof -
  obtain i s where p: "p = (i, s)" by (cases p)
  have "dict_get (device_copies (nccl_spans sp)) k i \<in> ids (nccl_spans sp)" for k
    by (rule range_in_get [OF device_copies_in]) (use assms(2) p in \<open>auto intro: ids_item\<close>)
  moreover have "i \<in> ids (nccl_spans sp)" using assms(2) p by (auto intro: ids_item)
  ultimately show ?thesis by (simp add: p group_work_def Let_def nccl_span_at [OF assms(1)])
qed

lemma group_execs_at: "dict_ok sp \<Longrightarrow> group_execs (nccl_spans sp) = group_execs sp"
  unfolding group_execs_def nccl_spans_idem by (rule fold_cong) (simp_all add: group_work_at ext)

lemma group_execs_in: "range_in (ids (nccl_spans sp)) (group_execs sp)"
  unfolding group_execs_def
proof (rule fold_inv)
  fix p and d :: "(group_key, nat) dict" assume p: "p \<in> set (nccl_spans sp)" and d: "range_in (ids (nccl_spans sp)) d"
  obtain i s where i: "p = (i, s)" by (cases p)
  then have "i \<in> ids (nccl_spans sp)" using p ids_item by blast
  then show "range_in (ids (nccl_spans sp)) (group_work sp (device_copies (nccl_spans sp)) p d)"
    using d device_copies_in [of sp] by (auto simp: i group_work_def Let_def intro!: range_in_update range_in_get)
qed (simp add: range_in_def)

lemma nccl_effective_at: "dict_ok sp \<Longrightarrow> nccl_effective (nccl_spans sp) = nccl_effective sp"
  by (simp add: nccl_effective_def group_execs_at)

lemma nccl_effective_in: "range_in (ids (nccl_spans sp)) (nccl_effective sp)"
  unfolding nccl_effective_def
proof (rule fold_inv)
  fix p :: "nat \<times> span_event" and d :: "(nat, nat) dict" assume d: "range_in (ids (nccl_spans sp)) d"
  obtain i s where i: "p = (i, s)" by (cases p)
  have "j \<in> ids (nccl_spans sp)" if "work_of (device_copies (nccl_spans sp)) (group_execs sp) s = Some j" for j
    using that device_copies_in [of sp] group_execs_in [of sp]
    by (auto simp: work_of_def range_in_def simp del: split_paired_All split: if_splits)
  then show "range_in (ids (nccl_spans sp)) ((\<lambda>(i, s) d. case work_of (device_copies (nccl_spans sp)) (group_execs sp) s of
      None \<Rightarrow> d | Some j \<Rightarrow> AList.update i j d) p d)"
    using d by (auto simp: i intro: range_in_update split: option.split)
qed (simp add: range_in_def)

lemma nccl_operations_at: "nccl_operations (nccl_spans sp) = nccl_operations sp"
  by (simp add: nccl_operations_def)

lemma nccl_item_at:
  assumes "dict_ok sp" "p \<in> set (nccl_operations sp)"
  shows "nccl_item (nccl_spans sp) (nccl_effective sp) p = nccl_item sp (nccl_effective sp) p"
proof -
  obtain i s where p: "p = (i, s)" by (cases p)
  have "dict_get (nccl_effective sp) i i \<in> ids (nccl_spans sp)"
    by (rule range_in_get [OF nccl_effective_in]) (use assms(2) p in \<open>auto intro: nccl_operation_in\<close>)
  then show ?thesis by (simp add: p nccl_item_def Let_def nccl_span_at [OF assms(1)])
qed

lemma nccl_sends_in: "range_in (ids (nccl_spans sp)) (nccl_sends (nccl_operations sp))"
  unfolding nccl_sends_def by (rule fold_inv) (auto intro!: range_in_update dest: nccl_operation_in)

lemma map_filter_cong: "(\<And>x. x \<in> set xs \<Longrightarrow> f x = g x) \<Longrightarrow> List.map_filter f xs = List.map_filter g xs"
  by (induction xs) (simp_all add: List.map_filter_simps split: option.split)

lemma nccl_p2p_at:
  assumes "dict_ok sp"
  shows "nccl_p2p_edges (nccl_spans sp) eff l = nccl_p2p_edges sp eff l"
  unfolding nccl_p2p_edges_def nccl_operations_at Let_def
proof (rule map_filter_cong)
  fix p assume "p \<in> set (nccl_operations sp)"
  moreover obtain r s where p: "p = (r, s)" by (cases p)
  ultimately have r: "r \<in> ids (nccl_spans sp)" using nccl_operation_in by simp
  have v: "v \<in> ids (nccl_spans sp)" if "map_of (nccl_sends (nccl_operations sp)) k = Some v" for k v
    using that nccl_sends_in [of sp] unfolding range_in_def by blast
  show "(case p of (r, s) \<Rightarrow> if \<not> issued ''recv'' s then None
        else case map_of (nccl_sends (nccl_operations sp)) (issue_key ''peer'' ''rank'' s) of
            None \<Rightarrow> None
          | Some sent_by \<Rightarrow>
              if dict_get eff sent_by sent_by = dict_get eff r r then None
              else Some (gated_by (dict_get eff r r) (dict_get eff sent_by sent_by) S_p2p
                (if lossy l [pid (span_at (nccl_spans sp) sent_by), pid (span_at (nccl_spans sp) r)] then Low else Certain)))
      = (case p of (r, s) \<Rightarrow> if \<not> issued ''recv'' s then None
        else case map_of (nccl_sends (nccl_operations sp)) (issue_key ''peer'' ''rank'' s) of
            None \<Rightarrow> None
          | Some sent_by \<Rightarrow>
              if dict_get eff sent_by sent_by = dict_get eff r r then None
              else Some (gated_by (dict_get eff r r) (dict_get eff sent_by sent_by) S_p2p
                (if lossy l [pid (span_at sp sent_by), pid (span_at sp r)] then Low else Certain)))"
    using v by (auto simp: p nccl_span_at [OF assms] r split: option.split)
qed

lemma nccl_edges_at:
  assumes "dict_ok sp"
  shows "nccl_edges (nccl_spans sp) l = nccl_edges sp l"
proof -
  have "List.map_filter (nccl_item (nccl_spans sp) (nccl_effective sp)) (nccl_operations sp)
      = List.map_filter (nccl_item sp (nccl_effective sp)) (nccl_operations sp)"
    by (rule map_filter_cong) (rule nccl_item_at [OF assms])
  then show ?thesis
    by (simp add: nccl_edges_def Let_def nccl_effective_at [OF assms] nccl_operations_at nccl_p2p_at [OF assms])
qed

lemma streamed_nccl_eq:
  assumes "store_ok (ts_store t)"
  shows "nccl_edges (subset_of t (any_span\<lparr>q_categories := Some [''nccl'']\<rparr>)) l = nccl_edges (all_items t) l"
proof -
  have "subset_of t (any_span\<lparr>q_categories := Some [''nccl'']\<rparr>) = nccl_spans (all_items t)"
    using category_query(1) [OF assms, of "[''nccl'']"] by (simp add: nccl_spans_def)
  then show ?thesis by (simp add: nccl_edges_at)
qed

section \<open>Program order\<close>

text \<open>Sorting a thread's spans by start and number is the stable sort by start of the spans in order.\<close>

definition on_thread_spans :: "trace_state \<Rightarrow> int \<times> int \<Rightarrow> spans" where
  "on_thread_spans t k = filter (\<lambda>(i, s). on_thread s \<and> (pid s, tid s) = k) (all_items t)"

lemma enumerate_start_sort:
  assumes "sorted_wrt (<) (map seq ss)"
  shows "sort_key (\<lambda>(i :: nat, s). start_key s) (filter P (List.enumerate n ss)) = sort_key (\<lambda>(i, s). start_ns s) (filter P (List.enumerate n ss))"
  using assms
proof (induction ss arbitrary: n)
  case (Cons s ss)
  have "insort_key (\<lambda>(i :: nat, s). start_key s) (n, s) ys = insort_key (\<lambda>(i, s). start_ns s) (n, s) ys"
    if "\<forall>(i, u)\<in>set ys. seq s < seq u" for ys
    using that by (induction ys) (auto simp: start_key_def)
  moreover have "\<forall>(i, u)\<in>set (sort_key (\<lambda>(i :: nat, s). start_ns s) (filter P (List.enumerate (Suc n) ss))). seq s < seq u"
    using Cons.prems by (auto simp: in_set_enumerate_eq)
  ultimately show ?case using Cons.IH [of "Suc n"] Cons.prems by simp
qed simp

text \<open>A thread read from the store gives the edges the thread's list gives.\<close>

lemma sort_key_cong: "(\<And>x. x \<in> set xs \<Longrightarrow> f x = g x) \<Longrightarrow> sort_key f xs = sort_key g xs"
proof (induction xs)
  case (Cons x xs)
  have "insort_key f x ys = insort_key g x ys" if "set ys \<subseteq> set (x # xs)" for ys
    using that Cons.prems by (induction ys) auto
  from this [of "sort_key g xs"] show ?case using Cons by auto
qed simp

lemma dict_ok_sort: "dict_ok (sort_key f xs) \<longleftrightarrow> dict_ok xs"
  by (rule mset_eq_imp_distinct_iff) simp

lemma sort_key_fst:
  assumes "dict_ok sp" "set xs \<subseteq> set sp"
  shows "sort_key (\<lambda>i. start_ns (span_at sp i)) (map fst xs) = map fst (sort_key (\<lambda>(i, s). start_ns s) xs)"
proof -
  have "start_ns (span_at sp (fst x)) = (case x of (i, s) \<Rightarrow> start_ns s)" if "x \<in> set xs" for x
  proof -
    have "span_at sp (fst x) = snd x" using that assms(2) by (intro span_at_mem [OF assms(1)]) auto
    then show ?thesis by (simp only: case_prod_beta)
  qed
  then have "sort_key (\<lambda>x. start_ns (span_at sp (fst x))) xs = sort_key (\<lambda>(i, s). start_ns s) xs"
    by (intro sort_key_cong) auto
  then show ?thesis by (simp add: sort_key_map comp_def)
qed

lemma fold_order_at:
  "(\<And>i. i \<in> set js \<Longrightarrow> span_at sp i = span_at sp' i) \<Longrightarrow> fold (order_step sp) js st = fold (order_step sp') js st"
  by (rule fold_cong) (auto simp: order_step_def intro!: ext)

lemma streamed_thread_eq:
  assumes "store_ok (ts_store t)"
  shows "streamed_thread t k = thread_order (all_items t) (map fst (on_thread_spans t k))"
proof -
  let ?q = "any_span\<lparr>q_order := StartOrder, q_pid := Some (fst k), q_tid := Some (snd k)\<rparr>"
  define sub where "sub = filter (\<lambda>(i, s). on_thread s) (subset_of t ?q)"
  have srt: "sorted_wrt (<) (map seq (m_spans (ts_store t)))" using assms by (simp add: store_ok_def)
  have "subset_of t ?q = sort_key (\<lambda>(i, s). start_key s) (filter (\<lambda>(i, s). (pid s, tid s) = k) (all_items t))"
  proof -
    have f: "filter (\<lambda>(i, s). query_keeps (\<lambda>_. None) ?q s) (all_items t) = filter (\<lambda>(i, s). (pid s, tid s) = k) (all_items t)"
      by (rule filter_cong) (auto simp: any_span_def query_keeps_def prod_eq_iff)
    show ?thesis unfolding f [symmetric] by (simp add: subset_of_eq [OF assms] any_span_def)
  qed
  then have "sub = sort_key (\<lambda>(i, s). start_key s) (filter (\<lambda>(i, s). on_thread s) (filter (\<lambda>(i, s). (pid s, tid s) = k) (all_items t)))"
    by (simp add: sub_def filter_sort)
  also have "filter (\<lambda>(i, s). on_thread s) (filter (\<lambda>(i, s). (pid s, tid s) = k) (all_items t)) = on_thread_spans t k"
    unfolding on_thread_spans_def filter_filter by (rule filter_cong) auto
  finally have sub: "sub = sort_key (\<lambda>(i, s). start_ns s) (on_thread_spans t k)"
    unfolding on_thread_spans_def all_items_def enumerate_start_sort [OF srt] .
  have mem: "set (on_thread_spans t k) \<subseteq> set (all_items t)" by (auto simp: on_thread_spans_def)
  have "dict_ok (on_thread_spans t k)" unfolding on_thread_spans_def by (rule distinct_map_filter) simp
  then have ok: "dict_ok sub" unfolding sub dict_ok_sort .
  have at: "span_at sub i = span_at (all_items t) i" if i: "i \<in> set (map fst sub)" for i
  proof -
    obtain s where "(i, s) \<in> set sub" using i unfolding set_map by (metis imageE prod.collapse)
    moreover from this have "(i, s) \<in> set (all_items t)" using mem by (auto simp: sub)
    ultimately show ?thesis using ok all_items_ok span_at_mem by metis
  qed
  have "streamed_thread t k = snd (snd (fold (order_step sub) (map fst sub) ([], None, [])))"
    by (simp add: streamed_thread_def sub_def Let_def)
  also have "\<dots> = snd (snd (fold (order_step (all_items t)) (map fst sub) ([], None, [])))"
    using fold_order_at [OF at] by (simp only:)
  finally show ?thesis
    by (simp only: thread_order_def Let_def sort_key_fst [OF all_items_ok mem] sub)
qed

lemma thread_order_in: "edges_in (set js) (thread_order sp js)"
proof -
  have "order_in (set js) (fold (order_step sp) (sort_key (\<lambda>i. start_ns (span_at sp i)) js) ([], None, []))"
    by (rule fold_inv) (auto simp: order_in_def [of _ "([], None, [])"] intro!: order_step_in)
  then show ?thesis by (simp add: thread_order_def Let_def order_in_def)
qed

lemma preds_concat:
  assumes "distinct ks" "\<And>k e. k \<in> set ks \<Longrightarrow> e \<in> set (T k) \<Longrightarrow> owner (s_dst e) = k"
  shows "preds_of (concat (map T ks)) v = (if owner v \<in> set ks then preds_of (T (owner v)) v else [])"
  using assms
proof (induction ks)
  case (Cons k ks)
  have "preds_of (T k) v = []" if "owner v \<noteq> k" using Cons.prems(2) [of k] that by (auto simp: preds_of_def filter_empty_conv)
  moreover have "preds_of (concat (map T ks)) v = (if owner v \<in> set ks then preds_of (T (owner v)) v else [])"
    using Cons by simp
  ultimately show ?case using Cons.prems(1) by (auto simp: preds_of_def)
qed (simp add: preds_of_def)

lemma streamed_order_preds:
  assumes "store_ok (ts_store t)"
  shows "preds_of (streamed_program_order t) v = preds_of (program_order_edges (all_items t)) v"
proof -
  let ?sp = "all_items t"
  define T where "T k = thread_order ?sp (map fst (on_thread_spans t k))" for k
  define owner where "owner i = (pid (span_at ?sp i), tid (span_at ?sp i))" for i
  have own: "owner (s_dst e) = k" if "e \<in> set (T k)" for e k
  proof -
    have "s_dst e \<in> set (map fst (on_thread_spans t k))"
      using that thread_order_in [of "map fst (on_thread_spans t k)" ?sp] by (auto simp: T_def edges_in_def)
    then obtain s where s: "(s_dst e, s) \<in> set ?sp" "(pid s, tid s) = k" by (auto simp: on_thread_spans_def)
    have "span_at ?sp (s_dst e) = s" by (rule span_at_mem [OF all_items_ok s(1)])
    then show ?thesis using s(2) by (simp add: owner_def)
  qed
  have none: "T k = []" if "on_thread_spans t k = []" for k
    using that by (simp add: T_def thread_order_def)
  define ks where "ks = map fst (thread_lists ?sp)"
  have lists: "thread_lists ?sp = map (\<lambda>k. (k, map fst (on_thread_spans t k))) ks"
  proof -
    let ?g = "group_by (\<lambda>(i, s). (pid s, tid s)) (filter (\<lambda>(i, s). on_thread s) ?sp)"
    have "ps = on_thread_spans t k" if "(k, ps) \<in> set ?g" for k ps
      using group_by_entry(1) [OF that] by (auto simp: on_thread_spans_def intro: filter_cong)
    then have "map (\<lambda>(k, ps). (k, map fst ps)) ?g = map ((\<lambda>k. (k, map fst (on_thread_spans t k))) \<circ> fst) ?g"
      by (intro map_cong refl) auto
    then show ?thesis by (simp add: thread_lists_def ks_def comp_def case_prod_beta)
  qed
  have ks: "distinct ks" "set ks = {k. on_thread_spans t k \<noteq> []}"
  proof -
    have k: "ks = map fst (group_by (\<lambda>(i, s). (pid s, tid s)) (filter (\<lambda>(i, s). on_thread s) ?sp))"
      by (simp add: ks_def thread_lists_def comp_def case_prod_beta)
    show "distinct ks" unfolding k using group_by_ok by blast
    have "set ks = (\<lambda>(i, s). (pid s, tid s)) ` set (filter (\<lambda>(i, s). on_thread s) ?sp)"
      unfolding k set_map group_by_keys ..
    then show "set ks = {k. on_thread_spans t k \<noteq> []}" by (auto simp: on_thread_spans_def filter_empty_conv)
  qed
  have "program_order_edges ?sp = concat (map T ks)"
    unfolding program_order_edges_def lists T_def by (simp add: comp_def)
  then have batch: "preds_of (program_order_edges ?sp) v = (if owner v \<in> set ks then preds_of (T (owner v)) v else [])"
    using preds_concat [OF ks(1), of T owner] own by simp
  define thr where "thr = store_threads (run_query t)"
  have thr: "distinct thr" "set ks \<subseteq> set thr"
  proof -
    show "distinct thr" by (simp add: thr_def store_threads_def)
    have "set thr = (\<lambda>s. (pid s, tid s)) ` set (m_spans (ts_store t))"
      by (simp add: thr_def store_threads_def whole_query [OF assms])
    then show "set ks \<subseteq> set thr"
      by (auto simp: ks(2) on_thread_spans_def filter_empty_conv all_items_def in_set_enumerate_eq)
  qed
  have "streamed_program_order t = concat (map T thr)"
    by (simp add: streamed_program_order_def streamed_thread_eq [OF assms] T_def thr_def cong: map_cong)
  then have "preds_of (streamed_program_order t) v = (if owner v \<in> set thr then preds_of (T (owner v)) v else [])"
    using preds_concat [OF thr(1), of T owner] own by simp
  then show ?thesis using batch thr(2) ks(2) none [of "owner v"] by (auto simp: preds_of_def)
qed

section \<open>Edges between spans\<close>

lemma edges_in_mono: "edges_in A es \<Longrightarrow> A \<subseteq> B \<Longrightarrow> edges_in B es"
  by (auto simp: edges_in_def)

lemma legacy_gpu_ids:
  assumes "store_ok (ts_store t)"
  shows "ids (legacy_gpu t p) \<subseteq> {..<length (m_spans (ts_store t))}"
proof -
  have keys: "ids (fold (\<lambda>(i, s). AList.update i s) xs d) = ids xs \<union> ids d" for xs d :: spans
    unfolding ids_def by (induction xs arbitrary: d) (simp_all add: keys_update case_prod_beta)
  have sub: "ids (filter P (subset_of t q)) \<subseteq> {..<length (m_spans (ts_store t))}" if "q_lane q = None" for P q
    using ids_filter [of P "subset_of t q"] subset_ids [OF assms that] by blast
  have srt: "ids (sort_key fst xs) = ids xs" for xs by (simp add: ids_def)
  show ?thesis unfolding legacy_gpu_def Let_def srt keys by (intro Un_least sub) (simp_all add: any_span_def)
qed

lemma all_items_ids: "ids (all_items t) \<subseteq> {..<length (m_spans (ts_store t))}"
  by (auto simp: ids_def all_items_def in_set_enumerate_eq)

lemma streamed_order_in:
  assumes "store_ok (ts_store t)"
  shows "edges_in {..<length (m_spans (ts_store t))} (streamed_program_order t)"
proof -
  have "edges_in {..<length (m_spans (ts_store t))} (streamed_thread t k)" for k
    unfolding streamed_thread_eq [OF assms]
    by (rule edges_in_mono [OF thread_order_in]) (auto simp: on_thread_spans_def all_items_def in_set_enumerate_eq)
  then show ?thesis unfolding streamed_program_order_def by (intro edges_in_concat)
qed

lemma compact_barrier_in:
  assumes "store_ok (ts_store t)"
  shows "edges_in {..<length (m_spans (ts_store t))} (compact_barrier_edges t p)"
proof -
  let ?sp = "subset_of t (any_span\<lparr>q_pid := Some p, q_categories := Some [''sync'']\<rparr>)"
  have ids: "ids ?sp \<subseteq> {..<length (m_spans (ts_store t))}" by (rule subset_ids [OF assms]) (simp add: any_span_def)
  have "edges_in {..<length (m_spans (ts_store t))} (group_arrival_edges (rendezvous_items R_omp ?sp) g)"
    if "g \<in> set (rendezvous_groups R_omp (rendezvous_items R_omp ?sp))" for g
  proof (rule group_arrival_in)
    have "set (fst g) \<subseteq> ri_idx ` set (rendezvous_items R_omp ?sp)" using group_in_items [of "fst g" "snd g"] that by simp
    then show "set (fst g) \<subseteq> {..<length (m_spans (ts_store t))}" using items_in ids by blast
  qed
  then show ?thesis unfolding compact_barrier_edges_def Let_def by (intro edges_in_concat)
qed

lemma build_edges_typed:
  assumes "store_ok (ts_store t)"
  shows "typed_edges (length (m_spans (ts_store t))) (build_edges t exact_p2p)"
proof -
  let ?A = "{..<length (m_spans (ts_store t))}"
  have q: "ids (subset_of t q) \<subseteq> ?A" if "q_lane q = None" for q by (rule subset_ids [OF assms that])
  have per: "ids (of_process t cats p) \<subseteq> ?A" for cats p unfolding of_process_def by (rule q) (simp add: any_span_def)
  note all = edges_in_mono [OF _ all_items_ids]
  have "edges_in ?A (build_edges t exact_p2p)"
    unfolding build_edges_def Let_def edges_in_append
      compact_explicit_eq [OF assms] compact_mpi_eq [OF assms] streamed_nccl_eq [OF assms]
  proof (intro conjI edges_in_concat)
    show "edges_in ?A (streamed_program_order t)" by (rule streamed_order_in [OF assms])
    show "edges_in ?A (explicit_span_id_edges (all_items t))" by (rule all [OF explicit_in])
    show "edges_in ?A (fst (mpi_p2p_edges (all_items t) (capture_loss t [''mpi'']) (facts_of t exact_p2p)))"
      by (rule all [OF p2p_in])
    show "edges_in ?A (mpi_rendezvous_edges (all_items t))" by (rule all [OF mpi_rendezvous_in])
    show "edges_in ?A (nccl_edges (all_items t) (capture_loss t [''nccl'']))" by (rule all [OF nccl_in])
    fix p
    note legacy = edges_in_mono [OF _ legacy_gpu_ids [OF assms]]
    show "edges_in ?A (stream_order_edges (legacy_gpu t p) @ device_sync_edges (legacy_gpu t p))"
      by (simp add: legacy [OF stream_order_in] legacy [OF device_sync_in])
    show "edges_in ?A (gpu_edges (subset_of t (any_span\<lparr>q_pid := Some p, q_gpu_model := Some True\<rparr>)) (capture_loss t [''cuda'', ''rocm'']))"
      by (rule edges_in_mono [OF gpu_in q]) (simp add: any_span_def)
    show "edges_in ?A (compact_barrier_edges t p)" by (rule compact_barrier_in [OF assms])
    show "edges_in ?A (task_edges (of_process t [''openmp'', ''sync''] p) (filter (\<lambda>d. i_pid d = p) (task_dependences t)))"
      by (rule edges_in_mono [OF tasks_in per])
    show "edges_in ?A (lock_edges (of_process t [''openmp'', ''sync''] p))" by (rule edges_in_mono [OF locks_in per])
    show "edges_in ?A (opencl_edges (of_process t [''opencl'', ''memory'', ''sync''] p))"
      by (rule edges_in_mono [OF opencl_in per])
  qed
  then show ?thesis by (auto simp: edges_in_def typed_edges_def)
qed

section \<open>The streamed builders make the batch builders' edges\<close>

text \<open>
  C18. The builders rewritten to stream the store make the edges of the builders they replace, on
  every store the operations can reach: explicit ids, MPI messages and collectives, and NCCL give
  the same edges in the same order, and program order, read one thread at a time, gives every span
  the same predecessors in the same order.
\<close>

theorem streamed_builders_same:
  assumes "store_reach (ts_store t)"
  shows "compact_explicit_edges t = explicit_span_id_edges (all_items t) \<and>
    compact_mpi_edges t exact_p2p =
      fst (mpi_p2p_edges (all_items t) (capture_loss t [''mpi'']) (facts_of t exact_p2p)) @ mpi_rendezvous_edges (all_items t) \<and>
    nccl_edges (subset_of t (any_span\<lparr>q_categories := Some [''nccl'']\<rparr>)) l = nccl_edges (all_items t) l \<and>
    (\<forall>v. preds_of (streamed_program_order t) v = preds_of (program_order_edges (all_items t)) v)"
  using store_reach_ok [OF assms]
  by (simp add: compact_explicit_eq compact_mpi_eq streamed_nccl_eq streamed_order_preds)

text \<open>Two calls of a thread and the work of the first on another thread; a span is deleted again.\<close>

definition demo_trace_store :: memory_store where
  "demo_trace_store = store_delete_spans [make_eid 0 KIND_SPAN 0]
     (snd (store_append (SpanEv (mk_span ''next'' MPI 5 2 1 7 []))
       (snd (store_append (SpanEv ((mk_span ''work'' GPU_CUDA 10 6 1 8 [])\<lparr>parent_span_id := ''c1''\<rparr>))
         (snd (store_append (SpanEv ((mk_span ''call'' MPI 0 4 1 7 [])\<lparr>span_id := ''c1''\<rparr>))
           (snd (store_append (SpanEv (mk_span ''gone'' CPU 0 1 1 7 [])) empty_store))))))))"

definition demo_trace :: trace_state where
  "demo_trace = \<lparr>ts_store = demo_trace_store, ts_health = \<lparr>h_receiver = [], h_transport = []\<rparr>\<rparr>"

lemma demo_trace_reach: "store_reach (ts_store demo_trace)"
proof -
  let ?st = "snd (store_append (SpanEv (mk_span ''next'' MPI 5 2 1 7 []))
       (snd (store_append (SpanEv ((mk_span ''work'' GPU_CUDA 10 6 1 8 [])\<lparr>parent_span_id := ''c1''\<rparr>))
         (snd (store_append (SpanEv ((mk_span ''call'' MPI 0 4 1 7 [])\<lparr>span_id := ''c1''\<rparr>))
           (snd (store_append (SpanEv (mk_span ''gone'' CPU 0 1 1 7 [])) empty_store)))))))"
  have "store_reach ?st" by (intro app init) (simp_all add: empty_store_def store_append_def Let_def)
  moreover have "event_by_id ?st (make_eid 0 KIND_SPAN 0) = Some (SpanEv ((mk_span ''gone'' CPU 0 1 1 7 [])\<lparr>seq := 0, eid := 0\<rparr>))"
    by code_simp
  ultimately show ?thesis unfolding demo_trace_def demo_trace_store_def trace_state.simps by (intro del) auto
qed

lemma streamed_builders_same_witness:
  "store_reach (ts_store demo_trace) \<and>
   explicit_span_id_edges (all_items demo_trace) = [gated_by 1 0 S_explicit_span_id Certain] \<and>
   preds_of (program_order_edges (all_items demo_trace)) 2 = [gated_by 2 0 S_sequential Certain]"
proof -
  have "compact_explicit_edges demo_trace = [gated_by 1 0 S_explicit_span_id Certain]" by code_simp
  moreover have "preds_of (streamed_program_order demo_trace) 2 = [gated_by 2 0 S_sequential Certain]" by code_simp
  ultimately show ?thesis using streamed_builders_same [OF demo_trace_reach] demo_trace_reach by simp
qed

end
