(* ===== verification/Critical_Path.thy ===== *)
theory Critical_Path
  imports Assembled
begin

text \<open>
  The analyses over the event graph in \<^verbatim>\<open>src/src/analysis/cp_model.py\<close>: the observed critical
  path (\<open>walk\<close>), the modeled longest path (\<open>longest\<close>, \<open>_backward\<close>), criticality with its cut
  test, and the composition of the observed path in rows, spans and categories.
\<close>

section \<open>Required time\<close>

definition required :: "emode \<Rightarrow> int \<Rightarrow> bool \<Rightarrow> int \<Rightarrow> bool \<Rightarrow> int" where
  "required m d gap_as_work whi gated_hi =
     (if m = BUSY then d
      else if m = GAP \<or> m = UNKNOWN then (if gap_as_work then d else 0)
      else if (m = WAIT \<or> m = DEP) \<and> gated_hi then whi
      else 0)"

section \<open>The observed critical path\<close>

text \<open>Steps, the time each covers, first and last node, and what the walk could not decide.\<close>

record cwalk =
  w_steps :: "nat list"
  w_cover :: "int list"
  w_first :: "nat option"
  w_sink :: "nat option"
  w_ties :: int
  w_tie_samples :: "(int \<times> string list) list"
  w_undecidable :: int
  w_undecidable_ns :: int
  w_undecidable_samples :: "(int \<times> string \<times> string \<times> int) list"
  w_undecidable_steps :: "(nat \<times> nat) list"

definition walk_length :: "cwalk \<Rightarrow> int" where
  "walk_length w = sum_list (w_cover w)"

definition walk_spans :: "event_graph \<Rightarrow> cwalk \<Rightarrow> nat set" where
  "walk_spans g w =
     (case w_first w of None \<Rightarrow> {} | Some v \<Rightarrow> {v div 2}) \<union>
     (\<Union>e\<in>set (w_steps w). insert (e_dst (edge_of g e) div 2)
        (case e_owner (edge_of g e) of None \<Rightarrow> {} | Some j \<Rightarrow> {j}))"

definition last_events :: "event_graph \<Rightarrow> nat list" where
  "last_events g =
     (if g_order g = [] then []
      else
        (let tmax = Max (set (map (time_of g) (g_order g)));
             ats = filter (\<lambda>v. time_of g v = tmax) (g_order g);
             frees = filter (\<lambda>v. \<not> (\<exists>e\<in>set (out_edges g v). g_enabled g ! e)) ats
         in rev (sort (if frees \<noteq> [] then frees else ats))))"

record walk_mode =
  gap_as_work :: bool
  direct_only :: bool
  gated_hi :: bool

definition default_mode :: walk_mode where
  "default_mode = \<lparr>gap_as_work = False, direct_only = False, gated_hi = False\<rparr>"

text \<open>The edges into a node the walk may take, with their release times.\<close>

definition candidates :: "event_graph \<Rightarrow> walk_mode \<Rightarrow> nat \<Rightarrow> (int \<times> nat) list" where
  "candidates g m v =
     map (\<lambda>e. let x = edge_of g e in
            (time_of g (e_src x) + required (e_mode x) (e_d x) (gap_as_work m) (g_whi g ! e) (gated_hi m), e))
       (filter (\<lambda>e. g_enabled g ! e \<and> \<not> (direct_only m \<and> inferred g e)) (in_edges g v))"

definition cand_key :: "event_graph \<Rightarrow> int \<times> nat \<Rightarrow> int \<times> bool \<times> int \<times> nat" where
  "cand_key g c = (let x = edge_of g (snd c) in (fst c, e_mode x \<noteq> DEP, - conf_code (e_conf x), e_src x))"

text \<open>\<open>if dlo is not None and len(cands) > 1\<close>: another candidate that may have come later.\<close>

definition less_inf :: "int \<Rightarrow> rat option \<Rightarrow> rat option \<Rightarrow> bool" where
  "less_inf gap lo hi = (case (lo, hi) of (Some a, Some b) \<Rightarrow> of_int gap + (a - b) < 0 | _ \<Rightarrow> True)"

definition alternative_step :: "event_graph \<Rightarrow> clock_analysis \<Rightarrow> int \<times> nat \<Rightarrow> int \<times> nat \<Rightarrow> (nat \<times> int) option
    \<Rightarrow> (nat \<times> int) option" where
  "alternative_step g ca best c alt =
     (let a = g_domain g ! (e_src (edge_of g (snd best)) div 2); b = g_domain g ! (e_src (edge_of g (snd c)) div 2);
          gap = fst best - fst c in
      if snd c = snd best \<or> fst c \<ge> fst best \<or> a = b then alt
      else if less_inf gap (c_lo ca ! a) (c_hi ca ! b) \<and> (case alt of None \<Rightarrow> True | Some (e, margin) \<Rightarrow> gap < margin)
      then Some (snd c, gap) else alt)"

definition clock_alternative :: "event_graph \<Rightarrow> (int \<times> nat) list \<Rightarrow> int \<times> nat \<Rightarrow> (nat \<times> int) option" where
  "clock_alternative g cands best =
     (case g_clock g of
        None \<Rightarrow> None
      | Some ca \<Rightarrow> if length cands > 1 then fold (alternative_step g ca best) cands None else None)"

definition edge_kind_name :: "event_graph \<Rightarrow> nat \<Rightarrow> string" where
  "edge_kind_name g e = kind_name (e_kind (edge_of g e))"

definition note_tie :: "event_graph \<Rightarrow> nat \<Rightarrow> (int \<times> nat) list \<Rightarrow> int \<times> nat \<Rightarrow> cwalk \<Rightarrow> cwalk" where
  "note_tie g v cands best w =
     (if \<exists>c\<in>set cands. fst c = fst best \<and> e_src (edge_of g (snd c)) \<noteq> e_src (edge_of g (snd best)) then
        w\<lparr>w_ties := w_ties w + 1,
          w_tie_samples := (if length (w_tie_samples w) < 8 then
             w_tie_samples w @ [(time_of g v, sort (remdups (map (\<lambda>c. edge_kind_name g (snd c)) (filter (\<lambda>c. fst c = fst best) cands))))]
             else w_tie_samples w)\<rparr>
      else w)"

definition note_undecidable :: "event_graph \<Rightarrow> nat \<Rightarrow> (int \<times> nat) list \<Rightarrow> int \<times> nat \<Rightarrow> cwalk \<Rightarrow> cwalk" where
  "note_undecidable g v cands best w =
     (case clock_alternative g cands best of
        None \<Rightarrow> w
      | Some (alt, margin) \<Rightarrow>
          w\<lparr>w_undecidable := w_undecidable w + 1, w_undecidable_ns := w_undecidable_ns w + margin,
            w_undecidable_steps := w_undecidable_steps w @ [(snd best, alt)],
            w_undecidable_samples := (if length (w_undecidable_samples w) < 8 then
               w_undecidable_samples w @ [(time_of g v, edge_kind_name g (snd best), edge_kind_name g alt, margin)]
               else w_undecidable_samples w)\<rparr>)"

text \<open>One step back over the chosen edge: the time it covers below the frontier, newest last.\<close>

definition walk_push :: "event_graph \<Rightarrow> nat \<Rightarrow> int \<Rightarrow> (int \<times> nat) list \<Rightarrow> int \<times> nat \<Rightarrow> cwalk \<Rightarrow> cwalk" where
  "walk_push g v front cands best w =
     (let w' = note_undecidable g v cands best (note_tie g v cands best w);
          lo = min (time_of g (e_src (edge_of g (snd best)))) front
      in w'\<lparr>w_cover := w_cover w' @ [max 0 (min (time_of g v) front - lo)], w_steps := w_steps w' @ [snd best]\<rparr>)"

text \<open>
  The loop: node \<open>v\<close>, the frontier, the nodes seen; the caller reverses the steps. The bound
  on \<open>v\<close> is the \<open>IndexError\<close> of \<open>seen[v]\<close>.
\<close>

lemma unseen_less:
  assumes "v < length seen" "\<not> seen ! v"
  shows "length (filter Not (seen[v := True])) < length (filter Not seen)"
proof -
  have "filter Not seen = filter Not (take v seen) @ False # filter Not (drop (Suc v) seen)"
    using arg_cong [OF id_take_nth_drop [OF assms(1)], of "filter Not"] assms(2) by simp
  moreover have "filter Not (seen[v := True]) = filter Not (take v seen) @ filter Not (drop (Suc v) seen)"
    using assms by (simp add: upd_conv_take_nth_drop)
  ultimately show ?thesis by simp
qed

function walk_loop :: "event_graph \<Rightarrow> walk_mode \<Rightarrow> nat \<Rightarrow> int \<Rightarrow> bool list \<Rightarrow> cwalk \<Rightarrow> cwalk" where
  "walk_loop g m v front seen w =
     (if length seen \<le> v \<or> seen ! v then w\<lparr>w_first := Some v\<rparr>
      else
        (case max_key (cand_key g) (candidates g m v) of
           None \<Rightarrow> w\<lparr>w_first := Some v\<rparr>
         | Some best \<Rightarrow>
             walk_loop g m (e_src (edge_of g (snd best))) (min (time_of g (e_src (edge_of g (snd best)))) front)
               (seen[v := True]) (walk_push g v front (candidates g m v) best w)))"
  by pat_completeness auto
termination
  by (relation "measure (\<lambda>(g, m, v, front, seen, w). length (filter Not seen))") (use unseen_less in auto)

declare walk_loop.simps [simp del]

definition empty_walk :: cwalk where
  "empty_walk = \<lparr>w_steps = [], w_cover = [], w_first = None, w_sink = None, w_ties = 0, w_tie_samples = [],
     w_undecidable = 0, w_undecidable_ns = 0, w_undecidable_samples = [], w_undecidable_steps = []\<rparr>"

definition walk :: "event_graph \<Rightarrow> walk_mode \<Rightarrow> cwalk" where
  "walk g m =
     (case last_events g of
        [] \<Rightarrow> empty_walk
      | sink # others \<Rightarrow>
          (let w0 = empty_walk\<lparr>w_sink := Some sink\<rparr>;
               w0 = (if others \<noteq> [] then w0\<lparr>w_ties := 1, w_tie_samples := [(time_of g sink, [''end of trace''])]\<rparr> else w0);
               w = walk_loop g m sink (time_of g sink) (replicate (2 * g_n g) False) w0
           in w\<lparr>w_steps := rev (w_steps w), w_cover := rev (w_cover w)\<rparr>))"

section \<open>The modeled longest path\<close>

definition is_zero :: "nat set option \<Rightarrow> nat \<Rightarrow> bool" where
  "is_zero zero j = (case zero of None \<Rightarrow> False | Some Z \<Rightarrow> j \<in> Z)"

text \<open>The weight of an edge in \<open>longest\<close>; None is its \<open>continue\<close>.\<close>

definition longest_weight :: "event_graph \<Rightarrow> bool \<Rightarrow> bool \<Rightarrow> nat set option \<Rightarrow> bool \<Rightarrow> nat \<Rightarrow> int option" where
  "longest_weight g gaps direct zero gated e =
     (let x = edge_of g e; m = e_mode x in
      if m = BUSY then Some (if is_zero zero (the (e_owner x)) then 0 else e_d x)
      else if (m = GAP \<or> m = UNKNOWN) \<and> gaps then Some (e_d x)
      else if m = WAIT \<and> gated then Some (if is_zero zero (the (e_owner x)) then 0 else g_whi g ! e)
      else if m = DEP \<and> direct \<and> inferred g e then None
      else if m = DEP \<and> gated then Some (if is_zero zero (e_dst x div 2) then 0 else g_whi g ! e)
      else Some 0)"

definition longest_at :: "event_graph \<Rightarrow> bool \<Rightarrow> bool \<Rightarrow> nat set option \<Rightarrow> bool \<Rightarrow> int list \<Rightarrow> nat \<Rightarrow> int" where
  "longest_at g gaps direct zero gated F v =
     fold (\<lambda>e best. if \<not> g_enabled g ! e then best
             else case longest_weight g gaps direct zero gated e of
               None \<Rightarrow> best
             | Some w \<Rightarrow> (let val = F ! e_src (edge_of g e) + w in if val > best then val else best))
       (in_edges g v) 0"

definition longest :: "event_graph \<Rightarrow> bool \<Rightarrow> bool \<Rightarrow> nat set option \<Rightarrow> bool \<Rightarrow> int list \<times> int" where
  "longest g gaps direct zero gated =
     fold (\<lambda>v (F, best_all). let best = longest_at g gaps direct zero gated F v
             in (F[v := best], if best > best_all then best else best_all))
       (g_order g) (replicate (2 * g_n g) 0, 0)"

definition backward_at :: "event_graph \<Rightarrow> bool \<Rightarrow> bool \<Rightarrow> int list \<Rightarrow> nat \<Rightarrow> int" where
  "backward_at g gaps gated B u =
     fold (\<lambda>e best. if g_enabled g ! e then
             (let x = edge_of g e; val = B ! e_dst x + required (e_mode x) (e_d x) gaps (g_whi g ! e) gated
              in if val > best then val else best)
           else best)
       (out_edges g u) 0"

definition backward :: "event_graph \<Rightarrow> bool \<Rightarrow> bool \<Rightarrow> int list" where
  "backward g gaps gated = fold (\<lambda>u B. B[u := backward_at g gaps gated B u]) (rev (g_order g)) (replicate (2 * g_n g) 0)"

section \<open>Criticality\<close>

record criticality =
  cr_length :: int
  cr_on_some :: "nat list"
  cr_on_all :: "nat list"
  cr_slack :: "int list"
  cr_work :: "(nat, int) dict"
  cr_all_ns :: int
  cr_some_ns :: int

text \<open>\<open>pos\<close>: positions in the order (nodes outside keep 0).\<close>

definition positions :: "event_graph \<Rightarrow> nat list" where
  "positions g = fold (\<lambda>(p, v) pos. pos[v := p]) (List.enumerate 0 (g_order g)) (replicate (2 * g_n g) 0)"

definition tight_edge :: "event_graph \<Rightarrow> int list \<Rightarrow> int list \<Rightarrow> int \<Rightarrow> nat \<Rightarrow> bool" where
  "tight_edge g F B len e =
     (let x = edge_of g e in
      F ! e_src x + required (e_mode x) (e_d x) True 0 False + B ! e_dst x = len)"

definition bump :: "nat \<Rightarrow> int \<Rightarrow> int list \<Rightarrow> int list" where
  "bump i n xs = xs[i := xs ! i + n]"

definition cut_edges :: "event_graph \<Rightarrow> int list \<Rightarrow> int list \<Rightarrow> int \<Rightarrow> nat list \<Rightarrow> bool list \<times> int list \<Rightarrow> bool list \<times> int list" where
  "cut_edges g F B len pos s =
     fold (\<lambda>e (tight, diff).
       if g_enabled g ! e \<and> tight_edge g F B len e then
         (tight[e := True],
          bump (pos ! e_dst (edge_of g e) + 1) (-1) (bump (pos ! e_src (edge_of g e) + 1) 1 diff))
       else (tight, diff))
     [0..<length (g_edges g)] s"

definition cut_nodes :: "event_graph \<Rightarrow> int list \<Rightarrow> int list \<Rightarrow> int \<Rightarrow> nat list \<Rightarrow> int list \<Rightarrow> int list" where
  "cut_nodes g F B len pos diff =
     fold (\<lambda>v diff.
       let diff = (if B ! v = len then bump (pos ! v + 1) (-1) (bump 0 1 diff) else diff)
       in if F ! v = len then bump (length (g_order g) + 1) (-1) (bump (pos ! v + 1) 1 diff) else diff)
     (g_order g) diff"

text \<open>\<open>ones[c + 1]\<close>: the cuts among \<open>0..c\<close> crossed by one tight edge; also the running count.\<close>

definition cut_ones :: "nat \<Rightarrow> int list \<Rightarrow> int list" where
  "cut_ones M diff =
     snd (snd (fold (\<lambda>c (run, acc, ones).
        let run = run + diff ! c; acc = (if run = 1 then acc + 1 else acc) in (run, acc, ones[c + 1 := acc]))
      [0..<M + 1] (0 :: int, 0 :: int, replicate (M + 2) 0)))"

definition crit_step :: "event_graph \<Rightarrow> int list \<Rightarrow> int list \<Rightarrow> int \<Rightarrow> nat list \<Rightarrow> bool list \<Rightarrow> int list \<Rightarrow> nat
    \<Rightarrow> criticality \<Rightarrow> criticality" where
  "crit_step g F B len pos tight ones e c =
     (let x = edge_of g e in
      if \<not> g_enabled g ! e \<or> e_mode x \<noteq> BUSY \<or> e_d x \<le> 0 then c
      else
        (let j = the (e_owner x); s = len - (F ! e_src x + e_d x + B ! e_dst x);
             c = (if cr_slack c ! j < 0 \<or> s < cr_slack c ! j then c\<lparr>cr_slack := (cr_slack c)[j := s]\<rparr> else c)
         in if tight ! e then
              (let c = c\<lparr>cr_on_some := List.insert j (cr_on_some c), cr_work := dict_add j (e_d x) (cr_work c),
                         cr_some_ns := cr_some_ns c + e_d x\<rparr>
               in if ones ! (pos ! e_dst x + 1) - ones ! (pos ! e_src x + 1) > 0 then
                    c\<lparr>cr_on_all := List.insert j (cr_on_all c), cr_all_ns := cr_all_ns c + e_d x\<rparr>
                  else c)
            else c))"

definition criticality_of :: "event_graph \<Rightarrow> int list \<Rightarrow> int \<Rightarrow> criticality" where
  "criticality_of g F len =
     (let B = backward g True False; pos = positions g; M = length (g_order g);
          (tight, diff) = cut_edges g F B len pos (replicate (length (g_edges g)) False, replicate (M + 2) 0);
          ones = cut_ones M (cut_nodes g F B len pos diff)
      in fold (crit_step g F B len pos tight ones) [0..<length (g_edges g)]
           \<lparr>cr_length = len, cr_on_some = [], cr_on_all = [], cr_slack = replicate (g_n g) (-1), cr_work = [],
            cr_all_ns = 0, cr_some_ns = 0\<rparr>)"

text \<open>\<open>SpanValues\<close>: a value below zero is no entry; \<open>__getitem__\<close> raises \<open>KeyError\<close> there.\<close>

definition sv_get :: "int list \<Rightarrow> nat \<Rightarrow> int option" where
  "sv_get vals j = (if vals ! j < 0 then None else Some (vals ! j))"

definition sv_contains :: "int list \<Rightarrow> nat \<Rightarrow> bool" where
  "sv_contains vals j \<longleftrightarrow> j < length vals \<and> vals ! j \<ge> 0"

definition sv_items :: "int list \<Rightarrow> (nat \<times> int) list" where
  "sv_items vals = filter (\<lambda>(j, x). x \<ge> 0) (List.enumerate 0 vals)"

definition sv_len :: "int list \<Rightarrow> nat" where
  "sv_len vals = length (filter (\<lambda>x. x \<ge> 0) vals)"

section \<open>Rows and spans of the observed path\<close>

record path_row =
  pr_span :: nat
  pr_own_ns :: int
  pr_other_ns :: int
  pr_start_ns :: int
  pr_end_ns :: int
  pr_mode :: emode
  pr_kind :: ekind
  pr_conf :: conf
  pr_source :: "nat option"

definition owned_mode :: "emode \<Rightarrow> bool" where
  "owned_mode m \<longleftrightarrow> m = BUSY \<or> m = WAIT \<or> m = UNKNOWN"

definition row_step :: "event_graph \<Rightarrow> nat \<times> int \<Rightarrow> path_row list \<Rightarrow> path_row list" where
  "row_step g ens rows =
     (let (e, ns) = ens; x = edge_of g e; m = e_mode x; tu = time_of g (e_src x); tv = time_of g (e_dst x) in
      if owned_mode m then
        (let j = the (e_owner x) in
         if rows \<noteq> [] \<and> pr_span (last rows) = j \<and> pr_mode (last rows) = m \<and> pr_end_ns (last rows) = tu then
           butlast rows @ [(last rows)\<lparr>pr_own_ns := pr_own_ns (last rows) + ns, pr_end_ns := tv\<rparr>]
         else rows @ [\<lparr>pr_span = j, pr_own_ns = ns, pr_other_ns = 0, pr_start_ns = tu, pr_end_ns = tv, pr_mode = m,
                        pr_kind = e_kind x, pr_conf = e_conf x, pr_source = None\<rparr>])
      else rows @ [\<lparr>pr_span = e_dst x div 2, pr_own_ns = 0, pr_other_ns = ns, pr_start_ns = tu, pr_end_ns = tv,
                     pr_mode = m, pr_kind = e_kind x, pr_conf = e_conf x,
                     pr_source = (if m = DEP then Some (e_src x div 2) else None)\<rparr>])"

definition path_rows :: "event_graph \<Rightarrow> cwalk \<Rightarrow> path_row list" where
  "path_rows g w = fold (row_step g) (zip (w_steps w) (w_cover w)) []"

definition LEGACY_KIND :: "(string, string) dict" where
  "LEGACY_KIND = [(''thread'', ''sequential''), (''device_work'', ''sequential''), (''stream_order'', ''sequential''),
     (''event_wait'', ''sequential''), (''fork'', ''explicit_span_id''), (''join'', ''explicit_span_id'')]"

definition legacy_kind :: "string \<Rightarrow> string" where
  "legacy_kind kind = dict_get LEGACY_KIND kind kind"

text \<open>
  \<open>_span_view\<close>: a span's row is (credited, gap, entering kind, entering confidence); the
  dictionary keeps the order of first appearance.
\<close>

type_synonym span_row = "int \<times> int \<times> string \<times> string"

definition intro :: "nat \<Rightarrow> string \<Rightarrow> string \<Rightarrow> (nat, span_row) dict \<Rightarrow> (nat, span_row) dict" where
  "intro j kind cf d = (if map_of d j = None then AList.update j (0, 0, kind, cf) d else d)"

definition credit :: "nat \<Rightarrow> int \<Rightarrow> int \<Rightarrow> (nat, span_row) dict \<Rightarrow> (nat, span_row) dict" where
  "credit j own gap d = (case dict_get d j (0, 0, [], []) of (a, b, k, c) \<Rightarrow> AList.update j (a + own, b + gap, k, c) d)"

definition span_step :: "event_graph \<Rightarrow> nat \<times> int \<Rightarrow> (nat, span_row) dict \<Rightarrow> (nat, span_row) dict" where
  "span_step g ens d =
     (let (e, ns) = ens; x = edge_of g e; kind = legacy_kind (kind_name (e_kind x)); cf = conf_name (e_conf x);
          v = e_dst x div 2 in
      if owned_mode (e_mode x) then
        (let j = the (e_owner x) in intro v kind cf (credit j ns 0 (intro j kind cf d)))
      else credit v 0 ns (intro v kind cf d))"

definition span_view :: "event_graph \<Rightarrow> cwalk \<Rightarrow> (nat, span_row) dict" where
  "span_view g w =
     fold (span_step g) (zip (w_steps w) (w_cover w))
       (case w_first w of None \<Rightarrow> [] | Some v \<Rightarrow> intro (v div 2) [] [] [])"

text \<open>The composition of the observed path (the first loop of \<open>analyze_model\<close>).\<close>

record composition =
  co_work :: "(string, int) dict"
  co_in_call :: "(string, int) dict"
  co_unmatched :: "(string, int) dict"
  co_unrecorded :: int
  co_idle :: int
  co_dep_kind :: "(ekind, int) dict"
  co_dep_src :: "(string, int) dict"
  co_tier :: "(conf, int) dict"
  co_class :: "(evidence, int) dict"
  co_prov_ns :: "(prov, int) dict"
  co_prov_steps :: "(prov, int) dict"

definition empty_composition :: composition where
  "empty_composition = \<lparr>co_work = [], co_in_call = [], co_unmatched = [], co_unrecorded = 0, co_idle = 0,
     co_dep_kind = [], co_dep_src = [], co_tier = [], co_class = [], co_prov_ns = [], co_prov_steps = []\<rparr>"

definition owner_cat :: "event_graph \<Rightarrow> edge \<Rightarrow> string" where
  "owner_cat g x = g_cat g ! the (e_owner x)"

definition compose_mode :: "event_graph \<Rightarrow> edge \<Rightarrow> int \<Rightarrow> composition \<Rightarrow> composition" where
  "compose_mode g x ns c =
     (case e_mode x of
        BUSY \<Rightarrow> c\<lparr>co_work := dict_add (owner_cat g x) ns (co_work c)\<rparr>
      | WAIT \<Rightarrow> c\<lparr>co_in_call := dict_add (owner_cat g x) ns (co_in_call c)\<rparr>
      | UNKNOWN \<Rightarrow> c\<lparr>co_unmatched := dict_add (owner_cat g x) ns (co_unmatched c)\<rparr>
      | GAP \<Rightarrow> c\<lparr>co_unrecorded := co_unrecorded c + ns\<rparr>
      | IDLE \<Rightarrow> c\<lparr>co_idle := co_idle c + ns\<rparr>
      | DEP \<Rightarrow> c\<lparr>co_dep_kind := dict_add (e_kind x) ns (co_dep_kind c),
                 co_dep_src := dict_add (g_cat g ! (e_src x div 2)) ns (co_dep_src c)\<rparr>)"

definition compose_step :: "event_graph \<Rightarrow> nat \<times> int \<Rightarrow> composition \<Rightarrow> composition" where
  "compose_step g ens c =
     (let (e, ns) = ens; x = edge_of g e; c = compose_mode g x ns c
      in c\<lparr>co_tier := dict_add (e_conf x) ns (co_tier c),
           co_class := dict_add (edge_class (e_prov x) (e_conf x)) ns (co_class c),
           co_prov_ns := dict_add (e_prov x) ns (co_prov_ns c),
           co_prov_steps := dict_add (e_prov x) 1 (co_prov_steps c)\<rparr>)"

definition compose :: "event_graph \<Rightarrow> cwalk \<Rightarrow> composition" where
  "compose g w = fold (compose_step g) (zip (w_steps w) (w_cover w)) empty_composition"

text \<open>\<open>int(x)\<close> of a float: towards zero.\<close>

definition truncated :: "rat \<Rightarrow> int" where
  "truncated x = (if x < 0 then \<lceil>x\<rceil> else \<lfloor>x\<rfloor>)"

definition covered_range :: "event_graph \<Rightarrow> cwalk \<Rightarrow> int \<times> int" where
  "covered_range g w =
     (case (g_clock g, w_first w, w_sink w) of
        (Some ca, Some first, Some sink) \<Rightarrow>
          (let a = g_domain g ! (sink div 2); b = g_domain g ! (first div 2); len = walk_length w in
           if a = b then (len, len)
           else (case offset_range ca a b of (lo, hi) \<Rightarrow>
             ((case lo of None \<Rightarrow> 0 | Some x \<Rightarrow> max 0 (truncated (of_int len + x))),
              (case hi of None \<Rightarrow> -1 | Some x \<Rightarrow> truncated (of_int len + x)))))
      | _ \<Rightarrow> (walk_length w, walk_length w))"

end
