(* ===== verification/Walk_Facts.thy ===== *)
theory Walk_Facts
  imports Critical_Path
begin

text \<open>
  The observed critical path is a chain of releasing edges ending at the trace's last event, and
  the time it covers is the extent between that event and the earliest event it passes.
\<close>

section \<open>Paths\<close>

fun path :: "event_graph \<Rightarrow> nat \<Rightarrow> nat list \<Rightarrow> nat \<Rightarrow> bool" where
  "path g u [] v \<longleftrightarrow> u = v"
| "path g u (e # es) v \<longleftrightarrow> e < length (g_edges g) \<and> g_enabled g ! e \<and> e_src (edge_of g e) = u \<and>
     path g (e_dst (edge_of g e)) es v"

fun_cases path_NilE: "path g u [] v"
fun_cases path_ConsE: "path g u (e # es) v"

lemma path_append [simp]: "path g u (es @ fs) v \<longleftrightarrow> (\<exists>x. path g u es x \<and> path g x fs v)"
  by (induction es arbitrary: u) auto

lemma path_edges: "path g u es v \<Longrightarrow> e \<in> set es \<Longrightarrow> e < length (g_edges g) \<and> g_enabled g ! e"
  by (induction es arbitrary: u) auto

text \<open>The events a path passes.\<close>

fun path_nodes :: "event_graph \<Rightarrow> nat \<Rightarrow> nat list \<Rightarrow> nat list" where
  "path_nodes g u [] = [u]"
| "path_nodes g u (e # es) = u # path_nodes g (e_dst (edge_of g e)) es"

lemma built_finished: "built g \<Longrightarrow> finished g"
  by (simp add: built_def complete_order_def)

lemma built_order: "built g \<Longrightarrow> ordered g (g_order g)" "built g \<Longrightarrow> set (g_order g) = {v. v < 2 * g_n g \<and> g_active g ! v}"
  by (simp_all add: built_def complete_order_def)

lemma order_node: "built g \<Longrightarrow> v \<in> set (g_order g) \<Longrightarrow> v < 2 * g_n g"
  by (simp add: built_order(2))

lemma edge_nodes:
  assumes "built g" "e < length (g_edges g)"
  shows "e_src (edge_of g e) \<in> set (g_order g)" "e_dst (edge_of g e) \<in> set (g_order g)"
    "e_src (edge_of g e) < 2 * g_n g" "e_dst (edge_of g e) < 2 * g_n g"
  using graph_okD [OF finished_ok [OF built_finished [OF assms(1)]] assms(2)] built_order(2) [OF assms(1)] by auto

lemma edge_position:
  assumes "built g" "e < length (g_edges g)" "g_enabled g ! e"
  shows "position (g_order g) (e_src (edge_of g e)) < position (g_order g) (e_dst (edge_of g e))"
  using ordered_position [OF built_order(1) [OF assms(1)]] assms edge_nodes [OF assms(1,2)] by blast

lemma path_position:
  assumes "built g"
  shows "path g u es v \<Longrightarrow> position (g_order g) u + length es \<le> position (g_order g) v"
proof (induction es arbitrary: u)
  case (Cons e es)
  from Cons.prems have "position (g_order g) u < position (g_order g) (e_dst (edge_of g e))"
    using edge_position [OF assms, of e] by auto
  moreover have "position (g_order g) (e_dst (edge_of g e)) + length es \<le> position (g_order g) v"
    using Cons.prems by (intro Cons.IH) simp
  ultimately show ?case by simp
qed simp

lemma path_ends:
  assumes "built g" "path g u es v" "es \<noteq> []"
  shows "u \<in> set (g_order g) \<and> v \<in> set (g_order g)"
  using assms(2,3)
proof (induction es arbitrary: u)
  case (Cons e es)
  then show ?case using edge_nodes [OF assms(1), of e] by (cases "es = []") auto
qed simp


lemma path_nodes_order:
  assumes "built g"
  shows "path g u es v \<Longrightarrow> u \<in> set (g_order g) \<Longrightarrow> set (path_nodes g u es) \<subseteq> set (g_order g)"
proof (induction es arbitrary: u)
  case (Cons e es)
  then show ?case using edge_nodes(2) [OF assms, of e] by auto
qed simp

lemma path_nodes_after:
  assumes "built g"
  shows "path g u es v \<Longrightarrow> x \<in> set (path_nodes g u es) \<Longrightarrow> position (g_order g) u \<le> position (g_order g) x"
proof (induction es arbitrary: u)
  case (Cons e es)
  then have "position (g_order g) u < position (g_order g) (e_dst (edge_of g e))"
    using edge_position [OF assms, of e] by auto
  then show ?case using Cons.prems Cons.IH [of "e_dst (edge_of g e)"] by auto
qed simp

lemma path_distinct:
  assumes "built g"
  shows "path g u es v \<Longrightarrow> distinct (path_nodes g u es)"
proof (induction es arbitrary: u)
  case (Cons e es)
  then have "position (g_order g) u < position (g_order g) (e_dst (edge_of g e))"
    using edge_position [OF assms, of e] by auto
  then have "u \<notin> set (path_nodes g (e_dst (edge_of g e)) es)"
    using path_nodes_after [OF assms] Cons.prems by fastforce
  then show ?case using Cons by simp
qed simp

section \<open>The walk\<close>

lemma note_fields [simp]:
  "w_steps (note_tie g v cands best w) = w_steps w" "w_cover (note_tie g v cands best w) = w_cover w"
  "w_sink (note_tie g v cands best w) = w_sink w"
  "w_steps (note_undecidable g v cands best w) = w_steps w"
  "w_cover (note_undecidable g v cands best w) = w_cover w"
  "w_sink (note_undecidable g v cands best w) = w_sink w"
  by (simp_all add: note_tie_def note_undecidable_def split: option.splits prod.splits)

lemma walk_push_fields [simp]:
  "w_steps (walk_push g v front cands best w) = w_steps w @ [snd best]"
  "w_cover (walk_push g v front cands best w) =
     w_cover w @ [max 0 (min (time_of g v) front - min (time_of g (e_src (edge_of g (snd best)))) front)]"
  "w_sink (walk_push g v front cands best w) = w_sink w"
  by (simp_all add: walk_push_def Let_def)

text \<open>When an edge releases its destination, and which edges the walk may take.\<close>

definition release_of :: "event_graph \<Rightarrow> walk_mode \<Rightarrow> nat \<Rightarrow> int" where
  "release_of g m e = (let x = edge_of g e in
     time_of g (e_src x) + required (e_mode x) (e_d x) (gap_as_work m) (g_whi g ! e) (gated_hi m))"

definition walkable :: "event_graph \<Rightarrow> walk_mode \<Rightarrow> nat \<Rightarrow> bool" where
  "walkable g m e \<longleftrightarrow> e < length (g_edges g) \<and> g_enabled g ! e \<and> \<not> (direct_only m \<and> inferred g e)"

lemma candidates_iff:
  assumes "built g" "v < 2 * g_n g"
  shows "c \<in> set (candidates g m v) \<longleftrightarrow>
    walkable g m (snd c) \<and> e_dst (edge_of g (snd c)) = v \<and> fst c = release_of g m (snd c)"
  using in_edges_iff [OF built_finished [OF assms(1)] assms(2)]
  by (cases c) (auto simp: candidates_def walkable_def release_of_def Let_def)

text \<open>The edge the walk takes into its destination: no other one has a higher key.\<close>

definition releases :: "event_graph \<Rightarrow> walk_mode \<Rightarrow> nat \<Rightarrow> bool" where
  "releases g m e \<longleftrightarrow> walkable g m e \<and>
     (\<forall>e'. walkable g m e' \<and> e_dst (edge_of g e') = e_dst (edge_of g e) \<longrightarrow>
        cand_key g (release_of g m e', e') \<le> cand_key g (release_of g m e, e))"

lemma releases_latest:
  assumes "releases g m e" "walkable g m e'" "e_dst (edge_of g e') = e_dst (edge_of g e)"
  shows "release_of g m e' \<le> release_of g m e"
  using assms by (auto simp: releases_def cand_key_def Let_def less_eq_prod_def less_prod_def)

lemma max_candidate:
  assumes "built g" "v < 2 * g_n g" "max_key (cand_key g) (candidates g m v) = Some best"
  shows "releases g m (snd best)" "e_dst (edge_of g (snd best)) = v" "fst best = release_of g m (snd best)"
proof -
  note b = max_key_Some [OF assms(3)]
  note c = candidates_iff [OF assms(1,2)]
  have in_v: "walkable g m (snd best) \<and> e_dst (edge_of g (snd best)) = v \<and> fst best = release_of g m (snd best)"
    using b c by blast
  then show "e_dst (edge_of g (snd best)) = v" "fst best = release_of g m (snd best)" by blast+
  have "cand_key g (release_of g m e', e') \<le> cand_key g best"
    if "walkable g m e'" "e_dst (edge_of g e') = v" for e'
    using b c [of "(release_of g m e', e')"] that by simp
  then show "releases g m (snd best)" using in_v unfolding releases_def by (metis prod.collapse)
qed

lemma no_candidate:
  assumes "built g" "v < 2 * g_n g" "max_key (cand_key g) (candidates g m v) = None" "walkable g m e"
  shows "e_dst (edge_of g e) \<noteq> v"
proof
  assume v: "e_dst (edge_of g e) = v"
  have "candidates g m v = []" using assms(3) by (cases "candidates g m v") auto
  then show False using candidates_iff [OF assms(1,2), of "(release_of g m e, e)" m] v assms(4) by simp
qed

text \<open>What the loop keeps of the steps so far, the newest last, back from the sink \<open>s\<close>.\<close>

definition walk_inv :: "event_graph \<Rightarrow> walk_mode \<Rightarrow> nat \<Rightarrow> nat \<Rightarrow> int \<Rightarrow> cwalk \<Rightarrow> bool" where
  "walk_inv g m s v front w \<longleftrightarrow> path g v (rev (w_steps w)) s \<and> v \<in> set (g_order g) \<and>
     (\<forall>e\<in>set (w_steps w). releases g m e) \<and> length (w_cover w) = length (w_steps w) \<and>
     (\<forall>c\<in>set (w_cover w). 0 \<le> c) \<and> front = Min (set (map (time_of g) (path_nodes g v (rev (w_steps w))))) \<and>
     walk_length w = time_of g s - front"

lemma path_nodes_ne [simp]: "path_nodes g v es \<noteq> []"
  by (cases es) auto

lemma walk_inv_push:
  assumes "built g" "walk_inv g m s v front w" "max_key (cand_key g) (candidates g m v) = Some best"
  shows "walk_inv g m s (e_src (edge_of g (snd best))) (min (time_of g (e_src (edge_of g (snd best)))) front)
    (walk_push g v front (candidates g m v) best w)"
proof -
  have v: "v < 2 * g_n g" "v \<in> set (g_order g)" using assms(2) built_order(2) [OF assms(1)] by (auto simp: walk_inv_def)
  note b = max_candidate [OF assms(1) v(1) assms(3)]
  let ?e = "snd best" let ?u = "e_src (edge_of g ?e)"
  have e: "?e < length (g_edges g)" "g_enabled g ! ?e" using b(1) by (auto simp: releases_def walkable_def)
  have front: "front = Min (set (map (time_of g) (path_nodes g v (rev (w_steps w)))))"
    using assms(2) by (simp add: walk_inv_def)
  have "v \<in> set (path_nodes g v (rev (w_steps w)))" by (cases "rev (w_steps w)") auto
  then have le: "front \<le> time_of g v" unfolding front by (intro Min_le) auto
  have min: "min (time_of g ?u) front = Min (set (map (time_of g) (path_nodes g ?u (?e # rev (w_steps w)))))"
    unfolding front using b(2) by simp
  show ?thesis
    unfolding walk_inv_def
    using assms(2) b e edge_nodes(1) [OF assms(1) e(1)] min le by (auto simp: walk_inv_def walk_length_def)
qed

text \<open>A finished walk: nothing the walk may take leads to its first node.\<close>

definition walked :: "event_graph \<Rightarrow> walk_mode \<Rightarrow> nat \<Rightarrow> cwalk \<Rightarrow> bool" where
  "walked g m s w \<longleftrightarrow> (\<exists>f front. w_first w = Some f \<and> walk_inv g m s f front w \<and>
     (\<forall>e. walkable g m e \<longrightarrow> e_dst (edge_of g e) \<noteq> f))"

lemma walk_loop_spec:
  assumes "built g"
  shows "walk_inv g m s v front w \<Longrightarrow> length seen = 2 * g_n g \<Longrightarrow>
    \<forall>u<2 * g_n g. seen ! u \<longrightarrow> position (g_order g) v < position (g_order g) u \<Longrightarrow>
    walked g m s (walk_loop g m v front seen w) \<and> w_sink (walk_loop g m v front seen w) = w_sink w"
  using assms
proof (induction g m v front seen w rule: walk_loop.induct)
  case (1 g m v front seen w)
  note inv = 1(2) and seen = 1(3,4) and built = 1(5)
  have v: "v < 2 * g_n g" using inv order_node [OF built] by (simp add: walk_inv_def)
  then have new: "\<not> (length seen \<le> v \<or> seen ! v)" using seen by auto
  show ?case
  proof (cases "max_key (cand_key g) (candidates g m v)")
    case None
    then have "walk_loop g m v front seen w = w\<lparr>w_first := Some v\<rparr>" using new by (simp add: walk_loop.simps)
    moreover have "walk_inv g m s v front (w\<lparr>w_first := Some v\<rparr>)"
      using inv by (simp add: walk_inv_def walk_length_def)
    ultimately show ?thesis using no_candidate [OF built v None] unfolding walked_def by auto
  next
    case (Some best)
    let ?u = "e_src (edge_of g (snd best))"
    note b = max_candidate [OF built v Some]
    have e: "snd best < length (g_edges g)" "g_enabled g ! snd best"
      using b(1) by (auto simp: releases_def walkable_def)
    have pos: "position (g_order g) ?u < position (g_order g) v" using edge_position [OF built e] b(2) by simp
    have step: "walk_loop g m v front seen w =
        walk_loop g m ?u (min (time_of g ?u) front) (seen[v := True]) (walk_push g v front (candidates g m v) best w)"
      using new Some by (simp add: walk_loop.simps [of g m v])
    have "\<forall>x<2 * g_n g. seen[v := True] ! x \<longrightarrow> position (g_order g) ?u < position (g_order g) x"
    proof (intro allI impI)
      fix x assume "x < 2 * g_n g" "seen[v := True] ! x"
      then show "position (g_order g) ?u < position (g_order g) x"
        using seen pos order.strict_trans by (cases "x = v") auto
    qed
    from 1(1) [OF new Some walk_inv_push [OF built inv Some] _ this built] seen(1)
    show ?thesis unfolding step by simp
  qed
qed

lemma sort_is_Nil [simp]: "sort (xs :: 'a::linorder list) = [] \<longleftrightarrow> xs = []"
  by (metis length_0_conv List.linorder_class.length_sort)

lemma last_events_max:
  assumes "last_events g = s # others"
  shows "s \<in> set (g_order g)" "\<forall>v\<in>set (g_order g). time_of g v \<le> time_of g s"
proof -
  have ne: "g_order g \<noteq> []" using assms by (auto simp: last_events_def)
  then have "s \<in> set (last_events g) \<Longrightarrow> s \<in> set (g_order g) \<and> time_of g s = Max (set (map (time_of g) (g_order g)))"
    by (auto simp: last_events_def Let_def split: if_splits)
  then show "s \<in> set (g_order g)" "\<forall>v\<in>set (g_order g). time_of g v \<le> time_of g s"
    using assms by auto
qed

lemma last_events_none: "last_events g = [] \<longleftrightarrow> g_order g = []"
proof
  assume none: "last_events g = []"
  show "g_order g = []"
  proof (rule ccontr)
    assume ne: "g_order g \<noteq> []"
    then have "Max (set (map (time_of g) (g_order g))) \<in> set (map (time_of g) (g_order g))" by (intro Max_in) auto
    then obtain v where "v \<in> set (g_order g)" "time_of g v = Max (set (map (time_of g) (g_order g)))" by fastforce
    with none ne show False by (auto simp: last_events_def Let_def filter_empty_conv split: if_splits)
  qed
qed (simp add: last_events_def)

lemma walk_spec:
  assumes "built g" "g_order g \<noteq> []"
  obtains s f where "w_sink (walk g m) = Some s" "w_first (walk g m) = Some f"
    "s \<in> set (g_order g)" "f \<in> set (g_order g)" "\<forall>v\<in>set (g_order g). time_of g v \<le> time_of g s"
    "path g f (w_steps (walk g m)) s" "\<forall>e\<in>set (w_steps (walk g m)). releases g m e"
    "\<forall>e. walkable g m e \<longrightarrow> e_dst (edge_of g e) \<noteq> f"
    "length (w_cover (walk g m)) = length (w_steps (walk g m))" "\<forall>c\<in>set (w_cover (walk g m)). 0 \<le> c"
    "walk_length (walk g m) = time_of g s - Min (set (map (time_of g) (path_nodes g f (w_steps (walk g m)))))"
proof -
  obtain s others where le: "last_events g = s # others"
    using assms(2) last_events_none [of g] by (cases "last_events g") auto
  note s = last_events_max [OF le]
  define w0 where "w0 = (let w0 = empty_walk\<lparr>w_sink := Some s\<rparr> in
    if others \<noteq> [] then w0\<lparr>w_ties := 1, w_tie_samples := [(time_of g s, [''end of trace''])]\<rparr> else w0)"
  have w0: "w_steps w0 = []" "w_cover w0 = []" "w_sink w0 = Some s" by (simp_all add: w0_def empty_walk_def Let_def)
  define w where "w = walk_loop g m s (time_of g s) (replicate (2 * g_n g) False) w0"
  have walk: "walk g m = w\<lparr>w_steps := rev (w_steps w), w_cover := rev (w_cover w)\<rparr>"
    by (simp add: walk_def le w_def w0_def Let_def)
  have "walk_inv g m s s (time_of g s) w0" using s(1) w0 by (simp add: walk_inv_def walk_length_def)
  from walk_loop_spec [OF assms(1) this, of "replicate (2 * g_n g) False"]
  have "walked g m s w" "w_sink w = Some s" unfolding w_def [symmetric] by (simp_all add: w0)
  then obtain f front where f: "w_first w = Some f" "walk_inv g m s f front w"
      "\<forall>e. walkable g m e \<longrightarrow> e_dst (edge_of g e) \<noteq> f" unfolding walked_def by blast
  show thesis
    by (rule that [of s f])
      (use \<open>w_sink w = Some s\<close> f s in \<open>simp_all add: walk walk_inv_def walk_length_def sum_list_rev\<close>)
qed


section \<open>Properties\<close>

text \<open>The graph of a launch, a kernel and a wait; its walk passes all three.\<close>

definition demo_built :: event_graph where
  "demo_built = build_event_graph demo_skeleton demo_sedges True"

lemma demo_is_built: "built demo_built"
  unfolding demo_built_def by (rule build_built [OF demo_skeleton_ok])

lemma demo_walk: "w_steps (walk demo_built default_mode) = [0, 5, 1] \<and> w_cover (walk demo_built default_mode) = [30, 60, 10] \<and>
    w_first (walk demo_built default_mode) = Some 0 \<and> w_sink (walk demo_built default_mode) = Some 3 \<and>
    g_order demo_built = [0, 4, 1, 5, 2, 3]"
  by code_simp

text \<open>
  C27. The observed critical path (\<open>walk\<close>) of a built graph with events: it ends at an event no
  other event is later than, its steps are a chain of enabled edges from its first event to it,
  no event on it is passed twice, each step is the edge into its destination with the latest
  release time (ties by \<open>cand_key\<close>), and it goes back until an event that no edge the mode
  allows leads to.
\<close>

theorem walk_follows_releases:
  assumes "built g" "g_order g \<noteq> []"
  shows "\<exists>s f. w_sink (walk g m) = Some s \<and> w_first (walk g m) = Some f \<and>
    s \<in> set (g_order g) \<and> (\<forall>v\<in>set (g_order g). time_of g v \<le> time_of g s) \<and>
    path g f (w_steps (walk g m)) s \<and> distinct (path_nodes g f (w_steps (walk g m))) \<and>
    (\<forall>e\<in>set (w_steps (walk g m)). releases g m e) \<and>
    \<not> (\<exists>e. walkable g m e \<and> e_dst (edge_of g e) = f)"
  by (rule walk_spec [OF assms, of m]) (use path_distinct [OF assms(1)] in blast)

lemma walk_follows_releases_witness:
  "path demo_built 0 [0, 5, 1] 3 \<and> distinct (path_nodes demo_built 0 [0, 5, 1]) \<and>
   releases demo_built default_mode 1 \<and> \<not> (\<exists>e. walkable demo_built default_mode e \<and> e_dst (edge_of demo_built e) = 0)"
  using walk_follows_releases [OF demo_is_built, of default_mode] demo_walk by simp

text \<open>
  Property. The time the observed critical path covers: one value of at least zero per step, in sum
  the extent between its last event and the earliest event it passes, so at most the time
  between the first and the last event of the trace, even where clock-tolerance edges go
  backwards in time.
\<close>

theorem walk_covers_extent:
  assumes "built g" "g_order g \<noteq> []"
  shows "length (w_cover (walk g m)) = length (w_steps (walk g m)) \<and> (\<forall>c\<in>set (w_cover (walk g m)). 0 \<le> c) \<and>
    (\<exists>s f. w_sink (walk g m) = Some s \<and> w_first (walk g m) = Some f \<and>
       walk_length (walk g m) = time_of g s - Min (set (map (time_of g) (path_nodes g f (w_steps (walk g m)))))) \<and>
    walk_length (walk g m) \<le> Max (set (map (time_of g) (g_order g))) - Min (set (map (time_of g) (g_order g)))"
proof -
  obtain s f where w: "w_sink (walk g m) = Some s" "w_first (walk g m) = Some f"
    "s \<in> set (g_order g)" "f \<in> set (g_order g)" "path g f (w_steps (walk g m)) s"
    "length (w_cover (walk g m)) = length (w_steps (walk g m))" "\<forall>c\<in>set (w_cover (walk g m)). 0 \<le> c"
    "walk_length (walk g m) = time_of g s - Min (set (map (time_of g) (path_nodes g f (w_steps (walk g m)))))"
    by (rule walk_spec [OF assms, of m])
  have "Min (set (map (time_of g) (g_order g))) \<le> Min (set (map (time_of g) (path_nodes g f (w_steps (walk g m)))))"
    using path_nodes_order [OF assms(1) w(5,4)] by (intro Min_antimono) auto
  moreover have "time_of g s \<le> Max (set (map (time_of g) (g_order g)))" using w(3) by (intro Max_ge) auto
  ultimately have "walk_length (walk g m) \<le> Max (set (map (time_of g) (g_order g))) - Min (set (map (time_of g) (g_order g)))"
    unfolding w(8) by linarith
  with w show ?thesis by blast
qed

lemma walk_covers_extent_witness:
  "walk_length (walk demo_built default_mode) = 100 \<and>
   walk_length (walk demo_built default_mode) \<le> Max (set (map (time_of demo_built) (g_order demo_built)))
     - Min (set (map (time_of demo_built) (g_order demo_built)))"
  using walk_covers_extent [OF demo_is_built, of default_mode] demo_walk by (simp add: walk_length_def)

end
