(* ===== verification/Dag_Values.thy ===== *)
theory Dag_Values
  imports Walk_Facts
begin

text \<open>
  Longest-path values over a topological order: the pass that \<open>longest\<close> makes forward over
  incoming edges and \<open>_backward\<close> makes backward over outgoing ones. The value of a node is the
  greatest weight of an edge chain that ends there.
\<close>

section \<open>The pass\<close>

text \<open>
  The best value over the edges \<open>es\<close> of a node, zero without any; an edge of weight None is
  skipped. \<open>fr\<close> is the node at the other end of an edge.
\<close>

definition better :: "('e \<Rightarrow> int option) \<Rightarrow> ('e \<Rightarrow> nat) \<Rightarrow> int list \<Rightarrow> 'e \<Rightarrow> int \<Rightarrow> int" where
  "better w fr F e best =
     (case w e of None \<Rightarrow> best | Some x \<Rightarrow> (if F ! fr e + x > best then F ! fr e + x else best))"

definition best_over :: "('e \<Rightarrow> int option) \<Rightarrow> ('e \<Rightarrow> nat) \<Rightarrow> int list \<Rightarrow> 'e list \<Rightarrow> int" where
  "best_over w fr F es = fold (better w fr F) es 0"

definition dag_pass :: "('e \<Rightarrow> int option) \<Rightarrow> ('e \<Rightarrow> nat) \<Rightarrow> (nat \<Rightarrow> 'e list) \<Rightarrow> nat list \<Rightarrow> int list \<Rightarrow> int list" where
  "dag_pass w fr into order F = fold (\<lambda>v F. F[v := best_over w fr F (into v)]) order F"

text \<open>A chain of edges, the last one first, that ends at \<open>v\<close>, and its weight.\<close>

fun chain_to :: "('e \<Rightarrow> int option) \<Rightarrow> ('e \<Rightarrow> nat) \<Rightarrow> (nat \<Rightarrow> 'e list) \<Rightarrow> nat \<Rightarrow> 'e list \<Rightarrow> nat \<Rightarrow> bool" where
  "chain_to w fr into v [] u \<longleftrightarrow> u = v"
| "chain_to w fr into v (e # es) u \<longleftrightarrow> e \<in> set (into v) \<and> w e \<noteq> None \<and> chain_to w fr into (fr e) es u"

definition chain_weight :: "('e \<Rightarrow> int option) \<Rightarrow> 'e list \<Rightarrow> int" where
  "chain_weight w es = sum_list (map (\<lambda>e. the (w e)) es)"

lemma chain_weight_simps [simp]:
  "chain_weight w [] = 0" "chain_weight w (e # es) = the (w e) + chain_weight w es"
  "chain_weight w (es @ fs) = chain_weight w es + chain_weight w fs" "chain_weight w (rev es) = chain_weight w es"
  by (simp_all add: chain_weight_def sum_list_rev rev_map [symmetric])

lemma best_over_from:
  "b \<le> fold (better w fr F) es b \<and>
   (\<forall>e\<in>set es. \<forall>x. w e = Some x \<longrightarrow> F ! fr e + x \<le> fold (better w fr F) es b) \<and>
   (fold (better w fr F) es b = b \<or> (\<exists>e\<in>set es. \<exists>x. w e = Some x \<and> fold (better w fr F) es b = F ! fr e + x))"
proof (induction es arbitrary: b)
  case (Cons e es)
  have "b \<le> better w fr F e b \<and> (\<forall>x. w e = Some x \<longrightarrow> F ! fr e + x \<le> better w fr F e b) \<and>
     (better w fr F e b = b \<or> (\<exists>x. w e = Some x \<and> better w fr F e b = F ! fr e + x))"
    by (auto simp: better_def split: option.splits)
  then show ?case using Cons [of "better w fr F e b"] by (auto 0 4)
qed simp

lemma best_over_bounds:
  "0 \<le> best_over w fr F es"
  "e \<in> set es \<Longrightarrow> w e = Some x \<Longrightarrow> F ! fr e + x \<le> best_over w fr F es"
  unfolding best_over_def using best_over_from [where b = 0 and w = w and F = F and fr = fr and es = es] by blast+

lemma best_over_cases:
  obtains "best_over w fr F es = 0"
  | e x where "e \<in> set es" "w e = Some x" "best_over w fr F es = F ! fr e + x"
  unfolding best_over_def using best_over_from [where b = 0 and w = w and F = F and fr = fr and es = es] by blast

lemma best_over_cong:
  "(\<And>e. e \<in> set es \<Longrightarrow> w e \<noteq> None \<Longrightarrow> F ! fr e = G ! fr e) \<Longrightarrow> best_over w fr F es = best_over w fr G es"
  unfolding best_over_def by (rule fold_cong) (auto simp: better_def split: option.splits)

lemma dag_pass_other:
  "v \<notin> set order \<Longrightarrow> dag_pass w fr into order F ! v = F ! v"
  by (induction order arbitrary: F) (auto simp: dag_pass_def nth_list_update)

lemma length_dag_pass [simp]: "length (dag_pass w fr into order F) = length F"
  by (induction order arbitrary: F) (auto simp: dag_pass_def)

section \<open>The interface\<close>

text \<open>
  A traversal of a graph \<open>g\<close>: an order of its nodes, the edges that count into each, and the
  other end of an edge, which comes earlier in the order.
\<close>

locale dag_values =
  fixes ok :: "'g \<Rightarrow> bool" and order :: "'g \<Rightarrow> nat list" and into :: "'g \<Rightarrow> nat \<Rightarrow> 'e list"
    and fr :: "'g \<Rightarrow> 'e \<Rightarrow> nat" and size_of :: "'g \<Rightarrow> nat"
  assumes order_distinct: "ok g \<Longrightarrow> distinct (order g)"
    and order_size: "ok g \<Longrightarrow> v \<in> set (order g) \<Longrightarrow> v < size_of g"
    and earlier: "ok g \<Longrightarrow> order g = xs @ v # ys \<Longrightarrow> e \<in> set (into g v) \<Longrightarrow> fr g e \<in> set xs"
begin

abbreviation pass :: "'g \<Rightarrow> ('e \<Rightarrow> int option) \<Rightarrow> int list" where
  "pass g w \<equiv> dag_pass w (fr g) (into g) (order g) (replicate (size_of g) 0)"

lemma before:
  assumes "ok g" "v \<in> set (order g)" "e \<in> set (into g v)"
  shows "fr g e \<in> set (order g)"
  using split_list [OF assms(2)] earlier [OF assms(1) _ assms(3)] by fastforce

lemma pass_at:
  assumes "ok g" "v \<in> set (order g)"
  shows "pass g w ! v = best_over w (fr g) (pass g w) (into g v)"
proof -
  obtain xs ys where o: "order g = xs @ v # ys" using split_list [OF assms(2)] by blast
  have d: "v \<notin> set xs" "v \<notin> set ys" "set xs \<inter> set ys = {}" using order_distinct [OF assms(1)] o by auto
  let ?F = "dag_pass w (fr g) (into g) xs (replicate (size_of g) 0)"
  let ?G = "?F[v := best_over w (fr g) ?F (into g v)]"
  have p: "pass g w = dag_pass w (fr g) (into g) ys ?G" by (simp add: o dag_pass_def)
  have v: "v < size_of g" by (rule order_size [OF assms])
  have at: "pass g w ! v = best_over w (fr g) ?F (into g v)"
    unfolding p using v by (simp add: dag_pass_other [OF d(2)])
  have same: "pass g w ! u = ?F ! u" if "u \<in> set xs" for u
    unfolding p using that d dag_pass_other [of u ys] by (metis disjoint_iff nth_list_update_neq)
  show ?thesis unfolding at using same earlier [OF assms(1) o] by (intro best_over_cong) metis
qed

lemma pass_nonneg: "ok g \<Longrightarrow> v \<in> set (order g) \<Longrightarrow> 0 \<le> pass g w ! v"
  using pass_at best_over_bounds(1) by metis

lemma pass_step:
  "ok g \<Longrightarrow> v \<in> set (order g) \<Longrightarrow> e \<in> set (into g v) \<Longrightarrow> w e = Some x \<Longrightarrow> pass g w ! fr g e + x \<le> pass g w ! v"
  using pass_at best_over_bounds(2) by metis

lemma pass_upper:
  assumes "ok g"
  shows "v \<in> set (order g) \<Longrightarrow> chain_to w (fr g) (into g) v es u \<Longrightarrow> chain_weight w es \<le> pass g w ! v"
proof (induction es arbitrary: v)
  case Nil
  then show ?case using pass_nonneg [OF assms] by simp
next
  case (Cons e es)
  then obtain x where x: "w e = Some x" by auto
  have "chain_weight w es \<le> pass g w ! fr g e"
    using Cons.prems before [OF assms Cons.prems(1)] by (intro Cons.IH) auto
  then show ?case using pass_step [where w = w and e = e, OF assms Cons.prems(1) _ x] Cons.prems(2) x by simp
qed

lemma pass_attained:
  assumes "ok g"
  shows "v \<in> set (order g) \<Longrightarrow> \<exists>es u. chain_to w (fr g) (into g) v es u \<and> chain_weight w es = pass g w ! v"
proof (induction "position (order g) v" arbitrary: v rule: less_induct)
  case less
  have at: "pass g w ! v = best_over w (fr g) (pass g w) (into g v)" by (rule pass_at [OF assms less.prems])
  show ?case
  proof (rule best_over_cases [of w "fr g" "pass g w" "into g v"])
    assume "best_over w (fr g) (pass g w) (into g v) = 0"
    then show ?thesis using at by (intro exI [of _ "[]"]) simp
  next
    fix e x assume e: "e \<in> set (into g v)" "w e = Some x"
      and b: "best_over w (fr g) (pass g w) (into g v) = pass g w ! fr g e + x"
    obtain xs ys where o: "order g = xs @ v # ys" "v \<notin> set xs" using split_list_first [OF less.prems] by blast
    have "fr g e \<in> set xs" by (rule earlier [OF assms o(1) e(1)])
    then have "position (order g) (fr g e) < position (order g) v"
      unfolding o(1) using position_append [OF o(2)] position_less by metis
    from less.hyps [OF this before [OF assms less.prems e(1)]]
    obtain es u where "chain_to w (fr g) (into g) (fr g e) es u" "chain_weight w es = pass g w ! fr g e" by blast
    then show ?thesis using e at b by (intro exI [of _ "e # es"] exI [of _ u]) simp
  qed
qed

end

end
