(* ===== verification/Longest_Path.thy ===== *)
theory Longest_Path
  imports Dag_Values
begin

text \<open>
  The modeled longest path: \<open>longest\<close> computes the greatest weight of a path of the graph, and
  the values before it, and the counterfactuals and variants only move it in one direction.
\<close>

section \<open>The two traversals\<close>

definition enabled_in :: "event_graph \<Rightarrow> nat \<Rightarrow> nat list" where
  "enabled_in g v = filter (\<lambda>e. g_enabled g ! e) (in_edges g v)"

definition enabled_out :: "event_graph \<Rightarrow> nat \<Rightarrow> nat list" where
  "enabled_out g v = filter (\<lambda>e. g_enabled g ! e) (out_edges g v)"

lemma enabled_in_iff:
  "built g \<Longrightarrow> v < 2 * g_n g \<Longrightarrow>
   e \<in> set (enabled_in g v) \<longleftrightarrow> e < length (g_edges g) \<and> g_enabled g ! e \<and> e_dst (edge_of g e) = v"
  using in_edges_iff [OF built_finished] by (auto simp: enabled_in_def)

lemma enabled_out_iff:
  "built g \<Longrightarrow> v < 2 * g_n g \<Longrightarrow>
   e \<in> set (enabled_out g v) \<longleftrightarrow> e < length (g_edges g) \<and> g_enabled g ! e \<and> e_src (edge_of g e) = v"
  using out_edges_iff [OF built_finished] by (auto simp: enabled_out_def)

lemma built_distinct: "built g \<Longrightarrow> distinct (g_order g)"
  using built_order(1) by (simp add: ordered_def)

lemma order_before:
  assumes "built g" "g_order g = xs @ v # ys" "e \<in> set (enabled_in g v)"
  shows "e_src (edge_of g e) \<in> set xs"
proof -
  have "v < 2 * g_n g" using order_node [OF assms(1)] assms(2) by simp
  then show ?thesis using enabled_in_iff [OF assms(1)] built_order(1) [OF assms(1)] assms(2,3) by (auto simp: ordered_def)
qed

lemma order_after:
  assumes b: "built g" and o: "rev (g_order g) = xs @ v # ys" and e: "e \<in> set (enabled_out g v)"
  shows "e_dst (edge_of g e) \<in> set xs"
proof -
  have o': "g_order g = rev ys @ v # rev xs" using arg_cong [OF o, of rev] by simp
  have v: "v < 2 * g_n g" using order_node [OF b] o' by simp
  note e' = enabled_out_iff [OF b v, THEN iffD1, OF e]
  have dst: "e_dst (edge_of g e) \<in> set (g_order g)" using edge_nodes(2) [OF b] e' by blast
  have d: "distinct (g_order g)" using built_order(1) [OF b] by (simp add: ordered_def)
  have "e_dst (edge_of g e) \<noteq> v" using edge_position [OF b, of e] e' by auto
  moreover have "e_dst (edge_of g e) \<notin> set ys"
  proof
    assume "e_dst (edge_of g e) \<in> set ys"
    then obtain as bs where ys: "rev ys = as @ e_dst (edge_of g e) # bs" using split_list [of "e_dst (edge_of g e)" "rev ys"] by auto
    then have "v \<in> set as"
      using order_before [OF b, of as "e_dst (edge_of g e)" "bs @ v # rev xs" e] e' o'
        enabled_in_iff [OF b order_node [OF b dst]] by auto
    moreover have "v \<notin> set ys" using d o' by auto
    ultimately show False using ys by (metis UnCI set_append set_rev)
  qed
  ultimately show ?thesis using dst o' by auto
qed

interpretation forward: dag_values built g_order enabled_in "\<lambda>g e. e_src (edge_of g e)" "\<lambda>g. 2 * g_n g"
  by (unfold_locales; (rule built_distinct | rule order_node | rule order_before); assumption)

interpretation backward: dag_values built "\<lambda>g. rev (g_order g)" enabled_out "\<lambda>g e. e_dst (edge_of g e)" "\<lambda>g. 2 * g_n g"
proof (unfold_locales, goal_cases)
  case (1 g)
  then show ?case by (simp add: built_distinct)
next
  case (2 g v)
  then show ?case by (simp add: order_node)
next
  case (3 g xs v ys e)
  then show ?case by (rule order_after)
qed

lemma fold_filtered: "fold (\<lambda>x s. if P x then f x s else s) xs s = fold f (filter P xs) s"
  by (induction xs arbitrary: s) auto

lemma longest_at_best:
  "longest_at g gaps direct zero gated F v =
     best_over (longest_weight g gaps direct zero gated) (\<lambda>e. e_src (edge_of g e)) F (enabled_in g v)"
proof -
  have "(\<lambda>e best. if \<not> g_enabled g ! e then best
          else case longest_weight g gaps direct zero gated e of None \<Rightarrow> best
             | Some w \<Rightarrow> (let val = F ! e_src (edge_of g e) + w in if val > best then val else best)) =
      (\<lambda>e best. if g_enabled g ! e then better (longest_weight g gaps direct zero gated) (\<lambda>e. e_src (edge_of g e)) F e best else best)"
    by (intro ext) (simp add: better_def Let_def split: option.splits)
  then show ?thesis unfolding longest_at_def best_over_def enabled_in_def fold_filtered [symmetric] by simp
qed

text \<open>The table of \<open>longest\<close> is the forward pass, its second value the greatest entry.\<close>

lemma longest_run:
  assumes "distinct order" "\<forall>v\<in>set order. v < length F"
  shows "fst (fold (\<lambda>v (F, best_all). let best = longest_at g gaps direct zero gated F v
             in (F[v := best], if best > best_all then best else best_all)) order (F, b)) =
      dag_pass (longest_weight g gaps direct zero gated) (\<lambda>e. e_src (edge_of g e)) (enabled_in g) order F \<and>
    snd (fold (\<lambda>v (F, best_all). let best = longest_at g gaps direct zero gated F v
             in (F[v := best], if best > best_all then best else best_all)) order (F, b)) =
      fold max (map (\<lambda>v. dag_pass (longest_weight g gaps direct zero gated) (\<lambda>e. e_src (edge_of g e)) (enabled_in g) order F ! v) order) b"
  using assms
proof (induction order arbitrary: F b)
  case (Cons v order)
  let ?w = "longest_weight g gaps direct zero gated" let ?fr = "\<lambda>e. e_src (edge_of g e)"
  let ?best = "best_over ?w ?fr F (enabled_in g v)"
  have "dag_pass ?w ?fr (enabled_in g) (v # order) F ! v = ?best"
    using Cons.prems dag_pass_other [of v order ?w ?fr "enabled_in g" "F[v := ?best]"] by (simp add: dag_pass_def)
  moreover have "(if ?best > b then ?best else b) = max ?best b" by simp
  ultimately show ?case
    using Cons.IH [of "F[v := ?best]" "max ?best b"] Cons.prems by (simp add: longest_at_best Let_def dag_pass_def)
qed (simp add: dag_pass_def)

lemma fold_max: "fold max xs (b :: int) = Max (insert b (set xs))"
proof (induction xs arbitrary: b)
  case (Cons x xs)
  have "Max (insert (max x b) (set xs)) = Max (insert b (set (x # xs)))"
    by (cases "set xs = {}") (simp_all add: max.assoc max.commute max.left_commute)
  then show ?case using Cons [of "max x b"] by simp
qed simp

lemma longest_pass:
  assumes "built g"
  shows "fst (longest g gaps direct zero gated) = forward.pass g (longest_weight g gaps direct zero gated)"
    "snd (longest g gaps direct zero gated) =
       Max (insert 0 ((\<lambda>v. fst (longest g gaps direct zero gated) ! v) ` set (g_order g)))"
proof -
  have s: "\<forall>v\<in>set (g_order g). v < length (replicate (2 * g_n g) (0 :: int))" using order_node [OF assms] by simp
  note r = longest_run [OF built_distinct [OF assms] s, of g gaps direct zero gated 0, folded longest_def]
  show "fst (longest g gaps direct zero gated) = forward.pass g (longest_weight g gaps direct zero gated)" using r by blast
  with r show "snd (longest g gaps direct zero gated) =
       Max (insert 0 ((\<lambda>v. fst (longest g gaps direct zero gated) ! v) ` set (g_order g)))"
    by (simp add: fold_max)
qed

section \<open>Paths and their weight\<close>

text \<open>A path of the graph none of whose edges the weight leaves out.\<close>

definition weighed_path :: "event_graph \<Rightarrow> (nat \<Rightarrow> int option) \<Rightarrow> nat \<Rightarrow> nat list \<Rightarrow> nat \<Rightarrow> bool" where
  "weighed_path g w u es v \<longleftrightarrow> path g u es v \<and> (\<forall>e\<in>set es. w e \<noteq> None)"

lemma weighed_append [simp]:
  "weighed_path g w u (es @ fs) v \<longleftrightarrow> (\<exists>x. weighed_path g w u es x \<and> weighed_path g w x fs v)"
  by (auto simp: weighed_path_def)

lemma chain_forward:
  assumes "built g"
  shows "v \<in> set (g_order g) \<Longrightarrow>
    chain_to w (\<lambda>e. e_src (edge_of g e)) (enabled_in g) v es u \<longleftrightarrow> weighed_path g w u (rev es) v"
proof (induction es arbitrary: v)
  case (Cons e es)
  note v = order_node [OF assms Cons.prems]
  have "chain_to w (\<lambda>e. e_src (edge_of g e)) (enabled_in g) (e_src (edge_of g e)) es u \<longleftrightarrow>
      weighed_path g w u (rev es) (e_src (edge_of g e))" if "e < length (g_edges g)"
    by (rule Cons.IH [OF edge_nodes(1) [OF assms that]])
  then show ?case using enabled_in_iff [OF assms v] by (auto simp: weighed_path_def)
qed (auto simp: weighed_path_def)

lemma chain_backward:
  assumes "built g"
  shows "v \<in> set (g_order g) \<Longrightarrow>
    chain_to w (\<lambda>e. e_dst (edge_of g e)) (enabled_out g) v es u \<longleftrightarrow> weighed_path g w v es u"
proof (induction es arbitrary: v)
  case (Cons e es)
  note v = order_node [OF assms Cons.prems]
  have "chain_to w (\<lambda>e. e_dst (edge_of g e)) (enabled_out g) (e_dst (edge_of g e)) es u \<longleftrightarrow>
      weighed_path g w (e_dst (edge_of g e)) es u" if "e < length (g_edges g)"
    by (rule Cons.IH [OF edge_nodes(2) [OF assms that]])
  then show ?case using enabled_out_iff [OF assms v] by (auto simp: weighed_path_def)
qed (auto simp: weighed_path_def)

lemma longest_upper:
  assumes "built g" "v \<in> set (g_order g)" "weighed_path g (longest_weight g gaps direct zero gated) u es v"
  shows "chain_weight (longest_weight g gaps direct zero gated) es \<le> fst (longest g gaps direct zero gated) ! v"
  using forward.pass_upper [OF assms(1,2), of "longest_weight g gaps direct zero gated" "rev es" u] assms(3)
    chain_forward [OF assms(1,2)] by (simp add: longest_pass(1) [OF assms(1)])

lemma longest_attained:
  assumes "built g" "v \<in> set (g_order g)"
  obtains u es where "weighed_path g (longest_weight g gaps direct zero gated) u es v"
    "chain_weight (longest_weight g gaps direct zero gated) es = fst (longest g gaps direct zero gated) ! v"
proof -
  obtain es u where "chain_to (longest_weight g gaps direct zero gated) (\<lambda>e. e_src (edge_of g e)) (enabled_in g) v es u"
      "chain_weight (longest_weight g gaps direct zero gated) es = fst (longest g gaps direct zero gated) ! v"
    using forward.pass_attained [OF assms] unfolding longest_pass(1) [OF assms(1)] by blast
  then show thesis using chain_forward [OF assms] by (intro that [of u "rev es"]) auto
qed

lemma longest_nonneg: "built g \<Longrightarrow> 0 \<le> snd (longest g gaps direct zero gated)"
  by (simp add: longest_pass(2))

lemma longest_total:
  assumes "built g" "weighed_path g (longest_weight g gaps direct zero gated) u es v"
  shows "chain_weight (longest_weight g gaps direct zero gated) es \<le> snd (longest g gaps direct zero gated)"
proof (cases "es = []")
  case True
  then show ?thesis using longest_nonneg [OF assms(1)] by simp
next
  case False
  then have v: "v \<in> set (g_order g)" using path_ends [OF assms(1)] assms(2) by (auto simp: weighed_path_def)
  have "fst (longest g gaps direct zero gated) ! v \<le> snd (longest g gaps direct zero gated)"
    unfolding longest_pass(2) [OF assms(1)] using v by (intro Max_ge) auto
  then show ?thesis using longest_upper [OF assms(1) v assms(2)] by simp
qed

lemma longest_witness:
  assumes "built g" "g_order g \<noteq> []"
  obtains u es v where "weighed_path g (longest_weight g gaps direct zero gated) u es v" "v \<in> set (g_order g)"
    "chain_weight (longest_weight g gaps direct zero gated) es = snd (longest g gaps direct zero gated)"
proof -
  let ?F = "fst (longest g gaps direct zero gated)"
  obtain w where w: "w \<in> set (g_order g)" using assms(2) by (cases "g_order g") auto
  have "Max (insert 0 ((\<lambda>v. ?F ! v) ` set (g_order g))) \<in> insert 0 ((\<lambda>v. ?F ! v) ` set (g_order g))"
    by (intro Max_in) auto
  then consider "snd (longest g gaps direct zero gated) = 0"
    | v where "v \<in> set (g_order g)" "snd (longest g gaps direct zero gated) = ?F ! v"
    unfolding longest_pass(2) [OF assms(1)] by auto
  then show thesis
  proof cases
    case 1
    then show thesis using w by (intro that [of w "[]" w]) (simp_all add: weighed_path_def)
  next
    case (2 v)
    then show thesis using longest_attained [OF assms(1) 2(1)] that by metis
  qed
qed

lemma path_mono:
  assumes "weighed_path g w u es v"
    "\<And>e x. e < length (g_edges g) \<Longrightarrow> w e = Some x \<Longrightarrow> \<exists>y\<ge>x. w' e = Some y"
  shows "weighed_path g w' u es v" "chain_weight w es \<le> chain_weight w' es"
proof -
  have e: "e < length (g_edges g) \<and> w e \<noteq> None" if "e \<in> set es" for e
    using that path_edges assms(1) by (auto simp: weighed_path_def)
  then show "weighed_path g w' u es v" using assms unfolding weighed_path_def by fastforce
  have "the (w e) \<le> the (w' e)" if "e \<in> set es" for e using e [OF that] assms(2) [of e] by fastforce
  then show "chain_weight w es \<le> chain_weight w' es" unfolding chain_weight_def by (rule sum_list_mono)
qed

lemma longest_mono:
  assumes "built g" "\<And>e x. e < length (g_edges g) \<Longrightarrow> longest_weight g gaps direct zero gated e = Some x \<Longrightarrow>
      \<exists>y\<ge>x. longest_weight g gaps' direct' zero' gated' e = Some y"
  shows "snd (longest g gaps direct zero gated) \<le> snd (longest g gaps' direct' zero' gated')"
proof (cases "g_order g = []")
  case True
  then show ?thesis using longest_pass(2) [OF assms(1)] by simp
next
  case False
  then obtain u es v where p: "weighed_path g (longest_weight g gaps direct zero gated) u es v"
    "chain_weight (longest_weight g gaps direct zero gated) es = snd (longest g gaps direct zero gated)"
    using longest_witness [OF assms(1) False] by metis
  note q = path_mono [where w' = "longest_weight g gaps' direct' zero' gated'", OF p(1) assms(2)]
  show ?thesis using q(2) longest_total [OF assms(1) q(1)] p(2) by simp
qed

lemma edge_time:
  assumes "built g" "e < length (g_edges g)"
  shows "e_d (edge_of g e) = max 0 (time_of g (e_dst (edge_of g e)) - time_of g (e_src (edge_of g e)))"
    "0 \<le> g_whi g ! e" "g_whi g ! e \<le> e_d (edge_of g e)"
  using graph_okD(6) [OF finished_ok [OF built_finished [OF assms(1)]] assms(2)] assms by (auto simp: built_def bounds_within_def)

text \<open>Weights lie between zero and the time of the edge.\<close>

lemma longest_weight_range:
  assumes "built g" "e < length (g_edges g)" "longest_weight g gaps direct zero gated e = Some x"
  shows "0 \<le> x \<and> x \<le> e_d (edge_of g e)"
  using assms(3) edge_time [OF assms(1,2)] by (auto simp: longest_weight_def Let_def split: if_splits)

lemma forward_path_time:
  assumes "built g" "\<forall>e<length (g_edges g). g_enabled g ! e \<longrightarrow> time_of g (e_src (edge_of g e)) \<le> time_of g (e_dst (edge_of g e))"
  shows "weighed_path g (longest_weight g gaps direct zero gated) u es v \<Longrightarrow>
    chain_weight (longest_weight g gaps direct zero gated) es \<le> time_of g v - time_of g u"
proof (induction es arbitrary: u)
  case (Cons e es)
  then obtain x where e: "e < length (g_edges g)" "g_enabled g ! e" "e_src (edge_of g e) = u"
    "longest_weight g gaps direct zero gated e = Some x" by (auto simp: weighed_path_def)
  have "chain_weight (longest_weight g gaps direct zero gated) es \<le> time_of g v - time_of g (e_dst (edge_of g e))"
    using Cons.prems by (intro Cons.IH) (simp add: weighed_path_def)
  then show ?case
    using longest_weight_range [OF assms(1) e(1,4)] edge_time(1) [OF assms(1) e(1)] assms(2) e by auto
qed (simp add: weighed_path_def)

section \<open>Properties\<close>

text \<open>
  C5. \<open>longest\<close> is the reference definition of the longest path: the value it gives an event is
  the greatest weight of a path of enabled edges ending there (a path is left out only through
  an edge whose weight is None, the inferred dependencies under direct evidence), and its second
  result is the greatest weight of any path of the graph.
\<close>

theorem longest_is_longest:
  assumes "built g" "longest g gaps direct zero gated = (F, L)"
  shows "let w = longest_weight g gaps direct zero gated in
    (\<forall>v\<in>set (g_order g). (\<forall>u es. weighed_path g w u es v \<longrightarrow> chain_weight w es \<le> F ! v) \<and>
      (\<exists>u es. weighed_path g w u es v \<and> chain_weight w es = F ! v)) \<and>
    (\<forall>u es v. weighed_path g w u es v \<longrightarrow> chain_weight w es \<le> L) \<and>
    (g_order g \<noteq> [] \<longrightarrow> (\<exists>u es v. weighed_path g w u es v \<and> chain_weight w es = L))"
proof -
  have FL: "F = fst (longest g gaps direct zero gated)" "L = snd (longest g gaps direct zero gated)"
    using assms(2) by simp_all
  show ?thesis
    unfolding FL Let_def
    using longest_upper [OF assms(1)] longest_attained [OF assms(1)] longest_total [OF assms(1)] longest_witness [OF assms(1)]
    by metis
qed

lemma longest_is_longest_witness:
  "longest demo_built True False None False = ([0, 10, 20, 60, 0, 60], 60) \<and>
   (\<exists>u es v. weighed_path demo_built (longest_weight demo_built True False None False) u es v \<and>
      chain_weight (longest_weight demo_built True False None False) es = 60)"
proof -
  have l: "longest demo_built True False None False = ([0, 10, 20, 60, 0, 60], 60)" by code_simp
  show ?thesis using longest_is_longest [OF demo_is_built l] l demo_walk by (simp add: Let_def)
qed

text \<open>
  Property. A counterfactual reduction is never negative: setting the busy time of any spans to zero
  does not lengthen the modeled longest path, which stays at least zero.
\<close>

theorem counterfactual_shortens:
  assumes "built g"
  shows "0 \<le> snd (longest g gaps direct (Some Z) gated) \<and>
    snd (longest g gaps direct (Some Z) gated) \<le> snd (longest g gaps direct None gated)"
  using longest_nonneg [OF assms] edge_time [OF assms]
  by (intro conjI longest_mono [OF assms]) (auto simp: longest_weight_def is_zero_def Let_def split: if_splits)

lemma counterfactual_shortens_witness:
  "snd (longest demo_built True False (Some {2}) False) = 20 \<and>
   snd (longest demo_built True False (Some {2}) False) \<le> snd (longest demo_built True False None False)"
proof -
  have "snd (longest demo_built True False (Some {2}) False) = 20" by code_simp
  then show ?thesis using counterfactual_shortens [OF demo_is_built, of True False "{2}" False] by blast
qed

text \<open>
  Property. The variants bound the modeled length: counting unrecorded time or the tails of gated
  calls as work never shortens the longest path, and keeping only direct evidence never
  lengthens it.
\<close>

theorem variants_bound_longest:
  assumes "built g"
  shows "snd (longest g False direct zero gated) \<le> snd (longest g True direct zero gated) \<and>
    snd (longest g gaps True zero gated) \<le> snd (longest g gaps False zero gated) \<and>
    snd (longest g gaps direct zero False) \<le> snd (longest g gaps direct zero True)"
  using edge_time [OF assms]
  by (intro conjI longest_mono [OF assms]) (auto simp: longest_weight_def Let_def split: if_splits)

lemma variants_bound_longest_witness:
  "snd (longest demo_built True False None True) = 70 \<and>
   snd (longest demo_built True False None False) \<le> snd (longest demo_built True False None True)"
proof -
  have "snd (longest demo_built True False None True) = 70" by code_simp
  then show ?thesis using variants_bound_longest [OF demo_is_built, of False None False True] by blast
qed

text \<open>
  Property. The modeled longest path is at most the wall time of the trace when no enabled edge goes
  back in time.
\<close>

theorem longest_within_wall_time:
  assumes "built g" "g_order g \<noteq> []"
    "\<forall>e<length (g_edges g). g_enabled g ! e \<longrightarrow> time_of g (e_src (edge_of g e)) \<le> time_of g (e_dst (edge_of g e))"
  shows "snd (longest g gaps direct zero gated) \<le> Max (set (map (time_of g) (g_order g))) - Min (set (map (time_of g) (g_order g)))"
proof -
  obtain u es v where p: "weighed_path g (longest_weight g gaps direct zero gated) u es v" "v \<in> set (g_order g)"
    "chain_weight (longest_weight g gaps direct zero gated) es = snd (longest g gaps direct zero gated)"
    by (rule longest_witness [OF assms(1,2)])
  have "u \<in> set (g_order g)"
    using p path_ends [OF assms(1)] by (cases "es = []") (auto simp: weighed_path_def)
  then have "Min (set (map (time_of g) (g_order g))) \<le> time_of g u" by (intro Min_le) auto
  moreover have "time_of g v \<le> Max (set (map (time_of g) (g_order g)))" using p(2) by (intro Max_ge) auto
  ultimately show ?thesis using forward_path_time [OF assms(1,3) p(1)] p(3) by simp
qed

lemma longest_within_wall_time_witness:
  "snd (longest demo_built True False None False) \<le> Max (set (map (time_of demo_built) (g_order demo_built)))
     - Min (set (map (time_of demo_built) (g_order demo_built)))"
proof -
  have "\<forall>e\<in>set [0..<length (g_edges demo_built)]. g_enabled demo_built ! e \<longrightarrow>
      time_of demo_built (e_src (edge_of demo_built e)) \<le> time_of demo_built (e_dst (edge_of demo_built e))" by code_simp
  then show ?thesis using demo_walk by (intro longest_within_wall_time [OF demo_is_built]) auto
qed

text \<open>
  Without that hypothesis it can exceed the wall time, which the module's documentation says it
  does not: a kernel recorded 10 ns before the call that launched it, within the clock tolerance,
  lets the path count those 10 ns on the thread and on the device.
\<close>

definition clamped_skeleton :: skeleton where
  "clamped_skeleton = \<lparr>sk_n = 3, sk_t = [0, 50, 50, 60, 40, 100], sk_cat = [''mpi'', ''cuda'', ''cuda''],
     sk_name = [''setup'', ''launch'', ''kernel''], sk_device = [False, False, True], sk_excluded = [False, False, False],
     sk_rooted = [False, False, False], sk_rootflow = [False, False, False], sk_blocking = [False, False, False],
     sk_domain = [0, 0, 1], sk_stream_key = [(2, (1, ''cuda'', Some ''7'', None))],
     sk_lane = [Some 0, Some 0, None], sk_resolved = [False, False, False], sk_lanes = [[0, 1]],
     sk_dom_keys = [HostDom ''0'', DeviceDom ''0'' 1 (Some ''cuda'') []], sk_dom_bounds = [Some 0, Some 50000]\<rparr>"

definition clamped_sedges :: "sedge list" where
  "clamped_sedges = [\<lparr>s_dst = 2, s_src = 1, s_kind = S_launch, s_conf = Certain\<rparr>]"

lemma longest_exceeds_wall_time:
  "let g = build_event_graph clamped_skeleton clamped_sedges True in
     skeleton_ok clamped_skeleton \<and> sedges_ok clamped_skeleton clamped_sedges \<and>
     g_t g = [0, 50, 50, 60, 40, 100] \<and> snd (longest g True False None False) = 110"
  by code_simp

end
