(* ===== verification/Criticality_Facts.thy ===== *)
theory Criticality_Facts
  imports Longest_Path
begin

text \<open>
  Criticality: an edge is tight when it lies on some longest path, and it lies on every longest
  path exactly when it is the only tight edge crossing some cut of the topological order.
\<close>

section \<open>Longest paths, forward and backward\<close>

text \<open>The required time of an edge with unrecorded time counted as work.\<close>

definition crit_weight :: "event_graph \<Rightarrow> nat \<Rightarrow> int" where
  "crit_weight g e = required (e_mode (edge_of g e)) (e_d (edge_of g e)) True 0 False"

abbreviation crit_F :: "event_graph \<Rightarrow> int list" where
  "crit_F g \<equiv> fst (longest g True False None False)"

abbreviation crit_L :: "event_graph \<Rightarrow> int" where
  "crit_L g \<equiv> snd (longest g True False None False)"

abbreviation crit_B :: "event_graph \<Rightarrow> int list" where
  "crit_B g \<equiv> backward g True False"

definition path_time :: "event_graph \<Rightarrow> nat list \<Rightarrow> int" where
  "path_time g es = sum_list (map (crit_weight g) es)"

lemma path_time_simps [simp]:
  "path_time g [] = 0" "path_time g (e # es) = crit_weight g e + path_time g es"
  "path_time g (es @ fs) = path_time g es + path_time g fs"
  by (simp_all add: path_time_def)

lemma longest_weight_crit: "longest_weight g True False None False = (\<lambda>e. Some (crit_weight g e))"
proof
  fix e
  show "longest_weight g True False None False e = Some (crit_weight g e)"
    by (cases "e_mode (edge_of g e)") (simp_all add: longest_weight_def crit_weight_def required_def is_zero_def Let_def)
qed

lemma chain_weight_crit: "chain_weight (\<lambda>e. Some (crit_weight g e)) es = path_time g es"
  by (simp add: chain_weight_def path_time_def)

lemma weighed_crit: "weighed_path g (\<lambda>e. Some (crit_weight g e)) u es v \<longleftrightarrow> path g u es v"
  by (simp add: weighed_path_def)

lemma F_upper: "built g \<Longrightarrow> v \<in> set (g_order g) \<Longrightarrow> path g u es v \<Longrightarrow> path_time g es \<le> crit_F g ! v"
  using longest_upper [of g v True False None False u es]
  by (simp add: longest_weight_crit chain_weight_crit weighed_crit)

lemma F_attained:
  assumes "built g" "v \<in> set (g_order g)"
  obtains u es where "path g u es v" "path_time g es = crit_F g ! v"
  using longest_attained [OF assms, of True False None False]
  by (auto simp: longest_weight_crit chain_weight_crit weighed_crit)

lemma L_upper: "built g \<Longrightarrow> path g u es v \<Longrightarrow> path_time g es \<le> crit_L g"
  using longest_total [of g True False None False u es v]
  by (simp add: longest_weight_crit chain_weight_crit weighed_crit)

lemma backward_at_best:
  "backward_at g True False B u = best_over (\<lambda>e. Some (crit_weight g e)) (\<lambda>e. e_dst (edge_of g e)) B (enabled_out g u)"
proof -
  have "(\<lambda>e best. if g_enabled g ! e then
             (let x = edge_of g e; val = B ! e_dst x + required (e_mode x) (e_d x) True (g_whi g ! e) False
              in if val > best then val else best) else best) =
      (\<lambda>e best. if g_enabled g ! e then better (\<lambda>e. Some (crit_weight g e)) (\<lambda>e. e_dst (edge_of g e)) B e best else best)"
    by (intro ext) (simp add: better_def Let_def crit_weight_def required_def)
  then show ?thesis unfolding backward_at_def best_over_def enabled_out_def fold_filtered [symmetric] by simp
qed

lemma backward_pass: "crit_B g = backward.pass g (\<lambda>e. Some (crit_weight g e))"
  by (simp add: backward_def dag_pass_def backward_at_best)

lemma B_upper:
  assumes "built g" "v \<in> set (g_order g)" "path g v es u"
  shows "path_time g es \<le> crit_B g ! v"
  using backward.pass_upper [OF assms(1), of v "\<lambda>e. Some (crit_weight g e)" es u] assms
    chain_backward [OF assms(1,2), of "\<lambda>e. Some (crit_weight g e)" es u]
  by (simp add: backward_pass chain_weight_crit weighed_crit)

lemma B_attained:
  assumes "built g" "v \<in> set (g_order g)"
  obtains u es where "path g v es u" "path_time g es = crit_B g ! v"
  using backward.pass_attained [OF assms(1), of v "\<lambda>e. Some (crit_weight g e)"] assms
    chain_backward [OF assms(1,2), of "\<lambda>e. Some (crit_weight g e)"]
  by (auto simp: backward_pass chain_weight_crit weighed_crit)

text \<open>A longest path, between events of the order.\<close>

definition longest_path :: "event_graph \<Rightarrow> nat \<Rightarrow> nat list \<Rightarrow> nat \<Rightarrow> bool" where
  "longest_path g u es v \<longleftrightarrow> path g u es v \<and> u \<in> set (g_order g) \<and> path_time g es = crit_L g"

lemma longest_path_end: "built g \<Longrightarrow> longest_path g u es v \<Longrightarrow> v \<in> set (g_order g)"
  using path_ends [of g u es v] by (cases "es = []") (auto simp: longest_path_def)

lemma F_le_L: "built g \<Longrightarrow> v \<in> set (g_order g) \<Longrightarrow> crit_F g ! v \<le> crit_L g"
  using F_attained L_upper by metis

lemma B_le_L: "built g \<Longrightarrow> v \<in> set (g_order g) \<Longrightarrow> crit_B g ! v \<le> crit_L g"
  using B_attained L_upper by metis

text \<open>The longest path through an edge.\<close>

lemma through_edge:
  assumes "built g" "e < length (g_edges g)" "g_enabled g ! e"
  obtains u es v where "path g u es v" "u \<in> set (g_order g)" "e \<in> set es"
    "path_time g es = crit_F g ! e_src (edge_of g e) + crit_weight g e + crit_B g ! e_dst (edge_of g e)"
proof -
  note n = edge_nodes [OF assms(1,2)]
  obtain u es where f: "path g u es (e_src (edge_of g e))" "path_time g es = crit_F g ! e_src (edge_of g e)"
    by (rule F_attained [OF assms(1) n(1)])
  obtain v fs where b: "path g (e_dst (edge_of g e)) fs v" "path_time g fs = crit_B g ! e_dst (edge_of g e)"
    by (rule B_attained [OF assms(1) n(2)])
  have "path g u (es @ e # fs) v" using f b assms by auto
  then show thesis
    using f b path_ends [OF assms(1), of u "es @ e # fs" v] by (intro that [of u "es @ e # fs" v]) simp_all
qed

lemma through_edge_upper:
  assumes "built g" "path g u es v" "e \<in> set es"
  shows "path_time g es \<le> crit_F g ! e_src (edge_of g e) + crit_weight g e + crit_B g ! e_dst (edge_of g e)"
proof -
  note e = path_edges [OF assms(2,3)]
  note n = edge_nodes [OF assms(1) e [THEN conjunct1]]
  obtain as bs where es: "es = as @ e # bs" using assms(3) by (meson split_list)
  then have "path g u as (e_src (edge_of g e))" "path g (e_dst (edge_of g e)) bs v" using assms(2) by auto
  then show ?thesis using F_upper [OF assms(1) n(1)] B_upper [OF assms(1) n(2)] es by fastforce
qed

lemma tight_iff:
  assumes "built g" "e < length (g_edges g)" "g_enabled g ! e"
  shows "tight_edge g (crit_F g) (crit_B g) (crit_L g) e \<longleftrightarrow> (\<exists>u es v. longest_path g u es v \<and> e \<in> set es)"
proof -
  have t: "tight_edge g (crit_F g) (crit_B g) (crit_L g) e \<longleftrightarrow>
      crit_F g ! e_src (edge_of g e) + crit_weight g e + crit_B g ! e_dst (edge_of g e) = crit_L g"
    by (simp add: tight_edge_def crit_weight_def Let_def)
  obtain u es v where p: "path g u es v" "u \<in> set (g_order g)" "e \<in> set es"
      "path_time g es = crit_F g ! e_src (edge_of g e) + crit_weight g e + crit_B g ! e_dst (edge_of g e)"
    by (rule through_edge [OF assms])
  have "crit_F g ! e_src (edge_of g e) + crit_weight g e + crit_B g ! e_dst (edge_of g e) \<le> crit_L g"
    using L_upper [OF assms(1) p(1)] p(4) by simp
  then show ?thesis unfolding t using p through_edge_upper [OF assms(1)] by (fastforce simp: longest_path_def)
qed

lemma start_iff:
  assumes "built g" "v \<in> set (g_order g)"
  shows "crit_B g ! v = crit_L g \<longleftrightarrow> (\<exists>es u. longest_path g v es u)"
  using B_attained [OF assms] B_upper [OF assms] B_le_L [OF assms] assms(2) unfolding longest_path_def
  by (metis order_antisym_conv)

lemma end_iff:
  assumes "built g" "v \<in> set (g_order g)"
  shows "crit_F g ! v = crit_L g \<longleftrightarrow> (\<exists>es u. longest_path g u es v)"
proof
  assume L: "crit_F g ! v = crit_L g"
  obtain u es where p: "path g u es v" "path_time g es = crit_F g ! v" by (rule F_attained [OF assms])
  then have "u \<in> set (g_order g)" using path_ends [OF assms(1)] assms(2) by (cases "es = []") auto
  then show "\<exists>es u. longest_path g u es v" using p L by (auto simp: longest_path_def)
next
  assume "\<exists>es u. longest_path g u es v"
  then show "crit_F g ! v = crit_L g"
    using F_upper [OF assms] F_le_L [OF assms] by (fastforce simp: longest_path_def)
qed

section \<open>Cuts\<close>

abbreviation pos_of :: "event_graph \<Rightarrow> nat \<Rightarrow> nat" where
  "pos_of g v \<equiv> position (g_order g) v"

abbreviation tight :: "event_graph \<Rightarrow> nat \<Rightarrow> bool" where
  "tight g e \<equiv> tight_edge g (crit_F g) (crit_B g) (crit_L g) e"

text \<open>
  What crosses the cut before position \<open>c\<close>: tight edges, and the edges from the virtual source
  to a start and from an end to the virtual sink.
\<close>

definition crossing_edges :: "event_graph \<Rightarrow> nat \<Rightarrow> nat set" where
  "crossing_edges g c = {e. e < length (g_edges g) \<and> g_enabled g ! e \<and> tight g e \<and>
     pos_of g (e_src (edge_of g e)) < c \<and> c \<le> pos_of g (e_dst (edge_of g e))}"

definition crossing_starts :: "event_graph \<Rightarrow> nat \<Rightarrow> nat set" where
  "crossing_starts g c = {v \<in> set (g_order g). crit_B g ! v = crit_L g \<and> c \<le> pos_of g v}"

definition crossing_ends :: "event_graph \<Rightarrow> nat \<Rightarrow> nat set" where
  "crossing_ends g c = {v \<in> set (g_order g). crit_F g ! v = crit_L g \<and> pos_of g v < c}"

definition crossings :: "event_graph \<Rightarrow> nat \<Rightarrow> int" where
  "crossings g c = int (card (crossing_edges g c) + card (crossing_starts g c) + card (crossing_ends g c))"

lemma finite_crossing [simp]: "finite (crossing_edges g c)" "finite (crossing_starts g c)" "finite (crossing_ends g c)"
  by (simp_all add: crossing_edges_def crossing_starts_def crossing_ends_def)

lemma crossing_alone:
  assumes "e \<in> crossing_edges g c"
  shows "crossings g c = 1 \<longleftrightarrow> crossing_edges g c = {e} \<and> crossing_starts g c = {} \<and> crossing_ends g c = {}"
proof -
  have "card (crossing_edges g c) > 0" using assms by (auto simp: card_gt_0_iff)
  moreover have "card (crossing_edges g c) = 1 \<longleftrightarrow> crossing_edges g c = {e}"
    using assms by (auto simp: card_1_singleton_iff)
  ultimately have "crossings g c = 1 \<longleftrightarrow> crossing_edges g c = {e} \<and> card (crossing_starts g c) = 0 \<and> card (crossing_ends g c) = 0"
    unfolding crossings_def by linarith
  then show ?thesis by simp
qed

lemma path_crosses:
  "path g u es v \<Longrightarrow> pos_of g u < c \<Longrightarrow> c \<le> pos_of g v \<Longrightarrow>
   \<exists>e\<in>set es. pos_of g (e_src (edge_of g e)) < c \<and> c \<le> pos_of g (e_dst (edge_of g e))"
proof (induction es arbitrary: u)
  case (Cons e es)
  show ?case
  proof (cases "c \<le> pos_of g (e_dst (edge_of g e))")
    case True
    then show ?thesis using Cons.prems by auto
  next
    case False
    then show ?thesis using Cons.IH [of "e_dst (edge_of g e)"] Cons.prems by auto
  qed
qed simp

text \<open>Two edges of one path follow each other.\<close>

lemma path_edge_between:
  assumes "built g" "path g u es v" "e \<in> set es"
  shows "pos_of g u \<le> pos_of g (e_src (edge_of g e))" "pos_of g (e_dst (edge_of g e)) \<le> pos_of g v"
proof -
  obtain as bs where es: "es = as @ e # bs" using assms(3) by (meson split_list)
  then have "path g u as (e_src (edge_of g e))" "path g (e_dst (edge_of g e)) bs v" using assms(2) by auto
  then show "pos_of g u \<le> pos_of g (e_src (edge_of g e))" "pos_of g (e_dst (edge_of g e)) \<le> pos_of g v"
    using path_position [OF assms(1)] by fastforce+
qed

lemma path_edges_follow:
  assumes "built g" "path g u es v" "e \<in> set es" "f \<in> set es" "e \<noteq> f"
  shows "pos_of g (e_dst (edge_of g e)) \<le> pos_of g (e_src (edge_of g f)) \<or>
    pos_of g (e_dst (edge_of g f)) \<le> pos_of g (e_src (edge_of g e))"
proof -
  obtain as bs where es: "es = as @ e # bs" using assms(3) by (meson split_list)
  then have p: "path g u as (e_src (edge_of g e))" "path g (e_dst (edge_of g e)) bs v" using assms(2) by auto
  have "f \<in> set as \<or> f \<in> set bs" using assms(4,5) es by auto
  then show ?thesis using path_edge_between [OF assms(1) p(1)] path_edge_between [OF assms(1) p(2)] by blast
qed

text \<open>The cut test: an edge on some longest path is on every one iff it is alone across a cut it crosses.\<close>

lemma cut_test:
  assumes "built g" "e < length (g_edges g)" "g_enabled g ! e" "tight g e"
  shows "(\<exists>c. pos_of g (e_src (edge_of g e)) < c \<and> c \<le> pos_of g (e_dst (edge_of g e)) \<and> crossings g c = 1) \<longleftrightarrow>
    (\<forall>u es v. longest_path g u es v \<longrightarrow> e \<in> set es)"
proof
  assume "\<exists>c. pos_of g (e_src (edge_of g e)) < c \<and> c \<le> pos_of g (e_dst (edge_of g e)) \<and> crossings g c = 1"
  then obtain c where c: "pos_of g (e_src (edge_of g e)) < c" "c \<le> pos_of g (e_dst (edge_of g e))" "crossings g c = 1" by blast
  have "e \<in> crossing_edges g c" using assms c by (simp add: crossing_edges_def)
  then have alone: "crossing_edges g c = {e}" "crossing_starts g c = {}" "crossing_ends g c = {}"
    using crossing_alone c(3) by blast+
  show "\<forall>u es v. longest_path g u es v \<longrightarrow> e \<in> set es"
  proof (intro allI impI)
    fix u es v assume p: "longest_path g u es v"
    have u: "u \<in> set (g_order g)" using p by (simp add: longest_path_def)
    note v = longest_path_end [OF assms(1) p]
    have "crit_B g ! u = crit_L g" "crit_F g ! v = crit_L g"
      using start_iff [OF assms(1) u] end_iff [OF assms(1) v] p by blast+
    then have "pos_of g u < c" "c \<le> pos_of g v"
      using alone u v by (auto simp: crossing_starts_def crossing_ends_def not_le [symmetric])
    with p obtain f where f: "f \<in> set es" "pos_of g (e_src (edge_of g f)) < c" "c \<le> pos_of g (e_dst (edge_of g f))"
      using path_crosses unfolding longest_path_def by blast
    have "f < length (g_edges g) \<and> g_enabled g ! f" using path_edges f(1) p by (auto simp: longest_path_def)
    then have "f \<in> crossing_edges g c" using tight_iff [OF assms(1)] p f by (auto simp: crossing_edges_def)
    then show "e \<in> set es" using alone f by simp
  qed
next
  assume every: "\<forall>u es v. longest_path g u es v \<longrightarrow> e \<in> set es"
  let ?c = "pos_of g (e_dst (edge_of g e))"
  have lt: "pos_of g (e_src (edge_of g e)) < ?c" by (rule edge_position [OF assms(1-3)])
  have e: "e \<in> crossing_edges g ?c" using assms lt by (simp add: crossing_edges_def)
  have "f = e" if f: "f \<in> crossing_edges g ?c" for f
  proof (rule ccontr)
    assume ne: "f \<noteq> e"
    have f': "f < length (g_edges g)" "g_enabled g ! f" "tight g f" "pos_of g (e_src (edge_of g f)) < ?c"
      "?c \<le> pos_of g (e_dst (edge_of g f))" using f by (auto simp: crossing_edges_def)
    then obtain u es v where p: "longest_path g u es v" "f \<in> set es" using tight_iff [OF assms(1) f'(1,2)] by blast
    then have "e \<in> set es" using every by blast
    then show False using path_edges_follow [OF assms(1), of u es v e f] p ne f' lt by (auto simp: longest_path_def)
  qed
  then have "crossing_edges g ?c = {e}" using e by blast
  moreover have "crossing_starts g ?c = {}"
  proof -
    have False if v: "v \<in> crossing_starts g ?c" for v
    proof -
      have v': "v \<in> set (g_order g)" "crit_B g ! v = crit_L g" "?c \<le> pos_of g v" using v by (auto simp: crossing_starts_def)
      then obtain es u where p: "longest_path g v es u" using start_iff [OF assms(1) v'(1)] by blast
      then have "e \<in> set es" using every by blast
      then show False using path_edge_between(1) [OF assms(1), of v es u e] p v' lt by (auto simp: longest_path_def)
    qed
    then show ?thesis by blast
  qed
  moreover have "crossing_ends g ?c = {}"
  proof -
    have False if v: "v \<in> crossing_ends g ?c" for v
    proof -
      have v': "v \<in> set (g_order g)" "crit_F g ! v = crit_L g" "pos_of g v < ?c" using v by (auto simp: crossing_ends_def)
      then obtain es u where p: "longest_path g u es v" using end_iff [OF assms(1) v'(1)] by blast
      then have "e \<in> set es" using every by blast
      then show False using path_edge_between(2) [OF assms(1), of u es v e] p v' by (auto simp: longest_path_def)
    qed
    then show ?thesis by blast
  qed
  ultimately have "crossings g ?c = 1" using crossing_alone [OF e] by blast
  then show "\<exists>c. pos_of g (e_src (edge_of g e)) < c \<and> c \<le> pos_of g (e_dst (edge_of g e)) \<and> crossings g c = 1"
    using lt by blast
qed

section \<open>The sweep over the cuts\<close>

definition prefix_sum :: "int list \<Rightarrow> nat \<Rightarrow> int" where
  "prefix_sum xs c = (\<Sum>k\<le>c. xs ! k)"

lemma prefix_sum_bump: "i < length xs \<Longrightarrow> c < length xs \<Longrightarrow> prefix_sum (bump i n xs) c = prefix_sum xs c + (if i \<le> c then n else 0)"
proof -
  assume i: "i < length xs" and c: "c < length xs"
  have "prefix_sum (bump i n xs) c = (\<Sum>k\<le>c. xs ! k + (if k = i then n else 0))"
    unfolding prefix_sum_def bump_def using c by (intro sum.cong) (auto simp: nth_list_update)
  then show ?thesis by (simp add: prefix_sum_def sum.distrib)
qed

lemma length_bump [simp]: "length (bump i n xs) = length xs"
  by (simp add: bump_def)

lemma position_bound: "v \<in> set xs \<Longrightarrow> position xs v < length xs"
  using position_less [of v xs "[]"] by simp

lemma position_nth: "distinct xs \<Longrightarrow> i < length xs \<Longrightarrow> position xs (xs ! i) = i"
proof -
  assume d: "distinct xs" and i: "i < length xs"
  have "xs = take i xs @ xs ! i # drop (Suc i) xs" by (rule id_take_nth_drop [OF i])
  moreover have "xs ! i \<notin> set (take i xs)" using d i by (auto simp: in_set_conv_nth nth_eq_iff_index_eq)
  ultimately show ?thesis using position_append [of "xs ! i" "take i xs" "drop (Suc i) xs"] i by simp
qed

lemma positions_spec:
  assumes "built g" "v \<in> set (g_order g)"
  shows "positions g ! v = pos_of g v"
proof -
  let ?P = "\<lambda>k pos. length pos = 2 * g_n g \<and> (\<forall>i<k. pos ! (g_order g ! i) = i)"
  have "?P (length (g_order g)) (positions g)"
    unfolding positions_def
  proof (rule fold_enumerate_inv [where P = ?P])
    fix i pos assume i: "i < length (g_order g)" and P: "?P i pos"
    have "g_order g ! i < 2 * g_n g" using order_node [OF assms(1)] i by simp
    then show "?P (Suc i) ((\<lambda>(p, v) pos. pos[v := p]) (i, g_order g ! i) pos)"
      using P i built_distinct [OF assms(1)] by (auto simp: less_Suc_eq nth_list_update nth_eq_iff_index_eq)
  qed simp
  then show ?thesis
    using assms(2) position_nth [OF built_distinct [OF assms(1)]] by (metis in_set_conv_nth)
qed

lemma cut_edges_spec:
  assumes b: "built g" and d: "length d = length (g_order g) + 2"
    and s: "cut_edges g (crit_F g) (crit_B g) (crit_L g) (positions g) (replicate (length (g_edges g)) False, d) = (ts, d')"
  shows "length d' = length d" "\<And>e. e < length (g_edges g) \<Longrightarrow> ts ! e \<longleftrightarrow> g_enabled g ! e \<and> tight g e"
    "\<And>c. c \<le> length (g_order g) \<Longrightarrow> prefix_sum d' c = prefix_sum d c + int (card (crossing_edges g c))"
proof -
  let ?M = "length (g_order g)"
  let ?A = "\<lambda>k c. {e. e < k \<and> g_enabled g ! e \<and> tight g e \<and> pos_of g (e_src (edge_of g e)) < c \<and> c \<le> pos_of g (e_dst (edge_of g e))}"
  let ?P = "\<lambda>k s. length (fst s) = length (g_edges g) \<and> length (snd s) = ?M + 2 \<and>
     (\<forall>e<length (g_edges g). fst s ! e \<longleftrightarrow> e < k \<and> g_enabled g ! e \<and> tight g e) \<and>
     (\<forall>c\<le>?M. prefix_sum (snd s) c = prefix_sum d c + int (card (?A k c)))"
  have "?P (length (g_edges g)) (cut_edges g (crit_F g) (crit_B g) (crit_L g) (positions g) (replicate (length (g_edges g)) False, d))"
    unfolding cut_edges_def
  proof (rule fold_range_inv [where P = ?P])
    fix e st assume e: "e < length (g_edges g)" and P: "?P e st"
    obtain ts df where st: "st = (ts, df)" by (cases st)
    note n = edge_nodes [OF b e]
    let ?u = "pos_of g (e_src (edge_of g e))" let ?v = "pos_of g (e_dst (edge_of g e))"
    have pos: "positions g ! e_src (edge_of g e) = ?u" "positions g ! e_dst (edge_of g e) = ?v"
      using positions_spec [OF b] n by simp_all
    have M: "?u < ?M" "?v < ?M" using position_bound n by blast+
    have A: "?A (Suc e) c = (if g_enabled g ! e \<and> tight g e \<and> ?u < c \<and> c \<le> ?v then insert e (?A e c) else ?A e c)" for c
      by (auto simp: less_Suc_eq)
    have card: "card (?A (Suc e) c) = (if g_enabled g ! e \<and> tight g e \<and> ?u < c \<and> c \<le> ?v then 1 else 0) + card (?A e c)" for c
      unfolding A by (simp split: if_splits)
    show "?P (Suc e) ((\<lambda>e (tight, diff).
       if g_enabled g ! e \<and> tight_edge g (crit_F g) (crit_B g) (crit_L g) e then
         (tight[e := True],
          bump (positions g ! e_dst (edge_of g e) + 1) (-1) (bump (positions g ! e_src (edge_of g e) + 1) 1 diff))
       else (tight, diff)) e st)"
    proof (cases "g_enabled g ! e \<and> tight g e")
      case False
      then have "card (?A (Suc e) c) = card (?A e c)" for c using card [of c] by presburger
      then show ?thesis using P False by (auto simp: st less_Suc_eq)
    next
      case True
      have "?u < ?v" using edge_position [OF b e] True by blast
      then have "card (?A (Suc e) c) = (if ?u + 1 \<le> c then 1 else 0) - (if ?v + 1 \<le> c then 1 else 0) + card (?A e c)" for c
        unfolding card using True by auto
      moreover have "prefix_sum (bump (?v + 1) (-1) (bump (?u + 1) 1 df)) c =
          prefix_sum df c + (if ?u + 1 \<le> c then 1 else 0) - (if ?v + 1 \<le> c then 1 else 0)" if "c \<le> ?M" for c
        using that P M by (simp add: st prefix_sum_bump)
      ultimately have up: "prefix_sum (bump (?v + 1) (-1) (bump (?u + 1) 1 df)) c = prefix_sum d c + int (card (?A (Suc e) c))"
        if "c \<le> ?M" for c using P that \<open>?u < ?v\<close> by (auto simp: st)
      have ts: "ts[e := True] ! x \<longleftrightarrow> x < Suc e \<and> g_enabled g ! x \<and> tight g x" if "x < length (g_edges g)" for x
        using P that True by (cases "x = e") (auto simp: st less_Suc_eq)
      show ?thesis using P True up ts by (simp add: st pos)
    qed
  qed (use d in simp)
  then show "length d' = length d" "\<And>e. e < length (g_edges g) \<Longrightarrow> ts ! e \<longleftrightarrow> g_enabled g ! e \<and> tight g e"
    "\<And>c. c \<le> ?M \<Longrightarrow> prefix_sum d' c = prefix_sum d c + int (card (crossing_edges g c))"
    unfolding s crossing_edges_def using d by auto
qed

lemma cut_nodes_spec:
  assumes b: "built g" and d: "length d = length (g_order g) + 2"
  shows "length (cut_nodes g (crit_F g) (crit_B g) (crit_L g) (positions g) d) = length d"
    "c \<le> length (g_order g) \<Longrightarrow> prefix_sum (cut_nodes g (crit_F g) (crit_B g) (crit_L g) (positions g) d) c =
       prefix_sum d c + int (card (crossing_starts g c)) + int (card (crossing_ends g c))"
proof -
  let ?M = "length (g_order g)"
  let ?f = "\<lambda>v diff. let diff = (if crit_B g ! v = crit_L g then bump (positions g ! v + 1) (-1) (bump 0 1 diff) else diff)
       in if crit_F g ! v = crit_L g then bump (?M + 1) (-1) (bump (positions g ! v + 1) 1 diff) else diff"
  let ?S = "\<lambda>vs c. {v \<in> set vs. crit_B g ! v = crit_L g \<and> c \<le> pos_of g v}"
  let ?E = "\<lambda>vs c. {v \<in> set vs. crit_F g ! v = crit_L g \<and> pos_of g v < c}"
  have step: "length (?f v x) = ?M + 2 \<and> (\<forall>c\<le>?M. prefix_sum (?f v x) c = prefix_sum x c +
      (if crit_B g ! v = crit_L g \<and> c \<le> pos_of g v then 1 else 0) + (if crit_F g ! v = crit_L g \<and> pos_of g v < c then 1 else 0))"
    if v: "v \<in> set (g_order g)" and x: "length x = ?M + 2" for v x
    using position_bound [OF v] x by (auto simp: positions_spec [OF b v] Let_def prefix_sum_bump)
  have run: "set vs \<subseteq> set (g_order g) \<Longrightarrow> distinct vs \<Longrightarrow> length x = ?M + 2 \<Longrightarrow> length (fold ?f vs x) = ?M + 2 \<and>
      (\<forall>c\<le>?M. prefix_sum (fold ?f vs x) c = prefix_sum x c + int (card (?S vs c)) + int (card (?E vs c)))" for vs x
  proof (induction vs arbitrary: x)
    case (Cons v vs)
    have S: "int (card (?S (v # vs) c)) = (if crit_B g ! v = crit_L g \<and> c \<le> pos_of g v then 1 else 0) + int (card (?S vs c))" for c
    proof -
      have "?S (v # vs) c = (if crit_B g ! v = crit_L g \<and> c \<le> pos_of g v then insert v (?S vs c) else ?S vs c)" by auto
      then show ?thesis using Cons.prems by simp
    qed
    have E: "int (card (?E (v # vs) c)) = (if crit_F g ! v = crit_L g \<and> pos_of g v < c then 1 else 0) + int (card (?E vs c))" for c
    proof -
      have "?E (v # vs) c = (if crit_F g ! v = crit_L g \<and> pos_of g v < c then insert v (?E vs c) else ?E vs c)" by auto
      then show ?thesis using Cons.prems by simp
    qed
    have "v \<in> set (g_order g)" using Cons.prems by simp
    note st = step [OF this Cons.prems(3)]
    have "set vs \<subseteq> set (g_order g)" "distinct vs" using Cons.prems by simp_all
    note ih = Cons.IH [OF this st [THEN conjunct1]]
    show ?case
    proof (intro conjI allI impI)
      show "length (fold ?f (v # vs) x) = ?M + 2" using ih by simp
      fix c assume c: "c \<le> ?M"
      show "prefix_sum (fold ?f (v # vs) x) c = prefix_sum x c + int (card (?S (v # vs) c)) + int (card (?E (v # vs) c))"
        unfolding S E using ih [THEN conjunct2, rule_format, OF c] st [THEN conjunct2, rule_format, OF c] by simp
    qed
  qed simp
  note r = run [OF subset_refl built_distinct [OF b] d, folded cut_nodes_def]
  show "length (cut_nodes g (crit_F g) (crit_B g) (crit_L g) (positions g) d) = length d"
    using r d by simp
  show "c \<le> ?M \<Longrightarrow> prefix_sum (cut_nodes g (crit_F g) (crit_B g) (crit_L g) (positions g) d) c =
       prefix_sum d c + int (card (crossing_starts g c)) + int (card (crossing_ends g c))"
    using r unfolding crossing_starts_def crossing_ends_def by blast
qed

lemma cut_ones_spec:
  assumes "length d = M + 2" "c \<le> M"
  shows "cut_ones M d ! (c + 1) = int (card {i. i \<le> c \<and> prefix_sum d i = 1})"
proof -
  let ?f = "\<lambda>c (run, acc, ones). let run = run + d ! c; acc = (if run = 1 then acc + 1 else acc) in (run, acc, ones[c + 1 := acc])"
  let ?n = "\<lambda>k. int (card {i. i < k \<and> prefix_sum d i = 1})"
  let ?P = "\<lambda>k (run :: int, acc :: int, ones :: int list). run = (\<Sum>i<k. d ! i) \<and> acc = ?n k \<and> length ones = M + 2 \<and>
     (\<forall>i<k. ones ! (i + 1) = ?n (i + 1))"
  have n: "?n (Suc k) = ?n k + (if prefix_sum d k = 1 then 1 else 0)" for k
  proof -
    have "{i. i < Suc k \<and> prefix_sum d i = 1} = (if prefix_sum d k = 1 then insert k {i. i < k \<and> prefix_sum d i = 1} else {i. i < k \<and> prefix_sum d i = 1})"
      by (auto simp: less_Suc_eq)
    then show ?thesis by simp
  qed
  have up: "prefix_sum d k = (\<Sum>i<k. d ! i) + d ! k" for k
    by (simp add: prefix_sum_def lessThan_Suc_atMost [symmetric])
  have "?P (M + 1) (fold ?f [0..<M + 1] (0, 0, replicate (M + 2) 0))"
  proof (rule fold_range_inv [where P = ?P])
    fix i s assume i: "i < M + 1" and P: "?P i s"
    obtain run acc ones where s: "s = (run, acc, ones)" by (cases s)
    have P': "run = (\<Sum>i<i. d ! i)" "acc = ?n i" "length ones = M + 2" "\<forall>k<i. ones ! (k + 1) = ?n (k + 1)"
      using P by (simp_all add: s)
    have run: "run + d ! i = prefix_sum d i" by (simp add: P' up)
    have acc: "(if run + d ! i = 1 then acc + 1 else acc) = ?n (Suc i)" unfolding run n by (simp add: P')
    have "\<forall>k<Suc i. ones[i + 1 := ?n (Suc i)] ! (k + 1) = ?n (k + 1)"
    proof (intro allI impI)
      fix k assume "k < Suc i"
      then show "ones[i + 1 := ?n (Suc i)] ! (k + 1) = ?n (k + 1)" using P' i by (cases "k = i") simp_all
    qed
    then show "?P (Suc i) (?f i s)"
      unfolding s by (simp add: Let_def acc P'(3)) (simp add: run up [symmetric] lessThan_Suc P'(1))
  qed simp
  then have "snd (snd (fold ?f [0..<M + 1] (0, 0, replicate (M + 2) 0))) ! (c + 1) = ?n (c + 1)"
    using assms(2) by (auto split: prod.splits)
  then show ?thesis unfolding cut_ones_def by (simp add: less_Suc_eq_le)
qed

section \<open>The result\<close>

text \<open>A busy segment of positive length, and those of one span.\<close>

definition busy_segment :: "event_graph \<Rightarrow> nat \<Rightarrow> bool" where
  "busy_segment g e \<longleftrightarrow> e < length (g_edges g) \<and> g_enabled g ! e \<and> e_mode (edge_of g e) = BUSY \<and> 0 < e_d (edge_of g e)"

abbreviation owner_of :: "event_graph \<Rightarrow> nat \<Rightarrow> nat" where
  "owner_of g e \<equiv> the (e_owner (edge_of g e))"

definition through :: "event_graph \<Rightarrow> nat \<Rightarrow> int" where
  "through g e = crit_F g ! e_src (edge_of g e) + crit_weight g e + crit_B g ! e_dst (edge_of g e)"

definition on_every :: "event_graph \<Rightarrow> nat \<Rightarrow> bool" where
  "on_every g e \<longleftrightarrow> (\<forall>u es v. longest_path g u es v \<longrightarrow> e \<in> set es)"

definition on_some :: "event_graph \<Rightarrow> nat \<Rightarrow> bool" where
  "on_some g e \<longleftrightarrow> (\<exists>u es v. longest_path g u es v \<and> e \<in> set es)"

text \<open>One pass of the loop, in terms of what it has to decide.\<close>

definition seg_step :: "event_graph \<Rightarrow> nat \<Rightarrow> criticality \<Rightarrow> criticality" where
  "seg_step g e c =
     (if \<not> busy_segment g e then c
      else
        (let j = owner_of g e; d = e_d (edge_of g e); s = crit_L g - through g e;
             c = (if cr_slack c ! j < 0 \<or> s < cr_slack c ! j then c\<lparr>cr_slack := (cr_slack c)[j := s]\<rparr> else c);
             c = (if on_some g e then c\<lparr>cr_on_some := List.insert j (cr_on_some c), cr_work := dict_add j d (cr_work c),
                         cr_some_ns := cr_some_ns c + d\<rparr> else c)
         in if on_some g e \<and> on_every g e then
              c\<lparr>cr_on_all := List.insert j (cr_on_all c), cr_all_ns := cr_all_ns c + d\<rparr>
            else c))"

lemma alone_between:
  assumes "u < v" "v \<le> M" "\<And>c. c \<le> M \<Longrightarrow> ones ! (c + 1) = int (card {i. i \<le> c \<and> P i})"
  shows "ones ! (v + 1) - ones ! (u + 1) > 0 \<longleftrightarrow> (\<exists>c. u < c \<and> c \<le> v \<and> P c)"
proof -
  have "{i. i \<le> v \<and> P i} = {i. i \<le> u \<and> P i} \<union> {i. u < i \<and> i \<le> v \<and> P i}" using assms(1) by auto
  moreover have "{i. i \<le> u \<and> P i} \<inter> {i. u < i \<and> i \<le> v \<and> P i} = {}" by auto
  ultimately have "card {i. i \<le> v \<and> P i} = card {i. i \<le> u \<and> P i} + card {i. u < i \<and> i \<le> v \<and> P i}"
    using card_Un_disjoint [of "{i. i \<le> u \<and> P i}" "{i. u < i \<and> i \<le> v \<and> P i}"]
      finite_subset [of "{i. u < i \<and> i \<le> v \<and> P i}" "{..v}"] finite_subset [of "{i. i \<le> u \<and> P i}" "{..u}"] by auto
  then have "ones ! (v + 1) - ones ! (u + 1) > 0 \<longleftrightarrow> {i. u < i \<and> i \<le> v \<and> P i} \<noteq> {}"
    using assms by (simp add: card_gt_0_iff)
  then show ?thesis by blast
qed

lemma criticality_run:
  assumes b: "built g"
  shows "criticality_of g (crit_F g) (crit_L g) = fold (seg_step g) [0..<length (g_edges g)]
     \<lparr>cr_length = crit_L g, cr_on_some = [], cr_on_all = [], cr_slack = replicate (g_n g) (-1), cr_work = [],
      cr_all_ns = 0, cr_some_ns = 0\<rparr>"
proof -
  let ?M = "length (g_order g)"
  let ?d0 = "replicate (?M + 2) 0 :: int list"
  obtain ts df where s: "cut_edges g (crit_F g) (crit_B g) (crit_L g) (positions g) (replicate (length (g_edges g)) False, ?d0) = (ts, df)"
    by (cases "cut_edges g (crit_F g) (crit_B g) (crit_L g) (positions g) (replicate (length (g_edges g)) False, ?d0)")
  have d0: "length ?d0 = ?M + 2" by simp
  note ce = cut_edges_spec [OF b d0 s]
  have df: "length df = ?M + 2" using ce(1) by simp
  let ?df = "cut_nodes g (crit_F g) (crit_B g) (crit_L g) (positions g) df"
  note cn = cut_nodes_spec [OF b df]
  have zero: "prefix_sum ?d0 c = 0" if "c \<le> ?M" for c
    unfolding prefix_sum_def using that by (intro sum.neutral) (simp del: replicate_Suc)
  have cross: "prefix_sum ?df c = crossings g c" if "c \<le> ?M" for c
    using cn(2) [OF that] ce(3) [OF that] zero [OF that] by (simp add: crossings_def)
  let ?ones = "cut_ones ?M ?df"
  have ones: "?ones ! (c + 1) = int (card {i. i \<le> c \<and> crossings g i = 1})" if "c \<le> ?M" for c
  proof -
    have "{i. i \<le> c \<and> prefix_sum ?df i = 1} = {i. i \<le> c \<and> crossings g i = 1}" using that cross by auto
    then show ?thesis using cut_ones_spec [of ?df ?M c] cn(1) df that by simp
  qed
  have step: "crit_step g (crit_F g) (crit_B g) (crit_L g) (positions g) ts ?ones e c = seg_step g e c"
    if e: "e \<in> set [0..<length (g_edges g)]" for e c
  proof (cases "busy_segment g e")
    case False
    then show ?thesis using e by (auto simp: crit_step_def seg_step_def busy_segment_def Let_def)
  next
    case True
    then have e': "e < length (g_edges g)" "g_enabled g ! e" "e_mode (edge_of g e) = BUSY" "0 < e_d (edge_of g e)"
      by (simp_all add: busy_segment_def)
    have w: "crit_weight g e = e_d (edge_of g e)" using e' by (simp add: crit_weight_def required_def)
    have t: "ts ! e \<longleftrightarrow> on_some g e" unfolding ce(2) [OF e'(1)] on_some_def using e'(2) tight_iff [OF b e'(1,2)] by blast
    note n = edge_nodes [OF b e'(1)]
    have "pos_of g (e_dst (edge_of g e)) \<le> ?M" using position_bound [OF n(2)] by simp
    from alone_between [OF edge_position [OF b e'(1,2)] this, of ?ones "\<lambda>c. crossings g c = 1"] ones
    have "?ones ! (pos_of g (e_dst (edge_of g e)) + 1) - ?ones ! (pos_of g (e_src (edge_of g e)) + 1) > 0 \<longleftrightarrow> on_every g e"
      if "on_some g e"
      using cut_test [OF b e'(1,2)] that tight_iff [OF b e'(1,2)] unfolding on_every_def on_some_def by blast
    then show ?thesis
      using e' True by (auto simp: crit_step_def seg_step_def w t positions_spec [OF b] n through_def Let_def algebra_simps)
  qed
  show ?thesis
    unfolding criticality_of_def Let_def s prod.case by (rule fold_cong) (use step in auto)
qed


lemma seg_fields:
  "cr_length (seg_step g e c) = cr_length c"
  "cr_on_some (seg_step g e c) = (if busy_segment g e \<and> on_some g e then List.insert (owner_of g e) (cr_on_some c) else cr_on_some c)"
  "cr_on_all (seg_step g e c) = (if busy_segment g e \<and> on_some g e \<and> on_every g e then List.insert (owner_of g e) (cr_on_all c) else cr_on_all c)"
  "cr_some_ns (seg_step g e c) = cr_some_ns c + (if busy_segment g e \<and> on_some g e then e_d (edge_of g e) else 0)"
  "cr_all_ns (seg_step g e c) = cr_all_ns c + (if busy_segment g e \<and> on_some g e \<and> on_every g e then e_d (edge_of g e) else 0)"
  "cr_work (seg_step g e c) = (if busy_segment g e \<and> on_some g e then dict_add (owner_of g e) (e_d (edge_of g e)) (cr_work c) else cr_work c)"
  "cr_slack (seg_step g e c) =
     (if busy_segment g e \<and> (cr_slack c ! owner_of g e < 0 \<or> crit_L g - through g e < cr_slack c ! owner_of g e)
      then (cr_slack c)[owner_of g e := crit_L g - through g e] else cr_slack c)"
  by (simp_all add: seg_step_def Let_def)

lemma seg_sets:
  "set (cr_on_some (fold (seg_step g) es c)) = set (cr_on_some c) \<union> owner_of g ` {e \<in> set es. busy_segment g e \<and> on_some g e}"
  "set (cr_on_all (fold (seg_step g) es c)) = set (cr_on_all c) \<union> owner_of g ` {e \<in> set es. busy_segment g e \<and> on_some g e \<and> on_every g e}"
  by (induction es arbitrary: c) (auto simp: seg_fields)

abbreviation busy_total :: "event_graph \<Rightarrow> (nat \<Rightarrow> bool) \<Rightarrow> nat list \<Rightarrow> int" where
  "busy_total g P es \<equiv> sum_list (map (\<lambda>e. e_d (edge_of g e)) (filter (\<lambda>e. busy_segment g e \<and> P e) es))"

lemma seg_sums:
  "cr_some_ns (fold (seg_step g) es c) = cr_some_ns c + busy_total g (on_some g) es"
  "cr_all_ns (fold (seg_step g) es c) = cr_all_ns c + busy_total g (\<lambda>e. on_some g e \<and> on_every g e) es"
  "dict_get (cr_work (fold (seg_step g) es c)) j 0 =
     dict_get (cr_work c) j 0 + busy_total g (\<lambda>e. on_some g e \<and> owner_of g e = j) es"
  by (induction es arbitrary: c) (auto simp: seg_fields)

lemma through_upper: "built g \<Longrightarrow> path g u es v \<Longrightarrow> e \<in> set es \<Longrightarrow> path_time g es \<le> through g e"
  using through_edge_upper by (simp add: through_def)

lemma through_le_L: "built g \<Longrightarrow> busy_segment g e \<Longrightarrow> through g e \<le> crit_L g"
  using through_edge [of g e] L_upper unfolding through_def busy_segment_def by metis

definition slack_set :: "event_graph \<Rightarrow> nat list \<Rightarrow> nat \<Rightarrow> int set" where
  "slack_set g es j = (\<lambda>e. crit_L g - through g e) ` {e \<in> set es. busy_segment g e \<and> owner_of g e = j}"

lemma slack_set_simps [simp]:
  "slack_set g [] j = {}"
  "slack_set g (es @ [e]) j = (if busy_segment g e \<and> owner_of g e = j then insert (crit_L g - through g e) (slack_set g es j) else slack_set g es j)"
  "finite (slack_set g es j)"
  by (auto simp: slack_set_def)

lemma seg_slack:
  assumes "built g"
  shows "length (cr_slack (fold (seg_step g) es c)) = length (cr_slack c) \<and>
   (cr_slack c = replicate n (-1) \<longrightarrow> (\<forall>j<n. cr_slack (fold (seg_step g) es c) ! j =
      (if slack_set g es j = {} then -1 else Min (slack_set g es j))))"
proof (induction es rule: rev_induct)
  case (snoc e es)
  let ?c = "fold (seg_step g) es c"
  have nonneg: "0 \<le> Min (slack_set g es j)" if "slack_set g es j \<noteq> {}" for j
    using that through_le_L [OF assms] by (auto simp: slack_set_def)
  show ?case
  proof (intro conjI impI allI)
    show "length (cr_slack (fold (seg_step g) (es @ [e]) c)) = length (cr_slack c)"
      using snoc by (simp add: seg_fields)
    fix j assume c: "cr_slack c = replicate n (-1)" and j: "j < n"
    have len: "length (cr_slack ?c) = n" and at: "cr_slack ?c ! j = (if slack_set g es j = {} then -1 else Min (slack_set g es j))"
      using snoc c j by simp_all
    show "cr_slack (fold (seg_step g) (es @ [e]) c) ! j =
        (if slack_set g (es @ [e]) j = {} then -1 else Min (slack_set g (es @ [e]) j))"
    proof (cases "busy_segment g e \<and> owner_of g e = j")
      case False
      then show ?thesis using at by (auto simp: seg_fields)
    next
      case True
      let ?s = "crit_L g - through g e"
      show ?thesis
      proof (cases "slack_set g es j = {}")
        case empty: True
        then show ?thesis using True at len j by (simp add: seg_fields)
      next
        case False
        define m where "m = Min (slack_set g es j)"
        have "cr_slack ?c ! j = m" "0 \<le> m" using at nonneg [OF False] False unfolding m_def by presburger+
        moreover have "Min (insert ?s (slack_set g es j)) = min ?s m" using False unfolding m_def by simp
        ultimately show ?thesis using True len j by (simp add: seg_fields)
      qed
    qed
  qed
qed simp

lemma longest_path_exists:
  assumes "built g" "busy_segment g e" "on_every g e"
  shows "on_some g e"
proof -
  have "e_dst (edge_of g e) \<in> set (g_order g)" using edge_nodes [OF assms(1)] assms(2) by (simp add: busy_segment_def)
  then have "g_order g \<noteq> []" by auto
  then obtain u es v where p: "path g u es v" "v \<in> set (g_order g)" "path_time g es = crit_L g"
    by (rule longest_witness [OF assms(1), of True False None False])
      (simp add: longest_weight_crit chain_weight_crit weighed_crit)
  then have "u \<in> set (g_order g)" using path_ends [OF assms(1)] by (cases "es = []") auto
  with p have "longest_path g u es v" by (simp add: longest_path_def)
  then show ?thesis using assms(3) unfolding on_every_def on_some_def by blast
qed

section \<open>Properties\<close>

text \<open>
  C6. \<open>criticality\<close> is exact: the spans it lists are those with a busy segment on some longest
  path and with a busy segment on every longest path, and the times it reports are the busy
  time on at least one, on every one, and per span on some. The cut test decides "on every"
  without enumerating paths.
\<close>

theorem criticality_exact:
  assumes "built g" "longest g True False None False = (F, L)"
  shows "let c = criticality_of g F L; es = [0..<length (g_edges g)] in cr_length c = L \<and>
    set (cr_on_some c) = owner_of g ` {e. busy_segment g e \<and> on_some g e} \<and>
    set (cr_on_all c) = owner_of g ` {e. busy_segment g e \<and> on_every g e} \<and>
    cr_some_ns c = busy_total g (on_some g) es \<and> cr_all_ns c = busy_total g (on_every g) es \<and>
    (\<forall>j. dict_get (cr_work c) j 0 = busy_total g (\<lambda>e. on_some g e \<and> owner_of g e = j) es)"
proof -
  have FL: "F = crit_F g" "L = crit_L g" using assms(2) by simp_all
  have len: "cr_length (fold (seg_step g) es c) = cr_length c" for es c
    by (induction es arbitrary: c) (simp_all add: seg_fields)
  have every: "busy_segment g e \<and> on_some g e \<and> on_every g e \<longleftrightarrow> busy_segment g e \<and> on_every g e" for e
    using longest_path_exists [OF assms(1)] by blast
  have below: "{e \<in> set [0..<length (g_edges g)]. busy_segment g e \<and> P e} = {e. busy_segment g e \<and> P e}" for P
    by (auto simp: busy_segment_def)
  show ?thesis
    unfolding Let_def FL criticality_run [OF assms(1)] len seg_sets seg_sums below
    by (simp add: every below)
qed

lemma criticality_exact_witness:
  "cr_on_all (criticality_of demo_built [0, 10, 20, 60, 0, 60] 60) = [2] \<and>
   owner_of demo_built ` {e. busy_segment demo_built e \<and> on_every demo_built e} = {2}"
proof -
  have c: "cr_on_all (criticality_of demo_built [0, 10, 20, 60, 0, 60] 60) = [2]" by code_simp
  have l: "longest demo_built True False None False = ([0, 10, 20, 60, 0, 60], 60)" by code_simp
  from criticality_exact [OF demo_is_built l] c show ?thesis by (simp add: Let_def)
qed

text \<open>
  Property. The slack of a span: how much longer the longest path through any of its busy segments
  could be before it exceeded the longest path of the graph; a span without a busy segment of
  positive length has none.
\<close>

theorem slack_exact:
  assumes "built g" "longest g True False None False = (F, L)" "j < g_n g"
  shows "case sv_get (cr_slack (criticality_of g F L)) j of
      None \<Rightarrow> \<not> (\<exists>e. busy_segment g e \<and> owner_of g e = j)
    | Some s \<Rightarrow> 0 \<le> s \<and>
        (\<exists>e u es v. busy_segment g e \<and> owner_of g e = j \<and> path g u es v \<and> e \<in> set es \<and> path_time g es = L - s) \<and>
        (\<forall>e u es v. busy_segment g e \<and> owner_of g e = j \<and> path g u es v \<and> e \<in> set es \<longrightarrow> path_time g es \<le> L - s)"
proof -
  have FL: "F = crit_F g" "L = crit_L g" using assms(2) by simp_all
  let ?S = "slack_set g [0..<length (g_edges g)] j"
  have at: "cr_slack (criticality_of g F L) ! j = (if ?S = {} then -1 else Min ?S)"
    using seg_slack [OF assms(1), of "[0..<length (g_edges g)]"] assms(3)
    unfolding FL criticality_run [OF assms(1)] by fastforce
  show ?thesis
  proof (cases "?S = {}")
    case True
    then show ?thesis using at by (auto simp: sv_get_def slack_set_def busy_segment_def)
  next
    case False
    have "Min ?S \<in> ?S" using False by (intro Min_in) simp_all
    then obtain e where e: "busy_segment g e" "owner_of g e = j" "Min ?S = L - through g e" by (auto simp: slack_set_def FL)
    have nonneg: "0 \<le> Min ?S" using e through_le_L [OF assms(1) e(1)] FL by simp
    obtain u es v where p: "path g u es v" "e \<in> set es" "path_time g es = through g e"
      using through_edge [of g e] assms(1) e(1) unfolding through_def busy_segment_def by metis
    have upper: "path_time g es' \<le> L - Min ?S"
      if "busy_segment g e'" "owner_of g e' = j" "path g u' es' v'" "e' \<in> set es'" for e' u' es' v'
    proof -
      have "L - through g e' \<in> ?S" using that(1,2) by (auto simp: slack_set_def FL busy_segment_def)
      then have "Min ?S \<le> L - through g e'" by (intro Min_le) simp_all
      then show ?thesis using through_upper [OF assms(1) that(3,4)] by simp
    qed
    have "sv_get (cr_slack (criticality_of g F L)) j = Some (Min ?S)" 
      unfolding sv_get_def using at False nonneg by presburger
    moreover have "path_time g es = L - Min ?S" using p e by simp
    ultimately show ?thesis using nonneg e p upper by auto
  qed
qed

lemma slack_exact_witness:
  "sv_get (cr_slack (criticality_of demo_built [0, 10, 20, 60, 0, 60] 60)) 0 = Some 40 \<and>
   (\<exists>e u es v. busy_segment demo_built e \<and> owner_of demo_built e = 0 \<and> path demo_built u es v \<and> e \<in> set es \<and>
      path_time demo_built es = 20)"
proof -
  have c: "sv_get (cr_slack (criticality_of demo_built [0, 10, 20, 60, 0, 60] 60)) 0 = Some 40" by code_simp
  have l: "longest demo_built True False None False = ([0, 10, 20, 60, 0, 60], 60)" by code_simp
  have "0 < g_n demo_built" by code_simp
  from slack_exact [OF demo_is_built l this] c show ?thesis by simp
qed

end
