(* ===== verification/Owned_Edges.thy ===== *)
theory Owned_Edges
  imports Walk_Facts
begin

text \<open>
  Every edge whose time belongs to a span names that span: busy, wait and unknown edges have an
  owner among the spans of the graph, through the lanes and the whole assembly.
\<close>

definition owned_edges :: "event_graph \<Rightarrow> bool" where
  "owned_edges g \<longleftrightarrow> (\<forall>x\<in>set (g_edges g). owned_mode (e_mode x) \<longrightarrow> (\<exists>j<g_n g. e_owner x = Some j))"

lemma owned_edge:
  "owned_edges g \<Longrightarrow> e < length (g_edges g) \<Longrightarrow> owned_mode (e_mode (edge_of g e)) \<Longrightarrow> the (e_owner (edge_of g e)) < g_n g"
  using nth_mem [of e "g_edges g"] by (fastforce simp: owned_edges_def)

lemma owned_add: "owned_edges g \<Longrightarrow> (owned_mode m \<Longrightarrow> \<exists>j<g_n g. ow = Some j) \<Longrightarrow> owned_edges (add u v m k p c ow tol g)"
  by (auto simp: owned_edges_def add_edge_def Let_def)

lemma deps_owned: "deps_only g \<Longrightarrow> owned_edges g"
  by (auto simp: deps_only_def owned_edges_def owned_mode_def lane_modes_def)

definition lane_owned :: "lane_state \<Rightarrow> bool" where
  "lane_owned s \<longleftrightarrow> (case s of (opn, prev, h) \<Rightarrow> owned_edges h \<and> (\<forall>j\<in>set opn. j < g_n h))"

lemma lane_add_owned:
  assumes "owned_edges h" "\<forall>j\<in>set opn. j < g_n h"
  shows "owned_edges (lane_add opn prev nd h)"
  using assms last_in_set [of opn]
  by (auto simp: lane_add_def Let_def owned_mode_def intro!: owned_add split: option.splits)

lemma lane_step_owned:
  assumes "lane_owned s" "ev \<in> set (lane_events g members)" "\<forall>j\<in>set members. j < g_n (snd (snd s))"
  shows "lane_owned (lane_step ev s)"
proof -
  obtain opn prev h where s: "s = (opn, prev, h)" by (cases s) auto
  have ok: "owned_edges h" "\<forall>j\<in>set opn. j < g_n h" using assms(1) by (simp_all add: lane_owned_def s)
  have n: "g_n (lane_add opn p nd h) = g_n h" for p nd using lane_add_base same_baseD(1) by metis
  have sub: "\<forall>i\<in>set (butlast opn). i < g_n h" "\<forall>i\<in>set (remove1 j opn). i < g_n h" for j
    using ok(2) in_set_butlastD [of _ opn] set_remove1_subset [of j opn] by blast+
  have upd: "owned_edges (x\<lparr>g_improper_nesting := y\<rparr>) = owned_edges x" for x y by (simp add: owned_edges_def)
  have node: "lane_owned (lane_node j nd s)" if "j < g_n h" for j nd
    using lane_add_owned [OF ok, of prev nd] ok that n sub by (auto simp: lane_owned_def lane_node_def s Let_def upd)
  have inst: "lane_owned (lane_instant j s)" for j
    using lane_add_owned [OF lane_add_owned [OF ok]] ok n same_baseD(1) [OF lane_add_base]
    by (simp add: lane_owned_def lane_instant_def s)
  show ?thesis using assms(2,3) node inst by (auto simp: set_lane_events s split: if_splits)
qed

lemma add_thread_lane_owned:
  assumes "owned_edges g" "\<forall>j\<in>set members. j < g_n g"
  shows "owned_edges (add_thread_lane members g)"
proof -
  have run: "lane_owned (fold lane_step evs s)"
    if "lane_owned s" "set evs \<subseteq> set (lane_events g members)" "g_n (snd (snd s)) = g_n g" for evs s
    using that
  proof (induction evs arbitrary: s)
    case (Cons ev evs)
    have "g_n (snd (snd (lane_step ev s))) = g_n g"
      using Cons.prems(3) same_baseD(1) [OF lane_step_base] by metis
    then show ?case using Cons lane_step_owned [of s ev g members] assms(2) by simp
  qed simp
  show ?thesis
    using run [of "([], None, g)" "lane_events g members"] assms(1)
    by (auto simp: lane_owned_def add_thread_lane_def split: prod.splits)
qed

lemma add_device_work_owned: "owned_edges g \<Longrightarrow> j < g_n g \<Longrightarrow> owned_edges (add_device_work j g)"
  by (auto simp: add_device_work_def owned_mode_def intro!: owned_add)

lemma fold_owned:
  assumes "\<And>x h. x \<in> set xs \<Longrightarrow> g_n h = n \<Longrightarrow> owned_edges h \<Longrightarrow> owned_edges (f x h) \<and> g_n (f x h) = n"
  shows "owned_edges g \<Longrightarrow> g_n g = n \<Longrightarrow> owned_edges (fold f xs g) \<and> g_n (fold f xs g) = n"
  using assms by (induction xs arbitrary: g) auto

lemma lanes_graph_owned:
  assumes "skeleton_ok sk" "sedges_ok sk edges"
  shows "owned_edges (lanes_graph sk edges)"
proof -
  let ?g1 = "add_dependency_edges sk edges (skeleton_graph sk)"
  let ?g3 = "fold add_thread_lane (sk_lanes sk) (mark_gated ?g1)"
  have k1: "keeps (add_dependency_edges sk edges) (skeleton_graph sk)"
    using assms(2) by (intro add_dependency_edges_keeps) (simp add: sedges_ok_def)
  have n2: "g_n (mark_gated ?g1) = sk_n sk"
    using same_baseD(1) [OF keeps_base [OF k1]] same_baseD(1) [OF keeps_base [OF mark_gated_keeps]] by simp
  have "owned_edges ?g1" by (intro deps_owned add_dependency_edges_deps_only) (simp add: deps_only_def)
  then have o2: "owned_edges (mark_gated ?g1)" using n2 same_baseD(1) [OF keeps_base [OF k1]] by (simp add: owned_edges_def)
  have "owned_edges ?g3 \<and> g_n ?g3 = sk_n sk"
  proof (rule fold_owned [OF _ o2 n2])
    fix m h assume m: "m \<in> set (sk_lanes sk)" and h: "g_n h = sk_n sk" "owned_edges h"
    have j: "\<forall>j\<in>set m. j < g_n h" using assms(1) m h(1) by (auto simp: skeleton_ok_def)
    show "owned_edges (add_thread_lane m h) \<and> g_n (add_thread_lane m h) = sk_n sk"
      using add_thread_lane_owned [OF h(2) j] same_baseD(1) [OF keeps_base [OF add_thread_lane_keeps [OF j]]] h(1) by simp
  qed
  then have o3: "owned_edges ?g3" and n3: "g_n ?g3 = sk_n sk" by blast+
  have "owned_edges (fold add_device_work [0..<sk_n sk] ?g3) \<and> g_n (fold add_device_work [0..<sk_n sk] ?g3) = sk_n sk"
  proof (rule fold_owned [OF _ o3 n3])
    fix j h assume j: "j \<in> set [0..<sk_n sk]" and h: "g_n h = sk_n sk" "owned_edges h"
    then have "j < g_n h" by simp
    then show "owned_edges (add_device_work j h) \<and> g_n (add_device_work j h) = sk_n sk"
      using add_device_work_owned [OF h(2)] same_baseD(1) [OF keeps_base [OF add_device_work_keeps]] h(1) by simp
  qed
  then show ?thesis by (simp add: lanes_graph_def)
qed

lemma assemble_owned:
  assumes "skeleton_ok sk" "sedges_ok sk edges"
  shows "owned_edges (assemble sk edges clocks prior)"
proof -
  have s: "same_edges (bounded_graph sk edges) (assemble sk edges clocks prior)" by (rule assemble_facts(2) [OF assms])
  have "g_n (bounded_graph sk edges) = g_n (lanes_graph sk edges)"
    using bounded_graph_facts(3) [OF assms] lanes_graph_facts(2) [OF assms] same_baseD(1) by metis
  then show ?thesis
    using lanes_graph_owned [OF assms] s bounded_graph_facts(4) [OF assms]
    by (simp add: owned_edges_def same_edges_def same_base_def)
qed

lemma build_owned:
  assumes "skeleton_ok sk" "sedges_ok sk edges"
  shows "owned_edges (build_event_graph sk edges clocks)"
proof -
  have "sedges_ok (shifted sk s) edges" for s using assms(2) by (simp add: sedges_ok_def shifted_def Let_def)
  then have "owned_edges (assemble (shifted sk s) edges True None)" for s
    using assemble_owned [OF shifted_ok [OF assms(1)]] by blast
  moreover have "owned_edges (g\<lparr>g_clock := c\<rparr>) = owned_edges g" for g c by (simp add: owned_edges_def)
  ultimately show ?thesis using assemble_owned [OF assms] by (simp add: build_event_graph_def Let_def)
qed

end
