(* ===== verification/Attribution.thy ===== *)
theory Attribution
  imports Criticality_Facts Owned_Edges
begin

text \<open>
  \<^verbatim>\<open>src/src/analysis/cp_attribution.py\<close>: the replay of the recorded run with scaled busy times, and
  the blame that charges every gated call's waiting time to the work that delayed its release.
  Python floats are rationals; a scale of None is the empty dictionary.
\<close>

section \<open>Replay\<close>

text \<open>\<open>_delta\<close>.\<close>

definition delta :: "event_graph \<Rightarrow> (nat, rat) dict \<Rightarrow> nat \<Rightarrow> rat" where
  "delta g scale e =
     (let x = edge_of g e in
      if e_mode x = BUSY then of_int (e_d x) * dict_get scale (the (e_owner x)) 1
      else if e_mode x = GAP \<or> e_mode x = UNKNOWN then of_int (e_d x)
      else 0)"

text \<open>The latest time the enabled edges into a node allow, None without one.\<close>

definition allowed_at :: "event_graph \<Rightarrow> (nat, rat) dict \<Rightarrow> (nat \<Rightarrow> rat) \<Rightarrow> nat \<Rightarrow> rat option" where
  "allowed_at g scale time v =
     fold (\<lambda>e best. if g_enabled g ! e then
             (let y = time (e_src (edge_of g e)) + delta g scale e
              in case best of None \<Rightarrow> Some y | Some b \<Rightarrow> if y > b then Some y else best)
           else best)
       (in_edges g v) None"

definition residuals :: "event_graph \<Rightarrow> int list" where
  "residuals g =
     fold (\<lambda>v out. case allowed_at g [] (\<lambda>u. of_int (time_of g u)) v of
             None \<Rightarrow> out
           | Some best \<Rightarrow> out[v := max 0 (py_round (of_int (time_of g v) - best))])
       (g_order g) (replicate (2 * g_n g) (-1))"

definition replay_at :: "event_graph \<Rightarrow> (nat, rat) dict \<Rightarrow> int list \<Rightarrow> rat list \<Rightarrow> nat \<Rightarrow> rat" where
  "replay_at g scale res tp v =
     (if res ! v < 0 then of_int (time_of g v)
      else (case allowed_at g scale (\<lambda>u. tp ! u) v of None \<Rightarrow> 0 | Some x \<Rightarrow> x) + of_int (res ! v))"

definition replay :: "event_graph \<Rightarrow> (nat, rat) dict \<Rightarrow> int list \<Rightarrow> rat list \<times> rat" where
  "replay g scale res =
     fold (\<lambda>v (tp, end). let x = replay_at g scale res tp v in (tp[v := x], if x > end then x else end))
       (g_order g) (replicate (2 * g_n g) 0, 0)"

definition run_end :: "event_graph \<Rightarrow> int" where
  "run_end g = (if g_order g = [] then 0 else Max (set (map (time_of g) (g_order g))))"

section \<open>Blame\<close>

definition UNRECORDED :: string where "UNRECORDED = ''(unrecorded)''"
definition UNKNOWN_TIME :: string where "UNKNOWN_TIME = ''(unknown)''"
definition IDLE_TIME :: string where "IDLE_TIME = ''(device idle)''"

record blame =
  bl_by_span :: "(nat, rat) dict"
  bl_other :: "(string, rat) dict"
  bl_waiting :: rat
  bl_joint_releases :: int
  bl_truncated :: int
  bl_waits :: "(nat \<times> int \<times> int \<times> int \<times> nat list) list"
  bl_passed_on :: "(nat, rat) dict"

definition no_blame :: blame where
  "no_blame = \<lparr>bl_by_span = [], bl_other = [], bl_waiting = 0, bl_joint_releases = 0, bl_truncated = 0,
     bl_waits = [], bl_passed_on = []\<rparr>"

definition by_category :: "event_graph \<Rightarrow> blame \<Rightarrow> (string, rat) dict" where
  "by_category g b =
     fold (\<lambda>(k, ns) out. dict_add k ns out) (bl_other b)
       (fold (\<lambda>(j, ns) out. dict_add (g_cat g ! j) ns out) (bl_by_span b) [])"

definition lane_kinds :: "ekind set" where
  "lane_kinds = {Thread, DeviceWork, StreamOrder}"

definition lane_pred :: "event_graph \<Rightarrow> nat \<Rightarrow> nat option" where
  "lane_pred g v = List.find (\<lambda>e. g_enabled g ! e \<and> e_kind (edge_of g e) \<in> lane_kinds) (in_edges g v)"

definition sources :: "event_graph \<Rightarrow> nat \<Rightarrow> nat list" where
  "sources g j = filter (\<lambda>e. g_enabled g ! e \<and> e_mode (edge_of g e) = DEP) (in_edges g (2 * j + 1))"

abbreviation src_time :: "event_graph \<Rightarrow> nat \<Rightarrow> int" where
  "src_time g e \<equiv> time_of g (e_src (edge_of g e))"

text \<open>Whether the clocks leave open that a source came no earlier than the latest one.\<close>

definition clocks_allow :: "event_graph \<Rightarrow> nat \<Rightarrow> nat \<Rightarrow> int \<Rightarrow> bool" where
  "clocks_allow g e latest gap =
     (case g_clock g of
        None \<Rightarrow> False
      | Some ca \<Rightarrow>
          (let a = g_domain g ! (e_src (edge_of g e) div 2); b = g_domain g ! (e_src (edge_of g latest) div 2) in
           a \<noteq> b \<and> (case snd (offset_range ca a b) of None \<Rightarrow> True | Some hi \<Rightarrow> hi \<ge> of_int gap)))"

definition joint :: "event_graph \<Rightarrow> nat list \<Rightarrow> int \<Rightarrow> nat list" where
  "joint g srcs joint_ns =
     (case max_key (src_time g) srcs of
        None \<Rightarrow> []
      | Some latest \<Rightarrow>
          filter (\<lambda>e. let gap = src_time g latest - src_time g e in
                    gap \<le> joint_ns \<or> clocks_allow g e latest gap) srcs)"

text \<open>
  The pieces of the source's lane inside the window, back from the event that released; the
  Boolean is the \<open>else\<close> of the loop, which \<open>max_steps\<close> cut short.
\<close>

fun lane_pieces :: "event_graph \<Rightarrow> int \<Rightarrow> int \<Rightarrow> nat \<Rightarrow> nat \<Rightarrow> (nat \<times> int) list \<Rightarrow> bool \<times> (nat \<times> int) list" where
  "lane_pieces g a b 0 v pieces = (True, pieces)"
| "lane_pieces g a b (Suc steps) v pieces =
     (case lane_pred g v of
        None \<Rightarrow> (False, pieces)
      | Some e \<Rightarrow>
          (let u = e_src (edge_of g e); lo = max a (time_of g u); hi = min b (time_of g v);
               pieces = (if hi > lo then pieces @ [(e, hi - lo)] else pieces)
           in if time_of g u \<le> a then (False, pieces) else lane_pieces g a b steps u pieces))"

definition to_span :: "nat \<Rightarrow> rat \<Rightarrow> blame \<Rightarrow> blame" where
  "to_span j ns out = out\<lparr>bl_by_span := dict_add j ns (bl_by_span out)\<rparr>"

definition to_other :: "string \<Rightarrow> rat \<Rightarrow> blame \<Rightarrow> blame" where
  "to_other k ns out = out\<lparr>bl_other := dict_add k ns (bl_other out)\<rparr>"

text \<open>
  \<open>charge\<close> with \<open>pass\<close> for its recursive call, None at the greatest depth: \<open>pass node a b share\<close>.
\<close>

type_synonym charging = "nat \<Rightarrow> int \<Rightarrow> int \<Rightarrow> rat \<Rightarrow> blame \<Rightarrow> blame"

definition charge_wait :: "event_graph \<Rightarrow> int \<Rightarrow> charging option \<Rightarrow> int \<Rightarrow> int \<Rightarrow> nat \<Rightarrow> rat \<Rightarrow> blame \<Rightarrow> blame" where
  "charge_wait g joint_ns pass a b e part out =
     (let j = the (e_owner (edge_of g e)); lo = max a (src_time g e); hi = min b (time_of g (e_dst (edge_of g e)));
          r = g_release g ! j;
          wait_part = part * of_int (max 0 (min hi r - lo)) / of_int (hi - lo);
          out = to_span j (part - wait_part) out;
          srcs = (if wait_part > 0 then sources g j else []) in
      if wait_part \<le> 0 then out
      else case pass of
        None \<Rightarrow> to_span j wait_part (out\<lparr>bl_truncated := bl_truncated out + 1\<rparr>)
      | Some again \<Rightarrow>
          (if srcs = [] then to_other UNKNOWN_TIME wait_part out
           else
             (let js = joint g srcs joint_ns;
                  out = out\<lparr>bl_passed_on := dict_add j wait_part (bl_passed_on out)\<rparr>
              in fold (\<lambda>s. again (e_src (edge_of g s)) lo (min hi (max lo (src_time g s))) (wait_part / of_nat (length js)))
                   js out)))"

definition charge_piece :: "event_graph \<Rightarrow> int \<Rightarrow> charging option \<Rightarrow> int \<Rightarrow> int \<Rightarrow> nat \<Rightarrow> rat \<Rightarrow> blame \<Rightarrow> blame" where
  "charge_piece g joint_ns pass a b e part out =
     (case e_mode (edge_of g e) of
        BUSY \<Rightarrow> to_span (the (e_owner (edge_of g e))) part out
      | WAIT \<Rightarrow> charge_wait g joint_ns pass a b e part out
      | IDLE \<Rightarrow> to_other IDLE_TIME part out
      | UNKNOWN \<Rightarrow> to_other UNKNOWN_TIME part out
      | _ \<Rightarrow> to_other UNRECORDED part out)"

definition charge_with :: "event_graph \<Rightarrow> int \<Rightarrow> nat \<Rightarrow> charging option \<Rightarrow> charging" where
  "charge_with g joint_ns max_steps pass node a b share out =
     (if share \<le> 0 then out
      else if b \<le> a then to_span (node div 2) share out
      else
        (let (cut, pieces) = lane_pieces g a b max_steps node [];
             out = (if cut then out\<lparr>bl_truncated := bl_truncated out + 1\<rparr> else out);
             covered = sum_list (map snd pieces) in
         if covered \<le> 0 then to_other UNRECORDED share out
         else fold (\<lambda>(e, n). charge_piece g joint_ns pass a b e (share * of_int n / of_int covered)) pieces out))"

text \<open>The argument counts the levels left, \<open>depth - level\<close>.\<close>

fun charge :: "event_graph \<Rightarrow> int \<Rightarrow> nat \<Rightarrow> nat \<Rightarrow> charging" where
  "charge g joint_ns max_steps 0 = charge_with g joint_ns max_steps None"
| "charge g joint_ns max_steps (Suc left) = charge_with g joint_ns max_steps (Some (charge g joint_ns max_steps left))"

definition blame_call :: "event_graph \<Rightarrow> int \<Rightarrow> nat \<Rightarrow> nat \<Rightarrow> nat \<Rightarrow> blame \<Rightarrow> blame" where
  "blame_call g joint_ns depth max_steps j out =
     (if \<not> g_gated g ! j \<or> g_excluded g ! j then out
      else
        (let srcs = sources g j in
         if srcs = [] then out
         else
           (let S = time_of g (2 * j); E = time_of g (2 * j + 1);
                r = Max (set (map (src_time g) srcs)); w = min r E - S in
            if w \<le> 0 then out
            else
              (let js = joint g srcs joint_ns;
                   out = out\<lparr>bl_waiting := bl_waiting out + of_int w,
                             bl_joint_releases := bl_joint_releases out + (if length js > 1 then 1 else 0),
                             bl_waits := bl_waits out @ [(j, S, min r E, w, map (\<lambda>e. e_src (edge_of g e) div 2) js)]\<rparr>
               in fold (\<lambda>e. charge g joint_ns max_steps depth (e_src (edge_of g e)) S (min E (max S (src_time g e)))
                           (of_int w / of_nat (length js)))
                    js out))))"

definition blame_of :: "event_graph \<Rightarrow> int \<Rightarrow> nat \<Rightarrow> nat \<Rightarrow> blame" where
  "blame_of g joint_ns depth max_steps = fold (blame_call g joint_ns depth max_steps) [0..<g_n g] no_blame"

section \<open>Conservation\<close>

definition charged :: "blame \<Rightarrow> rat" where
  "charged b = dict_total (bl_by_span b) + dict_total (bl_other b)"

lemma charged_simps [simp]:
  "charged (to_span j ns out) = charged out + ns" "charged (to_other k ns out) = charged out + ns"
  "charged (out\<lparr>bl_truncated := t\<rparr>) = charged out" "charged (out\<lparr>bl_passed_on := d\<rparr>) = charged out"
  "charged (out\<lparr>bl_waiting := x, bl_joint_releases := y, bl_waits := z\<rparr>) = charged out"
  by (simp_all add: charged_def to_span_def to_other_def)

lemma waiting_simps [simp]:
  "bl_waiting (to_span j ns out) = bl_waiting out" "bl_waiting (to_other k ns out) = bl_waiting out"
  by (simp_all add: to_span_def to_other_def)

text \<open>A way of charging that charges exactly its share.\<close>

definition conserves :: "event_graph \<Rightarrow> charging \<Rightarrow> bool" where
  "conserves g f \<longleftrightarrow> (\<forall>node a b share out. node < 2 * g_n g \<longrightarrow> 0 \<le> share \<longrightarrow>
     charged (f node a b share out) = charged out + share \<and> bl_waiting (f node a b share out) = bl_waiting out)"

lemma joint_not_empty: "srcs \<noteq> [] \<Longrightarrow> 0 \<le> joint_ns \<Longrightarrow> joint g srcs joint_ns \<noteq> []"
proof -
  assume s: "srcs \<noteq> []" and n: "0 \<le> joint_ns"
  then obtain m where m: "max_key (src_time g) srcs = Some m" by (cases srcs) auto
  then have "m \<in> set (joint g srcs joint_ns)" using max_key_Some [OF m] n by (simp add: joint_def)
  then show ?thesis by auto
qed

lemma fold_charges:
  assumes "\<And>x out. x \<in> set xs \<Longrightarrow> charged (f x out) = charged out + amount x \<and> bl_waiting (f x out) = bl_waiting out"
  shows "charged (fold f xs out) = charged out + sum_list (map amount xs) \<and> bl_waiting (fold f xs out) = bl_waiting out"
  using assms by (induction xs arbitrary: out) auto

lemma sum_list_equal_shares: "xs \<noteq> [] \<Longrightarrow> sum_list (map (\<lambda>_. c / of_nat (length xs)) xs) = (c :: rat)"
  by (simp add: sum_list_triv)


lemma joint_sources: "set (joint g srcs joint_ns) \<subseteq> set srcs"
  by (auto simp: joint_def split: option.splits)

lemma source_node:
  assumes "built g" "j < g_n g" "e \<in> set (sources g j)"
  shows "e_src (edge_of g e) < 2 * g_n g"
  using assms in_edges_iff [OF built_finished [OF assms(1)], of "2 * j + 1"] edge_nodes(3) [OF assms(1)]
  by (auto simp: sources_def)

lemma lane_pred_edge:
  assumes "built g" "v < 2 * g_n g" "lane_pred g v = Some e"
  shows "e < length (g_edges g)" "g_enabled g ! e" "e_dst (edge_of g e) = v" "e_src (edge_of g e) < 2 * g_n g"
proof -
  have "e \<in> set (in_edges g v)" "g_enabled g ! e"
    using assms(3) by (auto simp: lane_pred_def find_Some_iff)
  then show "e < length (g_edges g)" "g_enabled g ! e" "e_dst (edge_of g e) = v"
    using in_edges_iff [OF built_finished [OF assms(1)] assms(2)] by auto
  then show "e_src (edge_of g e) < 2 * g_n g" using edge_nodes(3) [OF assms(1)] by blast
qed

text \<open>A piece: an edge and its overlap with the window, which is positive.\<close>

definition piece_ok :: "event_graph \<Rightarrow> int \<Rightarrow> int \<Rightarrow> nat \<times> int \<Rightarrow> bool" where
  "piece_ok g a b p \<longleftrightarrow> snd p = min b (time_of g (e_dst (edge_of g (fst p)))) - max a (src_time g (fst p)) \<and> 0 < snd p"

lemma piece_pos: "piece_ok g a b p \<Longrightarrow> 0 < snd p"
  unfolding piece_ok_def by (rule conjunct2)

lemma lane_pieces_all:
  assumes "built g" and new: "\<And>v e. v < 2 * g_n g \<Longrightarrow> lane_pred g v = Some e \<Longrightarrow>
      max a (src_time g e) < min b (time_of g v) \<Longrightarrow> P (e, min b (time_of g v) - max a (src_time g e))"
  shows "v < 2 * g_n g \<Longrightarrow> \<forall>p\<in>set pieces. P p \<Longrightarrow> \<forall>p\<in>set (snd (lane_pieces g a b steps v pieces)). P p"
proof (induction steps arbitrary: v pieces)
  case (Suc steps)
  show ?case
  proof (cases "lane_pred g v")
    case None
    then show ?thesis using Suc.prems by simp
  next
    case (Some e)
    define ps where "ps = (if min b (time_of g v) > max a (src_time g e)
      then pieces @ [(e, min b (time_of g v) - max a (src_time g e))] else pieces)"
    have ps: "\<forall>p\<in>set ps. P p" using Suc.prems(2) new [OF Suc.prems(1) Some] by (simp add: ps_def del: max_less_iff_conj min_less_iff_conj)
    have run: "lane_pieces g a b (Suc steps) v pieces =
        (if src_time g e \<le> a then (False, ps) else lane_pieces g a b steps (e_src (edge_of g e)) ps)"
      unfolding ps_def by (simp only: lane_pieces.simps Some option.case Let_def)
    show ?thesis unfolding run using ps Suc.IH [OF lane_pred_edge(4) [OF assms(1) Suc.prems(1) Some] ps] by (simp split: if_split)
  qed
qed simp

lemma lane_pieces_ok:
  assumes "built g" "v < 2 * g_n g" "p \<in> set (snd (lane_pieces g a b steps v []))"
  shows "piece_ok g a b p" "fst p < length (g_edges g)"
proof -
  have "\<forall>p\<in>set (snd (lane_pieces g a b steps v [])). piece_ok g a b p \<and> fst p < length (g_edges g)"
    by (rule lane_pieces_all [OF assms(1) _ assms(2)])
       (use lane_pred_edge [OF assms(1)] in \<open>simp_all add: piece_ok_def del: max_less_iff_conj min_less_iff_conj\<close>)
  then show "piece_ok g a b p" "fst p < length (g_edges g)" using assms(3) by blast+
qed

lemma charge_joint:
  assumes "built g" "conserves g f" "js \<noteq> []" "\<forall>e\<in>set js. e_src (edge_of g e) < 2 * g_n g" "0 \<le> c"
  shows "charged (fold (\<lambda>e. f (e_src (edge_of g e)) a (h e) (c / of_nat (length js))) js out) = charged out + c \<and>
    bl_waiting (fold (\<lambda>e. f (e_src (edge_of g e)) a (h e) (c / of_nat (length js))) js out) = bl_waiting out"
proof -
  have "0 \<le> c / of_nat (length js)" using assms(5) by simp
  then have "charged (fold (\<lambda>e. f (e_src (edge_of g e)) a (h e) (c / of_nat (length js))) js out) =
      charged out + sum_list (map (\<lambda>_. c / of_nat (length js)) js) \<and>
    bl_waiting (fold (\<lambda>e. f (e_src (edge_of g e)) a (h e) (c / of_nat (length js))) js out) = bl_waiting out"
    using assms(2,4) by (intro fold_charges) (simp add: conserves_def)
  then show ?thesis using sum_list_equal_shares [OF assms(3)] by simp
qed

lemma charge_wait_conserves:
  assumes g: "built g" "0 \<le> joint_ns" and again: "\<And>f. pass = Some f \<Longrightarrow> conserves g f"
    and owner: "the (e_owner (edge_of g e)) < g_n g" and piece: "piece_ok g a b (e, n)" and part: "0 \<le> part"
  shows "charged (charge_wait g joint_ns pass a b e part out) = charged out + part \<and>
    bl_waiting (charge_wait g joint_ns pass a b e part out) = bl_waiting out"
proof -
  let ?j = "the (e_owner (edge_of g e))"
  let ?lo = "max a (src_time g e)" and ?hi = "min b (time_of g (e_dst (edge_of g e)))"
  let ?w = "part * of_int (max 0 (min ?hi (g_release g ! ?j) - ?lo)) / of_int (?hi - ?lo)"
  have "n = ?hi - ?lo \<and> 0 < n" using piece unfolding piece_ok_def fst_conv snd_conv .
  then have lt: "?hi - ?lo > 0" by linarith
  define w where "w = ?w"
  have w: "0 \<le> w" unfolding w_def using part lt by (intro divide_nonneg_pos mult_nonneg_nonneg) simp_all
  have eq: "charge_wait g joint_ns pass a b e part out =
      (let out = to_span ?j (part - w) out; srcs = (if w > 0 then sources g ?j else []) in
       if w \<le> 0 then out
       else case pass of
         None \<Rightarrow> to_span ?j w (out\<lparr>bl_truncated := bl_truncated out + 1\<rparr>)
       | Some again \<Rightarrow>
           (if srcs = [] then to_other UNKNOWN_TIME w out
            else
              (let js = joint g srcs joint_ns; out = out\<lparr>bl_passed_on := dict_add ?j w (bl_passed_on out)\<rparr>
               in fold (\<lambda>s. again (e_src (edge_of g s)) ?lo (min ?hi (max ?lo (src_time g s))) (w / of_nat (length js))) js out)))"
    unfolding charge_wait_def w_def Let_def by (rule refl)
  show ?thesis
  proof (cases "w \<le> 0")
    case True
    then have "w = 0" using w by linarith
    then show ?thesis unfolding eq Let_def by simp
  next
    case False
    show ?thesis
    proof (cases "pass = None \<or> sources g ?j = []")
      case True
      then show ?thesis unfolding eq Let_def using False by (auto split: option.splits)
    next
      case more: False
      then obtain f where f: "pass = Some f" by (cases pass) simp_all
      let ?js = "joint g (sources g ?j) joint_ns"
      have "\<forall>s\<in>set ?js. e_src (edge_of g s) < 2 * g_n g"
        using source_node [OF g(1) owner] joint_sources by blast
      from charge_joint [OF g(1) again [OF f] joint_not_empty [OF _ g(2)] this w] more False
      show ?thesis unfolding eq Let_def unfolding f by simp
    qed
  qed
qed

lemma charge_piece_conserves:
  assumes g: "built g" "owned_edges g" "0 \<le> joint_ns" and again: "\<And>f. pass = Some f \<Longrightarrow> conserves g f"
    and e: "e < length (g_edges g)" and piece: "piece_ok g a b (e, n)" and part: "0 \<le> part"
  shows "charged (charge_piece g joint_ns pass a b e part out) = charged out + part \<and>
    bl_waiting (charge_piece g joint_ns pass a b e part out) = bl_waiting out"
proof (cases "e_mode (edge_of g e) = WAIT")
  case True
  then have "the (e_owner (edge_of g e)) < g_n g" using owned_edge [OF g(2) e] by (simp add: owned_mode_def)
  from charge_wait_conserves [OF g(1,3) again this piece part] True show ?thesis by (simp add: charge_piece_def)
qed (cases "e_mode (edge_of g e)"; simp add: charge_piece_def)

lemma sum_shares:
  assumes "0 < (c :: int)" "c = sum_list (map snd ps)"
  shows "sum_list (map (\<lambda>p. share * of_int (snd p) / of_int c) ps) = (share :: rat)"
proof -
  have "sum_list (map (\<lambda>p. share * of_int (snd p) / of_int c) qs) = share * of_int (sum_list (map snd qs)) / of_int c" for qs
    by (induction qs) (simp_all add: algebra_simps add_divide_distrib)
  from this [of ps] assms(1) show ?thesis unfolding assms(2) [symmetric] by simp
qed

lemma charge_with_conserves:
  assumes g: "built g" "owned_edges g" "0 \<le> joint_ns" and again: "\<And>f. pass = Some f \<Longrightarrow> conserves g f"
  shows "conserves g (charge_with g joint_ns max_steps pass)"
  unfolding conserves_def
proof (intro allI impI)
  fix node a b share out assume node: "node < 2 * g_n g" and share: "(0 :: rat) \<le> share"
  let ?f = "charge_with g joint_ns max_steps pass node a b share out"
  show "charged ?f = charged out + share \<and> bl_waiting ?f = bl_waiting out"
  proof (cases "share \<le> 0 \<or> b \<le> a")
    case True
    then show ?thesis using share by (auto simp: charge_with_def)
  next
    case False
    obtain cut ps where ps: "lane_pieces g a b max_steps node [] = (cut, ps)" by fastforce
    define out' where "out' = (if cut then out\<lparr>bl_truncated := bl_truncated out + 1\<rparr> else out)"
    have out': "charged out' = charged out" "bl_waiting out' = bl_waiting out" by (simp_all add: out'_def)
    show ?thesis
    proof (cases "sum_list (map snd ps) \<le> 0")
      case True
      then show ?thesis using False out' by (simp add: charge_with_def ps Let_def out'_def)
    next
      case pos: False
      let ?c = "sum_list (map snd ps)"
      have ok: "\<forall>p\<in>set ps. piece_ok g a b p" "\<forall>p\<in>set ps. fst p < length (g_edges g)"
        using lane_pieces_ok [OF g(1) node, of _ a b max_steps] by (simp_all add: ps)
      have step: "charged ((\<lambda>(e, n). charge_piece g joint_ns pass a b e (share * of_int n / of_int ?c)) p x) =
            charged x + share * of_int (snd p) / of_int ?c \<and>
          bl_waiting ((\<lambda>(e, n). charge_piece g joint_ns pass a b e (share * of_int n / of_int ?c)) p x) = bl_waiting x"
        if "p \<in> set ps" for p x
      proof -
        obtain e n where p: "p = (e, n)" by (cases p)
        have q: "e < length (g_edges g)" "piece_ok g a b (e, n)" using ok that p by auto
        have "0 \<le> share * of_int n / of_int ?c"
          using piece_pos [OF q(2)] share pos by (intro divide_nonneg_pos mult_nonneg_nonneg) simp_all
        from charge_piece_conserves [OF g again q this] show ?thesis by (simp add: p)
      qed
      have "?f = fold (\<lambda>(e, n). charge_piece g joint_ns pass a b e (share * of_int n / of_int ?c)) ps out'"
        using False pos by (simp add: charge_with_def ps Let_def out'_def)
      then show ?thesis
        using fold_charges [of ps _ "\<lambda>p. share * of_int (snd p) / of_int ?c" out', OF step] sum_shares [of ?c ps share] pos out'
        by simp
    qed
  qed
qed

lemma charge_conserves:
  assumes "built g" "owned_edges g" "0 \<le> joint_ns"
  shows "conserves g (charge g joint_ns max_steps left)"
proof (induction left)
  case 0
  show ?case unfolding charge.simps by (rule charge_with_conserves [OF assms]) simp
next
  case (Suc left)
  then show ?case unfolding charge.simps by (intro charge_with_conserves [OF assms]) simp
qed

lemma three_guards: "P \<or> Q \<or> R \<Longrightarrow> (if P then x else if Q then x else if R then x else y) = x"
  by auto

lemma guards_passed: "\<not> P \<Longrightarrow> \<not> Q \<Longrightarrow> \<not> R \<Longrightarrow> (if P then x else if Q then x else if R then x else y) = y"
  by simp

lemma blame_call_conserves:
  assumes "built g" "owned_edges g" "0 \<le> joint_ns" "j < g_n g" "charged out = bl_waiting out"
  shows "charged (blame_call g joint_ns depth max_steps j out) = bl_waiting (blame_call g joint_ns depth max_steps j out)"
proof -
  let ?w = "min (Max (set (map (src_time g) (sources g j)))) (time_of g (2 * j + 1)) - time_of g (2 * j)"
  show ?thesis
  proof (cases "\<not> g_gated g ! j \<or> g_excluded g ! j \<or> sources g j = [] \<or> ?w \<le> 0")
    case True
    have "blame_call g joint_ns depth max_steps j out = out"
      unfolding blame_call_def Let_def by (rule three_guards) (use True in blast)
    then show ?thesis using assms(5) by simp
  next
    case False
    let ?js = "joint g (sources g j) joint_ns"
    have js: "?js \<noteq> []" using False by (intro joint_not_empty [OF _ assms(3)]) blast
    have src: "\<forall>e\<in>set ?js. e_src (edge_of g e) < 2 * g_n g" using source_node [OF assms(1,4)] joint_sources by blast
    have "0 \<le> ?w" using False by linarith
    then have w: "0 \<le> (of_int ?w :: rat)" unfolding of_int_0_le_iff .
    note c = charge_joint [OF assms(1) charge_conserves [OF assms(1-3)] js src w]
    have call: "blame_call g joint_ns depth max_steps j out =
      fold (\<lambda>e. charge g joint_ns max_steps depth (e_src (edge_of g e)) (time_of g (2 * j))
           (min (time_of g (2 * j + 1)) (max (time_of g (2 * j)) (src_time g e))) (of_int ?w / of_nat (length ?js))) ?js
        (out\<lparr>bl_waiting := bl_waiting out + of_int ?w,
             bl_joint_releases := bl_joint_releases out + (if length ?js > 1 then 1 else 0),
             bl_waits := bl_waits out @ [(j, time_of g (2 * j), min (Max (set (map (src_time g) (sources g j)))) (time_of g (2 * j + 1)),
               ?w, map (\<lambda>e. e_src (edge_of g e) div 2) ?js)]\<rparr>)"
      
      unfolding blame_call_def Let_def by (rule guards_passed) (use False in blast)+
    show ?thesis unfolding call using c assms(5) by simp
  qed
qed

lemma blame_conserved:
  assumes "built g" "owned_edges g" "0 \<le> joint_ns"
  shows "charged (blame_of g joint_ns depth max_steps) = bl_waiting (blame_of g joint_ns depth max_steps)"
proof -
  have "charged (fold (blame_call g joint_ns depth max_steps) js out) = bl_waiting (fold (blame_call g joint_ns depth max_steps) js out)"
    if "\<forall>j\<in>set js. j < g_n g" "charged out = bl_waiting out" for js out
    using that blame_call_conserves [OF assms] by (induction js arbitrary: out) auto
  then show ?thesis unfolding blame_of_def by (simp add: charged_def no_blame_def)
qed

section \<open>Replaying\<close>

lemma option_max_fold:
  "fold (\<lambda>e best. case best of None \<Rightarrow> Some (f e) | Some b \<Rightarrow> if f e > b then Some (f e) else best) es (Some (c :: 'a::linorder)) =
     Some (Max (insert c (f ` set es)))"
proof (induction es arbitrary: c)
  case (Cons e es)
  have "Max (insert (max c (f e)) (f ` set es)) = Max (insert c (f ` set (e # es)))"
    by (cases "es = []") (simp_all add: max.assoc)
  moreover have "(if f e > c then Some (f e) else Some c) = Some (max c (f e))" by (auto simp: max_def)
  ultimately show ?case using Cons [of "max c (f e)"] by simp
qed simp

lemma allowed_at_eq:
  "allowed_at g scale time v =
     (if enabled_in g v = [] then None
      else Some (Max ((\<lambda>e. time (e_src (edge_of g e)) + delta g scale e) ` set (enabled_in g v))))"
proof -
  have "allowed_at g scale time v =
      fold (\<lambda>e best. case best of None \<Rightarrow> Some (time (e_src (edge_of g e)) + delta g scale e)
        | Some b \<Rightarrow> if time (e_src (edge_of g e)) + delta g scale e > b then Some (time (e_src (edge_of g e)) + delta g scale e) else best)
      (enabled_in g v) None"
    unfolding allowed_at_def Let_def enabled_in_def fold_filtered [symmetric] by (rule refl)
  then show ?thesis by (cases "enabled_in g v") (simp_all add: option_max_fold)
qed

lemma fold_update_other: "u \<notin> set vs \<Longrightarrow> fold (\<lambda>v G. G[v := h G v]) vs G ! u = G ! u"
  by (induction vs arbitrary: G) (auto simp: nth_list_update)

text \<open>A pass whose value at a node depends on the nodes before it.\<close>

lemma ordered_fold:
  assumes d: "distinct order" "\<forall>v\<in>set order. v < length F"
    and dep: "\<And>xs v ys G H. order = xs @ v # ys \<Longrightarrow> \<forall>u\<in>set xs. G ! u = H ! u \<Longrightarrow> h G v = h H v"
    and v: "v \<in> set order"
  shows "fold (\<lambda>v G. G[v := h G v]) order F ! v = h (fold (\<lambda>v G. G[v := h G v]) order F) v"
proof -
  note other = fold_update_other [of _ _ h]
  have len: "length (fold (\<lambda>v G. G[v := h G v]) vs G) = length G" for vs G
    by (induction vs arbitrary: G) auto
  obtain xs ys where o: "order = xs @ v # ys" using split_list [OF v] by blast
  let ?G = "fold (\<lambda>v G. G[v := h G v]) xs F"
  have r: "fold (\<lambda>v G. G[v := h G v]) order F = fold (\<lambda>v G. G[v := h G v]) ys (?G[v := h ?G v])" by (simp add: o)
  have nv: "v \<notin> set xs" "v \<notin> set ys" "set xs \<inter> set ys = {}" using d(1) o by auto
  have "\<forall>u\<in>set xs. ?G ! u = fold (\<lambda>v G. G[v := h G v]) order F ! u"
  proof
    fix u assume "u \<in> set xs"
    then have "u \<notin> set ys" "u \<noteq> v" using nv by auto
    then show "?G ! u = fold (\<lambda>v G. G[v := h G v]) order F ! u"
      unfolding r by (subst other) simp_all
  qed
  from dep [OF o this] show ?thesis using other [OF nv(2)] d(2) o by (simp add: r len)
qed

lemma replay_fold:
  "fst (replay g scale res) = fold (\<lambda>v tp. tp[v := replay_at g scale res tp v]) (g_order g) (replicate (2 * g_n g) 0)"
proof -
  have "fst (fold (\<lambda>v (tp, end). let x = replay_at g scale res tp v in (tp[v := x], if x > end then x else end)) vs s) =
      fold (\<lambda>v tp. tp[v := replay_at g scale res tp v]) vs (fst s)" for vs s
    by (induction vs arbitrary: s) (simp_all add: Let_def case_prod_unfold)
  then show ?thesis by (simp add: replay_def)
qed

lemma replay_at_nodes:
  assumes "built g" "v \<in> set (g_order g)"
  shows "fst (replay g scale res) ! v = replay_at g scale res (fst (replay g scale res)) v"
  unfolding replay_fold
proof (rule ordered_fold [OF built_distinct [OF assms(1)] _ _ assms(2)])
  show "\<forall>v\<in>set (g_order g). v < length (replicate (2 * g_n g) (0 :: rat))" using order_node [OF assms(1)] by simp
  fix xs v ys and G H :: "rat list" assume o: "g_order g = xs @ v # ys" and eq: "\<forall>u\<in>set xs. G ! u = H ! u"
  have "(\<lambda>e. G ! e_src (edge_of g e) + delta g scale e) ` set (enabled_in g v) =
      (\<lambda>e. H ! e_src (edge_of g e) + delta g scale e) ` set (enabled_in g v)"
    using order_before [OF assms(1) o] eq by (intro image_cong) auto
  then show "replay_at g scale res G v = replay_at g scale res H v" by (simp add: replay_at_def allowed_at_eq)
qed

lemma residuals_at:
  assumes "built g" "v \<in> set (g_order g)"
  shows "residuals g ! v = (case allowed_at g [] (\<lambda>u. of_int (time_of g u)) v of
      None \<Rightarrow> -1 | Some b \<Rightarrow> max 0 (py_round (of_int (time_of g v) - b)))"
proof -
  let ?c = "\<lambda>v. allowed_at g [] (\<lambda>u. of_int (time_of g u)) v"
  let ?f = "\<lambda>v out. case ?c v of None \<Rightarrow> out | Some b \<Rightarrow> out[v := max 0 (py_round (of_int (time_of g v) - b))]"
  have "length (fold ?f vs out) = length out \<and> (fold ?f vs out ! v =
      (if v \<in> set vs then (case ?c v of None \<Rightarrow> out ! v | Some b \<Rightarrow> max 0 (py_round (of_int (time_of g v) - b))) else out ! v))"
    if "v < length out" for vs out
    using that
  proof (induction vs arbitrary: out)
    case (Cons x vs)
    have "v < length (?f x out)" using Cons.prems by (simp split: option.split)
    from Cons.IH [OF this] show ?case using Cons.prems by (cases "x = v") (auto simp: split: option.split)
  qed simp
  from this [of "replicate (2 * g_n g) (-1)" "g_order g"] show ?thesis
    using order_node [OF assms] assms(2) by (simp add: residuals_def cong: option.case_cong)
qed

lemma delta_unscaled: "delta g [] e = of_int (if e_mode (edge_of g e) \<in> {BUSY, GAP, UNKNOWN} then e_d (edge_of g e) else 0)"
  by (simp add: delta_def Let_def)

text \<open>Where no enabled edge goes back in time, the recorded times are what the replay computes.\<close>

lemma replay_recorded:
  assumes b: "built g" and v: "v \<in> set (g_order g)"
    and fwd: "\<forall>e<length (g_edges g). g_enabled g ! e \<longrightarrow> src_time g e \<le> time_of g (e_dst (edge_of g e))"
    and before: "\<And>e. e \<in> set (enabled_in g v) \<Longrightarrow> tp ! e_src (edge_of g e) = of_int (src_time g e)"
  shows "replay_at g [] (residuals g) tp v = of_int (time_of g v)"
proof (cases "enabled_in g v = []")
  case True
  then show ?thesis using residuals_at [OF b v] by (simp add: replay_at_def allowed_at_eq)
next
  case False
  let ?R = "(\<lambda>e. src_time g e + (if e_mode (edge_of g e) \<in> {BUSY, GAP, UNKNOWN} then e_d (edge_of g e) else 0)) ` set (enabled_in g v)"
  have le: "Max ?R \<le> time_of g v"
  proof (rule Max.boundedI)
    fix x assume "x \<in> ?R"
    then obtain e where e: "e \<in> set (enabled_in g v)"
      "x = src_time g e + (if e_mode (edge_of g e) \<in> {BUSY, GAP, UNKNOWN} then e_d (edge_of g e) else 0)" by blast
    have "e < length (g_edges g)" "g_enabled g ! e" "e_dst (edge_of g e) = v"
      using enabled_in_iff [OF b order_node [OF b v]] e(1) by auto
    then show "x \<le> time_of g v" using fwd edge_time(1) [OF b, of e] e(2) by auto
  qed (use False in auto)
  have max: "Max ((\<lambda>e. of_int (src_time g e) + delta g [] e) ` set (enabled_in g v)) = (of_int (Max ?R) :: rat)"
  proof -
    have "(\<lambda>e. of_int (src_time g e) + delta g [] e) ` set (enabled_in g v) = (of_int :: int \<Rightarrow> rat) ` ?R"
      by (simp add: delta_unscaled image_image)
    then show ?thesis using False using mono_Max_commute [of "of_int :: int \<Rightarrow> rat" ?R] by (simp add: mono_def)
  qed
  have tp: "(\<lambda>e. tp ! e_src (edge_of g e) + delta g [] e) ` set (enabled_in g v) =
      (\<lambda>e. of_int (src_time g e) + delta g [] e) ` set (enabled_in g v)"
    using before by (intro image_cong) simp_all
  have res: "residuals g ! v = time_of g v - Max ?R"
  proof -
    have "residuals g ! v = max 0 (py_round (of_int (time_of g v) - of_int (Max ?R)))"
      using residuals_at [OF b v] False by (simp only: allowed_at_eq max if_False option.case)
    also have "(of_int (time_of g v) - of_int (Max ?R) :: rat) = of_int (time_of g v - Max ?R)" by simp
    finally show ?thesis using le by (simp only: py_round_int)
  qed
  show ?thesis
    unfolding replay_at_def allowed_at_eq tp max res using False le by simp
qed

text \<open>Whatever the edges, the residual makes up for what the edges into an event fall short of.\<close>

lemma replay_not_before:
  assumes b: "built g" and v: "v \<in> set (g_order g)"
    and before: "\<And>e. e \<in> set (enabled_in g v) \<Longrightarrow> of_int (src_time g e) \<le> tp ! e_src (edge_of g e)"
  shows "of_int (time_of g v) \<le> replay_at g [] (residuals g) tp v"
proof (cases "enabled_in g v = []")
  case True
  then show ?thesis using residuals_at [OF b v] by (simp add: replay_at_def allowed_at_eq)
next
  case False
  let ?d = "\<lambda>e. if e_mode (edge_of g e) \<in> {BUSY, GAP, UNKNOWN} then e_d (edge_of g e) else 0"
  let ?R = "(\<lambda>e. src_time g e + ?d e) ` set (enabled_in g v)"
  let ?A = "(\<lambda>e. tp ! e_src (edge_of g e) + delta g [] e) ` set (enabled_in g v)"
  have max: "Max ((\<lambda>e. of_int (src_time g e) + delta g [] e) ` set (enabled_in g v)) = (of_int (Max ?R) :: rat)"
  proof -
    have "(\<lambda>e. of_int (src_time g e) + delta g [] e) ` set (enabled_in g v) = (of_int :: int \<Rightarrow> rat) ` ?R"
      by (simp add: delta_unscaled image_image)
    then show ?thesis using False using mono_Max_commute [of "of_int :: int \<Rightarrow> rat" ?R] by (simp add: mono_def)
  qed
  have res: "residuals g ! v = max 0 (time_of g v - Max ?R)"
  proof -
    have "residuals g ! v = max 0 (py_round (of_int (time_of g v) - of_int (Max ?R)))"
      using residuals_at [OF b v] False by (simp only: allowed_at_eq max if_False option.case)
    also have "(of_int (time_of g v) - of_int (Max ?R) :: rat) = of_int (time_of g v - Max ?R)" by simp
    finally show ?thesis by (simp only: py_round_int)
  qed
  have "Max ?R \<in> ?R" using False by (intro Max_in) auto
  then obtain e where e: "e \<in> set (enabled_in g v)" "Max ?R = src_time g e + ?d e" by (rule imageE)
  have "of_int (Max ?R) \<le> tp ! e_src (edge_of g e) + delta g [] e"
    using before [OF e(1)] unfolding e(2) delta_unscaled by simp
  also have "\<dots> \<le> Max ?A" using e(1) by (intro Max_ge) auto
  finally have "of_int (Max ?R) \<le> Max ?A" .
  moreover have "(of_int (time_of g v) :: rat) \<le> of_int (Max ?R) + of_int (residuals g ! v)"
    unfolding res of_int_add [symmetric] of_int_le_iff by simp
  moreover have "\<not> residuals g ! v < 0" unfolding res by simp
  ultimately show ?thesis using False by (simp add: replay_at_def allowed_at_eq)
qed

lemma position_induct [consumes 2, case_names before]:
  assumes "built g" "v \<in> set (g_order g)"
    and "\<And>v. v \<in> set (g_order g) \<Longrightarrow> (\<And>e. e \<in> set (enabled_in g v) \<Longrightarrow> P (e_src (edge_of g e))) \<Longrightarrow> P v"
  shows "P v"
  using assms(2)
proof (induction "position (g_order g) v" arbitrary: v rule: less_induct)
  case less
  have "P (e_src (edge_of g e))" if "e \<in> set (enabled_in g v)" for e
  proof -
    have e: "e < length (g_edges g)" "g_enabled g ! e" "e_dst (edge_of g e) = v"
      using that enabled_in_iff [OF assms(1) order_node [OF assms(1) less.prems]] by auto
    then show ?thesis using less.hyps edge_position [OF assms(1) e(1,2)] edge_nodes(1) [OF assms(1) e(1)] by blast
  qed
  then show ?case by (rule assms(3) [OF less.prems])
qed

lemma replay_end:
  assumes "built g"
  shows "snd (replay g scale res) = Max (insert 0 ((\<lambda>v. fst (replay g scale res) ! v) ` set (g_order g)))"
proof -
  let ?h = "replay_at g scale res"
  let ?f = "\<lambda>v (tp, end). let x = ?h tp v in (tp[v := x], if x > end then x else end)"
  have "snd (fold ?f vs (tp, m)) = Max (insert m ((\<lambda>v. fold (\<lambda>v G. G[v := ?h G v]) vs tp ! v) ` set vs))"
    if "distinct vs" "\<forall>v\<in>set vs. v < length tp" for vs tp m
    using that
  proof (induction vs arbitrary: tp m)
    case (Cons v vs)
    let ?tp = "tp[v := ?h tp v]"
    have v: "fold (\<lambda>v G. G[v := ?h G v]) vs ?tp ! v = ?h tp v"
      using Cons.prems fold_update_other [of v vs ?h ?tp] by simp
    have m: "(if ?h tp v > m then ?h tp v else m) = max m (?h tp v)" by (simp add: max_def)
    have "Max (insert (max m (?h tp v)) X) = Max (insert m (insert (?h tp v) X))" if "finite X" for X
      using that by (cases "X = {}") (simp_all add: max.assoc)
    then show ?case using Cons.IH [of ?tp "max m (?h tp v)"] Cons.prems by (simp add: Let_def m v)
  qed simp
  note e = this [OF built_distinct [OF assms], of "replicate (2 * g_n g) 0" 0]
  then show ?thesis unfolding replay_fold using order_node [OF assms] by (simp add: replay_def)
qed

lemma Max_image_mono:
  assumes "finite A" "A \<noteq> {}" "\<And>x. x \<in> A \<Longrightarrow> f x \<le> h x"
  shows "Max (f ` A) \<le> (Max (h ` A) :: 'a::linorder)"
proof (rule Max.boundedI)
  fix y assume "y \<in> f ` A"
  then obtain x where "x \<in> A" "y = f x" by blast
  then show "y \<le> Max (h ` A)" using assms(1,3) Max_ge [of "h ` A" "h x"] by (meson finite_imageI image_eqI order_trans)
qed (use assms in auto)

section \<open>Properties\<close>

text \<open>
  C25. Blame conserves waiting time: what \<open>blame\<close> charges to spans and to unrecorded, unknown
  and idle time adds up to the waiting time of every gated call, whatever the tolerance for
  joint releases, the depth to which waiting is passed on and the bound on the steps.
\<close>

theorem blame_conserves_waiting:
  assumes "built g" "owned_edges g" "0 \<le> joint_ns"
  shows "dict_total (bl_by_span (blame_of g joint_ns depth max_steps)) + dict_total (bl_other (blame_of g joint_ns depth max_steps)) =
    bl_waiting (blame_of g joint_ns depth max_steps)"
  using blame_conserved [OF assms] by (simp add: charged_def)

lemma demo_owned: "owned_edges demo_built"
  unfolding demo_built_def by (rule build_owned [OF demo_skeleton_ok])

lemma blame_conserves_waiting_witness:
  "bl_waiting (blame_of demo_built 1000 4 4096) = 70 \<and> bl_by_span (blame_of demo_built 1000 4 4096) = [(2, 70)] \<and>
   dict_total (bl_by_span (blame_of demo_built 1000 4 4096)) + dict_total (bl_other (blame_of demo_built 1000 4 4096)) = 70"
proof -
  have v: "bl_waiting (blame_of demo_built 1000 4 4096) = 70" "bl_by_span (blame_of demo_built 1000 4 4096) = [(2, 70)]"
    by code_simp+
  from blame_conserves_waiting [OF demo_is_built demo_owned, of 1000 4 4096] v show ?thesis by simp
qed

text \<open>
  C26. The replay of an unchanged run never runs ahead of the recording, and reproduces it when no
  enabled edge goes back in time: no event happens before its recorded time, nor does the run end
  earlier, and without such an edge every event happens at its recorded time and the run ends
  when it ended.
\<close>

theorem replay_reproduces:
  assumes "built g"
  shows "(\<forall>v\<in>set (g_order g). of_int (time_of g v) \<le> fst (replay g [] (residuals g)) ! v) \<and>
    of_int (max 0 (run_end g)) \<le> snd (replay g [] (residuals g)) \<and>
    ((\<forall>e<length (g_edges g). g_enabled g ! e \<longrightarrow> src_time g e \<le> time_of g (e_dst (edge_of g e))) \<longrightarrow>
      (\<forall>v\<in>set (g_order g). fst (replay g [] (residuals g)) ! v = of_int (time_of g v)) \<and>
      snd (replay g [] (residuals g)) = of_int (max 0 (run_end g)))"
proof -
  let ?tp = "fst (replay g [] (residuals g))"
  have later: "of_int (time_of g v) \<le> ?tp ! v" if "v \<in> set (g_order g)" for v
    using assms that
  proof (induction rule: position_induct)
    case (before v)
    then show ?case using replay_not_before [OF assms before(1)] replay_at_nodes [OF assms before(1)] by simp
  qed
  have recorded: "of_int (max 0 (run_end g)) = Max (insert 0 ((\<lambda>v. of_int (time_of g v) :: rat) ` set (g_order g)))"
  proof -
    have "max 0 (run_end g) = Max (insert 0 (time_of g ` set (g_order g)))" by (simp add: run_end_def)
    also have "of_int \<dots> = Max ((of_int :: int \<Rightarrow> rat) ` insert 0 (time_of g ` set (g_order g)))"
      by (subst mono_Max_commute [of "of_int :: int \<Rightarrow> rat"]) (simp_all add: mono_def)
    finally show ?thesis by (simp add: image_image)
  qed
  have "Max (insert 0 ((\<lambda>v. of_int (time_of g v) :: rat) ` set (g_order g))) \<le> Max (insert 0 ((\<lambda>v. ?tp ! v) ` set (g_order g)))"
    using later by (fastforce intro!: Max.boundedI simp: Max_ge_iff)
  then have ending: "of_int (max 0 (run_end g)) \<le> snd (replay g [] (residuals g))"
    unfolding recorded replay_end [OF assms] .
  have exact: "?tp ! v = of_int (time_of g v)"
    if "v \<in> set (g_order g)" "\<forall>e<length (g_edges g). g_enabled g ! e \<longrightarrow> src_time g e \<le> time_of g (e_dst (edge_of g e))" for v
    using assms that(1)
  proof (induction rule: position_induct)
    case (before v)
    then show ?case using replay_recorded [OF assms before(1) that(2)] replay_at_nodes [OF assms before(1)] by simp
  qed
  have "snd (replay g [] (residuals g)) = of_int (max 0 (run_end g))"
    if "\<forall>e<length (g_edges g). g_enabled g ! e \<longrightarrow> src_time g e \<le> time_of g (e_dst (edge_of g e))"
    unfolding recorded replay_end [OF assms] using exact [OF _ that] by (metis (no_types, lifting) image_cong)
  then show ?thesis using later ending exact by blast
qed

lemma replay_reproduces_witness:
  "snd (replay demo_built [] (residuals demo_built)) = 100 \<and>
   fst (replay demo_built [] (residuals demo_built)) ! 5 = of_int (time_of demo_built 5)"
proof -
  have f: "\<forall>e\<in>set [0..<length (g_edges demo_built)]. g_enabled demo_built ! e \<longrightarrow>
      src_time demo_built e \<le> time_of demo_built (e_dst (edge_of demo_built e))" by code_simp
  have e: "max 0 (run_end demo_built) = 100" by code_simp
  have "\<forall>e<length (g_edges demo_built). g_enabled demo_built ! e \<longrightarrow>
      src_time demo_built e \<le> time_of demo_built (e_dst (edge_of demo_built e))" using f by simp
  from replay_reproduces [OF demo_is_built] this e demo_walk show ?thesis by simp
qed

text \<open>
  With an edge back in time within the clock tolerance the replay of the unchanged run ends
  later than the recording, which the module's documentation excludes.
\<close>

lemma replay_misses_recording:
  "let g = build_event_graph clamped_skeleton clamped_sedges True in
     run_end g = 100 \<and> snd (replay g [] (residuals g)) = 110"
  by code_simp

text \<open>
  Property. Shrinking work never delays an event of the replay: with the same residuals, smaller
  factors on the busy time of spans make every event and the end of the run no later.
\<close>

theorem replay_monotone:
  assumes "built g" "\<And>j. dict_get smaller j 1 \<le> dict_get larger j 1"
  shows "(\<forall>v\<in>set (g_order g). fst (replay g smaller res) ! v \<le> fst (replay g larger res) ! v) \<and>
    snd (replay g smaller res) \<le> snd (replay g larger res)"
proof -
  have delta: "delta g smaller e \<le> delta g larger e" if "e < length (g_edges g)" for e
    using assms(2) edge_time(1) [OF assms(1) that] by (auto simp: delta_def Let_def intro!: mult_left_mono)
  have at: "fst (replay g smaller res) ! v \<le> fst (replay g larger res) ! v" if "v \<in> set (g_order g)" for v
    using assms(1) that
  proof (induction rule: position_induct)
    case (before v)
    have "Max ((\<lambda>e. fst (replay g smaller res) ! e_src (edge_of g e) + delta g smaller e) ` set (enabled_in g v)) \<le>
        Max ((\<lambda>e. fst (replay g larger res) ! e_src (edge_of g e) + delta g larger e) ` set (enabled_in g v))"
      if "enabled_in g v \<noteq> []"
      using that before(2) delta enabled_in_iff [OF assms(1) order_node [OF assms(1) before(1)]]
      by (intro Max_image_mono) (auto intro!: add_mono)
    then show ?case
      unfolding replay_at_nodes [OF assms(1) before(1), of smaller] replay_at_nodes [OF assms(1) before(1), of larger]
      by (simp add: replay_at_def allowed_at_eq)
  qed
  have "insert 0 ((\<lambda>v. fst (replay g scale res) ! v) ` set (g_order g)) =
      (\<lambda>x. case x of None \<Rightarrow> 0 | Some v \<Rightarrow> fst (replay g scale res) ! v) ` insert None (Some ` set (g_order g))" for scale
    by (simp add: image_image)
  then have "snd (replay g smaller res) \<le> snd (replay g larger res)"
    unfolding replay_end [OF assms(1)] using at by (simp only:) (rule Max_image_mono; auto)
  with at show ?thesis by blast
qed

lemma replay_monotone_witness:
  "snd (replay demo_built [(2, 0)] (residuals demo_built)) = 40 \<and>
   snd (replay demo_built [(2, 0)] (residuals demo_built)) \<le> snd (replay demo_built [] (residuals demo_built))"
proof -
  have v: "snd (replay demo_built [(2, 0)] (residuals demo_built)) = 40" by code_simp
  have "dict_get [(2, 0)] j (1 :: rat) \<le> dict_get [] j 1" for j :: nat by (simp add: dict_get_def)
  from replay_monotone [OF demo_is_built this] v show ?thesis by blast
qed

end
