(* ===== verification/Model_Result.thy ===== *)
theory Model_Result
  imports Attribution
begin

text \<open>
  \<open>analyze_model\<close> of \<^verbatim>\<open>src/src/analysis/cp_model.py\<close>: the evidence behind the graph's edges, the
  alternatives, the counterfactuals and the result that puts them together with the composition
  of the observed path.
\<close>

section \<open>Evidence\<close>

record graph_evidence =
  ev_prov :: "(prov, int) dict"
  ev_class :: "(evidence, int) dict"
  ev_tier :: "(conf, int) dict"
  ev_kind :: "(ekind, int) dict"
  ev_rooted :: int
  ev_dropped :: "(ekind, int) dict"
  ev_in_cycles :: int
  ev_clock_contradicted :: int
  ev_improper :: int
  ev_unmapped :: "(string, int) dict"

definition evidence_step :: "event_graph \<Rightarrow> nat \<Rightarrow> graph_evidence \<Rightarrow> graph_evidence" where
  "evidence_step g e r =
     (let x = edge_of g e in
      if \<not> g_enabled g ! e \<or> \<not> (e_mode x = DEP \<or> e_mode x = IDLE) then r
      else r\<lparr>ev_prov := dict_add (e_prov x) 1 (ev_prov r),
             ev_class := dict_add (edge_class (e_prov x) (e_conf x)) 1 (ev_class r),
             ev_tier := dict_add (e_conf x) 1 (ev_tier r),
             ev_kind := dict_add (e_kind x) 1 (ev_kind r),
             ev_rooted := ev_rooted r + (if e_kind x = Arrival \<and> g_rooted g ! (e_dst x div 2) then 1 else 0)\<rparr>)"

definition evidence_of :: "event_graph \<Rightarrow> graph_evidence" where
  "evidence_of g = fold (evidence_step g) [0..<length (g_edges g)]
     \<lparr>ev_prov = [], ev_class = [], ev_tier = [], ev_kind = [], ev_rooted = 0, ev_dropped = g_dropped g,
      ev_in_cycles = g_cycle_edges_dropped g, ev_clock_contradicted = g_clock_contradicted g,
      ev_improper = g_improper_nesting g, ev_unmapped = g_unmapped g\<rparr>"

section \<open>Alternatives\<close>

record variant =
  va_covered :: int
  va_spans :: nat
  va_first :: "int option"
  va_same :: bool
  va_modeled :: int
  va_gaps :: bool
  va_direct :: bool
  va_gated :: bool

definition variant_walk :: "event_graph \<Rightarrow> cwalk \<Rightarrow> string \<times> bool \<times> bool \<times> bool \<Rightarrow> cwalk" where
  "variant_walk g w x =
     (case x of (nm, gaps, direct, gated) \<Rightarrow>
        if nm = ''default'' then w else walk g \<lparr>gap_as_work = gaps, direct_only = direct, gated_hi = gated\<rparr>)"

definition variant_modeled :: "event_graph \<Rightarrow> string \<times> bool \<times> bool \<times> bool \<Rightarrow> int" where
  "variant_modeled g x =
     (case x of (nm, gaps, direct, gated) \<Rightarrow>
        if g_order g \<noteq> [] then snd (longest g gaps direct None gated) else 0)"

definition every_span :: "event_graph \<Rightarrow> cwalk \<Rightarrow> nat set" where
  "every_span g w = \<Inter> (set (map (\<lambda>x. walk_spans g (variant_walk g w x)) VARIANTS))"

definition some_span :: "event_graph \<Rightarrow> cwalk \<Rightarrow> nat set" where
  "some_span g w = \<Union> (set (map (\<lambda>x. walk_spans g (variant_walk g w x)) VARIANTS))"

definition owned_step :: "event_graph \<Rightarrow> nat \<times> int \<Rightarrow> (nat, int) dict \<Rightarrow> (nat, int) dict" where
  "owned_step g ens d =
     (if owned_mode (e_mode (edge_of g (fst ens))) then dict_add (the (e_owner (edge_of g (fst ens)))) (snd ens) d else d)"

definition variant_only_ns :: "event_graph \<Rightarrow> cwalk \<Rightarrow> int" where
  "variant_only_ns g w =
     sum_list (map snd (filter (\<lambda>(j, ns). j \<notin> every_span g w) (fold (owned_step g) (zip (w_steps w) (w_cover w)) [])))"

definition variant_of :: "event_graph \<Rightarrow> cwalk \<Rightarrow> string \<times> bool \<times> bool \<times> bool \<Rightarrow> variant" where
  "variant_of g w x =
     (case x of (nm, gaps, direct, gated) \<Rightarrow>
        (let v = variant_walk g w x; s = walk_spans g v in
         \<lparr>va_covered = walk_length v, va_spans = card s, va_first = map_option (time_of g) (w_first v),
          va_same = (s = walk_spans g w), va_modeled = variant_modeled g x, va_gaps = gaps, va_direct = direct,
          va_gated = gated\<rparr>))"

definition modeled_range :: "event_graph \<Rightarrow> int \<Rightarrow> int \<times> int" where
  "modeled_range g modeled =
     (let vals = map (variant_modeled g) VARIANTS @ (if g_order g \<noteq> [] then [modeled] else [])
      in (Min (set vals), Max (set vals)))"

section \<open>Counterfactuals\<close>

record counterfactual =
  cf_single :: bool
  cf_category :: string
  cf_name :: string
  cf_spans :: "nat list"
  cf_work :: int
  cf_on_every :: bool
  cf_slack :: int
  cf_modeled :: int
  cf_replay :: int

definition replayed :: "event_graph \<Rightarrow> int list \<Rightarrow> int \<Rightarrow> nat list \<Rightarrow> int" where
  "replayed g resid T zero = py_round (of_int T - snd (replay g (map (\<lambda>j. (j, 0)) zero) resid))"

definition span_key :: "event_graph \<Rightarrow> nat \<Rightarrow> string \<times> string" where
  "span_key g j = (g_cat g ! j, g_name g ! j)"

definition work_by_name :: "event_graph \<Rightarrow> criticality \<Rightarrow> (string \<times> string, int) dict" where
  "work_by_name g c = fold (\<lambda>(j, ns). dict_add (span_key g j) ns) (cr_work c) []"

definition top_names :: "event_graph \<Rightarrow> criticality \<Rightarrow> nat \<Rightarrow> ((string \<times> string) \<times> int) list" where
  "top_names g c k = take k (sort_key (\<lambda>kv. - snd kv) (work_by_name g c))"

definition members_of :: "event_graph \<Rightarrow> string \<times> string \<Rightarrow> nat list" where
  "members_of g key = filter (\<lambda>j. span_key g j = key \<and> \<not> g_excluded g ! j) [0..<g_n g]"

definition top_singles :: "criticality \<Rightarrow> nat \<Rightarrow> (nat \<times> int) list" where
  "top_singles c k = take k (sort_key (\<lambda>kv. (fst kv \<notin> set (cr_on_all c), - snd kv)) (cr_work c))"

definition sensitivity :: "event_graph \<Rightarrow> criticality \<Rightarrow> int \<Rightarrow> nat \<Rightarrow> counterfactual list" where
  "sensitivity g c len k =
     (if k = 0 \<or> cr_work c = [] then []
      else
        (let resid = residuals g; T = run_end g in
         map (\<lambda>(key, ns). let m = members_of g key in
                \<lparr>cf_single = False, cf_category = fst key, cf_name = snd key, cf_spans = m, cf_work = ns,
                 cf_on_every = False, cf_slack = 0,
                 cf_modeled = len - snd (longest g True False (Some (set m)) False), cf_replay = replayed g resid T m\<rparr>)
             (top_names g c k) @
         map (\<lambda>(j, ns).
                \<lparr>cf_single = True, cf_category = g_cat g ! j, cf_name = g_name g ! j, cf_spans = [j], cf_work = ns,
                 cf_on_every = j \<in> set (cr_on_all c),
                 cf_slack = (case sv_get (cr_slack c) j of None \<Rightarrow> 0 | Some s \<Rightarrow> s),
                 cf_modeled = len - snd (longest g True False (Some {j}) False), cf_replay = replayed g resid T [j]\<rparr>)
             (top_singles c k)))"

section \<open>The result\<close>

record model_result =
  m_covered :: int
  m_composition :: composition
  m_rows :: "path_row list"
  m_path_spans :: "(nat, span_row) dict"
  m_evidence :: graph_evidence
  m_covered_range :: "int \<times> int"
  m_modeled :: int
  m_unrecorded_idle :: int
  m_direct_only :: int
  m_gated_tail :: int
  m_crit :: "criticality option"
  m_sensitivity :: "counterfactual list"
  m_blame :: "blame option"
  m_stable_spans :: nat
  m_variant_only_spans :: nat
  m_variant_only_ns :: int
  m_variants :: "(string \<times> variant) list"
  m_modeled_range :: "int \<times> int"

definition sensitivity_count :: "event_graph \<Rightarrow> int option \<Rightarrow> int \<Rightarrow> nat" where
  "sensitivity_count g k limit =
     (case k of None \<Rightarrow> (if 2 * int (g_n g) > limit then 0 else 5) | Some k \<Rightarrow> nat k)"

definition analyze_model :: "event_graph \<Rightarrow> int option \<Rightarrow> int \<Rightarrow> model_result" where
  "analyze_model g k limit =
     (let w = walk g default_mode; FL = longest g True False None False;
          full = g_order g \<noteq> []; c = criticality_of g (fst FL) (snd FL) in
      \<lparr>m_covered = walk_length w, m_composition = compose g w, m_rows = path_rows g w, m_path_spans = span_view g w,
       m_evidence = evidence_of g, m_covered_range = covered_range g w,
       m_modeled = (if full then snd FL else 0),
       m_unrecorded_idle = (if full then snd (longest g False False None False) else 0),
       m_direct_only = (if full then snd (longest g True True None False) else 0),
       m_gated_tail = (if full then snd (longest g True False None True) else 0),
       m_crit = (if full then Some c else None),
       m_sensitivity = (if full then sensitivity g c (snd FL) (sensitivity_count g k limit) else []),
       m_blame = (if full \<and> 2 * int (g_n g) \<le> limit then Some (blame_of g 1000 4 4096) else None),
       m_stable_spans = card (every_span g w), m_variant_only_spans = card (some_span g w - every_span g w),
       m_variant_only_ns = variant_only_ns g w,
       m_variants = map (\<lambda>x. (fst x, variant_of g w x)) VARIANTS,
       m_modeled_range = modeled_range g (snd FL)\<rparr>)"

section \<open>Sums over a path\<close>

text \<open>The sum of a weight of a dictionary's values.\<close>

definition dict_sum :: "('v \<Rightarrow> int) \<Rightarrow> ('k, 'v) dict \<Rightarrow> int" where
  "dict_sum f d = sum_list (map (\<lambda>p. f (snd p)) d)"

lemma dict_sum_update:
  "dict_sum f (AList.update k v d) = dict_sum f d + f v - (case map_of d k of None \<Rightarrow> 0 | Some x \<Rightarrow> f x)"
proof (induction d)
  case (Cons p d)
  then show ?case by (cases p) (auto simp: dict_sum_def)
qed (simp add: dict_sum_def)

definition row_ns :: "span_row \<Rightarrow> int" where
  "row_ns r = (case r of (own, gap, k, c) \<Rightarrow> own + gap)"

lemma intro_sum [simp]: "dict_sum row_ns (intro j k c d) = dict_sum row_ns d"
  by (simp add: intro_def dict_sum_update row_ns_def)

lemma credit_sum [simp]: "dict_sum row_ns (credit j own gap d) = dict_sum row_ns d + own + gap"
  by (cases "map_of d j") (auto simp: credit_def dict_get_def dict_sum_update row_ns_def split: prod.splits)

lemma span_step_sum: "dict_sum row_ns (span_step g ens d) = dict_sum row_ns d + snd ens"
  by (cases ens) (simp add: span_step_def Let_def)

definition rows_ns :: "path_row list \<Rightarrow> int" where
  "rows_ns rows = sum_list (map (\<lambda>r. pr_own_ns r + pr_other_ns r) rows)"

lemma row_step_sum: "rows_ns (row_step g ens rows) = rows_ns rows + snd ens"
proof -
  obtain e ns where ens: "ens = (e, ns)" by (cases ens)
  show ?thesis
  proof (cases rows rule: rev_cases)
    case Nil
    then show ?thesis by (simp add: ens row_step_def rows_ns_def Let_def)
  next
    case (snoc ys y)
    then show ?thesis by (simp add: ens row_step_def rows_ns_def Let_def)
  qed
qed

definition composed_ns :: "composition \<Rightarrow> int" where
  "composed_ns c = dict_total (co_work c) + dict_total (co_in_call c) + dict_total (co_unmatched c) +
     co_unrecorded c + co_idle c + dict_total (co_dep_kind c)"

lemma compose_step_sums:
  "composed_ns (compose_step g ens c) = composed_ns c + snd ens"
  "dict_total (co_tier (compose_step g ens c)) = dict_total (co_tier c) + snd ens"
  "dict_total (co_class (compose_step g ens c)) = dict_total (co_class c) + snd ens"
  "dict_total (co_prov_ns (compose_step g ens c)) = dict_total (co_prov_ns c) + snd ens"
  "dict_total (co_prov_steps (compose_step g ens c)) = dict_total (co_prov_steps c) + 1"
  by (cases ens; cases "e_mode (edge_of g (fst ens))";
      simp add: compose_step_def compose_mode_def composed_ns_def Let_def)+

lemma fold_sum:
  assumes "\<And>x s. m (f x s) = m s + (h x :: int)"
  shows "m (fold f xs s) = m s + sum_list (map h xs)"
  using assms by (induction xs arbitrary: s) auto

lemma walk_lengths: "built g \<Longrightarrow> length (w_cover (walk g m)) = length (w_steps (walk g m))"
proof (cases "g_order g = []")
  case True
  then show ?thesis using last_events_none [of g] by (simp add: walk_def empty_walk_def)
next
  case False
  assume "built g"
  then show ?thesis by (rule walk_spec [OF _ False, of m])
qed

lemma path_sums:
  assumes "built g"
  shows "let w = walk g m; c = compose g w in
    dict_total (co_work c) + dict_total (co_in_call c) + dict_total (co_unmatched c) + co_unrecorded c + co_idle c
      + dict_total (co_dep_kind c) = walk_length w \<and>
    dict_total (co_tier c) = walk_length w \<and> dict_total (co_class c) = walk_length w \<and>
    dict_total (co_prov_ns c) = walk_length w \<and> dict_total (co_prov_steps c) = int (length (w_steps w)) \<and>
    rows_ns (path_rows g w) = walk_length w \<and> dict_sum row_ns (span_view g w) = walk_length w"
proof -
  define w where "w = walk g m"
  let ?z = "zip (w_steps w) (w_cover w)"
  have len: "length (w_cover w) = length (w_steps w)" unfolding w_def by (rule walk_lengths [OF assms])
  then have ns: "sum_list (map snd ?z) = walk_length w" by (simp add: walk_length_def)
  have steps: "sum_list (map (\<lambda>_. 1) ?z) = int (length (w_steps w))" using len by (simp add: sum_list_triv)
  have empty: "composed_ns empty_composition = 0" "rows_ns [] = 0" "co_tier empty_composition = []"
    "co_class empty_composition = []" "co_prov_ns empty_composition = []" "co_prov_steps empty_composition = []"
    by (simp_all add: composed_ns_def empty_composition_def rows_ns_def)
  have "dict_sum row_ns (span_view g w) =
      dict_sum row_ns (case w_first w of None \<Rightarrow> [] | Some v \<Rightarrow> intro (v div 2) [] [] []) + sum_list (map snd ?z)"
    unfolding span_view_def by (rule fold_sum [of "dict_sum row_ns" "span_step g" snd, OF span_step_sum])
  moreover have "dict_sum row_ns (case w_first w of None \<Rightarrow> [] | Some v \<Rightarrow> intro (v div 2) [] [] []) = 0"
    by (simp add: dict_sum_def split: option.split) (simp add: intro_def row_ns_def)
  ultimately have spans: "dict_sum row_ns (span_view g w) = walk_length w" using ns by simp
  have rows: "rows_ns (path_rows g w) = walk_length w"
    using fold_sum [of rows_ns "row_step g" snd, OF row_step_sum, of ?z "[]"] ns empty by (simp add: path_rows_def)
  note c = fold_sum [of composed_ns "compose_step g" snd, OF compose_step_sums(1), of ?z empty_composition]
    fold_sum [of "\<lambda>c. dict_total (co_tier c)" "compose_step g" snd, OF compose_step_sums(2), of ?z empty_composition]
    fold_sum [of "\<lambda>c. dict_total (co_class c)" "compose_step g" snd, OF compose_step_sums(3), of ?z empty_composition]
    fold_sum [of "\<lambda>c. dict_total (co_prov_ns c)" "compose_step g" snd, OF compose_step_sums(4), of ?z empty_composition]
    fold_sum [of "\<lambda>c. dict_total (co_prov_steps c)" "compose_step g" "\<lambda>_. 1", OF compose_step_sums(5), of ?z empty_composition]
  show ?thesis
    using c spans rows ns steps empty unfolding w_def [symmetric] Let_def compose_def [symmetric] composed_ns_def
    by (simp add: empty_composition_def)
qed

section \<open>Properties\<close>

text \<open>
  C28. The time the observed path covers is accounted for completely, in every view: the
  composition by kind of time, the evidence tiers, classes and provenances, the merged rows and
  the span view each add up to the path's length, and the provenances count every step.
\<close>

theorem path_accounted:
  assumes "built g"
  shows "let w = walk g m; c = compose g w in
    dict_total (co_work c) + dict_total (co_in_call c) + dict_total (co_unmatched c) + co_unrecorded c + co_idle c
      + dict_total (co_dep_kind c) = walk_length w \<and>
    dict_total (co_tier c) = walk_length w \<and> dict_total (co_class c) = walk_length w \<and>
    dict_total (co_prov_ns c) = walk_length w \<and> dict_total (co_prov_steps c) = int (length (w_steps w)) \<and>
    rows_ns (path_rows g w) = walk_length w \<and> dict_sum row_ns (span_view g w) = walk_length w"
  by (rule path_sums [OF assms])

lemma path_accounted_witness:
  "dict_total (co_work (compose demo_built (walk demo_built default_mode))) = 60 \<and>
   walk_length (walk demo_built default_mode) = 100 \<and>
   rows_ns (path_rows demo_built (walk demo_built default_mode)) = 100"
proof -
  have c: "dict_total (co_work (compose demo_built (walk demo_built default_mode))) = 60" by code_simp
  have "walk_length (walk demo_built default_mode) = 100" using demo_walk by (simp add: walk_length_def)
  with path_accounted [OF demo_is_built, of default_mode] c show ?thesis by (simp add: Let_def)
qed

end
