(* ===== verification/Trace_Report.thy ===== *)
theory Trace_Report
  imports Streamed_Facts Model_Result
begin

text \<open>
  From a stored trace to its critical-path report: \<open>analyze\<close> and \<open>annotation_time_on_path\<close> of
  \<^verbatim>\<open>src/src/analysis/criticalpath.py\<close> over the persisted graph, \<open>_read_spans\<close>,
  \<open>build_event_graph\<close> and \<open>analyze_model\<close>. The theorems hold for every trace: a graph read back from
  the store is the graph of its present events, the event graph built from it is well formed, the
  report accounts for the whole path, and a program range gets the path time begun inside it.
\<close>

section \<open>The event graph of a trace\<close>

definition trace_event_graph :: "rat option list \<Rightarrow> trace_state \<Rightarrow> dep_graph \<Rightarrow> bool \<Rightarrow> event_graph option" where
  "trace_event_graph nbs t dg clocks =
     map_option (\<lambda>sk. build_event_graph sk (map edge_of_row (dg_edges dg)) clocks)
       (read_spans (length (dg_seqs dg)) nbs (run_query t any_span))"

section \<open>Time of the path inside program ranges\<close>

type_synonym prange = "int \<times> int \<times> string"

definition annotation_ranges :: "trace_state \<Rightarrow> (int \<times> int, prange list) dict" where
  "annotation_ranges t =
     map (\<lambda>(k, as). (k, map (\<lambda>a. (start_ns a, end_ns a, name a)) as))
       (group_by (\<lambda>a. (pid a, tid a))
         (filter (\<lambda>a. is_annotation a \<and> duration_ns a > 0) (run_query t (any_span\<lparr>q_categories := Some [''nvtx'', ''other'']\<rparr>))))"

text \<open>A step of the path: the start of its span and the time credited to it with the gap before it.\<close>

definition path_steps :: "span_event list \<Rightarrow> (int \<times> int, prange list) dict \<Rightarrow> (nat \<times> int) list \<Rightarrow> (int \<times> int, (int \<times> int) list) dict" where
  "path_steps ss ranges timed =
     map (\<lambda>(k, ps). (k, map (\<lambda>(i, ns). (start_ns (ss ! i), ns)) ps))
       (group_by (\<lambda>(i, ns). (pid (ss ! i), tid (ss ! i)))
         (filter (\<lambda>(i, ns). map_of ranges (pid (ss ! i), tid (ss ! i)) \<noteq> None) timed))"

fun range_sweep :: "prange list \<Rightarrow> (int \<times> string) list \<Rightarrow> (int \<times> int) list \<Rightarrow> (string, int) dict \<Rightarrow> (string, int) dict" where
  "range_sweep rs open_rs [] out = out"
| "range_sweep rs open_rs ((t, ns) # pts) out =
     (let begun = takeWhile (\<lambda>r. fst r \<le> t) rs;
          open_rs = filter (\<lambda>r. fst r > t) (open_rs @ map snd begun)
      in range_sweep (dropWhile (\<lambda>r. fst r \<le> t) rs) open_rs pts (fold (\<lambda>r. dict_add (snd r) ns) open_rs out))"

definition annotation_time :: "trace_state \<Rightarrow> (nat \<times> int) list \<Rightarrow> (string, int) dict" where
  "annotation_time t timed =
     (let ranges = annotation_ranges t in
      if timed = [] \<or> ranges = [] then []
      else fold (\<lambda>(k, pts). range_sweep (sort (the (map_of ranges k))) [] (sort pts))
             (path_steps (run_query t any_span) ranges timed) [])"

section \<open>The report\<close>

record path_report =
  rp_path :: "nat list"
  rp_wall :: int
  rp_on_path :: "(string, int) dict"
  rp_waited :: "(string, int) dict"
  rp_total :: int
  rp_confs :: "string list"
  rp_kinds :: "string list"
  rp_credited :: "int list"
  rp_gaps :: "int list"
  rp_by_annotation :: "(string, int) dict"
  rp_blame :: "(string, int) dict"
  rp_model :: model_result

definition add_times :: "(string, int) dict \<Rightarrow> (string, int) dict \<Rightarrow> (string, int) dict" where
  "add_times cats d = fold (\<lambda>(c, ns). dict_add c ns) cats d"

definition on_path_times :: "composition \<Rightarrow> (string, int) dict" where
  "on_path_times c = add_times (co_unmatched c) (add_times (co_in_call c) (add_times (co_work c) []))"

definition waited_step :: "event_graph \<Rightarrow> nat \<times> int \<Rightarrow> (string, int) dict \<Rightarrow> (string, int) dict" where
  "waited_step g ens d =
     (let (e, ns) = ens; x = edge_of g e in
      if (e_mode x = DEP \<or> e_mode x = IDLE) \<and> ns \<noteq> 0 then dict_add (g_cat g ! (e_src x div 2)) ns d else d)"

definition waited_times :: "event_graph \<Rightarrow> cwalk \<Rightarrow> composition \<Rightarrow> (string, int) dict" where
  "waited_times g w c =
     (let d = fold (waited_step g) (zip (w_steps w) (w_cover w)) [] in
      if co_unrecorded c \<noteq> 0 then dict_add ''(unrecorded)'' (co_unrecorded c) d else d)"

definition wall_time :: "trace_state \<Rightarrow> int" where
  "wall_time t = (case span_extent (run_query t) True of None \<Rightarrow> 1 | Some (lo, hi) \<Rightarrow> max 1 (hi - lo))"

definition report_of :: "trace_state \<Rightarrow> event_graph \<Rightarrow> int option \<Rightarrow> path_report" where
  "report_of t g sens =
     (let w = walk g default_mode; m = analyze_model g sens 4000000; c = m_composition m; view = m_path_spans m;
          credited = map (\<lambda>(j, own, gap, k, cf). own) view; gaps = map (\<lambda>(j, own, gap, k, cf). gap) view
      in \<lparr>rp_path = map fst view, rp_wall = wall_time t, rp_on_path = on_path_times c, rp_waited = waited_times g w c,
          rp_total = m_covered m, rp_confs = tl (map (\<lambda>(j, own, gap, k, cf). cf) view),
          rp_kinds = tl (map (\<lambda>(j, own, gap, k, cf). k) view), rp_credited = credited, rp_gaps = gaps,
          rp_by_annotation = annotation_time t (zip (map fst view) (map (\<lambda>(a, b). a + b) (zip credited gaps))),
          rp_blame = (case m_blame m of None \<Rightarrow> [] | Some b \<Rightarrow> map (\<lambda>(k, v). (k, py_round v)) (by_category g b)),
          rp_model = m\<rparr>)"

definition analyze :: "rat option list \<Rightarrow> trace_state \<Rightarrow> bool \<Rightarrow> int option \<Rightarrow> edge_cache \<Rightarrow> path_report option \<times> edge_cache" where
  "analyze nbs t exact_p2p sens cache =
     (let (dg, cache) = load_or_build_graph t exact_p2p cache
      in (map_option (\<lambda>g. report_of t g sens) (trace_event_graph nbs t dg True), cache))"

text \<open>The share of the communication time that is on the path, for \<^verbatim>\<open>pop_efficiency.py\<close>.\<close>

type_synonym identity_key = "int \<times> int \<times> string \<times> int \<times> int \<times> string"

definition span_identity_key :: "span_event \<Rightarrow> identity_key" where
  "span_identity_key s = (pid s, tid s, category_value (category s), start_ns s, duration_ns s, name s)"

definition own_path_time :: "span_event list \<Rightarrow> path_report \<Rightarrow> nat \<times> nat \<Rightarrow> int" where
  "own_path_time ss r p =
     (let (pos, i) = p;
          ns = (if pos < length (rp_credited r) then rp_credited r ! pos else duration_ns (ss ! i))
      in if pos > 0 \<and> pos - 1 < length (rp_kinds r) \<and> rp_kinds r ! (pos - 1) \<in> {''p2p'', ''arrival''} \<and> pos < length (rp_gaps r)
         then ns + rp_gaps r ! pos else ns)"

definition identity_times :: "span_event list \<Rightarrow> path_report \<Rightarrow> (identity_key, int) dict" where
  "identity_times ss r =
     fold (\<lambda>(pos, i). dict_add (span_identity_key (ss ! i)) (own_path_time ss r (pos, i))) (List.enumerate 0 (rp_path r)) []"

definition serialization_efficiency :: "span_event list \<Rightarrow> path_report \<Rightarrow> span_event list \<Rightarrow> rat option" where
  "serialization_efficiency ss r comm =
     (let total = sum_list (map duration_ns comm); on_path = identity_times ss r in
      if comm = [] \<or> total \<le> 0 then None
      else Some (min 1 (of_int (sum_list (map (\<lambda>s. min (duration_ns s) (dict_get on_path (span_identity_key s) 0)) comm)) / of_int total)))"

lemma identity_time:
  "dict_get (identity_times ss r) k 0 =
     sum_list (map (own_path_time ss r) (filter (\<lambda>(pos, i). span_identity_key (ss ! i) = k) (List.enumerate 0 (rp_path r))))"
proof -
  have "dict_get (fold (\<lambda>(pos, i). dict_add (span_identity_key (ss ! i)) (own_path_time ss r (pos, i))) xs d) k 0 =
      dict_get d k 0 + sum_list (map (own_path_time ss r) (filter (\<lambda>(pos, i). span_identity_key (ss ! i) = k) xs))" for xs d
    by (induction xs arbitrary: d) auto
  then show ?thesis by (simp add: identity_times_def)
qed

section \<open>Stores with their persisted edges\<close>

inductive store_write :: "memory_store \<Rightarrow> memory_store \<Rightarrow> bool" where
  app: "next_seq st < 2 ^ 36 \<Longrightarrow> store_write st (snd (store_append ev st))"
| upd: "event_by_id st (eid s) = Some (SpanEv cur) \<Longrightarrow> seq s = seq cur \<Longrightarrow> store_update_span s st = Some st'
    \<Longrightarrow> store_write st st'"
| del: "eids \<noteq> [] \<Longrightarrow> \<forall>e\<in>set eids. \<exists>s. event_by_id st e = Some (SpanEv s) \<Longrightarrow> store_write st (store_delete_spans eids st)"

lemma store_write_reach: "store_write st st' \<Longrightarrow> store_reach st \<Longrightarrow> store_reach st'"
  by (induction rule: store_write.induct) (auto intro: store_reach.intros)

text \<open>A write clears what was derived from the events; loading a graph keeps it.\<close>

inductive cached_reach :: "trace_state \<Rightarrow> edge_cache \<Rightarrow> bool" where
  new: "cached_reach \<lparr>ts_store = empty_store, ts_health = h\<rparr> []"
| wrote: "cached_reach t cache \<Longrightarrow> store_write (ts_store t) st \<Longrightarrow> cached_reach (t\<lparr>ts_store := st\<rparr>) []"
| load: "cached_reach t cache \<Longrightarrow> load_or_build_graph t exact_p2p cache = (dg, cache') \<Longrightarrow> cached_reach t cache'"

definition cache_current :: "trace_state \<Rightarrow> edge_cache \<Rightarrow> bool" where
  "cache_current t cache \<longleftrightarrow>
     (\<forall>x es. map_of cache (edges_version x) = Some es \<longrightarrow> es = map edge_row_of (build_edges t x))"

lemma edges_version_eq [simp]: "edges_version x = edges_version y \<longleftrightarrow> x = y"
  by (auto simp: edges_version_def)

lemma load_current:
  assumes "cache_current t cache" "load_or_build_graph t x cache = (dg, cache')"
  shows "dg = \<lparr>dg_seqs = span_seqs (ts_store t), dg_edges = map edge_row_of (build_edges t x)\<rparr>"
    "cache_current t cache'" "map_of cache' (edges_version x) = Some (dg_edges dg)"
proof -
  show "dg = \<lparr>dg_seqs = span_seqs (ts_store t), dg_edges = map edge_row_of (build_edges t x)\<rparr>"
    using assms by (auto simp: cache_current_def load_or_build_graph_def Let_def split: option.splits)
  show "cache_current t cache'"
    using assms
    by (auto simp: cache_current_def load_or_build_graph_def Let_def update_conv' split: option.splits if_splits)
  show "map_of cache' (edges_version x) = Some (dg_edges dg)"
    using assms(2) by (auto simp: load_or_build_graph_def Let_def update_conv' split: option.splits)
qed

lemma cached_reach_facts: "cached_reach t cache \<Longrightarrow> store_reach (ts_store t) \<and> cache_current t cache"
proof (induction rule: cached_reach.induct)
  case (new h)
  then show ?case by (simp add: store_reach.init cache_current_def)
next
  case (wrote t cache st)
  then show ?case using store_write_reach by (auto simp: cache_current_def)
next
  case (load t cache exact_p2p dg cache')
  then show ?case using load_current(2) by blast
qed

section \<open>Loaded graphs\<close>

lemma span_seqs_length [simp]: "length (span_seqs st) = length (m_spans st)"
  by (simp add: span_seqs_def)

lemma graph_typed:
  assumes "cached_reach t cache" "load_or_build_graph t x cache = (dg, cache')"
  shows "typed_edges (length (dg_seqs dg)) (map edge_of_row (dg_edges dg))"
proof -
  have "store_ok (ts_store t)" using cached_reach_facts [OF assms(1)] store_reach_ok by blast
  from build_edges_typed [OF this, of x]
  have "typed_edges (length (span_seqs (ts_store t))) (map edge_of_row (map edge_row_of (build_edges t x)))"
    unfolding rows_edges by simp
  then show ?thesis using load_current(1) [OF _ assms(2)] cached_reach_facts [OF assms(1)] by simp
qed

lemma loaded_path:
  assumes "cached_reach t cache" "load_or_build_graph t x cache = (dg, cache')"
  shows "graph_critical_path t dg = span_critical_path (all_items t) (build_edges t x)"
proof -
  have ok: "store_ok (ts_store t)" using cached_reach_facts [OF assms(1)] store_reach_ok by blast
  have dg: "dg_edges dg = map edge_row_of (build_edges t x)"
    using load_current(1) [OF _ assms(2)] cached_reach_facts [OF assms(1)] by simp
  show ?thesis
    unfolding graph_critical_path_def dg whole_query [OF ok] all_items_def
    by (rule dp_arrays_same [OF build_edges_typed [OF ok]])
qed

lemma trace_graph_built:
  assumes "cached_reach t cache" "load_or_build_graph t x cache = (dg, cache')" "trace_event_graph nbs t dg clocks = Some g"
  shows "built g"
proof -
  obtain sk where sk: "read_spans (length (dg_seqs dg)) nbs (run_query t any_span) = Some sk"
    "g = build_event_graph sk (map edge_of_row (dg_edges dg)) clocks"
    using assms(3) by (auto simp: trace_event_graph_def)
  have n: "sk_n sk = length (dg_seqs dg)"
    using read_spans_ok(2) [OF sk(1)] sk(1) read_spans_Some [of "length (dg_seqs dg)" nbs "run_query t any_span"] by simp
  have "sedges_ok sk (map edge_of_row (dg_edges dg))"
    using graph_typed [OF assms(1,2)] n unfolding sedges_ok_def typed_edges_def by simp
  then show ?thesis unfolding sk(2) by (rule build_built [OF read_spans_ok(1) [OF sk(1)]])
qed

lemma trace_spans_read:
  assumes "cached_reach t cache" "load_or_build_graph t x cache = (dg, cache')"
  shows "read_spans (length (dg_seqs dg)) nbs (run_query t any_span) \<noteq> None \<longleftrightarrow>
    (\<forall>s\<in>set (m_spans (ts_store t)). domain_of s (node_bounds_of nbs) \<noteq> None \<and> list_all fits64 (span_times s))"
proof -
  have ok: "store_ok (ts_store t)" using cached_reach_facts [OF assms(1)] store_reach_ok by blast
  have "length (dg_seqs dg) = length (m_spans (ts_store t))"
    using load_current(1) [OF _ assms(2)] cached_reach_facts [OF assms(1)] by simp
  then show ?thesis
    using read_spans_Some [of "length (dg_seqs dg)" nbs "m_spans (ts_store t)"]
    by (simp add: whole_query [OF ok])
qed

text \<open>A view's communication edges are those of the current graph, whether they were built or read.\<close>

lemma comm_rows_of: "comm_rows (map edge_row_of edges) = map edge_row_of (filter (\<lambda>e. s_kind e \<in> {S_p2p, S_arrival}) edges)"
proof -
  have "code_of EDGE_KINDS k \<in> {code_of EDGE_KINDS S_p2p, code_of EDGE_KINDS S_arrival} \<longleftrightarrow> k \<in> {S_p2p, S_arrival}" for k
    by (cases k) (simp_all add: code_of_def EDGE_KINDS_def)
  then show ?thesis unfolding comm_rows_def filter_map comp_def by (simp add: edge_row_of_def)
qed

lemma comm_graph_current:
  assumes "cached_reach t cache" "load_comm_graph t x k cache = (Some dg, cache')"
  shows "dg_edges dg = map edge_row_of (filter (\<lambda>e. s_kind e \<in> {S_p2p, S_arrival}) (build_edges t x))"
proof -
  have c: "cache_current t cache" using cached_reach_facts [OF assms(1)] by blast
  show ?thesis
  proof (cases "map_of cache (edges_version x)")
    case None
    obtain full cache'' where f: "load_or_build_graph t x cache = (full, cache'')" by force
    have "dg_edges full = map edge_row_of (build_edges t x)" using load_current(1) [OF c f] by simp
    then show ?thesis using assms(2) None f by (auto simp: load_comm_graph_def comm_rows_of split: if_splits)
  next
    case (Some es)
    then have "es = map edge_row_of (build_edges t x)" using c by (simp add: cache_current_def)
    then show ?thesis using assms(2) Some by (auto simp: load_comm_graph_def Let_def comm_rows_of)
  qed
qed

section \<open>Sums of the report\<close>

lemma dict_total_Cons [simp]: "dict_total ((k, v) # d) = v + dict_total d"
  by (simp add: dict_total_def)

lemma add_times_total [simp]: "dict_total (add_times cats d) = dict_total d + dict_total cats"
proof (induction cats arbitrary: d)
  case (Cons p cats)
  then show ?case by (cases p) (simp add: add_times_def)
qed (simp add: add_times_def)

text \<open>Time on dependencies and of idle devices.\<close>

definition away :: "event_graph \<Rightarrow> nat \<times> int \<Rightarrow> int" where
  "away g ens = (if e_mode (edge_of g (fst ens)) = DEP \<or> e_mode (edge_of g (fst ens)) = IDLE then snd ens else 0)"

lemma waited_step_total: "dict_total (waited_step g ens d) = dict_total d + away g ens"
  by (cases ens) (simp add: waited_step_def away_def Let_def)

lemma compose_step_away:
  "co_idle (compose_step g ens c) + dict_total (co_dep_kind (compose_step g ens c)) =
     co_idle c + dict_total (co_dep_kind c) + away g ens"
  by (cases ens; cases "e_mode (edge_of g (fst ens))"; simp add: compose_step_def compose_mode_def away_def Let_def)

lemma waited_total:
  "dict_total (waited_times g w (compose g w)) =
     co_unrecorded (compose g w) + co_idle (compose g w) + dict_total (co_dep_kind (compose g w))"
proof -
  let ?z = "zip (w_steps w) (w_cover w)"
  have "dict_total (fold (waited_step g) ?z []) = sum_list (map (away g) ?z)"
    using fold_sum [of dict_total "waited_step g" "away g" ?z "[]", OF waited_step_total] by simp
  moreover have "co_idle (compose g w) + dict_total (co_dep_kind (compose g w)) = sum_list (map (away g) ?z)"
    using fold_sum [of "\<lambda>c. co_idle c + dict_total (co_dep_kind c)" "compose_step g" "away g" ?z empty_composition, OF compose_step_away]
    by (simp add: compose_def empty_composition_def)
  ultimately show ?thesis by (simp add: waited_times_def Let_def)
qed

lemma view_sums:
  "sum_list (map (\<lambda>(j, own, gap, k, cf). own) d) + sum_list (map (\<lambda>(j, own, gap, k, cf). gap) d) = dict_sum row_ns d"
  by (induction d) (auto simp: dict_sum_def row_ns_def)

lemma report_sums:
  assumes "built g"
  shows "dict_total (rp_on_path (report_of t g sens)) + dict_total (rp_waited (report_of t g sens)) = rp_total (report_of t g sens)"
    and "sum_list (rp_credited (report_of t g sens)) + sum_list (rp_gaps (report_of t g sens)) = rp_total (report_of t g sens)"
    and "0 \<le> rp_total (report_of t g sens)"
proof -
  let ?w = "walk g default_mode"
  note p = path_sums [OF assms, of default_mode, unfolded Let_def]
  have r: "rp_total (report_of t g sens) = walk_length ?w"
    "rp_on_path (report_of t g sens) = on_path_times (compose g ?w)"
    "rp_waited (report_of t g sens) = waited_times g ?w (compose g ?w)"
    "rp_credited (report_of t g sens) = map (\<lambda>(j, own, gap, k, cf). own) (span_view g ?w)"
    "rp_gaps (report_of t g sens) = map (\<lambda>(j, own, gap, k, cf). gap) (span_view g ?w)"
    by (simp_all add: report_of_def analyze_model_def Let_def)
  show "dict_total (rp_on_path (report_of t g sens)) + dict_total (rp_waited (report_of t g sens)) = rp_total (report_of t g sens)"
    using p by (simp add: r on_path_times_def waited_total)
  show "sum_list (rp_credited (report_of t g sens)) + sum_list (rp_gaps (report_of t g sens)) = rp_total (report_of t g sens)"
    unfolding r view_sums using p by simp
  show "0 \<le> rp_total (report_of t g sens)"
  proof (cases "g_order g = []")
    case True
    then have "walk g default_mode = empty_walk" using last_events_none [of g] by (simp add: walk_def)
    then show ?thesis by (simp add: r walk_length_def empty_walk_def)
  next
    case False
    have "\<forall>c\<in>set (w_cover ?w). 0 \<le> c" by (rule walk_spec [OF assms False, of default_mode])
    then show ?thesis by (simp add: r walk_length_def sum_list_nonneg)
  qed
qed

section \<open>Time inside program ranges\<close>

text \<open>The ranges of a name open at a time, and the path time they get.\<close>

definition open_at :: "string \<Rightarrow> int \<Rightarrow> prange \<Rightarrow> bool" where
  "open_at nm t r \<longleftrightarrow> fst r \<le> t \<and> t < fst (snd r) \<and> snd (snd r) = nm"

definition open_count :: "prange list \<Rightarrow> string \<Rightarrow> int \<Rightarrow> int" where
  "open_count rs nm t = int (length (filter (open_at nm t) rs))"

definition still_count :: "(int \<times> string) list \<Rightarrow> string \<Rightarrow> int \<Rightarrow> int" where
  "still_count op nm t = int (length (filter (\<lambda>(b, n). t < b \<and> n = nm) op))"

lemma fold_add_names: "dict_get (fold (\<lambda>r. dict_add (snd r) ns) op out) nm 0 = dict_get out nm 0 + ns * int (length (filter (\<lambda>(b, n). n = nm) op))"
  by (induction op arbitrary: out) (auto simp: algebra_simps)

lemma sweep_exact:
  assumes "sorted (map fst rs)" "sorted (map fst pts)"
  shows "dict_get (range_sweep rs op pts out) nm 0 =
    dict_get out nm 0 + sum_list (map (\<lambda>(t, ns). ns * (still_count op nm t + open_count rs nm t)) pts)"
  using assms
proof (induction rs op pts out rule: range_sweep.induct)
  case (2 rs op t ns pts out)
  let ?begun = "takeWhile (\<lambda>r. fst r \<le> t) rs" and ?rest = "dropWhile (\<lambda>r. fst r \<le> t) rs"
  let ?op = "filter (\<lambda>r. fst r > t) (op @ map snd ?begun)"
  have rs: "rs = ?begun @ ?rest" by simp
  have "sorted (map fst (?begun @ ?rest))" using 2(2) by simp
  then have rest: "sorted (map fst ?rest)" unfolding map_append sorted_append by blast
  have split: "open_count rs nm u = open_count ?begun nm u + open_count ?rest nm u" for u
    unfolding open_count_def by (subst rs) (simp only: filter_append length_append of_nat_add)
  have later: "still_count ?op nm u = still_count op nm u + open_count ?begun nm u" if "t \<le> u" for u
  proof -
    have "filter (\<lambda>(b, n). u < b \<and> n = nm) (filter (\<lambda>r. t < fst r) xs) = filter (\<lambda>(b, n). u < b \<and> n = nm) xs" for xs :: "(int \<times> string) list"
      unfolding filter_filter by (rule filter_cong) (use that in auto)
    moreover have "length (filter (\<lambda>(b, n). u < b \<and> n = nm) (map snd ys)) = length (filter (open_at nm u) ys)"
      if "\<forall>r\<in>set ys. fst r \<le> t" for ys :: "prange list"
      using that \<open>t \<le> u\<close> by (induction ys) (auto simp: open_at_def)
    from this [of ?begun] have "length (filter (\<lambda>(b, n). u < b \<and> n = nm) (map snd ?begun)) = length (filter (open_at nm u) ?begun)"
      using set_takeWhileD [of _ "\<lambda>r. fst r \<le> t" rs] by blast
    ultimately show ?thesis unfolding still_count_def open_count_def filter_append length_append by simp
  qed
  have none: "open_count ?rest nm t = 0"
  proof -
    have "t < fst r" if "r \<in> set ?rest" for r
    proof (cases ?rest)
      case (Cons q qs)
      then have "\<not> fst q \<le> t" using hd_dropWhile [of "\<lambda>r. fst r \<le> t" rs] by simp
      moreover have "fst q \<le> fst r" using rest that unfolding Cons by auto
      ultimately show ?thesis by simp
    next
      case Nil
      then show ?thesis using that unfolding Nil by simp
    qed
    then have "\<not> open_at nm t r" if "r \<in> set ?rest" for r using that by (simp add: open_at_def not_le)
    then show ?thesis by (simp add: open_count_def filter_empty_conv)
  qed
  have now: "int (length (filter (\<lambda>(b, n). n = nm) ?op)) = still_count ?op nm t"
  proof -
    have "filter (\<lambda>(b, n). n = nm) ?op = filter (\<lambda>(b, n). t < b \<and> n = nm) ?op"
      by (rule filter_cong) auto
    then show ?thesis by (simp only: still_count_def)
  qed
  have "dict_get (range_sweep rs op ((t, ns) # pts) out) nm 0 =
      dict_get (range_sweep ?rest ?op pts (fold (\<lambda>r. dict_add (snd r) ns) ?op out)) nm 0"
    by (simp add: Let_def)
  also have "\<dots> = dict_get out nm 0 + ns * still_count ?op nm t
      + sum_list (map (\<lambda>(u, ns). ns * (still_count ?op nm u + open_count ?rest nm u)) pts)"
    using 2(1) [OF refl refl rest] 2(3) unfolding fold_add_names now by simp
  also have "map (\<lambda>(u, ns). ns * (still_count ?op nm u + open_count ?rest nm u)) pts =
      map (\<lambda>(u, ns). ns * (still_count op nm u + open_count rs nm u)) pts"
    using 2(3) later split by (intro map_cong refl) (auto simp: algebra_simps)
  finally show ?case using later [of t] split [of t] none by simp
qed simp

text \<open>Sums over the groups of a list, and over a sorted list.\<close>

lemma sum_list_mset_eq: "mset xs = mset ys \<Longrightarrow> sum_list (map f xs) = sum_list (map (f :: 'a \<Rightarrow> int) ys)"
  by (metis mset_map sum_mset_sum_list)

lemma sum_group_by:
  fixes g :: "'a \<Rightarrow> 'b \<Rightarrow> int"
  shows "sum_list (map (\<lambda>(k, ys). sum_list (map (g k) ys)) (group_by key xs)) = sum_list (map (\<lambda>x. g (key x) x) xs)"
proof -
  have flat: "sum_list (map (\<lambda>(k, ys). sum_list (map h ys)) G) = sum_list (map h (concat (map snd G)))"
    for h :: "'b \<Rightarrow> int" and G :: "('a \<times> 'b list) list"
    by (induction G) auto
  have "map (g k) ys = map (\<lambda>x. g (key x) x) ys" if "(k, ys) \<in> set (group_by key xs)" for k ys
    using group_by_entry(1) [OF that] by (intro map_cong) auto
  then have "map (\<lambda>(k, ys). sum_list (map (g k) ys)) (group_by key xs) =
      map (\<lambda>(k, ys). sum_list (map (\<lambda>x. g (key x) x) ys)) (group_by key xs)"
    by (intro map_cong refl) (auto simp del: map_eq_conv)
  also have "sum_list \<dots> = sum_list (map (\<lambda>x. g (key x) x) (concat (map snd (group_by key xs))))"
    by (rule flat)
  finally show ?thesis using sum_list_mset_eq [OF mset_group_by] by metis
qed

lemma open_count_sort [simp]: "open_count (sort rs) nm t = open_count rs nm t"
  by (simp add: open_count_def filter_sort)

lemma sorted_fst_sort: "sorted (map fst (sort xs))"
proof -
  have "sorted (sort xs)" by simp
  then show ?thesis by (rule sorted_map_mono) (auto simp: mono_on_def less_eq_prod_def)
qed

section \<open>Ranges of the trace\<close>

definition named_range :: "string \<Rightarrow> span_event \<Rightarrow> span_event \<Rightarrow> bool" where
  "named_range nm s a \<longleftrightarrow> is_annotation a \<and> category_value (category a) \<in> {''nvtx'', ''other''} \<and> duration_ns a > 0
     \<and> pid a = pid s \<and> tid a = tid s \<and> name a = nm \<and> start_ns a \<le> start_ns s \<and> start_ns s < end_ns a"

definition trace_ranges :: "trace_state \<Rightarrow> span_event list" where
  "trace_ranges t = filter (\<lambda>a. is_annotation a \<and> duration_ns a > 0) (run_query t (any_span\<lparr>q_categories := Some [''nvtx'', ''other'']\<rparr>))"

lemma ranges_map_of:
  "map_of (annotation_ranges t) k =
     (if k \<in> (\<lambda>a. (pid a, tid a)) ` set (trace_ranges t)
      then Some (map (\<lambda>a. (start_ns a, end_ns a, name a)) (filter (\<lambda>a. (pid a, tid a) = k) (trace_ranges t))) else None)"
  unfolding annotation_ranges_def trace_ranges_def [symmetric] map_of_map o_def group_by_map_of by simp

lemma range_query:
  assumes "store_ok (ts_store t)"
  shows "run_query t (any_span\<lparr>q_categories := Some [''nvtx'', ''other'']\<rparr>) =
    filter (\<lambda>s. category_value (category s) \<in> {''nvtx'', ''other''}) (m_spans (ts_store t))"
proof -
  have "run_query t (any_span\<lparr>q_categories := Some [''nvtx'', ''other'']\<rparr>) =
      filter (query_keeps (\<lambda>_. None) (any_span\<lparr>q_categories := Some [''nvtx'', ''other'']\<rparr>)) (m_spans (ts_store t))"
    using store_iter_eq [OF assms, of "any_span\<lparr>q_categories := Some [''nvtx'', ''other'']\<rparr>" "\<lambda>_. None"]
    by (simp add: query_spec_def in_lane_def any_span_def order_spans_def)
  then show ?thesis by (simp add: any_span_def query_keeps_def cong: filter_cong)
qed

lemma ranges_count:
  assumes "store_ok (ts_store t)"
  shows "(case map_of (annotation_ranges t) (pid s, tid s) of None \<Rightarrow> 0 | Some rs \<Rightarrow> open_count rs nm (start_ns s)) =
    int (length (filter (named_range nm s) (m_spans (ts_store t))))"
proof -
  let ?as = "trace_ranges t"
  have n: "filter (named_range nm s) (m_spans (ts_store t)) =
      filter (\<lambda>a. open_at nm (start_ns s) (start_ns a, end_ns a, name a)) (filter (\<lambda>a. (pid a, tid a) = (pid s, tid s)) ?as)"
    unfolding trace_ranges_def range_query [OF assms] filter_filter by (rule filter_cong) (auto simp: named_range_def open_at_def)
  show ?thesis
  proof (cases "(pid s, tid s) \<in> (\<lambda>a. (pid a, tid a)) ` set ?as")
    case True
    then have "map_of (annotation_ranges t) (pid s, tid s) =
        Some (map (\<lambda>a. (start_ns a, end_ns a, name a)) (filter (\<lambda>a. (pid a, tid a) = (pid s, tid s)) ?as))"
      unfolding ranges_map_of by (simp only: if_True)
    then show ?thesis unfolding n by (simp only: option.case open_count_def filter_map length_map o_def)
  next
    case False
    then have "map_of (annotation_ranges t) (pid s, tid s) = None" unfolding ranges_map_of by (simp only: if_False)
    moreover have "filter (\<lambda>a. (pid a, tid a) = (pid s, tid s)) ?as = []"
    proof (rule filter_False, intro ballI notI)
      fix a assume "a \<in> set ?as" "(pid a, tid a) = (pid s, tid s)"
      then have "(pid s, tid s) \<in> (\<lambda>a. (pid a, tid a)) ` set ?as" by (intro image_eqI [where x = a]) simp_all
      then show False using False by blast
    qed
    ultimately show ?thesis unfolding n by simp
  qed
qed

lemma steps_fold:
  "dict_get (fold (\<lambda>(k, pts). range_sweep (sort (the (map_of ranges k))) [] (sort pts)) groups out) nm 0 =
    dict_get out nm 0 +
      sum_list (map (\<lambda>(k, pts). sum_list (map (\<lambda>(u, ns). ns * open_count (the (map_of ranges k)) nm u) pts)) groups)"
proof (induction groups arbitrary: out)
  case (Cons x groups)
  obtain k pts where x: "x = (k, pts)" by (cases x)
  have none: "still_count [] nm u = 0" for u by (simp add: still_count_def)
  have "dict_get (range_sweep (sort (the (map_of ranges k))) [] (sort pts) out) nm 0 =
      dict_get out nm 0 + sum_list (map (\<lambda>(u, ns). ns * open_count (the (map_of ranges k)) nm u) (sort pts))"
    unfolding sweep_exact [OF sorted_fst_sort sorted_fst_sort] none by simp
  also have "sum_list (map (\<lambda>(u, ns). ns * open_count (the (map_of ranges k)) nm u) (sort pts)) =
      sum_list (map (\<lambda>(u, ns). ns * open_count (the (map_of ranges k)) nm u) pts)"
    by (rule sum_list_mset_eq) simp
  finally show ?case by (simp add: x Cons.IH)
qed simp

lemma annotation_time_sum:
  assumes "store_ok (ts_store t)"
  shows "dict_get (annotation_time t timed) nm 0 =
    sum_list (map (\<lambda>(i, ns). ns * int (length (filter (named_range nm (m_spans (ts_store t) ! i)) (m_spans (ts_store t))))) timed)"
proof -
  let ?ss = "m_spans (ts_store t)" and ?R = "annotation_ranges t"
  define lane where "lane = (\<lambda>(i, ns :: int). (pid (?ss ! i), tid (?ss ! i)))"
  define on where "on = (\<lambda>(i, ns :: int). map_of ?R (pid (?ss ! i), tid (?ss ! i)) \<noteq> None)"
  define h where "h = (\<lambda>k (i, ns). ns * open_count (the (map_of ?R k)) nm (start_ns (?ss ! i)))"
  define total where "total = (\<lambda>(i, ns). ns * int (length (filter (named_range nm (?ss ! i)) ?ss)))"
  have count: "total x = (if on x then h (lane x) x else 0)" for x
  proof -
    obtain i ns where x: "x = (i, ns)" by (cases x)
    show ?thesis using ranges_count [OF assms, of nm "?ss ! i"]
      by (auto simp: x total_def on_def h_def lane_def)
  qed
  then have split: "sum_list (map total timed) = sum_list (map (\<lambda>x. h (lane x) x) (filter on timed))"
    by (induction timed) simp_all
  show ?thesis
  proof (cases "timed = [] \<or> ?R = []")
    case True
    have "filter on timed = []" using True
    proof
      assume "?R = []"
      then have "\<not> on x" for x by (cases x) (simp add: on_def)
      then show ?thesis by simp
    qed simp
    then have "sum_list (map total timed) = 0" unfolding split by simp
    then show ?thesis using True by (simp add: annotation_time_def total_def Let_def)
  next
    case False
    have "dict_get (annotation_time t timed) nm 0 =
        sum_list (map (\<lambda>(k, pts). sum_list (map (\<lambda>(u, ns). ns * open_count (the (map_of ?R k)) nm u) pts)) (path_steps ?ss ?R timed))"
      using False by (simp add: annotation_time_def Let_def steps_fold whole_query [OF assms])
    also have "\<dots> = sum_list (map (\<lambda>(k, ps). sum_list (map (h k) ps)) (group_by lane (filter on timed)))"
      unfolding path_steps_def lane_def [symmetric] on_def [symmetric]
      by (simp add: h_def comp_def case_prod_beta')
    also have "\<dots> = sum_list (map total timed)"
      unfolding sum_group_by split ..
    finally show ?thesis unfolding total_def .
  qed
qed

section \<open>A trace with a program range\<close>

lemma cached_of_reach: "store_reach st \<Longrightarrow> cached_reach \<lparr>ts_store = st, ts_health = h\<rparr> []"
proof (induction rule: store_reach.induct)
  case init
  then show ?case by (rule cached_reach.new)
next
  case (app st ev)
  then show ?case using cached_reach.wrote [OF app.IH] store_write.app by fastforce
next
  case (upd st s cur st')
  then show ?case using cached_reach.wrote [OF upd.IH] store_write.upd by fastforce
next
  case (del st eids)
  then show ?case using cached_reach.wrote [OF del.IH] store_write.del [of eids st]
    by (cases "eids = []") (simp_all add: store_delete_spans_def)
qed

definition demo_ranged :: trace_state where
  "demo_ranged = \<lparr>ts_store = snd (store_append (SpanEv (mk_span ''phase'' NVTX 0 20 1 7 [])) (ts_store demo_trace)),
     ts_health = \<lparr>h_receiver = [], h_transport = []\<rparr>\<rparr>"

definition demo_rows :: "edge_row list" where
  "demo_rows = [\<lparr>row_dst = 2, row_src = 0, row_kind = 0, row_conf = 0\<rparr>,
     \<lparr>row_dst = 1, row_src = 0, row_kind = 2, row_conf = 0\<rparr>]"

definition demo_graph :: dep_graph where
  "demo_graph = \<lparr>dg_seqs = [1, 2, 3, 4], dg_edges = demo_rows\<rparr>"

definition demo_read :: skeleton where
  "demo_read = \<lparr>sk_n = 4, sk_t = [0, 4, 10, 16, 5, 7, 0, 20], sk_cat = [''mpi'', ''cuda'', ''mpi'', ''nvtx''],
     sk_name = [''call'', ''work'', ''next'', ''phase''], sk_device = [False, True, False, False],
     sk_excluded = [False, False, False, True], sk_rooted = [False, False, False, False],
     sk_rootflow = [False, False, False, False], sk_blocking = [False, False, False, False], sk_domain = [0, 0, 0, 0],
     sk_stream_key = [(1, 1, ''cuda'', None, None)], sk_lane = [Some 0, None, Some 0, None],
     sk_resolved = [False, False, False, False], sk_lanes = [[0, 2]], sk_dom_keys = [HostDom ''0''],
     sk_dom_bounds = [Some 0]\<rparr>"

definition demo_event_graph :: event_graph where
  "demo_event_graph = build_event_graph demo_read (map edge_of_row demo_rows) True"

lemma demo_ranged_reach: "cached_reach demo_ranged []"
proof -
  have "next_seq (ts_store demo_trace) < 2 ^ 36" by code_simp
  then show ?thesis unfolding demo_ranged_def by (intro cached_of_reach store_reach.app demo_trace_reach)
qed

lemma demo_ranged_load: "load_or_build_graph demo_ranged False [] = (demo_graph, [(''cp-6'', demo_rows)])"
  by code_simp

lemma demo_ranged_event_graph: "trace_event_graph [] demo_ranged demo_graph True = Some demo_event_graph"
proof -
  have "length (dg_seqs demo_graph) = 4" by code_simp
  moreover have "read_spans 4 [] (run_query demo_ranged any_span) = Some demo_read" by code_simp
  moreover have "dg_edges demo_graph = demo_rows" by (simp add: demo_graph_def)
  ultimately show ?thesis by (simp add: trace_event_graph_def demo_event_graph_def)
qed

section \<open>Properties\<close>

text \<open>
  C4. A graph loaded from the store is never stale: after any writes and loads, under either
  matching rule, it is the graph built from the events the store holds now, its rows join spans it
  numbers, loading it again gives it again, and its span-level critical path is the path over the
  full edges.
\<close>

theorem loaded_graph_current:
  assumes "cached_reach t cache" "load_or_build_graph t x cache = (dg, cache')"
  shows "dg = \<lparr>dg_seqs = span_seqs (ts_store t), dg_edges = map edge_row_of (build_edges t x)\<rparr> \<and>
    typed_edges (length (dg_seqs dg)) (map edge_of_row (dg_edges dg)) \<and>
    load_or_build_graph t x cache' = (dg, cache') \<and>
    graph_critical_path t dg = span_critical_path (all_items t) (build_edges t x)"
proof -
  have c: "cache_current t cache" using cached_reach_facts [OF assms(1)] by blast
  have "load_or_build_graph t x cache' = (dg, cache')"
    using load_current(1,3) [OF c assms(2)] by (simp add: load_or_build_graph_def Let_def)
  then show ?thesis using load_current(1) [OF c assms(2)] graph_typed [OF assms] loaded_path [OF assms] by blast
qed

lemma loaded_graph_current_witness:
  "load_or_build_graph demo_ranged False [] = (demo_graph, [(''cp-6'', demo_rows)]) \<and>
   load_or_build_graph demo_ranged False [(''cp-6'', demo_rows)] = (demo_graph, [(''cp-6'', demo_rows)]) \<and>
   demo_rows = map edge_row_of (build_edges demo_ranged False)"
  using loaded_graph_current [OF demo_ranged_reach demo_ranged_load] demo_ranged_load by (simp add: demo_graph_def)

text \<open>
  C2. The spans of a stored trace are read whenever each has a clock domain (its clock tag is a
  number) and every start and end fits in 64 bits, into a well-formed skeleton, and not when one
  does not fit; and the event graph made of what is read is well formed, whatever the spans say:
  its edges join its event nodes within the clock tolerance, its order has each active node once with every enabled edge
  leading forward, and required times are within the durations.
\<close>

theorem trace_graph_wf:
  assumes "cached_reach t cache" "load_or_build_graph t x cache = (dg, cache')"
  shows "((\<forall>s\<in>set (m_spans (ts_store t)). domain_of s (node_bounds_of nbs) \<noteq> None \<and> list_all fits64 (span_times s)) \<longrightarrow>
      (\<exists>sk. read_spans (length (dg_seqs dg)) nbs (run_query t any_span) = Some sk \<and> skeleton_ok sk)) \<and>
    ((\<exists>s\<in>set (m_spans (ts_store t)). \<not> list_all fits64 (span_times s)) \<longrightarrow>
      read_spans (length (dg_seqs dg)) nbs (run_query t any_span) = None) \<and>
    (\<forall>g. trace_event_graph nbs t dg clocks = Some g \<longrightarrow>
      (\<forall>y\<in>set (g_edges g). edge_ok g y) \<and> ordered g (g_order g) \<and>
      set (g_order g) = {v. v < 2 * g_n g \<and> g_active g ! v} \<and>
      (\<forall>e<length (g_edges g). 0 \<le> g_whi g ! e \<and> g_whi g ! e \<le> e_d (edge_of g e)))"
proof (intro conjI)
  note r = trace_spans_read [OF assms, of nbs]
  show "(\<forall>s\<in>set (m_spans (ts_store t)). domain_of s (node_bounds_of nbs) \<noteq> None \<and> list_all fits64 (span_times s)) \<longrightarrow>
      (\<exists>sk. read_spans (length (dg_seqs dg)) nbs (run_query t any_span) = Some sk \<and> skeleton_ok sk)"
    (is "?reads \<longrightarrow> ?found")
  proof
    assume ?reads
    then have "read_spans (length (dg_seqs dg)) nbs (run_query t any_span) \<noteq> None" using r by blast
    then obtain sk where "read_spans (length (dg_seqs dg)) nbs (run_query t any_span) = Some sk" by blast
    then show ?found using read_spans_ok(1) by blast
  qed
  show "(\<exists>s\<in>set (m_spans (ts_store t)). \<not> list_all fits64 (span_times s)) \<longrightarrow>
      read_spans (length (dg_seqs dg)) nbs (run_query t any_span) = None"
    using r by blast
  show "\<forall>g. trace_event_graph nbs t dg clocks = Some g \<longrightarrow>
      (\<forall>y\<in>set (g_edges g). edge_ok g y) \<and> ordered g (g_order g) \<and>
      set (g_order g) = {v. v < 2 * g_n g \<and> g_active g ! v} \<and>
      (\<forall>e<length (g_edges g). 0 \<le> g_whi g ! e \<and> g_whi g ! e \<le> e_d (edge_of g e))"
    using trace_graph_built [OF assms]
    by (auto simp: built_def complete_order_def finished_def graph_ok_def bounds_within_def)
qed

lemma trace_graph_wf_witness:
  "trace_event_graph [] demo_ranged demo_graph True = Some demo_event_graph \<and>
   g_order demo_event_graph = [0, 1, 2, 4, 3, 5] \<and> ordered demo_event_graph [0, 1, 2, 4, 3, 5]"
proof -
  have o: "g_order demo_event_graph = [0, 1, 2, 4, 3, 5]" by code_simp
  show ?thesis
    using trace_graph_wf [OF demo_ranged_reach demo_ranged_load, of "[]" True] demo_ranged_event_graph o by simp
qed

text \<open>
  C3. The report of a trace accounts for its whole path: time on the path by category and waiting
  by cause add up to the path's time, and so do the time credited to the spans and the gaps
  before them; and a program range is given exactly the time of the steps that begin on its
  thread while it is open.
\<close>

theorem report_accounts:
  assumes "cached_reach t cache" "analyze nbs t x sens cache = (Some r, cache')"
  shows "dict_total (rp_on_path r) + dict_total (rp_waited r) = rp_total r \<and>
    sum_list (rp_credited r) + sum_list (rp_gaps r) = rp_total r \<and> 0 \<le> rp_total r \<and>
    dict_get (rp_by_annotation r) nm 0 =
      sum_list (map (\<lambda>(i, own, gap). (own + gap) * int (length (filter (named_range nm (m_spans (ts_store t) ! i)) (m_spans (ts_store t)))))
        (zip (rp_path r) (zip (rp_credited r) (rp_gaps r))))"
proof -
  obtain dg g where l: "load_or_build_graph t x cache = (dg, cache')" "trace_event_graph nbs t dg True = Some g"
    "r = report_of t g sens"
    using assms(2) by (auto simp: analyze_def split: prod.splits)
  have g: "built g" by (rule trace_graph_built [OF assms(1) l(1,2)])
  have ok: "store_ok (ts_store t)" using cached_reach_facts [OF assms(1)] store_reach_ok by blast
  have z: "map (\<lambda>(i, ns). f i ns) (zip xs (map (\<lambda>(a, b). a + b) (zip ys zs))) = map (\<lambda>(i, a, b). f i (a + b)) (zip xs (zip ys zs))"
    for f :: "nat \<Rightarrow> int \<Rightarrow> int" and xs ys zs
    by (simp add: zip_map2 case_prod_beta comp_def)
  have "rp_by_annotation r = annotation_time t (zip (rp_path r) (map (\<lambda>(a, b). a + b) (zip (rp_credited r) (rp_gaps r))))"
    by (simp add: l(3) report_of_def Let_def)
  then show ?thesis
    using report_sums [OF g, of t sens, folded l(3)] by (simp only: annotation_time_sum [OF ok] z simp_thms)
qed

text \<open>The path runs through the call and its work; the range holds the call.\<close>

lemma report_accounts_witness:
  "\<exists>r. analyze [] demo_ranged False None [] = (Some r, [(''cp-6'', demo_rows)]) \<and> rp_total r = 16 \<and>
     dict_total (rp_on_path r) + dict_total (rp_waited r) = 16 \<and> dict_get (rp_by_annotation r) ''phase'' 0 = 4"
proof -
  define r where "r = report_of demo_ranged demo_event_graph None"
  have a: "analyze [] demo_ranged False None [] = (Some r, [(''cp-6'', demo_rows)])"
    by (simp add: analyze_def demo_ranged_load demo_ranged_event_graph r_def)
  have "walk_length (walk demo_event_graph default_mode) = 16" by code_simp
  then have t: "rp_total r = 16" by (simp add: r_def report_of_def analyze_model_def Let_def)
  have "span_view demo_event_graph (walk demo_event_graph default_mode) =
      [(0, 4, 0, [], []), (1, 6, 6, ''explicit_span_id'', ''certain'')]" by code_simp
  then have v: "rp_path r = [0, 1]" "rp_credited r = [4, 6]" "rp_gaps r = [0, 6]"
    by (simp_all add: r_def report_of_def analyze_model_def Let_def)
  have "filter (named_range ''phase'' (m_spans (ts_store demo_ranged) ! 0)) (m_spans (ts_store demo_ranged)) \<noteq> [] \<and>
      length (filter (named_range ''phase'' (m_spans (ts_store demo_ranged) ! 0)) (m_spans (ts_store demo_ranged))) = 1 \<and>
      length (filter (named_range ''phase'' (m_spans (ts_store demo_ranged) ! 1)) (m_spans (ts_store demo_ranged))) = 0"
    by code_simp
  then show ?thesis
    using report_accounts [OF demo_ranged_reach a, of "''phase''"] a t unfolding v by (intro exI [of _ r]) simp
qed

end
