(* ===== verification/Spec2Isabelle.thy ===== *)
theory Spec2Isabelle
  imports Exclusive_Time Streaming_Sweep Clock_Solve Receiver_Facts Gpu_Assembly_Facts
    Trace_Report
begin

text \<open>
  A model of the analysis core of hprofiler (\<^verbatim>\<open>src/src/core\<close> and \<^verbatim>\<open>src/src/analysis\<close>), which
  records what a parallel program does as timed spans and finds where its time went.

  \<^bold>\<open>How the program works.\<close> Hooks in the profiled processes send lines of text to the receiver, one
  connection per hook. The receiver turns the bytes of a connection into records and hands each to
  a callback, which appends events (spans, instants, counters) to a trace store. When a run is over,
  the CUDA and ROCm spans of the store are assembled: device spans are linked to the calls that
  submitted them, duplicates are dropped, device clocks are corrected. The analyses read the store
  through its queries: exclusive time per activity, and the critical path. The critical path starts
  from span-level dependencies (which span could not go on before which other one), which a dozen
  builders derive from threads, streams, messages, collectives, locks, tasks and queues. A first
  analysis searches the longest path of this graph directly. A second one turns spans and
  dependencies into a graph of event points, decides with a clock solver which dependencies the
  clocks of different devices allow, and walks, measures and replays that graph.

  \<^bold>\<open>Theories and source files.\<close> The order is that of the imports.

    \<^item> \<open>Prelude\<close>: dictionaries as association lists in insertion order (\<open>dict_get\<close>, \<open>dict_update\<close>,
      \<open>dict_append\<close>, \<open>group_by\<close>), stable sorting and maximum by a key, bisection, and their lemmas.
    \<^item> \<open>Events\<close> (\<^verbatim>\<open>core/events.py\<close>), \<open>Intervals\<close> (the four interval unions of
      \<^verbatim>\<open>core/store/common.py\<close>, \<^verbatim>\<open>core/gpu_activity.py\<close> and \<^verbatim>\<open>analysis/cct.py\<close>), \<open>Py_Text\<close> (decimal
      texts and splitting), \<open>Heapq\<close> (the heap of the standard library).
    \<^item> \<open>Activity_Buckets\<close>, \<open>Sweep_Owner\<close>, \<open>Exclusive_Time\<close>: \<^verbatim>\<open>analysis/activity_buckets.py\<close>.
      \<open>sweep_step\<close> is one boundary of the sweep of \<open>ExclusiveTime\<close>; the owner is the innermost span.
    \<^item> \<open>Store_Common\<close>, \<open>Streaming_Sweep\<close> (\<^verbatim>\<open>core/store/common.py\<close>), \<open>Memory_Store\<close>, \<open>Store_Facts\<close>,
      \<open>Store_Queries\<close> (\<^verbatim>\<open>core/store/memory.py\<close>, \<^verbatim>\<open>core/store/base.py\<close>): the record \<open>memory_store\<close> has
      the fields of \<open>MemoryTraceStore\<close>; a mutating method is a function that returns the new store,
      or \<open>None\<close> where the code raises. \<open>store_reach\<close> are the stores a sequence of calls can make.
    \<^item> \<open>Gpu_Spans\<close>, \<open>Correlation\<close>, \<open>Correlation_Facts\<close>, \<open>Gpu_Assembly\<close>, \<open>Gpu_Assembly_Facts\<close>:
      \<^verbatim>\<open>core/gpu_activity.py\<close>. \<open>correlate\<close> and \<open>device_clock_corrections\<close> are the functions of that
      name; the phases of \<open>assemble\<close> are \<open>exact_duplicates\<close>, \<open>drop_proxies\<close>, \<open>correct_clocks\<close>,
      \<open>unify_streams\<close>, \<open>link_step\<close>, \<open>write_back\<close> and \<open>summarize\<close>, composed in \<open>assemble_gpu\<close>, a function on the
      store and the status of the hooks.
    \<^item> \<open>Program_Order\<close> (threads, old streams and device synchronizations), \<open>Gpu_Edges\<close>,
      \<open>Gpu_Edges_Facts\<close> (the CUDA and ROCm host and device model), \<open>P2p_Matching\<close> (messages),
      \<open>Rendezvous\<close>, \<open>Rendezvous_Facts\<close> (event loss, collectives, barriers): the edge builders of
      \<^verbatim>\<open>analysis/criticalpath.py\<close>. \<open>Span_Links\<close>: \<^verbatim>\<open>analysis/span_links.py\<close> and the edges that explicit
      ids give. \<open>Nccl_Edges\<close>, \<open>Openmp_Edges\<close>, \<open>Openmp_Facts\<close>, \<open>Opencl_Edges\<close>, and part of \<open>Gpu_Edges\<close>:
      \<^verbatim>\<open>analysis/semantics/\<close>. Every builder is a function from spans with their ordinals (\<open>spans\<close>, the
      pairs \<open>_items\<close> gives) to the list of edges it appends, in the order in which it appends them.
      \<open>Dependency_Graph\<close>: \<open>build_dependency_graph\<close>.
    \<^item> \<open>Span_Path\<close>, \<open>Span_Path_Facts\<close>: the searches of \<^verbatim>\<open>analysis/criticalpath.py\<close>, its topological
      order, dynamic program and greedy fallback, and \<open>attribute_blame\<close>.
    \<^item> \<open>Array_Path\<close> (\<open>_dp_arrays\<close> and the coded edges), \<open>Streamed_Graph\<close>, \<open>Streamed_Facts\<close> (\<open>build_edges\<close> and
      its compact builders, \<open>load_or_build_graph\<close>): the second implementation of edges and search in
      \<^verbatim>\<open>analysis/criticalpath.py\<close>, over queries of the store and arrays. \<open>trace_state\<close> is a store with the
      health of its capture; \<open>edge_cache\<close> the edges persisted with it.
    \<^item> \<open>Clock_Domains\<close>, \<open>Bellman_Ford\<close>, \<open>Clock_Solve\<close>: \<^verbatim>\<open>analysis/cp_clock.py\<close>. \<open>shortest\<close> is
      \<open>_shortest\<close> with its negative cycle, \<open>solve\<close> the loop that drops the weakest dependency of one.
    \<^item> \<open>Event_Graph\<close>, \<open>Topological_Order\<close>, \<open>Graph_Assembly\<close>, \<open>Assembly_Facts\<close>, \<open>Assembled\<close>,
      \<open>Critical_Path\<close>, \<open>Walk_Facts\<close>, \<open>Dag_Values\<close>, \<open>Longest_Path\<close>, \<open>Criticality_Facts\<close>, \<open>Owned_Edges\<close>,
      \<open>Model_Result\<close>: \<^verbatim>\<open>analysis/cp_model.py\<close>. The record \<open>event_graph\<close> has the arrays of \<open>EventGraph\<close>;
      \<open>build_event_graph\<close> goes from the skeleton and the span-level edges to a finished graph.
      \<open>Read_Spans\<close>: \<open>_read_spans\<close>, which makes the skeleton of a trace, with \<open>blocking_wait\<close> of
      \<^verbatim>\<open>analysis/semantics/__init__.py\<close>.
    \<^item> \<open>Attribution\<close>: \<^verbatim>\<open>analysis/cp_attribution.py\<close>, replay and blame.
    \<^item> \<open>Trace_Report\<close>: \<open>analyze\<close> of \<^verbatim>\<open>analysis/criticalpath.py\<close>, from a stored trace to the figures of its
      report. \<open>cached_reach\<close> are the stores and persisted edges that writes and loads can make.
    \<^item> \<open>Utf8\<close>, \<open>Receiver\<close>, \<open>Receiver_Facts\<close>: \<^verbatim>\<open>core/receiver.py\<close>. The reader thread and the parser
      thread of a connection are a step relation; \<open>process\<close> is what the parser does with bytes.

  \<^bold>\<open>What the lemmas show.\<close>

    \<^item> Exclusive time: the sweep gives every instant to the innermost span, in the batch version, in
      the streaming version of the stores and in the store's aggregate alike.
    \<^item> Store: the indexes agree with the event lists in every reachable state, and every query
      narrowed by an index returns what a plain filter would.
    \<^item> GPU activity: a link goes to the nearest submission that carries the span's id; a correction
      is the least one that repairs causality; after assembly no measured operation starts before
      its submission; assembly replaces exactly the spans it means to and is idempotent.
    \<^item> Span-level dependencies: for each builder what its edges are, mostly as an equivalence: the
      last span completed on the thread, the k-th send and the k-th receive of a channel, connected
      components of overlapping calls, descendants of a taskgroup, the last release of a lock up to the tolerance, the spans that
      parent ids name; for
      streams, queues and synchronizations that the order is kept and that a wait is causal. All edges
      stay within the trace.
    \<^item> Span-level path: the topological order exists iff the graph has no cycle; the dynamic program
      returns a path of the greatest account; on cyclic graphs the greedy search returns; the time
      attributed is the extent of the path. The array version returns the same path, and the builders
      that stream the store make the same edges.
    \<^item> Whole pipeline: a loaded graph is never stale; the event graph of any stored trace is well
      formed; its report accounts for the whole path.
    \<^item> Event-point graph: the assembled graph is well formed and topologically ordered; the clock
      solver keeps a satisfiable set of dependencies and reports sound intervals; the observed walk is
      a chain of latest releases; longest paths and the cut test of criticality agree with their
      definitions over all paths; path rows and blame add up; a replay of the unchanged run is never
      ahead of the recording, and equals it when no enabled edge goes back in time.
    \<^item> Receiver: under any interleaving a finished connection has processed every byte received but those
      left by a failed read of its spool; framing
      does not matter; errors are counted; and the one failure in which the order is lost.

  \<^bold>\<open>Contracts.\<close> An interface with several users is a locale, interpreted on the model's own definitions
  in the theory that provides it; properties stand outside and rest on the interpretations.

  \<^bold>\<open>Loops, fuel and bounds.\<close> Loops over a list are folds of a step function. Loops with another measure
  (\<open>kahn\<close>, \<open>walk_loop\<close>, \<open>collect_cycle\<close>, \<open>descend\<close>, bisection) are functions with a termination proof. Three
  take fuel: \<open>span_kahn\<close> and \<open>greedy\<close> the number of spans, \<open>tail_loop\<close> the number of edges. It is enough:
  \<open>critical_path_returns\<close> and \<open>build_event_graph_wf\<close> have no hypothesis about fuel, and \<open>kahn_order\<close> always
  answers. \<open>solve_rounds\<close> and the passes of \<open>shortest\<close> are bounded in the code itself, and
  \<open>clock_kept_consistent\<close> shows that the bound suffices. \<open>last_before\<close> looks back at most 64 works, as the
  code does; no property assumes that this is enough. Event ids are shown to stay below \<open>2 ^ 53\<close>.
  Python's integers are unbounded, and so are those of the model, but the graph code keeps times in
  64-bit arrays. \<open>read_spans\<close> is None for a start or an end that does not fit, where \<open>_read_spans\<close> raises.
  What is computed from the times it has read (shifts, durations and releases of the event graph)
  and the columns of \<open>_dp_arrays\<close> are unbounded in the model: for spans of close to \<open>2 ^ 63\<close>
  nanoseconds the code can raise an \<open>OverflowError\<close> there, and the properties are about runs in which it
  does not.

  \<^bold>\<open>Not modelled.\<close>

    \<^item> Floating point: infinities and nan in clock tags are read as \<open>float\<close> reads them; a bound of an
      asynchronous NCCL span that is nan or minus infinity is outside the model (None). Ratios, the slope of a clock correction and its rounding are exact rationals,
      with rounding to even at the end.
    \<^item> Text: \<open>str.strip\<close> and \<open>int\<close> know ASCII only; \<open>str\<close> and \<open>repr\<close> are written out for the texts that are
      used as sort keys. Wording for people (\<open>describe\<close>, \<open>degraded_warnings\<close>, \<open>dependency_warnings\<close>, reports,
      notes) is left out.
    \<^item> Equality of \<open>build_edges\<close> and \<open>build_dependency_graph\<close> as a whole: \<open>streamed_builders_same\<close> states it for
      the builders over all processes; for those run one process at a time only that their edges join
      spans of the trace is shown.
    \<^item> Alternative worlds, edge probabilities, evidence exports and the JSON form of the report.
    \<^item> The disk store, whose queries are SQL; sockets, deadlines and the accepting of connections;
      the runner, the graphical and terminal interfaces, disassembly and source mapping, the hardware
      counters, comparison of traces: they are bound to processes, files, external tools and widgets.
\<close>

end
